(* ===== verification/Rust_Prelude.thy ===== *)
theory Rust_Prelude
  imports Main "HOL-Library.Multiset" "HOL-Library.Word"
begin

text \<open>
  What the components share of the Rust language and its core library: panics as values
  (\<open>outcome\<close>), \<open>Result\<close>, \<open>Poll\<close>, the checked arithmetic of \<open>usize\<close> (32 bits on the
  TriCore target) and \<open>u64\<close>, task wakers (\<open>core::task::Waker\<close>) and the lemmas on lists that
  several components use.

  A function of the source that can panic returns an \<open>outcome\<close>.  An arithmetic operation that
  leaves the range of its type is \<open>Panic ArithOverflow\<close>, as it is with overflow checks on; the
  theorems show that the components never reach it from a well-formed state, so that the
  build profile makes no difference there.
\<close>

section \<open>Panics, results and polls\<close>

datatype panic =
    AssertFailed        \<comment> \<open>\<open>assert!\<close> or \<open>assert_eq!\<close>\<close>
  | UnwrapFailed        \<comment> \<open>\<open>unwrap\<close> or \<open>expect\<close> of \<open>None\<close> or \<open>Err\<close>\<close>
  | ArithOverflow       \<comment> \<open>an integer operation out of range\<close>
  | BorrowMutError      \<comment> \<open>\<open>RefCell::borrow_mut\<close> of a borrowed cell\<close>
  | SliceOutOfRange     \<comment> \<open>a slice index past the end\<close>
  | ExplicitPanic       \<comment> \<open>\<open>panic!\<close> in the source\<close>
  | UndefinedBehaviour  \<comment> \<open>a raw pointer that points to nothing is dereferenced\<close>

datatype 'a outcome = Ret 'a | Panic panic

datatype ('a, 'e) result = Ok 'a | Err 'e

datatype 'a poll = Ready 'a | Pending

fun poll_value :: "'a poll \<Rightarrow> 'a option" where
  "poll_value (Ready x) = Some x"
| "poll_value Pending = None"

fun bind_out :: "'a outcome \<Rightarrow> ('a \<Rightarrow> 'b outcome) \<Rightarrow> 'b outcome" where
  "bind_out (Ret x) f = f x"
| "bind_out (Panic p) f = Panic p"

lemma bind_out_eq_Ret [simp]: "bind_out m f = Ret y \<longleftrightarrow> (\<exists>x. m = Ret x \<and> f x = Ret y)"
  by (cases m) auto

lemma bind_out_cong [fundef_cong]:
  "m = m' \<Longrightarrow> (\<And>x. m' = Ret x \<Longrightarrow> f x = f' x) \<Longrightarrow> bind_out m f = bind_out m' f'"
  by (cases m') auto

text \<open>A loop with fuel returns \<open>None\<close> when the fuel runs out; composing two such computations.\<close>

fun bind_fuel :: "'a outcome option \<Rightarrow> ('a \<Rightarrow> 'b outcome option) \<Rightarrow> 'b outcome option" where
  "bind_fuel None f = None"
| "bind_fuel (Some (Panic p)) f = Some (Panic p)"
| "bind_fuel (Some (Ret x)) f = f x"

lemma bind_fuel_eq_Ret [simp]:
  "bind_fuel m f = Some (Ret y) \<longleftrightarrow> (\<exists>x. m = Some (Ret x) \<and> f x = Some (Ret y))"
  by (cases "(m, f)" rule: bind_fuel.cases) auto

fun is_Ret :: "'a outcome \<Rightarrow> bool" where
  "is_Ret (Ret _) = True"
| "is_Ret (Panic _) = False"

lemma is_Ret_iff: "is_Ret m \<longleftrightarrow> (\<exists>x. m = Ret x)"
  by (cases m) auto

definition rust_assert :: "bool \<Rightarrow> unit outcome" where
  "rust_assert b = (if b then Ret () else Panic AssertFailed)"

fun unwrap_option :: "'a option \<Rightarrow> 'a outcome" where
  "unwrap_option (Some x) = Ret x"
| "unwrap_option None = Panic UnwrapFailed"

fun unwrap_result :: "('a, 'e) result \<Rightarrow> 'a outcome" where
  "unwrap_result (Ok x) = Ret x"
| "unwrap_result (Err _) = Panic UnwrapFailed"

fun result_ok :: "('a, 'e) result \<Rightarrow> 'a option" where
  "result_ok (Ok x) = Some x"
| "result_ok (Err _) = None"

section \<open>Integers\<close>

definition usize_max :: nat where
  "usize_max = 4294967295"

definition u64_max :: nat where
  "u64_max = 18446744073709551615"

definition add_usize :: "nat \<Rightarrow> nat \<Rightarrow> nat outcome" where
  "add_usize a b = (if a + b \<le> usize_max then Ret (a + b) else Panic ArithOverflow)"

definition sub_usize :: "nat \<Rightarrow> nat \<Rightarrow> nat outcome" where
  "sub_usize a b = (if b \<le> a then Ret (a - b) else Panic ArithOverflow)"

definition add_u64 :: "nat \<Rightarrow> nat \<Rightarrow> nat outcome" where
  "add_u64 a b = (if a + b \<le> u64_max then Ret (a + b) else Panic ArithOverflow)"

definition sub_u64 :: "nat \<Rightarrow> nat \<Rightarrow> nat outcome" where
  "sub_u64 a b = (if b \<le> a then Ret (a - b) else Panic ArithOverflow)"

named_theorems rust_arith \<open>the checked operations, for unfolding\<close>

declare rust_assert_def [rust_arith] add_usize_def [rust_arith] sub_usize_def [rust_arith]
  add_u64_def [rust_arith] sub_u64_def [rust_arith]

lemma add_usize_Ret [simp]: "a + b \<le> usize_max \<Longrightarrow> add_usize a b = Ret (a + b)"
  by (simp add: add_usize_def)

lemma sub_usize_Ret [simp]: "b \<le> a \<Longrightarrow> sub_usize a b = Ret (a - b)"
  by (simp add: sub_usize_def)

lemma add_u64_Ret [simp]: "a + b \<le> u64_max \<Longrightarrow> add_u64 a b = Ret (a + b)"
  by (simp add: add_u64_def)

lemma sub_u64_Ret [simp]: "b \<le> a \<Longrightarrow> sub_u64 a b = Ret (a - b)"
  by (simp add: sub_u64_def)

lemma rust_assert_True [simp]: "rust_assert True = Ret ()"
  by (simp add: rust_assert_def)

section \<open>Wakers\<close>

text \<open>
  A \<open>core::task::Waker\<close> is a data pointer and a vtable.  The executor of this repository makes
  every waker with its own \<open>VTABLE\<close> and the address of a task header (\<open>executor/waker.rs\<close>); a
  waker of another executor has another vtable.  \<open>Waker::will_wake\<close> compares both parts.

  The synchronisation primitives only store wakers and wake them.  Waking does not touch the
  primitive itself (it enqueues a task at its executor), so an operation of a primitive returns
  the list of the wakers it woke, in order, beside its result and its new state; the executor's
  theory says what waking does.
\<close>

datatype vtable = VTABLE | ForeignVTable nat

datatype waker = RawWaker (waker_data: nat) (waker_vtable: vtable)

definition will_wake :: "waker \<Rightarrow> waker \<Rightarrow> bool" where
  "will_wake w1 w2 \<longleftrightarrow> waker_data w1 = waker_data w2 \<and> waker_vtable w1 = waker_vtable w2"

lemma will_wake_eq [simp]: "will_wake w1 w2 \<longleftrightarrow> w1 = w2"
  by (cases w1; cases w2) (auto simp: will_wake_def)

section \<open>Lists\<close>

named_theorems slice_simps \<open>slices of lists, as the buffers use them\<close>

definition slice_of :: "nat \<Rightarrow> nat \<Rightarrow> 'a list \<Rightarrow> 'a list" where
  "slice_of i j xs = take (j - i) (drop i xs)"

lemma length_slice [simp]: "j \<le> length xs \<Longrightarrow> length (slice_of i j xs) = j - i"
  by (simp add: slice_of_def)

lemma slice_empty [simp]: "j \<le> i \<Longrightarrow> slice_of i j xs = []"
  by (simp add: slice_of_def)

lemma slice_append:
  "i \<le> j \<Longrightarrow> j \<le> k \<Longrightarrow> slice_of i j xs @ slice_of j k xs = slice_of i k xs"
proof -
  assume le: "i \<le> j" "j \<le> k"
  then have "take (k - i) (drop i xs) = take ((j - i) + (k - j)) (drop i xs)" by simp
  also have "\<dots> = take (j - i) (drop i xs) @ take (k - j) (drop j xs)"
    using le by (simp only: take_add drop_drop) simp
  finally show ?thesis by (simp add: slice_of_def)
qed

text \<open>Overwriting part of a buffer, as \<open>copy_from_slice\<close> does.\<close>

definition write_at :: "nat \<Rightarrow> 'a list \<Rightarrow> 'a list \<Rightarrow> 'a list" where
  "write_at i ys xs = take i xs @ ys @ drop (i + length ys) xs"

lemma length_write_at [simp]:
  "i + length ys \<le> length xs \<Longrightarrow> length (write_at i ys xs) = length xs"
  by (simp add: write_at_def)

lemma slice_write_at_same [slice_simps]:
  "i + length ys \<le> length xs \<Longrightarrow> slice_of i (i + length ys) (write_at i ys xs) = ys"
  by (simp add: slice_of_def write_at_def)

lemma slice_write_at_before [slice_simps]:
  "b \<le> i \<Longrightarrow> i + length ys \<le> length xs \<Longrightarrow> slice_of a b (write_at i ys xs) = slice_of a b xs"
  by (cases "a \<le> b") (auto simp: slice_of_def write_at_def take_drop min_def)

lemma slice_write_at_after [slice_simps]:
  "i + length ys \<le> a \<Longrightarrow> i + length ys \<le> length xs \<Longrightarrow> slice_of a b (write_at i ys xs) = slice_of a b xs"
  by (simp add: slice_of_def write_at_def)

end
