(* ===== verification/Heapless.thy ===== *)
theory Heapless
  imports Rust_Prelude
begin

text \<open>
  The containers of the \<open>heapless\<close> crate.  The crate is not part of the repository, so its
  containers are parameters of the model: a record of the operations the source calls, passed
  to the definitions that use it, and a locale with what the documentation of the crate says
  about these operations.  Every locale fixes an invariant and an abstraction of the container
  to a list or a multiset.  The list-backed operations at the end of each section satisfy the
  laws and make the theorems that assume them applicable to concrete inputs.
\<close>

section \<open>\<open>heapless::Deque\<close>\<close>

record ('q, 'a) deque_ops =
  Deque_new :: "'q"
  Deque_len :: "'q \<Rightarrow> nat"
  Deque_capacity :: "'q \<Rightarrow> nat"
  Deque_is_empty :: "'q \<Rightarrow> bool"
  Deque_is_full :: "'q \<Rightarrow> bool"
  Deque_push_back :: "'q \<Rightarrow> 'a \<Rightarrow> (unit, 'a) result \<times> 'q"
  Deque_push_front :: "'q \<Rightarrow> 'a \<Rightarrow> (unit, 'a) result \<times> 'q"
  Deque_pop_front :: "'q \<Rightarrow> 'a option \<times> 'q"
  Deque_front :: "'q \<Rightarrow> 'a option"
  Deque_nth :: "'q \<Rightarrow> nat \<Rightarrow> 'a option"        \<comment> \<open>read through \<open>iter_mut().nth(i)\<close>\<close>
  Deque_set_nth :: "'q \<Rightarrow> nat \<Rightarrow> 'a \<Rightarrow> 'q"    \<comment> \<open>write through \<open>iter_mut().nth(i)\<close>\<close>

locale bounded_deque =
  fixes D :: "('q, 'a) deque_ops"
    and N :: nat
    and dq_inv :: "'q \<Rightarrow> bool"
    and items :: "'q \<Rightarrow> 'a list"
  assumes new [simp]: "dq_inv (Deque_new D)" "items (Deque_new D) = []"
    and bounded: "dq_inv q \<Longrightarrow> length (items q) \<le> N"
    and len [simp]: "dq_inv q \<Longrightarrow> Deque_len D q = length (items q)"
    and capacity [simp]: "dq_inv q \<Longrightarrow> Deque_capacity D q = N"
    and is_empty [simp]: "dq_inv q \<Longrightarrow> Deque_is_empty D q \<longleftrightarrow> items q = []"
    and is_full [simp]: "dq_inv q \<Longrightarrow> Deque_is_full D q \<longleftrightarrow> length (items q) = N"
    and push_back: "dq_inv q \<Longrightarrow> Deque_push_back D q x = (r, q') \<Longrightarrow>
          dq_inv q' \<and> (if length (items q) < N then r = Ok () \<and> items q' = items q @ [x]
                       else r = Err x \<and> items q' = items q)"
    and push_front: "dq_inv q \<Longrightarrow> Deque_push_front D q x = (r, q') \<Longrightarrow>
          dq_inv q' \<and> (if length (items q) < N then r = Ok () \<and> items q' = x # items q
                       else r = Err x \<and> items q' = items q)"
    and pop_front: "dq_inv q \<Longrightarrow> Deque_pop_front D q = (m, q') \<Longrightarrow>
          dq_inv q' \<and> (case items q of [] \<Rightarrow> m = None \<and> items q' = []
                       | x # xs \<Rightarrow> m = Some x \<and> items q' = xs)"
    and front: "dq_inv q \<Longrightarrow>
          Deque_front D q = (case items q of [] \<Rightarrow> None | x # xs \<Rightarrow> Some x)"
    and nth: "dq_inv q \<Longrightarrow>
          Deque_nth D q i = (if i < length (items q) then Some (items q ! i) else None)"
    and set_nth [simp]: "dq_inv q \<Longrightarrow> i < length (items q) \<Longrightarrow> dq_inv (Deque_set_nth D q i x)"
          "dq_inv q \<Longrightarrow> i < length (items q) \<Longrightarrow>
            items (Deque_set_nth D q i x) = (items q)[i := x]"
begin

lemma push_back_cases [consumes 1]:
  assumes "dq_inv q"
  obtains (ok) q' where "length (items q) < N" "Deque_push_back D q x = (Ok (), q')"
      "dq_inv q'" "items q' = items q @ [x]"
    | (full) q' where "length (items q) = N" "Deque_push_back D q x = (Err x, q')"
      "dq_inv q'" "items q' = items q"
proof -
  obtain r q' where eq: "Deque_push_back D q x = (r, q')" by (metis surj_pair)
  show ?thesis
    using push_back [OF assms eq] bounded [OF assms] eq ok full
    by (cases "length (items q) < N") auto
qed

lemma push_front_cases [consumes 1]:
  assumes "dq_inv q"
  obtains (ok) q' where "length (items q) < N" "Deque_push_front D q x = (Ok (), q')"
      "dq_inv q'" "items q' = x # items q"
    | (full) q' where "length (items q) = N" "Deque_push_front D q x = (Err x, q')"
      "dq_inv q'" "items q' = items q"
proof -
  obtain r q' where eq: "Deque_push_front D q x = (r, q')" by (metis surj_pair)
  show ?thesis
    using push_front [OF assms eq] bounded [OF assms] eq ok full
    by (cases "length (items q) < N") auto
qed

lemma pop_front_cases [consumes 1]:
  assumes "dq_inv q"
  obtains (none) q' where "items q = []" "Deque_pop_front D q = (None, q')"
      "dq_inv q'" "items q' = []"
    | (some) x xs q' where "items q = x # xs" "Deque_pop_front D q = (Some x, q')"
      "dq_inv q'" "items q' = xs"
proof -
  obtain r q' where eq: "Deque_pop_front D q = (r, q')" by (metis surj_pair)
  show ?thesis
    using pop_front [OF assms eq] eq none some by (cases "items q") auto
qed

end

text \<open>The list-backed deque of capacity \<open>N\<close>.\<close>

definition list_deque :: "nat \<Rightarrow> ('a list, 'a) deque_ops" where
  "list_deque N = \<lparr>
     Deque_new = [],
     Deque_len = length,
     Deque_capacity = (\<lambda>_. N),
     Deque_is_empty = (\<lambda>q. q = []),
     Deque_is_full = (\<lambda>q. length q = N),
     Deque_push_back = (\<lambda>q x. if length q < N then (Ok (), q @ [x]) else (Err x, q)),
     Deque_push_front = (\<lambda>q x. if length q < N then (Ok (), x # q) else (Err x, q)),
     Deque_pop_front = (\<lambda>q. case q of [] \<Rightarrow> (None, []) | x # xs \<Rightarrow> (Some x, xs)),
     Deque_front = (\<lambda>q. case q of [] \<Rightarrow> None | x # xs \<Rightarrow> Some x),
     Deque_nth = (\<lambda>q i. if i < length q then Some (q ! i) else None),
     Deque_set_nth = (\<lambda>q i x. q[i := x]) \<rparr>"

lemma list_deque_bounded: "bounded_deque (list_deque N) N (\<lambda>q. length q \<le> N) (\<lambda>q. q)"
  by unfold_locales (auto simp: list_deque_def split: if_splits list.splits)

interpretation list_deque: bounded_deque "list_deque N" N "\<lambda>q. length q \<le> N" "\<lambda>q. q"
  by (rule list_deque_bounded)

section \<open>\<open>heapless::Vec\<close>\<close>

record ('v, 'a) vec_ops =
  Vec_new :: "'v"
  Vec_as_slice :: "'v \<Rightarrow> 'a list"
  Vec_len :: "'v \<Rightarrow> nat"
  Vec_is_full :: "'v \<Rightarrow> bool"
  Vec_push :: "'v \<Rightarrow> 'a \<Rightarrow> (unit, 'a) result \<times> 'v"
  Vec_set_len_0 :: "'v \<Rightarrow> 'v"             \<comment> \<open>\<open>set_len(0)\<close>\<close>
  Vec_set_nth :: "'v \<Rightarrow> nat \<Rightarrow> 'a \<Rightarrow> 'v"    \<comment> \<open>write through \<open>get_mut(i)\<close>\<close>

locale bounded_vec =
  fixes V :: "('v, 'a) vec_ops"
    and N :: nat
    and vec_inv :: "'v \<Rightarrow> bool"
  assumes new [simp]: "vec_inv (Vec_new V)" "Vec_as_slice V (Vec_new V) = []"
    and bounded: "vec_inv v \<Longrightarrow> length (Vec_as_slice V v) \<le> N"
    and len [simp]: "vec_inv v \<Longrightarrow> Vec_len V v = length (Vec_as_slice V v)"
    and is_full [simp]: "vec_inv v \<Longrightarrow> Vec_is_full V v \<longleftrightarrow> length (Vec_as_slice V v) = N"
    and push: "vec_inv v \<Longrightarrow> Vec_push V v x = (r, v') \<Longrightarrow>
          vec_inv v' \<and> (if length (Vec_as_slice V v) < N
                        then r = Ok () \<and> Vec_as_slice V v' = Vec_as_slice V v @ [x]
                        else r = Err x \<and> Vec_as_slice V v' = Vec_as_slice V v)"
    and set_len_0 [simp]: "vec_inv v \<Longrightarrow> vec_inv (Vec_set_len_0 V v)"
          "vec_inv v \<Longrightarrow> Vec_as_slice V (Vec_set_len_0 V v) = []"
    and set_nth [simp]:
          "vec_inv v \<Longrightarrow> i < length (Vec_as_slice V v) \<Longrightarrow> vec_inv (Vec_set_nth V v i x)"
          "vec_inv v \<Longrightarrow> i < length (Vec_as_slice V v) \<Longrightarrow>
            Vec_as_slice V (Vec_set_nth V v i x) = (Vec_as_slice V v)[i := x]"
begin

lemma push_cases [consumes 1]:
  assumes "vec_inv v"
  obtains (ok) v' where "length (Vec_as_slice V v) < N" "Vec_push V v x = (Ok (), v')"
      "vec_inv v'" "Vec_as_slice V v' = Vec_as_slice V v @ [x]"
    | (full) v' where "length (Vec_as_slice V v) = N" "Vec_push V v x = (Err x, v')"
      "vec_inv v'" "Vec_as_slice V v' = Vec_as_slice V v"
proof -
  obtain r v' where eq: "Vec_push V v x = (r, v')" by (metis surj_pair)
  show ?thesis
    using push [OF assms eq] bounded [OF assms] eq ok full
    by (cases "length (Vec_as_slice V v) < N") auto
qed

end

definition list_vec :: "nat \<Rightarrow> ('a list, 'a) vec_ops" where
  "list_vec N = \<lparr>
     Vec_new = [],
     Vec_as_slice = (\<lambda>v. v),
     Vec_len = length,
     Vec_is_full = (\<lambda>v. length v = N),
     Vec_push = (\<lambda>v x. if length v < N then (Ok (), v @ [x]) else (Err x, v)),
     Vec_set_len_0 = (\<lambda>_. []),
     Vec_set_nth = (\<lambda>v i x. v[i := x]) \<rparr>"

lemma list_vec_bounded: "bounded_vec (list_vec N) N (\<lambda>v. length v \<le> N)"
  by unfold_locales (auto simp: list_vec_def split: if_splits)

interpretation list_vec: bounded_vec "list_vec N" N "\<lambda>v. length v \<le> N"
  by (rule list_vec_bounded)

section \<open>\<open>heapless::BinaryHeap\<close>\<close>

text \<open>
  The order of the elements is a parameter \<open>le\<close> of the laws: for a \<open>Min\<close> heap it is the
  element type's order, for a \<open>Max\<close> heap the reverse.  The source's element types are ordered
  by a key only, so \<open>le\<close> is a total preorder.
\<close>

record ('h, 'a) heap_ops =
  Heap_new :: "'h"
  Heap_len :: "'h \<Rightarrow> nat"
  Heap_capacity :: "'h \<Rightarrow> nat"
  Heap_is_empty :: "'h \<Rightarrow> bool"
  Heap_push :: "'h \<Rightarrow> 'a \<Rightarrow> (unit, 'a) result \<times> 'h"
  Heap_pop :: "'h \<Rightarrow> 'a option \<times> 'h"
  Heap_peek :: "'h \<Rightarrow> 'a option"

locale bounded_heap =
  fixes H :: "('h, 'a) heap_ops"
    and N :: nat
    and le :: "'a \<Rightarrow> 'a \<Rightarrow> bool"
    and hp_inv :: "'h \<Rightarrow> bool"
    and elems :: "'h \<Rightarrow> 'a multiset"
  assumes new [simp]: "hp_inv (Heap_new H)" "elems (Heap_new H) = {#}"
    and bounded: "hp_inv h \<Longrightarrow> size (elems h) \<le> N"
    and len [simp]: "hp_inv h \<Longrightarrow> Heap_len H h = size (elems h)"
    and capacity [simp]: "hp_inv h \<Longrightarrow> Heap_capacity H h = N"
    and is_empty [simp]: "hp_inv h \<Longrightarrow> Heap_is_empty H h \<longleftrightarrow> elems h = {#}"
    and push: "hp_inv h \<Longrightarrow> Heap_push H h x = (r, h') \<Longrightarrow>
          hp_inv h' \<and> (if size (elems h) < N then r = Ok () \<and> elems h' = add_mset x (elems h)
                       else r = Err x \<and> elems h' = elems h)"
    and peek_None: "hp_inv h \<Longrightarrow> Heap_peek H h = None \<longleftrightarrow> elems h = {#}"
    and peek_Some: "hp_inv h \<Longrightarrow> Heap_peek H h = Some x \<Longrightarrow>
          x \<in># elems h \<and> (\<forall>y \<in># elems h. le x y)"
    and pop: "hp_inv h \<Longrightarrow> Heap_pop H h = (m, h') \<Longrightarrow>
          hp_inv h' \<and> m = Heap_peek H h \<and>
          elems h' = (case m of None \<Rightarrow> {#} | Some x \<Rightarrow> elems h - {#x#})"
begin

lemma push_cases [consumes 1]:
  assumes "hp_inv h"
  obtains (ok) h' where "size (elems h) < N" "Heap_push H h x = (Ok (), h')"
      "hp_inv h'" "elems h' = add_mset x (elems h)"
    | (full) h' where "size (elems h) = N" "Heap_push H h x = (Err x, h')"
      "hp_inv h'" "elems h' = elems h"
proof -
  obtain r h' where eq: "Heap_push H h x = (r, h')" by (metis surj_pair)
  show ?thesis
    using push [OF assms eq] bounded [OF assms] eq ok full
    by (cases "size (elems h) < N") auto
qed

lemma pop_cases [consumes 1]:
  assumes "hp_inv h"
  obtains (none) h' where "elems h = {#}" "Heap_peek H h = None" "Heap_pop H h = (None, h')"
      "hp_inv h'" "elems h' = {#}"
    | (some) x h' where "Heap_peek H h = Some x" "x \<in># elems h"
      "\<And>y. y \<in># elems h \<Longrightarrow> le x y" "Heap_pop H h = (Some x, h')"
      "hp_inv h'" "elems h = add_mset x (elems h')"
proof -
  obtain r h' where eq: "Heap_pop H h = (r, h')" by (metis surj_pair)
  note p = pop [OF assms eq]
  show ?thesis
  proof (cases r)
    case None
    with p peek_None [OF assms] eq none show ?thesis by auto
  next
    case (Some x)
    with p have pk: "Heap_peek H h = Some x" by simp
    from peek_Some [OF assms pk] have top: "x \<in># elems h" "\<And>y. y \<in># elems h \<Longrightarrow> le x y"
      by auto
    with p Some have "elems h = add_mset x (elems h')" by simp
    with p Some eq pk top show ?thesis by (intro some [of x h']) simp_all
  qed
qed

end

text \<open>The heap as a list kept sorted by \<open>insort_key\<close>, for a key into the naturals.\<close>

definition sorted_heap :: "nat \<Rightarrow> ('a \<Rightarrow> 'k::linorder) \<Rightarrow> ('a list, 'a) heap_ops" where
  "sorted_heap N key = \<lparr>
     Heap_new = [],
     Heap_len = length,
     Heap_capacity = (\<lambda>_. N),
     Heap_is_empty = (\<lambda>h. h = []),
     Heap_push = (\<lambda>h x. if length h < N then (Ok (), insort_key key x h) else (Err x, h)),
     Heap_pop = (\<lambda>h. case h of [] \<Rightarrow> (None, []) | x # xs \<Rightarrow> (Some x, xs)),
     Heap_peek = (\<lambda>h. case h of [] \<Rightarrow> None | x # xs \<Rightarrow> Some x) \<rparr>"

lemma sorted_heap_bounded:
  "bounded_heap (sorted_heap N key) N (\<lambda>x y. key x \<le> key y)
     (\<lambda>h. length h \<le> N \<and> sorted (map key h)) mset"
  by unfold_locales
    (auto simp: sorted_heap_def sorted_insort_key split: if_splits list.splits)

interpretation sorted_heap: bounded_heap "sorted_heap N key" N "\<lambda>x y. key x \<le> key y"
    "\<lambda>h. length h \<le> N \<and> sorted (map key h)" mset
  by (rule sorted_heap_bounded)

end
