(* ===== verification/Waitqueue.thy ===== *)
theory Waitqueue
  imports Heapless
begin

text \<open>
  The wait queues of \<open>src/src/sync/waitqueue\<close>: \<open>WakerRegistration\<close> (one slot),
  \<open>MultiWakerRegistration\<close> (a bounded vector of slots) and \<open>AtomicWaker\<close> (one slot that keeps
  its waker when it wakes).  The locale \<open>waker_store\<close> is what the primitives rely on: a
  registered waker stays registered until it is woken.  Its lemmas carry the proofs that no
  sleeping task is forgotten.  \<open>WakerRegistration\<close> and \<open>MultiWakerRegistration\<close> are instances;
  \<open>AtomicWaker\<close> is not, since registering a second waker drops the first one unwoken.
\<close>

section \<open>The contract of a wait queue\<close>

locale waker_store =
  fixes register :: "'r \<Rightarrow> waker \<Rightarrow> ('r \<times> waker list) outcome"
    and wake :: "'r \<Rightarrow> 'r \<times> waker list"
    and registered :: "'r \<Rightarrow> waker set"
    and ws_inv :: "'r \<Rightarrow> bool"
  assumes register_ret: "ws_inv r \<Longrightarrow> \<exists>r' ws. register r w = Ret (r', ws)"
    and register_inv: "ws_inv r \<Longrightarrow> register r w = Ret (r', ws) \<Longrightarrow> ws_inv r'"
    and register_self: "ws_inv r \<Longrightarrow> register r w = Ret (r', ws) \<Longrightarrow> w \<in> registered r'"
    and register_keeps: "ws_inv r \<Longrightarrow> register r w = Ret (r', ws) \<Longrightarrow>
          registered r \<subseteq> registered r' \<union> set ws"
    and wake_inv: "ws_inv r \<Longrightarrow> wake r = (r', ws) \<Longrightarrow> ws_inv r'"
    and wake_all: "ws_inv r \<Longrightarrow> wake r = (r', ws) \<Longrightarrow> registered r \<subseteq> set ws"
begin

text \<open>
  \<open>S\<close> is the set of the tasks that sleep on this queue: they were registered and have not been
  woken since.
\<close>

lemma sleepers_register:
  assumes "ws_inv r" "S \<subseteq> registered r" "register r w = Ret (r', ws)"
  shows "insert w (S - set ws) \<subseteq> registered r'"
  using register_self [OF assms(1,3)] register_keeps [OF assms(1,3)] assms(2) by auto

lemma sleepers_wake:
  assumes "ws_inv r" "S \<subseteq> registered r" "wake r = (r', ws)"
  shows "S - set ws = {}"
  using wake_all [OF assms(1,3)] assms(2) by auto

end

section \<open>\<open>WakerRegistration\<close>\<close>

record waker_registration =
  wr_waker :: "waker option"

definition WakerRegistration_new :: waker_registration where
  "WakerRegistration_new = \<lparr>wr_waker = None\<rparr>"

definition WakerRegistration_register ::
  "waker_registration \<Rightarrow> waker \<Rightarrow> waker_registration \<times> waker list" where
  "WakerRegistration_register r w =
     (case wr_waker r of
        Some w2 \<Rightarrow> if will_wake w2 w then (r, []) else (r\<lparr>wr_waker := Some w\<rparr>, [w2])
      | None \<Rightarrow> (r\<lparr>wr_waker := Some w\<rparr>, []))"

definition WakerRegistration_wake ::
  "waker_registration \<Rightarrow> waker_registration \<times> waker list" where
  "WakerRegistration_wake r =
     (case wr_waker r of
        Some w \<Rightarrow> (r\<lparr>wr_waker := None\<rparr>, [w])
      | None \<Rightarrow> (r, []))"

definition WakerRegistration_occupied :: "waker_registration \<Rightarrow> bool" where
  "WakerRegistration_occupied r = (wr_waker r \<noteq> None)"

definition wr_registered :: "waker_registration \<Rightarrow> waker set" where
  "wr_registered r = set_option (wr_waker r)"

text \<open>
  Two shapes in which the primitives use a registration: \<open>if let Some(cx) = cx { register }\<close> and
  \<open>if b { wake }\<close>.
\<close>

fun WakerRegistration_register_opt ::
  "waker_registration \<Rightarrow> waker option \<Rightarrow> waker_registration \<times> waker list" where
  "WakerRegistration_register_opt r None = (r, [])"
| "WakerRegistration_register_opt r (Some w) = WakerRegistration_register r w"

definition WakerRegistration_wake_if ::
  "bool \<Rightarrow> waker_registration \<Rightarrow> waker_registration \<times> waker list" where
  "WakerRegistration_wake_if b r = (if b then WakerRegistration_wake r else (r, []))"

lemmas waker_registration_defs =
  WakerRegistration_new_def WakerRegistration_register_def WakerRegistration_wake_def
  WakerRegistration_occupied_def wr_registered_def

interpretation wr: waker_store "\<lambda>r w. Ret (WakerRegistration_register r w)"
    WakerRegistration_wake wr_registered "\<lambda>_. True"
  by unfold_locales (auto simp: waker_registration_defs split: option.splits if_splits)

lemma wr_new_registered [simp]: "wr_registered WakerRegistration_new = {}"
  by (simp add: waker_registration_defs)

lemma wr_register_registered [simp]:
  "wr_registered (fst (WakerRegistration_register r w)) = {w}"
  by (auto simp: waker_registration_defs split: option.splits)

lemma wr_register_woken: "set (snd (WakerRegistration_register r w)) = wr_registered r - {w}"
  by (auto simp: waker_registration_defs split: option.splits)

lemma wr_wake_registered [simp]: "wr_registered (fst (WakerRegistration_wake r)) = {}"
  by (auto simp: waker_registration_defs split: option.splits)

lemma wr_wake_woken [simp]: "set (snd (WakerRegistration_wake r)) = wr_registered r"
  by (auto simp: waker_registration_defs split: option.splits)

text \<open>
  The same facts for the sets of sleeping tasks, in the form the primitives use: registering
  keeps every sleeper that is not woken, and adds the caller; waking leaves no sleeper.
\<close>

lemma wr_sleepers_register_opt:
  assumes "S \<subseteq> wr_registered r" "WakerRegistration_register_opt r cx = (r', ws)"
  shows "(S - set ws) \<union> set_option cx \<subseteq> wr_registered r'"
  using assms wr.sleepers_register [where r = r and S = S] by (cases cx) auto

lemma wr_sleepers_wake_if:
  assumes "S \<subseteq> wr_registered r" "WakerRegistration_wake_if b r = (r', ws)"
  shows "S - set ws \<subseteq> wr_registered r'" and "b \<Longrightarrow> S - set ws = {}"
  using assms wr.sleepers_wake [where r = r and S = S]
  by (auto simp: WakerRegistration_wake_if_def split: if_splits)

section \<open>\<open>MultiWakerRegistration\<close>\<close>

text \<open>
  \<open>wake\<close> sets the length to 0 first and then moves the old elements out one by one and wakes
  them; \<open>register\<close> scans the wakers, wakes all of them when the vector is full, and panics only
  when a vector that was just emptied has no room (capacity 0).
\<close>

record 'v multi_waker =
  mw_wakers :: 'v

definition MultiWaker_new :: "('v, waker) vec_ops \<Rightarrow> 'v multi_waker" where
  "MultiWaker_new V = \<lparr>mw_wakers = Vec_new V\<rparr>"

definition MultiWaker_wake ::
  "('v, waker) vec_ops \<Rightarrow> 'v multi_waker \<Rightarrow> 'v multi_waker \<times> waker list" where
  "MultiWaker_wake V r =
     (let len = Vec_len V (mw_wakers r);
          moved = map (\<lambda>i. Vec_as_slice V (mw_wakers r) ! i) [0..<len]
      in (r\<lparr>mw_wakers := Vec_set_len_0 V (mw_wakers r)\<rparr>, moved))"

definition MultiWaker_register ::
  "('v, waker) vec_ops \<Rightarrow> 'v multi_waker \<Rightarrow> waker \<Rightarrow> ('v multi_waker \<times> waker list) outcome" where
  "MultiWaker_register V r w =
     (if list_ex (\<lambda>w2. will_wake w w2) (Vec_as_slice V (mw_wakers r)) then Ret (r, [])
      else
        let (r1, ws) = (if Vec_is_full V (mw_wakers r) then MultiWaker_wake V r else (r, []))
        in (case Vec_push V (mw_wakers r1) w of
              (Ok _, v) \<Rightarrow> Ret (r1\<lparr>mw_wakers := v\<rparr>, ws)
            | (Err _, _) \<Rightarrow> Panic ExplicitPanic))"

definition mw_registered :: "('v, waker) vec_ops \<Rightarrow> 'v multi_waker \<Rightarrow> waker set" where
  "mw_registered V r = set (Vec_as_slice V (mw_wakers r))"

locale waker_vec = bounded_vec V N vec_inv
  for V :: "('v, waker) vec_ops" and N :: nat and vec_inv :: "'v \<Rightarrow> bool" +
  assumes slots: "0 < N"
begin

lemma MultiWaker_wake_eq:
  "vec_inv (mw_wakers r) \<Longrightarrow>
     MultiWaker_wake V r = (r\<lparr>mw_wakers := Vec_set_len_0 V (mw_wakers r)\<rparr>,
       Vec_as_slice V (mw_wakers r))"
  by (simp add: MultiWaker_wake_def map_nth)

lemma MultiWaker_register_cases:
  assumes inv: "vec_inv (mw_wakers r)"
  obtains (known) "w \<in> mw_registered V r" "MultiWaker_register V r w = Ret (r, [])"
    | (room) r' where "w \<notin> mw_registered V r" "length (Vec_as_slice V (mw_wakers r)) < N"
        "MultiWaker_register V r w = Ret (r', [])" "vec_inv (mw_wakers r')"
        "Vec_as_slice V (mw_wakers r') = Vec_as_slice V (mw_wakers r) @ [w]"
    | (full) r' where "w \<notin> mw_registered V r" "length (Vec_as_slice V (mw_wakers r)) = N"
        "MultiWaker_register V r w = Ret (r', Vec_as_slice V (mw_wakers r))"
        "vec_inv (mw_wakers r')" "Vec_as_slice V (mw_wakers r') = [w]"
proof (cases "w \<in> mw_registered V r")
  case True
  then show ?thesis
    by (intro known) (auto simp: MultiWaker_register_def mw_registered_def list_ex_iff)
next
  case new: False
  then have ex: "\<not> list_ex (\<lambda>w2. will_wake w w2) (Vec_as_slice V (mw_wakers r))"
    by (auto simp: mw_registered_def list_ex_iff)
  show ?thesis
  proof (cases "length (Vec_as_slice V (mw_wakers r)) = N")
    case True
    have "vec_inv (Vec_set_len_0 V (mw_wakers r))" using inv by simp
    then show ?thesis
      using True ex inv new slots
      by (cases rule: push_cases [where x = w])
        (auto intro!: full simp: MultiWaker_register_def MultiWaker_wake_eq)
  next
    case False
    from inv show ?thesis
      using False ex new
      by (cases rule: push_cases [where x = w])
        (auto intro!: room simp: MultiWaker_register_def inv)
  qed
qed

end

sublocale waker_vec \<subseteq> mw: waker_store "MultiWaker_register V" "MultiWaker_wake V"
    "mw_registered V" "\<lambda>r. vec_inv (mw_wakers r)"
proof unfold_locales
  fix r :: "'v multi_waker" and w
  assume inv: "vec_inv (mw_wakers r)"
  then show "\<exists>r' ws. MultiWaker_register V r w = Ret (r', ws)"
    by (cases rule: MultiWaker_register_cases [where w = w]) auto
next
  fix r :: "'v multi_waker" and w r' ws
  assume inv: "vec_inv (mw_wakers r)" and reg: "MultiWaker_register V r w = Ret (r', ws)"
  from inv reg show "vec_inv (mw_wakers r')"
    by (cases rule: MultiWaker_register_cases [where w = w]) (use inv in auto)
  from inv reg show "w \<in> mw_registered V r'"
    by (cases rule: MultiWaker_register_cases [where w = w]) (auto simp: mw_registered_def)
  from inv reg show "mw_registered V r \<subseteq> mw_registered V r' \<union> set ws"
    by (cases rule: MultiWaker_register_cases [where w = w]) (auto simp: mw_registered_def)
next
  fix r :: "'v multi_waker" and r' ws
  assume inv: "vec_inv (mw_wakers r)" and wk: "MultiWaker_wake V r = (r', ws)"
  from inv wk show "vec_inv (mw_wakers r')" and "mw_registered V r \<subseteq> set ws"
    by (auto simp: MultiWaker_wake_eq mw_registered_def)
qed

lemma list_waker_vec: "0 < N \<Longrightarrow> waker_vec (list_vec N) N (\<lambda>v. length v \<le> N)"
  by (intro waker_vec.intro list_vec_bounded waker_vec_axioms.intro)

interpretation list_mw: waker_vec "list_vec (Suc n)" "Suc n" "\<lambda>v. length v \<le> Suc n"
  by (rule list_waker_vec) simp

section \<open>\<open>AtomicWaker\<close>\<close>

record atomic_waker =
  aw_waker :: "waker option"

definition AtomicWaker_new :: atomic_waker where
  "AtomicWaker_new = \<lparr>aw_waker = None\<rparr>"

definition AtomicWaker_register :: "atomic_waker \<Rightarrow> waker \<Rightarrow> atomic_waker" where
  "AtomicWaker_register r w =
     r\<lparr>aw_waker := (case aw_waker r of
          Some w2 \<Rightarrow> if will_wake w2 w then Some w2 else Some w
        | None \<Rightarrow> Some w)\<rparr>"

definition AtomicWaker_wake :: "atomic_waker \<Rightarrow> atomic_waker \<times> waker list" where
  "AtomicWaker_wake r =
     (case aw_waker r of
        Some w \<Rightarrow> (r\<lparr>aw_waker := Some w\<rparr>, [w])
      | None \<Rightarrow> (r\<lparr>aw_waker := None\<rparr>, []))"

lemmas atomic_waker_defs =
  AtomicWaker_new_def AtomicWaker_register_def AtomicWaker_wake_def

text \<open>
  The variant with turbo wakers (\<open>atomic_waker_turbo.rs\<close>) stores the waker as a pointer, 0 for none.  The conversions
  of the standard library's extension are parameters.
\<close>

record turbo_fns =
  as_turbo_ptr :: "waker \<Rightarrow> nat"
  from_turbo_ptr :: "nat \<Rightarrow> waker"

record turbo_waker =
  tw_waker :: nat

definition TurboWaker_new :: turbo_waker where
  "TurboWaker_new = \<lparr>tw_waker = 0\<rparr>"

definition TurboWaker_register :: "turbo_fns \<Rightarrow> turbo_waker \<Rightarrow> waker \<Rightarrow> turbo_waker" where
  "TurboWaker_register F r w = r\<lparr>tw_waker := as_turbo_ptr F w\<rparr>"

definition TurboWaker_wake :: "turbo_fns \<Rightarrow> turbo_waker \<Rightarrow> turbo_waker \<times> waker list" where
  "TurboWaker_wake F r = (r, if tw_waker r \<noteq> 0 then [from_turbo_ptr F (tw_waker r)] else [])"

definition turbo_abs :: "turbo_fns \<Rightarrow> turbo_waker \<Rightarrow> atomic_waker" where
  "turbo_abs F r = \<lparr>aw_waker = if tw_waker r \<noteq> 0 then Some (from_turbo_ptr F (tw_waker r)) else None\<rparr>"

text \<open>With pointers that are never null and lead back to their wakers, it is the \<open>AtomicWaker\<close>.\<close>

lemma turbo_waker_refines:
  assumes "\<And>w. as_turbo_ptr F w \<noteq> 0" "\<And>w. from_turbo_ptr F (as_turbo_ptr F w) = w"
  shows "turbo_abs F TurboWaker_new = AtomicWaker_new"
    "turbo_abs F (TurboWaker_register F r w) = AtomicWaker_register (turbo_abs F r) w"
    "AtomicWaker_wake (turbo_abs F r) = (turbo_abs F (fst (TurboWaker_wake F r)), snd (TurboWaker_wake F r))"
  using assms
  by (auto simp: turbo_abs_def TurboWaker_new_def TurboWaker_register_def TurboWaker_wake_def atomic_waker_defs)

end
