(* ===== verification/Ring_Buffer.thy ===== *)
theory Ring_Buffer
  imports Rust_Prelude
begin

text \<open>
  The index arithmetic of \<open>src/src/sync/ring_buffer.rs\<close>.  A \<open>RingBuffer<N>\<close> holds no data: it
  hands out index ranges of a buffer of \<open>N\<close> cells.  \<open>rb_contents\<close> is the list of the cells the
  ring occupies in a given buffer, oldest first; the lemmas say what each operation does to it.
\<close>

record ring_buffer =
  rb_start :: nat
  rb_end :: nat
  rb_full :: bool

definition RingBuffer_new :: ring_buffer where
  "RingBuffer_new = \<lparr>rb_start = 0, rb_end = 0, rb_full = False\<rparr>"

definition RingBuffer_is_full :: "ring_buffer \<Rightarrow> bool" where
  "RingBuffer_is_full rb = rb_full rb"

definition RingBuffer_is_empty :: "ring_buffer \<Rightarrow> bool" where
  "RingBuffer_is_empty rb = (rb_start rb = rb_end rb \<and> \<not> rb_full rb)"

definition RingBuffer_wrap :: "nat \<Rightarrow> nat \<Rightarrow> nat outcome" where
  "RingBuffer_wrap N n =
     bind_out (rust_assert (n \<le> N)) (\<lambda>_. Ret (if n = N then 0 else n))"

definition RingBuffer_push_buf :: "nat \<Rightarrow> ring_buffer \<Rightarrow> (nat \<times> nat) outcome" where
  "RingBuffer_push_buf N rb =
     (if RingBuffer_is_full rb then Ret (0, 0)
      else bind_out (if rb_start rb \<le> rb_end rb then sub_usize N (rb_end rb)
                     else sub_usize (rb_start rb) (rb_end rb))
        (\<lambda>n. bind_out (add_usize (rb_end rb) n) (\<lambda>e. Ret (rb_end rb, e))))"

definition RingBuffer_push :: "nat \<Rightarrow> ring_buffer \<Rightarrow> nat \<Rightarrow> ring_buffer outcome" where
  "RingBuffer_push N rb n =
     (if n = 0 then Ret rb
      else bind_out (add_usize (rb_end rb) n) (\<lambda>t. bind_out (RingBuffer_wrap N t)
        (\<lambda>e. Ret (rb\<lparr>rb_end := e, rb_full := (rb_start rb = e)\<rparr>))))"

definition RingBuffer_pop_buf :: "nat \<Rightarrow> ring_buffer \<Rightarrow> (nat \<times> nat) outcome" where
  "RingBuffer_pop_buf N rb =
     (if RingBuffer_is_empty rb then Ret (0, 0)
      else bind_out (if rb_end rb \<le> rb_start rb then sub_usize N (rb_start rb)
                     else sub_usize (rb_end rb) (rb_start rb))
        (\<lambda>n. bind_out (add_usize (rb_start rb) n) (\<lambda>e. Ret (rb_start rb, e))))"

definition RingBuffer_pop :: "nat \<Rightarrow> ring_buffer \<Rightarrow> nat \<Rightarrow> ring_buffer outcome" where
  "RingBuffer_pop N rb n =
     (if n = 0 then Ret rb
      else bind_out (add_usize (rb_start rb) n) (\<lambda>t. bind_out (RingBuffer_wrap N t)
        (\<lambda>s. Ret (rb\<lparr>rb_start := s, rb_full := False\<rparr>))))"

definition RingBuffer_len :: "nat \<Rightarrow> ring_buffer \<Rightarrow> nat outcome" where
  "RingBuffer_len N rb =
     (if RingBuffer_is_empty rb then Ret 0
      else if rb_start rb < rb_end rb then sub_usize (rb_end rb) (rb_start rb)
      else bind_out (add_usize N (rb_end rb)) (\<lambda>t. sub_usize t (rb_start rb)))"

definition RingBuffer_clear :: "ring_buffer \<Rightarrow> ring_buffer" where
  "RingBuffer_clear rb = rb\<lparr>rb_start := 0, rb_end := 0, rb_full := False\<rparr>"

section \<open>Invariant and contents\<close>

text \<open>
  The indices are below the capacity and \<open>full\<close> is only set when they meet.  A buffer type of
  capacity \<open>N\<close> exists for \<open>0 < N \<le> usize::MAX\<close>.
\<close>

definition rb_inv :: "nat \<Rightarrow> ring_buffer \<Rightarrow> bool" where
  "rb_inv N rb \<longleftrightarrow> N \<le> usize_max \<and> rb_start rb < N \<and> rb_end rb < N \<and>
     (rb_full rb \<longrightarrow> rb_start rb = rb_end rb)"

definition rb_contents :: "nat \<Rightarrow> ring_buffer \<Rightarrow> 'a list \<Rightarrow> 'a list" where
  "rb_contents N rb buf =
     (if RingBuffer_is_empty rb then []
      else if rb_start rb < rb_end rb then slice_of (rb_start rb) (rb_end rb) buf
      else slice_of (rb_start rb) N buf @ slice_of 0 (rb_end rb) buf)"

lemmas ring_buffer_defs =
  RingBuffer_is_full_def RingBuffer_is_empty_def RingBuffer_wrap_def

lemma rb_inv_new [simp]: "0 < N \<Longrightarrow> N \<le> usize_max \<Longrightarrow> rb_inv N RingBuffer_new"
  by (simp add: rb_inv_def RingBuffer_new_def)

lemma rb_contents_new [simp]: "rb_contents N RingBuffer_new buf = []"
  by (simp add: rb_contents_def RingBuffer_new_def RingBuffer_is_empty_def)

lemma rb_inv_clear: "rb_inv N rb \<Longrightarrow> rb_inv N (RingBuffer_clear rb)"
  by (auto simp: rb_inv_def RingBuffer_clear_def)

lemma rb_contents_clear [simp]: "rb_contents N (RingBuffer_clear rb) buf = []"
  by (simp add: rb_contents_def RingBuffer_clear_def RingBuffer_is_empty_def)

lemma rb_contents_length:
  assumes "rb_inv N rb" "length buf = N"
  shows "length (rb_contents N rb buf) =
    (if RingBuffer_is_empty rb then 0 else if rb_start rb < rb_end rb then rb_end rb - rb_start rb
     else N - rb_start rb + rb_end rb)"
  using assms by (auto simp: rb_contents_def rb_inv_def)

lemma rb_contents_le: "rb_inv N rb \<Longrightarrow> length buf = N \<Longrightarrow> length (rb_contents N rb buf) \<le> N"
  by (auto simp: rb_contents_length rb_inv_def)

lemma rb_empty_iff:
  "rb_inv N rb \<Longrightarrow> length buf = N \<Longrightarrow> RingBuffer_is_empty rb \<longleftrightarrow> rb_contents N rb buf = []"
  using rb_contents_length [of N rb buf] by (auto simp: rb_inv_def split: if_splits)

lemma rb_full_iff:
  "rb_inv N rb \<Longrightarrow> length buf = N \<Longrightarrow> RingBuffer_is_full rb \<longleftrightarrow> length (rb_contents N rb buf) = N"
  by (auto simp: rb_contents_length rb_inv_def ring_buffer_defs split: if_splits)

section \<open>The ranges handed out\<close>

lemma push_buf_range:
  assumes "rb_inv N rb"
  shows "\<exists>a b. RingBuffer_push_buf N rb = Ret (a, b) \<and> a \<le> b \<and> b \<le> N \<and>
    (a = b \<longleftrightarrow> rb_full rb) \<and> (\<not> rb_full rb \<longrightarrow> a = rb_end rb \<and>
       b = (if rb_start rb \<le> rb_end rb then N else rb_start rb))"
  using assms by (auto simp: RingBuffer_push_buf_def rb_inv_def RingBuffer_is_full_def)

lemma pop_buf_range:
  assumes "rb_inv N rb"
  shows "\<exists>a b. RingBuffer_pop_buf N rb = Ret (a, b) \<and> a \<le> b \<and> b \<le> N \<and>
    (a = b \<longleftrightarrow> RingBuffer_is_empty rb) \<and> (\<not> RingBuffer_is_empty rb \<longrightarrow> a = rb_start rb \<and>
       b = (if rb_end rb \<le> rb_start rb then N else rb_end rb))"
  using assms by (auto simp: RingBuffer_pop_buf_def rb_inv_def)

text \<open>The range to pop is the front of the contents.\<close>

lemma pop_buf_front:
  assumes "rb_inv N rb" "length buf = N" "RingBuffer_pop_buf N rb = Ret (a, b)"
  shows "slice_of a b buf = take (b - a) (rb_contents N rb buf)"
proof (cases "RingBuffer_is_empty rb")
  case True
  with assms show ?thesis
    by (simp add: RingBuffer_pop_buf_def rb_contents_def)
next
  case False
  with pop_buf_range [OF assms(1)] assms(3)
  have "a = rb_start rb" "b = (if rb_end rb \<le> rb_start rb then N else rb_end rb)" by auto
  with False assms(1,2) show ?thesis
    by (auto simp: rb_contents_def rb_inv_def)
qed

section \<open>Committing a push or a pop\<close>

text \<open>
  Writing \<open>ys\<close> into the front of the range to push and committing its length appends \<open>ys\<close> to the
  contents; the cells outside the range keep theirs.
\<close>

lemma push_appends:
  assumes inv: "rb_inv N rb" and len: "length buf = N"
    and range: "RingBuffer_push_buf N rb = Ret (a, b)" and ys: "length ys \<le> b - a"
  shows "\<exists>rb'. RingBuffer_push N rb (length ys) = Ret rb' \<and> rb_inv N rb' \<and>
    rb_contents N rb' (write_at a ys buf) = rb_contents N rb buf @ ys"
proof (cases "ys = []")
  case True
  with inv show ?thesis
    by (simp add: RingBuffer_push_def write_at_def)
next
  case False
  with push_buf_range [OF inv] range ys
  have nf: "\<not> rb_full rb" and a: "a = rb_end rb"
    and b: "b = (if rb_start rb \<le> rb_end rb then N else rb_start rb)" by force+
  have pos: "rb_start rb \<le> rb_end rb \<Longrightarrow> rb_start rb < rb_end rb + length ys"
    using False by (cases ys) auto
  let ?e = "if rb_end rb + length ys = N then 0 else rb_end rb + length ys"
  let ?rb = "rb\<lparr>rb_end := ?e, rb_full := (rb_start rb = ?e)\<rparr>"
  have le: "rb_end rb + length ys \<le> N"
    using ys a b inv by (auto simp: rb_inv_def split: if_splits)
  with inv False have push: "RingBuffer_push N rb (length ys) = Ret ?rb"
    by (auto simp: RingBuffer_push_def RingBuffer_wrap_def rb_inv_def)
  have inv': "rb_inv N ?rb" using inv le False by (auto simp: rb_inv_def)
  have ne: "\<not> RingBuffer_is_empty ?rb" by (simp add: RingBuffer_is_empty_def)
  have new: "slice_of (rb_end rb) (rb_end rb + length ys) (write_at (rb_end rb) ys buf) = ys"
    using le len by (simp add: slice_simps)
  have "rb_contents N ?rb (write_at a ys buf) = rb_contents N rb buf @ ys"
  proof (cases "rb_start rb \<le> rb_end rb")
    case True
    have old: "slice_of (rb_start rb) (rb_end rb) (write_at a ys buf) = rb_contents N rb buf"
      using True nf le len a by (auto simp: rb_contents_def ring_buffer_defs slice_simps)
    have "rb_contents N ?rb (write_at a ys buf) =
        slice_of (rb_start rb) (rb_end rb + length ys) (write_at a ys buf)"
      using True ne inv le False pos by (auto simp: rb_contents_def rb_inv_def)
    also have "\<dots> = rb_contents N rb buf @ ys"
      using slice_append [of "rb_start rb" "rb_end rb" "rb_end rb + length ys" "write_at a ys buf"]
        True old new a by simp
    finally show ?thesis .
  next
    case lt: False
    with ys a b have le': "rb_end rb + length ys \<le> rb_start rb" by auto
    have "rb_contents N ?rb (write_at a ys buf) =
        slice_of (rb_start rb) N (write_at a ys buf) @
        slice_of 0 (rb_end rb + length ys) (write_at a ys buf)"
      using lt ne le' inv by (auto simp: rb_contents_def rb_inv_def)
    also have "\<dots> = slice_of (rb_start rb) N buf @ (slice_of 0 (rb_end rb) buf @ ys)"
      using slice_append [of 0 "rb_end rb" "rb_end rb + length ys" "write_at a ys buf"]
        new a le' le len by (simp add: slice_simps)
    also have "\<dots> = rb_contents N rb buf @ ys"
      using lt nf by (auto simp: rb_contents_def ring_buffer_defs)
    finally show ?thesis .
  qed
  with push inv' show ?thesis by blast
qed

text \<open>Committing a pop of at most the range drops that many cells from the front.\<close>

lemma pop_drops:
  assumes inv: "rb_inv N rb" and len: "length buf = N"
    and range: "RingBuffer_pop_buf N rb = Ret (a, b)" and n: "n \<le> b - a"
  shows "\<exists>rb'. RingBuffer_pop N rb n = Ret rb' \<and> rb_inv N rb' \<and>
    rb_contents N rb' buf = drop n (rb_contents N rb buf)"
proof (cases "n = 0")
  case True
  with inv show ?thesis by (simp add: RingBuffer_pop_def)
next
  case False
  with pop_buf_range [OF inv] range n
  have ne: "\<not> RingBuffer_is_empty rb" and a: "a = rb_start rb"
    and b: "b = (if rb_end rb \<le> rb_start rb then N else rb_end rb)" by force+
  let ?s = "if rb_start rb + n = N then 0 else rb_start rb + n"
  let ?rb = "rb\<lparr>rb_start := ?s, rb_full := False\<rparr>"
  have le: "rb_start rb + n \<le> N"
    using n a b inv by (auto simp: rb_inv_def split: if_splits)
  with inv False have pop: "RingBuffer_pop N rb n = Ret ?rb"
    by (auto simp: RingBuffer_pop_def RingBuffer_wrap_def rb_inv_def)
  have inv': "rb_inv N ?rb" using inv le False by (auto simp: rb_inv_def)
  have drop_slice: "\<And>j. rb_start rb + n \<le> j \<Longrightarrow> j \<le> N \<Longrightarrow>
      drop n (slice_of (rb_start rb) j buf) = slice_of (rb_start rb + n) j buf"
    by (simp add: slice_of_def drop_take add.commute)
  have "rb_contents N ?rb buf = drop n (rb_contents N rb buf)"
  proof (cases "rb_start rb < rb_end rb")
    case True
    with n a b have "rb_start rb + n \<le> rb_end rb" by auto
    with True ne inv drop_slice [of "rb_end rb"] show ?thesis
      by (auto simp: rb_contents_def rb_inv_def ring_buffer_defs)
  next
    case ge: False
    with inv len le have "drop n (slice_of (rb_start rb) N buf @ slice_of 0 (rb_end rb) buf) =
        slice_of (rb_start rb + n) N buf @ slice_of 0 (rb_end rb) buf"
      using drop_slice [of N] by simp
    with ge ne inv False le show ?thesis
      by (auto simp: rb_contents_def rb_inv_def ring_buffer_defs)
  qed
  with pop inv' show ?thesis by blast
qed

lemma RingBuffer_len_eq:
  assumes "rb_inv N rb" "length buf = N" "2 * N \<le> usize_max"
  shows "RingBuffer_len N rb = Ret (length (rb_contents N rb buf))"
  using assms rb_contents_length [OF assms(1,2)] by (auto simp: RingBuffer_len_def rb_inv_def)

end
