(* ===== verification/Pipe.thy ===== *)
theory Pipe
  imports Waitqueue Ring_Buffer
begin

text \<open>
  The byte pipe of \<open>src/src/sync/pipe.rs\<close>: a ring buffer over \<open>N\<close> bytes, one registration for
  the reader and one for the writers.  Every operation runs under the blocking mutex of the
  pipe, so it is one atomic step; it returns its result, the new pipe and the wakers it woke.
  A raw-pointer access outside the buffer would be undefined behaviour; the model makes it a
  \<open>Panic\<close>, which the theorems exclude.
\<close>

type_synonym byte = "8 word"

datatype try_read_error = TryReadError_Empty
datatype try_write_error = TryWriteError_Full

record pipe_state =
  ps_buffer :: ring_buffer
  ps_read_waker :: waker_registration
  ps_write_waker :: waker_registration

record pipe =
  pipe_buf :: "byte list"
  pipe_inner :: pipe_state

definition Buffer_get :: "byte list \<Rightarrow> nat \<times> nat \<Rightarrow> byte list outcome" where
  "Buffer_get buf r =
     (if fst r \<le> snd r \<and> snd r \<le> length buf then Ret (slice_of (fst r) (snd r) buf)
      else Panic SliceOutOfRange)"

definition Pipe_new :: "nat \<Rightarrow> pipe" where
  "Pipe_new N = \<lparr>pipe_buf = replicate N 0,
     pipe_inner = \<lparr>ps_buffer = RingBuffer_new, ps_read_waker = WakerRegistration_new,
       ps_write_waker = WakerRegistration_new\<rparr>\<rparr>"

text \<open>
  \<open>try_read_with_context\<close> copies into the caller's buffer, which is returned as the second
  component of the result.
\<close>

definition Pipe_try_read_with_context ::
  "nat \<Rightarrow> pipe \<Rightarrow> waker option \<Rightarrow> byte list \<Rightarrow>
     ((nat, try_read_error) result \<times> byte list \<times> pipe \<times> waker list) outcome" where
  "Pipe_try_read_with_context N p cx buf =
     (let s = pipe_inner p;
          (ww, woken) = WakerRegistration_wake_if (RingBuffer_is_full (ps_buffer s)) (ps_write_waker s);
          s = s\<lparr>ps_write_waker := ww\<rparr>
      in bind_out (RingBuffer_pop_buf N (ps_buffer s)) (\<lambda>r.
         bind_out (Buffer_get (pipe_buf p) r) (\<lambda>available.
           if available = [] then
             let (rw, displaced) = WakerRegistration_register_opt (ps_read_waker s) cx
             in Ret (Err TryReadError_Empty, buf, p\<lparr>pipe_inner := s\<lparr>ps_read_waker := rw\<rparr>\<rparr>,
                  woken @ displaced)
           else
             let n = min (length available) (length buf);
                 buf' = take n available @ drop n buf
             in bind_out (RingBuffer_pop N (ps_buffer s) n) (\<lambda>rb.
                  Ret (Ok n, buf', p\<lparr>pipe_inner := s\<lparr>ps_buffer := rb\<rparr>\<rparr>, woken)))))"

definition Pipe_try_fill_buf_with_context ::
  "nat \<Rightarrow> pipe \<Rightarrow> waker option \<Rightarrow>
     ((byte list, try_read_error) result \<times> pipe \<times> waker list) outcome" where
  "Pipe_try_fill_buf_with_context N p cx =
     (let s = pipe_inner p;
          (ww, woken) = WakerRegistration_wake_if (RingBuffer_is_full (ps_buffer s)) (ps_write_waker s);
          s = s\<lparr>ps_write_waker := ww\<rparr>
      in bind_out (RingBuffer_pop_buf N (ps_buffer s)) (\<lambda>r.
         bind_out (Buffer_get (pipe_buf p) r) (\<lambda>available.
           if available = [] then
             let (rw, displaced) = WakerRegistration_register_opt (ps_read_waker s) cx
             in Ret (Err TryReadError_Empty, p\<lparr>pipe_inner := s\<lparr>ps_read_waker := rw\<rparr>\<rparr>,
                  woken @ displaced)
           else Ret (Ok available, p\<lparr>pipe_inner := s\<rparr>, woken))))"

definition Pipe_consume :: "nat \<Rightarrow> pipe \<Rightarrow> nat \<Rightarrow> pipe outcome" where
  "Pipe_consume N p amt =
     (let s = pipe_inner p in
      bind_out (RingBuffer_pop_buf N (ps_buffer s)) (\<lambda>available.
      bind_out (rust_assert (amt \<le> snd available - fst available)) (\<lambda>_.
      bind_out (RingBuffer_pop N (ps_buffer s) amt) (\<lambda>rb.
        Ret (p\<lparr>pipe_inner := s\<lparr>ps_buffer := rb\<rparr>\<rparr>)))))"

definition Pipe_try_write_with_context ::
  "nat \<Rightarrow> pipe \<Rightarrow> waker option \<Rightarrow> byte list \<Rightarrow>
     ((nat, try_write_error) result \<times> pipe \<times> waker list) outcome" where
  "Pipe_try_write_with_context N p cx buf =
     (let s = pipe_inner p;
          (rw, woken) = WakerRegistration_wake_if (RingBuffer_is_empty (ps_buffer s)) (ps_read_waker s);
          s = s\<lparr>ps_read_waker := rw\<rparr>
      in bind_out (RingBuffer_push_buf N (ps_buffer s)) (\<lambda>r.
         bind_out (Buffer_get (pipe_buf p) r) (\<lambda>available.
           if available = [] then
             let (ww, displaced) = WakerRegistration_register_opt (ps_write_waker s) cx
             in Ret (Err TryWriteError_Full, p\<lparr>pipe_inner := s\<lparr>ps_write_waker := ww\<rparr>\<rparr>,
                  woken @ displaced)
           else
             let n = min (length available) (length buf)
             in bind_out (RingBuffer_push N (ps_buffer s) n) (\<lambda>rb.
                  Ret (Ok n, p\<lparr>pipe_buf := write_at (fst r) (take n buf) (pipe_buf p),
                               pipe_inner := s\<lparr>ps_buffer := rb\<rparr>\<rparr>, woken)))))"

definition Pipe_clear :: "pipe \<Rightarrow> pipe \<times> waker list" where
  "Pipe_clear p =
     (let s = pipe_inner p;
          (ww, woken) = WakerRegistration_wake (ps_write_waker s)
      in (p\<lparr>pipe_inner := s\<lparr>ps_buffer := RingBuffer_clear (ps_buffer s),
                            ps_write_waker := ww\<rparr>\<rparr>, woken))"

definition Pipe_len :: "nat \<Rightarrow> pipe \<Rightarrow> nat outcome" where
  "Pipe_len N p = RingBuffer_len N (ps_buffer (pipe_inner p))"

definition Pipe_is_full :: "nat \<Rightarrow> pipe \<Rightarrow> bool outcome" where
  "Pipe_is_full N p = bind_out (Pipe_len N p) (\<lambda>l. Ret (l = N))"

definition Pipe_is_empty :: "nat \<Rightarrow> pipe \<Rightarrow> bool outcome" where
  "Pipe_is_empty N p = bind_out (Pipe_len N p) (\<lambda>l. Ret (l = 0))"

definition Pipe_capacity :: "nat \<Rightarrow> pipe \<Rightarrow> nat" where
  "Pipe_capacity N p = N"

definition Pipe_free_capacity :: "nat \<Rightarrow> pipe \<Rightarrow> nat outcome" where
  "Pipe_free_capacity N p = bind_out (Pipe_len N p) (\<lambda>l. sub_usize N l)"

section \<open>Futures\<close>

definition WriteFuture_poll ::
  "nat \<Rightarrow> pipe \<Rightarrow> waker \<Rightarrow> byte list \<Rightarrow> (nat poll \<times> pipe \<times> waker list) outcome" where
  "WriteFuture_poll N p cx buf =
     bind_out (Pipe_try_write_with_context N p (Some cx) buf) (\<lambda>(r, p', ws).
       Ret (case r of Ok n \<Rightarrow> Ready n | Err TryWriteError_Full \<Rightarrow> Pending, p', ws))"

definition ReadFuture_poll ::
  "nat \<Rightarrow> pipe \<Rightarrow> waker \<Rightarrow> byte list \<Rightarrow> (nat poll \<times> byte list \<times> pipe \<times> waker list) outcome" where
  "ReadFuture_poll N p cx buf =
     bind_out (Pipe_try_read_with_context N p (Some cx) buf) (\<lambda>(r, buf', p', ws).
       Ret (case r of Ok n \<Rightarrow> Ready n | Err TryReadError_Empty \<Rightarrow> Pending, buf', p', ws))"

text \<open>
  \<open>FillBufFuture\<close> takes its pipe reference out and puts it back when it stays pending; the flag
  \<open>held\<close> says whether the option still holds the reference.
\<close>

definition FillBufFuture_poll ::
  "nat \<Rightarrow> bool \<Rightarrow> pipe \<Rightarrow> waker \<Rightarrow> (byte list poll \<times> bool \<times> pipe \<times> waker list) outcome" where
  "FillBufFuture_poll N held p cx =
     (if \<not> held then Panic UnwrapFailed
      else bind_out (Pipe_try_fill_buf_with_context N p (Some cx)) (\<lambda>(r, p', ws).
        (case r of Ok b \<Rightarrow> Ret (Ready b, False, p', ws)
         | Err TryReadError_Empty \<Rightarrow> Ret (Pending, True, p', ws))))"

text \<open>
  One poll of the \<open>write_all\<close> future: it writes until nothing is left or the pipe is full.  The
  state it keeps between polls is the rest of the slice.  A write of no bytes would make the loop
  spin, so the loop is given fuel, and \<open>None\<close> is running out of it.
\<close>

fun write_all_poll ::
  "nat \<Rightarrow> nat \<Rightarrow> pipe \<Rightarrow> waker \<Rightarrow> byte list \<Rightarrow>
     (unit poll \<times> byte list \<times> pipe \<times> waker list) outcome option" where
  "write_all_poll 0 N p cx buf = None"
| "write_all_poll (Suc fuel) N p cx buf =
     (if buf = [] then Some (Ret (Ready (), [], p, []))
      else case WriteFuture_poll N p cx buf of
        Panic e \<Rightarrow> Some (Panic e)
      | Ret (Pending, p', ws) \<Rightarrow> Some (Ret (Pending, buf, p', ws))
      | Ret (Ready n, p', ws) \<Rightarrow>
          map_option (\<lambda>out. bind_out out (\<lambda>(r, rest, p'', ws'). Ret (r, rest, p'', ws @ ws')))
            (write_all_poll fuel N p' cx (drop n buf)))"

section \<open>What each operation does\<close>

definition pipe_inv :: "nat \<Rightarrow> pipe \<Rightarrow> bool" where
  "pipe_inv N p \<longleftrightarrow> rb_inv N (ps_buffer (pipe_inner p)) \<and> length (pipe_buf p) = N"

definition pipe_contents :: "nat \<Rightarrow> pipe \<Rightarrow> byte list" where
  "pipe_contents N p = rb_contents N (ps_buffer (pipe_inner p)) (pipe_buf p)"

lemma pipe_inv_new: "0 < N \<Longrightarrow> N \<le> usize_max \<Longrightarrow> pipe_inv N (Pipe_new N)"
  by (simp add: pipe_inv_def Pipe_new_def)

lemma pipe_contents_new [simp]: "pipe_contents N (Pipe_new N) = []"
  by (simp add: pipe_contents_def Pipe_new_def)

lemma pipe_contents_le: "pipe_inv N p \<Longrightarrow> length (pipe_contents N p) \<le> N"
  by (simp add: pipe_inv_def pipe_contents_def rb_contents_le)

lemma pipe_N_pos: "pipe_inv N p \<Longrightarrow> 0 < N"
  by (auto simp: pipe_inv_def rb_inv_def)

lemma pipe_empty_iff:
  "pipe_inv N p \<Longrightarrow> RingBuffer_is_empty (ps_buffer (pipe_inner p)) \<longleftrightarrow> pipe_contents N p = []"
  by (simp add: pipe_inv_def pipe_contents_def rb_empty_iff)

lemma pipe_full_iff:
  "pipe_inv N p \<Longrightarrow> RingBuffer_is_full (ps_buffer (pipe_inner p)) \<longleftrightarrow> length (pipe_contents N p) = N"
  by (simp add: pipe_inv_def pipe_contents_def rb_full_iff)

text \<open>The readable range: a front part of the contents, empty only for an empty pipe.\<close>

lemma pipe_readable:
  assumes "pipe_inv N p"
  obtains a b where "RingBuffer_pop_buf N (ps_buffer (pipe_inner p)) = Ret (a, b)"
    "Buffer_get (pipe_buf p) (a, b) = Ret (take (b - a) (pipe_contents N p))"
    "b - a \<le> length (pipe_contents N p)" "b - a = 0 \<longleftrightarrow> pipe_contents N p = []"
proof -
  let ?rb = "ps_buffer (pipe_inner p)"
  from assms have inv: "rb_inv N ?rb" and len: "length (pipe_buf p) = N"
    by (auto simp: pipe_inv_def)
  from pop_buf_range [OF inv] obtain a b where pb: "RingBuffer_pop_buf N ?rb = Ret (a, b)"
    and ab: "a \<le> b" "b \<le> N" and e: "a = b \<longleftrightarrow> RingBuffer_is_empty ?rb" by auto
  have front: "slice_of a b (pipe_buf p) = take (b - a) (pipe_contents N p)"
    using pop_buf_front [OF inv len pb] by (simp add: pipe_contents_def)
  have "length (take (b - a) (pipe_contents N p)) = b - a"
    using len ab by (simp flip: front)
  then have le: "b - a \<le> length (pipe_contents N p)" by simp
  have "Buffer_get (pipe_buf p) (a, b) = Ret (take (b - a) (pipe_contents N p))"
    using front len ab by (simp add: Buffer_get_def)
  moreover have "b - a = 0 \<longleftrightarrow> pipe_contents N p = []"
    using e ab pipe_empty_iff [OF assms] by auto
  ultimately show ?thesis using pb le by (intro that)
qed

lemma pipe_pop:
  assumes "pipe_inv N p" "RingBuffer_pop_buf N (ps_buffer (pipe_inner p)) = Ret (a, b)" "n \<le> b - a"
  obtains rb where "RingBuffer_pop N (ps_buffer (pipe_inner p)) n = Ret rb"
    "\<And>s. ps_buffer s = rb \<Longrightarrow> pipe_inv N (p\<lparr>pipe_inner := s\<rparr>)"
    "\<And>s. ps_buffer s = rb \<Longrightarrow>
       pipe_contents N (p\<lparr>pipe_inner := s\<rparr>) = drop n (pipe_contents N p)"
  using pop_drops [of N "ps_buffer (pipe_inner p)" "pipe_buf p" a b n] assms that
  by (auto simp: pipe_inv_def pipe_contents_def)

lemma Pipe_try_read_cases:
  assumes inv: "pipe_inv N p"
  obtains (empty) rw p' ws where "pipe_contents N p = []"
      "WakerRegistration_register_opt (ps_read_waker (pipe_inner p)) cx = (rw, ws)"
      "p' = p\<lparr>pipe_inner := (pipe_inner p)\<lparr>ps_read_waker := rw\<rparr>\<rparr>"
      "Pipe_try_read_with_context N p cx buf = Ret (Err TryReadError_Empty, buf, p', ws)"
      "pipe_inv N p'" "pipe_contents N p' = []"
    | (some) k n ww p' ws where "pipe_contents N p \<noteq> []" "0 < k" "k \<le> length (pipe_contents N p)"
      "n = min k (length buf)"
      "WakerRegistration_wake_if (length (pipe_contents N p) = N) (ps_write_waker (pipe_inner p)) = (ww, ws)"
      "ps_read_waker (pipe_inner p') = ps_read_waker (pipe_inner p)"
      "ps_write_waker (pipe_inner p') = ww"
      "Pipe_try_read_with_context N p cx buf =
         Ret (Ok n, take n (pipe_contents N p) @ drop n buf, p', ws)"
      "pipe_inv N p'" "pipe_contents N p' = drop n (pipe_contents N p)"
proof -
  obtain a b where pb: "RingBuffer_pop_buf N (ps_buffer (pipe_inner p)) = Ret (a, b)"
    and get: "Buffer_get (pipe_buf p) (a, b) = Ret (take (b - a) (pipe_contents N p))"
    and le: "b - a \<le> length (pipe_contents N p)" and e: "b - a = 0 \<longleftrightarrow> pipe_contents N p = []"
    using pipe_readable [OF inv] .
  show ?thesis
  proof (cases "pipe_contents N p = []")
    case True
    obtain rw ws where reg: "WakerRegistration_register_opt (ps_read_waker (pipe_inner p)) cx = (rw, ws)"
      by (metis surj_pair)
    show ?thesis
      by (rule empty [OF True reg refl])
        (use inv True reg pb get pipe_N_pos [OF inv] in
          \<open>auto simp: Pipe_try_read_with_context_def pipe_full_iff WakerRegistration_wake_if_def
             pipe_inv_def pipe_contents_def\<close>)
  next
    case False
    let ?n = "min (b - a) (length buf)"
    obtain ww ws where wk: "WakerRegistration_wake_if (length (pipe_contents N p) = N)
        (ps_write_waker (pipe_inner p)) = (ww, ws)" by (metis surj_pair)
    obtain rb where pop: "RingBuffer_pop N (ps_buffer (pipe_inner p)) ?n = Ret rb"
      and inv': "\<And>s. ps_buffer s = rb \<Longrightarrow> pipe_inv N (p\<lparr>pipe_inner := s\<rparr>)"
      and con': "\<And>s. ps_buffer s = rb \<Longrightarrow>
        pipe_contents N (p\<lparr>pipe_inner := s\<rparr>) = drop ?n (pipe_contents N p)"
      using pipe_pop [OF inv pb, of ?n] by auto
    have "Pipe_try_read_with_context N p cx buf =
        Ret (Ok ?n, take ?n (pipe_contents N p) @ drop ?n buf,
          p\<lparr>pipe_inner := (pipe_inner p)\<lparr>ps_write_waker := ww, ps_buffer := rb\<rparr>\<rparr>, ws)"
      using False e get pb wk pop le
      by (auto simp: Pipe_try_read_with_context_def pipe_full_iff [OF inv] Let_def min_def)
    from some [OF False _ le refl wk _ _ this] e False inv' con' show ?thesis by auto
  qed
qed

lemma Pipe_try_fill_buf_cases:
  assumes inv: "pipe_inv N p"
  obtains (empty) rw p' ws where "pipe_contents N p = []"
      "WakerRegistration_register_opt (ps_read_waker (pipe_inner p)) cx = (rw, ws)"
      "p' = p\<lparr>pipe_inner := (pipe_inner p)\<lparr>ps_read_waker := rw\<rparr>\<rparr>"
      "Pipe_try_fill_buf_with_context N p cx = Ret (Err TryReadError_Empty, p', ws)"
      "pipe_inv N p'" "pipe_contents N p' = []"
    | (some) k ww p' ws where "pipe_contents N p \<noteq> []" "0 < k" "k \<le> length (pipe_contents N p)"
      "WakerRegistration_wake_if (length (pipe_contents N p) = N) (ps_write_waker (pipe_inner p)) = (ww, ws)"
      "p' = p\<lparr>pipe_inner := (pipe_inner p)\<lparr>ps_write_waker := ww\<rparr>\<rparr>"
      "Pipe_try_fill_buf_with_context N p cx = Ret (Ok (take k (pipe_contents N p)), p', ws)"
      "pipe_inv N p'" "pipe_contents N p' = pipe_contents N p"
proof -
  obtain a b where pb: "RingBuffer_pop_buf N (ps_buffer (pipe_inner p)) = Ret (a, b)"
    and get: "Buffer_get (pipe_buf p) (a, b) = Ret (take (b - a) (pipe_contents N p))"
    and le: "b - a \<le> length (pipe_contents N p)" and e: "b - a = 0 \<longleftrightarrow> pipe_contents N p = []"
    using pipe_readable [OF inv] .
  show ?thesis
  proof (cases "pipe_contents N p = []")
    case True
    obtain rw ws where reg: "WakerRegistration_register_opt (ps_read_waker (pipe_inner p)) cx = (rw, ws)"
      by (metis surj_pair)
    show ?thesis
      by (rule empty [OF True reg refl])
        (use inv True reg pb get pipe_N_pos [OF inv] in
          \<open>auto simp: Pipe_try_fill_buf_with_context_def pipe_full_iff WakerRegistration_wake_if_def
             pipe_inv_def pipe_contents_def\<close>)
  next
    case False
    obtain ww ws where wk: "WakerRegistration_wake_if (length (pipe_contents N p) = N)
        (ps_write_waker (pipe_inner p)) = (ww, ws)" by (metis surj_pair)
    show ?thesis
      by (rule some [OF False _ le wk refl])
        (use inv False e wk pb get in
          \<open>auto simp: Pipe_try_fill_buf_with_context_def pipe_full_iff pipe_inv_def pipe_contents_def Let_def\<close>)
  qed
qed

lemma Pipe_try_write_cases:
  assumes inv: "pipe_inv N p"
  obtains (full) ww p' ws where "length (pipe_contents N p) = N"
      "WakerRegistration_register_opt (ps_write_waker (pipe_inner p)) cx = (ww, ws)"
      "p' = p\<lparr>pipe_inner := (pipe_inner p)\<lparr>ps_write_waker := ww\<rparr>\<rparr>"
      "Pipe_try_write_with_context N p cx buf = Ret (Err TryWriteError_Full, p', ws)"
      "pipe_inv N p'" "pipe_contents N p' = pipe_contents N p"
    | (room) k n rw p' ws where "length (pipe_contents N p) < N" "0 < k" "n = min k (length buf)"
      "WakerRegistration_wake_if (pipe_contents N p = []) (ps_read_waker (pipe_inner p)) = (rw, ws)"
      "ps_read_waker (pipe_inner p') = rw"
      "ps_write_waker (pipe_inner p') = ps_write_waker (pipe_inner p)"
      "Pipe_try_write_with_context N p cx buf = Ret (Ok n, p', ws)"
      "pipe_inv N p'" "pipe_contents N p' = pipe_contents N p @ take n buf"
proof -
  let ?rb = "ps_buffer (pipe_inner p)"
  from inv have rinv: "rb_inv N ?rb" and len: "length (pipe_buf p) = N"
    by (auto simp: pipe_inv_def)
  from push_buf_range [OF rinv] obtain a b where pb: "RingBuffer_push_buf N ?rb = Ret (a, b)"
    and ab: "a \<le> b" "b \<le> N" and e: "a = b \<longleftrightarrow> rb_full ?rb" by auto
  have get: "Buffer_get (pipe_buf p) (a, b) = Ret (slice_of a b (pipe_buf p))"
    using ab len by (simp add: Buffer_get_def)
  have lab: "length (slice_of a b (pipe_buf p)) = b - a" using ab len by simp
  show ?thesis
  proof (cases "rb_full ?rb")
    case True
    obtain ww ws where reg: "WakerRegistration_register_opt (ps_write_waker (pipe_inner p)) cx = (ww, ws)"
      by (metis surj_pair)
    from True have fl: "length (pipe_contents N p) = N"
      using pipe_full_iff [OF inv] by (simp add: RingBuffer_is_full_def)
    with pipe_N_pos [OF inv] have ne: "\<not> RingBuffer_is_empty ?rb"
      using pipe_empty_iff [OF inv] by auto
    show ?thesis
      by (rule full [OF fl reg refl])
        (use inv True reg pb get ne e in
          \<open>auto simp: Pipe_try_write_with_context_def WakerRegistration_wake_if_def
             pipe_inv_def pipe_contents_def\<close>)
  next
    case False
    let ?n = "min (b - a) (length buf)"
    from False have lt: "length (pipe_contents N p) < N"
      using pipe_full_iff [OF inv] pipe_contents_le [OF inv] by (simp add: RingBuffer_is_full_def)
    obtain rw ws where wk: "WakerRegistration_wake_if (pipe_contents N p = [])
        (ps_read_waker (pipe_inner p)) = (rw, ws)" by (metis surj_pair)
    have tl: "length (take ?n buf) = ?n" by simp
    obtain rb where push: "RingBuffer_push N ?rb ?n = Ret rb" and rinv': "rb_inv N rb"
      and con': "rb_contents N rb (write_at a (take ?n buf) (pipe_buf p)) =
        pipe_contents N p @ take ?n buf"
      using push_appends [OF rinv len pb, of "take ?n buf"] tl by (auto simp: pipe_contents_def)
    have lw: "length (write_at a (take ?n buf) (pipe_buf p)) = N"
      using tl ab len by (subst length_write_at) auto
    let ?p = "p\<lparr>pipe_buf := write_at a (take ?n buf) (pipe_buf p),
      pipe_inner := (pipe_inner p)\<lparr>ps_read_waker := rw, ps_buffer := rb\<rparr>\<rparr>"
    have "Pipe_try_write_with_context N p cx buf = Ret (Ok ?n, ?p, ws)"
      using False e get pb wk push lab ab
      by (auto simp: Pipe_try_write_with_context_def pipe_empty_iff [OF inv] Let_def
          simp flip: length_0_conv)
    from room [OF lt _ refl wk _ _ this] False e ab rinv' con' lw show ?thesis
      by (auto simp: pipe_inv_def pipe_contents_def)
  qed
qed

lemma Pipe_consume_cases:
  assumes inv: "pipe_inv N p"
  obtains (ok) p' where "Pipe_consume N p amt = Ret p'" "amt \<le> length (pipe_contents N p)"
      "pipe_inv N p'" "pipe_contents N p' = drop amt (pipe_contents N p)"
      "ps_read_waker (pipe_inner p') = ps_read_waker (pipe_inner p)"
      "ps_write_waker (pipe_inner p') = ps_write_waker (pipe_inner p)"
    | (panic) "Pipe_consume N p amt = Panic AssertFailed"
proof -
  obtain a b where pb: "RingBuffer_pop_buf N (ps_buffer (pipe_inner p)) = Ret (a, b)"
    and le: "b - a \<le> length (pipe_contents N p)"
    using pipe_readable [OF inv] .
  show ?thesis
  proof (cases "amt \<le> b - a")
    case True
    then obtain rb where "RingBuffer_pop N (ps_buffer (pipe_inner p)) amt = Ret rb"
      "\<And>s. ps_buffer s = rb \<Longrightarrow> pipe_inv N (p\<lparr>pipe_inner := s\<rparr>)"
      "\<And>s. ps_buffer s = rb \<Longrightarrow>
        pipe_contents N (p\<lparr>pipe_inner := s\<rparr>) = drop amt (pipe_contents N p)"
      using pipe_pop [OF inv pb] by blast
    with True le pb show ?thesis
      by (intro ok [of "p\<lparr>pipe_inner := (pipe_inner p)\<lparr>ps_buffer := rb\<rparr>\<rparr>"])
        (auto simp: Pipe_consume_def rust_arith)
  next
    case False
    with pb show ?thesis by (intro panic) (auto simp: Pipe_consume_def rust_arith)
  qed
qed

lemma Pipe_clear_props:
  assumes "pipe_inv N p" "Pipe_clear p = (p', ws)"
  shows "pipe_inv N p'" "pipe_contents N p' = []"
    "ps_read_waker (pipe_inner p') = ps_read_waker (pipe_inner p)"
    "WakerRegistration_wake (ps_write_waker (pipe_inner p)) = (ps_write_waker (pipe_inner p'), ws)"
  using assms by (auto simp: Pipe_clear_def Let_def pipe_inv_def pipe_contents_def rb_inv_clear
      split: prod.splits)

section \<open>Runs of a pipe\<close>

text \<open>
  A run is a sequence of operations by any number of tasks.  Beside the pipe it records the bytes
  accepted so far (without those that \<open>clear\<close> discarded), the bytes handed to readers, and the
  tasks that sleep: a task sleeps from the poll that left it pending until its waker is woken.
\<close>

datatype pipe_op =
    PipeRead "waker option" "byte list"
  | PipeWrite "waker option" "byte list"
  | PipeFill "waker option"
  | PipeConsume nat
  | PipeClear

record pipe_run =
  pr_pipe :: pipe
  pr_written :: "byte list"
  pr_read :: "byte list"
  pr_readers :: "waker set"
  pr_writers :: "waker set"

definition pipe_run_init :: "nat \<Rightarrow> pipe_run" where
  "pipe_run_init N = \<lparr>pr_pipe = Pipe_new N, pr_written = [], pr_read = [],
     pr_readers = {}, pr_writers = {}\<rparr>"

fun pipe_exec :: "nat \<Rightarrow> pipe_run \<Rightarrow> pipe_op \<Rightarrow> pipe_run outcome" where
  "pipe_exec N c (PipeRead cx buf) =
     bind_out (Pipe_try_read_with_context N (pr_pipe c) cx buf) (\<lambda>(r, buf', p, ws). Ret (c\<lparr>
       pr_pipe := p,
       pr_read := pr_read c @ (case r of Ok n \<Rightarrow> take n buf' | Err _ \<Rightarrow> []),
       pr_readers := (pr_readers c - set ws) \<union> (case r of Ok _ \<Rightarrow> {} | Err _ \<Rightarrow> set_option cx),
       pr_writers := pr_writers c - set ws\<rparr>))"
| "pipe_exec N c (PipeWrite cx buf) =
     bind_out (Pipe_try_write_with_context N (pr_pipe c) cx buf) (\<lambda>(r, p, ws). Ret (c\<lparr>
       pr_pipe := p,
       pr_written := pr_written c @ (case r of Ok n \<Rightarrow> take n buf | Err _ \<Rightarrow> []),
       pr_readers := pr_readers c - set ws,
       pr_writers := (pr_writers c - set ws) \<union> (case r of Ok _ \<Rightarrow> {} | Err _ \<Rightarrow> set_option cx)\<rparr>))"
| "pipe_exec N c (PipeFill cx) =
     bind_out (Pipe_try_fill_buf_with_context N (pr_pipe c) cx) (\<lambda>(r, p, ws). Ret (c\<lparr>
       pr_pipe := p,
       pr_readers := (pr_readers c - set ws) \<union> (case r of Ok _ \<Rightarrow> {} | Err _ \<Rightarrow> set_option cx),
       pr_writers := pr_writers c - set ws\<rparr>))"
| "pipe_exec N c (PipeConsume amt) =
     bind_out (Pipe_consume N (pr_pipe c) amt) (\<lambda>p. Ret (c\<lparr>
       pr_pipe := p,
       pr_read := pr_read c @ take amt (pipe_contents N (pr_pipe c))\<rparr>))"
| "pipe_exec N c PipeClear =
     (let (p, ws) = Pipe_clear (pr_pipe c) in Ret (c\<lparr>
       pr_pipe := p,
       pr_written := pr_read c,
       pr_readers := pr_readers c - set ws,
       pr_writers := pr_writers c - set ws\<rparr>))"

fun pipe_exec_all :: "nat \<Rightarrow> pipe_run \<Rightarrow> pipe_op list \<Rightarrow> pipe_run outcome" where
  "pipe_exec_all N c [] = Ret c"
| "pipe_exec_all N c (x # xs) = bind_out (pipe_exec N c x) (\<lambda>c'. pipe_exec_all N c' xs)"

definition pipe_fifo_inv :: "nat \<Rightarrow> pipe_run \<Rightarrow> bool" where
  "pipe_fifo_inv N c \<longleftrightarrow> pipe_inv N (pr_pipe c) \<and>
     pr_written c = pr_read c @ pipe_contents N (pr_pipe c)"

text \<open>Every sleeping task is registered, readers sleep only on an empty pipe, writers on a full one.\<close>

definition pipe_live_inv :: "nat \<Rightarrow> pipe_run \<Rightarrow> bool" where
  "pipe_live_inv N c \<longleftrightarrow>
     pr_readers c \<subseteq> wr_registered (ps_read_waker (pipe_inner (pr_pipe c))) \<and>
     pr_writers c \<subseteq> wr_registered (ps_write_waker (pipe_inner (pr_pipe c))) \<and>
     (pipe_contents N (pr_pipe c) \<noteq> [] \<longrightarrow> pr_readers c = {}) \<and>
     (length (pipe_contents N (pr_pipe c)) < N \<longrightarrow> pr_writers c = {})"

fun is_consume :: "pipe_op \<Rightarrow> bool" where
  "is_consume (PipeConsume _) = True"
| "is_consume _ = False"

lemma pipe_exec_fifo:
  assumes "pipe_fifo_inv N c" "pipe_exec N c x = Ret c'"
  shows "pipe_fifo_inv N c'"
proof -
  have inv: "pipe_inv N (pr_pipe c)" and w: "pr_written c = pr_read c @ pipe_contents N (pr_pipe c)"
    using assms(1) by (auto simp: pipe_fifo_inv_def)
  show ?thesis
  proof (cases x)
    case (PipeRead cx buf)
    from inv show ?thesis
      by (cases rule: Pipe_try_read_cases [where cx = cx and buf = buf])
        (use assms(2) w PipeRead in \<open>auto simp: pipe_fifo_inv_def\<close>)
  next
    case (PipeWrite cx buf)
    from inv show ?thesis
      by (cases rule: Pipe_try_write_cases [where cx = cx and buf = buf])
        (use assms(2) w PipeWrite in \<open>auto simp: pipe_fifo_inv_def\<close>)
  next
    case (PipeFill cx)
    from inv show ?thesis
      by (cases rule: Pipe_try_fill_buf_cases [where cx = cx])
        (use assms(2) w PipeFill in \<open>auto simp: pipe_fifo_inv_def\<close>)
  next
    case (PipeConsume amt)
    from inv show ?thesis
      by (cases rule: Pipe_consume_cases [where amt = amt])
        (use assms(2) w PipeConsume in \<open>auto simp: pipe_fifo_inv_def\<close>)
  next
    case PipeClear
    obtain p ws where "Pipe_clear (pr_pipe c) = (p, ws)" by (metis surj_pair)
    with assms(2) inv PipeClear show ?thesis
      by (auto simp: pipe_fifo_inv_def Pipe_clear_props)
  qed
qed

lemma pipe_exec_live:
  assumes "pipe_inv N (pr_pipe c)" "pipe_live_inv N c" "\<not> is_consume x"
  shows "\<exists>c'. pipe_exec N c x = Ret c' \<and> pipe_live_inv N c'"
proof -
  let ?p = "pr_pipe c"
  have r: "pr_readers c \<subseteq> wr_registered (ps_read_waker (pipe_inner ?p))"
    and w: "pr_writers c \<subseteq> wr_registered (ps_write_waker (pipe_inner ?p))"
    and e: "pipe_contents N ?p \<noteq> [] \<Longrightarrow> pr_readers c = {}"
    and f: "length (pipe_contents N ?p) < N \<Longrightarrow> pr_writers c = {}"
    using assms(2) by (auto simp: pipe_live_inv_def)
  note pos = pipe_N_pos [OF assms(1)] and le = pipe_contents_le [OF assms(1)]
  show ?thesis
  proof (cases x)
    case (PipeRead cx buf)
    from assms(1) show ?thesis
    proof (cases rule: Pipe_try_read_cases [where cx = cx and buf = buf])
      case (empty rw p' ws)
      with PipeRead f pos wr_sleepers_register_opt [OF r empty(2)] show ?thesis
        by (auto simp: pipe_live_inv_def)
    next
      case (some k n ww p' ws)
      have "pr_writers c - set ws = {}"
        using wr_sleepers_wake_if(2) [OF w some(5)] f le
        by (cases "length (pipe_contents N ?p) = N") auto
      with PipeRead some e show ?thesis by (auto simp: pipe_live_inv_def)
    qed
  next
    case (PipeWrite cx buf)
    from assms(1) show ?thesis
    proof (cases rule: Pipe_try_write_cases [where cx = cx and buf = buf])
      case (full ww p' ws)
      have "pipe_contents N ?p \<noteq> []" using full(1) pos by fastforce
      then have "pr_readers c = {}" by (rule e)
      with PipeWrite full wr_sleepers_register_opt [OF w full(2)] show ?thesis
        by (auto simp: pipe_live_inv_def)
    next
      case (room k n rw p' ws)
      have "pr_readers c - set ws = {}"
        using wr_sleepers_wake_if(2) [OF r room(4)] e by (cases "pipe_contents N ?p = []") auto
      with PipeWrite room f show ?thesis by (auto simp: pipe_live_inv_def)
    qed
  next
    case (PipeFill cx)
    from assms(1) show ?thesis
    proof (cases rule: Pipe_try_fill_buf_cases [where cx = cx])
      case (empty rw p' ws)
      with PipeFill f pos wr_sleepers_register_opt [OF r empty(2)] show ?thesis
        by (auto simp: pipe_live_inv_def)
    next
      case (some k ww p' ws)
      with PipeFill e f le wr_sleepers_wake_if [OF w some(4)] show ?thesis
        by (auto simp: pipe_live_inv_def)
    qed
  next
    case (PipeConsume amt)
    with assms(3) show ?thesis by simp
  next
    case PipeClear
    obtain p' ws where cl: "Pipe_clear ?p = (p', ws)" by (metis surj_pair)
    note cp = Pipe_clear_props [OF assms(1) cl]
    have "pr_writers c - set ws = {}" using wr.sleepers_wake [OF TrueI w cp(4)] .
    with PipeClear cl cp(2,3) r show ?thesis by (auto simp: pipe_live_inv_def)
  qed
qed

lemma pipe_run_init_inv:
  "0 < N \<Longrightarrow> N \<le> usize_max \<Longrightarrow> pipe_fifo_inv N (pipe_run_init N)"
  "pipe_live_inv N (pipe_run_init N)"
  by (simp_all add: pipe_fifo_inv_def pipe_live_inv_def pipe_run_init_def pipe_inv_new)

lemma pipe_exec_all_fifo:
  "pipe_fifo_inv N c \<Longrightarrow> pipe_exec_all N c xs = Ret c' \<Longrightarrow> pipe_fifo_inv N c'"
  by (induction xs arbitrary: c) (auto dest: pipe_exec_fifo)

lemma pipe_exec_all_live:
  assumes "pipe_fifo_inv N c" "pipe_live_inv N c" "\<not> list_ex is_consume xs"
  shows "\<exists>c'. pipe_exec_all N c xs = Ret c' \<and> pipe_live_inv N c'"
  using assms
proof (induction xs arbitrary: c)
  case (Cons x xs)
  then obtain c1 where c1: "pipe_exec N c x = Ret c1" "pipe_live_inv N c1"
    using pipe_exec_live [of N c x] by (auto simp: pipe_fifo_inv_def)
  with Cons.prems(1) have "pipe_fifo_inv N c1" by (blast dest: pipe_exec_fifo)
  with Cons.IH [of c1] c1 Cons.prems(3) show ?case by simp
qed simp



text \<open>
  C22. No sleeping task of a pipe is forgotten: a sequence of reads, writes, \<open>fill_buf\<close> and \<open>clear\<close>
  never panics, and after it every task that sleeps in a read or a write is registered with the
  pipe, a sleeping reader implies that the pipe is empty and a sleeping writer that it is full.
\<close>

theorem pipe_no_lost_wakeup:
  assumes "0 < N" "N \<le> usize_max" "\<not> list_ex is_consume ops"
  shows "\<exists>c. pipe_exec_all N (pipe_run_init N) ops = Ret c \<and>
    pr_readers c \<subseteq> wr_registered (ps_read_waker (pipe_inner (pr_pipe c))) \<and>
    pr_writers c \<subseteq> wr_registered (ps_write_waker (pipe_inner (pr_pipe c))) \<and>
    (pipe_contents N (pr_pipe c) \<noteq> [] \<longrightarrow> pr_readers c = {}) \<and>
    (length (pipe_contents N (pr_pipe c)) < N \<longrightarrow> pr_writers c = {})"
  using pipe_exec_all_live [OF pipe_run_init_inv(1) [OF assms(1,2)] pipe_run_init_inv(2) assms(3)]
  by (auto simp: pipe_live_inv_def)

lemmas pipe_eval =
  pipe_run_init_def Pipe_new_def RingBuffer_new_def Pipe_try_write_with_context_def
  Pipe_try_read_with_context_def Pipe_try_fill_buf_with_context_def Pipe_consume_def
  RingBuffer_push_buf_def RingBuffer_pop_buf_def RingBuffer_push_def RingBuffer_pop_def
  ring_buffer_defs Buffer_get_def slice_of_def write_at_def rust_arith usize_max_def
  WakerRegistration_wake_if_def waker_registration_defs pipe_contents_def rb_contents_def
  Let_def numeral_2_eq_2

theorem pipe_no_lost_wakeup_witness:
  "\<exists>c. pipe_exec_all 1 (pipe_run_init 1)
         [PipeWrite None [7], PipeWrite (Some (RawWaker 5 VTABLE)) [8]] = Ret c \<and>
     pr_writers c = {RawWaker 5 VTABLE} \<and>
     RawWaker 5 VTABLE \<in> wr_registered (ps_write_waker (pipe_inner (pr_pipe c)))"
proof -
  let ?ops = "[PipeWrite None [7], PipeWrite (Some (RawWaker 5 VTABLE)) [8]]"
  have "\<exists>c. pipe_exec_all 1 (pipe_run_init 1) ?ops = Ret c \<and> pr_writers c = {RawWaker 5 VTABLE}"
    by (simp add: pipe_eval)
  then obtain c where c: "pipe_exec_all 1 (pipe_run_init 1) ?ops = Ret c"
    "pr_writers c = {RawWaker 5 VTABLE}" by blast
  have "\<not> list_ex is_consume ?ops" by simp
  from pipe_no_lost_wakeup [OF _ _ this, of 1] c
  have "RawWaker 5 VTABLE \<in> wr_registered (ps_write_waker (pipe_inner (pr_pipe c)))"
    by (simp add: usize_max_def del: pipe_exec_all.simps)
  with c show ?thesis by blast
qed



lemma write_all_poll_spec:
  assumes "pipe_inv N p" "length buf < fuel"
  shows "\<exists>r sent rest p' ws. write_all_poll fuel N p cx buf = Some (Ret (r, rest, p', ws)) \<and>
    pipe_inv N p' \<and> buf = sent @ rest \<and> pipe_contents N p' = pipe_contents N p @ sent \<and>
    (r = Ready () \<longleftrightarrow> rest = []) \<and>
    (r = Pending \<longrightarrow> length (pipe_contents N p') = N \<and>
       cx \<in> wr_registered (ps_write_waker (pipe_inner p')))"
  using assms
proof (induction fuel arbitrary: p buf)
  case (Suc fuel)
  show ?case
  proof (cases "buf = []")
    case True
    with Suc.prems show ?thesis by simp
  next
    case ne: False
    from Suc.prems(1) show ?thesis
    proof (cases rule: Pipe_try_write_cases [where cx = "Some cx" and buf = buf])
      case (full ww p' ws)
      with ne wr_sleepers_register_opt [of "{}" _ "Some cx" ww ws] show ?thesis
        by (auto simp: WriteFuture_poll_def)
    next
      case (room k n rw p' ws)
      with ne have n: "0 < n" by auto
      moreover have "0 < length buf" using ne by simp
      ultimately have "length (drop n buf) < fuel"
        using Suc.prems(2) by (simp only: length_drop)
      from Suc.IH [OF room(8) this] obtain r sent rest p'' ws' where
        IH: "write_all_poll fuel N p' cx (drop n buf) = Some (Ret (r, rest, p'', ws'))"
          "pipe_inv N p''" "drop n buf = sent @ rest"
          "pipe_contents N p'' = pipe_contents N p' @ sent" "r = Ready () \<longleftrightarrow> rest = []"
          "r = Pending \<longrightarrow> length (pipe_contents N p'') = N \<and>
             cx \<in> wr_registered (ps_write_waker (pipe_inner p''))" by blast
      have "buf = (take n buf @ sent) @ rest" by (simp flip: IH(3))
      with IH room ne show ?thesis
        by (intro exI [of _ r] exI [of _ "take n buf @ sent"] exI [of _ rest] exI [of _ p''])
          (auto simp: WriteFuture_poll_def)
    qed
  qed
qed simp

text \<open>
  One poll of \<open>write_all\<close> ends (more fuel than bytes is enough), never panics, and moves a front
  part of the remaining bytes to the end of the pipe; it is ready exactly when nothing remains, and
  when it stays pending the pipe is full and the task is registered as a writer.
\<close>

theorem write_all_poll_total:
  assumes "pipe_inv N p" "length buf < fuel"
  shows "\<exists>r sent rest p' ws. write_all_poll fuel N p cx buf = Some (Ret (r, rest, p', ws)) \<and>
    pipe_inv N p' \<and> buf = sent @ rest \<and> pipe_contents N p' = pipe_contents N p @ sent \<and>
    (r = Ready () \<longleftrightarrow> rest = []) \<and>
    (r = Pending \<longrightarrow> length (pipe_contents N p') = N \<and>
       cx \<in> wr_registered (ps_write_waker (pipe_inner p')))"
  using assms by (rule write_all_poll_spec)

theorem write_all_poll_total_witness:
  "\<exists>r sent rest p' ws. write_all_poll 4 2 (Pipe_new 2) (RawWaker 1 VTABLE) [1, 2, 3] =
       Some (Ret (r, rest, p', ws)) \<and> [1, 2, 3] = sent @ rest \<and>
     pipe_contents 2 p' = pipe_contents 2 (Pipe_new 2) @ sent \<and>
     (r = Pending \<longrightarrow> length (pipe_contents 2 p') = 2)"
  using write_all_poll_total [of 2 "Pipe_new 2" "[1, 2, 3]" 4 "RawWaker 1 VTABLE"]
  by (auto simp: pipe_inv_new usize_max_def)

lemma Pipe_len_eq:
  "pipe_inv N p \<Longrightarrow> 2 * N \<le> usize_max \<Longrightarrow> Pipe_len N p = Ret (length (pipe_contents N p))"
  by (simp add: Pipe_len_def pipe_inv_def pipe_contents_def RingBuffer_len_eq)

text \<open>
  The observers of a pipe agree with its contents: \<open>len\<close> counts the buffered bytes,
  \<open>free_capacity\<close> the rest of \<open>capacity\<close>, \<open>is_full\<close> and \<open>is_empty\<close> compare \<open>len\<close> with \<open>N\<close> and 0, and
  none of them panics, for a capacity whose double fits in \<open>usize\<close>.
\<close>

theorem pipe_observers:
  assumes "pipe_inv N p" "2 * N \<le> usize_max"
  shows "Pipe_len N p = Ret (length (pipe_contents N p)) \<and>
    Pipe_free_capacity N p = Ret (Pipe_capacity N p - length (pipe_contents N p)) \<and>
    Pipe_is_full N p = Ret (length (pipe_contents N p) = N) \<and>
    Pipe_is_empty N p = Ret (pipe_contents N p = [])"
  using Pipe_len_eq [OF assms] pipe_contents_le [OF assms(1)]
  by (simp add: Pipe_free_capacity_def Pipe_capacity_def Pipe_is_full_def Pipe_is_empty_def)

theorem pipe_observers_witness:
  "Pipe_len 4 (Pipe_new 4) = Ret 0 \<and> Pipe_free_capacity 4 (Pipe_new 4) = Ret 4"
  using pipe_observers [of 4 "Pipe_new 4"]
  by (simp add: pipe_inv_new usize_max_def Pipe_capacity_def)

end
