(* ===== verification/Channel.thy ===== *)
theory Channel
  imports Waitqueue
begin

text \<open>
  The bounded channel of \<open>src/src/sync/channel.rs\<close> and the interface \<open>DynamicChannel\<close> it shares
  with the priority channel.  A trait object is the record of its methods (\<open>dyn_channel\<close>); the
  locale \<open>message_channel\<close> is the contract the dynamic senders, receivers and their futures rely
  on, \<open>ready_channel\<close> adds what \<open>poll_ready_to_send\<close> promises.  Operations run under the channel's
  blocking mutex, so each is one atomic step that returns its result, the new state and the wakers
  it woke.
\<close>

datatype try_receive_error = TryReceiveError_Empty
datatype 'a try_send_error = TrySendError_Full 'a

record 'q channel_state =
  cs_queue :: 'q
  cs_receiver_waker :: waker_registration
  cs_senders_waker :: waker_registration

definition ChannelState_new :: "('q, 'a) deque_ops \<Rightarrow> 'q channel_state" where
  "ChannelState_new D = \<lparr>cs_queue = Deque_new D, cs_receiver_waker = WakerRegistration_new,
     cs_senders_waker = WakerRegistration_new\<rparr>"

definition ChannelState_try_receive_with_context ::
  "('q, 'a) deque_ops \<Rightarrow> 'q channel_state \<Rightarrow> waker option \<Rightarrow>
     ('a, try_receive_error) result \<times> 'q channel_state \<times> waker list" where
  "ChannelState_try_receive_with_context D c cx =
     (let (sw, woken) = WakerRegistration_wake_if (Deque_is_full D (cs_queue c)) (cs_senders_waker c);
          c = c\<lparr>cs_senders_waker := sw\<rparr>
      in case Deque_pop_front D (cs_queue c) of
           (Some message, q) \<Rightarrow> (Ok message, c\<lparr>cs_queue := q\<rparr>, woken)
         | (None, q) \<Rightarrow>
             (let (rw, displaced) = WakerRegistration_register_opt (cs_receiver_waker c) cx
              in (Err TryReceiveError_Empty, c\<lparr>cs_queue := q, cs_receiver_waker := rw\<rparr>,
                  woken @ displaced)))"

definition ChannelState_try_receive ::
  "('q, 'a) deque_ops \<Rightarrow> 'q channel_state \<Rightarrow>
     ('a, try_receive_error) result \<times> 'q channel_state \<times> waker list" where
  "ChannelState_try_receive D c = ChannelState_try_receive_with_context D c None"

definition ChannelState_poll_receive ::
  "('q, 'a) deque_ops \<Rightarrow> 'q channel_state \<Rightarrow> waker \<Rightarrow> 'a poll \<times> 'q channel_state \<times> waker list" where
  "ChannelState_poll_receive D c cx =
     (let (sw, woken) = WakerRegistration_wake_if (Deque_is_full D (cs_queue c)) (cs_senders_waker c);
          c = c\<lparr>cs_senders_waker := sw\<rparr>
      in case Deque_pop_front D (cs_queue c) of
           (Some message, q) \<Rightarrow> (Ready message, c\<lparr>cs_queue := q\<rparr>, woken)
         | (None, q) \<Rightarrow>
             (let (rw, displaced) = WakerRegistration_register (cs_receiver_waker c) cx
              in (Pending, c\<lparr>cs_queue := q, cs_receiver_waker := rw\<rparr>, woken @ displaced)))"

definition ChannelState_poll_ready_to_receive ::
  "('q, 'a) deque_ops \<Rightarrow> 'q channel_state \<Rightarrow> waker \<Rightarrow> unit poll \<times> 'q channel_state \<times> waker list" where
  "ChannelState_poll_ready_to_receive D c cx =
     (let (rw, displaced) = WakerRegistration_register (cs_receiver_waker c) cx;
          c = c\<lparr>cs_receiver_waker := rw\<rparr>
      in (if \<not> Deque_is_empty D (cs_queue c) then Ready () else Pending, c, displaced))"

definition ChannelState_try_send_with_context ::
  "('q, 'a) deque_ops \<Rightarrow> 'q channel_state \<Rightarrow> 'a \<Rightarrow> waker option \<Rightarrow>
     (unit, 'a try_send_error) result \<times> 'q channel_state \<times> waker list" where
  "ChannelState_try_send_with_context D c message cx =
     (case Deque_push_back D (cs_queue c) message of
        (Ok _, q) \<Rightarrow>
          (let (rw, woken) = WakerRegistration_wake (cs_receiver_waker c)
           in (Ok (), c\<lparr>cs_queue := q, cs_receiver_waker := rw\<rparr>, woken))
      | (Err message, q) \<Rightarrow>
          (let (sw, displaced) = WakerRegistration_register_opt (cs_senders_waker c) cx
           in (Err (TrySendError_Full message), c\<lparr>cs_queue := q, cs_senders_waker := sw\<rparr>, displaced)))"

definition ChannelState_try_send ::
  "('q, 'a) deque_ops \<Rightarrow> 'q channel_state \<Rightarrow> 'a \<Rightarrow>
     (unit, 'a try_send_error) result \<times> 'q channel_state \<times> waker list" where
  "ChannelState_try_send D c message = ChannelState_try_send_with_context D c message None"

definition ChannelState_poll_ready_to_send ::
  "('q, 'a) deque_ops \<Rightarrow> 'q channel_state \<Rightarrow> waker \<Rightarrow> unit poll \<times> 'q channel_state \<times> waker list" where
  "ChannelState_poll_ready_to_send D c cx =
     (let (sw, displaced) = WakerRegistration_register (cs_senders_waker c) cx;
          c = c\<lparr>cs_senders_waker := sw\<rparr>
      in (if \<not> Deque_is_full D (cs_queue c) then Ready () else Pending, c, displaced))"

definition ChannelState_len :: "('q, 'a) deque_ops \<Rightarrow> 'q channel_state \<Rightarrow> nat" where
  "ChannelState_len D c = Deque_len D (cs_queue c)"

definition ChannelState_is_empty :: "('q, 'a) deque_ops \<Rightarrow> 'q channel_state \<Rightarrow> bool" where
  "ChannelState_is_empty D c = Deque_is_empty D (cs_queue c)"

definition ChannelState_is_full :: "('q, 'a) deque_ops \<Rightarrow> 'q channel_state \<Rightarrow> bool" where
  "ChannelState_is_full D c = Deque_is_full D (cs_queue c)"

section \<open>Futures\<close>

text \<open>
  \<open>SendFuture\<close> owns the message until it is sent: \<open>poll\<close> takes it out of its option, panics when
  the option is empty, and puts it back when the channel is full.
\<close>

definition SendFuture_poll ::
  "('q, 'a) deque_ops \<Rightarrow> 'a option \<Rightarrow> 'q channel_state \<Rightarrow> waker \<Rightarrow>
     (unit poll \<times> 'a option \<times> 'q channel_state \<times> waker list) outcome" where
  "SendFuture_poll D message c cx =
     (case message of
        None \<Rightarrow> Panic ExplicitPanic
      | Some m \<Rightarrow>
          (case ChannelState_try_send_with_context D c m (Some cx) of
             (Ok _, c', ws) \<Rightarrow> Ret (Ready (), None, c', ws)
           | (Err (TrySendError_Full m'), c', ws) \<Rightarrow> Ret (Pending, Some m', c', ws)))"

definition ReceiveFuture_poll ::
  "('q, 'a) deque_ops \<Rightarrow> 'q channel_state \<Rightarrow> waker \<Rightarrow> 'a poll \<times> 'q channel_state \<times> waker list" where
  "ReceiveFuture_poll D c cx = ChannelState_poll_receive D c cx"

definition ReceiveReadyFuture_poll ::
  "('q, 'a) deque_ops \<Rightarrow> 'q channel_state \<Rightarrow> waker \<Rightarrow> unit poll \<times> 'q channel_state \<times> waker list" where
  "ReceiveReadyFuture_poll D c cx = ChannelState_poll_ready_to_receive D c cx"

section \<open>Dynamic channels\<close>

record ('s, 'a) dyn_channel =
  dyn_try_send_with_context ::
    "'s \<Rightarrow> 'a \<Rightarrow> waker option \<Rightarrow> (unit, 'a try_send_error) result \<times> 's \<times> waker list"
  dyn_try_receive_with_context ::
    "'s \<Rightarrow> waker option \<Rightarrow> ('a, try_receive_error) result \<times> 's \<times> waker list"
  dyn_poll_ready_to_send :: "'s \<Rightarrow> waker \<Rightarrow> unit poll \<times> 's \<times> waker list"
  dyn_poll_ready_to_receive :: "'s \<Rightarrow> waker \<Rightarrow> unit poll \<times> 's \<times> waker list"
  dyn_poll_receive :: "'s \<Rightarrow> waker \<Rightarrow> 'a poll \<times> 's \<times> waker list"

definition Channel_dyn :: "('q, 'a) deque_ops \<Rightarrow> ('q channel_state, 'a) dyn_channel" where
  "Channel_dyn D = \<lparr>
     dyn_try_send_with_context = ChannelState_try_send_with_context D,
     dyn_try_receive_with_context = ChannelState_try_receive_with_context D,
     dyn_poll_ready_to_send = ChannelState_poll_ready_to_send D,
     dyn_poll_ready_to_receive = ChannelState_poll_ready_to_receive D,
     dyn_poll_receive = ChannelState_poll_receive D\<rparr>"

definition DynamicSendFuture_poll ::
  "('s, 'a) dyn_channel \<Rightarrow> 'a option \<Rightarrow> 's \<Rightarrow> waker \<Rightarrow>
     (unit poll \<times> 'a option \<times> 's \<times> waker list) outcome" where
  "DynamicSendFuture_poll C message s cx =
     (case message of
        None \<Rightarrow> Panic ExplicitPanic
      | Some m \<Rightarrow>
          (case dyn_try_send_with_context C s m (Some cx) of
             (Ok _, s', ws) \<Rightarrow> Ret (Ready (), None, s', ws)
           | (Err (TrySendError_Full m'), s', ws) \<Rightarrow> Ret (Pending, Some m', s', ws)))"

definition DynamicReceiveFuture_poll ::
  "('s, 'a) dyn_channel \<Rightarrow> 's \<Rightarrow> waker \<Rightarrow> 'a poll \<times> 's \<times> waker list" where
  "DynamicReceiveFuture_poll C s cx =
     (case dyn_try_receive_with_context C s (Some cx) of
        (Ok v, s', ws) \<Rightarrow> (Ready v, s', ws)
      | (Err TryReceiveError_Empty, s', ws) \<Rightarrow> (Pending, s', ws))"

definition DynamicSender_try_send ::
  "('s, 'a) dyn_channel \<Rightarrow> 's \<Rightarrow> 'a \<Rightarrow> (unit, 'a try_send_error) result \<times> 's \<times> waker list" where
  "DynamicSender_try_send C s m = dyn_try_send_with_context C s m None"

definition DynamicReceiver_try_receive ::
  "('s, 'a) dyn_channel \<Rightarrow> 's \<Rightarrow> ('a, try_receive_error) result \<times> 's \<times> waker list" where
  "DynamicReceiver_try_receive C s = dyn_try_receive_with_context C s None"

section \<open>Runs of a channel\<close>

text \<open>
  A run is a sequence of operations by any tasks.  It records the messages accepted and delivered
  so far, in order, and the tasks that sleep on the channel since their last poll.
\<close>

datatype 'a chan_op =
    ChanSend 'a "waker option"
  | ChanReceive "waker option"
  | ChanPollReceive waker
  | ChanReadyReceive waker
  | ChanReadySend waker

record ('s, 'a) chan_run =
  cr_state :: 's
  cr_accepted :: "'a list"
  cr_delivered :: "'a list"
  cr_receivers :: "waker set"
  cr_senders :: "waker set"

definition chan_run_init :: "'s \<Rightarrow> ('s, 'a) chan_run" where
  "chan_run_init s = \<lparr>cr_state = s, cr_accepted = [], cr_delivered = [],
     cr_receivers = {}, cr_senders = {}\<rparr>"

fun chan_exec :: "('s, 'a) dyn_channel \<Rightarrow> ('s, 'a) chan_run \<Rightarrow> 'a chan_op \<Rightarrow> ('s, 'a) chan_run" where
  "chan_exec C c (ChanSend m cx) =
     (let (r, s, ws) = dyn_try_send_with_context C (cr_state c) m cx in c\<lparr>
        cr_state := s,
        cr_accepted := cr_accepted c @ (case r of Ok _ \<Rightarrow> [m] | Err _ \<Rightarrow> []),
        cr_receivers := cr_receivers c - set ws,
        cr_senders := (cr_senders c - set ws) \<union> (case r of Ok _ \<Rightarrow> {} | Err _ \<Rightarrow> set_option cx)\<rparr>)"
| "chan_exec C c (ChanReceive cx) =
     (let (r, s, ws) = dyn_try_receive_with_context C (cr_state c) cx in c\<lparr>
        cr_state := s,
        cr_delivered := cr_delivered c @ (case r of Ok m \<Rightarrow> [m] | Err _ \<Rightarrow> []),
        cr_receivers := (cr_receivers c - set ws) \<union> (case r of Ok _ \<Rightarrow> {} | Err _ \<Rightarrow> set_option cx),
        cr_senders := cr_senders c - set ws\<rparr>)"
| "chan_exec C c (ChanPollReceive cx) =
     (let (r, s, ws) = dyn_poll_receive C (cr_state c) cx in c\<lparr>
        cr_state := s,
        cr_delivered := cr_delivered c @ (case r of Ready m \<Rightarrow> [m] | Pending \<Rightarrow> []),
        cr_receivers := (cr_receivers c - set ws) \<union> (case r of Ready _ \<Rightarrow> {} | Pending \<Rightarrow> {cx}),
        cr_senders := cr_senders c - set ws\<rparr>)"
| "chan_exec C c (ChanReadyReceive cx) =
     (let (r, s, ws) = dyn_poll_ready_to_receive C (cr_state c) cx in c\<lparr>
        cr_state := s,
        cr_receivers := (cr_receivers c - set ws) \<union> (case r of Ready _ \<Rightarrow> {} | Pending \<Rightarrow> {cx}),
        cr_senders := cr_senders c - set ws\<rparr>)"
| "chan_exec C c (ChanReadySend cx) =
     (let (r, s, ws) = dyn_poll_ready_to_send C (cr_state c) cx in c\<lparr>
        cr_state := s,
        cr_receivers := cr_receivers c - set ws,
        cr_senders := (cr_senders c - set ws) \<union> (case r of Ready _ \<Rightarrow> {} | Pending \<Rightarrow> {cx})\<rparr>)"

definition chan_exec_all ::
  "('s, 'a) dyn_channel \<Rightarrow> ('s, 'a) chan_run \<Rightarrow> 'a chan_op list \<Rightarrow> ('s, 'a) chan_run" where
  "chan_exec_all C c ops = fold (\<lambda>x c. chan_exec C c x) ops c"

lemma chan_exec_all_simps [simp]:
  "chan_exec_all C c [] = c"
  "chan_exec_all C c (x # xs) = chan_exec_all C (chan_exec C c x) xs"
  by (simp_all add: chan_exec_all_def)

fun is_ready_send :: "'a chan_op \<Rightarrow> bool" where
  "is_ready_send (ChanReadySend _) = True"
| "is_ready_send _ = False"

section \<open>The contract of a channel\<close>

locale message_channel =
  fixes C :: "('s, 'a) dyn_channel"
    and N :: nat
    and inv :: "'s \<Rightarrow> bool"
    and msgs :: "'s \<Rightarrow> 'a multiset"
    and recv_regs :: "'s \<Rightarrow> waker set"
    and send_regs :: "'s \<Rightarrow> waker set"
  assumes capacity_pos: "0 < N"
    and bounded: "inv s \<Longrightarrow> size (msgs s) \<le> N"
    and send: "inv s \<Longrightarrow> dyn_try_send_with_context C s m cx = (r, s', ws) \<Longrightarrow> inv s' \<and>
      (if size (msgs s) < N
       then r = Ok () \<and> msgs s' = add_mset m (msgs s) \<and>
            recv_regs s \<subseteq> set ws \<and> send_regs s' = send_regs s
       else r = Err (TrySendError_Full m) \<and> msgs s' = msgs s \<and> recv_regs s' = recv_regs s \<and>
            send_regs s \<subseteq> send_regs s' \<union> set ws \<and> set_option cx \<subseteq> send_regs s')"
    and receive: "inv s \<Longrightarrow> dyn_try_receive_with_context C s cx = (rr, s', ws) \<Longrightarrow> inv s' \<and>
      (if msgs s = {#}
       then rr = Err TryReceiveError_Empty \<and> msgs s' = {#} \<and> send_regs s' = send_regs s \<and>
            recv_regs s \<subseteq> recv_regs s' \<union> set ws \<and> set_option cx \<subseteq> recv_regs s'
       else (\<exists>m. rr = Ok m \<and> msgs s = add_mset m (msgs s')) \<and> recv_regs s' = recv_regs s \<and>
            send_regs s \<subseteq> send_regs s' \<union> set ws \<and>
            (size (msgs s) = N \<longrightarrow> send_regs s \<subseteq> set ws))"
    and poll_receive: "inv s \<Longrightarrow> dyn_poll_receive C s w =
      (case dyn_try_receive_with_context C s (Some w) of
         (Ok m, s', ws) \<Rightarrow> (Ready m, s', ws) | (Err _, s', ws) \<Rightarrow> (Pending, s', ws))"
    and ready_receive: "inv s \<Longrightarrow> dyn_poll_ready_to_receive C s w = (rp, s', ws) \<Longrightarrow>
      inv s' \<and> msgs s' = msgs s \<and> send_regs s' = send_regs s \<and>
      recv_regs s \<subseteq> recv_regs s' \<union> set ws \<and> w \<in> recv_regs s' \<and>
      (rp = Ready () \<longleftrightarrow> msgs s \<noteq> {#})"
    and ready_send_frame: "inv s \<Longrightarrow> dyn_poll_ready_to_send C s w = (rp, s', ws) \<Longrightarrow>
      inv s' \<and> msgs s' = msgs s \<and> recv_regs s' = recv_regs s \<and>
      send_regs s \<subseteq> send_regs s' \<union> set ws \<and> w \<in> send_regs s'"

context message_channel
begin

definition run_inv :: "('s, 'a) chan_run \<Rightarrow> bool" where
  "run_inv c \<longleftrightarrow> inv (cr_state c) \<and>
     mset (cr_accepted c) = mset (cr_delivered c) + msgs (cr_state c)"

definition live_inv :: "('s, 'a) chan_run \<Rightarrow> bool" where
  "live_inv c \<longleftrightarrow> cr_receivers c \<subseteq> recv_regs (cr_state c) \<and> cr_senders c \<subseteq> send_regs (cr_state c) \<and>
     (msgs (cr_state c) \<noteq> {#} \<longrightarrow> cr_receivers c = {}) \<and>
     (size (msgs (cr_state c)) < N \<longrightarrow> cr_senders c = {})"

lemma poll_receive_exec:
  "inv (cr_state c) \<Longrightarrow> chan_exec C c (ChanPollReceive w) = chan_exec C c (ChanReceive (Some w))"
  by (auto simp: poll_receive split: prod.splits result.splits)

lemma receive_run_inv: "run_inv c \<Longrightarrow> run_inv (chan_exec C c (ChanReceive cx))"
  using receive [of "cr_state c" cx] by (auto simp: run_inv_def split: prod.splits if_splits)

lemma exec_run_inv:
  assumes "run_inv c"
  shows "run_inv (chan_exec C c x)"
proof (cases x)
  case (ChanSend m cx)
  with assms show ?thesis
    using send [of "cr_state c" m cx] by (auto simp: run_inv_def split: prod.splits if_splits)
next
  case (ChanReceive cx)
  with assms show ?thesis by (simp only: receive_run_inv)
next
  case (ChanPollReceive w)
  moreover have "inv (cr_state c)" using assms by (simp add: run_inv_def)
  ultimately show ?thesis using assms by (simp only: poll_receive_exec receive_run_inv)
next
  case (ChanReadyReceive w)
  with assms show ?thesis
    using ready_receive [of "cr_state c" w] by (auto simp: run_inv_def split: prod.splits)
next
  case (ChanReadySend w)
  with assms show ?thesis
    using ready_send_frame [of "cr_state c" w] by (auto simp: run_inv_def split: prod.splits)
qed

lemma receive_live:
  assumes "inv (cr_state c)" "live_inv c"
  shows "live_inv (chan_exec C c (ChanReceive cx))"
proof -
  obtain r s ws where eq: "dyn_try_receive_with_context C (cr_state c) cx = (r, s, ws)"
    by (metis prod_cases3)
  from receive [OF assms(1) eq] bounded [OF assms(1)] assms(2) eq capacity_pos show ?thesis
    by (cases "size (msgs (cr_state c)) = N")
      (auto simp: live_inv_def split: if_splits)
qed

lemma exec_live:
  assumes "inv (cr_state c)" "live_inv c" "\<not> is_ready_send x"
  shows "live_inv (chan_exec C c x)"
proof (cases x)
  case (ChanSend m cx)
  obtain r s ws where eq: "dyn_try_send_with_context C (cr_state c) m cx = (r, s, ws)"
    by (metis prod_cases3)
  from send [OF assms(1) eq] bounded [OF assms(1)] assms(2) eq capacity_pos ChanSend show ?thesis
    by (cases "size (msgs (cr_state c)) < N") (auto simp: live_inv_def split: if_splits)
next
  case (ChanReceive cx)
  with assms show ?thesis by (simp only: receive_live)
next
  case (ChanPollReceive w)
  with assms show ?thesis by (simp only: poll_receive_exec receive_live)
next
  case (ChanReadyReceive w)
  obtain r s ws where eq: "dyn_poll_ready_to_receive C (cr_state c) w = (r, s, ws)"
    by (metis prod_cases3)
  from ready_receive [OF assms(1) eq] assms(2) eq ChanReadyReceive show ?thesis
    by (auto simp: live_inv_def split: poll.splits)
qed (use assms in simp)

lemma exec_all_run_inv: "run_inv c \<Longrightarrow> run_inv (chan_exec_all C c xs)"
  by (induction xs arbitrary: c) (auto simp: exec_run_inv)

lemma exec_all_live:
  "run_inv c \<Longrightarrow> live_inv c \<Longrightarrow> \<not> list_ex is_ready_send xs \<Longrightarrow> live_inv (chan_exec_all C c xs)"
proof (induction xs arbitrary: c)
  case (Cons x xs)
  then have "inv (cr_state c)" by (simp add: run_inv_def)
  with Cons show ?case by (auto simp: exec_run_inv exec_live)
qed simp

lemma init_inv: "inv s \<Longrightarrow> msgs s = {#} \<Longrightarrow> run_inv (chan_run_init s)"
  by (simp add: run_inv_def chan_run_init_def)

lemma init_live: "live_inv (chan_run_init s)"
  by (simp add: live_inv_def chan_run_init_def)

text \<open>A send future gives its message up exactly when the channel takes it.\<close>

lemma dynamic_send_poll:
  assumes "inv s"
  shows "\<exists>r msg' s' ws. DynamicSendFuture_poll C (Some m) s cx = Ret (r, msg', s', ws) \<and> inv s' \<and>
    (if size (msgs s) < N then r = Ready () \<and> msg' = None \<and> msgs s' = add_mset m (msgs s)
     else r = Pending \<and> msg' = Some m \<and> msgs s' = msgs s \<and> cx \<in> send_regs s')"
proof -
  obtain r s' ws where eq: "dyn_try_send_with_context C s m (Some cx) = (r, s', ws)"
    by (metis prod_cases3)
  from send [OF assms eq] eq show ?thesis
    by (auto simp: DynamicSendFuture_poll_def split: if_splits)
qed

lemma dynamic_receive_poll:
  assumes "inv s" "DynamicReceiveFuture_poll C s cx = (r, s', ws)"
  shows "inv s' \<and> (if msgs s = {#} then r = Pending \<and> msgs s' = {#} \<and> cx \<in> recv_regs s'
    else \<exists>m. r = Ready m \<and> msgs s = add_mset m (msgs s'))"
proof -
  obtain rr s1 ws1 where eq: "dyn_try_receive_with_context C s (Some cx) = (rr, s1, ws1)"
    by (metis prod_cases3)
  from receive [OF assms(1) eq] eq assms(2) show ?thesis
    by (auto simp: DynamicReceiveFuture_poll_def split: if_splits)
qed

end

locale ready_channel = message_channel +
  assumes ready_send: "inv s \<Longrightarrow> dyn_poll_ready_to_send C s w = (rp, s', ws) \<Longrightarrow>
      rp = Ready () \<longleftrightarrow> size (msgs s) < N"

begin

lemma exec_live_all:
  assumes "inv (cr_state c)" "live_inv c"
  shows "live_inv (chan_exec C c x)"
proof (cases "is_ready_send x")
  case True
  then obtain w where x: "x = ChanReadySend w" by (cases x) auto
  obtain r s ws where eq: "dyn_poll_ready_to_send C (cr_state c) w = (r, s, ws)"
    by (metis prod_cases3)
  from ready_send_frame [OF assms(1) eq] ready_send [OF assms(1) eq] assms(2) eq x show ?thesis
    by (auto simp: live_inv_def split: poll.splits)
next
  case False
  with assms show ?thesis by (rule exec_live)
qed

lemma exec_all_live_all:
  "run_inv c \<Longrightarrow> live_inv c \<Longrightarrow> live_inv (chan_exec_all C c xs)"
proof (induction xs arbitrary: c)
  case (Cons x xs)
  then have "inv (cr_state c)" by (simp add: run_inv_def)
  with Cons show ?case by (auto simp: exec_run_inv exec_live_all)
qed simp

end

section \<open>The channel satisfies the contract\<close>

locale channel_deque = bounded_deque D N dq_inv items
  for D :: "('q, 'a) deque_ops" and N :: nat and dq_inv :: "'q \<Rightarrow> bool" and items :: "'q \<Rightarrow> 'a list" +
  assumes capacity_positive: "0 < N"
begin

lemma try_send_cases:
  assumes "dq_inv (cs_queue c)"
  obtains (ok) rw ws q where "length (items (cs_queue c)) < N"
      "WakerRegistration_wake (cs_receiver_waker c) = (rw, ws)"
      "ChannelState_try_send_with_context D c m cx =
         (Ok (), c\<lparr>cs_queue := q, cs_receiver_waker := rw\<rparr>, ws)"
      "dq_inv q" "items q = items (cs_queue c) @ [m]"
    | (full) sw ws q where "length (items (cs_queue c)) = N"
      "WakerRegistration_register_opt (cs_senders_waker c) cx = (sw, ws)"
      "ChannelState_try_send_with_context D c m cx =
         (Err (TrySendError_Full m), c\<lparr>cs_queue := q, cs_senders_waker := sw\<rparr>, ws)"
      "dq_inv q" "items q = items (cs_queue c)"
proof -
  obtain rw ws where wk: "WakerRegistration_wake (cs_receiver_waker c) = (rw, ws)" by fastforce
  obtain sw vs where reg: "WakerRegistration_register_opt (cs_senders_waker c) cx = (sw, vs)"
    by fastforce
  from assms show ?thesis
  proof (cases rule: push_back_cases [where x = m])
    case (ok q)
    with wk show ?thesis
      by (intro that(1) [of rw ws q]) (auto simp: ChannelState_try_send_with_context_def)
  next
    case (full q)
    with reg show ?thesis
      by (intro that(2) [of sw vs q]) (auto simp: ChannelState_try_send_with_context_def)
  qed
qed

lemma try_receive_cases:
  assumes inv: "dq_inv (cs_queue c)"
  obtains (some) m xs sw ws q where "items (cs_queue c) = m # xs"
      "WakerRegistration_wake_if (length (items (cs_queue c)) = N) (cs_senders_waker c) = (sw, ws)"
      "ChannelState_try_receive_with_context D c cx =
         (Ok m, c\<lparr>cs_senders_waker := sw, cs_queue := q\<rparr>, ws)"
      "dq_inv q" "items q = xs"
    | (empty) rw ws q where "items (cs_queue c) = []"
      "WakerRegistration_register_opt (cs_receiver_waker c) cx = (rw, ws)"
      "ChannelState_try_receive_with_context D c cx =
         (Err TryReceiveError_Empty, c\<lparr>cs_queue := q, cs_receiver_waker := rw\<rparr>, ws)"
      "dq_inv q" "items q = []"
proof -
  obtain sw ws where wk:
    "WakerRegistration_wake_if (length (items (cs_queue c)) = N) (cs_senders_waker c) = (sw, ws)"
    by fastforce
  obtain rw vs where reg: "WakerRegistration_register_opt (cs_receiver_waker c) cx = (rw, vs)"
    by fastforce
  from inv show ?thesis
  proof (cases rule: pop_front_cases)
    case (some x xs q)
    with wk inv show ?thesis
      by (intro that(1) [of x xs sw ws q]) (auto simp: ChannelState_try_receive_with_context_def)
  next
    case (none q)
    with reg inv capacity_positive show ?thesis
      by (intro that(2) [of rw vs q])
        (auto simp: ChannelState_try_receive_with_context_def WakerRegistration_wake_if_def)
  qed
qed

end

sublocale channel_deque \<subseteq> chan: ready_channel "Channel_dyn D" N "\<lambda>c. dq_inv (cs_queue c)"
    "\<lambda>c. mset (items (cs_queue c))" "\<lambda>c. wr_registered (cs_receiver_waker c)"
    "\<lambda>c. wr_registered (cs_senders_waker c)"
proof unfold_locales
  show "0 < N" by (rule capacity_positive)
next
  fix s :: "'q channel_state"
  assume inv: "dq_inv (cs_queue s)"
  then show "size (mset (items (cs_queue s))) \<le> N" by (simp add: bounded)
next
  fix s :: "'q channel_state" and m cx r s' ws
  assume inv: "dq_inv (cs_queue s)"
    and eq: "dyn_try_send_with_context (Channel_dyn D) s m cx = (r, s', ws)"
  show "dq_inv (cs_queue s') \<and>
      (if size (mset (items (cs_queue s))) < N
       then r = Ok () \<and> mset (items (cs_queue s')) = add_mset m (mset (items (cs_queue s))) \<and>
            wr_registered (cs_receiver_waker s) \<subseteq> set ws \<and>
            wr_registered (cs_senders_waker s') = wr_registered (cs_senders_waker s)
       else r = Err (TrySendError_Full m) \<and> mset (items (cs_queue s')) = mset (items (cs_queue s)) \<and>
            wr_registered (cs_receiver_waker s') = wr_registered (cs_receiver_waker s) \<and>
            wr_registered (cs_senders_waker s) \<subseteq> wr_registered (cs_senders_waker s') \<union> set ws \<and>
            set_option cx \<subseteq> wr_registered (cs_senders_waker s'))"
    using inv
  proof (cases rule: try_send_cases [where m = m and cx = cx])
    case (ok rw vs q)
    with eq wr.sleepers_wake [OF TrueI subset_refl ok(2)] show ?thesis
      by (auto simp: Channel_dyn_def)
  next
    case (full sw vs q)
    with eq wr_sleepers_register_opt [OF subset_refl full(2)] show ?thesis
      by (auto simp: Channel_dyn_def)
  qed
next
  fix s :: "'q channel_state" and cx r s' ws
  assume inv: "dq_inv (cs_queue s)"
    and eq: "dyn_try_receive_with_context (Channel_dyn D) s cx = (r, s', ws)"
  show "dq_inv (cs_queue s') \<and>
      (if mset (items (cs_queue s)) = {#}
       then r = Err TryReceiveError_Empty \<and> mset (items (cs_queue s')) = {#} \<and>
            wr_registered (cs_senders_waker s') = wr_registered (cs_senders_waker s) \<and>
            wr_registered (cs_receiver_waker s) \<subseteq> wr_registered (cs_receiver_waker s') \<union> set ws \<and>
            set_option cx \<subseteq> wr_registered (cs_receiver_waker s')
       else (\<exists>m. r = Ok m \<and> mset (items (cs_queue s)) = add_mset m (mset (items (cs_queue s')))) \<and>
            wr_registered (cs_receiver_waker s') = wr_registered (cs_receiver_waker s) \<and>
            wr_registered (cs_senders_waker s) \<subseteq> wr_registered (cs_senders_waker s') \<union> set ws \<and>
            (size (mset (items (cs_queue s))) = N \<longrightarrow> wr_registered (cs_senders_waker s) \<subseteq> set ws))"
    using inv
  proof (cases rule: try_receive_cases [where cx = cx])
    case (some m xs sw vs q)
    with eq wr_sleepers_wake_if [OF subset_refl some(2)] show ?thesis
      by (auto simp: Channel_dyn_def)
  next
    case (empty rw vs q)
    with eq wr_sleepers_register_opt [OF subset_refl empty(2)] show ?thesis
      by (auto simp: Channel_dyn_def)
  qed
next
  fix s :: "'q channel_state" and w
  show "dyn_poll_receive (Channel_dyn D) s w =
      (case dyn_try_receive_with_context (Channel_dyn D) s (Some w) of
         (Ok m, s', ws) \<Rightarrow> (Ready m, s', ws) | (Err _, s', ws) \<Rightarrow> (Pending, s', ws))"
    by (auto simp: Channel_dyn_def ChannelState_poll_receive_def
        ChannelState_try_receive_with_context_def Let_def split: prod.splits option.splits)
next
  fix s :: "'q channel_state" and w rp s' ws
  assume inv: "dq_inv (cs_queue s)"
    and eq: "dyn_poll_ready_to_receive (Channel_dyn D) s w = (rp, s', ws)"
  then show "dq_inv (cs_queue s') \<and> mset (items (cs_queue s')) = mset (items (cs_queue s)) \<and>
      wr_registered (cs_senders_waker s') = wr_registered (cs_senders_waker s) \<and>
      wr_registered (cs_receiver_waker s) \<subseteq> wr_registered (cs_receiver_waker s') \<union> set ws \<and>
      w \<in> wr_registered (cs_receiver_waker s') \<and>
      (rp = Ready () \<longleftrightarrow> mset (items (cs_queue s)) \<noteq> {#})"
    using wr.register_keeps [of "cs_receiver_waker s" w] wr.register_self
    by (auto simp: Channel_dyn_def ChannelState_poll_ready_to_receive_def
        split: prod.splits if_splits)
next
  fix s :: "'q channel_state" and w rp s' ws
  assume inv: "dq_inv (cs_queue s)"
    and eq: "dyn_poll_ready_to_send (Channel_dyn D) s w = (rp, s', ws)"
  show "dq_inv (cs_queue s') \<and> mset (items (cs_queue s')) = mset (items (cs_queue s)) \<and>
      wr_registered (cs_receiver_waker s') = wr_registered (cs_receiver_waker s) \<and>
      wr_registered (cs_senders_waker s) \<subseteq> wr_registered (cs_senders_waker s') \<union> set ws \<and>
      w \<in> wr_registered (cs_senders_waker s')"
    using inv eq wr.register_keeps [of "cs_senders_waker s" w] wr.register_self
    by (auto simp: Channel_dyn_def ChannelState_poll_ready_to_send_def split: prod.splits if_splits)
  show "rp = Ready () \<longleftrightarrow> size (mset (items (cs_queue s))) < N"
    using inv eq bounded [OF inv]
    by (auto simp: Channel_dyn_def ChannelState_poll_ready_to_send_def split: prod.splits if_splits)
qed

lemma list_channel_deque: "0 < N \<Longrightarrow> channel_deque (list_deque N) N (\<lambda>q. length q \<le> N) (\<lambda>q. q)"
  by (intro channel_deque.intro list_deque_bounded channel_deque_axioms.intro)

interpretation list_chan: channel_deque "list_deque (Suc n)" "Suc n" "\<lambda>q. length q \<le> Suc n" "\<lambda>q. q"
  by (rule list_channel_deque) simp

section \<open>Order\<close>

context channel_deque
begin

definition fifo_inv :: "('q channel_state, 'a) chan_run \<Rightarrow> bool" where
  "fifo_inv c \<longleftrightarrow> dq_inv (cs_queue (cr_state c)) \<and>
     cr_accepted c = cr_delivered c @ items (cs_queue (cr_state c))"

lemma exec_fifo:
  assumes "fifo_inv c"
  shows "fifo_inv (chan_exec (Channel_dyn D) c x)"
proof -
  have inv: "dq_inv (cs_queue (cr_state c))"
    and acc: "cr_accepted c = cr_delivered c @ items (cs_queue (cr_state c))"
    using assms by (auto simp: fifo_inv_def)
  have receive: "fifo_inv (chan_exec (Channel_dyn D) c (ChanReceive cx))" for cx
    using inv by (cases rule: try_receive_cases [where cx = cx])
      (auto simp: Channel_dyn_def fifo_inv_def acc)
  show ?thesis
  proof (cases x)
    case (ChanSend m cx)
    from inv show ?thesis
      by (cases rule: try_send_cases [where m = m and cx = cx])
        (auto simp: Channel_dyn_def fifo_inv_def acc ChanSend)
  next
    case (ChanReceive cx)
    then show ?thesis by (simp only: receive)
  next
    case (ChanPollReceive w)
    with inv show ?thesis by (simp only: chan.poll_receive_exec receive)
  next
    case (ChanReadyReceive w)
    with assms show ?thesis
      by (auto simp: Channel_dyn_def fifo_inv_def ChannelState_poll_ready_to_receive_def
          split: prod.splits)
  next
    case (ChanReadySend w)
    with assms show ?thesis
      by (auto simp: Channel_dyn_def fifo_inv_def ChannelState_poll_ready_to_send_def
          split: prod.splits)
  qed
qed

lemma exec_all_fifo: "fifo_inv c \<Longrightarrow> fifo_inv (chan_exec_all (Channel_dyn D) c xs)"
  by (induction xs arbitrary: c) (auto simp: exec_fifo)

lemma send_future:
  assumes inv: "dq_inv (cs_queue c)"
  shows "\<exists>r msg' c' ws. SendFuture_poll D (Some m) c cx = Ret (r, msg', c', ws) \<and>
    dq_inv (cs_queue c') \<and>
    (if length (items (cs_queue c)) < N
     then r = Ready () \<and> msg' = None \<and> items (cs_queue c') = items (cs_queue c) @ [m]
     else r = Pending \<and> msg' = Some m \<and> items (cs_queue c') = items (cs_queue c) \<and>
          cx \<in> wr_registered (cs_senders_waker c'))"
  using inv
proof (cases rule: try_send_cases [where m = m and cx = "Some cx"])
  case (full sw ws q)
  with wr_sleepers_register_opt [OF subset_refl full(2)] show ?thesis
    by (auto simp: SendFuture_poll_def)
qed (auto simp: SendFuture_poll_def)

lemma new_inv: "fifo_inv (chan_run_init (ChannelState_new D))"
  "chan.run_inv (chan_run_init (ChannelState_new D))"
  by (simp_all add: fifo_inv_def chan.run_inv_def chan_run_init_def ChannelState_new_def)

lemma run_live:
  assumes "c = chan_exec_all (Channel_dyn D) (chan_run_init (ChannelState_new D)) ops"
  shows "cr_receivers c \<subseteq> wr_registered (cs_receiver_waker (cr_state c)) \<and>
    cr_senders c \<subseteq> wr_registered (cs_senders_waker (cr_state c)) \<and>
    (items (cs_queue (cr_state c)) \<noteq> [] \<longrightarrow> cr_receivers c = {}) \<and>
    (length (items (cs_queue (cr_state c))) < N \<longrightarrow> cr_senders c = {})"
  using chan.exec_all_live_all [OF new_inv(2) chan.init_live, of ops] assms
  by (auto simp: chan.live_inv_def)

end

text \<open>
  C6. A channel delivers messages in the order in which it accepted them, each exactly once: after
  any sequence of operations by any tasks on a new channel, the accepted messages are the delivered
  ones followed by the queued ones, and at most \<open>N\<close> are queued.  The queue is any deque that
  satisfies the laws of \<open>heapless::Deque\<close>.
\<close>

theorem channel_fifo:
  assumes "channel_deque D N dq_inv items"
    and "c = chan_exec_all (Channel_dyn D) (chan_run_init (ChannelState_new D)) ops"
  shows "cr_accepted c = cr_delivered c @ items (cs_queue (cr_state c)) \<and>
    length (items (cs_queue (cr_state c))) \<le> N"
proof -
  from assms(1) have "channel_deque.fifo_inv dq_inv items c"
    unfolding assms(2) by (intro channel_deque.exec_all_fifo channel_deque.new_inv)
  with assms(1) show ?thesis
    by (auto simp: channel_deque.fifo_inv_def channel_deque_def dest: bounded_deque.bounded)
qed

theorem channel_fifo_witness:
  "let c = chan_exec_all (Channel_dyn (list_deque 2)) (chan_run_init (ChannelState_new (list_deque 2)))
         [ChanSend 1 None, ChanSend 2 None, ChanSend 3 None, ChanReceive None, ChanSend (4::nat) None]
   in cr_accepted c = [1, 2, 4] \<and> cr_delivered c = [1] \<and>
      cr_accepted c = cr_delivered c @ cs_queue (cr_state c)"
proof -
  let ?D = "list_deque 2"
  let ?c = "chan_exec_all (Channel_dyn ?D) (chan_run_init (ChannelState_new ?D))
    [ChanSend 1 None, ChanSend 2 None, ChanSend 3 None, ChanReceive None, ChanSend (4::nat) None]"
  have "channel_deque ?D 2 (\<lambda>q. length q \<le> 2) (\<lambda>q :: nat list. q)"
    by (rule list_channel_deque) simp
  from channel_fifo [OF this refl] have
    "cr_accepted ?c = cr_delivered ?c @ cs_queue (cr_state ?c)" by blast
  moreover have "cr_accepted ?c = [1, 2, 4] \<and> cr_delivered ?c = [1]"
    by (simp add: chan_run_init_def Channel_dyn_def ChannelState_new_def list_deque_def
        ChannelState_try_send_with_context_def ChannelState_try_receive_with_context_def
        WakerRegistration_wake_if_def waker_registration_defs)
  ultimately show ?thesis by (simp only: Let_def simp_thms)
qed

text \<open>
  C7. No sleeping task of a channel is forgotten: after any sequence of operations on a new channel,
  every task that sleeps in a receive is registered as receiver and every task that sleeps in a
  send is registered as sender; a sleeping receiver implies that the channel is empty, a sleeping
  sender that it is full.
\<close>

theorem channel_no_lost_wakeup:
  assumes "channel_deque D N dq_inv items"
    and "c = chan_exec_all (Channel_dyn D) (chan_run_init (ChannelState_new D)) ops"
  shows "cr_receivers c \<subseteq> wr_registered (cs_receiver_waker (cr_state c)) \<and>
    cr_senders c \<subseteq> wr_registered (cs_senders_waker (cr_state c)) \<and>
    (items (cs_queue (cr_state c)) \<noteq> [] \<longrightarrow> cr_receivers c = {}) \<and>
    (length (items (cs_queue (cr_state c))) < N \<longrightarrow> cr_senders c = {})"
  using assms by (rule channel_deque.run_live)

lemmas channel_eval =
  chan_run_init_def Channel_dyn_def ChannelState_new_def list_deque_def
  ChannelState_try_send_with_context_def ChannelState_try_receive_with_context_def
  ChannelState_poll_receive_def ChannelState_poll_ready_to_receive_def
  ChannelState_poll_ready_to_send_def WakerRegistration_wake_if_def waker_registration_defs

theorem channel_no_lost_wakeup_witness:
  "let c = chan_exec_all (Channel_dyn (list_deque 1)) (chan_run_init (ChannelState_new (list_deque 1)))
         [ChanSend (1::nat) None, ChanSend 2 (Some (RawWaker 3 VTABLE))]
   in cr_senders c = {RawWaker 3 VTABLE} \<and>
      cr_senders c \<subseteq> wr_registered (cs_senders_waker (cr_state c))"
proof -
  let ?D = "list_deque 1"
  let ?c = "chan_exec_all (Channel_dyn ?D) (chan_run_init (ChannelState_new ?D))
    [ChanSend (1::nat) None, ChanSend 2 (Some (RawWaker 3 VTABLE))]"
  have "channel_deque ?D 1 (\<lambda>q. length q \<le> 1) (\<lambda>q :: nat list. q)"
    by (rule list_channel_deque) simp
  from channel_no_lost_wakeup [OF this refl] have
    "cr_senders ?c \<subseteq> wr_registered (cs_senders_waker (cr_state ?c))" by blast
  moreover have "cr_senders ?c = {RawWaker 3 VTABLE}" by (simp add: channel_eval)
  ultimately show ?thesis by (simp only: Let_def simp_thms)
qed

lemma SendFuture_poll_dyn: "SendFuture_poll D = DynamicSendFuture_poll (Channel_dyn D)"
  by (intro ext) (simp add: SendFuture_poll_def DynamicSendFuture_poll_def Channel_dyn_def split: option.split)

text \<open>
  A send future never loses or duplicates its message: a poll with the message still in the
  future either moves it to the end of the queue and completes, or, when the channel is full,
  keeps it, leaves the queue as it is and registers the task.  It never panics.
\<close>

theorem send_future_poll:
  assumes "channel_deque D N dq_inv items" "dq_inv (cs_queue c)"
  shows "\<exists>r msg' c' ws. SendFuture_poll D (Some m) c cx = Ret (r, msg', c', ws) \<and>
    dq_inv (cs_queue c') \<and>
    (if length (items (cs_queue c)) < N
     then r = Ready () \<and> msg' = None \<and> items (cs_queue c') = items (cs_queue c) @ [m]
     else r = Pending \<and> msg' = Some m \<and> items (cs_queue c') = items (cs_queue c) \<and>
          cx \<in> wr_registered (cs_senders_waker c'))"
  using assms by (rule channel_deque.send_future)

theorem send_future_poll_witness:
  "\<exists>r msg' c' ws. SendFuture_poll (list_deque 2) (Some (5::nat)) (ChannelState_new (list_deque 2))
      (RawWaker 7 VTABLE) = Ret (r, msg', c', ws) \<and> r = Ready () \<and> msg' = None \<and> cs_queue c' = [5]"
proof -
  let ?c = "ChannelState_new (list_deque 2) :: nat list channel_state"
  have ch: "channel_deque (list_deque 2) 2 (\<lambda>q. length q \<le> 2) (\<lambda>q :: nat list. q)"
    by (rule list_channel_deque) simp
  have q: "cs_queue ?c = []" by (simp add: ChannelState_new_def list_deque_def)
  show ?thesis using send_future_poll [OF ch, of ?c 5 "RawWaker 7 VTABLE"] by (auto simp: q)
qed

end
