(* ===== verification/Priority_Channel.thy ===== *)
theory Priority_Channel
  imports Channel
begin

unbundle bit_operations_syntax

text \<open>
  The priority channel of \<open>src/src/sync/priority_channel.rs\<close>: the channel over a binary heap.  It
  satisfies the contract \<open>message_channel\<close>, so the lemmas on conservation and on sleeping tasks
  apply to it; it does not satisfy \<open>ready_channel\<close>, because \<open>poll_ready_to_send\<close> compares the
  bitwise complement of the length with the capacity.
\<close>

record 'h pchannel_state =
  pcs_queue :: 'h
  pcs_receiver_waker :: waker_registration
  pcs_senders_waker :: waker_registration

definition PChannelState_new :: "('h, 'a) heap_ops \<Rightarrow> 'h pchannel_state" where
  "PChannelState_new H = \<lparr>pcs_queue = Heap_new H, pcs_receiver_waker = WakerRegistration_new,
     pcs_senders_waker = WakerRegistration_new\<rparr>"

definition PChannelState_try_receive_with_context ::
  "('h, 'a) heap_ops \<Rightarrow> 'h pchannel_state \<Rightarrow> waker option \<Rightarrow>
     ('a, try_receive_error) result \<times> 'h pchannel_state \<times> waker list" where
  "PChannelState_try_receive_with_context H c cx =
     (let (sw, woken) = WakerRegistration_wake_if
            (Heap_len H (pcs_queue c) = Heap_capacity H (pcs_queue c)) (pcs_senders_waker c);
          c = c\<lparr>pcs_senders_waker := sw\<rparr>
      in case Heap_pop H (pcs_queue c) of
           (Some message, q) \<Rightarrow> (Ok message, c\<lparr>pcs_queue := q\<rparr>, woken)
         | (None, q) \<Rightarrow>
             (let (rw, displaced) = WakerRegistration_register_opt (pcs_receiver_waker c) cx
              in (Err TryReceiveError_Empty, c\<lparr>pcs_queue := q, pcs_receiver_waker := rw\<rparr>,
                  woken @ displaced)))"

definition PChannelState_try_receive ::
  "('h, 'a) heap_ops \<Rightarrow> 'h pchannel_state \<Rightarrow>
     ('a, try_receive_error) result \<times> 'h pchannel_state \<times> waker list" where
  "PChannelState_try_receive H c = PChannelState_try_receive_with_context H c None"

definition PChannelState_poll_receive ::
  "('h, 'a) heap_ops \<Rightarrow> 'h pchannel_state \<Rightarrow> waker \<Rightarrow> 'a poll \<times> 'h pchannel_state \<times> waker list" where
  "PChannelState_poll_receive H c cx =
     (let (sw, woken) = WakerRegistration_wake_if
            (Heap_len H (pcs_queue c) = Heap_capacity H (pcs_queue c)) (pcs_senders_waker c);
          c = c\<lparr>pcs_senders_waker := sw\<rparr>
      in case Heap_pop H (pcs_queue c) of
           (Some message, q) \<Rightarrow> (Ready message, c\<lparr>pcs_queue := q\<rparr>, woken)
         | (None, q) \<Rightarrow>
             (let (rw, displaced) = WakerRegistration_register (pcs_receiver_waker c) cx
              in (Pending, c\<lparr>pcs_queue := q, pcs_receiver_waker := rw\<rparr>, woken @ displaced)))"

definition PChannelState_poll_ready_to_receive ::
  "('h, 'a) heap_ops \<Rightarrow> 'h pchannel_state \<Rightarrow> waker \<Rightarrow> unit poll \<times> 'h pchannel_state \<times> waker list" where
  "PChannelState_poll_ready_to_receive H c cx =
     (let (rw, displaced) = WakerRegistration_register (pcs_receiver_waker c) cx;
          c = c\<lparr>pcs_receiver_waker := rw\<rparr>
      in (if \<not> Heap_is_empty H (pcs_queue c) then Ready () else Pending, c, displaced))"

definition PChannelState_try_send_with_context ::
  "('h, 'a) heap_ops \<Rightarrow> 'h pchannel_state \<Rightarrow> 'a \<Rightarrow> waker option \<Rightarrow>
     (unit, 'a try_send_error) result \<times> 'h pchannel_state \<times> waker list" where
  "PChannelState_try_send_with_context H c message cx =
     (case Heap_push H (pcs_queue c) message of
        (Ok _, q) \<Rightarrow>
          (let (rw, woken) = WakerRegistration_wake (pcs_receiver_waker c)
           in (Ok (), c\<lparr>pcs_queue := q, pcs_receiver_waker := rw\<rparr>, woken))
      | (Err message, q) \<Rightarrow>
          (let (sw, displaced) = WakerRegistration_register_opt (pcs_senders_waker c) cx
           in (Err (TrySendError_Full message), c\<lparr>pcs_queue := q, pcs_senders_waker := sw\<rparr>,
               displaced)))"

definition PChannelState_try_send ::
  "('h, 'a) heap_ops \<Rightarrow> 'h pchannel_state \<Rightarrow> 'a \<Rightarrow>
     (unit, 'a try_send_error) result \<times> 'h pchannel_state \<times> waker list" where
  "PChannelState_try_send H c message = PChannelState_try_send_with_context H c message None"

text \<open>
  The source writes \<open>!self.queue.len() == self.queue.capacity()\<close>: the complement binds tighter
  than the comparison, and \<open>len\<close> is a \<open>usize\<close>.
\<close>

definition PChannelState_poll_ready_to_send ::
  "('h, 'a) heap_ops \<Rightarrow> 'h pchannel_state \<Rightarrow> waker \<Rightarrow> unit poll \<times> 'h pchannel_state \<times> waker list" where
  "PChannelState_poll_ready_to_send H c cx =
     (let (sw, displaced) = WakerRegistration_register (pcs_senders_waker c) cx;
          c = c\<lparr>pcs_senders_waker := sw\<rparr>
      in (if NOT (word_of_nat (Heap_len H (pcs_queue c)) :: 32 word) =
             word_of_nat (Heap_capacity H (pcs_queue c))
          then Ready () else Pending, c, displaced))"

definition PSendFuture_poll ::
  "('h, 'a) heap_ops \<Rightarrow> 'a option \<Rightarrow> 'h pchannel_state \<Rightarrow> waker \<Rightarrow>
     (unit poll \<times> 'a option \<times> 'h pchannel_state \<times> waker list) outcome" where
  "PSendFuture_poll H message c cx =
     (case message of
        None \<Rightarrow> Panic ExplicitPanic
      | Some m \<Rightarrow>
          (case PChannelState_try_send_with_context H c m (Some cx) of
             (Ok _, c', ws) \<Rightarrow> Ret (Ready (), None, c', ws)
           | (Err (TrySendError_Full m'), c', ws) \<Rightarrow> Ret (Pending, Some m', c', ws)))"

definition PReceiveFuture_poll ::
  "('h, 'a) heap_ops \<Rightarrow> 'h pchannel_state \<Rightarrow> waker \<Rightarrow> 'a poll \<times> 'h pchannel_state \<times> waker list" where
  "PReceiveFuture_poll H c cx = PChannelState_poll_receive H c cx"

definition PriorityChannel_dyn :: "('h, 'a) heap_ops \<Rightarrow> ('h pchannel_state, 'a) dyn_channel" where
  "PriorityChannel_dyn H = \<lparr>
     dyn_try_send_with_context = PChannelState_try_send_with_context H,
     dyn_try_receive_with_context = PChannelState_try_receive_with_context H,
     dyn_poll_ready_to_send = PChannelState_poll_ready_to_send H,
     dyn_poll_ready_to_receive = PChannelState_poll_ready_to_receive H,
     dyn_poll_receive = PChannelState_poll_receive H\<rparr>"

section \<open>The contract\<close>

locale channel_heap = bounded_heap H N le hp_inv elems
  for H :: "('h, 'a) heap_ops" and N :: nat and le :: "'a \<Rightarrow> 'a \<Rightarrow> bool"
    and hp_inv :: "'h \<Rightarrow> bool" and elems :: "'h \<Rightarrow> 'a multiset" +
  assumes capacity_positive: "0 < N"
begin

lemma try_send_cases:
  assumes "hp_inv (pcs_queue c)"
  obtains (ok) rw ws q where "size (elems (pcs_queue c)) < N"
      "WakerRegistration_wake (pcs_receiver_waker c) = (rw, ws)"
      "PChannelState_try_send_with_context H c m cx =
         (Ok (), c\<lparr>pcs_queue := q, pcs_receiver_waker := rw\<rparr>, ws)"
      "hp_inv q" "elems q = add_mset m (elems (pcs_queue c))"
    | (full) sw ws q where "size (elems (pcs_queue c)) = N"
      "WakerRegistration_register_opt (pcs_senders_waker c) cx = (sw, ws)"
      "PChannelState_try_send_with_context H c m cx =
         (Err (TrySendError_Full m), c\<lparr>pcs_queue := q, pcs_senders_waker := sw\<rparr>, ws)"
      "hp_inv q" "elems q = elems (pcs_queue c)"
proof -
  obtain rw ws where wk: "WakerRegistration_wake (pcs_receiver_waker c) = (rw, ws)" by fastforce
  obtain sw vs where reg: "WakerRegistration_register_opt (pcs_senders_waker c) cx = (sw, vs)"
    by fastforce
  from assms show ?thesis
  proof (cases rule: push_cases [where x = m])
    case (ok q)
    with wk show ?thesis
      by (intro that(1) [of rw ws q]) (auto simp: PChannelState_try_send_with_context_def)
  next
    case (full q)
    with reg show ?thesis
      by (intro that(2) [of sw vs q]) (auto simp: PChannelState_try_send_with_context_def)
  qed
qed

lemma try_receive_cases:
  assumes inv: "hp_inv (pcs_queue c)"
  obtains (some) m sw ws q where "elems (pcs_queue c) = add_mset m (elems q)"
      "\<And>y. y \<in># elems (pcs_queue c) \<Longrightarrow> le m y"
      "WakerRegistration_wake_if (size (elems (pcs_queue c)) = N) (pcs_senders_waker c) = (sw, ws)"
      "PChannelState_try_receive_with_context H c cx =
         (Ok m, c\<lparr>pcs_senders_waker := sw, pcs_queue := q\<rparr>, ws)"
      "hp_inv q"
    | (empty) rw ws q where "elems (pcs_queue c) = {#}"
      "WakerRegistration_register_opt (pcs_receiver_waker c) cx = (rw, ws)"
      "PChannelState_try_receive_with_context H c cx =
         (Err TryReceiveError_Empty, c\<lparr>pcs_queue := q, pcs_receiver_waker := rw\<rparr>, ws)"
      "hp_inv q" "elems q = {#}"
proof -
  obtain sw ws where wk:
    "WakerRegistration_wake_if (size (elems (pcs_queue c)) = N) (pcs_senders_waker c) = (sw, ws)"
    by fastforce
  obtain rw vs where reg: "WakerRegistration_register_opt (pcs_receiver_waker c) cx = (rw, vs)"
    by fastforce
  from inv show ?thesis
  proof (cases rule: pop_cases)
    case (some x q)
    with wk inv show ?thesis
      by (intro that(1) [of x q sw ws]) (auto simp: PChannelState_try_receive_with_context_def)
  next
    case (none q)
    with reg inv capacity_positive show ?thesis
      by (intro that(2) [of rw vs q])
        (auto simp: PChannelState_try_receive_with_context_def WakerRegistration_wake_if_def)
  qed
qed

end

sublocale channel_heap \<subseteq> pchan: message_channel "PriorityChannel_dyn H" N
    "\<lambda>c. hp_inv (pcs_queue c)" "\<lambda>c. elems (pcs_queue c)"
    "\<lambda>c. wr_registered (pcs_receiver_waker c)" "\<lambda>c. wr_registered (pcs_senders_waker c)"
proof unfold_locales
  show "0 < N" by (rule capacity_positive)
next
  fix s :: "'h pchannel_state"
  assume "hp_inv (pcs_queue s)"
  then show "size (elems (pcs_queue s)) \<le> N" by (rule bounded)
next
  fix s :: "'h pchannel_state" and m cx r s' ws
  assume inv: "hp_inv (pcs_queue s)"
    and eq: "dyn_try_send_with_context (PriorityChannel_dyn H) s m cx = (r, s', ws)"
  show "hp_inv (pcs_queue s') \<and>
      (if size (elems (pcs_queue s)) < N
       then r = Ok () \<and> elems (pcs_queue s') = add_mset m (elems (pcs_queue s)) \<and>
            wr_registered (pcs_receiver_waker s) \<subseteq> set ws \<and>
            wr_registered (pcs_senders_waker s') = wr_registered (pcs_senders_waker s)
       else r = Err (TrySendError_Full m) \<and> elems (pcs_queue s') = elems (pcs_queue s) \<and>
            wr_registered (pcs_receiver_waker s') = wr_registered (pcs_receiver_waker s) \<and>
            wr_registered (pcs_senders_waker s) \<subseteq> wr_registered (pcs_senders_waker s') \<union> set ws \<and>
            set_option cx \<subseteq> wr_registered (pcs_senders_waker s'))"
    using inv
  proof (cases rule: try_send_cases [where m = m and cx = cx])
    case (ok rw vs q)
    with eq wr.sleepers_wake [OF TrueI subset_refl ok(2)] show ?thesis
      by (auto simp: PriorityChannel_dyn_def)
  next
    case (full sw vs q)
    with eq wr_sleepers_register_opt [OF subset_refl full(2)] show ?thesis
      by (auto simp: PriorityChannel_dyn_def)
  qed
next
  fix s :: "'h pchannel_state" and cx r s' ws
  assume inv: "hp_inv (pcs_queue s)"
    and eq: "dyn_try_receive_with_context (PriorityChannel_dyn H) s cx = (r, s', ws)"
  show "hp_inv (pcs_queue s') \<and>
      (if elems (pcs_queue s) = {#}
       then r = Err TryReceiveError_Empty \<and> elems (pcs_queue s') = {#} \<and>
            wr_registered (pcs_senders_waker s') = wr_registered (pcs_senders_waker s) \<and>
            wr_registered (pcs_receiver_waker s) \<subseteq> wr_registered (pcs_receiver_waker s') \<union> set ws \<and>
            set_option cx \<subseteq> wr_registered (pcs_receiver_waker s')
       else (\<exists>m. r = Ok m \<and> elems (pcs_queue s) = add_mset m (elems (pcs_queue s'))) \<and>
            wr_registered (pcs_receiver_waker s') = wr_registered (pcs_receiver_waker s) \<and>
            wr_registered (pcs_senders_waker s) \<subseteq> wr_registered (pcs_senders_waker s') \<union> set ws \<and>
            (size (elems (pcs_queue s)) = N \<longrightarrow> wr_registered (pcs_senders_waker s) \<subseteq> set ws))"
    using inv
  proof (cases rule: try_receive_cases [where cx = cx])
    case (some m sw vs q)
    with eq wr_sleepers_wake_if [OF subset_refl some(3)] show ?thesis
      by (auto simp: PriorityChannel_dyn_def)
  next
    case (empty rw vs q)
    with eq wr_sleepers_register_opt [OF subset_refl empty(2)] show ?thesis
      by (auto simp: PriorityChannel_dyn_def)
  qed
next
  fix s :: "'h pchannel_state" and w
  show "dyn_poll_receive (PriorityChannel_dyn H) s w =
      (case dyn_try_receive_with_context (PriorityChannel_dyn H) s (Some w) of
         (Ok m, s', ws) \<Rightarrow> (Ready m, s', ws) | (Err _, s', ws) \<Rightarrow> (Pending, s', ws))"
    by (auto simp: PriorityChannel_dyn_def PChannelState_poll_receive_def
        PChannelState_try_receive_with_context_def Let_def split: prod.splits option.splits)
next
  fix s :: "'h pchannel_state" and w rp s' ws
  assume inv: "hp_inv (pcs_queue s)"
    and eq: "dyn_poll_ready_to_receive (PriorityChannel_dyn H) s w = (rp, s', ws)"
  then show "hp_inv (pcs_queue s') \<and> elems (pcs_queue s') = elems (pcs_queue s) \<and>
      wr_registered (pcs_senders_waker s') = wr_registered (pcs_senders_waker s) \<and>
      wr_registered (pcs_receiver_waker s) \<subseteq> wr_registered (pcs_receiver_waker s') \<union> set ws \<and>
      w \<in> wr_registered (pcs_receiver_waker s') \<and>
      (rp = Ready () \<longleftrightarrow> elems (pcs_queue s) \<noteq> {#})"
    using wr.register_keeps [of "pcs_receiver_waker s" w] wr.register_self
    by (auto simp: PriorityChannel_dyn_def PChannelState_poll_ready_to_receive_def
        split: prod.splits if_splits)
next
  fix s :: "'h pchannel_state" and w rp s' ws
  assume inv: "hp_inv (pcs_queue s)"
    and eq: "dyn_poll_ready_to_send (PriorityChannel_dyn H) s w = (rp, s', ws)"
  then show "hp_inv (pcs_queue s') \<and> elems (pcs_queue s') = elems (pcs_queue s) \<and>
      wr_registered (pcs_receiver_waker s') = wr_registered (pcs_receiver_waker s) \<and>
      wr_registered (pcs_senders_waker s) \<subseteq> wr_registered (pcs_senders_waker s') \<union> set ws \<and>
      w \<in> wr_registered (pcs_senders_waker s')"
    using wr.register_keeps [of "pcs_senders_waker s" w] wr.register_self
    by (auto simp: PriorityChannel_dyn_def PChannelState_poll_ready_to_send_def
        split: prod.splits)
qed

lemma sorted_channel_heap:
  "0 < N \<Longrightarrow> channel_heap (sorted_heap N key) N (\<lambda>x y. key x \<le> key y)
     (\<lambda>h. length h \<le> N \<and> sorted (map key h)) mset"
  by (intro channel_heap.intro sorted_heap_bounded channel_heap_axioms.intro)

interpretation sorted_pchan: channel_heap "sorted_heap (Suc n) key" "Suc n" "\<lambda>x y. key x \<le> key y"
    "\<lambda>h. length h \<le> Suc n \<and> sorted (map key h)" mset
  by (rule sorted_channel_heap) simp

section \<open>Order\<close>

context channel_heap
begin

lemma pnew_inv: "pchan.run_inv (chan_run_init (PChannelState_new H))"
  by (rule pchan.init_inv) (simp_all add: PChannelState_new_def)

lemma drain:
  assumes "hp_inv (pcs_queue (cr_state c))"
    and "c' = chan_exec_all (PriorityChannel_dyn H) c (replicate k (ChanReceive None))"
  shows "\<exists>xs. cr_delivered c' = cr_delivered c @ xs \<and> sorted_wrt le xs \<and>
    elems (pcs_queue (cr_state c)) = mset xs + elems (pcs_queue (cr_state c')) \<and>
    length xs = min k (size (elems (pcs_queue (cr_state c)))) \<and>
    (\<forall>x \<in> set xs. \<forall>y \<in># elems (pcs_queue (cr_state c')). le x y)"
  using assms
proof (induction k arbitrary: c)
  case (Suc k)
  let ?c1 = "chan_exec (PriorityChannel_dyn H) c (ChanReceive None)"
  have c': "c' = chan_exec_all (PriorityChannel_dyn H) ?c1 (replicate k (ChanReceive None))"
    using Suc.prems(2) by (simp del: chan_exec.simps)
  from Suc.prems(1) show ?case
  proof (cases rule: try_receive_cases [where cx = None])
    case (some m sw ws q)
    then have c1: "cr_state ?c1 = (cr_state c)\<lparr>pcs_senders_waker := sw, pcs_queue := q\<rparr>"
      "cr_delivered ?c1 = cr_delivered c @ [m]" by (simp_all add: PriorityChannel_dyn_def)
    then have "hp_inv (pcs_queue (cr_state ?c1))" using some(5) by (simp del: chan_exec.simps)
    from Suc.IH [OF this c'] obtain xs where xs: "cr_delivered c' = cr_delivered ?c1 @ xs"
      "sorted_wrt le xs"
      "elems (pcs_queue (cr_state ?c1)) = mset xs + elems (pcs_queue (cr_state c'))"
      "length xs = min k (size (elems (pcs_queue (cr_state ?c1))))"
      "\<forall>x \<in> set xs. \<forall>y \<in># elems (pcs_queue (cr_state c')). le x y" by blast
    have q: "pcs_queue (cr_state ?c1) = q" by (simp add: c1 del: chan_exec.simps)
    have "le m y" if "y \<in># elems q" for y using some(1,2) that by simp
    then show ?thesis
      using xs some(1) unfolding q c1(2) by (intro exI [of _ "m # xs"]) auto
  next
    case (empty rw ws q)
    then have c1: "cr_delivered ?c1 = cr_delivered c" "pcs_queue (cr_state ?c1) = q"
      by (simp_all add: PriorityChannel_dyn_def)
    then have "hp_inv (pcs_queue (cr_state ?c1))" using empty(4) by (simp only:)
    from Suc.IH [OF this c'] show ?thesis unfolding c1 by (auto simp: empty(1,5))
  qed
qed simp

lemma drain_run:
  assumes c: "c = chan_exec_all (PriorityChannel_dyn H) (chan_run_init (PChannelState_new H)) ops"
    and c': "c' = chan_exec_all (PriorityChannel_dyn H) c (replicate k (ChanReceive None))"
  shows "mset (cr_accepted c) = mset (cr_delivered c) + elems (pcs_queue (cr_state c)) \<and>
    size (elems (pcs_queue (cr_state c))) \<le> N \<and>
    (\<exists>xs. cr_delivered c' = cr_delivered c @ xs \<and> sorted_wrt le xs \<and>
       elems (pcs_queue (cr_state c)) = mset xs + elems (pcs_queue (cr_state c')) \<and>
       length xs = min k (size (elems (pcs_queue (cr_state c)))) \<and>
       (\<forall>x \<in> set xs. \<forall>y \<in># elems (pcs_queue (cr_state c')). le x y))"
proof -
  have run: "pchan.run_inv c" unfolding c by (rule pchan.exec_all_run_inv [OF pnew_inv])
  then have inv: "hp_inv (pcs_queue (cr_state c))" by (simp add: pchan.run_inv_def)
  show ?thesis
    using run bounded [OF inv] drain [OF inv c'] by (simp only: pchan.run_inv_def simp_thms)
qed

lemma run_live:
  assumes "c = chan_exec_all (PriorityChannel_dyn H) (chan_run_init (PChannelState_new H)) ops"
    and "\<not> list_ex is_ready_send ops"
  shows "cr_receivers c \<subseteq> wr_registered (pcs_receiver_waker (cr_state c)) \<and>
    cr_senders c \<subseteq> wr_registered (pcs_senders_waker (cr_state c)) \<and>
    (elems (pcs_queue (cr_state c)) \<noteq> {#} \<longrightarrow> cr_receivers c = {}) \<and>
    (size (elems (pcs_queue (cr_state c))) < N \<longrightarrow> cr_senders c = {})"
  using pchan.exec_all_live [OF pnew_inv pchan.init_live assms(2)] assms(1)
  by (simp add: pchan.live_inv_def)

lemma ready_to_send_stuck:
  assumes inv: "hp_inv (pcs_queue c)" and N: "N < 2 ^ 31"
  shows "fst (PChannelState_poll_ready_to_send H c cx) = Pending"
proof -
  let ?len = "size (elems (pcs_queue c))"
  have len: "?len \<le> N" using inv by (rule bounded)
  have "(NOT (word_of_nat ?len :: 32 word)) \<noteq> word_of_nat N"
  proof
    assume "NOT (word_of_nat ?len :: 32 word) = word_of_nat N"
    then have eq: "word_of_nat N = - (word_of_nat ?len :: 32 word) - 1"
      by (simp add: not_eq_complement)
    have "(word_of_nat (N + ?len + 1) :: 32 word) = 0" by (simp add: eq)
    then have "2 ^ LENGTH(32) dvd N + ?len + 1" by (simp only: word_of_nat_eq_0_iff)
    then have "2 ^ 32 dvd N + ?len + 1" by simp
    with len N show False by (auto dest: dvd_imp_le)
  qed
  with inv show ?thesis by (simp add: PChannelState_poll_ready_to_send_def split: prod.splits)
qed

end

lemmas pchannel_eval =
  chan_run_init_def PriorityChannel_dyn_def PChannelState_new_def sorted_heap_def
  PChannelState_try_send_with_context_def PChannelState_try_receive_with_context_def
  PChannelState_poll_receive_def PChannelState_poll_ready_to_receive_def
  WakerRegistration_wake_if_def waker_registration_defs

text \<open>
  C27. A priority channel keeps every accepted message until it delivers it and delivers by
  priority: after any operations on a new channel, the accepted messages are the delivered and the
  queued ones, at most \<open>N\<close> are queued, and \<open>k\<close> further receives deliver the \<open>k\<close> best queued
  messages (all of them if there are fewer) in the order of the heap, so that no message left in the
  queue precedes a delivered one.
\<close>

theorem priority_channel_order:
  assumes "channel_heap H N le hp_inv elems"
    and "c = chan_exec_all (PriorityChannel_dyn H) (chan_run_init (PChannelState_new H)) ops"
    and "c' = chan_exec_all (PriorityChannel_dyn H) c (replicate k (ChanReceive None))"
  shows "mset (cr_accepted c) = mset (cr_delivered c) + elems (pcs_queue (cr_state c)) \<and>
    size (elems (pcs_queue (cr_state c))) \<le> N \<and>
    (\<exists>xs. cr_delivered c' = cr_delivered c @ xs \<and> sorted_wrt le xs \<and>
       elems (pcs_queue (cr_state c)) = mset xs + elems (pcs_queue (cr_state c')) \<and>
       length xs = min k (size (elems (pcs_queue (cr_state c)))) \<and>
       (\<forall>x \<in> set xs. \<forall>y \<in># elems (pcs_queue (cr_state c')). le x y))"
  using assms by (rule channel_heap.drain_run)

theorem priority_channel_order_witness:
  "let C = PriorityChannel_dyn (sorted_heap 3 (\<lambda>x::nat. x));
       c = chan_exec_all C (chan_run_init (PChannelState_new (sorted_heap 3 (\<lambda>x. x))))
             [ChanSend 7 None, ChanSend 2 None, ChanSend 5 None];
       c' = chan_exec_all C c (replicate 2 (ChanReceive None))
   in cr_accepted c = [7, 2, 5] \<and> cr_delivered c' = [2, 5] \<and>
      mset (cr_accepted c) = mset (cr_delivered c) + mset (pcs_queue (cr_state c))"
proof -
  let ?H = "sorted_heap 3 (\<lambda>x::nat. x)"
  let ?c = "chan_exec_all (PriorityChannel_dyn ?H) (chan_run_init (PChannelState_new ?H))
    [ChanSend 7 None, ChanSend 2 None, ChanSend 5 None]"
  let ?c' = "chan_exec_all (PriorityChannel_dyn ?H) ?c (replicate 2 (ChanReceive None))"
  have "channel_heap ?H 3 (\<le>) (\<lambda>h. length h \<le> 3 \<and> sorted (map (\<lambda>x. x) h)) mset"
    by (rule sorted_channel_heap) simp
  from priority_channel_order [OF this refl refl, of "[ChanSend 7 None, ChanSend 2 None, ChanSend 5 None]" 2]
  have "mset (cr_accepted ?c) = mset (cr_delivered ?c) + mset (pcs_queue (cr_state ?c))" by blast
  moreover have "cr_accepted ?c = [7, 2, 5]" by (simp add: pchannel_eval)
  moreover have "cr_delivered ?c' = [2, 5]" by (simp add: pchannel_eval numeral_2_eq_2)
  ultimately show ?thesis by (simp only: Let_def simp_thms)
qed

text \<open>
  No task that sleeps in a send or a receive of a priority channel is forgotten, as long as no
  task waits with \<open>poll_ready_to_send\<close>: sleeping receivers are registered and the channel is then
  empty, sleeping senders are registered and the channel is then full.
\<close>

theorem priority_channel_no_lost_wakeup:
  assumes "channel_heap H N le hp_inv elems"
    and "c = chan_exec_all (PriorityChannel_dyn H) (chan_run_init (PChannelState_new H)) ops"
    and "\<not> list_ex is_ready_send ops"
  shows "cr_receivers c \<subseteq> wr_registered (pcs_receiver_waker (cr_state c)) \<and>
    cr_senders c \<subseteq> wr_registered (pcs_senders_waker (cr_state c)) \<and>
    (elems (pcs_queue (cr_state c)) \<noteq> {#} \<longrightarrow> cr_receivers c = {}) \<and>
    (size (elems (pcs_queue (cr_state c))) < N \<longrightarrow> cr_senders c = {})"
  using assms by (rule channel_heap.run_live)

theorem priority_channel_no_lost_wakeup_witness:
  "let c = chan_exec_all (PriorityChannel_dyn (sorted_heap 2 (\<lambda>x::nat. x)))
         (chan_run_init (PChannelState_new (sorted_heap 2 (\<lambda>x. x))))
         [ChanPollReceive (RawWaker 4 VTABLE)]
   in cr_receivers c = {RawWaker 4 VTABLE} \<and>
      cr_receivers c \<subseteq> wr_registered (pcs_receiver_waker (cr_state c))"
proof -
  let ?H = "sorted_heap 2 (\<lambda>x::nat. x)"
  let ?c = "chan_exec_all (PriorityChannel_dyn ?H) (chan_run_init (PChannelState_new ?H))
    [ChanPollReceive (RawWaker 4 VTABLE)]"
  have "channel_heap ?H 2 (\<le>) (\<lambda>h. length h \<le> 2 \<and> sorted (map (\<lambda>x. x) h)) mset"
    by (rule sorted_channel_heap) simp
  from priority_channel_no_lost_wakeup [OF this refl, of "[ChanPollReceive (RawWaker 4 VTABLE)]"]
  have "cr_receivers ?c \<subseteq> wr_registered (pcs_receiver_waker (cr_state ?c))" by simp
  moreover have "cr_receivers ?c = {RawWaker 4 VTABLE}" by (simp add: pchannel_eval)
  ultimately show ?thesis by (simp only: Let_def simp_thms)
qed

text \<open>
  \<open>poll_ready_to_send\<close> of the priority channel never reports that there is room: it tests
  \<open>!self.queue.len() == self.queue.capacity()\<close>, where the complement applies to the length, so for
  every capacity below \<open>2^31\<close> it is pending in every state, the empty channel included.
\<close>

theorem priority_ready_to_send_never:
  assumes "channel_heap H N le hp_inv elems" "hp_inv (pcs_queue c)" "N < 2 ^ 31"
  shows "fst (PChannelState_poll_ready_to_send H c cx) = Pending"
  using assms by (rule channel_heap.ready_to_send_stuck)

theorem priority_ready_to_send_never_witness:
  "fst (PChannelState_poll_ready_to_send (sorted_heap 2 (\<lambda>x::nat. x))
     (PChannelState_new (sorted_heap 2 (\<lambda>x. x))) (RawWaker 1 VTABLE)) = Pending"
proof -
  let ?H = "sorted_heap 2 (\<lambda>x::nat. x)"
  have H: "channel_heap ?H 2 (\<le>) (\<lambda>h. length h \<le> 2 \<and> sorted (map (\<lambda>x. x) h)) mset"
    by (rule sorted_channel_heap) simp
  show ?thesis
    by (rule priority_ready_to_send_never [OF H]) (simp_all add: PChannelState_new_def sorted_heap_def)
qed

end
