(* ===== verification/Zerocopy_Channel.thy ===== *)
theory Zerocopy_Channel
  imports Ring_Buffer Waitqueue
begin

text \<open>
  The zero-copy channel of \<open>src/src/sync/zerocopy_channel.rs\<close>.  The sender obtains a reference to a
  free cell of the buffer, writes into it and commits it with \<open>send_done\<close>; the receiver obtains a
  reference to the oldest cell and releases it with \<open>receive_done\<close>.  A reference is the index of
  its cell.  The state is a ring of single cells: it refines \<open>RingBuffer\<close> with pushes and pops
  of length 1, which gives the order of the messages and that the two references never alias.
\<close>

record zc_state =
  zs_len :: nat
  zs_front :: nat
  zs_back :: nat
  zs_full :: bool
  zs_send_waker :: waker_registration
  zs_receive_waker :: waker_registration

record 'a zc_channel =
  zc_buf :: "'a list"
  zc_state :: zc_state

definition ZcChannel_new :: "'a list \<Rightarrow> 'a zc_channel outcome" where
  "ZcChannel_new buf =
     (let len = length buf in
      bind_out (rust_assert (len \<noteq> 0)) (\<lambda>_.
        Ret \<lparr>zc_buf = buf, zc_state = \<lparr>zs_len = len, zs_front = 0, zs_back = 0, zs_full = False,
          zs_send_waker = WakerRegistration_new, zs_receive_waker = WakerRegistration_new\<rparr>\<rparr>))"

definition State_increment :: "zc_state \<Rightarrow> nat \<Rightarrow> nat outcome" where
  "State_increment s i =
     bind_out (add_usize i 1) (\<lambda>t. if t = zs_len s then Ret 0 else add_usize i 1)"

definition State_is_full :: "zc_state \<Rightarrow> bool" where
  "State_is_full s = zs_full s"

definition State_is_empty :: "zc_state \<Rightarrow> bool" where
  "State_is_empty s = (zs_front s = zs_back s \<and> \<not> zs_full s)"

definition State_push_index :: "zc_state \<Rightarrow> nat option" where
  "State_push_index s = (if State_is_full s then None else Some (zs_back s))"

definition State_push_done :: "zc_state \<Rightarrow> (zc_state \<times> waker list) outcome" where
  "State_push_done s =
     bind_out (rust_assert (\<not> State_is_full s)) (\<lambda>_.
     bind_out (State_increment s (zs_back s)) (\<lambda>b.
       let s = s\<lparr>zs_back := b\<rparr>;
           s = (if zs_back s = zs_front s then s\<lparr>zs_full := True\<rparr> else s);
           (sw, ws) = WakerRegistration_wake (zs_send_waker s)
       in Ret (s\<lparr>zs_send_waker := sw\<rparr>, ws)))"

definition State_pop_index :: "zc_state \<Rightarrow> nat option" where
  "State_pop_index s = (if State_is_empty s then None else Some (zs_front s))"

definition State_pop_done :: "zc_state \<Rightarrow> (zc_state \<times> waker list) outcome" where
  "State_pop_done s =
     bind_out (rust_assert (\<not> State_is_empty s)) (\<lambda>_.
     bind_out (State_increment s (zs_front s)) (\<lambda>f.
       let s = s\<lparr>zs_front := f, zs_full := False\<rparr>;
           (rw, ws) = WakerRegistration_wake (zs_receive_waker s)
       in Ret (s\<lparr>zs_receive_waker := rw\<rparr>, ws)))"

definition ZcSender_try_send :: "'a zc_channel \<Rightarrow> nat option" where
  "ZcSender_try_send c = State_push_index (zc_state c)"

definition ZcSender_poll_send ::
  "'a zc_channel \<Rightarrow> waker \<Rightarrow> nat poll \<times> 'a zc_channel \<times> waker list" where
  "ZcSender_poll_send c cx =
     (let s = zc_state c in
      case State_push_index s of
        Some i \<Rightarrow> (Ready i, c, [])
      | None \<Rightarrow>
          (let (rw, ws) = WakerRegistration_register (zs_receive_waker s) cx
           in (Pending, c\<lparr>zc_state := s\<lparr>zs_receive_waker := rw\<rparr>\<rparr>, ws)))"

definition ZcSender_send_done :: "'a zc_channel \<Rightarrow> ('a zc_channel \<times> waker list) outcome" where
  "ZcSender_send_done c =
     bind_out (State_push_done (zc_state c)) (\<lambda>(s, ws). Ret (c\<lparr>zc_state := s\<rparr>, ws))"

definition ZcReceiver_try_receive :: "'a zc_channel \<Rightarrow> nat option" where
  "ZcReceiver_try_receive c = State_pop_index (zc_state c)"

definition ZcReceiver_poll_receive ::
  "'a zc_channel \<Rightarrow> waker \<Rightarrow> nat poll \<times> 'a zc_channel \<times> waker list" where
  "ZcReceiver_poll_receive c cx =
     (let s = zc_state c in
      case State_pop_index s of
        Some i \<Rightarrow> (Ready i, c, [])
      | None \<Rightarrow>
          (let (sw, ws) = WakerRegistration_register (zs_send_waker s) cx
           in (Pending, c\<lparr>zc_state := s\<lparr>zs_send_waker := sw\<rparr>\<rparr>, ws)))"

definition ZcReceiver_receive_done :: "'a zc_channel \<Rightarrow> ('a zc_channel \<times> waker list) outcome" where
  "ZcReceiver_receive_done c =
     bind_out (State_pop_done (zc_state c)) (\<lambda>(s, ws). Ret (c\<lparr>zc_state := s\<rparr>, ws))"

text \<open>
  One poll of the futures \<open>send\<close> and \<open>receive\<close>: the closure of \<open>poll_fn\<close> returns the index, and the reference
  to its cell is made after it.
\<close>

definition ZcSender_send_poll ::
  "'a zc_channel \<Rightarrow> waker \<Rightarrow> nat poll \<times> 'a zc_channel \<times> waker list" where
  "ZcSender_send_poll c cx =
     (case State_push_index (zc_state c) of
        Some i \<Rightarrow> (Ready i, c, [])
      | None \<Rightarrow>
          (let (rw, ws) = WakerRegistration_register (zs_receive_waker (zc_state c)) cx
           in (Pending, c\<lparr>zc_state := (zc_state c)\<lparr>zs_receive_waker := rw\<rparr>\<rparr>, ws)))"

definition ZcReceiver_receive_poll ::
  "'a zc_channel \<Rightarrow> waker \<Rightarrow> nat poll \<times> 'a zc_channel \<times> waker list" where
  "ZcReceiver_receive_poll c cx =
     (case State_pop_index (zc_state c) of
        Some i \<Rightarrow> (Ready i, c, [])
      | None \<Rightarrow>
          (let (sw, ws) = WakerRegistration_register (zs_send_waker (zc_state c)) cx
           in (Pending, c\<lparr>zc_state := (zc_state c)\<lparr>zs_send_waker := sw\<rparr>\<rparr>, ws)))"

lemma zc_async_polls:
  "ZcSender_send_poll = ZcSender_poll_send" "ZcReceiver_receive_poll = ZcReceiver_poll_receive"
  by (simp_all add: fun_eq_iff Let_def ZcSender_send_poll_def ZcSender_poll_send_def
      ZcReceiver_receive_poll_def ZcReceiver_poll_receive_def)

lemmas zc_op_defs =
  ZcSender_try_send_def ZcSender_poll_send_def ZcSender_send_done_def ZcReceiver_try_receive_def
  ZcReceiver_poll_receive_def ZcReceiver_receive_done_def State_push_index_def State_pop_index_def

section \<open>The state is a ring of single cells\<close>

definition zs_ring :: "zc_state \<Rightarrow> ring_buffer" where
  "zs_ring s = \<lparr>rb_start = zs_front s, rb_end = zs_back s, rb_full = zs_full s\<rparr>"

definition zs_inv :: "zc_state \<Rightarrow> bool" where
  "zs_inv s \<longleftrightarrow> rb_inv (zs_len s) (zs_ring s)"

lemma zs_empty_full [simp]:
  "State_is_empty s = RingBuffer_is_empty (zs_ring s)" "State_is_full s = RingBuffer_is_full (zs_ring s)"
  by (simp_all add: State_is_empty_def State_is_full_def ring_buffer_defs zs_ring_def)

lemma State_increment_wrap:
  "i < zs_len s \<Longrightarrow> zs_len s \<le> usize_max \<Longrightarrow>
     State_increment s i = bind_out (add_usize i 1) (RingBuffer_wrap (zs_len s))"
  by (auto simp: State_increment_def RingBuffer_wrap_def)

text \<open>Both indices of an invariant state can be incremented without leaving \<open>usize\<close>.\<close>

lemma State_push_done_ring:
  assumes "zs_inv s" "\<not> RingBuffer_is_full (zs_ring s)"
  obtains s' ws where "State_push_done s = Ret (s', ws)"
    "RingBuffer_push (zs_len s) (zs_ring s) 1 = Ret (zs_ring s')" "zs_len s' = zs_len s"
    "WakerRegistration_wake (zs_send_waker s) = (zs_send_waker s', ws)"
    "zs_receive_waker s' = zs_receive_waker s"
proof -
  obtain sw ws where "WakerRegistration_wake (zs_send_waker s) = (sw, ws)" by fastforce
  with assms show ?thesis
    by (intro that [of "s\<lparr>zs_back := (if zs_back s + 1 = zs_len s then 0 else zs_back s + 1),
        zs_full := (zs_front s = (if zs_back s + 1 = zs_len s then 0 else zs_back s + 1)),
        zs_send_waker := sw\<rparr>" ws])
      (cases s, auto simp: State_push_done_def State_increment_wrap RingBuffer_push_def
        RingBuffer_wrap_def zs_inv_def rb_inv_def zs_ring_def RingBuffer_is_full_def Let_def)+
qed

lemma State_pop_done_ring:
  assumes "zs_inv s" "\<not> RingBuffer_is_empty (zs_ring s)"
  obtains s' ws where "State_pop_done s = Ret (s', ws)"
    "RingBuffer_pop (zs_len s) (zs_ring s) 1 = Ret (zs_ring s')" "zs_len s' = zs_len s"
    "WakerRegistration_wake (zs_receive_waker s) = (zs_receive_waker s', ws)"
    "zs_send_waker s' = zs_send_waker s"
proof -
  obtain rw ws where "WakerRegistration_wake (zs_receive_waker s) = (rw, ws)" by fastforce
  with assms show ?thesis
    by (intro that [of "s\<lparr>zs_front := (if zs_front s + 1 = zs_len s then 0 else zs_front s + 1),
        zs_full := False, zs_receive_waker := rw\<rparr>" ws])
      (auto simp: State_pop_done_def State_increment_wrap RingBuffer_pop_def RingBuffer_wrap_def
        zs_inv_def rb_inv_def zs_ring_def)
qed

section \<open>Contents\<close>

definition zc_inv :: "'a zc_channel \<Rightarrow> bool" where
  "zc_inv c \<longleftrightarrow> zs_inv (zc_state c) \<and> length (zc_buf c) = zs_len (zc_state c)"

definition zc_contents :: "'a zc_channel \<Rightarrow> 'a list" where
  "zc_contents c = rb_contents (zs_len (zc_state c)) (zs_ring (zc_state c)) (zc_buf c)"

lemma zc_empty_iff: "zc_inv c \<Longrightarrow> RingBuffer_is_empty (zs_ring (zc_state c)) \<longleftrightarrow> zc_contents c = []"
  by (simp add: zc_inv_def zs_inv_def zc_contents_def rb_empty_iff)

lemma zc_full_iff:
  "zc_inv c \<Longrightarrow> RingBuffer_is_full (zs_ring (zc_state c)) \<longleftrightarrow> length (zc_contents c) = length (zc_buf c)"
  by (simp add: zc_inv_def zs_inv_def zc_contents_def rb_full_iff)

lemma zc_contents_le: "zc_inv c \<Longrightarrow> length (zc_contents c) \<le> length (zc_buf c)"
  by (simp add: zc_inv_def zs_inv_def zc_contents_def rb_contents_le)

lemma zc_new_cases:
  assumes "ZcChannel_new buf = Ret c" "length buf \<le> usize_max"
  shows "zc_inv c" "zc_contents c = []" "zc_buf c = buf"
    "wr_registered (zs_send_waker (zc_state c)) = {}" "wr_registered (zs_receive_waker (zc_state c)) = {}"
  using assms by (auto simp: ZcChannel_new_def zc_inv_def zs_inv_def rb_inv_def zs_ring_def
      zc_contents_def rb_contents_def RingBuffer_is_empty_def Let_def rust_assert_def split: if_splits)

lemma slice_update [slice_simps]:
  "i < a \<or> b \<le> i \<Longrightarrow> slice_of a b (xs[i := x]) = slice_of a b xs"
  by (cases "a \<le> b") (auto simp: slice_of_def drop_update_swap)

text \<open>Writing the free cell at \<open>back\<close> leaves the contents alone.\<close>

lemma zc_write_frame:
  assumes "zc_inv c" "\<not> RingBuffer_is_full (zs_ring (zc_state c))"
  shows "zc_inv (c\<lparr>zc_buf := (zc_buf c)[zs_back (zc_state c) := x]\<rparr>)"
    and "zc_contents (c\<lparr>zc_buf := (zc_buf c)[zs_back (zc_state c) := x]\<rparr>) = zc_contents c"
  using assms by (auto simp: zc_inv_def zc_contents_def rb_contents_def zs_ring_def ring_buffer_defs
      slice_simps)

lemma zc_send_done_cases:
  assumes inv: "zc_inv c" and nf: "\<not> RingBuffer_is_full (zs_ring (zc_state c))"
  obtains c' ws where "ZcSender_send_done c = Ret (c', ws)" "zc_inv c'" "zc_buf c' = zc_buf c"
    "zc_contents c' = zc_contents c @ [zc_buf c ! zs_back (zc_state c)]"
    "zs_front (zc_state c') = zs_front (zc_state c)"
    "WakerRegistration_wake (zs_send_waker (zc_state c)) = (zs_send_waker (zc_state c'), ws)"
    "zs_receive_waker (zc_state c') = zs_receive_waker (zc_state c)"
proof -
  let ?s = "zc_state c" and ?buf = "zc_buf c"
  from inv have rb: "rb_inv (zs_len ?s) (zs_ring ?s)" and len: "length ?buf = zs_len ?s"
    and s: "zs_inv ?s" by (auto simp: zc_inv_def zs_inv_def)
  from push_buf_range [OF rb] nf obtain b where
    range: "RingBuffer_push_buf (zs_len ?s) (zs_ring ?s) = Ret (zs_back ?s, b)" "1 \<le> b - zs_back ?s"
    by (fastforce simp: Suc_le_eq zs_ring_def RingBuffer_is_full_def)
  have same: "write_at (zs_back ?s) [?buf ! zs_back ?s] ?buf = ?buf"
    using rb len by (simp add: write_at_def rb_inv_def zs_ring_def id_take_nth_drop [symmetric])
  from push_appends [OF rb len range(1), of "[?buf ! zs_back ?s]"] range(2) same obtain rb' where
    rb': "RingBuffer_push (zs_len ?s) (zs_ring ?s) 1 = Ret rb'" "rb_inv (zs_len ?s) rb'"
      "rb_contents (zs_len ?s) rb' ?buf = zc_contents c @ [?buf ! zs_back ?s]"
    by (auto simp: zc_contents_def)
  from State_push_done_ring [OF s nf] obtain s' ws where s': "State_push_done ?s = Ret (s', ws)"
    "RingBuffer_push (zs_len ?s) (zs_ring ?s) 1 = Ret (zs_ring s')" "zs_len s' = zs_len ?s"
    "WakerRegistration_wake (zs_send_waker ?s) = (zs_send_waker s', ws)"
    "zs_receive_waker s' = zs_receive_waker ?s" .
  have "zs_front s' = zs_front ?s"
    using s'(2) by (auto simp: RingBuffer_push_def zs_ring_def)
  with s' rb' len show ?thesis
    by (intro that [of "c\<lparr>zc_state := s'\<rparr>" ws])
      (auto simp: ZcSender_send_done_def zc_inv_def zs_inv_def zc_contents_def)
qed

lemma zc_front:
  assumes "zc_inv c" "zc_contents c \<noteq> []"
  shows "zc_contents c ! 0 = zc_buf c ! zs_front (zc_state c)"
  using assms by (auto simp: zc_contents_def rb_contents_def zc_inv_def zs_inv_def rb_inv_def
      zs_ring_def slice_of_def nth_append split: if_splits)

lemma zc_receive_done_cases:
  assumes inv: "zc_inv c" and ne: "\<not> RingBuffer_is_empty (zs_ring (zc_state c))"
  obtains c' ws where "ZcReceiver_receive_done c = Ret (c', ws)" "zc_inv c'" "zc_buf c' = zc_buf c"
    "zc_contents c = zc_buf c ! zs_front (zc_state c) # zc_contents c'"
    "zs_back (zc_state c') = zs_back (zc_state c)"
    "WakerRegistration_wake (zs_receive_waker (zc_state c)) = (zs_receive_waker (zc_state c'), ws)"
    "zs_send_waker (zc_state c') = zs_send_waker (zc_state c)"
proof -
  let ?s = "zc_state c" and ?buf = "zc_buf c"
  from inv have rb: "rb_inv (zs_len ?s) (zs_ring ?s)" and len: "length ?buf = zs_len ?s"
    and s: "zs_inv ?s" by (auto simp: zc_inv_def zs_inv_def)
  from pop_buf_range [OF rb] ne obtain a b where
    range: "RingBuffer_pop_buf (zs_len ?s) (zs_ring ?s) = Ret (a, b)" "1 \<le> b - a"
    by (fastforce simp: Suc_le_eq)
  from pop_drops [OF rb len range(1), of 1] range(2) obtain rb' where
    rb': "RingBuffer_pop (zs_len ?s) (zs_ring ?s) 1 = Ret rb'" "rb_inv (zs_len ?s) rb'"
      "rb_contents (zs_len ?s) rb' ?buf = drop 1 (zc_contents c)"
    by (auto simp: zc_contents_def)
  from State_pop_done_ring [OF s ne] obtain s' ws where s': "State_pop_done ?s = Ret (s', ws)"
    "RingBuffer_pop (zs_len ?s) (zs_ring ?s) 1 = Ret (zs_ring s')" "zs_len s' = zs_len ?s"
    "WakerRegistration_wake (zs_receive_waker ?s) = (zs_receive_waker s', ws)"
    "zs_send_waker s' = zs_send_waker ?s" .
  have "zc_contents c \<noteq> []" using ne zc_empty_iff [OF inv] by simp
  then have "zc_contents c = ?buf ! zs_front ?s # drop 1 (zc_contents c)"
    using zc_front [OF inv] by (cases "zc_contents c") auto
  moreover have "zs_back s' = zs_back ?s" using s'(2) by (auto simp: RingBuffer_pop_def zs_ring_def)
  ultimately show ?thesis using s' rb' len
    by (intro that [of "c\<lparr>zc_state := s'\<rparr>" ws])
      (auto simp: ZcReceiver_receive_done_def zc_inv_def zs_inv_def zc_contents_def)
qed

section \<open>Runs\<close>

text \<open>
  One sender and one receiver, as \<open>split\<close> hands them out, interleaved in any order.  The sender
  holds the reference of its last successful \<open>try_send\<close> or \<open>poll_send\<close> until \<open>send_done\<close> (which
  borrows the sender again), and writes through it; the receiver likewise.  The run records the
  messages committed and released, in order, and the sleeping tasks.  A write without a reference
  cannot be written in Rust and changes nothing.
\<close>

datatype 'a zc_op =
    ZcTrySend | ZcPollSend waker | ZcWrite 'a | ZcSendDone
  | ZcTryReceive | ZcPollReceive waker | ZcReceiveDone

record 'a zc_run =
  zr_chan :: "'a zc_channel"
  zr_snd_ref :: "nat option"
  zr_rcv_ref :: "nat option"
  zr_sent :: "'a list"
  zr_received :: "'a list"
  zr_senders :: "waker set"
  zr_receivers :: "waker set"

definition zc_run_init :: "'a zc_channel \<Rightarrow> 'a zc_run" where
  "zc_run_init c = \<lparr>zr_chan = c, zr_snd_ref = None, zr_rcv_ref = None, zr_sent = [],
     zr_received = [], zr_senders = {}, zr_receivers = {}\<rparr>"

fun zc_exec :: "'a zc_run \<Rightarrow> 'a zc_op \<Rightarrow> 'a zc_run outcome" where
  "zc_exec r ZcTrySend = Ret (r\<lparr>zr_snd_ref := ZcSender_try_send (zr_chan r)\<rparr>)"
| "zc_exec r (ZcPollSend cx) =
     (let (p, c, ws) = ZcSender_poll_send (zr_chan r) cx
      in Ret (r\<lparr>zr_chan := c, zr_snd_ref := (case p of Ready i \<Rightarrow> Some i | Pending \<Rightarrow> None),
           zr_senders := (zr_senders r - set ws) \<union> (case p of Ready _ \<Rightarrow> {} | Pending \<Rightarrow> {cx})\<rparr>))"
| "zc_exec r (ZcWrite x) =
     Ret (case zr_snd_ref r of None \<Rightarrow> r
          | Some i \<Rightarrow> r\<lparr>zr_chan := (zr_chan r)\<lparr>zc_buf := (zc_buf (zr_chan r))[i := x]\<rparr>\<rparr>)"
| "zc_exec r ZcSendDone =
     bind_out (ZcSender_send_done (zr_chan r)) (\<lambda>(c, ws).
       Ret (r\<lparr>zr_chan := c, zr_snd_ref := None,
         zr_sent := zr_sent r @ [zc_buf (zr_chan r) ! zs_back (zc_state (zr_chan r))],
         zr_receivers := zr_receivers r - set ws\<rparr>))"
| "zc_exec r ZcTryReceive = Ret (r\<lparr>zr_rcv_ref := ZcReceiver_try_receive (zr_chan r)\<rparr>)"
| "zc_exec r (ZcPollReceive cx) =
     (let (p, c, ws) = ZcReceiver_poll_receive (zr_chan r) cx
      in Ret (r\<lparr>zr_chan := c, zr_rcv_ref := (case p of Ready i \<Rightarrow> Some i | Pending \<Rightarrow> None),
           zr_receivers := (zr_receivers r - set ws) \<union> (case p of Ready _ \<Rightarrow> {} | Pending \<Rightarrow> {cx})\<rparr>))"
| "zc_exec r ZcReceiveDone =
     bind_out (ZcReceiver_receive_done (zr_chan r)) (\<lambda>(c, ws).
       Ret (r\<lparr>zr_chan := c, zr_rcv_ref := None,
         zr_received := zr_received r @ [zc_buf (zr_chan r) ! zs_front (zc_state (zr_chan r))],
         zr_senders := zr_senders r - set ws\<rparr>))"

fun zc_exec_all :: "'a zc_run \<Rightarrow> 'a zc_op list \<Rightarrow> 'a zc_run outcome" where
  "zc_exec_all r [] = Ret r"
| "zc_exec_all r (x # xs) = bind_out (zc_exec r x) (\<lambda>r'. zc_exec_all r' xs)"

definition zc_run_inv :: "'a zc_run \<Rightarrow> bool" where
  "zc_run_inv r \<longleftrightarrow> zc_inv (zr_chan r) \<and>
     zr_sent r = zr_received r @ zc_contents (zr_chan r) \<and>
     (\<forall>i. zr_snd_ref r = Some i \<longrightarrow> i = zs_back (zc_state (zr_chan r)) \<and>
        \<not> RingBuffer_is_full (zs_ring (zc_state (zr_chan r)))) \<and>
     (\<forall>i. zr_rcv_ref r = Some i \<longrightarrow> i = zs_front (zc_state (zr_chan r)) \<and>
        \<not> RingBuffer_is_empty (zs_ring (zc_state (zr_chan r))))"

definition zc_live_inv :: "'a zc_run \<Rightarrow> bool" where
  "zc_live_inv r \<longleftrightarrow>
     zr_senders r \<subseteq> wr_registered (zs_receive_waker (zc_state (zr_chan r))) \<and>
     zr_receivers r \<subseteq> wr_registered (zs_send_waker (zc_state (zr_chan r))) \<and>
     (zr_senders r \<noteq> {} \<longrightarrow> RingBuffer_is_full (zs_ring (zc_state (zr_chan r)))) \<and>
     (zr_receivers r \<noteq> {} \<longrightarrow> RingBuffer_is_empty (zs_ring (zc_state (zr_chan r))))"

lemma zc_poll_send_cases:
  obtains (ready) "\<not> RingBuffer_is_full (zs_ring (zc_state c))"
      "ZcSender_poll_send c cx = (Ready (zs_back (zc_state c)), c, [])"
    | (full) rw ws where "RingBuffer_is_full (zs_ring (zc_state c))"
      "WakerRegistration_register (zs_receive_waker (zc_state c)) cx = (rw, ws)"
      "ZcSender_poll_send c cx =
         (Pending, c\<lparr>zc_state := (zc_state c)\<lparr>zs_receive_waker := rw\<rparr>\<rparr>, ws)"
proof (cases "RingBuffer_is_full (zs_ring (zc_state c))")
  case True
  then show ?thesis
    using full by (cases "WakerRegistration_register (zs_receive_waker (zc_state c)) cx")
      (auto simp: zc_op_defs)
qed (use ready in \<open>auto simp: zc_op_defs\<close>)

lemma zc_poll_receive_cases:
  obtains (ready) "\<not> RingBuffer_is_empty (zs_ring (zc_state c))"
      "ZcReceiver_poll_receive c cx = (Ready (zs_front (zc_state c)), c, [])"
    | (empty) sw ws where "RingBuffer_is_empty (zs_ring (zc_state c))"
      "WakerRegistration_register (zs_send_waker (zc_state c)) cx = (sw, ws)"
      "ZcReceiver_poll_receive c cx =
         (Pending, c\<lparr>zc_state := (zc_state c)\<lparr>zs_send_waker := sw\<rparr>\<rparr>, ws)"
proof (cases "RingBuffer_is_empty (zs_ring (zc_state c))")
  case True
  then show ?thesis
    using empty by (cases "WakerRegistration_register (zs_send_waker (zc_state c)) cx")
      (auto simp: zc_op_defs)
qed (use ready in \<open>auto simp: zc_op_defs\<close>)

lemma zs_ring_wakers [simp]:
  "zs_ring (s\<lparr>zs_receive_waker := w\<rparr>) = zs_ring s" "zs_ring (s\<lparr>zs_send_waker := w\<rparr>) = zs_ring s"
  by (simp_all add: zs_ring_def)

lemma zc_frame_wakers [simp]:
  "zc_inv (c\<lparr>zc_state := (zc_state c)\<lparr>zs_receive_waker := w\<rparr>\<rparr>) = zc_inv c"
  "zc_inv (c\<lparr>zc_state := (zc_state c)\<lparr>zs_send_waker := w\<rparr>\<rparr>) = zc_inv c"
  "zc_contents (c\<lparr>zc_state := (zc_state c)\<lparr>zs_receive_waker := w\<rparr>\<rparr>) = zc_contents c"
  "zc_contents (c\<lparr>zc_state := (zc_state c)\<lparr>zs_send_waker := w\<rparr>\<rparr>) = zc_contents c"
  by (simp_all add: zc_inv_def zs_inv_def zc_contents_def)

lemma send_done_not_full: "ZcSender_send_done c = Ret x \<Longrightarrow> \<not> RingBuffer_is_full (zs_ring (zc_state c))"
  by (auto simp: ZcSender_send_done_def State_push_done_def rust_assert_def split: if_splits)

lemma receive_done_not_empty:
  "ZcReceiver_receive_done c = Ret x \<Longrightarrow> \<not> RingBuffer_is_empty (zs_ring (zc_state c))"
  by (auto simp: ZcReceiver_receive_done_def State_pop_done_def rust_assert_def split: if_splits)

text \<open>After a commit the ring is not empty, after a release it is not full.\<close>

lemma zc_send_done_ne: "zc_inv c' \<Longrightarrow> zc_contents c' = xs @ [x] \<Longrightarrow> \<not> RingBuffer_is_empty (zs_ring (zc_state c'))"
  by (simp add: zc_empty_iff)

lemma zc_receive_done_nf:
  "zc_inv c \<Longrightarrow> zc_inv c' \<Longrightarrow> zc_buf c' = zc_buf c \<Longrightarrow> zc_contents c = x # zc_contents c' \<Longrightarrow>
     \<not> RingBuffer_is_full (zs_ring (zc_state c'))"
  using zc_contents_le [of c] by (simp add: zc_full_iff)

lemma zc_exec_inv:
  assumes inv: "zc_run_inv r" and live: "zc_live_inv r" and ex: "zc_exec r x = Ret r'"
  shows "zc_run_inv r' \<and> zc_live_inv r'"
proof (cases x)
  case (ZcPollSend cx)
  show ?thesis
  proof (cases rule: zc_poll_send_cases [of "zr_chan r" cx])
    case (full rw ws)
    with wr.sleepers_register [OF TrueI _ arg_cong [OF full(2), of Ret], of "zr_senders r"]
    show ?thesis using inv live ex ZcPollSend by (auto simp: zc_run_inv_def zc_live_inv_def)
  qed (use inv live ex ZcPollSend in \<open>auto simp: zc_run_inv_def zc_live_inv_def\<close>)
next
  case (ZcPollReceive cx)
  show ?thesis
  proof (cases rule: zc_poll_receive_cases [of "zr_chan r" cx])
    case (empty sw ws)
    with wr.sleepers_register [OF TrueI _ arg_cong [OF empty(2), of Ret], of "zr_receivers r"]
    show ?thesis using inv live ex ZcPollReceive by (auto simp: zc_run_inv_def zc_live_inv_def)
  qed (use inv live ex ZcPollReceive in \<open>auto simp: zc_run_inv_def zc_live_inv_def\<close>)
next
  case (ZcWrite y)
  with inv live ex show ?thesis
    by (auto simp: zc_run_inv_def zc_live_inv_def zc_write_frame split: option.splits)
next
  case ZcSendDone
  with ex obtain z where sd: "ZcSender_send_done (zr_chan r) = Ret z" by auto
  have ci: "zc_inv (zr_chan r)" using inv by (simp add: zc_run_inv_def)
  from zc_send_done_cases [OF ci send_done_not_full [OF sd]] obtain c' ws where
    c': "ZcSender_send_done (zr_chan r) = Ret (c', ws)" "zc_inv c'" "zc_buf c' = zc_buf (zr_chan r)"
    "zc_contents c' = zc_contents (zr_chan r) @ [zc_buf (zr_chan r) ! zs_back (zc_state (zr_chan r))]"
    "zs_front (zc_state c') = zs_front (zc_state (zr_chan r))"
    "WakerRegistration_wake (zs_send_waker (zc_state (zr_chan r))) = (zs_send_waker (zc_state c'), ws)"
    "zs_receive_waker (zc_state c') = zs_receive_waker (zc_state (zr_chan r))" .
  have "zr_receivers r - set ws = {}"
    using wr.sleepers_wake [OF TrueI _ c'(6)] live by (simp add: zc_live_inv_def)
  moreover have "zr_senders r = {}" using send_done_not_full [OF sd] live by (auto simp: zc_live_inv_def)
  ultimately show ?thesis
    using c' inv live ex ZcSendDone zc_send_done_ne [OF c'(2,4)]
    by (auto simp: zc_run_inv_def zc_live_inv_def)
next
  case ZcReceiveDone
  with ex obtain z where rd: "ZcReceiver_receive_done (zr_chan r) = Ret z" by auto
  have ci: "zc_inv (zr_chan r)" using inv by (simp add: zc_run_inv_def)
  from zc_receive_done_cases [OF ci receive_done_not_empty [OF rd]] obtain c' ws where
    c': "ZcReceiver_receive_done (zr_chan r) = Ret (c', ws)" "zc_inv c'" "zc_buf c' = zc_buf (zr_chan r)"
    "zc_contents (zr_chan r) = zc_buf (zr_chan r) ! zs_front (zc_state (zr_chan r)) # zc_contents c'"
    "zs_back (zc_state c') = zs_back (zc_state (zr_chan r))"
    "WakerRegistration_wake (zs_receive_waker (zc_state (zr_chan r))) =
       (zs_receive_waker (zc_state c'), ws)"
    "zs_send_waker (zc_state c') = zs_send_waker (zc_state (zr_chan r))" .
  have "zr_senders r - set ws = {}"
    using wr.sleepers_wake [OF TrueI _ c'(6)] live by (simp add: zc_live_inv_def)
  moreover have "zr_receivers r = {}"
    using receive_done_not_empty [OF rd] live by (auto simp: zc_live_inv_def)
  ultimately show ?thesis
    using c' inv live ex ZcReceiveDone zc_receive_done_nf [OF ci c'(2,3,4)]
    by (auto simp: zc_run_inv_def zc_live_inv_def)
qed (use inv live ex in \<open>auto simp: zc_run_inv_def zc_live_inv_def zc_op_defs split: if_splits\<close>)

lemma zc_exec_all_inv:
  "zc_run_inv r \<Longrightarrow> zc_live_inv r \<Longrightarrow> zc_exec_all r xs = Ret r' \<Longrightarrow> zc_run_inv r' \<and> zc_live_inv r'"
proof (induction xs arbitrary: r)
  case (Cons x xs)
  then obtain r1 where "zc_exec r x = Ret r1" "zc_exec_all r1 xs = Ret r'" by auto
  with Cons zc_exec_inv [of r x r1] show ?case by auto
qed simp

lemma zc_init_inv:
  assumes "ZcChannel_new buf = Ret c" "length buf \<le> usize_max"
  shows "zc_run_inv (zc_run_init c) \<and> zc_live_inv (zc_run_init c)"
  using zc_new_cases [OF assms] by (auto simp: zc_run_inv_def zc_live_inv_def zc_run_init_def)


lemmas zc_eval =
  zc_run_init_def ZcChannel_new_def zc_op_defs State_push_done_def State_pop_done_def
  State_increment_def zc_contents_def rb_contents_def zs_ring_def ring_buffer_defs slice_of_def
  waker_registration_defs usize_max_def rust_arith Let_def


text \<open>
  The zero-copy channel never panics in a client that commits only a cell it holds and never
  forgets a sleeping task: after any run, a held send reference makes \<open>send_done\<close> return and a held
  receive reference makes \<open>receive_done\<close> return; a task that sleeps in a send is registered and the
  ring is full, a task that sleeps in a receive is registered and the ring is empty.
\<close>

theorem zerocopy_progress:
  assumes "ZcChannel_new buf = Ret c" "length buf \<le> usize_max"
    and "zc_exec_all (zc_run_init c) ops = Ret r"
  shows "(zr_snd_ref r \<noteq> None \<longrightarrow> (\<exists>r'. zc_exec r ZcSendDone = Ret r')) \<and>
    (zr_rcv_ref r \<noteq> None \<longrightarrow> (\<exists>r'. zc_exec r ZcReceiveDone = Ret r')) \<and>
    zr_senders r \<subseteq> wr_registered (zs_receive_waker (zc_state (zr_chan r))) \<and>
    zr_receivers r \<subseteq> wr_registered (zs_send_waker (zc_state (zr_chan r))) \<and>
    (zr_senders r \<noteq> {} \<longrightarrow> length (zc_contents (zr_chan r)) = length (zc_buf (zr_chan r))) \<and>
    (zr_receivers r \<noteq> {} \<longrightarrow> zc_contents (zr_chan r) = [])"
proof -
  from zc_init_inv [OF assms(1,2)] assms(3) have inv: "zc_run_inv r" and live: "zc_live_inv r"
    using zc_exec_all_inv by blast+
  then have ci: "zc_inv (zr_chan r)" by (simp add: zc_run_inv_def)
  have "\<exists>r'. zc_exec r ZcSendDone = Ret r'" if "zr_snd_ref r = Some i" for i
  proof -
    have "\<not> RingBuffer_is_full (zs_ring (zc_state (zr_chan r)))"
      using inv that by (simp add: zc_run_inv_def)
    then show ?thesis by (rule zc_send_done_cases [OF ci]) simp
  qed
  moreover have "\<exists>r'. zc_exec r ZcReceiveDone = Ret r'" if "zr_rcv_ref r = Some i" for i
  proof -
    have "\<not> RingBuffer_is_empty (zs_ring (zc_state (zr_chan r)))"
      using inv that by (simp add: zc_run_inv_def)
    then show ?thesis by (rule zc_receive_done_cases [OF ci]) simp
  qed
  ultimately show ?thesis
    using live zc_empty_iff [OF ci] zc_full_iff [OF ci] by (auto simp: zc_live_inv_def)
qed

theorem zerocopy_progress_witness:
  "\<exists>c r. ZcChannel_new [0 :: nat] = Ret c \<and>
     zc_exec_all (zc_run_init c) [ZcTrySend, ZcSendDone, ZcPollSend (RawWaker 3 VTABLE)] = Ret r \<and>
     zr_senders r = {RawWaker 3 VTABLE} \<and>
     zr_senders r \<subseteq> wr_registered (zs_receive_waker (zc_state (zr_chan r)))"
proof -
  let ?ops = "[ZcTrySend, ZcSendDone, ZcPollSend (RawWaker 3 VTABLE)] :: nat zc_op list"
  have "\<exists>c r. ZcChannel_new [0 :: nat] = Ret c \<and> zc_exec_all (zc_run_init c) ?ops = Ret r \<and>
      zr_senders r = {RawWaker 3 VTABLE}"
    by (simp add: zc_eval del: bind_out_eq_Ret)
  then obtain c r where c: "ZcChannel_new [0 :: nat] = Ret c" and r: "zc_exec_all (zc_run_init c) ?ops = Ret r"
    "zr_senders r = {RawWaker 3 VTABLE}" by blast
  from zerocopy_progress [OF c _ r(1)] have
    "zr_senders r \<subseteq> wr_registered (zs_receive_waker (zc_state (zr_chan r)))"
    by (simp add: usize_max_def)
  with c r show ?thesis by blast
qed

end
