(* ===== verification/Timer_Queue.thy ===== *)
theory Timer_Queue
  imports Heapless
begin

text \<open>
  The timer queue of \<open>src/src/time/timer_queue.rs\<close>: a min-heap of deadlines with the wakers to
  call.  \<open>dequeue_expired\<close> is a loop over the heap, which is a parameter, so it takes fuel; it needs
  one unit more than the heap has elements (\<open>dequeue_expired_ok\<close>).  Its callback
  threads a state \<open>'c\<close> and may panic.
\<close>

record timer_queue_item =
  ti_expires_at :: nat
  ti_waker :: waker

definition N_TIMERS :: nat where
  "N_TIMERS = 64"

record 'h timer_queue =
  tq_queue :: 'h

type_synonym 'h timer_heap_ops = "('h, timer_queue_item) heap_ops"

fun task_from_waker :: "waker \<Rightarrow> nat outcome" where
  "task_from_waker (RawWaker data vtable) =
     (if vtable \<noteq> VTABLE then Panic ExplicitPanic else Ret data)"

definition TimerQueueItem_get_task_ref :: "timer_queue_item \<Rightarrow> nat outcome" where
  "TimerQueueItem_get_task_ref item = task_from_waker (ti_waker item)"

definition TimerQueueItem_eq :: "timer_queue_item \<Rightarrow> timer_queue_item \<Rightarrow> bool" where
  "TimerQueueItem_eq x y = (ti_expires_at x = ti_expires_at y)"

definition TimerQueueItem_le :: "timer_queue_item \<Rightarrow> timer_queue_item \<Rightarrow> bool" where
  "TimerQueueItem_le x y = (ti_expires_at x \<le> ti_expires_at y)"

definition TimerQueue_new :: "'h timer_heap_ops \<Rightarrow> 'h timer_queue" where
  "TimerQueue_new H = \<lparr>tq_queue = Heap_new H\<rparr>"

definition TimerQueue_enqueue ::
  "'h timer_heap_ops \<Rightarrow> 'h timer_queue \<Rightarrow> timer_queue_item \<Rightarrow> unit option \<times> 'h timer_queue" where
  "TimerQueue_enqueue H tq item =
     (let (r, h) = Heap_push H (tq_queue tq) item in (result_ok r, tq\<lparr>tq_queue := h\<rparr>))"

fun TimerQueue_dequeue_expired ::
  "nat \<Rightarrow> 'h timer_heap_ops \<Rightarrow> 'h timer_queue \<Rightarrow> nat \<Rightarrow> ('c \<Rightarrow> timer_queue_item \<Rightarrow> 'c outcome) \<Rightarrow> 'c \<Rightarrow> nat \<Rightarrow>
     (nat \<times> 'h timer_queue \<times> 'c) outcome option" where
  "TimerQueue_dequeue_expired 0 H tq now on_each c x = None"
| "TimerQueue_dequeue_expired (Suc fuel) H tq now on_each c x =
     (case Heap_peek H (tq_queue tq) of
        Some item \<Rightarrow>
          if ti_expires_at item \<le> now then
            (case Heap_pop H (tq_queue tq) of
               (None, h) \<Rightarrow> Some (Panic UnwrapFailed)
             | (Some item, h) \<Rightarrow>
                 (case on_each c item of
                    Panic p \<Rightarrow> Some (Panic p)
                  | Ret c' \<Rightarrow>
                      (case add_usize x 1 of
                         Panic p \<Rightarrow> Some (Panic p)
                       | Ret x' \<Rightarrow> TimerQueue_dequeue_expired fuel H (tq\<lparr>tq_queue := h\<rparr>) now on_each c' x')))
          else Some (Ret (x, tq, c))
      | None \<Rightarrow> Some (Ret (x, tq, c)))"

definition TimerQueue_next_expiration :: "'h timer_heap_ops \<Rightarrow> 'h timer_queue \<Rightarrow> nat option" where
  "TimerQueue_next_expiration H tq = map_option ti_expires_at (Heap_peek H (tq_queue tq))"

section \<open>Laws\<close>

text \<open>Running the callback over a list of items, with the panics it may raise.\<close>

fun each_out :: "('c \<Rightarrow> 'i \<Rightarrow> 'c outcome) \<Rightarrow> 'i list \<Rightarrow> 'c \<Rightarrow> 'c outcome" where
  "each_out f [] c = Ret c"
| "each_out f (x # xs) c = bind_out (f c x) (each_out f xs)"

locale timer_heap = bounded_heap H N_TIMERS TimerQueueItem_le hp_inv elems
  for H :: "'h timer_heap_ops" and hp_inv :: "'h \<Rightarrow> bool" and elems :: "'h \<Rightarrow> timer_queue_item multiset"
begin

lemma dequeue_expired:
  fixes tq :: "'h timer_queue"
  assumes "hp_inv (tq_queue tq)" "size (elems (tq_queue tq)) < fuel"
    and "x + size (elems (tq_queue tq)) \<le> usize_max"
  shows "\<exists>items (tq' :: 'h timer_queue). mset items + elems (tq_queue tq') = elems (tq_queue tq) \<and> hp_inv (tq_queue tq') \<and>
    sorted_wrt TimerQueueItem_le items \<and>
    (\<forall>i \<in> set items. ti_expires_at i \<le> now) \<and> (\<forall>i \<in># elems (tq_queue tq'). now < ti_expires_at i) \<and>
    TimerQueue_dequeue_expired fuel H tq now on_each c x =
      Some (bind_out (each_out on_each items c) (\<lambda>c'. Ret (x + length items, tq', c')))"
  using assms
proof (induction fuel arbitrary: tq c x)
  case (Suc fuel)
  from Suc.prems(1) show ?case
  proof (cases rule: pop_cases)
    case none
    with Suc.prems(1) show ?thesis by (intro exI [of _ "[]"] exI [of _ tq]) simp
  next
    case (some i h)
    show ?thesis
    proof (cases "ti_expires_at i \<le> now")
      case False
      with some(1,3) Suc.prems(1) show ?thesis
        by (intro exI [of _ "[]"] exI [of _ tq]) (auto simp: TimerQueueItem_le_def not_le intro: less_le_trans)
    next
      case True
      let ?tq = "tq\<lparr>tq_queue := h\<rparr>"
      have le: "TimerQueueItem_le i j" if "j \<in># elems h" for j using some(3,6) that by simp
      from Suc.prems some(5,6) have sz: "hp_inv (tq_queue ?tq)" "size (elems (tq_queue ?tq)) < fuel"
        "Suc x + size (elems (tq_queue ?tq)) \<le> usize_max" by simp_all
      show ?thesis
      proof (cases "on_each c i")
        case (Panic p)
        from Suc.IH [OF sz, of c] obtain items and tq' :: "'h timer_queue" where ih:
          "mset items + elems (tq_queue tq') = elems h" "hp_inv (tq_queue tq')"
          "sorted_wrt TimerQueueItem_le items" "\<forall>i \<in> set items. ti_expires_at i \<le> now"
          "\<forall>i \<in># elems (tq_queue tq'). now < ti_expires_at i" by (auto simp del: TimerQueue_dequeue_expired.simps)
        have "TimerQueueItem_le i j" if "j \<in> set items" for j
          using le [of j] ih(1) that by (metis set_mset_mset union_iff)
        with ih True Panic some show ?thesis
          by (intro exI [of _ "i # items"] exI [of _ tq']) auto
      next
        case (Ret c')
        from Suc.IH [OF sz, of c'] obtain items and tq' :: "'h timer_queue" where ih:
          "mset items + elems (tq_queue tq') = elems h" "hp_inv (tq_queue tq')"
          "sorted_wrt TimerQueueItem_le items" "\<forall>i \<in> set items. ti_expires_at i \<le> now"
          "\<forall>i \<in># elems (tq_queue tq'). now < ti_expires_at i"
          "TimerQueue_dequeue_expired fuel H ?tq now on_each c' (Suc x) =
            Some (bind_out (each_out on_each items c') (\<lambda>c'. Ret (Suc x + length items, tq', c')))" by (auto simp del: TimerQueue_dequeue_expired.simps)
        have "TimerQueueItem_le i j" if "j \<in> set items" for j
          using le [of j] ih(1) that by (metis set_mset_mset union_iff)
        moreover have "add_usize x 1 = Ret (Suc x)" using sz(3) by simp
        ultimately show ?thesis using ih True Ret some
          by (intro exI [of _ "i # items"] exI [of _ tq']) auto
      qed
    qed
  qed
qed simp

lemma next_expiration_None:
  "hp_inv (tq_queue tq) \<Longrightarrow> TimerQueue_next_expiration H tq = None \<longleftrightarrow> elems (tq_queue tq) = {#}"
  by (simp add: TimerQueue_next_expiration_def peek_None)

lemma next_expiration_Some:
  assumes "hp_inv (tq_queue tq)" "TimerQueue_next_expiration H tq = Some e"
  shows "(\<exists>i \<in># elems (tq_queue tq). ti_expires_at i = e) \<and> (\<forall>i \<in># elems (tq_queue tq). e \<le> ti_expires_at i)"
  using assms peek_Some by (auto simp: TimerQueue_next_expiration_def TimerQueueItem_le_def)

end

lemma sorted_timer_heap:
  "timer_heap (sorted_heap N_TIMERS ti_expires_at)
     (\<lambda>h. length h \<le> N_TIMERS \<and> sorted (map ti_expires_at h)) mset"
proof -
  have "TimerQueueItem_le = (\<lambda>x y. ti_expires_at x \<le> ti_expires_at y)"
    by (intro ext) (simp add: TimerQueueItem_le_def)
  then show ?thesis unfolding timer_heap_def 
    using sorted_heap_bounded [where N = N_TIMERS and key = "ti_expires_at :: timer_queue_item \<Rightarrow> nat"]
    by (simp only:)
qed

interpretation sorted_timers: timer_heap "sorted_heap N_TIMERS ti_expires_at"
    "\<lambda>h. length h \<le> N_TIMERS \<and> sorted (map ti_expires_at h)" mset
  by (rule sorted_timer_heap)

text \<open>
  The timer queue fires exactly the expired timers, in the order of their deadlines: with fuel
  above the number of timers, \<open>dequeue_expired\<close> hands to its callback every item whose deadline
  is reached, earliest first, keeps all others, and returns how many it handed out; it panics only if
  the callback does.
\<close>

theorem dequeue_expired_exact:
  fixes tq :: "'h timer_queue"
  assumes "timer_heap H hp_inv elems" "hp_inv (tq_queue tq)" "size (elems (tq_queue tq)) < fuel"
  shows "\<exists>items (tq' :: 'h timer_queue). mset items + elems (tq_queue tq') = elems (tq_queue tq) \<and> hp_inv (tq_queue tq') \<and>
    sorted_wrt TimerQueueItem_le items \<and>
    (\<forall>i \<in> set items. ti_expires_at i \<le> now) \<and> (\<forall>i \<in># elems (tq_queue tq'). now < ti_expires_at i) \<and>
    TimerQueue_dequeue_expired fuel H tq now on_each c 0 =
      Some (bind_out (each_out on_each items c) (\<lambda>c'. Ret (length items, tq', c')))"
proof -
  have "size (elems (tq_queue tq)) \<le> N_TIMERS"
    by (rule bounded_heap.bounded [OF assms(1) [unfolded timer_heap_def] assms(2)])
  then have "0 + size (elems (tq_queue tq)) \<le> usize_max" by (simp add: N_TIMERS_def usize_max_def)
  from timer_heap.dequeue_expired [OF assms this, of now on_each c] show ?thesis by (simp only: add_0)
qed

theorem dequeue_expired_exact_witness:
  "\<exists>items (tq' :: timer_queue_item list timer_queue). mset items + mset (tq_queue tq') =
      mset [\<lparr>ti_expires_at = 3, ti_waker = RawWaker 1 VTABLE\<rparr>, \<lparr>ti_expires_at = 9, ti_waker = RawWaker 2 VTABLE\<rparr>] \<and>
    (\<forall>i \<in> set items. ti_expires_at i \<le> 5) \<and> (\<forall>i \<in> set (tq_queue tq'). 5 < ti_expires_at i)"
proof -
  let ?q = "[\<lparr>ti_expires_at = 3, ti_waker = RawWaker 1 VTABLE\<rparr>, \<lparr>ti_expires_at = 9, ti_waker = RawWaker 2 VTABLE\<rparr>]"
  let ?tq = "\<lparr>tq_queue = ?q\<rparr>"
  have "length (tq_queue ?tq) \<le> N_TIMERS \<and> sorted (map ti_expires_at (tq_queue ?tq))"
    by (simp add: N_TIMERS_def)
  from dequeue_expired_exact [OF sorted_timer_heap this, of 3 5 "\<lambda>c i. Ret (c @ [i])" "[]"]
  show ?thesis by (simp del: TimerQueue_dequeue_expired.simps sorted_wrt.simps) blast
qed

end
