(* ===== verification/Pubsub.thy ===== *)
theory Pubsub
  imports Timer_Queue Waitqueue
begin

text \<open>
  The publish/subscribe channel of \<open>src/src/sync/pubsub\<close>.  Every message has an id; a subscriber keeps the
  id of the next message it will read.  The queue holds the last messages, each with a counter of
  the subscribers that have yet to read it; a message that everybody has read leaves at the front.
  A publisher waits while the queue is full; an immediate publisher drops the oldest message
  instead, and the subscribers that missed it are told how far they lag.

  The channel's deque and the vectors of its two wait queues are parameters (\<open>pubsub_libs\<close>).
\<close>

section \<open>State\<close>

datatype 'a wait_result = Lagged nat | Message 'a

datatype pubsub_error = MaximumSubscribersReached | MaximumPublishersReached

record ('q, 'v, 'w) pubsub_state =
  pss_queue :: 'q
  pss_next_message_id :: nat
  pss_subscriber_wakers :: "'v multi_waker"
  pss_publisher_wakers :: "'w multi_waker"
  pss_subscriber_count :: nat
  pss_publisher_count :: nat

record ('q, 'v, 'w, 'a) pubsub_libs =
  lib_queue :: "('q, 'a \<times> nat) deque_ops"
  lib_subs :: "('v, waker) vec_ops"
  lib_pubs :: "('w, waker) vec_ops"

text \<open>\<open>x as usize\<close> of a \<open>u64\<close> keeps the low 32 bits.\<close>

definition as_usize :: "nat \<Rightarrow> nat" where
  "as_usize n = n mod (usize_max + 1)"

section \<open>\<open>PubSubState\<close>\<close>

definition PubSubState_new :: "('q, 'v, 'w, 'a) pubsub_libs \<Rightarrow> ('q, 'v, 'w) pubsub_state" where
  "PubSubState_new L = \<lparr>pss_queue = Deque_new (lib_queue L), pss_next_message_id = 0,
     pss_subscriber_wakers = MultiWaker_new (lib_subs L), pss_publisher_wakers = MultiWaker_new (lib_pubs L),
     pss_subscriber_count = 0, pss_publisher_count = 0\<rparr>"

definition PubSubState_try_publish ::
  "('q, 'v, 'w, 'a) pubsub_libs \<Rightarrow> ('q, 'v, 'w) pubsub_state \<Rightarrow> 'a \<Rightarrow>
     ((unit, 'a) result \<times> ('q, 'v, 'w) pubsub_state \<times> waker list) outcome" where
  "PubSubState_try_publish L s message =
     (if pss_subscriber_count s = 0 then Ret (Ok (), s, [])
      else if Deque_is_full (lib_queue L) (pss_queue s) then Ret (Err message, s, [])
      else
        let (r, q) = Deque_push_back (lib_queue L) (pss_queue s) (message, pss_subscriber_count s)
        in bind_out (unwrap_result r) (\<lambda>_.
           bind_out (add_u64 (pss_next_message_id s) 1) (\<lambda>n.
             let (sw, ws) = MultiWaker_wake (lib_subs L) (pss_subscriber_wakers s)
             in Ret (Ok (), s\<lparr>pss_queue := q, pss_next_message_id := n, pss_subscriber_wakers := sw\<rparr>, ws))))"

definition PubSubState_publish_immediate ::
  "('q, 'v, 'w, 'a) pubsub_libs \<Rightarrow> ('q, 'v, 'w) pubsub_state \<Rightarrow> 'a \<Rightarrow>
     (('q, 'v, 'w) pubsub_state \<times> waker list) outcome" where
  "PubSubState_publish_immediate L s message =
     (let s = (if Deque_is_full (lib_queue L) (pss_queue s)
               then s\<lparr>pss_queue := snd (Deque_pop_front (lib_queue L) (pss_queue s))\<rparr> else s)
      in bind_out (PubSubState_try_publish L s message) (\<lambda>(r, s, ws).
           bind_out (unwrap_result r) (\<lambda>_. Ret (s, ws))))"

definition PubSubState_get_message ::
  "('q, 'v, 'w, 'a) pubsub_libs \<Rightarrow> ('q, 'v, 'w) pubsub_state \<Rightarrow> nat \<Rightarrow>
     ('a wait_result option \<times> ('q, 'v, 'w) pubsub_state \<times> waker list) outcome" where
  "PubSubState_get_message L s message_id =
     bind_out (sub_u64 (pss_next_message_id s) (Deque_len (lib_queue L) (pss_queue s))) (\<lambda>start_id.
       if message_id < start_id then Ret (Some (Lagged (start_id - message_id)), s, [])
       else
         let current_message_index = as_usize (message_id - start_id)
         in if Deque_len (lib_queue L) (pss_queue s) \<le> current_message_index then Ret (None, s, [])
            else
              bind_out (unwrap_option (Deque_nth (lib_queue L) (pss_queue s) current_message_index)) (\<lambda>(m, c).
              bind_out (sub_usize c 1) (\<lambda>c.
                let q = Deque_set_nth (lib_queue L) (pss_queue s) current_message_index (m, c)
                in if current_message_index = 0 \<and> c = 0 then
                     (case Deque_pop_front (lib_queue L) q of
                        (None, q) \<Rightarrow> Panic UnwrapFailed
                      | (Some (message, _), q) \<Rightarrow>
                          (let (pw, ws) = MultiWaker_wake (lib_pubs L) (pss_publisher_wakers s)
                           in Ret (Some (Message message), s\<lparr>pss_queue := q, pss_publisher_wakers := pw\<rparr>, ws)))
                   else Ret (Some (Message m), s\<lparr>pss_queue := q\<rparr>, []))))"

text \<open>The two loops of \<open>unregister_subscriber\<close>: the \<open>for_each\<close> and the \<open>while let\<close>.\<close>

definition decrement_counter :: "('q, 'a \<times> nat) deque_ops \<Rightarrow> 'q \<Rightarrow> nat \<Rightarrow> 'q outcome" where
  "decrement_counter D q i =
     bind_out (unwrap_option (Deque_nth D q i)) (\<lambda>(m, c).
       bind_out (sub_usize c 1) (\<lambda>c. Ret (Deque_set_nth D q i (m, c))))"

fun pop_read_messages :: "nat \<Rightarrow> ('q, 'a \<times> nat) deque_ops \<Rightarrow> 'q \<Rightarrow> bool \<Rightarrow> (bool \<times> 'q) outcome option" where
  "pop_read_messages 0 D q wake_publishers = None"
| "pop_read_messages (Suc fuel) D q wake_publishers =
     (case Deque_front D q of
        None \<Rightarrow> Some (Ret (wake_publishers, q))
      | Some (_, c) \<Rightarrow>
          if c = 0 then
            (case Deque_pop_front D q of
               (None, _) \<Rightarrow> Some (Panic UnwrapFailed)
             | (Some _, q) \<Rightarrow> pop_read_messages fuel D q True)
          else Some (Ret (wake_publishers, q)))"

definition PubSubState_unregister_subscriber ::
  "('q, 'v, 'w, 'a) pubsub_libs \<Rightarrow> ('q, 'v, 'w) pubsub_state \<Rightarrow> nat \<Rightarrow>
     (('q, 'v, 'w) pubsub_state \<times> waker list) outcome option" where
  "PubSubState_unregister_subscriber L s subscriber_next_message_id =
     bind_fuel (Some (sub_usize (pss_subscriber_count s) 1)) (\<lambda>c.
       let s = s\<lparr>pss_subscriber_count := c\<rparr>;
           len = Deque_len (lib_queue L) (pss_queue s)
       in bind_fuel (Some (sub_u64 (pss_next_message_id s) len)) (\<lambda>start_id.
            if start_id \<le> subscriber_next_message_id then
              bind_fuel (Some (each_out (decrement_counter (lib_queue L))
                  [as_usize (subscriber_next_message_id - start_id)..<len] (pss_queue s))) (\<lambda>q.
              bind_fuel (pop_read_messages (Suc len) (lib_queue L) q False) (\<lambda>(wake_publishers, q).
                let (pw, ws) = (if wake_publishers then MultiWaker_wake (lib_pubs L) (pss_publisher_wakers s)
                                else (pss_publisher_wakers s, []))
                in Some (Ret (s\<lparr>pss_queue := q, pss_publisher_wakers := pw\<rparr>, ws))))
            else Some (Ret (s, []))))"

definition PubSubState_unregister_publisher ::
  "('q, 'v, 'w) pubsub_state \<Rightarrow> ('q, 'v, 'w) pubsub_state outcome" where
  "PubSubState_unregister_publisher s =
     bind_out (sub_usize (pss_publisher_count s) 1) (\<lambda>c. Ret (s\<lparr>pss_publisher_count := c\<rparr>))"

section \<open>\<open>PubSubChannel\<close>\<close>

record sub =
  sub_next_message_id :: nat

definition Sub_new :: "nat \<Rightarrow> sub" where
  "Sub_new next_message_id = \<lparr>sub_next_message_id = next_message_id\<rparr>"

definition PubSubChannel_subscriber ::
  "nat \<Rightarrow> ('q, 'v, 'w) pubsub_state \<Rightarrow> ((sub, pubsub_error) result \<times> ('q, 'v, 'w) pubsub_state) outcome" where
  "PubSubChannel_subscriber SUBS s =
     (if SUBS \<le> pss_subscriber_count s then Ret (Err MaximumSubscribersReached, s)
      else bind_out (add_usize (pss_subscriber_count s) 1) (\<lambda>c.
        Ret (Ok (Sub_new (pss_next_message_id s)), s\<lparr>pss_subscriber_count := c\<rparr>)))"

definition PubSubChannel_publisher ::
  "nat \<Rightarrow> ('q, 'v, 'w) pubsub_state \<Rightarrow> ((unit, pubsub_error) result \<times> ('q, 'v, 'w) pubsub_state) outcome" where
  "PubSubChannel_publisher PUBS s =
     (if PUBS \<le> pss_publisher_count s then Ret (Err MaximumPublishersReached, s)
      else bind_out (add_usize (pss_publisher_count s) 1) (\<lambda>c. Ret (Ok (), s\<lparr>pss_publisher_count := c\<rparr>)))"

definition PubSubChannel_get_message_with_context ::
  "('q, 'v, 'w, 'a) pubsub_libs \<Rightarrow> ('q, 'v, 'w) pubsub_state \<Rightarrow> nat \<Rightarrow> waker option \<Rightarrow>
     ('a wait_result poll \<times> nat \<times> ('q, 'v, 'w) pubsub_state \<times> waker list) outcome" where
  "PubSubChannel_get_message_with_context L s next_message_id cx =
     bind_out (PubSubState_get_message L s next_message_id) (\<lambda>(r, s, ws).
       case r of
         Some (Message message) \<Rightarrow>
           bind_out (add_u64 next_message_id 1) (\<lambda>n. Ret (Ready (Message message), n, s, ws))
       | None \<Rightarrow>
           (case cx of
              Some w \<Rightarrow>
                bind_out (MultiWaker_register (lib_subs L) (pss_subscriber_wakers s) w) (\<lambda>(sw, displaced).
                  Ret (Pending, next_message_id, s\<lparr>pss_subscriber_wakers := sw\<rparr>, ws @ displaced))
            | None \<Rightarrow> Ret (Pending, next_message_id, s, ws))
       | Some (Lagged amount) \<Rightarrow>
           bind_out (add_u64 next_message_id amount) (\<lambda>n. Ret (Ready (Lagged amount), n, s, ws)))"

definition PubSubChannel_available :: "('q, 'v, 'w) pubsub_state \<Rightarrow> nat \<Rightarrow> nat outcome" where
  "PubSubChannel_available s next_message_id = sub_u64 (pss_next_message_id s) next_message_id"

definition PubSubChannel_publish_with_context ::
  "('q, 'v, 'w, 'a) pubsub_libs \<Rightarrow> ('q, 'v, 'w) pubsub_state \<Rightarrow> 'a \<Rightarrow> waker option \<Rightarrow>
     ((unit, 'a) result \<times> ('q, 'v, 'w) pubsub_state \<times> waker list) outcome" where
  "PubSubChannel_publish_with_context L s message cx =
     bind_out (PubSubState_try_publish L s message) (\<lambda>(r, s, ws).
       case r of
         Ok _ \<Rightarrow> Ret (Ok (), s, ws)
       | Err message \<Rightarrow>
           (case cx of
              Some w \<Rightarrow>
                bind_out (MultiWaker_register (lib_pubs L) (pss_publisher_wakers s) w) (\<lambda>(pw, displaced).
                  Ret (Err message, s\<lparr>pss_publisher_wakers := pw\<rparr>, ws @ displaced))
            | None \<Rightarrow> Ret (Err message, s, ws)))"

definition PubSubChannel_space :: "('q, 'v, 'w, 'a) pubsub_libs \<Rightarrow> ('q, 'v, 'w) pubsub_state \<Rightarrow> nat outcome" where
  "PubSubChannel_space L s =
     sub_usize (Deque_capacity (lib_queue L) (pss_queue s)) (Deque_len (lib_queue L) (pss_queue s))"

definition PubSubChannel_publish_immediate ::
  "('q, 'v, 'w, 'a) pubsub_libs \<Rightarrow> ('q, 'v, 'w) pubsub_state \<Rightarrow> 'a \<Rightarrow>
     (('q, 'v, 'w) pubsub_state \<times> waker list) outcome" where
  "PubSubChannel_publish_immediate L s message = PubSubState_publish_immediate L s message"

definition PubSubChannel_unregister_subscriber ::
  "('q, 'v, 'w, 'a) pubsub_libs \<Rightarrow> ('q, 'v, 'w) pubsub_state \<Rightarrow> nat \<Rightarrow>
     (('q, 'v, 'w) pubsub_state \<times> waker list) outcome option" where
  "PubSubChannel_unregister_subscriber L s subscriber_next_message_id =
     PubSubState_unregister_subscriber L s subscriber_next_message_id"

definition PubSubChannel_unregister_publisher ::
  "('q, 'v, 'w) pubsub_state \<Rightarrow> ('q, 'v, 'w) pubsub_state outcome" where
  "PubSubChannel_unregister_publisher s = PubSubState_unregister_publisher s"

text \<open>
  The handles, with and without dynamic dispatch, are the subject of \<open>Pubsub_Handles\<close>.
\<close>

section \<open>Subscribers\<close>

definition Sub_try_next_message ::
  "('q, 'v, 'w, 'a) pubsub_libs \<Rightarrow> sub \<Rightarrow> ('q, 'v, 'w) pubsub_state \<Rightarrow>
     ('a wait_result option \<times> sub \<times> ('q, 'v, 'w) pubsub_state \<times> waker list) outcome" where
  "Sub_try_next_message L this s =
     bind_out (PubSubChannel_get_message_with_context L s (sub_next_message_id this) None) (\<lambda>(r, n, s, ws).
       let this = this\<lparr>sub_next_message_id := n\<rparr>
       in case r of Ready result \<Rightarrow> Ret (Some result, this, s, ws) | Pending \<Rightarrow> Ret (None, this, s, ws))"

text \<open>\<open>try_next_message_pure\<close> and \<open>next_message_pure\<close> loop while the subscriber lags.\<close>

fun Sub_try_next_message_pure ::
  "nat \<Rightarrow> ('q, 'v, 'w, 'a) pubsub_libs \<Rightarrow> sub \<Rightarrow> ('q, 'v, 'w) pubsub_state \<Rightarrow>
     ('a option \<times> sub \<times> ('q, 'v, 'w) pubsub_state \<times> waker list) outcome option" where
  "Sub_try_next_message_pure 0 L this s = None"
| "Sub_try_next_message_pure (Suc fuel) L this s =
     bind_fuel (Some (Sub_try_next_message L this s)) (\<lambda>(r, this, s, ws).
       case r of
         Some (Lagged _) \<Rightarrow>
           bind_fuel (Sub_try_next_message_pure fuel L this s) (\<lambda>(r, this, s, ws').
             Some (Ret (r, this, s, ws @ ws')))
       | Some (Message message) \<Rightarrow> Some (Ret (Some message, this, s, ws))
       | None \<Rightarrow> Some (Ret (None, this, s, ws)))"

definition SubscriberWaitFuture_poll ::
  "('q, 'v, 'w, 'a) pubsub_libs \<Rightarrow> sub \<Rightarrow> ('q, 'v, 'w) pubsub_state \<Rightarrow> waker \<Rightarrow>
     ('a wait_result poll \<times> sub \<times> ('q, 'v, 'w) pubsub_state \<times> waker list) outcome" where
  "SubscriberWaitFuture_poll L this s cx =
     bind_out (PubSubChannel_get_message_with_context L s (sub_next_message_id this) (Some cx)) (\<lambda>(r, n, s, ws).
       Ret (r, this\<lparr>sub_next_message_id := n\<rparr>, s, ws))"

fun Sub_next_message_pure_poll ::
  "nat \<Rightarrow> ('q, 'v, 'w, 'a) pubsub_libs \<Rightarrow> sub \<Rightarrow> ('q, 'v, 'w) pubsub_state \<Rightarrow> waker \<Rightarrow>
     ('a poll \<times> sub \<times> ('q, 'v, 'w) pubsub_state \<times> waker list) outcome option" where
  "Sub_next_message_pure_poll 0 L this s cx = None"
| "Sub_next_message_pure_poll (Suc fuel) L this s cx =
     bind_fuel (Some (SubscriberWaitFuture_poll L this s cx)) (\<lambda>(r, this, s, ws).
       case r of
         Ready (Lagged _) \<Rightarrow>
           bind_fuel (Sub_next_message_pure_poll fuel L this s cx) (\<lambda>(r, this, s, ws').
             Some (Ret (r, this, s, ws @ ws')))
       | Ready (Message message) \<Rightarrow> Some (Ret (Ready message, this, s, ws))
       | Pending \<Rightarrow> Some (Ret (Pending, this, s, ws)))"

text \<open>The \<open>Stream\<close> implementation; a lagging poll wakes its own task.\<close>

definition Sub_poll_next ::
  "('q, 'v, 'w, 'a) pubsub_libs \<Rightarrow> sub \<Rightarrow> ('q, 'v, 'w) pubsub_state \<Rightarrow> waker \<Rightarrow>
     ('a option poll \<times> sub \<times> ('q, 'v, 'w) pubsub_state \<times> waker list) outcome" where
  "Sub_poll_next L this s cx =
     bind_out (PubSubChannel_get_message_with_context L s (sub_next_message_id this) (Some cx)) (\<lambda>(r, n, s, ws).
       let this = this\<lparr>sub_next_message_id := n\<rparr>
       in case r of
            Ready (Message message) \<Rightarrow> Ret (Ready (Some message), this, s, ws)
          | Ready (Lagged _) \<Rightarrow> Ret (Pending, this, s, ws @ [cx])
          | Pending \<Rightarrow> Ret (Pending, this, s, ws))"

definition Sub_available :: "sub \<Rightarrow> ('q, 'v, 'w) pubsub_state \<Rightarrow> nat outcome" where
  "Sub_available this s = PubSubChannel_available s (sub_next_message_id this)"

definition Sub_drop ::
  "('q, 'v, 'w, 'a) pubsub_libs \<Rightarrow> sub \<Rightarrow> ('q, 'v, 'w) pubsub_state \<Rightarrow>
     (('q, 'v, 'w) pubsub_state \<times> waker list) outcome option" where
  "Sub_drop L this s = PubSubChannel_unregister_subscriber L s (sub_next_message_id this)"

section \<open>Publishers\<close>

definition Pub_publish_immediate ::
  "('q, 'v, 'w, 'a) pubsub_libs \<Rightarrow> ('q, 'v, 'w) pubsub_state \<Rightarrow> 'a \<Rightarrow>
     (('q, 'v, 'w) pubsub_state \<times> waker list) outcome" where
  "Pub_publish_immediate L s message = PubSubChannel_publish_immediate L s message"

definition Pub_try_publish ::
  "('q, 'v, 'w, 'a) pubsub_libs \<Rightarrow> ('q, 'v, 'w) pubsub_state \<Rightarrow> 'a \<Rightarrow>
     ((unit, 'a) result \<times> ('q, 'v, 'w) pubsub_state \<times> waker list) outcome" where
  "Pub_try_publish L s message = PubSubChannel_publish_with_context L s message None"

definition Pub_drop :: "('q, 'v, 'w) pubsub_state \<Rightarrow> ('q, 'v, 'w) pubsub_state outcome" where
  "Pub_drop s = PubSubChannel_unregister_publisher s"

definition Pub_space :: "('q, 'v, 'w, 'a) pubsub_libs \<Rightarrow> ('q, 'v, 'w) pubsub_state \<Rightarrow> nat outcome" where
  "Pub_space L s = PubSubChannel_space L s"

definition PublisherWaitFuture_poll ::
  "('q, 'v, 'w, 'a) pubsub_libs \<Rightarrow> 'a option \<Rightarrow> ('q, 'v, 'w) pubsub_state \<Rightarrow> waker \<Rightarrow>
     (unit poll \<times> 'a option \<times> ('q, 'v, 'w) pubsub_state \<times> waker list) outcome" where
  "PublisherWaitFuture_poll L message s cx =
     bind_out (unwrap_option message) (\<lambda>message.
     bind_out (PubSubChannel_publish_with_context L s message (Some cx)) (\<lambda>(r, s, ws).
       case r of
         Ok _ \<Rightarrow> Ret (Ready (), None, s, ws)
       | Err message \<Rightarrow> Ret (Pending, Some message, s, ws)))"

section \<open>Runs\<close>

text \<open>
  A run of the channel: the subscribers and publishers that are alive, and what the run has done so
  far.  \<open>pr_published\<close> are the messages that got an id, in order; \<open>pr_from s\<close> is the id at which subscriber
  \<open>s\<close> started and \<open>pr_log s\<close> what it has been told; \<open>pr_asleep\<close> are the subscribers that sleep in a poll, with their
  wakers, and \<open>pr_waiting\<close> the wakers of the publishers that sleep; \<open>pr_lagged_drop\<close> tells whether a subscriber was
  dropped while it lagged, \<open>pr_immediate\<close> whether there was an immediate publish.
\<close>

datatype 'a pubsub_op =
    OpSubscribe nat
  | OpRead nat "waker option"
  | OpUnsubscribe nat
  | OpNewPublisher
  | OpDropPublisher
  | OpPublish 'a "waker option"
  | OpPublishImmediate 'a

record ('q, 'v, 'w, 'a) pubsub_run =
  pr_state :: "('q, 'v, 'w) pubsub_state"
  pr_subs :: "nat \<Rightarrow> sub option"
  pr_from :: "nat \<Rightarrow> nat"
  pr_log :: "nat \<Rightarrow> 'a wait_result list"
  pr_published :: "'a list"
  pr_publishers :: nat
  pr_asleep :: "nat \<Rightarrow> waker option"
  pr_waiting :: "waker set"
  pr_lagged_drop :: bool
  pr_immediate :: bool

definition pubsub_run_init :: "('q, 'v, 'w, 'a) pubsub_libs \<Rightarrow> ('q, 'v, 'w, 'a) pubsub_run" where
  "pubsub_run_init L = \<lparr>pr_state = PubSubState_new L, pr_subs = Map.empty, pr_from = (\<lambda>_. 0), pr_log = (\<lambda>_. []),
     pr_published = [], pr_publishers = 0, pr_asleep = Map.empty, pr_waiting = {}, pr_lagged_drop = False,
     pr_immediate = False\<rparr>"

definition wake_sleepers :: "waker list \<Rightarrow> (nat \<Rightarrow> waker option) \<Rightarrow> nat \<Rightarrow> waker option" where
  "wake_sleepers ws m = (\<lambda>i. case m i of Some w \<Rightarrow> if w \<in> set ws then None else Some w | None \<Rightarrow> None)"

definition pubsub_step ::
  "('q, 'v, 'w) pubsub_state \<Rightarrow> waker list \<Rightarrow> ('q, 'v, 'w, 'a) pubsub_run \<Rightarrow> ('q, 'v, 'w, 'a) pubsub_run" where
  "pubsub_step s ws r =
     r\<lparr>pr_state := s, pr_asleep := wake_sleepers ws (pr_asleep r), pr_waiting := pr_waiting r - set ws\<rparr>"

definition note_published ::
  "'a \<Rightarrow> ('q, 'v, 'w) pubsub_state \<Rightarrow> ('q, 'v, 'w, 'a) pubsub_run \<Rightarrow> ('q, 'v, 'w, 'a) pubsub_run" where
  "note_published m s r =
     (if pss_next_message_id s = pss_next_message_id (pr_state r) then r
      else r\<lparr>pr_published := pr_published r @ [m]\<rparr>)"

fun read_result :: "'a wait_result option \<Rightarrow> 'a wait_result list" where
  "read_result None = []"
| "read_result (Some x) = [x]"

definition pubsub_read ::
  "('q, 'v, 'w, 'a) pubsub_libs \<Rightarrow> sub \<Rightarrow> ('q, 'v, 'w) pubsub_state \<Rightarrow> waker option \<Rightarrow>
     ('a wait_result option \<times> sub \<times> ('q, 'v, 'w) pubsub_state \<times> waker list) outcome" where
  "pubsub_read L x s cx =
     (case cx of
        None \<Rightarrow> Sub_try_next_message L x s
      | Some w \<Rightarrow>
          bind_out (SubscriberWaitFuture_poll L x s w) (\<lambda>(p, x, s, ws).
            Ret (case p of Ready v \<Rightarrow> Some v | Pending \<Rightarrow> None, x, s, ws)))"

definition pubsub_publish ::
  "('q, 'v, 'w, 'a) pubsub_libs \<Rightarrow> ('q, 'v, 'w) pubsub_state \<Rightarrow> 'a \<Rightarrow> waker option \<Rightarrow>
     (bool \<times> ('q, 'v, 'w) pubsub_state \<times> waker list) outcome" where
  "pubsub_publish L s m cx =
     (case cx of
        None \<Rightarrow> bind_out (Pub_try_publish L s m) (\<lambda>(r, s, ws). Ret (r = Ok (), s, ws))
      | Some w \<Rightarrow> bind_out (PublisherWaitFuture_poll L (Some m) s w) (\<lambda>(p, _, s, ws). Ret (p = Ready (), s, ws)))"

fun pubsub_exec ::
  "('q, 'v, 'w, 'a) pubsub_libs \<Rightarrow> nat \<Rightarrow> nat \<Rightarrow> ('q, 'v, 'w, 'a) pubsub_run \<Rightarrow> 'a pubsub_op \<Rightarrow>
     ('q, 'v, 'w, 'a) pubsub_run outcome option" where
  "pubsub_exec L SUBS PUBS r (OpSubscribe i) =
     (if pr_subs r i \<noteq> None then Some (Ret r)
      else Some (bind_out (PubSubChannel_subscriber SUBS (pr_state r)) (\<lambda>(x, s).
        case x of
          Err _ \<Rightarrow> Ret (r\<lparr>pr_state := s\<rparr>)
        | Ok x \<Rightarrow> Ret (r\<lparr>pr_state := s, pr_subs := (pr_subs r)(i \<mapsto> x),
            pr_from := (pr_from r)(i := sub_next_message_id x), pr_log := (pr_log r)(i := []),
            pr_asleep := (pr_asleep r)(i := None)\<rparr>))))"
| "pubsub_exec L SUBS PUBS r (OpRead i cx) =
     (case pr_subs r i of
        None \<Rightarrow> Some (Ret r)
      | Some x \<Rightarrow>
          Some (bind_out (pubsub_read L x (pr_state r) cx) (\<lambda>(v, x, s, ws).
            let r = pubsub_step s ws (r\<lparr>pr_asleep := (pr_asleep r)(i := None)\<rparr>)
            in Ret (r\<lparr>pr_subs := (pr_subs r)(i \<mapsto> x), pr_log := (pr_log r)(i := pr_log r i @ read_result v),
                 pr_asleep := (pr_asleep r)(i := if v = None then cx else None)\<rparr>))))"
| "pubsub_exec L SUBS PUBS r (OpUnsubscribe i) =
     (case pr_subs r i of
        None \<Rightarrow> Some (Ret r)
      | Some x \<Rightarrow>
          bind_fuel (Sub_drop L x (pr_state r)) (\<lambda>(s, ws).
            let lagged = (sub_next_message_id x <
              pss_next_message_id (pr_state r) - Deque_len (lib_queue L) (pss_queue (pr_state r)))
            in Some (Ret (pubsub_step s ws (r\<lparr>pr_subs := (pr_subs r)(i := None),
                 pr_asleep := (pr_asleep r)(i := None), pr_lagged_drop := pr_lagged_drop r \<or> lagged\<rparr>)))))"
| "pubsub_exec L SUBS PUBS r OpNewPublisher =
     Some (bind_out (PubSubChannel_publisher PUBS (pr_state r)) (\<lambda>(x, s).
       case x of
         Err _ \<Rightarrow> Ret (r\<lparr>pr_state := s\<rparr>)
       | Ok _ \<Rightarrow> Ret (r\<lparr>pr_state := s, pr_publishers := Suc (pr_publishers r)\<rparr>)))"
| "pubsub_exec L SUBS PUBS r OpDropPublisher =
     (if pr_publishers r = 0 then Some (Ret r)
      else Some (bind_out (Pub_drop (pr_state r)) (\<lambda>s.
        Ret (r\<lparr>pr_state := s, pr_publishers := pr_publishers r - 1\<rparr>))))"
| "pubsub_exec L SUBS PUBS r (OpPublish m cx) =
     Some (bind_out (pubsub_publish L (pr_state r) m cx) (\<lambda>(done, s, ws).
       let r = pubsub_step s ws (note_published m s r)
       in Ret (r\<lparr>pr_waiting := (if done then pr_waiting r - set_option cx else pr_waiting r \<union> set_option cx)\<rparr>)))"
| "pubsub_exec L SUBS PUBS r (OpPublishImmediate m) =
     Some (bind_out (Pub_publish_immediate L (pr_state r) m) (\<lambda>(s, ws).
       Ret ((pubsub_step s ws (note_published m s r))\<lparr>pr_immediate := True\<rparr>)))"

fun pubsub_exec_all ::
  "('q, 'v, 'w, 'a) pubsub_libs \<Rightarrow> nat \<Rightarrow> nat \<Rightarrow> 'a pubsub_op list \<Rightarrow> ('q, 'v, 'w, 'a) pubsub_run \<Rightarrow>
     ('q, 'v, 'w, 'a) pubsub_run outcome option" where
  "pubsub_exec_all L SUBS PUBS [] r = Some (Ret r)"
| "pubsub_exec_all L SUBS PUBS (x # ops) r =
     bind_fuel (pubsub_exec L SUBS PUBS r x) (pubsub_exec_all L SUBS PUBS ops)"

section \<open>The laws of the containers\<close>

lemma as_usize_id [simp]: "n \<le> usize_max \<Longrightarrow> as_usize n = n"
  by (simp add: as_usize_def)

locale pubsub_laws =
  dq: bounded_deque "lib_queue L" CAP dq_inv items +
  sv: waker_vec "lib_subs L" SUBS sv_inv +
  pv: waker_vec "lib_pubs L" PUBS pv_inv
  for L :: "('q, 'v, 'w, 'a) pubsub_libs" and CAP SUBS PUBS :: nat and dq_inv :: "'q \<Rightarrow> bool"
    and items :: "'q \<Rightarrow> ('a \<times> nat) list" and sv_inv :: "'v \<Rightarrow> bool" and pv_inv :: "'w \<Rightarrow> bool" +
  assumes cap: "0 < CAP" "CAP \<le> usize_max" and slots: "SUBS \<le> usize_max" "PUBS \<le> usize_max"
begin

definition state_ok :: "('q, 'v, 'w) pubsub_state \<Rightarrow> bool" where
  "state_ok s \<longleftrightarrow> dq_inv (pss_queue s) \<and> sv_inv (mw_wakers (pss_subscriber_wakers s)) \<and>
     pv_inv (mw_wakers (pss_publisher_wakers s)) \<and> length (items (pss_queue s)) \<le> pss_next_message_id s"

definition queued :: "('q, 'v, 'w) pubsub_state \<Rightarrow> ('a \<times> nat) list" where
  "queued s = items (pss_queue s)"

definition start_id :: "('q, 'v, 'w) pubsub_state \<Rightarrow> nat" where
  "start_id s = pss_next_message_id s - length (queued s)"

lemma count_frame [simp]:
  "queued (s\<lparr>pss_subscriber_count := c\<rparr>) = queued s" "start_id (s\<lparr>pss_subscriber_count := c\<rparr>) = start_id s"
  "state_ok (s\<lparr>pss_subscriber_count := c\<rparr>) = state_ok s"
  "queued (s\<lparr>pss_publisher_count := c\<rparr>) = queued s" "start_id (s\<lparr>pss_publisher_count := c\<rparr>) = start_id s"
  "state_ok (s\<lparr>pss_publisher_count := c\<rparr>) = state_ok s"
  by (simp_all add: queued_def start_id_def state_ok_def)

lemma try_publish_cases:
  assumes ok: "state_ok s" and n: "pss_next_message_id s < u64_max"
  obtains (none) "pss_subscriber_count s = 0" "PubSubState_try_publish L s m = Ret (Ok (), s, [])"
    | (full) "0 < pss_subscriber_count s" "length (queued s) = CAP"
      "PubSubState_try_publish L s m = Ret (Err m, s, [])"
    | (pushed) q sw ws where "0 < pss_subscriber_count s" "length (queued s) < CAP" "dq_inv q"
      "items q = queued s @ [(m, pss_subscriber_count s)]" "sv_inv (mw_wakers sw)"
      "mw_registered (lib_subs L) (pss_subscriber_wakers s) \<subseteq> set ws"
      "PubSubState_try_publish L s m = Ret (Ok (), s\<lparr>pss_queue := q,
         pss_next_message_id := Suc (pss_next_message_id s), pss_subscriber_wakers := sw\<rparr>, ws)"
proof (cases "pss_subscriber_count s = 0")
  case True
  then show ?thesis by (intro none) (simp_all add: PubSubState_try_publish_def)
next
  case False
  from ok have inv: "dq_inv (pss_queue s)" and svi: "sv_inv (mw_wakers (pss_subscriber_wakers s))"
    by (simp_all add: state_ok_def)
  obtain sw ws where w: "MultiWaker_wake (lib_subs L) (pss_subscriber_wakers s) = (sw, ws)" by fastforce
  from inv show ?thesis
  proof (cases rule: dq.push_back_cases [where x = "(m, pss_subscriber_count s)"])
    case (ok q)
    with False n w inv show ?thesis
      using sv.mw.wake_inv [OF svi w] sv.mw.wake_all [OF svi w]
      by (intro pushed [of q sw ws]) (auto simp: PubSubState_try_publish_def queued_def)
  next
    case (full q)
    with False inv show ?thesis
      by (intro that(2)) (auto simp: PubSubState_try_publish_def queued_def)
  qed
qed

lemma get_message_cases:
  assumes ok: "state_ok s" and mid: "mid \<le> pss_next_message_id s"
    and pos: "\<And>k. k < length (queued s) \<Longrightarrow> mid = start_id s + k \<Longrightarrow> 0 < snd (queued s ! k)"
  obtains (lagged) "mid < start_id s" "PubSubState_get_message L s mid = Ret (Some (Lagged (start_id s - mid)), s, [])"
    | (none) "mid = pss_next_message_id s" "PubSubState_get_message L s mid = Ret (None, s, [])"
    | (pop) m q' rest pw ws where "mid = start_id s" "queued s = (m, 1) # rest" "dq_inv q'" "items q' = rest"
      "pv_inv (mw_wakers pw)" "mw_registered (lib_pubs L) (pss_publisher_wakers s) \<subseteq> set ws"
      "PubSubState_get_message L s mid =
         Ret (Some (Message m), s\<lparr>pss_queue := q', pss_publisher_wakers := pw\<rparr>, ws)"
    | (keep) k m c q' where "mid = start_id s + k" "k < length (queued s)" "queued s ! k = (m, Suc c)"
      "k \<noteq> 0 \<or> c \<noteq> 0" "dq_inv q'" "items q' = (queued s)[k := (m, c)]"
      "PubSubState_get_message L s mid = Ret (Some (Message m), s\<lparr>pss_queue := q'\<rparr>, [])"
proof -
  from ok have inv: "dq_inv (pss_queue s)" and le: "length (queued s) \<le> pss_next_message_id s"
    and pvi: "pv_inv (mw_wakers (pss_publisher_wakers s))"
    by (simp_all add: state_ok_def queued_def)
  have len: "Deque_len (lib_queue L) (pss_queue s) = length (queued s)" using inv by (simp add: queued_def)
  have st: "sub_u64 (pss_next_message_id s) (length (queued s)) = Ret (start_id s)"
    using le by (simp add: start_id_def)
  have "length (queued s) \<le> usize_max" using dq.bounded [OF inv] cap(2) by (simp add: queued_def)
  then have idx: "as_usize (mid - start_id s) = mid - start_id s" if "start_id s \<le> mid"
    using mid le that by (intro as_usize_id) (simp add: start_id_def)
  consider "mid < start_id s" | "mid = pss_next_message_id s" "start_id s \<le> mid"
    | "start_id s \<le> mid" "mid < pss_next_message_id s"
    using mid by linarith
  then show ?thesis
  proof cases
    case 1
    then show ?thesis by (intro lagged) (simp_all add: PubSubState_get_message_def len st)
  next
    case 2
    then have "length (queued s) \<le> mid - start_id s" using le by (simp add: start_id_def)
    then show ?thesis
      using 2(2) by (intro none [OF 2(1)]) (simp add: PubSubState_get_message_def len st idx [OF 2(2)] Let_def)
  next
    case 3
    define k where "k = mid - start_id s"
    have k: "mid = start_id s + k" "k < length (queued s)" using 3 le by (simp_all add: k_def start_id_def)
    obtain m c where it: "queued s ! k = (m, Suc c)"
      using pos [OF k(2,1)] by (metis gr0_conv_Suc prod.collapse)
    have kq: "k < length (items (pss_queue s))" using k(2) by (simp add: queued_def)
    let ?q = "Deque_set_nth (lib_queue L) (pss_queue s) k (m, c)"
    have q: "dq_inv ?q" "items ?q = (queued s)[k := (m, c)]" using inv kq by (simp_all add: queued_def)
    have nth: "Deque_nth (lib_queue L) (pss_queue s) k = Some (m, Suc c)"
      using dq.nth [OF inv] kq it by (simp add: queued_def)
    have ak: "as_usize k = k" using idx [OF 3(1)] by (simp only: k_def)
    have eq: "PubSubState_get_message L s mid =
       (if k = 0 \<and> c = 0 then
          case Deque_pop_front (lib_queue L) ?q of
            (None, q) \<Rightarrow> Panic UnwrapFailed
          | (Some (message, _), q) \<Rightarrow>
              (let (pw, ws) = MultiWaker_wake (lib_pubs L) (pss_publisher_wakers s)
               in Ret (Some (Message message), s\<lparr>pss_queue := q, pss_publisher_wakers := pw\<rparr>, ws))
        else Ret (Some (Message m), s\<lparr>pss_queue := ?q\<rparr>, []))"
      using 3(1) k(2) by (simp add: PubSubState_get_message_def len st ak k_def [symmetric] nth Let_def)
    show ?thesis
    proof (cases "k = 0 \<and> c = 0")
      case True
      obtain pw ws where w: "MultiWaker_wake (lib_pubs L) (pss_publisher_wakers s) = (pw, ws)" by fastforce
      obtain x rest where xs: "queued s = x # rest" using k(2) by (cases "queued s") auto
      with q True it have qi: "items ?q = (m, 0) # rest" "queued s = (m, 1) # rest" by auto
      from q(1) obtain q' where q': "Deque_pop_front (lib_queue L) ?q = (Some (m, 0), q')" "dq_inv q'" "items q' = rest"
        by (cases rule: dq.pop_front_cases) (use qi in auto)
      have "PubSubState_get_message L s mid =
          Ret (Some (Message m), s\<lparr>pss_queue := q', pss_publisher_wakers := pw\<rparr>, ws)"
        using True q'(1) w by (simp add: eq)
      then show ?thesis
        using True k(1) q' qi(2) pv.mw.wake_inv [OF pvi w] pv.mw.wake_all [OF pvi w]
        by (intro pop [of m rest q' pw ws]) simp_all
    next
      case False
      then have "PubSubState_get_message L s mid = Ret (Some (Message m), s\<lparr>pss_queue := ?q\<rparr>, [])"
        unfolding eq using False by (simp only: if_False)
      with False k it q show ?thesis by (intro keep [of k m c ?q]) auto
    qed
  qed
qed

end

context pubsub_laws
begin

lemma publish_immediate_cases:
  assumes ok: "state_ok s" and n: "pss_next_message_id s < u64_max"
  obtains (none) q where "pss_subscriber_count s = 0" "dq_inv q"
      "items q = (if length (queued s) = CAP then tl (queued s) else queued s)"
      "PubSubState_publish_immediate L s m = Ret (s\<lparr>pss_queue := q\<rparr>, [])"
    | (pushed) q sw ws where "0 < pss_subscriber_count s" "dq_inv q"
      "items q = (if length (queued s) = CAP then tl (queued s) else queued s) @ [(m, pss_subscriber_count s)]"
      "sv_inv (mw_wakers sw)" "mw_registered (lib_subs L) (pss_subscriber_wakers s) \<subseteq> set ws"
      "PubSubState_publish_immediate L s m = Ret (s\<lparr>pss_queue := q,
         pss_next_message_id := Suc (pss_next_message_id s), pss_subscriber_wakers := sw\<rparr>, ws)"
proof -
  define s1 where "s1 = (if Deque_is_full (lib_queue L) (pss_queue s)
    then s\<lparr>pss_queue := snd (Deque_pop_front (lib_queue L) (pss_queue s))\<rparr> else s)"
  from ok have inv: "dq_inv (pss_queue s)" by (simp add: state_ok_def)
  obtain x q1 where p: "Deque_pop_front (lib_queue L) (pss_queue s) = (x, q1)" by fastforce
  have q1: "dq_inv q1" "items q1 = tl (queued s)"
    using dq.pop_front [OF inv p] by (auto simp: queued_def split: list.splits)
  have q: "queued s1 = (if length (queued s) = CAP then tl (queued s) else queued s)" "dq_inv (pss_queue s1)"
    using p q1 inv by (simp_all add: s1_def queued_def)
  have le: "length (queued s1) \<le> length (queued s)" "length (queued s1) < CAP"
    using q(1) cap(1) dq.bounded [OF inv] by (auto simp: queued_def split: if_splits)
  have ok1: "state_ok s1" using ok q(2) le(1) by (simp add: state_ok_def s1_def queued_def split: if_splits)
  have f: "s1\<lparr>pss_queue := z\<rparr> = s\<lparr>pss_queue := z\<rparr>" "pss_subscriber_count s1 = pss_subscriber_count s"
    "pss_next_message_id s1 = pss_next_message_id s" "pss_subscriber_wakers s1 = pss_subscriber_wakers s" for z
    by (simp_all add: s1_def)
  have n1: "pss_next_message_id s1 < u64_max" using n f by simp
  have eq: "PubSubState_publish_immediate L s m = bind_out (PubSubState_try_publish L s1 m) (\<lambda>(r, s, ws).
      bind_out (unwrap_result r) (\<lambda>_. Ret (s, ws)))"
    by (simp add: PubSubState_publish_immediate_def s1_def)
  from ok1 n1 show ?thesis
  proof (cases rule: try_publish_cases [where m = m])
    case none
    then have "PubSubState_publish_immediate L s m = Ret (s1, [])" by (simp add: eq)
    moreover have "s1 = s\<lparr>pss_queue := pss_queue s1\<rparr>" by (simp add: s1_def)
    ultimately show ?thesis
      using none(1) q f by (intro that(1) [of "pss_queue s1"]) (simp_all add: queued_def)
  next
    case (pushed z sw ws)
    have "PubSubState_publish_immediate L s m = Ret (s\<lparr>pss_queue := z,
        pss_next_message_id := Suc (pss_next_message_id s), pss_subscriber_wakers := sw\<rparr>, ws)"
      using pushed(7) by (simp add: eq f)
    with pushed show ?thesis using q(1) f by (intro that(2) [of z sw ws]) simp_all
  qed (use le(2) in simp)
qed

lemma decrement_all:
  assumes "dq_inv q" "k + n = length (items q)"
    and "\<And>i. k \<le> i \<Longrightarrow> i < length (items q) \<Longrightarrow> 0 < snd (items q ! i)"
  shows "\<exists>q'. each_out (decrement_counter (lib_queue L)) [k..<length (items q)] q = Ret q' \<and> dq_inv q' \<and>
    items q' = take k (items q) @ map (\<lambda>(m, c). (m, c - 1)) (drop k (items q))"
  using assms
proof (induction n arbitrary: k q)
  case 0
  then show ?case by simp
next
  case (Suc n)
  then have k: "k < length (items q)" by simp
  obtain m c where it: "items q ! k = (m, Suc c)"
    using Suc.prems(3) [of k] k by (metis gr0_conv_Suc le_refl prod.collapse)
  let ?q = "Deque_set_nth (lib_queue L) q k (m, c)"
  have q: "dq_inv ?q" "items ?q = (items q)[k := (m, c)]" using Suc.prems(1) k by simp_all
  have d: "decrement_counter (lib_queue L) q k = Ret ?q"
    using dq.nth [OF Suc.prems(1)] k it by (simp add: decrement_counter_def)
  have "\<exists>q'. each_out (decrement_counter (lib_queue L)) [Suc k..<length (items ?q)] ?q = Ret q' \<and> dq_inv q' \<and>
    items q' = take (Suc k) (items ?q) @ map (\<lambda>(m, c). (m, c - 1)) (drop (Suc k) (items ?q))"
    using Suc.prems(2,3) q by (intro Suc.IH) auto
  moreover have "take (Suc k) (items ?q) = take k (items q) @ [(m, c)]"
    using k by (simp add: q(2) take_Suc_conv_app_nth)
  moreover have "drop k (items q) = (m, Suc c) # drop (Suc k) (items q)"
    using k it by (simp add: Cons_nth_drop_Suc [symmetric])
  ultimately show ?case using k d q(2) by (auto simp: upt_conv_Cons)
qed

lemma pop_read:
  assumes "dq_inv q" "length (items q) < fuel"
  shows "\<exists>q'. pop_read_messages fuel (lib_queue L) q b =
      Some (Ret (b \<or> (items q \<noteq> [] \<and> snd (hd (items q)) = 0), q')) \<and> dq_inv q' \<and>
    items q' = dropWhile (\<lambda>x. snd x = 0) (items q)"
  using assms
proof (induction fuel arbitrary: q b)
  case (Suc fuel)
  from Suc.prems(1) show ?case
  proof (cases rule: dq.pop_front_cases)
    case (none q1)
    with Suc.prems(1) show ?thesis by (simp add: dq.front)
  next
    case (some x xs q1)
    show ?thesis
    proof (cases "snd x = 0")
      case True
      have "length (items q1) < fuel" using some Suc.prems(2) by simp
      from Suc.IH [OF some(3) this, of True] some True Suc.prems(1) show ?thesis
        by (auto simp: dq.front split: prod.splits)
    next
      case False
      with some Suc.prems(1) show ?thesis by (auto simp: dq.front split: prod.splits)
    qed
  qed
qed simp

end

context pubsub_laws
begin

definition without_reader :: "nat \<Rightarrow> ('a \<times> nat) list \<Rightarrow> ('a \<times> nat) list" where
  "without_reader k xs = take k xs @ map (\<lambda>(m, c). (m, c - 1)) (drop k xs)"

lemma length_without_reader [simp]: "length (without_reader k xs) = length xs"
  by (simp add: without_reader_def)

lemma unregister_cases:
  assumes ok: "state_ok s" and count: "0 < pss_subscriber_count s" and mid: "mid \<le> pss_next_message_id s"
    and pos: "\<And>k. k < length (queued s) \<Longrightarrow> mid \<le> start_id s + k \<Longrightarrow> 0 < snd (queued s ! k)"
  obtains (lagged) "mid < start_id s"
      "PubSubState_unregister_subscriber L s mid =
         Some (Ret (s\<lparr>pss_subscriber_count := pss_subscriber_count s - 1\<rparr>, []))"
    | (current) q pw ws where "start_id s \<le> mid" "dq_inv q" "pv_inv (mw_wakers pw)"
      "items q = dropWhile (\<lambda>x. snd x = 0) (without_reader (mid - start_id s) (queued s))"
      "mw_registered (lib_pubs L) (pss_publisher_wakers s) \<subseteq> mw_registered (lib_pubs L) pw \<union> set ws"
      "length (items q) = length (queued s) \<or> mw_registered (lib_pubs L) (pss_publisher_wakers s) \<subseteq> set ws"
      "PubSubState_unregister_subscriber L s mid = Some (Ret (s\<lparr>pss_subscriber_count := pss_subscriber_count s - 1,
         pss_queue := q, pss_publisher_wakers := pw\<rparr>, ws))"
proof -
  from ok have inv: "dq_inv (pss_queue s)" and le: "length (queued s) \<le> pss_next_message_id s"
    and pvi: "pv_inv (mw_wakers (pss_publisher_wakers s))"
    by (simp_all add: state_ok_def queued_def)
  have len: "Deque_len (lib_queue L) (pss_queue s) = length (queued s)" using inv by (simp add: queued_def)
  have st: "sub_u64 (pss_next_message_id s) (length (queued s)) = Ret (start_id s)"
    using le by (simp add: start_id_def)
  show ?thesis
  proof (cases "mid < start_id s")
    case True
    then show ?thesis
      using count by (intro lagged) (simp_all add: PubSubState_unregister_subscriber_def len st Let_def)
  next
    case False
    define k where "k = mid - start_id s"
    have k: "k \<le> length (queued s)" using mid le False by (simp add: k_def start_id_def)
    have "k \<le> usize_max" using k dq.bounded [OF inv] cap(2) by (simp add: queued_def)
    then have ak: "as_usize k = k" by simp
    have "\<exists>q. each_out (decrement_counter (lib_queue L)) [k..<length (items (pss_queue s))] (pss_queue s) = Ret q \<and>
      dq_inv q \<and> items q = without_reader k (queued s)"
      unfolding without_reader_def queued_def
    proof (rule decrement_all [OF inv])
      show "k + (length (items (pss_queue s)) - k) = length (items (pss_queue s))" using k by (simp add: queued_def)
      show "0 < snd (items (pss_queue s) ! i)" if "k \<le> i" "i < length (items (pss_queue s))" for i
        using pos [of i] that False by (simp add: k_def queued_def)
    qed
    then obtain q1 where q1: "each_out (decrement_counter (lib_queue L)) [k..<length (queued s)] (pss_queue s) = Ret q1"
      "dq_inv q1" "items q1 = without_reader k (queued s)" by (auto simp: queued_def)
    have l1: "length (items q1) = length (queued s)" using k q1(3) by (simp add: without_reader_def)
    define b where "b \<longleftrightarrow> items q1 \<noteq> [] \<and> snd (hd (items q1)) = 0"
    obtain q where q: "pop_read_messages (Suc (length (queued s))) (lib_queue L) q1 False = Some (Ret (b, q))"
      "dq_inv q" "items q = dropWhile (\<lambda>x. snd x = 0) (items q1)"
      using pop_read [OF q1(2), of "Suc (length (queued s))" False] l1 by (auto simp: b_def)
    obtain pw ws where w: "(if b then MultiWaker_wake (lib_pubs L) (pss_publisher_wakers s)
      else (pss_publisher_wakers s, [])) = (pw, ws)" by fastforce
    have woken: "pv_inv (mw_wakers pw)" "b \<Longrightarrow> mw_registered (lib_pubs L) (pss_publisher_wakers s) \<subseteq> set ws"
      "\<not> b \<Longrightarrow> pw = pss_publisher_wakers s"
      using w pv.mw.wake_inv [OF pvi] pv.mw.wake_all [OF pvi] pvi by (auto split: if_splits)
    have "b \<or> items q = items q1" using q(3) by (cases "items q1") (auto simp: b_def)
    then have len': "length (items q) = length (queued s) \<or> b" using l1 by auto
    have "PubSubState_unregister_subscriber L s mid = Some (Ret (s\<lparr>pss_subscriber_count := pss_subscriber_count s - 1,
        pss_queue := q, pss_publisher_wakers := pw\<rparr>, ws))"
      using count False q1(1) q(1) w
      by (cases b; simp add: PubSubState_unregister_subscriber_def len st Let_def k_def [symmetric] ak
          del: pop_read_messages.simps)
    with False q(2,3) q1(3) woken len' show ?thesis
      by (intro current [of q pw ws]) (auto simp: k_def)
  qed
qed

end

section \<open>The invariant of a run\<close>

text \<open>What a subscriber has been told, read as a walk through the published messages.\<close>

fun replay :: "'a list \<Rightarrow> nat \<Rightarrow> 'a wait_result list \<Rightarrow> nat option" where
  "replay pub i [] = Some i"
| "replay pub i (Message m # rs) = (if i < length pub \<and> pub ! i = m then replay pub (Suc i) rs else None)"
| "replay pub i (Lagged n # rs) = replay pub (i + n) rs"

lemma replay_snoc:
  "replay pub i (rs @ [x]) = (case replay pub i rs of None \<Rightarrow> None | Some j \<Rightarrow> replay pub j [x])"
  by (induction pub i rs rule: replay.induct) auto

lemma replay_append: "replay pub i rs = Some j \<Longrightarrow> replay (pub @ ms) i rs = Some j"
  by (induction pub i rs rule: replay.induct) (auto simp: nth_append split: if_splits)

fun is_Message :: "'a wait_result \<Rightarrow> bool" where
  "is_Message (Message _) = True"
| "is_Message (Lagged _) = False"

lemma replay_no_lag:
  "replay pub i rs = Some j \<Longrightarrow> list_all is_Message rs \<Longrightarrow> j \<le> length pub \<Longrightarrow>
     i \<le> j \<and> rs = map Message (slice_of i j pub)"
proof (induction pub i rs rule: replay.induct)
  case (2 pub i m rs)
  then have IH: "Suc i \<le> j" "rs = map Message (slice_of (Suc i) j pub)" and m: "pub ! i = m" "i < length pub"
    by (auto split: if_splits)
  then have "slice_of i j pub = pub ! i # slice_of (Suc i) j pub"
    by (simp add: slice_of_def Cons_nth_drop_Suc [symmetric] Suc_diff_le take_Cons')
  with IH m show ?case by simp
qed (simp_all add: slice_of_def)

text \<open>How many of the subscribers have yet to read the message with id \<open>i\<close>.\<close>

definition unread :: "(nat \<Rightarrow> sub option) \<Rightarrow> nat \<Rightarrow> nat" where
  "unread subs i = card {j. \<exists>x. subs j = Some x \<and> sub_next_message_id x \<le> i}"

lemma unread_sets: "finite (dom subs) \<Longrightarrow> finite {j. \<exists>x. subs j = Some x \<and> sub_next_message_id x \<le> i}"
  by (rule finite_subset [of _ "dom subs"]) auto

lemma unread_mono: "finite (dom subs) \<Longrightarrow> i \<le> i' \<Longrightarrow> unread subs i \<le> unread subs i'"
  unfolding unread_def by (rule card_mono) (auto simp: unread_sets intro: order_trans)

lemma unread_all: "(\<And>j x. subs j = Some x \<Longrightarrow> sub_next_message_id x \<le> i) \<Longrightarrow> unread subs i = card (dom subs)"
  unfolding unread_def by (rule arg_cong [of _ _ card]) auto

lemma unread_pos: "finite (dom subs) \<Longrightarrow> subs j = Some x \<Longrightarrow> sub_next_message_id x \<le> i \<Longrightarrow> 0 < unread subs i"
  unfolding unread_def card_gt_0_iff using unread_sets by blast

lemma unread_move:
  assumes "finite (dom subs)" "subs j = Some x" "sub_next_message_id x \<le> n"
  shows "unread (subs(j \<mapsto> \<lparr>sub_next_message_id = n\<rparr>)) i =
    (if sub_next_message_id x \<le> i \<and> i < n then unread subs i - 1 else unread subs i)"
proof (cases "sub_next_message_id x \<le> i \<and> i < n")
  case True
  then have "{k. \<exists>y. (subs(j \<mapsto> \<lparr>sub_next_message_id = n\<rparr>)) k = Some y \<and> sub_next_message_id y \<le> i} =
    {k. \<exists>y. subs k = Some y \<and> sub_next_message_id y \<le> i} - {j}" by auto
  moreover have "j \<in> {k. \<exists>y. subs k = Some y \<and> sub_next_message_id y \<le> i}" using True assms(2) by auto
  ultimately show ?thesis using True unread_sets [OF assms(1)] by (simp add: unread_def)
next
  case False
  then have "{k. \<exists>y. (subs(j \<mapsto> \<lparr>sub_next_message_id = n\<rparr>)) k = Some y \<and> sub_next_message_id y \<le> i} =
    {k. \<exists>y. subs k = Some y \<and> sub_next_message_id y \<le> i}" using assms(2,3) by auto
  with False show ?thesis by (simp only: unread_def if_False)
qed

lemma unread_drop:
  assumes "finite (dom subs)" "subs j = Some x"
  shows "unread (subs(j := None)) i = (if sub_next_message_id x \<le> i then unread subs i - 1 else unread subs i)"
proof (cases "sub_next_message_id x \<le> i")
  case True
  then have "{k. \<exists>y. (subs(j := None)) k = Some y \<and> sub_next_message_id y \<le> i} =
    {k. \<exists>y. subs k = Some y \<and> sub_next_message_id y \<le> i} - {j}" by auto
  moreover have "j \<in> {k. \<exists>y. subs k = Some y \<and> sub_next_message_id y \<le> i}" using True assms(2) by auto
  ultimately show ?thesis using True unread_sets [OF assms(1)] by (simp add: unread_def)
next
  case False
  then have "{k. \<exists>y. (subs(j := None)) k = Some y \<and> sub_next_message_id y \<le> i} =
    {k. \<exists>y. subs k = Some y \<and> sub_next_message_id y \<le> i}" using assms(2) by auto
  with False show ?thesis by (simp add: unread_def)
qed

lemma unread_new:
  assumes "subs j = None" "i < sub_next_message_id x"
  shows "unread (subs(j \<mapsto> x)) i = unread subs i"
  unfolding unread_def using assms by (intro arg_cong [of _ _ card]) auto

text \<open>
  The queue against the published messages: it holds the last ones, and the counter of each is at least the
  number of subscribers that have yet to read it.  While no lagging subscriber has been dropped (\<open>e\<close>) the
  counters are exact and the oldest message has a reader left.
\<close>

definition queue_ok :: "bool \<Rightarrow> ('a \<times> nat) list \<Rightarrow> 'a list \<Rightarrow> (nat \<Rightarrow> sub option) \<Rightarrow> bool" where
  "queue_ok e q pub subs \<longleftrightarrow> length q \<le> length pub \<and> map fst q = drop (length pub - length q) pub \<and>
     (\<forall>k < length q. unread subs (length pub - length q + k) \<le> snd (q ! k)) \<and>
     (e \<longrightarrow> (\<forall>k < length q. snd (q ! k) = unread subs (length pub - length q + k)) \<and>
        (q \<noteq> [] \<longrightarrow> 0 < snd (q ! 0)))"

lemma queue_okI:
  assumes "length q \<le> length pub" "map fst q = drop (length pub - length q) pub"
    and "\<And>k. k < length q \<Longrightarrow> unread subs (length pub - length q + k) \<le> snd (q ! k)"
    and "\<And>k. e \<Longrightarrow> k < length q \<Longrightarrow> snd (q ! k) = unread subs (length pub - length q + k)"
    and "e \<Longrightarrow> q \<noteq> [] \<Longrightarrow> 0 < snd (q ! 0)"
  shows "queue_ok e q pub subs"
  unfolding queue_ok_def using assms by blast

lemma queue_okD:
  assumes "queue_ok e q pub subs"
  shows "length q \<le> length pub" "map fst q = drop (length pub - length q) pub"
    and "k < length q \<Longrightarrow> unread subs (length pub - length q + k) \<le> snd (q ! k)"
    and "e \<Longrightarrow> k < length q \<Longrightarrow> snd (q ! k) = unread subs (length pub - length q + k)"
    and "e \<Longrightarrow> q \<noteq> [] \<Longrightarrow> 0 < snd (q ! 0)"
  using assms unfolding queue_ok_def by blast+

lemma queue_ok_push:
  assumes q: "queue_ok e q pub subs" and fin: "finite (dom subs)" "0 < card (dom subs)"
    and le: "\<And>j x. subs j = Some x \<Longrightarrow> sub_next_message_id x \<le> length pub"
  shows "queue_ok e (q @ [(m, card (dom subs))]) (pub @ [m]) subs"
proof -
  have "unread subs (length pub) = card (dom subs)" by (rule unread_all) (rule le)
  with q fin(2) show ?thesis by (auto simp: queue_ok_def nth_append less_Suc_eq)
qed

lemma queue_ok_tl:
  assumes q: "queue_ok e q pub subs" and fin: "finite (dom subs)"
  shows "queue_ok e (tl q) pub subs"
proof (cases q)
  case (Cons a q')
  let ?n = "length pub - length q'"
  have st: "?n = Suc (length pub - length q)" using queue_okD(1) [OF q] Cons by simp
  have le: "unread subs (?n + k) \<le> snd (q' ! k)" if "k < length q'" for k
    using queue_okD(3) [OF q, of "Suc k"] that st by (simp add: Cons)
  have eq: "snd (q' ! k) = unread subs (?n + k)" if e "k < length q'" for k
    using queue_okD(4) [OF q, of "Suc k"] that st by (simp add: Cons)
  have pos: "0 < snd (q' ! 0)" if e "q' \<noteq> []"
  proof -
    have "0 < unread subs (length pub - length q)"
      using queue_okD(4) [OF q, of 0] queue_okD(5) [OF q] that(1) Cons by simp
    also have "\<dots> \<le> unread subs ?n" by (rule unread_mono [OF fin]) (simp add: st)
    also have "\<dots> = snd (q' ! 0)" using eq [of 0] that by simp
    finally show ?thesis .
  qed
  have "map fst q' = drop ?n pub"
    using queue_okD(2) [OF q] unfolding st Cons by (metis drop_Suc list.sel(3) list.simps(9) tl_drop)
  moreover have "length q' \<le> length pub" using queue_okD(1) [OF q] Cons by simp
  ultimately show ?thesis using le eq pos Cons by (intro queue_okI) simp_all
qed (use q in simp)

lemma queue_ok_read:
  assumes q: "queue_ok e q pub subs" and fin: "finite (dom subs)" and x: "subs j = Some x"
    and k: "sub_next_message_id x = length pub - length q + k" "k < length q" "q ! k = (m, Suc c)"
    and front: "k \<noteq> 0 \<or> c \<noteq> 0"
  shows "queue_ok e (q[k := (m, c)]) pub (subs(j \<mapsto> \<lparr>sub_next_message_id = Suc (sub_next_message_id x)\<rparr>))"
proof -
  let ?s = "subs(j \<mapsto> \<lparr>sub_next_message_id = Suc (sub_next_message_id x)\<rparr>)" and ?st = "length pub - length q"
  have u: "unread ?s (?st + i) = (if i = k then unread subs (?st + i) - 1 else unread subs (?st + i))" for i
    using unread_move [OF fin x, of "Suc (sub_next_message_id x)" "?st + i"] k(1) by auto
  have "map fst (q[k := (m, c)]) = map fst q" using k(2,3) by (metis fst_conv list_update_id map_update nth_map)
  moreover have "unread ?s (?st + i) \<le> snd (q[k := (m, c)] ! i)" if "i < length q" for i
    using queue_okD(3) [OF q that] that k(2,3) unfolding u by (auto simp: nth_list_update)
  moreover have "snd (q[k := (m, c)] ! i) = unread ?s (?st + i)" if e "i < length q" for i
    using queue_okD(4) [OF q that] that k(2,3) unfolding u by (auto simp: nth_list_update)
  moreover have "0 < snd (q[k := (m, c)] ! 0)" if e
  proof (cases "k = 0")
    case True
    with front k(2) show ?thesis by auto
  next
    case False
    moreover have "q \<noteq> []" using k(2) by auto
    ultimately show ?thesis using queue_okD(5) [OF q that] by simp
  qed
  ultimately show ?thesis using queue_okD(1,2) [OF q] by (intro queue_okI) simp_all
qed

lemma queue_ok_pop:
  assumes q: "queue_ok e ((m, 1) # rest) pub subs" and fin: "finite (dom subs)" and x: "subs j = Some x"
    and id: "sub_next_message_id x = length pub - Suc (length rest)"
  shows "queue_ok e rest pub (subs(j \<mapsto> \<lparr>sub_next_message_id = Suc (sub_next_message_id x)\<rparr>))"
proof -
  let ?s = "subs(j \<mapsto> \<lparr>sub_next_message_id = Suc (sub_next_message_id x)\<rparr>)" and ?st = "length pub - length rest"
  have len: "Suc (length rest) \<le> length pub" using queue_okD(1) [OF q] by simp
  then have st: "?st = Suc (sub_next_message_id x)" using id by simp
  have u: "unread ?s (?st + i) = unread subs (?st + i)" for i
    using unread_move [OF fin x, of "Suc (sub_next_message_id x)" "?st + i"] st by auto
  have st': "length pub - length ((m, 1 :: nat) # rest) + Suc i = ?st + i" for i using len by simp
  have le: "unread subs (?st + i) \<le> snd (rest ! i)" if "i < length rest" for i
    using queue_okD(3) [OF q, of "Suc i"] that unfolding st' by simp
  have eq: "snd (rest ! i) = unread subs (?st + i)" if e "i < length rest" for i
    using queue_okD(4) [OF q, of "Suc i"] that unfolding st' by simp
  have "0 < unread ?s ?st" using fin st by (intro unread_pos [where j = j]) auto
  then have pos: "0 < snd (rest ! 0)" if e "rest \<noteq> []" using eq [of 0] u [of 0] that by simp
  have "map fst rest = drop ?st pub"
    using queue_okD(2) [OF q] id unfolding st by (metis drop_Suc list.sel(3) list.simps(9) length_Cons tl_drop)
  then show ?thesis using pos le eq len u by (intro queue_okI) simp_all
qed

lemma queue_ok_subs:
  assumes q: "queue_ok e q pub subs"
    and same: "\<And>k. k < length q \<Longrightarrow> unread subs' (length pub - length q + k) = unread subs (length pub - length q + k)"
  shows "queue_ok e q pub subs'"
proof (rule queue_okI)
  fix k
  assume k: "k < length q"
  show "unread subs' (length pub - length q + k) \<le> snd (q ! k)" using queue_okD(3) [OF q k] same [OF k] by simp
  show "snd (q ! k) = unread subs' (length pub - length q + k)" if e
    using queue_okD(4) [OF q that k] same [OF k] by simp
qed (use queue_okD(1,2,5) [OF q] in auto)

lemma queue_ok_lagged_drop:
  assumes q: "queue_ok e q pub subs" and fin: "finite (dom subs)" and x: "subs j = Some x"
  shows "queue_ok False q pub (subs(j := None))"
proof (rule queue_okI)
  fix k
  assume "k < length q"
  then show "unread (subs(j := None)) (length pub - length q + k) \<le> snd (q ! k)"
    using queue_okD(3) [OF q, of k] unfolding unread_drop [OF fin x] by (cases "sub_next_message_id x \<le> length pub - length q + k"; simp)
qed (use queue_okD(1,2) [OF q] in auto)

lemma queue_ok_dropWhile:
  assumes len: "length q \<le> length pub" "map fst q = drop (length pub - length q) pub"
    and le: "\<And>k. k < length q \<Longrightarrow> unread subs (length pub - length q + k) \<le> snd (q ! k)"
    and eq: "\<And>k. e \<Longrightarrow> k < length q \<Longrightarrow> snd (q ! k) = unread subs (length pub - length q + k)"
  shows "queue_ok e (dropWhile (\<lambda>x. snd x = 0) q) pub subs"
proof -
  let ?q = "dropWhile (\<lambda>x. snd x = 0) q"
  define d where "d = length (takeWhile (\<lambda>x. snd x = 0) q)"
  have d: "?q = drop d q" by (simp add: d_def dropWhile_eq_drop)
  have dl: "d \<le> length q" by (simp add: d_def length_takeWhile_le)
  have st: "length pub - length ?q + k = length pub - length q + (d + k)" for k using dl len(1) by (simp add: d)
  show ?thesis
  proof (rule queue_okI)
    show "map fst ?q = drop (length pub - length ?q) pub"
      using len dl by (simp add: d drop_map [symmetric] add.commute)
    show "unread subs (length pub - length ?q + k) \<le> snd (?q ! k)" if "k < length ?q" for k
      using le [of "d + k"] that dl unfolding st by (simp add: d)
    show "snd (?q ! k) = unread subs (length pub - length ?q + k)" if e "k < length ?q" for k
      using eq [of "d + k"] that dl unfolding st by (simp add: d)
    show "0 < snd (?q ! 0)" if "?q \<noteq> []"
      using that hd_dropWhile [of "\<lambda>x. snd x = 0" q] by (simp add: hd_conv_nth)
  qed (use len(1) dl in \<open>simp add: d\<close>)
qed

context pubsub_laws
begin

lemma queue_ok_drop:
  assumes q: "queue_ok e q pub subs" and fin: "finite (dom subs)" and x: "subs j = Some x"
    and id: "length pub - length q \<le> sub_next_message_id x" "sub_next_message_id x \<le> length pub"
  shows "queue_ok e (dropWhile (\<lambda>x. snd x = 0) (without_reader (sub_next_message_id x - (length pub - length q)) q))
    pub (subs(j := None))"
proof -
  define k where "k = sub_next_message_id x - (length pub - length q)"
  have k: "k \<le> length q" "sub_next_message_id x = length pub - length q + k"
    using id queue_okD(1) [OF q] by (simp_all add: k_def)
  let ?q = "without_reader k q"
  have len: "length ?q = length q" using k(1) by (simp add: without_reader_def)
  have "map fst ?q = map fst (take k q @ drop k q)"
    unfolding without_reader_def map_append by (simp add: case_prod_unfold comp_def)
  then have mf: "map fst ?q = map fst q" by simp
  have nth: "snd (?q ! i) = (if i < k then snd (q ! i) else snd (q ! i) - 1)" if "i < length q" for i
    using that k(1) by (auto simp: without_reader_def nth_append case_prod_unfold min_def)
  have u: "unread (subs(j := None)) (length pub - length q + i) =
      (if i < k then unread subs (length pub - length q + i) else unread subs (length pub - length q + i) - 1)" for i
    using unread_drop [OF fin x] k(2) by simp
  show ?thesis
    unfolding k_def [symmetric]
  proof (rule queue_ok_dropWhile)
    fix i
    assume "i < length ?q"
    then have i: "i < length q" by (simp add: len)
    show "unread (subs(j := None)) (length pub - length ?q + i) \<le> snd (?q ! i)"
      using queue_okD(3) [OF q i] unfolding len u nth [OF i] by (simp add: diff_le_mono)
    show "snd (?q ! i) = unread (subs(j := None)) (length pub - length ?q + i)" if e
      using queue_okD(4) [OF q that i] unfolding len u nth [OF i] by simp
  qed (use queue_okD(1,2) [OF q] in \<open>simp_all add: len mf\<close>)
qed

definition run_inv :: "('q, 'v, 'w, 'a) pubsub_run \<Rightarrow> bool" where
  "run_inv r \<longleftrightarrow> state_ok (pr_state r) \<and> pss_next_message_id (pr_state r) = length (pr_published r) \<and>
     queue_ok (\<not> pr_lagged_drop r) (queued (pr_state r)) (pr_published r) (pr_subs r) \<and>
     finite (dom (pr_subs r)) \<and> pss_subscriber_count (pr_state r) = card (dom (pr_subs r)) \<and>
     pss_subscriber_count (pr_state r) \<le> SUBS \<and>
     pss_publisher_count (pr_state r) = pr_publishers r \<and> pr_publishers r \<le> PUBS"

definition subs_inv :: "('q, 'v, 'w, 'a) pubsub_run \<Rightarrow> bool" where
  "subs_inv r \<longleftrightarrow> (\<forall>j x. pr_subs r j = Some x \<longrightarrow> sub_next_message_id x \<le> length (pr_published r) \<and>
     replay (pr_published r) (pr_from r j) (pr_log r j) = Some (sub_next_message_id x) \<and>
     (\<not> pr_immediate r \<longrightarrow> start_id (pr_state r) \<le> sub_next_message_id x \<and> list_all is_Message (pr_log r j)))"

definition sleep_inv :: "('q, 'v, 'w, 'a) pubsub_run \<Rightarrow> bool" where
  "sleep_inv r \<longleftrightarrow>
     (\<forall>j w. pr_asleep r j = Some w \<longrightarrow> w \<in> mw_registered (lib_subs L) (pss_subscriber_wakers (pr_state r)) \<and>
        (\<exists>x. pr_subs r j = Some x \<and> sub_next_message_id x = length (pr_published r))) \<and>
     (\<not> pr_lagged_drop r \<longrightarrow>
        pr_waiting r \<subseteq> mw_registered (lib_pubs L) (pss_publisher_wakers (pr_state r)) \<and>
        (pr_waiting r \<noteq> {} \<longrightarrow> length (queued (pr_state r)) = CAP))"

end

context pubsub_laws
begin

lemma read_cases:
  fixes x :: sub
  assumes ok: "state_ok s" and mid: "sub_next_message_id x \<le> pss_next_message_id s" and n: "pss_next_message_id s < u64_max"
    and pos: "\<And>k. k < length (queued s) \<Longrightarrow> sub_next_message_id x = start_id s + k \<Longrightarrow> 0 < snd (queued s ! k)"
  obtains (lagged) "sub_next_message_id x < start_id s"
      "pubsub_read L x s cx = Ret (Some (Lagged (start_id s - sub_next_message_id x)),
         \<lparr>sub_next_message_id = start_id s\<rparr>, s, [])"
    | (none) sw ws where "sub_next_message_id x = pss_next_message_id s"
      "pubsub_read L x s cx = Ret (None, x, s\<lparr>pss_subscriber_wakers := sw\<rparr>, ws)" "sv_inv (mw_wakers sw)"
      "mw_registered (lib_subs L) (pss_subscriber_wakers s) \<subseteq> mw_registered (lib_subs L) sw \<union> set ws"
      "set_option cx \<subseteq> mw_registered (lib_subs L) sw"
    | (pop) m q' rest pw ws where "sub_next_message_id x = start_id s" "queued s = (m, 1) # rest" "dq_inv q'"
      "items q' = rest" "pv_inv (mw_wakers pw)"
      "mw_registered (lib_pubs L) (pss_publisher_wakers s) \<subseteq> set ws"
      "pubsub_read L x s cx = Ret (Some (Message m), \<lparr>sub_next_message_id = Suc (sub_next_message_id x)\<rparr>,
         s\<lparr>pss_queue := q', pss_publisher_wakers := pw\<rparr>, ws)"
    | (keep) k m c q' where "sub_next_message_id x = start_id s + k" "k < length (queued s)" "queued s ! k = (m, Suc c)"
      "k \<noteq> 0 \<or> c \<noteq> 0" "dq_inv q'" "items q' = (queued s)[k := (m, c)]"
      "pubsub_read L x s cx = Ret (Some (Message m), \<lparr>sub_next_message_id = Suc (sub_next_message_id x)\<rparr>,
         s\<lparr>pss_queue := q'\<rparr>, [])"
proof -
  note eval = pubsub_read_def Sub_try_next_message_def SubscriberWaitFuture_poll_def
    PubSubChannel_get_message_with_context_def Let_def
  have upd: "x\<lparr>sub_next_message_id := i\<rparr> = \<lparr>sub_next_message_id = i\<rparr>" for i by (cases x) simp
  have svi: "sv_inv (mw_wakers (pss_subscriber_wakers s))" using ok by (simp add: state_ok_def)
  have st: "start_id s \<le> pss_next_message_id s" by (simp add: start_id_def)
  show ?thesis
  proof (rule get_message_cases [OF ok mid pos])
    assume "sub_next_message_id x < start_id s"
      "PubSubState_get_message L s (sub_next_message_id x) =
         Ret (Some (Lagged (start_id s - sub_next_message_id x)), s, [])"
    with n st show ?thesis by (intro lagged) (simp_all add: eval upd split: option.split)
  next
    assume a: "sub_next_message_id x = pss_next_message_id s"
      "PubSubState_get_message L s (sub_next_message_id x) = Ret (None, s, [])"
    have idx: "x\<lparr>sub_next_message_id := sub_next_message_id x\<rparr> = x" by (cases x) simp
    show ?thesis
    proof (cases cx)
      case None
      with a svi show ?thesis
        by (intro none [of "pss_subscriber_wakers s" "[]"]) (simp_all add: eval idx)
    next
      case (Some w)
      from sv.mw.register_ret [OF svi] obtain sw ws where
        r: "MultiWaker_register (lib_subs L) (pss_subscriber_wakers s) w = Ret (sw, ws)" by blast
      have "pubsub_read L x s cx = Ret (None, x, s\<lparr>pss_subscriber_wakers := sw\<rparr>, ws)"
        using a(2) r Some by (simp add: eval idx)
      with Some a(1) r svi show ?thesis
        using sv.mw.register_inv [OF svi r] sv.mw.register_self [OF svi r] sv.mw.register_keeps [OF svi r]
        by (intro none [of sw ws]) simp_all
    qed
  next
    fix m q' rest pw ws
    assume a: "sub_next_message_id x = start_id s" "queued s = (m, 1) # rest" "dq_inv q'" "items q' = rest"
      "pv_inv (mw_wakers pw)" "mw_registered (lib_pubs L) (pss_publisher_wakers s) \<subseteq> set ws"
      "PubSubState_get_message L s (sub_next_message_id x) =
         Ret (Some (Message m), s\<lparr>pss_queue := q', pss_publisher_wakers := pw\<rparr>, ws)"
    have "pubsub_read L x s cx = Ret (Some (Message m), \<lparr>sub_next_message_id = Suc (sub_next_message_id x)\<rparr>,
         s\<lparr>pss_queue := q', pss_publisher_wakers := pw\<rparr>, ws)"
      using a(7) mid n by (simp add: eval upd split: option.split)
    with a(1-6) show ?thesis by (intro pop [of m rest q' pw ws])
  next
    fix k m c q'
    assume a: "sub_next_message_id x = start_id s + k" "k < length (queued s)" "queued s ! k = (m, Suc c)"
      "k \<noteq> 0 \<or> c \<noteq> 0" "dq_inv q'" "items q' = (queued s)[k := (m, c)]"
      "PubSubState_get_message L s (sub_next_message_id x) = Ret (Some (Message m), s\<lparr>pss_queue := q'\<rparr>, [])"
    have "pubsub_read L x s cx = Ret (Some (Message m), \<lparr>sub_next_message_id = Suc (sub_next_message_id x)\<rparr>,
         s\<lparr>pss_queue := q'\<rparr>, [])"
      using a(7) mid n by (simp add: eval upd split: option.split)
    with a(1-6) show ?thesis by (intro keep [of k m c q'])
  qed
qed

lemma publish_cases:
  assumes ok: "state_ok s" and n: "pss_next_message_id s < u64_max"
  obtains (none) "pss_subscriber_count s = 0" "pubsub_publish L s m cx = Ret (True, s, [])"
    | (full) pw ws where "0 < pss_subscriber_count s" "length (queued s) = CAP"
      "pubsub_publish L s m cx = Ret (False, s\<lparr>pss_publisher_wakers := pw\<rparr>, ws)" "pv_inv (mw_wakers pw)"
      "mw_registered (lib_pubs L) (pss_publisher_wakers s) \<subseteq> mw_registered (lib_pubs L) pw \<union> set ws"
      "set_option cx \<subseteq> mw_registered (lib_pubs L) pw"
    | (pushed) q sw ws where "0 < pss_subscriber_count s" "length (queued s) < CAP" "dq_inv q"
      "items q = queued s @ [(m, pss_subscriber_count s)]" "sv_inv (mw_wakers sw)"
      "mw_registered (lib_subs L) (pss_subscriber_wakers s) \<subseteq> set ws"
      "pubsub_publish L s m cx = Ret (True, s\<lparr>pss_queue := q,
         pss_next_message_id := Suc (pss_next_message_id s), pss_subscriber_wakers := sw\<rparr>, ws)"
proof -
  note eval = pubsub_publish_def Pub_try_publish_def PublisherWaitFuture_poll_def
    PubSubChannel_publish_with_context_def
  have pvi: "pv_inv (mw_wakers (pss_publisher_wakers s))" using ok by (simp add: state_ok_def)
  show ?thesis
  proof (rule try_publish_cases [OF ok n, of m])
    assume "pss_subscriber_count s = 0" "PubSubState_try_publish L s m = Ret (Ok (), s, [])"
    then show ?thesis by (intro none) (simp_all add: eval split: option.split)
  next
    assume a: "0 < pss_subscriber_count s" "length (queued s) = CAP" "PubSubState_try_publish L s m = Ret (Err m, s, [])"
    show ?thesis
    proof (cases cx)
      case None
      with a pvi show ?thesis by (intro full [of "pss_publisher_wakers s" "[]"]) (simp_all add: eval)
    next
      case (Some w)
      from pv.mw.register_ret [OF pvi] obtain pw ws where
        r: "MultiWaker_register (lib_pubs L) (pss_publisher_wakers s) w = Ret (pw, ws)" by blast
      have "pubsub_publish L s m cx = Ret (False, s\<lparr>pss_publisher_wakers := pw\<rparr>, ws)"
        using a(3) r Some by (simp add: eval)
      with Some a(1,2) show ?thesis
        using pv.mw.register_inv [OF pvi r] pv.mw.register_self [OF pvi r] pv.mw.register_keeps [OF pvi r]
        by (intro full [of pw ws]) simp_all
    qed
  next
    fix q sw ws
    assume a: "0 < pss_subscriber_count s" "length (queued s) < CAP" "dq_inv q"
      "items q = queued s @ [(m, pss_subscriber_count s)]" "sv_inv (mw_wakers sw)"
      "mw_registered (lib_subs L) (pss_subscriber_wakers s) \<subseteq> set ws"
      "PubSubState_try_publish L s m = Ret (Ok (), s\<lparr>pss_queue := q,
         pss_next_message_id := Suc (pss_next_message_id s), pss_subscriber_wakers := sw\<rparr>, ws)"
    have "pubsub_publish L s m cx = Ret (True, s\<lparr>pss_queue := q,
         pss_next_message_id := Suc (pss_next_message_id s), pss_subscriber_wakers := sw\<rparr>, ws)"
      using a(7) by (simp add: eval split: option.split)
    with a(1-6) show ?thesis by (intro pushed [of q sw ws])
  qed
qed

end

lemma wake_sleepers_Some [simp]: "wake_sleepers ws m j = Some w \<longleftrightarrow> m j = Some w \<and> w \<notin> set ws"
  by (auto simp: wake_sleepers_def split: option.splits)

lemma unread_0D: "finite (dom subs) \<Longrightarrow> unread subs i = 0 \<Longrightarrow> subs j = Some y \<Longrightarrow> i < sub_next_message_id y"
  using unread_pos [of subs j y i] by (cases "sub_next_message_id y \<le> i") auto

lemma dropWhile_read:
  assumes fin: "finite (dom subs)" and y: "subs j = Some y" and st: "length pub - length q \<le> sub_next_message_id y"
    and len: "length q \<le> length pub"
    and le: "\<And>k. k < length q \<Longrightarrow> unread subs (length pub - length q + k) \<le> snd (q ! k)"
  shows "length pub - length (dropWhile (\<lambda>x. snd x = 0) q) \<le> sub_next_message_id y"
proof (cases "takeWhile (\<lambda>x. snd x = 0) q" rule: rev_cases)
  case Nil
  then have "dropWhile (\<lambda>x. snd x = 0) q = q" by (metis append_Nil takeWhile_dropWhile_id)
  with st show ?thesis by simp
next
  case (snoc xs z)
  let ?d = "length xs"
  have q: "q = xs @ z # dropWhile (\<lambda>x. snd x = 0) q" using snoc by (metis append.assoc append_Cons append_Nil takeWhile_dropWhile_id)
  have d: "?d < length q" "q ! ?d = z" by (subst q, simp)+
  have "z \<in> set (takeWhile (\<lambda>x. snd x = 0) q)" using snoc by simp
  then have "snd z = 0" by (auto dest: set_takeWhileD)
  then have "unread subs (length pub - length q + ?d) = 0" using le [OF d(1)] d(2) by simp
  from unread_0D [OF fin this y] have "length pub - length q + Suc ?d \<le> sub_next_message_id y" by simp
  moreover have "length q = Suc ?d + length (dropWhile (\<lambda>x. snd x = 0) q)" by (subst q) simp
  ultimately show ?thesis using len by linarith
qed

lemma exec_read_eq:
  fixes r :: "('q, 'v, 'w, 'a) pubsub_run"
  assumes "pr_subs r i = Some x" "pubsub_read L x (pr_state r) cx = Ret (v, x', s', ws)"
  obtains r' :: "('q, 'v, 'w, 'a) pubsub_run" where "pubsub_exec L SUBS PUBS r (OpRead i cx) = Some (Ret r')"
    "pr_state r' = s'" "pr_subs r' = (pr_subs r)(i \<mapsto> x')" "pr_from r' = pr_from r"
    "pr_log r' = (pr_log r)(i := pr_log r i @ read_result v)" "pr_published r' = pr_published r"
    "pr_publishers r' = pr_publishers r" "pr_waiting r' = pr_waiting r - set ws"
    "pr_asleep r' = (wake_sleepers ws ((pr_asleep r)(i := None)))(i := if v = None then cx else None)"
    "pr_lagged_drop r' = pr_lagged_drop r" "pr_immediate r' = pr_immediate r"
proof -
  have "pubsub_exec L SUBS PUBS r (OpRead i cx) = Some (Ret (r\<lparr>pr_state := s',
    pr_subs := (pr_subs r)(i \<mapsto> x'), pr_log := (pr_log r)(i := pr_log r i @ read_result v),
    pr_waiting := pr_waiting r - set ws,
    pr_asleep := (wake_sleepers ws ((pr_asleep r)(i := None)))(i := if v = None then cx else None)\<rparr>))"
    using assms by (simp add: pubsub_step_def Let_def)
  then show ?thesis by (rule that) simp_all
qed

context pubsub_laws
begin

definition pubsub_inv :: "('q, 'v, 'w, 'a) pubsub_run \<Rightarrow> bool" where
  "pubsub_inv r \<longleftrightarrow> run_inv r \<and> subs_inv r \<and> sleep_inv r"

lemma run_start: "run_inv r \<Longrightarrow> start_id (pr_state r) = length (pr_published r) - length (queued (pr_state r))"
  by (simp add: run_inv_def start_id_def)

lemma run_invD:
  assumes "run_inv r"
  shows "state_ok (pr_state r)" "pss_next_message_id (pr_state r) = length (pr_published r)"
    "queue_ok (\<not> pr_lagged_drop r) (queued (pr_state r)) (pr_published r) (pr_subs r)"
    "finite (dom (pr_subs r))" "pss_subscriber_count (pr_state r) = card (dom (pr_subs r))"
    "pss_subscriber_count (pr_state r) \<le> SUBS"
    "pss_publisher_count (pr_state r) = pr_publishers r" "pr_publishers r \<le> PUBS"
  using assms by (simp_all add: run_inv_def)

lemma subs_invD:
  assumes "subs_inv r" "pr_subs r j = Some x"
  shows "sub_next_message_id x \<le> length (pr_published r)"
    "replay (pr_published r) (pr_from r j) (pr_log r j) = Some (sub_next_message_id x)"
    "\<not> pr_immediate r \<Longrightarrow> start_id (pr_state r) \<le> sub_next_message_id x"
    "\<not> pr_immediate r \<Longrightarrow> list_all is_Message (pr_log r j)"
  using assms by (auto simp: subs_inv_def)

lemma subs_invI:
  assumes "\<And>j x. pr_subs r j = Some x \<Longrightarrow> sub_next_message_id x \<le> length (pr_published r)"
    "\<And>j x. pr_subs r j = Some x \<Longrightarrow> replay (pr_published r) (pr_from r j) (pr_log r j) = Some (sub_next_message_id x)"
    "\<And>j x. \<not> pr_immediate r \<Longrightarrow> pr_subs r j = Some x \<Longrightarrow> start_id (pr_state r) \<le> sub_next_message_id x"
    "\<And>j x. \<not> pr_immediate r \<Longrightarrow> pr_subs r j = Some x \<Longrightarrow> list_all is_Message (pr_log r j)"
  shows "subs_inv r"
  using assms by (auto simp: subs_inv_def)

text \<open>The counter of a message that a subscriber is about to read is positive.\<close>

lemma reader_counted:
  assumes inv: "run_inv r" and x: "pr_subs r j = Some x" and k: "k < length (queued (pr_state r))"
    and id: "sub_next_message_id x \<le> start_id (pr_state r) + k"
  shows "0 < snd (queued (pr_state r) ! k)"
proof -
  have "0 < unread (pr_subs r) (start_id (pr_state r) + k)"
    by (rule unread_pos [OF run_invD(4) [OF inv] x id])
  also have "\<dots> \<le> snd (queued (pr_state r) ! k)"
    using queue_okD(3) [OF run_invD(3) [OF inv] k] by (simp add: run_start [OF inv])
  finally show ?thesis .
qed

lemma queue_message:
  assumes inv: "run_inv r" and k: "k < length (queued (pr_state r))" "queued (pr_state r) ! k = (m, c)"
  shows "start_id (pr_state r) + k < length (pr_published r)" "pr_published r ! (start_id (pr_state r) + k) = m"
proof -
  note q = queue_okD(1,2) [OF run_invD(3) [OF inv]]
  show "start_id (pr_state r) + k < length (pr_published r)" using q(1) k(1) by (simp add: run_start [OF inv])
  have "m = map fst (queued (pr_state r)) ! k" using k by simp
  then show "pr_published r ! (start_id (pr_state r) + k) = m" using q k(1) by (simp add: run_start [OF inv])
qed

end

context pubsub_laws
begin

lemma read_step:
  fixes r :: "('q, 'v, 'w, 'a) pubsub_run"
  assumes inv: "pubsub_inv r" and x: "pr_subs r i = Some x" and n: "length (pr_published r) < u64_max"
  shows "\<exists>r'. pubsub_exec L SUBS PUBS r (OpRead i cx) = Some (Ret r') \<and> pubsub_inv r' \<and>
    pr_published r' = pr_published r"
proof -
  from inv have ri: "run_inv r" and si: "subs_inv r" and sl: "sleep_inv r" by (simp_all add: pubsub_inv_def)
  note d = run_invD [OF ri] and sx = subs_invD [OF si x]
  let ?s = "pr_state r" and ?pub = "pr_published r"
  have ok: "state_ok ?s" and mid: "sub_next_message_id x \<le> pss_next_message_id ?s"
    and n': "pss_next_message_id ?s < u64_max" using d(1,2) sx(1) n by simp_all
  have pos: "0 < snd (queued ?s ! k)" if "k < length (queued ?s)" "sub_next_message_id x = start_id ?s + k" for k
    using reader_counted [OF ri x that(1)] that(2) by simp
  have dom: "insert i (dom (pr_subs r)) = dom (pr_subs r)" using x by auto
  show ?thesis
  proof (rule read_cases [OF ok mid n' pos])
    assume a: "sub_next_message_id x < start_id ?s"
      "pubsub_read L x ?s cx = Ret (Some (Lagged (start_id ?s - sub_next_message_id x)),
         \<lparr>sub_next_message_id = start_id ?s\<rparr>, ?s, [])"
    obtain r' where r': "pubsub_exec L SUBS PUBS r (OpRead i cx) = Some (Ret r')"
      and f: "pr_state r' = ?s" "pr_subs r' = (pr_subs r)(i \<mapsto> \<lparr>sub_next_message_id = start_id ?s\<rparr>)"
        "pr_from r' = pr_from r" "pr_log r' = (pr_log r)(i := pr_log r i @ [Lagged (start_id ?s - sub_next_message_id x)])"
        "pr_published r' = ?pub" "pr_publishers r' = pr_publishers r" "pr_waiting r' = pr_waiting r"
        "pr_asleep r' = (wake_sleepers [] ((pr_asleep r)(i := None)))(i := None)"
        "pr_lagged_drop r' = pr_lagged_drop r" "pr_immediate r' = pr_immediate r"
      by (rule exec_read_eq [OF x a(2), of SUBS PUBS]) simp
    have imm: "pr_immediate r" using sx(3) a(1) by auto
    have "unread (pr_subs r') i = unread (pr_subs r) i" if "start_id ?s \<le> i" for i
      using unread_move [OF d(4) x, of "start_id ?s" i] a(1) that unfolding f(2) by auto
    then have "queue_ok (\<not> pr_lagged_drop r) (queued ?s) ?pub (pr_subs r')"
      by (intro queue_ok_subs [OF d(3)]) (simp add: run_start [OF ri])
    with d have "run_inv r'" by (simp add: run_inv_def f dom)
    moreover have "subs_inv r'"
      using si sx(2) a(1) imm by (auto simp: subs_inv_def f replay_snoc start_id_def d(2))
    moreover have "sleep_inv r'" using sl by (auto simp: sleep_inv_def f)
    ultimately show ?thesis using r' f(5) by (auto simp: pubsub_inv_def)
  next
    fix sw ws
    assume a: "sub_next_message_id x = pss_next_message_id ?s"
      "pubsub_read L x ?s cx = Ret (None, x, ?s\<lparr>pss_subscriber_wakers := sw\<rparr>, ws)" "sv_inv (mw_wakers sw)"
      "mw_registered (lib_subs L) (pss_subscriber_wakers ?s) \<subseteq> mw_registered (lib_subs L) sw \<union> set ws"
      "set_option cx \<subseteq> mw_registered (lib_subs L) sw"
    let ?s' = "?s\<lparr>pss_subscriber_wakers := sw\<rparr>"
    obtain r' where r': "pubsub_exec L SUBS PUBS r (OpRead i cx) = Some (Ret r')"
      and f: "pr_state r' = ?s'" "pr_subs r' = pr_subs r" "pr_from r' = pr_from r" "pr_log r' = pr_log r"
        "pr_published r' = ?pub" "pr_publishers r' = pr_publishers r" "pr_waiting r' = pr_waiting r - set ws"
        "pr_asleep r' = (wake_sleepers ws ((pr_asleep r)(i := None)))(i := cx)"
        "pr_lagged_drop r' = pr_lagged_drop r" "pr_immediate r' = pr_immediate r"
      by (rule exec_read_eq [OF x a(2), of SUBS PUBS]) (use x in \<open>simp add: fun_upd_idem\<close>)
    have q: "queued ?s' = queued ?s" "start_id ?s' = start_id ?s" by (simp_all add: queued_def start_id_def)
    have "state_ok ?s'" using ok a(3) by (simp add: state_ok_def)
    with d have "run_inv r'" by (simp add: run_inv_def f q)
    moreover have "subs_inv r'" using si by (simp add: subs_inv_def f q)
    moreover have "sleep_inv r'" using sl a(1,4,5) x by (auto simp: sleep_inv_def f q d(2))
    ultimately show ?thesis using r' f(5) by (auto simp: pubsub_inv_def)
  next
    fix m q' rest pw ws
    assume a: "sub_next_message_id x = start_id ?s" "queued ?s = (m, 1) # rest" "dq_inv q'"
      "items q' = rest" "pv_inv (mw_wakers pw)"
      "mw_registered (lib_pubs L) (pss_publisher_wakers ?s) \<subseteq> set ws"
      "pubsub_read L x ?s cx = Ret (Some (Message m), \<lparr>sub_next_message_id = Suc (sub_next_message_id x)\<rparr>,
         ?s\<lparr>pss_queue := q', pss_publisher_wakers := pw\<rparr>, ws)"
    let ?s' = "?s\<lparr>pss_queue := q', pss_publisher_wakers := pw\<rparr>" and ?x' = "\<lparr>sub_next_message_id = Suc (sub_next_message_id x)\<rparr>"
    obtain r' where r': "pubsub_exec L SUBS PUBS r (OpRead i cx) = Some (Ret r')"
      and f: "pr_state r' = ?s'" "pr_subs r' = (pr_subs r)(i \<mapsto> ?x')"
        "pr_from r' = pr_from r" "pr_log r' = (pr_log r)(i := pr_log r i @ [Message m])"
        "pr_published r' = ?pub" "pr_publishers r' = pr_publishers r" "pr_waiting r' = pr_waiting r - set ws"
        "pr_asleep r' = (wake_sleepers ws ((pr_asleep r)(i := None)))(i := None)"
        "pr_lagged_drop r' = pr_lagged_drop r" "pr_immediate r' = pr_immediate r"
      by (rule exec_read_eq [OF x a(7), of SUBS PUBS]) simp
    have q': "queued ?s' = rest" by (simp add: queued_def a(4))
    have msg: "start_id ?s < length ?pub" "?pub ! start_id ?s = m" using queue_message [OF ri, of 0 m 1] a(2) by simp_all
    have st: "start_id ?s' = Suc (start_id ?s)"
      using queue_okD(1) [OF d(3)] a(2) by (simp add: start_id_def q' d(2))
    have qo: "queue_ok (\<not> pr_lagged_drop r) rest ?pub (pr_subs r')"
      using d(3) a(2) a(1) run_start [OF ri] unfolding f(2) by (intro queue_ok_pop [OF _ d(4) x, where m = m]) simp_all
    have "state_ok ?s'" using ok a by (simp add: state_ok_def queued_def)
    with d qo have "run_inv r'" by (simp add: run_inv_def f q' dom)
    moreover have "subs_inv r'"
    proof (rule subs_invI)
      have "unread (pr_subs r') (start_id ?s) = unread (pr_subs r) (start_id ?s) - 1"
        unfolding f(2) using unread_move [OF d(4) x, of "Suc (sub_next_message_id x)"] a(1) by simp
      moreover have "unread (pr_subs r) (start_id ?s) \<le> 1"
        using queue_okD(3) [OF d(3), of 0] a(2) run_start [OF ri] by simp
      ultimately have u: "unread (pr_subs r') (start_id ?s) = 0" by simp
      show "start_id (pr_state r') \<le> sub_next_message_id y" if "pr_subs r' j = Some y" for j y
      proof -
        have "finite (dom (pr_subs r'))" using d(4) by (simp add: f(2))
        from unread_0D [OF this u that] show ?thesis by (simp add: f(1) st)
      qed
    qed (use si sx a(1) msg in \<open>auto simp: subs_inv_def f replay_snoc split: if_splits\<close>)
    moreover have "sleep_inv r'"
    proof -
      have "\<not> pr_lagged_drop r \<Longrightarrow> pr_waiting r' = {}" using sl a(6) by (auto simp: sleep_inv_def f)
      then show ?thesis using sl by (auto simp: sleep_inv_def f)
    qed
    ultimately show ?thesis using r' f(5) by (auto simp: pubsub_inv_def)
  next
    fix k m c q'
    assume a: "sub_next_message_id x = start_id ?s + k" "k < length (queued ?s)" "queued ?s ! k = (m, Suc c)"
      "k \<noteq> 0 \<or> c \<noteq> 0" "dq_inv q'" "items q' = (queued ?s)[k := (m, c)]"
      "pubsub_read L x ?s cx = Ret (Some (Message m), \<lparr>sub_next_message_id = Suc (sub_next_message_id x)\<rparr>,
         ?s\<lparr>pss_queue := q'\<rparr>, [])"
    let ?s' = "?s\<lparr>pss_queue := q'\<rparr>" and ?x' = "\<lparr>sub_next_message_id = Suc (sub_next_message_id x)\<rparr>"
    obtain r' where r': "pubsub_exec L SUBS PUBS r (OpRead i cx) = Some (Ret r')"
      and f: "pr_state r' = ?s'" "pr_subs r' = (pr_subs r)(i \<mapsto> ?x')"
        "pr_from r' = pr_from r" "pr_log r' = (pr_log r)(i := pr_log r i @ [Message m])"
        "pr_published r' = ?pub" "pr_publishers r' = pr_publishers r" "pr_waiting r' = pr_waiting r"
        "pr_asleep r' = (wake_sleepers [] ((pr_asleep r)(i := None)))(i := None)"
        "pr_lagged_drop r' = pr_lagged_drop r" "pr_immediate r' = pr_immediate r"
      by (rule exec_read_eq [OF x a(7), of SUBS PUBS]) simp
    have q': "queued ?s' = (queued ?s)[k := (m, c)]" by (simp add: queued_def a(6))
    have st: "start_id ?s' = start_id ?s" by (simp add: start_id_def q')
    note msg = queue_message [OF ri a(2,3)]
    have qo: "queue_ok (\<not> pr_lagged_drop r) (queued ?s') ?pub (pr_subs r')"
      using a(1) run_start [OF ri] unfolding f(2) q' by (intro queue_ok_read [OF d(3,4) x _ a(2,3,4)]) simp
    have "state_ok ?s'" using ok a(5,6) by (simp add: state_ok_def queued_def)
    with d qo have "run_inv r'" by (simp add: run_inv_def f dom)
    moreover have "subs_inv r'" using si sx a(1) msg by (auto simp: subs_inv_def f replay_snoc st)
    moreover have "sleep_inv r'" using sl by (auto simp: sleep_inv_def f q')
    ultimately show ?thesis using r' f(5) by (auto simp: pubsub_inv_def)
  qed
qed

end

context pubsub_laws
begin

lemma note_published_eq:
  "pr_state (pubsub_step s ws (note_published m s r)) = s" "pr_subs (pubsub_step s ws (note_published m s r)) = pr_subs r"
  "pr_from (pubsub_step s ws (note_published m s r)) = pr_from r" "pr_log (pubsub_step s ws (note_published m s r)) = pr_log r"
  "pr_publishers (pubsub_step s ws (note_published m s r)) = pr_publishers r"
  "pr_asleep (pubsub_step s ws (note_published m s r)) = wake_sleepers ws (pr_asleep r)"
  "pr_waiting (pubsub_step s ws (note_published m s r)) = pr_waiting r - set ws"
  "pr_lagged_drop (pubsub_step s ws (note_published m s r)) = pr_lagged_drop r"
  "pr_immediate (pubsub_step s ws (note_published m s r)) = pr_immediate r"
  "pr_published (pubsub_step s ws (note_published m s r)) =
     (if pss_next_message_id s = pss_next_message_id (pr_state r) then pr_published r else pr_published r @ [m])"
  by (simp_all add: note_published_def pubsub_step_def)

text \<open>A message that is pushed behind what is left of the queue, which has kept its newest messages.\<close>

lemma push_keeps:
  assumes ri: "run_inv r" and si: "subs_inv r" and sl: "sleep_inv r" and count: "0 < pss_subscriber_count (pr_state r)"
    and s: "s = (pr_state r)\<lparr>pss_queue := q, pss_next_message_id := Suc (pss_next_message_id (pr_state r)),
      pss_subscriber_wakers := sw\<rparr>"
    and q: "dq_inv q" "items q = old @ [(m, pss_subscriber_count (pr_state r))]"
      "queue_ok (\<not> pr_lagged_drop r) old (pr_published r) (pr_subs r)"
    and sw: "sv_inv (mw_wakers sw)" "mw_registered (lib_subs L) (pss_subscriber_wakers (pr_state r)) \<subseteq> set ws"
    and old: "old = queued (pr_state r) \<or> pr_immediate r'"
    and wait: "\<not> pr_lagged_drop r \<Longrightarrow> pr_waiting r' \<noteq> {} \<Longrightarrow> length (items q) = CAP" "pr_waiting r' \<subseteq> pr_waiting r"
    and r': "pr_state r' = s" "pr_subs r' = pr_subs r" "pr_from r' = pr_from r" "pr_log r' = pr_log r"
      "pr_published r' = pr_published r @ [m]" "pr_publishers r' = pr_publishers r"
      "pr_asleep r' = wake_sleepers ws (pr_asleep r)" "pr_lagged_drop r' = pr_lagged_drop r"
      "pr_immediate r \<Longrightarrow> pr_immediate r'"
  shows "pubsub_inv r'"
proof -
  note d = run_invD [OF ri]
  have qs: "queued s = old @ [(m, pss_subscriber_count (pr_state r))]" by (simp add: s queued_def q)
  have "queue_ok (\<not> pr_lagged_drop r) (queued s) (pr_published r') (pr_subs r)"
    unfolding qs r'(5) d(5) using q(3) d(4,5) count subs_invD(1) [OF si] by (intro queue_ok_push) auto
  moreover have "state_ok s"
    using d(1) q(1,2) sw(1) queue_okD(1) [OF q(3)] by (simp add: state_ok_def s d(2))
  ultimately have "run_inv r'" using d by (simp add: run_inv_def r' s)
  moreover have "subs_inv r'"
  proof (rule subs_invI)
    fix j x
    assume "pr_subs r' j = Some x"
    then have x: "pr_subs r j = Some x" by (simp add: r')
    show "sub_next_message_id x \<le> length (pr_published r')" using subs_invD(1) [OF si x] by (simp add: r')
    show "replay (pr_published r') (pr_from r' j) (pr_log r' j) = Some (sub_next_message_id x)"
      using subs_invD(2) [OF si x] by (simp add: r' replay_append)
    assume imm: "\<not> pr_immediate r'"
    moreover have "pss_next_message_id s = Suc (pss_next_message_id (pr_state r))" by (simp add: s)
    ultimately have "start_id s = start_id (pr_state r)" using old by (simp add: start_id_def qs)
    then show "start_id (pr_state r') \<le> sub_next_message_id x" "list_all is_Message (pr_log r' j)"
      using subs_invD(3,4) [OF si x] imm r'(1,4,9) by auto
  qed
  moreover have "sleep_inv r'"
  proof -
    have "pr_asleep r' j = None" for j
      using sl sw(2) by (cases "pr_asleep r j") (auto simp: r' wake_sleepers_def sleep_inv_def)
    then show ?thesis using sl wait by (auto simp: sleep_inv_def r' s queued_def)
  qed
  ultimately show ?thesis by (simp add: pubsub_inv_def)
qed

lemma publish_step:
  fixes r :: "('q, 'v, 'w, 'a) pubsub_run"
  assumes inv: "pubsub_inv r" and n: "length (pr_published r) < u64_max"
  shows "\<exists>r'. pubsub_exec L SUBS PUBS r (OpPublish m cx) = Some (Ret r') \<and> pubsub_inv r' \<and>
    length (pr_published r') \<le> Suc (length (pr_published r))"
proof -
  from inv have ri: "run_inv r" and si: "subs_inv r" and sl: "sleep_inv r" by (simp_all add: pubsub_inv_def)
  note d = run_invD [OF ri]
  have n': "pss_next_message_id (pr_state r) < u64_max" using n d(2) by simp
  show ?thesis
  proof (rule publish_cases [OF d(1) n', of m cx])
    assume a: "pss_subscriber_count (pr_state r) = 0" "pubsub_publish L (pr_state r) m cx = Ret (True, pr_state r, [])"
    define r' where "r' = r\<lparr>pr_asleep := wake_sleepers [] (pr_asleep r), pr_waiting := pr_waiting r - set_option cx\<rparr>"
    have "pubsub_exec L SUBS PUBS r (OpPublish m cx) = Some (Ret r')"
      using a(2) by (simp add: pubsub_step_def note_published_def r'_def)
    moreover have "run_inv r'" "subs_inv r'" "sleep_inv r'"
      using ri si sl by (auto simp: run_inv_def subs_inv_def sleep_inv_def r'_def)
    ultimately show ?thesis by (auto simp: pubsub_inv_def r'_def)
  next
    fix pw ws
    assume a: "0 < pss_subscriber_count (pr_state r)" "length (queued (pr_state r)) = CAP"
      "pubsub_publish L (pr_state r) m cx = Ret (False, (pr_state r)\<lparr>pss_publisher_wakers := pw\<rparr>, ws)"
      "pv_inv (mw_wakers pw)"
      "mw_registered (lib_pubs L) (pss_publisher_wakers (pr_state r)) \<subseteq> mw_registered (lib_pubs L) pw \<union> set ws"
      "set_option cx \<subseteq> mw_registered (lib_pubs L) pw"
    let ?s = "(pr_state r)\<lparr>pss_publisher_wakers := pw\<rparr>"
    define r' where "r' = r\<lparr>pr_state := ?s, pr_asleep := wake_sleepers ws (pr_asleep r),
      pr_waiting := pr_waiting r - set ws \<union> set_option cx\<rparr>"
    have q: "queued ?s = queued (pr_state r)" "start_id ?s = start_id (pr_state r)"
      by (simp_all add: queued_def start_id_def)
    have "pubsub_exec L SUBS PUBS r (OpPublish m cx) = Some (Ret r')"
      using a(3) by (simp add: pubsub_step_def note_published_def r'_def)
    moreover have "state_ok ?s" using d(1) a(4) by (simp add: state_ok_def)
    then have "run_inv r'" using d by (simp add: run_inv_def r'_def q)
    moreover have "subs_inv r'" using si by (simp add: subs_inv_def r'_def q)
    moreover have "sleep_inv r'" using sl a(2,5,6) by (auto simp: sleep_inv_def r'_def q)
    ultimately show ?thesis by (auto simp: pubsub_inv_def r'_def)
  next
    fix q sw ws
    assume a: "0 < pss_subscriber_count (pr_state r)" "length (queued (pr_state r)) < CAP" "dq_inv q"
      "items q = queued (pr_state r) @ [(m, pss_subscriber_count (pr_state r))]" "sv_inv (mw_wakers sw)"
      "mw_registered (lib_subs L) (pss_subscriber_wakers (pr_state r)) \<subseteq> set ws"
      "pubsub_publish L (pr_state r) m cx = Ret (True, (pr_state r)\<lparr>pss_queue := q,
         pss_next_message_id := Suc (pss_next_message_id (pr_state r)), pss_subscriber_wakers := sw\<rparr>, ws)"
    define s where "s = (pr_state r)\<lparr>pss_queue := q,
      pss_next_message_id := Suc (pss_next_message_id (pr_state r)), pss_subscriber_wakers := sw\<rparr>"
    define r' where "r' = (pubsub_step s ws (note_published m s r))\<lparr>pr_waiting := pr_waiting r - set ws - set_option cx\<rparr>"
    have "pubsub_exec L SUBS PUBS r (OpPublish m cx) = Some (Ret r')"
      using a(7) by (simp add: note_published_eq r'_def s_def Let_def)
    moreover have "\<not> pr_lagged_drop r \<Longrightarrow> pr_waiting r' = {}"
      using sl a(2) by (auto simp: sleep_inv_def r'_def)
    then have "pubsub_inv r'"
      by (intro push_keeps [OF ri si sl a(1) s_def a(3,4) d(3) a(5,6)])
        (auto simp: note_published_eq r'_def s_def)
    ultimately show ?thesis by (auto simp: r'_def note_published_eq)
  qed
qed

end

context pubsub_laws
begin

lemma publish_immediate_step:
  fixes r :: "('q, 'v, 'w, 'a) pubsub_run"
  assumes inv: "pubsub_inv r" and n: "length (pr_published r) < u64_max"
  shows "\<exists>r'. pubsub_exec L SUBS PUBS r (OpPublishImmediate m) = Some (Ret r') \<and> pubsub_inv r' \<and>
    length (pr_published r') \<le> Suc (length (pr_published r))"
proof -
  from inv have ri: "run_inv r" and si: "subs_inv r" and sl: "sleep_inv r" by (simp_all add: pubsub_inv_def)
  note d = run_invD [OF ri]
  have n': "pss_next_message_id (pr_state r) < u64_max" using n d(2) by simp
  define old where "old = (if length (queued (pr_state r)) = CAP then tl (queued (pr_state r)) else queued (pr_state r))"
  have old: "queue_ok (\<not> pr_lagged_drop r) old (pr_published r) (pr_subs r)"
    using d(3) queue_ok_tl [OF d(3,4)] by (simp add: old_def)
  show ?thesis
  proof (rule publish_immediate_cases [OF d(1) n', of m])
    fix q
    assume a: "pss_subscriber_count (pr_state r) = 0" "dq_inv q"
      "items q = (if length (queued (pr_state r)) = CAP then tl (queued (pr_state r)) else queued (pr_state r))"
      "PubSubState_publish_immediate L (pr_state r) m = Ret ((pr_state r)\<lparr>pss_queue := q\<rparr>, [])"
    let ?s = "(pr_state r)\<lparr>pss_queue := q\<rparr>"
    define r' where "r' = r\<lparr>pr_state := ?s, pr_asleep := wake_sleepers [] (pr_asleep r), pr_immediate := True\<rparr>"
    have q: "queued ?s = old" by (simp add: queued_def a(3) old_def)
    have nobody: "pr_subs r = Map.empty" using a(1) d(4,5) by simp
    have exact: "queued (pr_state r) = []" if "\<not> pr_lagged_drop r"
    proof (rule ccontr)
      assume "queued (pr_state r) \<noteq> []"
      then have "0 < unread (pr_subs r) (length (pr_published r) - length (queued (pr_state r)) + 0)"
        using queue_okD(4,5) [OF d(3)] that by (metis length_greater_0_conv)
      then show False by (simp add: unread_def nobody)
    qed
    have "pubsub_exec L SUBS PUBS r (OpPublishImmediate m) = Some (Ret r')"
      using a(4) by (simp add: Pub_publish_immediate_def PubSubChannel_publish_immediate_def pubsub_step_def note_published_def r'_def)
    moreover have "state_ok ?s" using d(1,2) a(2) q queue_okD(1) [OF old] by (simp add: state_ok_def queued_def)
    then have "run_inv r'" using d old by (simp add: run_inv_def r'_def q)
    moreover have "subs_inv r'" by (simp add: subs_inv_def r'_def nobody)
    moreover have "sleep_inv r'" using sl exact cap(1) by (auto simp: sleep_inv_def r'_def q old_def nobody)
    ultimately show ?thesis by (auto simp: pubsub_inv_def r'_def)
  next
    fix q sw ws
    assume a: "0 < pss_subscriber_count (pr_state r)" "dq_inv q"
      "items q = (if length (queued (pr_state r)) = CAP then tl (queued (pr_state r)) else queued (pr_state r)) @
         [(m, pss_subscriber_count (pr_state r))]"
      "sv_inv (mw_wakers sw)" "mw_registered (lib_subs L) (pss_subscriber_wakers (pr_state r)) \<subseteq> set ws"
      "PubSubState_publish_immediate L (pr_state r) m = Ret ((pr_state r)\<lparr>pss_queue := q,
         pss_next_message_id := Suc (pss_next_message_id (pr_state r)), pss_subscriber_wakers := sw\<rparr>, ws)"
    define s where "s = (pr_state r)\<lparr>pss_queue := q,
      pss_next_message_id := Suc (pss_next_message_id (pr_state r)), pss_subscriber_wakers := sw\<rparr>"
    define r' where "r' = (pubsub_step s ws (note_published m s r))\<lparr>pr_immediate := True\<rparr>"
    have "pubsub_exec L SUBS PUBS r (OpPublishImmediate m) = Some (Ret r')"
      using a(6) by (simp add: Pub_publish_immediate_def PubSubChannel_publish_immediate_def r'_def s_def)
    moreover have "length (items q) = CAP" if "\<not> pr_lagged_drop r" "pr_waiting r' \<noteq> {}"
      using sl that a(3) cap(1) by (auto simp: sleep_inv_def r'_def note_published_eq)
    then have "pubsub_inv r'"
      by (intro push_keeps [OF ri si sl a(1) s_def a(2) a(3) [folded old_def] old a(4,5)])
        (auto simp: note_published_eq r'_def s_def)
    ultimately show ?thesis by (auto simp: r'_def note_published_eq)
  qed
qed

lemma subscribe_step:
  fixes r :: "('q, 'v, 'w, 'a) pubsub_run"
  assumes inv: "pubsub_inv r"
  shows "\<exists>r'. pubsub_exec L SUBS PUBS r (OpSubscribe i) = Some (Ret r') \<and> pubsub_inv r' \<and>
    pr_published r' = pr_published r"
proof (cases "pr_subs r i = None \<and> pss_subscriber_count (pr_state r) < SUBS")
  case False
  with inv show ?thesis by (auto simp: PubSubChannel_subscriber_def)
next
  case True
  from inv have ri: "run_inv r" and si: "subs_inv r" and sl: "sleep_inv r" by (simp_all add: pubsub_inv_def)
  note d = run_invD [OF ri]
  let ?s = "(pr_state r)\<lparr>pss_subscriber_count := Suc (pss_subscriber_count (pr_state r))\<rparr>"
    and ?x = "\<lparr>sub_next_message_id = length (pr_published r)\<rparr>"
  define r' where "r' = r\<lparr>pr_state := ?s, pr_subs := (pr_subs r)(i \<mapsto> ?x),
    pr_from := (pr_from r)(i := length (pr_published r)), pr_log := (pr_log r)(i := []),
    pr_asleep := (pr_asleep r)(i := None)\<rparr>"
  have "pubsub_exec L SUBS PUBS r (OpSubscribe i) = Some (Ret r')"
    using True slots(1) d(2) by (simp add: PubSubChannel_subscriber_def Sub_new_def r'_def)
  moreover have "queue_ok (\<not> pr_lagged_drop r) (queued (pr_state r)) (pr_published r) (pr_subs r')"
  proof (rule queue_ok_subs [OF d(3)])
    fix k
    assume "k < length (queued (pr_state r))"
    then show "unread (pr_subs r') (length (pr_published r) - length (queued (pr_state r)) + k) =
        unread (pr_subs r) (length (pr_published r) - length (queued (pr_state r)) + k)"
      using True queue_okD(1) [OF d(3)] by (simp add: r'_def unread_new)
  qed
  moreover have "i \<notin> dom (pr_subs r)" using True by auto
  ultimately have "pubsub_exec L SUBS PUBS r (OpSubscribe i) = Some (Ret r') \<and> run_inv r'"
    using d True by (simp add: run_inv_def r'_def del: pubsub_exec.simps)
  moreover have "subs_inv r'"
    using si True run_start [OF ri] by (auto simp: subs_inv_def r'_def)
  moreover have "sleep_inv r'" using sl True by (auto simp: sleep_inv_def r'_def)
  ultimately show ?thesis by (intro exI [of _ r']) (simp add: pubsub_inv_def r'_def del: pubsub_exec.simps)
qed

end

context pubsub_laws
begin

lemma unsubscribe_start:
  assumes ri: "run_inv r" and x: "pr_subs r i = Some x" and y: "((pr_subs r)(i := None)) j = Some y"
    and id: "start_id (pr_state r) \<le> sub_next_message_id x" and st: "start_id (pr_state r) \<le> sub_next_message_id y"
  shows "length (pr_published r) -
      length (dropWhile (\<lambda>x. snd x = 0) (without_reader (sub_next_message_id x - start_id (pr_state r)) (queued (pr_state r)))) \<le>
    sub_next_message_id y"
proof -
  note d = run_invD [OF ri]
  let ?q = "queued (pr_state r)" and ?k = "sub_next_message_id x - start_id (pr_state r)"
  let ?q' = "without_reader ?k ?q" and ?n = "length (pr_published r) - length (queued (pr_state r))"
  have len: "length ?q' = length ?q" by (simp add: without_reader_def)
  have nth: "snd (?q' ! l) = (if l < ?k then snd (?q ! l) else snd (?q ! l) - 1)" if "l < length ?q" for l
    using that by (auto simp: without_reader_def nth_append case_prod_unfold min_def)
  show ?thesis
  proof (rule dropWhile_read [where subs = "(pr_subs r)(i := None)" and j = j])
    fix l
    assume "l < length ?q'"
    then have l: "l < length ?q" by (simp add: len)
    have "sub_next_message_id x \<le> ?n + l \<longleftrightarrow> \<not> l < ?k" using id run_start [OF ri] by auto
    then show "unread ((pr_subs r)(i := None)) (length (pr_published r) - length ?q' + l) \<le> snd (?q' ! l)"
      using queue_okD(3) [OF d(3) l] unfolding len nth [OF l] unread_drop [OF d(4) x]
      by (cases "l < ?k") (simp_all add: diff_le_mono)
  qed (use y d(4) st queue_okD(1) [OF d(3)] run_start [OF ri] in \<open>simp_all add: len\<close>)
qed

end

context pubsub_laws
begin

lemma unsubscribe_step:
  fixes r :: "('q, 'v, 'w, 'a) pubsub_run"
  assumes inv: "pubsub_inv r"
  shows "\<exists>r'. pubsub_exec L SUBS PUBS r (OpUnsubscribe i) = Some (Ret r') \<and> pubsub_inv r' \<and>
    pr_published r' = pr_published r"
proof (cases "pr_subs r i")
  case None
  with inv show ?thesis by simp
next
  case x: (Some x)
  from inv have ri: "run_inv r" and si: "subs_inv r" and sl: "sleep_inv r" by (simp_all add: pubsub_inv_def)
  note d = run_invD [OF ri] and sx = subs_invD [OF si x]
  let ?s = "pr_state r" and ?pub = "pr_published r" and ?subs = "(pr_subs r)(i := None)"
  let ?c = "pss_subscriber_count ?s - 1"
  have count: "0 < pss_subscriber_count ?s" "?c = card (dom ?subs)" "?c \<le> SUBS" "finite (dom ?subs)"
  proof -
    have "i \<in> dom (pr_subs r)" using x by auto
    then show "0 < pss_subscriber_count ?s" "?c = card (dom ?subs)" "?c \<le> SUBS" "finite (dom ?subs)"
      using d(4,5,6) by (auto simp: card_gt_0_iff)
  qed
  have len: "Deque_len (lib_queue L) (pss_queue ?s) = length (queued ?s)"
    using d(1) by (simp add: state_ok_def queued_def)
  have lag: "pss_next_message_id ?s - Deque_len (lib_queue L) (pss_queue ?s) = start_id ?s"
    unfolding len by (simp add: start_id_def)
  have eq: "pubsub_exec L SUBS PUBS r (OpUnsubscribe i) = Some (Ret (pubsub_step s ws (r\<lparr>pr_subs := ?subs,
      pr_asleep := (pr_asleep r)(i := None), pr_lagged_drop := pr_lagged_drop r \<or> sub_next_message_id x < start_id ?s\<rparr>)))"
    if "PubSubState_unregister_subscriber L ?s (sub_next_message_id x) = Some (Ret (s, ws))" for s ws
    using that x by (simp add: Sub_drop_def PubSubChannel_unregister_subscriber_def lag Let_def)
  show ?thesis
  proof (rule unregister_cases [OF d(1) count(1), of "sub_next_message_id x"])
    show "sub_next_message_id x \<le> pss_next_message_id ?s" using sx(1) d(2) by simp
    show "0 < snd (queued ?s ! k)" if "k < length (queued ?s)" "sub_next_message_id x \<le> start_id ?s + k" for k
      using reader_counted [OF ri x] that by simp
  next
    assume a: "sub_next_message_id x < start_id ?s"
      "PubSubState_unregister_subscriber L ?s (sub_next_message_id x) = Some (Ret (?s\<lparr>pss_subscriber_count := ?c\<rparr>, []))"
    define r' where "r' = pubsub_step (?s\<lparr>pss_subscriber_count := ?c\<rparr>) [] (r\<lparr>pr_subs := ?subs,
      pr_asleep := (pr_asleep r)(i := None), pr_lagged_drop := True\<rparr>)"
    have "pubsub_exec L SUBS PUBS r (OpUnsubscribe i) = Some (Ret r')" using eq [OF a(2)] a(1) by (simp add: r'_def)
    moreover have "run_inv r'"
      using d count queue_ok_lagged_drop [OF d(3,4) x] by (simp add: run_inv_def r'_def pubsub_step_def)
    moreover have "subs_inv r'" using si by (auto simp: subs_inv_def r'_def pubsub_step_def)
    moreover have "sleep_inv r'" using sl by (auto simp: sleep_inv_def r'_def pubsub_step_def)
    ultimately show ?thesis by (auto simp: pubsub_inv_def r'_def pubsub_step_def)
  next
    fix q pw ws
    assume a: "start_id ?s \<le> sub_next_message_id x" "dq_inv q" "pv_inv (mw_wakers pw)"
      "items q = dropWhile (\<lambda>x. snd x = 0) (without_reader (sub_next_message_id x - start_id ?s) (queued ?s))"
      "mw_registered (lib_pubs L) (pss_publisher_wakers ?s) \<subseteq> mw_registered (lib_pubs L) pw \<union> set ws"
      "length (items q) = length (queued ?s) \<or> mw_registered (lib_pubs L) (pss_publisher_wakers ?s) \<subseteq> set ws"
      "PubSubState_unregister_subscriber L ?s (sub_next_message_id x) = Some (Ret (?s\<lparr>pss_subscriber_count := ?c,
         pss_queue := q, pss_publisher_wakers := pw\<rparr>, ws))"
    let ?s' = "?s\<lparr>pss_subscriber_count := ?c, pss_queue := q, pss_publisher_wakers := pw\<rparr>"
    define r' where "r' = pubsub_step ?s' ws (r\<lparr>pr_subs := ?subs, pr_asleep := (pr_asleep r)(i := None)\<rparr>)"
    have "\<not> sub_next_message_id x < start_id ?s" using a(1) by simp
    with eq [OF a(7)] have "pubsub_exec L SUBS PUBS r (OpUnsubscribe i) = Some (Ret r')" by (simp add: r'_def)
    moreover have q: "queued (?s\<lparr>pss_subscriber_count := z, pss_queue := q, pss_publisher_wakers := pw\<rparr>) = items q" for z
      by (simp add: queued_def)
    have qo: "queue_ok (\<not> pr_lagged_drop r) (items q) ?pub ?subs"
      unfolding a(4) run_start [OF ri]
      by (rule queue_ok_drop [OF d(3,4) x]) (use a(1) sx(1) run_start [OF ri] in simp_all)
    have "state_ok ?s'" using d(1,2) a(2,3) queue_okD(1) [OF qo] by (simp add: state_ok_def)
    then have ri': "run_inv r'" using d count qo by (simp add: run_inv_def r'_def pubsub_step_def q)
    moreover have "subs_inv r'"
    proof (rule subs_invI)
      fix j y
      assume imm: "\<not> pr_immediate r'" and y: "pr_subs r' j = Some y"
      then have y': "?subs j = Some y" "pr_subs r j = Some y" by (auto simp: r'_def pubsub_step_def split: if_splits)
      have "start_id ?s \<le> sub_next_message_id y"
        using subs_invD(3) [OF si y'(2)] imm by (simp add: r'_def pubsub_step_def)
      then have "length ?pub - length (items q) \<le> sub_next_message_id y"
        unfolding a(4) by (rule unsubscribe_start [OF ri x y'(1) a(1)])
      then show "start_id (pr_state r') \<le> sub_next_message_id y"
        using run_start [OF ri'] by (simp add: r'_def pubsub_step_def q)
    qed (use si in \<open>auto simp: subs_inv_def r'_def pubsub_step_def split: if_splits\<close>)
    moreover have "sleep_inv r'"
    proof -
      have "pr_waiting r' = {}" if "\<not> pr_lagged_drop r" "length (items q) \<noteq> length (queued ?s)"
        using sl a(6) that by (auto simp: sleep_inv_def r'_def pubsub_step_def)
      then show ?thesis using sl a(5) by (auto simp: sleep_inv_def r'_def pubsub_step_def q)
    qed
    ultimately show ?thesis by (auto simp: pubsub_inv_def r'_def pubsub_step_def)
  qed
qed

end

context pubsub_laws
begin

lemma exec_step:
  fixes r :: "('q, 'v, 'w, 'a) pubsub_run"
  assumes inv: "pubsub_inv r" and n: "length (pr_published r) < u64_max"
  shows "\<exists>r'. pubsub_exec L SUBS PUBS r x = Some (Ret r') \<and> pubsub_inv r' \<and>
    length (pr_published r') \<le> Suc (length (pr_published r))"
proof (cases x)
  case (OpSubscribe i)
  with subscribe_step [OF inv, of i] show ?thesis by (auto simp del: pubsub_exec.simps)
next
  case (OpRead i cx)
  show ?thesis
  proof (cases "pr_subs r i")
    case None
    with inv OpRead show ?thesis by simp
  next
    case (Some z)
    with read_step [OF inv Some n, of cx] OpRead show ?thesis by (auto simp del: pubsub_exec.simps)
  qed
next
  case (OpUnsubscribe i)
  with unsubscribe_step [OF inv, of i] show ?thesis by (auto simp del: pubsub_exec.simps)
next
  case OpNewPublisher
  from inv have d: "pss_publisher_count (pr_state r) = pr_publishers r" "pr_publishers r \<le> PUBS"
    by (simp_all add: pubsub_inv_def run_inv_def)
  show ?thesis
  proof (cases "pr_publishers r < PUBS")
    case True
    define r' where "r' = r\<lparr>pr_state := (pr_state r)\<lparr>pss_publisher_count := Suc (pr_publishers r)\<rparr>,
      pr_publishers := Suc (pr_publishers r)\<rparr>"
    have "pubsub_exec L SUBS PUBS r x = Some (Ret r')"
      using OpNewPublisher True d slots(2) by (simp add: PubSubChannel_publisher_def r'_def)
    moreover have "pubsub_inv r'"
      using inv True by (simp add: pubsub_inv_def run_inv_def subs_inv_def sleep_inv_def r'_def)
    ultimately show ?thesis by (auto simp: r'_def)
  next
    case False
    with OpNewPublisher d inv show ?thesis by (simp add: PubSubChannel_publisher_def)
  qed
next
  case OpDropPublisher
  from inv have d: "pss_publisher_count (pr_state r) = pr_publishers r" by (simp add: pubsub_inv_def run_inv_def)
  show ?thesis
  proof (cases "pr_publishers r = 0")
    case False
    define r' where "r' = r\<lparr>pr_state := (pr_state r)\<lparr>pss_publisher_count := pr_publishers r - 1\<rparr>,
      pr_publishers := pr_publishers r - 1\<rparr>"
    have "pubsub_exec L SUBS PUBS r x = Some (Ret r')"
      using OpDropPublisher False d by (simp add: Pub_drop_def PubSubChannel_unregister_publisher_def PubSubState_unregister_publisher_def r'_def)
    moreover have "pubsub_inv r'"
      using inv by (auto simp: pubsub_inv_def run_inv_def subs_inv_def sleep_inv_def r'_def)
    ultimately show ?thesis by (auto simp: r'_def)
  qed (use OpDropPublisher inv in simp)
next
  case (OpPublish m cx)
  with publish_step [OF inv n, of m cx] show ?thesis by (simp del: pubsub_exec.simps)
next
  case (OpPublishImmediate m)
  with publish_immediate_step [OF inv n, of m] show ?thesis by (simp del: pubsub_exec.simps)
qed

lemma exec_all_inv:
  fixes r :: "('q, 'v, 'w, 'a) pubsub_run"
  assumes "pubsub_inv r" "length (pr_published r) + length ops \<le> u64_max"
  shows "\<exists>r'. pubsub_exec_all L SUBS PUBS ops r = Some (Ret r') \<and> pubsub_inv r' \<and>
    length (pr_published r') \<le> length (pr_published r) + length ops"
  using assms
proof (induction ops arbitrary: r)
  case (Cons x ops)
  from exec_step [OF Cons.prems(1), of x] Cons.prems(2) obtain r1 where
    r1: "pubsub_exec L SUBS PUBS r x = Some (Ret r1)" "pubsub_inv r1"
      "length (pr_published r1) \<le> Suc (length (pr_published r))"
    by auto
  have "length (pr_published r1) + length ops \<le> u64_max" using r1(3) Cons.prems(2) by simp
  from Cons.IH [OF r1(2) this] r1(1,3) show ?case by fastforce
qed simp

lemma init_inv: "pubsub_inv (pubsub_run_init L)"
proof -
  have q: "queued (PubSubState_new L) = []" by (simp add: queued_def PubSubState_new_def)
  have "state_ok (PubSubState_new L)" by (simp add: state_ok_def PubSubState_new_def MultiWaker_new_def)
  then show ?thesis
    by (simp add: pubsub_inv_def run_inv_def subs_inv_def sleep_inv_def pubsub_run_init_def q queue_ok_def)
      (simp add: PubSubState_new_def)
qed

lemma run_exists:
  assumes "length ops \<le> u64_max"
  obtains r :: "('q, 'v, 'w, 'a) pubsub_run"
  where "pubsub_exec_all L SUBS PUBS ops (pubsub_run_init L) = Some (Ret r)" "run_inv r" "subs_inv r" "sleep_inv r"
    "length (pr_published r) \<le> length ops"
  using exec_all_inv [OF init_inv, of ops] assms by (auto simp: pubsub_run_init_def pubsub_inv_def)

end

context pubsub_laws
begin

lemma read_pure:
  assumes ri: "run_inv r" and si: "subs_inv r" and x: "pr_subs r j = Some x" and n: "length (pr_published r) < u64_max"
  shows "\<exists>x' s ws. Sub_try_next_message_pure 2 L x (pr_state r) = Some (Ret
    (if max (sub_next_message_id x) (start_id (pr_state r)) < length (pr_published r)
     then Some (pr_published r ! max (sub_next_message_id x) (start_id (pr_state r))) else None, x', s, ws))"
proof -
  note d = run_invD [OF ri]
  let ?s = "pr_state r"
  have n': "pss_next_message_id ?s < u64_max" using n d(2) by simp
  have st: "start_id ?s \<le> pss_next_message_id ?s" by (simp add: start_id_def)
  have now: "\<exists>x' s ws. Sub_try_next_message L y ?s = Ret (map_option Message
      (if sub_next_message_id y < length (pr_published r) then Some (pr_published r ! sub_next_message_id y) else None),
      x', s, ws)"
    if y: "start_id ?s \<le> sub_next_message_id y" "sub_next_message_id x \<le> sub_next_message_id y"
      "sub_next_message_id y \<le> pss_next_message_id ?s" for y
  proof -
    have pos: "0 < snd (queued ?s ! k)" if "k < length (queued ?s)" "sub_next_message_id y = start_id ?s + k" for k
      using reader_counted [OF ri x that(1)] that(2) y(2) by simp
    have eq: "pubsub_read L y ?s None = Sub_try_next_message L y ?s" by (simp add: pubsub_read_def)
    show ?thesis
      by (rule read_cases [OF d(1) y(3) n' pos, where cx = None])
        (use y(1) d(2) queue_message [OF ri] queue_message [OF ri, of 0] in \<open>auto simp: eq\<close>)
  qed
  have pos: "0 < snd (queued ?s ! k)" if "k < length (queued ?s)" "sub_next_message_id x = start_id ?s + k" for k
    using reader_counted [OF ri x that(1)] that(2) by simp
  have mid: "sub_next_message_id x \<le> pss_next_message_id ?s" using subs_invD(1) [OF si x] d(2) by simp
  have eq: "pubsub_read L x ?s None = Sub_try_next_message L x ?s" by (simp add: pubsub_read_def)
  show ?thesis
  proof (cases "sub_next_message_id x < start_id ?s")
    case True
    have "Sub_try_next_message L x ?s = Ret (Some (Lagged (start_id ?s - sub_next_message_id x)),
        \<lparr>sub_next_message_id = start_id ?s\<rparr>, ?s, [])"
      by (rule read_cases [OF d(1) mid n' pos, where cx = None]) (use True st in \<open>simp_all add: eq\<close>)
    with now [of "\<lparr>sub_next_message_id = start_id ?s\<rparr>"] True st show ?thesis
      by (auto simp: numeral_2_eq_2)
  next
    case False
    with now [of x] mid show ?thesis by (auto simp: numeral_2_eq_2 max_def)
  qed
qed

end

section \<open>Reference containers\<close>

definition list_pubsub_libs ::
  "nat \<Rightarrow> nat \<Rightarrow> nat \<Rightarrow> (('a \<times> nat) list, waker list, waker list, 'a) pubsub_libs" where
  "list_pubsub_libs CAP SUBS PUBS =
     \<lparr>lib_queue = list_deque CAP, lib_subs = list_vec SUBS, lib_pubs = list_vec PUBS\<rparr>"

lemma list_pubsub_laws:
  assumes "0 < CAP" "CAP \<le> usize_max" "0 < SUBS" "SUBS \<le> usize_max" "0 < PUBS" "PUBS \<le> usize_max"
  shows "pubsub_laws (list_pubsub_libs CAP SUBS PUBS) CAP SUBS PUBS (\<lambda>q. length q \<le> CAP) (\<lambda>q. q)
    (\<lambda>v. length v \<le> SUBS) (\<lambda>v. length v \<le> PUBS)"
  using assms unfolding pubsub_laws_def pubsub_laws_axioms_def list_pubsub_libs_def
  by (simp add: list_deque_bounded list_waker_vec)

interpretation list_pubsub: pubsub_laws "list_pubsub_libs 16 2 4" 16 2 4 "\<lambda>q. length q \<le> 16" "\<lambda>q. q"
    "\<lambda>v. length v \<le> 2" "\<lambda>v. length v \<le> 4"
  by (rule list_pubsub_laws) (simp_all add: usize_max_def)

lemmas pubsub_eval =
  pubsub_run_init_def PubSubState_new_def MultiWaker_new_def PubSubChannel_subscriber_def Sub_new_def
  PubSubChannel_publisher_def pubsub_publish_def Pub_try_publish_def PublisherWaitFuture_poll_def
  PubSubChannel_publish_with_context_def PubSubState_try_publish_def Pub_publish_immediate_def PubSubChannel_publish_immediate_def
  PubSubState_publish_immediate_def pubsub_read_def Sub_try_next_message_def SubscriberWaitFuture_poll_def
  PubSubChannel_get_message_with_context_def PubSubState_get_message_def Sub_drop_def PubSubChannel_unregister_subscriber_def
  PubSubState_unregister_subscriber_def decrement_counter_def MultiWaker_wake_def MultiWaker_register_def
  pubsub_step_def note_published_def wake_sleepers_def list_pubsub_libs_def list_deque_def list_vec_def
  as_usize_def usize_max_def u64_max_def add_u64_def sub_u64_def add_usize_def sub_usize_def Let_def

lemma demo_pubsub:
  "\<exists>r. pubsub_exec_all (list_pubsub_libs 2 2 2) 2 2
      [OpSubscribe 0, OpPublish (5 :: nat) None, OpPublish 6 None, OpPublish 7 (Some (RawWaker 9 VTABLE)), OpRead 0 None]
      (pubsub_run_init (list_pubsub_libs 2 2 2)) = Some (Ret r) \<and>
    pr_log r 0 = [Message 5] \<and> pr_published r = [5, 6] \<and> pr_waiting r = {} \<and> \<not> pr_lagged_drop r \<and> \<not> pr_immediate r \<and>
    (\<exists>x. pr_subs r 0 = Some x) \<and> pss_queue (pr_state r) = [(6, 1)]"
  by (simp add: pubsub_eval del: bind_out_eq_Ret bind_fuel_eq_Ret)

section \<open>Properties\<close>

text \<open>
  C23. Every subscriber of a publish/subscribe channel is told about every message, in order: a sequence of
  operations by any tasks never panics (no more operations than \<open>u64\<close> counts), and what each live subscriber has been
  told walks through the published messages from the one after its subscription up to its next id, message by
  message, where a lag result skips as many messages as it says.  Without immediate publishes nothing is skipped.
  \<open>available\<close> counts the messages from the next id on.
\<close>

theorem pubsub_delivers:
  fixes L :: "('q, 'v, 'w, 'a) pubsub_libs"
  assumes laws: "pubsub_laws L CAP SUBS PUBS dq_inv items sv_inv pv_inv" and n: "length ops \<le> u64_max"
  shows "\<exists>r. pubsub_exec_all L SUBS PUBS ops (pubsub_run_init L) = Some (Ret r) \<and>
    (\<forall>j x. pr_subs r j = Some x \<longrightarrow>
       replay (pr_published r) (pr_from r j) (pr_log r j) = Some (sub_next_message_id x) \<and>
       Sub_available x (pr_state r) = Ret (length (pr_published r) - sub_next_message_id x) \<and>
       (\<not> pr_immediate r \<longrightarrow>
          pr_log r j = map Message (slice_of (pr_from r j) (sub_next_message_id x) (pr_published r))))"
proof -
  obtain r :: "('q, 'v, 'w, 'a) pubsub_run" where
    r: "pubsub_exec_all L SUBS PUBS ops (pubsub_run_init L) = Some (Ret r)"
    and inv: "pubsub_laws.run_inv SUBS PUBS dq_inv items sv_inv pv_inv r" "pubsub_laws.subs_inv items r"
    by (rule pubsub_laws.run_exists [OF laws n])
  have "pss_next_message_id (pr_state r) = length (pr_published r)"
    using pubsub_laws.run_invD(2) [OF laws inv(1)] .
  moreover have "pr_log r j = map Message (slice_of (pr_from r j) (sub_next_message_id x) (pr_published r))"
    if "pr_subs r j = Some x" "\<not> pr_immediate r" for j x
    using replay_no_lag pubsub_laws.subs_invD(2,4,1) [OF laws inv(2) that(1)] that(2) by blast
  ultimately show ?thesis
    using pubsub_laws.subs_invD(1,2) [OF laws inv(2)] r
    by (intro exI [of _ r]) (simp add: Sub_available_def PubSubChannel_available_def)
qed

theorem pubsub_delivers_witness:
  "length [OpSubscribe 0, OpPublish (5 :: nat) None, OpPublish 6 None, OpPublish 7 (Some (RawWaker 9 VTABLE)), OpRead 0 None] \<le> u64_max \<and>
   (\<exists>r. pubsub_exec_all (list_pubsub_libs 2 2 2) 2 2
      [OpSubscribe 0, OpPublish (5 :: nat) None, OpPublish 6 None, OpPublish 7 (Some (RawWaker 9 VTABLE)), OpRead 0 None]
      (pubsub_run_init (list_pubsub_libs 2 2 2)) = Some (Ret r) \<and> pr_published r = [5, 6] \<and> (\<exists>x. pr_subs r 0 = Some x \<and> pr_log r 0 = map Message (slice_of (pr_from r 0) (sub_next_message_id x) [5, 6])))"
  using pubsub_delivers [OF list_pubsub_laws [of 2 2 2], of
      "[OpSubscribe 0, OpPublish 5 None, OpPublish 6 None, OpPublish 7 (Some (RawWaker 9 VTABLE)), OpRead 0 None]"]
    demo_pubsub
  by (auto simp: u64_max_def usize_max_def Let_def simp del: pubsub_exec_all.simps)

text \<open>
  C24. A message stays in the queue of a publish/subscribe channel exactly as long as a subscriber has yet to
  read it (or an immediate publish evicts it): if no subscriber was dropped while it lagged, the queue holds the
  newest messages, each with the number of live subscribers that have not read it, the oldest one has such a
  subscriber, and \<open>space\<close> is the rest of the capacity.
\<close>

theorem pubsub_queue_exact:
  fixes L :: "('q, 'v, 'w, 'a) pubsub_libs"
  assumes laws: "pubsub_laws L CAP SUBS PUBS dq_inv items sv_inv pv_inv" and n: "length ops \<le> u64_max"
  shows "\<exists>r. pubsub_exec_all L SUBS PUBS ops (pubsub_run_init L) = Some (Ret r) \<and>
    (\<not> pr_lagged_drop r \<longrightarrow>
       (let len = length (items (pss_queue (pr_state r))); start = length (pr_published r) - len
        in items (pss_queue (pr_state r)) =
             map (\<lambda>i. (pr_published r ! i, card {j. \<exists>x. pr_subs r j = Some x \<and> sub_next_message_id x \<le> i}))
               [start..<length (pr_published r)] \<and>
           (0 < len \<longrightarrow> (\<exists>j x. pr_subs r j = Some x \<and> sub_next_message_id x \<le> start)) \<and>
           Pub_space L (pr_state r) = Ret (CAP - len)))"
proof -
  obtain r :: "('q, 'v, 'w, 'a) pubsub_run" where
    r: "pubsub_exec_all L SUBS PUBS ops (pubsub_run_init L) = Some (Ret r)"
    and inv: "pubsub_laws.run_inv SUBS PUBS dq_inv items sv_inv pv_inv r"
    by (rule pubsub_laws.run_exists [OF laws n])
  let ?q = "items (pss_queue (pr_state r))" and ?pub = "pr_published r"
  note d = pubsub_laws.run_invD [OF laws inv, unfolded pubsub_laws.queued_def [OF laws]]
  have dq: "dq_inv (pss_queue (pr_state r))" using d(1) by (simp add: pubsub_laws.state_ok_def [OF laws])
  have bd: "bounded_deque (lib_queue L) CAP dq_inv items" using laws by (simp add: pubsub_laws_def)
  have space: "Pub_space L (pr_state r) = Ret (CAP - length ?q)"
    using bounded_deque.len [OF bd dq] bounded_deque.capacity [OF bd dq] bounded_deque.bounded [OF bd dq]
    by (simp add: Pub_space_def PubSubChannel_space_def)
  have "?q = map (\<lambda>i. (?pub ! i, unread (pr_subs r) i)) [length ?pub - length ?q..<length ?pub]"
    if e: "\<not> pr_lagged_drop r"
  proof (rule nth_equalityI)
    fix k
    assume k: "k < length ?q"
    note q = queue_okD(1,2) [OF d(3)]
    have "fst (?q ! k) = map fst ?q ! k" using k by simp
    also have "\<dots> = ?pub ! (length ?pub - length ?q + k)" using q k by simp
    finally show "?q ! k = map (\<lambda>i. (?pub ! i, unread (pr_subs r) i)) [length ?pub - length ?q..<length ?pub] ! k"
      using queue_okD(4) [OF d(3) e k] q(1) k by (simp add: prod_eq_iff)
  qed (use queue_okD(1) [OF d(3)] in simp)
  moreover have "\<exists>j x. pr_subs r j = Some x \<and> sub_next_message_id x \<le> length ?pub - length ?q"
    if e: "\<not> pr_lagged_drop r" and ne: "0 < length ?q"
  proof -
    have "0 < unread (pr_subs r) (length ?pub - length ?q)"
      using queue_okD(4) [OF d(3) e ne] queue_okD(5) [OF d(3) e] ne by simp
    then show ?thesis by (auto simp: unread_def card_gt_0_iff)
  qed
  ultimately show ?thesis using r space by (intro exI [of _ r]) (simp add: Let_def unread_def)
qed

theorem pubsub_queue_exact_witness:
  "length [OpSubscribe 0, OpPublish (5 :: nat) None, OpPublish 6 None, OpPublish 7 (Some (RawWaker 9 VTABLE)), OpRead 0 None] \<le> u64_max \<and>
   (\<exists>r. pubsub_exec_all (list_pubsub_libs 2 2 2) 2 2
      [OpSubscribe 0, OpPublish (5 :: nat) None, OpPublish 6 None, OpPublish 7 (Some (RawWaker 9 VTABLE)), OpRead 0 None]
      (pubsub_run_init (list_pubsub_libs 2 2 2)) = Some (Ret r) \<and> pr_published r = [5, 6] \<and> Pub_space (list_pubsub_libs 2 2 2) (pr_state r) = Ret 1)"
  using pubsub_queue_exact [OF list_pubsub_laws [of 2 2 2], of
      "[OpSubscribe 0, OpPublish 5 None, OpPublish 6 None, OpPublish 7 (Some (RawWaker 9 VTABLE)), OpRead 0 None]"]
    demo_pubsub
  by (auto simp: u64_max_def usize_max_def Let_def simp del: pubsub_exec_all.simps)

text \<open>
  C25. No sleeping task of a publish/subscribe channel is forgotten: a subscriber that sleeps is registered and
  has read everything; if no subscriber was dropped while it lagged, a publisher that sleeps is registered and
  the queue is full.
\<close>

theorem pubsub_no_lost_wakeup:
  fixes L :: "('q, 'v, 'w, 'a) pubsub_libs"
  assumes laws: "pubsub_laws L CAP SUBS PUBS dq_inv items sv_inv pv_inv" and n: "length ops \<le> u64_max"
  shows "\<exists>r. pubsub_exec_all L SUBS PUBS ops (pubsub_run_init L) = Some (Ret r) \<and>
    (\<forall>j w. pr_asleep r j = Some w \<longrightarrow> w \<in> mw_registered (lib_subs L) (pss_subscriber_wakers (pr_state r)) \<and>
       (\<exists>x. pr_subs r j = Some x \<and> sub_next_message_id x = length (pr_published r))) \<and>
    (\<not> pr_lagged_drop r \<longrightarrow> pr_waiting r \<subseteq> mw_registered (lib_pubs L) (pss_publisher_wakers (pr_state r)) \<and>
       (pr_waiting r \<noteq> {} \<longrightarrow> length (items (pss_queue (pr_state r))) = CAP))"
proof -
  obtain r :: "('q, 'v, 'w, 'a) pubsub_run" where
    r: "pubsub_exec_all L SUBS PUBS ops (pubsub_run_init L) = Some (Ret r)"
    and inv: "pubsub_laws.sleep_inv L CAP items r"
    by (rule pubsub_laws.run_exists [OF laws n])
  then show ?thesis
    unfolding pubsub_laws.sleep_inv_def [OF laws] pubsub_laws.queued_def [OF laws]
    by (intro exI [of _ r] conjI) blast+
qed

lemma demo_full_pubsub:
  "\<exists>r. pubsub_exec_all (list_pubsub_libs 2 2 2) 2 2
      [OpSubscribe 0, OpPublish (5 :: nat) None, OpPublish 6 None, OpPublish 7 (Some (RawWaker 9 VTABLE))]
      (pubsub_run_init (list_pubsub_libs 2 2 2)) = Some (Ret r) \<and>
    pr_waiting r = {RawWaker 9 VTABLE} \<and> \<not> pr_lagged_drop r"
  by (simp add: pubsub_eval del: bind_out_eq_Ret bind_fuel_eq_Ret)

theorem pubsub_no_lost_wakeup_witness:
  "\<exists>r. pubsub_exec_all (list_pubsub_libs 2 2 2) 2 2
      [OpSubscribe 0, OpPublish (5 :: nat) None, OpPublish 6 None, OpPublish 7 (Some (RawWaker 9 VTABLE))]
      (pubsub_run_init (list_pubsub_libs 2 2 2)) = Some (Ret r) \<and>
    RawWaker 9 VTABLE \<in> mw_registered (list_vec 2) (pss_publisher_wakers (pr_state r)) \<and>
    length (pss_queue (pr_state r)) = 2"
  using pubsub_no_lost_wakeup [OF list_pubsub_laws [of 2 2 2], of
      "[OpSubscribe 0, OpPublish 5 None, OpPublish 6 None, OpPublish 7 (Some (RawWaker 9 VTABLE))]"]
    demo_full_pubsub
  by (auto simp: u64_max_def usize_max_def list_pubsub_libs_def simp del: pubsub_exec_all.simps)

text \<open>
  Dropping a subscriber that lags blocks the publishers: its unread messages keep their counters, so
  they stay in the queue after every remaining subscriber has read them.  Here both subscribers lag behind an immediate
  publish, one is dropped, the other reads everything; the queue stays full, and a publisher goes to sleep although
  every live subscriber has read every message.
\<close>

theorem pubsub_lagged_drop_blocks:
  "\<exists>r. pubsub_exec_all (list_pubsub_libs 2 2 2) 2 2
      [OpSubscribe 0, OpSubscribe 1, OpPublish (5 :: nat) None, OpPublish 6 None, OpPublishImmediate 7, OpUnsubscribe 0,
       OpRead 1 None, OpRead 1 None, OpRead 1 None, OpPublish 8 (Some (RawWaker 9 VTABLE))]
      (pubsub_run_init (list_pubsub_libs 2 2 2)) = Some (Ret r) \<and>
    pr_log r 1 = [Lagged 1, Message 6, Message 7] \<and> pr_published r = [5, 6, 7] \<and>
    dom (pr_subs r) = {1} \<and> pr_subs r 1 = Some \<lparr>sub_next_message_id = 3\<rparr> \<and>
    Pub_space (list_pubsub_libs 2 2 2) (pr_state r) = Ret 0 \<and> pr_waiting r = {RawWaker 9 VTABLE}"
  by (simp add: pubsub_eval Pub_space_def PubSubChannel_space_def upt_rec del: bind_out_eq_Ret bind_fuel_eq_Ret)

text \<open>
  \<open>try_next_message_pure\<close> ends after at most two reads and skips exactly what the subscriber has missed: for a
  subscriber of any run it returns the message at its next id or, when it lags, the oldest message that is
  left, and nothing when there is none.
\<close>

theorem try_next_message_pure_total:
  fixes L :: "('q, 'v, 'w, 'a) pubsub_libs"
  assumes laws: "pubsub_laws L CAP SUBS PUBS dq_inv items sv_inv pv_inv" and n: "length ops < u64_max"
  shows "\<exists>r. pubsub_exec_all L SUBS PUBS ops (pubsub_run_init L) = Some (Ret r) \<and>
    (\<forall>j x. pr_subs r j = Some x \<longrightarrow>
       (let i = max (sub_next_message_id x) (length (pr_published r) - length (items (pss_queue (pr_state r))))
        in \<exists>x' s ws. Sub_try_next_message_pure 2 L x (pr_state r) =
             Some (Ret (if i < length (pr_published r) then Some (pr_published r ! i) else None, x', s, ws))))"
proof -
  from n have "length ops \<le> u64_max" by simp
  then obtain r :: "('q, 'v, 'w, 'a) pubsub_run" where
    r: "pubsub_exec_all L SUBS PUBS ops (pubsub_run_init L) = Some (Ret r)" "length (pr_published r) \<le> length ops"
    and inv: "pubsub_laws.run_inv SUBS PUBS dq_inv items sv_inv pv_inv r" "pubsub_laws.subs_inv items r"
    by (rule pubsub_laws.run_exists [OF laws])
  have "length (pr_published r) < u64_max" using r(2) n by simp
  from pubsub_laws.read_pure [OF laws inv _ this] show ?thesis
    unfolding pubsub_laws.run_start [OF laws inv(1)] pubsub_laws.queued_def [OF laws]
    by (intro exI [of _ r]) (simp add: r(1) Let_def)
qed

theorem try_next_message_pure_total_witness:
  "\<exists>r x. pubsub_exec_all (list_pubsub_libs 2 2 2) 2 2
      [OpSubscribe 0, OpPublish (5 :: nat) None, OpPublish 6 None, OpPublish 7 (Some (RawWaker 9 VTABLE)), OpRead 0 None]
      (pubsub_run_init (list_pubsub_libs 2 2 2)) = Some (Ret r) \<and> pr_subs r 0 = Some x \<and>
    (\<exists>v x' s ws. Sub_try_next_message_pure 2 (list_pubsub_libs 2 2 2) x (pr_state r) = Some (Ret (v, x', s, ws)))"
  using try_next_message_pure_total [OF list_pubsub_laws [of 2 2 2], of
      "[OpSubscribe 0, OpPublish 5 None, OpPublish 6 None, OpPublish 7 (Some (RawWaker 9 VTABLE)), OpRead 0 None]"]
    demo_pubsub
  by (fastforce simp: u64_max_def usize_max_def Let_def simp del: pubsub_exec_all.simps)

end
