(* ===== verification/Critical_Section.thy ===== *)
theory Critical_Section
  imports Rust_Prelude
begin

text \<open>
  Critical sections and the blocking mutex: the implementation \<open>Section\<close> of the interface of the
  \<open>critical_section\<close> crate in \<open>src/src/main.rs\<close> and \<open>src/src/sync/blocking_mutex.rs\<close>.  A section
  disables the interrupts of the core and counts its nesting in an \<open>AtomicU32\<close>, which wraps; the
  instructions \<open>disable\<close> and \<open>enable\<close> clear and set the interrupt enable flag.
  \<open>critical_section::with\<close> is, by its documentation, \<open>acquire\<close>, the closure, \<open>release\<close> with the
  token that \<open>acquire\<close> returned.
\<close>

record cpu_irq =
  irq_enabled :: bool
  nested_interrupt_nr :: "32 word"

definition Section_acquire :: "cpu_irq \<Rightarrow> bool \<times> cpu_irq" where
  "Section_acquire c =
     (let c = c\<lparr>irq_enabled := False\<rparr>;
          old = nested_interrupt_nr c
      in (old = 0, c\<lparr>nested_interrupt_nr := old + 1\<rparr>))"

definition Section_release :: "bool \<Rightarrow> cpu_irq \<Rightarrow> cpu_irq" where
  "Section_release was_active c =
     (let old = nested_interrupt_nr c;
          c = c\<lparr>nested_interrupt_nr := old - 1\<rparr>
      in if old \<le> 1 then c\<lparr>irq_enabled := True\<rparr> else c)"

text \<open>
  A closure is a function on the state of the program \<open>'s\<close> and of the core.
\<close>

definition critical_section_with ::
  "('s \<times> cpu_irq \<Rightarrow> 'u \<times> 's \<times> cpu_irq) \<Rightarrow> 's \<times> cpu_irq \<Rightarrow> 'u \<times> 's \<times> cpu_irq" where
  "critical_section_with f sc =
     (let (s, c) = sc;
          (token, c) = Section_acquire c;
          (u, s, c) = f (s, c)
      in (u, s, Section_release token c))"

definition CriticalSectionRawMutex_lock ::
  "('s \<times> cpu_irq \<Rightarrow> 'u \<times> 's \<times> cpu_irq) \<Rightarrow> 's \<times> cpu_irq \<Rightarrow> 'u \<times> 's \<times> cpu_irq" where
  "CriticalSectionRawMutex_lock f sc = critical_section_with (\<lambda>sc. f sc) sc"

record 'a blocking_mutex =
  bm_data :: 'a

definition BlockingMutex_new :: "'a \<Rightarrow> 'a blocking_mutex" where
  "BlockingMutex_new val = \<lparr>bm_data = val\<rparr>"

definition BlockingMutex_lock ::
  "('a \<Rightarrow> 'a blocking_mutex \<times> cpu_irq \<Rightarrow> 'u \<times> 'a blocking_mutex \<times> cpu_irq) \<Rightarrow>
     'a blocking_mutex \<times> cpu_irq \<Rightarrow> 'u \<times> 'a blocking_mutex \<times> cpu_irq" where
  "BlockingMutex_lock f mc =
     CriticalSectionRawMutex_lock (\<lambda>(m, c). let inner = bm_data m in f inner (m, c)) mc"

definition BlockingMutex_lock_mut ::
  "('a \<Rightarrow> 'u \<times> 'a) \<Rightarrow> 'a blocking_mutex \<times> cpu_irq \<Rightarrow> 'u \<times> 'a blocking_mutex \<times> cpu_irq" where
  "BlockingMutex_lock_mut f mc =
     CriticalSectionRawMutex_lock
       (\<lambda>(m, c). let (u, inner) = f (bm_data m) in (u, m\<lparr>bm_data := inner\<rparr>, c)) mc"

definition BlockingMutex_dirty_read ::
  "('a \<Rightarrow> 'u) \<Rightarrow> 'a blocking_mutex \<times> cpu_irq \<Rightarrow> 'u \<times> 'a blocking_mutex \<times> cpu_irq" where
  "BlockingMutex_dirty_read f mc =
     CriticalSectionRawMutex_lock (\<lambda>(m, c). (f (bm_data m), m, c)) mc"

definition BlockingMutex_into_inner :: "'a blocking_mutex \<Rightarrow> 'a" where
  "BlockingMutex_into_inner m = bm_data m"

text \<open>
  The raw mutex has no state.  \<open>get_mut\<close> needs a mutable reference to the mutex and \<open>borrow\<close> a token of a critical section, so
  neither enters one.
\<close>

definition BlockingMutex_const_new :: "'r \<Rightarrow> 'a \<Rightarrow> 'a blocking_mutex" where
  "BlockingMutex_const_new raw_mutex val = \<lparr>bm_data = val\<rparr>"

definition BlockingMutex_get_mut :: "('a \<Rightarrow> 'a) \<Rightarrow> 'a blocking_mutex \<Rightarrow> 'a blocking_mutex" where
  "BlockingMutex_get_mut upd m = m\<lparr>bm_data := upd (bm_data m)\<rparr>"

definition BlockingMutex_borrow :: "'a blocking_mutex \<Rightarrow> 'a" where
  "BlockingMutex_borrow m = bm_data m"

section \<open>Nested sections\<close>

text \<open>
  A program of nested sections: plain steps on the state and sections around programs.  The run
  returns the interrupt flag each step saw, paired with the number of sections around it.
\<close>

datatype 's cs_prog = CsStep "'s \<Rightarrow> 's" | CsWith "'s cs_prog list"

fun cs_run :: "nat \<Rightarrow> 's cs_prog \<Rightarrow> 's \<times> cpu_irq \<Rightarrow> (nat \<times> bool) list \<times> 's \<times> cpu_irq"
  and cs_runs :: "nat \<Rightarrow> 's cs_prog list \<Rightarrow> 's \<times> cpu_irq \<Rightarrow> (nat \<times> bool) list \<times> 's \<times> cpu_irq" where
  "cs_run d (CsStep f) sc = (let (s, c) = sc in ([(d, irq_enabled c)], f s, c))"
| "cs_run d (CsWith ps) sc = critical_section_with (\<lambda>sc. cs_runs (Suc d) ps sc) sc"
| "cs_runs d [] sc = ([], sc)"
| "cs_runs d (p # ps) sc =
     (let (tr, sc) = cs_run d p sc; (tr', sc) = cs_runs d ps sc in (tr @ tr', sc))"

fun cs_depth :: "'s cs_prog \<Rightarrow> nat"
  and cs_depths :: "'s cs_prog list \<Rightarrow> nat" where
  "cs_depth (CsStep f) = 0"
| "cs_depth (CsWith ps) = Suc (cs_depths ps)"
| "cs_depths [] = 0"
| "cs_depths (p # ps) = max (cs_depth p) (cs_depths ps)"

fun cs_effect :: "'s cs_prog \<Rightarrow> 's \<Rightarrow> 's"
  and cs_effects :: "'s cs_prog list \<Rightarrow> 's \<Rightarrow> 's" where
  "cs_effect (CsStep f) s = f s"
| "cs_effect (CsWith ps) s = cs_effects ps s"
| "cs_effects [] s = s"
| "cs_effects (p # ps) s = cs_effects ps (cs_effect p s)"

fun has_section :: "'s cs_prog \<Rightarrow> bool" where
  "has_section (CsStep _) = False"
| "has_section (CsWith _) = True"

lemma acquire_eq:
  "Section_acquire \<lparr>irq_enabled = e, nested_interrupt_nr = n\<rparr> =
     (n = 0, \<lparr>irq_enabled = False, nested_interrupt_nr = n + 1\<rparr>)"
  by (simp add: Section_acquire_def)

lemma release_eq:
  assumes "d < 2 ^ 32 - 1"
  shows "Section_release t \<lparr>irq_enabled = e, nested_interrupt_nr = word_of_nat d + 1\<rparr> =
     \<lparr>irq_enabled = (e \<or> d = 0), nested_interrupt_nr = word_of_nat d\<rparr>"
proof -
  have "(word_of_nat d + 1 :: 32 word) \<le> 1 \<longleftrightarrow> d = 0"
  proof -
    have "unat (word_of_nat (Suc d) :: 32 word) = Suc d"
      using assms by (simp only: unsigned_of_nat) (simp add: take_bit_nat_eq_self)
    then have "unat (word_of_nat d + 1 :: 32 word) = Suc d" by (simp add: add.commute)
    then show ?thesis by (simp add: word_le_nat_alt)
  qed
  then show ?thesis by (simp add: Section_release_def Let_def)
qed

lemma cs_run_sections:
  fixes p :: "'s cs_prog" and ps :: "'s cs_prog list"
  shows "d + cs_depth p < 2 ^ 32 \<Longrightarrow> (0 < d \<longrightarrow> \<not> e) \<Longrightarrow>
    \<exists>tr. cs_run d p (s, \<lparr>irq_enabled = e, nested_interrupt_nr = word_of_nat d\<rparr>) =
      (tr, cs_effect p s, \<lparr>irq_enabled = (e \<or> d = 0 \<and> has_section p), nested_interrupt_nr = word_of_nat d\<rparr>) \<and>
      (\<forall>(k, b) \<in> set tr. 0 < k \<longrightarrow> \<not> b)"
  and "d + cs_depths ps < 2 ^ 32 \<Longrightarrow> (0 < d \<longrightarrow> \<not> e) \<Longrightarrow>
    \<exists>tr. cs_runs d ps (s, \<lparr>irq_enabled = e, nested_interrupt_nr = word_of_nat d\<rparr>) =
      (tr, cs_effects ps s, \<lparr>irq_enabled = (e \<or> d = 0 \<and> list_ex has_section ps), nested_interrupt_nr = word_of_nat d\<rparr>) \<and>
      (\<forall>(k, b) \<in> set tr. 0 < k \<longrightarrow> \<not> b)"
proof (induction p and ps arbitrary: d e s and d e s rule: cs_depth_cs_depths.induct)
  case (2 ps)
  then have d: "d < 2 ^ 32 - 1" by simp
  from 2(1) [where d = "Suc d" and e = False and s = s] 2(2)
  obtain tr where "cs_runs (Suc d) ps (s, \<lparr>irq_enabled = False, nested_interrupt_nr = word_of_nat d + 1\<rparr>) =
      (tr, cs_effects ps s, \<lparr>irq_enabled = False, nested_interrupt_nr = word_of_nat d + 1\<rparr>)"
    "\<forall>(k, b) \<in> set tr. 0 < k \<longrightarrow> \<not> b" by (auto simp: add.commute)
  with 2(3) show ?case
    by (auto simp: critical_section_with_def acquire_eq release_eq [OF d])
next
  case (4 p ps)
  then have "d + cs_depth p < 2 ^ 32" "d + cs_depths ps < 2 ^ 32" by auto
  from 4(1) [OF this(1) 4(4), of s] 4(2) [OF this(2), of "e \<or> d = 0 \<and> has_section p" "cs_effect p s"] 4(4)
  show ?case by fastforce
qed (auto)

text \<open>
  C34. Critical sections nest: a program of sections nested less than \<open>2^32\<close> deep has the effect of
  its steps in order; every step inside a section runs with interrupts disabled; the nesting counter
  is back at its value at the end, and interrupts are then enabled if they were before or if the
  outermost section was left.
\<close>

theorem critical_sections_nest:
  fixes ps :: "'s cs_prog list"
  assumes "cs_depths ps < 2 ^ 32"
  shows "\<exists>tr. cs_runs 0 ps (s, \<lparr>irq_enabled = e, nested_interrupt_nr = 0\<rparr>) =
    (tr, cs_effects ps s,
     \<lparr>irq_enabled = (e \<or> list_ex has_section ps), nested_interrupt_nr = 0\<rparr>) \<and>
    (\<forall>(k, b) \<in> set tr. 0 < k \<longrightarrow> \<not> b)"
  using cs_run_sections(2) [of 0 ps e s] assms by simp

theorem critical_sections_nest_witness:
  "\<exists>tr. cs_runs 0 [CsWith [CsStep Suc, CsWith [CsStep Suc], CsStep Suc]]
      (0 :: nat, \<lparr>irq_enabled = True, nested_interrupt_nr = 0\<rparr>) =
    (tr, 3, \<lparr>irq_enabled = True, nested_interrupt_nr = 0\<rparr>) \<and> (\<forall>(k, b) \<in> set tr. 0 < k \<longrightarrow> \<not> b)"
proof -
  let ?ps = "[CsWith [CsStep Suc, CsWith [CsStep Suc], CsStep Suc]]"
  have "cs_depths ?ps < 2 ^ 32" by simp
  moreover have "cs_effects ?ps 0 = 3" by simp
  ultimately show ?thesis using critical_sections_nest [of ?ps 0 True] by (simp add: numeral_3_eq_3 del: cs_runs.simps)
qed

text \<open>
  Leaving the outermost section enables interrupts, whatever they were before: the token of
  \<open>acquire\<close> is ignored and only the nesting counter decides.  A section entered with interrupts
  disabled and no section around it, as in an interrupt handler, ends with interrupts enabled.
\<close>

theorem section_enables_interrupts:
  fixes f :: "'s \<Rightarrow> 's"
  shows "critical_section_with (\<lambda>(s, c). ((), f s, c))
     (s, \<lparr>irq_enabled = False, nested_interrupt_nr = 0\<rparr>) =
   ((), f s, \<lparr>irq_enabled = True, nested_interrupt_nr = 0\<rparr>)"
  using release_eq [of 0 True False] by (simp add: critical_section_with_def acquire_eq)

text \<open>
  A blocking mutex gives its closure the data alone: \<open>lock_mut\<close> of a core with fewer than
  \<open>2^32 - 1\<close> open sections applies the closure to the data once, returns its result, and leaves the
  nesting counter as it was, with interrupts still disabled inside an outer section.
\<close>

theorem blocking_mutex_lock_mut:
  assumes "d < 2 ^ 32 - 1"
  shows "BlockingMutex_lock_mut f (m, \<lparr>irq_enabled = e, nested_interrupt_nr = word_of_nat d\<rparr>) =
    (fst (f (bm_data m)), m\<lparr>bm_data := snd (f (bm_data m))\<rparr>,
     \<lparr>irq_enabled = (d = 0), nested_interrupt_nr = word_of_nat d\<rparr>)"
  by (simp add: BlockingMutex_lock_mut_def CriticalSectionRawMutex_lock_def critical_section_with_def
      acquire_eq release_eq [OF assms] split: prod.splits)

theorem blocking_mutex_lock_mut_witness:
  "BlockingMutex_lock_mut (\<lambda>x. (x, x + 1))
     (BlockingMutex_new (41 :: nat), \<lparr>irq_enabled = False, nested_interrupt_nr = word_of_nat 1\<rparr>) =
   (41, BlockingMutex_new 42, \<lparr>irq_enabled = False, nested_interrupt_nr = word_of_nat 1\<rparr>)"
  using blocking_mutex_lock_mut [of 1 "\<lambda>x. (x, x + 1)" "BlockingMutex_new (41 :: nat)" False]
  by (simp add: BlockingMutex_new_def)

end
