(* ===== verification/Async_Mutex.thy ===== *)
theory Async_Mutex
  imports Waitqueue
begin

text \<open>
  The asynchronous mutex of \<open>src/src/sync/mutex.rs\<close>.  Its flag and its waker are guarded by a
  blocking mutex, so each operation is one atomic step.  The system is a step relation over the
  mutex, the live guards and the tasks asleep in \<open>lock\<close>.  Every guard remembers the data as it was
  when the guard was made or last wrote through it; that this always is the current data says
  that no other task touches it meanwhile.
\<close>

datatype try_lock_error = TryLockError

record 'a async_mutex =
  am_locked :: bool
  am_waker :: waker_registration
  am_inner :: 'a

definition AsyncMutex_new :: "'a \<Rightarrow> 'a async_mutex" where
  "AsyncMutex_new value = \<lparr>am_locked = False, am_waker = WakerRegistration_new, am_inner = value\<rparr>"

definition AsyncMutex_lock_poll :: "'a async_mutex \<Rightarrow> waker \<Rightarrow> unit poll \<times> 'a async_mutex \<times> waker list" where
  "AsyncMutex_lock_poll m cx =
     (let (ready, m, ws) =
        (if am_locked m then
           let (w, ws) = WakerRegistration_register (am_waker m) cx
           in (False, m\<lparr>am_waker := w\<rparr>, ws)
         else (True, m\<lparr>am_locked := True\<rparr>, []))
      in if ready then (Ready (), m, ws) else (Pending, m, ws))"

definition AsyncMutex_try_lock :: "'a async_mutex \<Rightarrow> (unit, try_lock_error) result \<times> 'a async_mutex" where
  "AsyncMutex_try_lock m =
     (if am_locked m then (Err TryLockError, m) else (Ok (), m\<lparr>am_locked := True\<rparr>))"

definition AsyncMutex_into_inner :: "'a async_mutex \<Rightarrow> 'a" where
  "AsyncMutex_into_inner m = am_inner m"

definition MutexGuard_drop :: "'a async_mutex \<Rightarrow> 'a async_mutex \<times> waker list" where
  "MutexGuard_drop m =
     (let m = m\<lparr>am_locked := False\<rparr>;
          (w, ws) = WakerRegistration_wake (am_waker m)
      in (m\<lparr>am_waker := w\<rparr>, ws))"

definition MutexGuard_deref :: "'a async_mutex \<Rightarrow> 'a" where
  "MutexGuard_deref m = am_inner m"

definition MutexGuard_deref_mut :: "('a \<Rightarrow> 'a) \<Rightarrow> 'a async_mutex \<Rightarrow> 'a async_mutex" where
  "MutexGuard_deref_mut upd m = m\<lparr>am_inner := upd (am_inner m)\<rparr>"

text \<open>
  \<open>map\<close> forgets the guard without dropping it and makes a mapped guard of the same lock; dropping
  a mapped guard does what dropping a guard does.
\<close>

definition MappedMutexGuard_drop :: "'a async_mutex \<Rightarrow> 'a async_mutex \<times> waker list" where
  "MappedMutexGuard_drop m =
     (let m = m\<lparr>am_locked := False\<rparr>;
          (w, ws) = WakerRegistration_wake (am_waker m)
      in (m\<lparr>am_waker := w\<rparr>, ws))"

datatype 'a guard = MutexGuard 'a | MappedMutexGuard 'a

fun guard_view :: "'a guard \<Rightarrow> 'a" where
  "guard_view (MutexGuard x) = x"
| "guard_view (MappedMutexGuard x) = x"

fun Guard_drop :: "'a guard \<Rightarrow> 'a async_mutex \<Rightarrow> 'a async_mutex \<times> waker list" where
  "Guard_drop (MutexGuard _) m = MutexGuard_drop m"
| "Guard_drop (MappedMutexGuard _) m = MappedMutexGuard_drop m"

fun Guard_map :: "'a guard \<Rightarrow> 'a guard" where
  "Guard_map (MutexGuard x) = MappedMutexGuard x"
| "Guard_map (MappedMutexGuard x) = MappedMutexGuard x"

fun Guard_write :: "('a \<Rightarrow> 'a) \<Rightarrow> 'a guard \<Rightarrow> 'a guard" where
  "Guard_write f (MutexGuard x) = MutexGuard (f x)"
| "Guard_write f (MappedMutexGuard x) = MappedMutexGuard (f x)"

record 'a mutex_sys =
  ms_mutex :: "'a async_mutex"
  ms_guards :: "'a guard list"
  ms_sleepers :: "waker set"

definition mutex_sys_init :: "'a \<Rightarrow> 'a mutex_sys" where
  "mutex_sys_init v = \<lparr>ms_mutex = AsyncMutex_new v, ms_guards = [], ms_sleepers = {}\<rparr>"

inductive mutex_step :: "'a mutex_sys \<Rightarrow> 'a mutex_sys \<Rightarrow> bool" where
  lock_ready: "AsyncMutex_lock_poll (ms_mutex s) cx = (Ready (), m, ws) \<Longrightarrow>
    mutex_step s (s\<lparr>ms_mutex := m, ms_guards := MutexGuard (MutexGuard_deref m) # ms_guards s,
      ms_sleepers := ms_sleepers s - set ws\<rparr>)"
| lock_pending: "AsyncMutex_lock_poll (ms_mutex s) cx = (Pending, m, ws) \<Longrightarrow>
    mutex_step s (s\<lparr>ms_mutex := m, ms_sleepers := insert cx (ms_sleepers s - set ws)\<rparr>)"
| try_lock_ok: "AsyncMutex_try_lock (ms_mutex s) = (Ok (), m) \<Longrightarrow>
    mutex_step s (s\<lparr>ms_mutex := m, ms_guards := MutexGuard (MutexGuard_deref m) # ms_guards s\<rparr>)"
| try_lock_err: "AsyncMutex_try_lock (ms_mutex s) = (Err TryLockError, m) \<Longrightarrow>
    mutex_step s (s\<lparr>ms_mutex := m\<rparr>)"
| guard_drop: "ms_guards s = gs @ g # hs \<Longrightarrow> Guard_drop g (ms_mutex s) = (m, ws) \<Longrightarrow>
    mutex_step s (s\<lparr>ms_mutex := m, ms_guards := gs @ hs, ms_sleepers := ms_sleepers s - set ws\<rparr>)"
| guard_map: "ms_guards s = gs @ g # hs \<Longrightarrow>
    mutex_step s (s\<lparr>ms_guards := gs @ Guard_map g # hs\<rparr>)"
| guard_write: "ms_guards s = gs @ g # hs \<Longrightarrow>
    mutex_step s (s\<lparr>ms_mutex := MutexGuard_deref_mut f (ms_mutex s),
      ms_guards := gs @ Guard_write f g # hs\<rparr>)"

definition mutex_reachable :: "'a \<Rightarrow> 'a mutex_sys \<Rightarrow> bool" where
  "mutex_reachable v s \<longleftrightarrow> mutex_step\<^sup>*\<^sup>* (mutex_sys_init v) s"

section \<open>Invariant\<close>

definition mutex_inv :: "'a mutex_sys \<Rightarrow> bool" where
  "mutex_inv s \<longleftrightarrow> length (ms_guards s) = (if am_locked (ms_mutex s) then 1 else 0) \<and>
     (\<forall>g \<in> set (ms_guards s). guard_view g = am_inner (ms_mutex s)) \<and>
     ms_sleepers s \<subseteq> wr_registered (am_waker (ms_mutex s)) \<and>
     (ms_sleepers s \<noteq> {} \<longrightarrow> am_locked (ms_mutex s))"

lemma mutex_lock_poll_cases:
  obtains (ready) "\<not> am_locked m" "AsyncMutex_lock_poll m cx = (Ready (), m\<lparr>am_locked := True\<rparr>, [])"
    | (pending) w ws where "am_locked m" "WakerRegistration_register (am_waker m) cx = (w, ws)"
      "AsyncMutex_lock_poll m cx = (Pending, m\<lparr>am_waker := w\<rparr>, ws)"
  by (cases "am_locked m"; cases "WakerRegistration_register (am_waker m) cx")
    (auto simp: AsyncMutex_lock_poll_def)

lemma guard_view_simps [simp]:
  "guard_view (Guard_map g) = guard_view g" "guard_view (Guard_write f g) = f (guard_view g)"
  by (cases g; simp)+

lemma Guard_drop_eq: "Guard_drop g m = MutexGuard_drop m"
  by (cases g) (simp_all add: MutexGuard_drop_def MappedMutexGuard_drop_def)

lemma one_guard: "length (gs @ g # hs) = (if b then 1 else 0) \<Longrightarrow> b \<and> gs = [] \<and> hs = []"
  by (auto split: if_splits)

lemma mutex_step_inv:
  assumes "mutex_step s s'" "mutex_inv s"
  shows "mutex_inv s'"
  using assms
proof (induction rule: mutex_step.induct)
  case (lock_ready s cx m ws)
  then show ?case
    by (cases rule: mutex_lock_poll_cases [of "ms_mutex s" cx])
      (auto simp: mutex_inv_def MutexGuard_deref_def)
next
  case (lock_pending s cx m ws)
  show ?case
  proof (cases rule: mutex_lock_poll_cases [of "ms_mutex s" cx])
    case (pending w vs)
    with lock_pending wr.sleepers_register [OF TrueI _ arg_cong [OF pending(2), of Ret], of "ms_sleepers s"]
    show ?thesis by (auto simp: mutex_inv_def)
  qed (use lock_pending in auto)
next
  case (guard_drop s gs g hs m ws)
  from guard_drop(3) have "am_locked (ms_mutex s) \<and> gs = [] \<and> hs = []"
    unfolding mutex_inv_def guard_drop(1) by (blast dest: one_guard)
  moreover obtain w where m: "m = (ms_mutex s)\<lparr>am_locked := False, am_waker := w\<rparr>"
      "WakerRegistration_wake (am_waker (ms_mutex s)) = (w, ws)"
    using guard_drop(2) by (auto simp: Guard_drop_eq MutexGuard_drop_def Let_def split: prod.splits)
  moreover have "ms_sleepers s - set ws = {}"
    using guard_drop(3) by (intro wr.sleepers_wake [OF TrueI _ m(2)]) (simp add: mutex_inv_def)
  ultimately show ?case by (auto simp: mutex_inv_def)
next
  case (guard_write s gs g hs f)
  from guard_write(2) have "am_locked (ms_mutex s) \<and> gs = [] \<and> hs = []"
    unfolding mutex_inv_def guard_write(1) by (blast dest: one_guard)
  with guard_write show ?case by (auto simp: mutex_inv_def MutexGuard_deref_mut_def)
qed (auto simp: mutex_inv_def AsyncMutex_try_lock_def MutexGuard_deref_def split: if_splits)

lemma mutex_reachable_inv:
  assumes "mutex_reachable v s"
  shows "mutex_inv s"
  using assms unfolding mutex_reachable_def
proof (induction rule: rtranclp_induct)
  case base
  show ?case by (simp add: mutex_inv_def mutex_sys_init_def AsyncMutex_new_def)
next
  case (step s s')
  then show ?case by (auto intro: mutex_step_inv)
qed

text \<open>
  Mutual exclusion of the asynchronous mutex: in every reachable state of the mutex and its
  tasks (locking, trying to lock, mapping guards, writing through them, dropping them), there is at
  most one guard, exactly when the mutex is locked, and it sees the data as it left it itself.
\<close>

theorem async_mutex_exclusion:
  assumes "mutex_reachable v s"
  shows "length (ms_guards s) \<le> 1 \<and> (ms_guards s \<noteq> [] \<longleftrightarrow> am_locked (ms_mutex s)) \<and>
    (\<forall>g \<in> set (ms_guards s). guard_view g = MutexGuard_deref (ms_mutex s))"
  using mutex_reachable_inv [OF assms] by (auto simp: mutex_inv_def MutexGuard_deref_def split: if_splits)

lemma mutex_reachable_locked:
  "mutex_reachable v \<lparr>ms_mutex = (AsyncMutex_new v)\<lparr>am_locked := True\<rparr>, ms_guards = [MutexGuard v],
     ms_sleepers = {}\<rparr>"
proof -
  have "AsyncMutex_try_lock (ms_mutex (mutex_sys_init v)) =
      (Ok (), (AsyncMutex_new v)\<lparr>am_locked := True\<rparr>)"
    by (simp add: mutex_sys_init_def AsyncMutex_try_lock_def AsyncMutex_new_def)
  from try_lock_ok [OF this] show ?thesis
    by (simp add: mutex_reachable_def mutex_sys_init_def AsyncMutex_new_def MutexGuard_deref_def r_into_rtranclp)
qed

theorem async_mutex_exclusion_witness:
  "let s = \<lparr>ms_mutex = (AsyncMutex_new (5 :: nat))\<lparr>am_locked := True\<rparr>, ms_guards = [MutexGuard 5],
       ms_sleepers = {}\<rparr>
   in mutex_reachable 5 s \<and> length (ms_guards s) \<le> 1"
  using async_mutex_exclusion [OF mutex_reachable_locked [of "5 :: nat"]] mutex_reachable_locked [of "5 :: nat"]
  by (simp add: Let_def)



end
