(* ===== verification/Signal.thy ===== *)
theory Signal
  imports Waitqueue
begin

text \<open>
  The signal of \<open>src/src/sync/signal.rs\<close>: a cell that is empty, holds the waker of a waiting task,
  or holds a value.  A run records the sleeping tasks and the values delivered.
\<close>

datatype 'a signal = SigNone | SigWaiting waker | SigSignaled 'a

definition Signal_new :: "'a signal" where
  "Signal_new = SigNone"

definition Signal_signal :: "'a signal \<Rightarrow> 'a \<Rightarrow> 'a signal \<times> waker list" where
  "Signal_signal cell val =
     (case cell of SigWaiting waker \<Rightarrow> (SigSignaled val, [waker]) | _ \<Rightarrow> (SigSignaled val, []))"

definition Signal_reset :: "'a signal \<Rightarrow> 'a signal" where
  "Signal_reset cell = SigNone"

definition Signal_poll_wait :: "'a signal \<Rightarrow> waker \<Rightarrow> 'a poll \<times> 'a signal \<times> waker list" where
  "Signal_poll_wait cell cx =
     (case cell of
        SigNone \<Rightarrow> (Pending, SigWaiting cx, [])
      | SigWaiting w \<Rightarrow>
          if will_wake w cx then (Pending, SigWaiting w, []) else (Pending, SigWaiting cx, [w])
      | SigSignaled res \<Rightarrow> (Ready res, SigNone, []))"

definition Signal_try_take :: "'a signal \<Rightarrow> 'a option \<times> 'a signal" where
  "Signal_try_take cell =
     (case cell of SigSignaled res \<Rightarrow> (Some res, SigNone) | state \<Rightarrow> (None, state))"

definition Signal_signaled :: "'a signal \<Rightarrow> bool \<times> 'a signal" where
  "Signal_signaled cell = ((case cell of SigSignaled _ \<Rightarrow> True | _ \<Rightarrow> False), cell)"

section \<open>Runs\<close>

datatype 'a sig_op = SigSignal 'a | SigReset | SigPoll waker | SigTake | SigTest

record 'a sig_run =
  sr_cell :: "'a signal"
  sr_last :: "'a option"     \<comment> \<open>the last value signalled and neither taken nor reset\<close>
  sr_taken :: "'a list"
  sr_sleepers :: "waker set"

definition sig_run_init :: "'a sig_run" where
  "sig_run_init = \<lparr>sr_cell = Signal_new, sr_last = None, sr_taken = [], sr_sleepers = {}\<rparr>"

fun sig_exec :: "'a sig_run \<Rightarrow> 'a sig_op \<Rightarrow> 'a sig_run" where
  "sig_exec r (SigSignal v) =
     (let (cell, ws) = Signal_signal (sr_cell r) v
      in r\<lparr>sr_cell := cell, sr_last := Some v, sr_sleepers := sr_sleepers r - set ws\<rparr>)"
| "sig_exec r SigReset = r\<lparr>sr_cell := Signal_reset (sr_cell r), sr_last := None\<rparr>"
| "sig_exec r (SigPoll cx) =
     (let (p, cell, ws) = Signal_poll_wait (sr_cell r) cx
      in r\<lparr>sr_cell := cell,
           sr_last := (case p of Ready _ \<Rightarrow> None | Pending \<Rightarrow> sr_last r),
           sr_taken := sr_taken r @ (case p of Ready v \<Rightarrow> [v] | Pending \<Rightarrow> []),
           sr_sleepers := (sr_sleepers r - set ws) \<union> (case p of Ready _ \<Rightarrow> {} | Pending \<Rightarrow> {cx})\<rparr>)"
| "sig_exec r SigTake =
     (let (v, cell) = Signal_try_take (sr_cell r)
      in r\<lparr>sr_cell := cell, sr_last := (case v of Some _ \<Rightarrow> None | None \<Rightarrow> sr_last r),
           sr_taken := sr_taken r @ (case v of Some v \<Rightarrow> [v] | None \<Rightarrow> [])\<rparr>)"
| "sig_exec r SigTest = r\<lparr>sr_cell := snd (Signal_signaled (sr_cell r))\<rparr>"

definition sig_value :: "'a signal \<Rightarrow> 'a option" where
  "sig_value cell = (case cell of SigSignaled v \<Rightarrow> Some v | _ \<Rightarrow> None)"

definition sig_waiting :: "'a signal \<Rightarrow> waker set" where
  "sig_waiting cell = (case cell of SigWaiting w \<Rightarrow> {w} | _ \<Rightarrow> {})"

lemmas signal_defs =
  Signal_new_def Signal_signal_def Signal_reset_def Signal_poll_wait_def Signal_try_take_def
  Signal_signaled_def sig_value_def sig_waiting_def

lemma sig_exec_last: "sr_last r = sig_value (sr_cell r) \<Longrightarrow> sr_last (sig_exec r x) = sig_value (sr_cell (sig_exec r x))"
  by (cases x; cases "sr_cell r") (auto simp: signal_defs)

lemma sig_exec_sleepers:
  assumes "sr_sleepers r \<subseteq> sig_waiting (sr_cell r)" "x \<noteq> SigReset"
  shows "sr_sleepers (sig_exec r x) \<subseteq> sig_waiting (sr_cell (sig_exec r x))"
  using assms by (cases x; cases "sr_cell r") (auto simp: signal_defs)

definition sig_exec_all :: "'a sig_run \<Rightarrow> 'a sig_op list \<Rightarrow> 'a sig_run" where
  "sig_exec_all r xs = fold (\<lambda>x r. sig_exec r x) xs r"

lemma sig_exec_all_last:
  "sr_last r = sig_value (sr_cell r) \<Longrightarrow> sr_last (sig_exec_all r xs) = sig_value (sr_cell (sig_exec_all r xs))"
  unfolding sig_exec_all_def by (induction xs arbitrary: r) (auto simp del: sig_exec.simps simp: sig_exec_last)

lemma sig_exec_all_sleepers:
  "sr_sleepers r \<subseteq> sig_waiting (sr_cell r) \<Longrightarrow> SigReset \<notin> set xs \<Longrightarrow>
     sr_sleepers (sig_exec_all r xs) \<subseteq> sig_waiting (sr_cell (sig_exec_all r xs))"
  unfolding sig_exec_all_def
proof (induction xs arbitrary: r)
  case (Cons x xs)
  then have "sr_sleepers (sig_exec r x) \<subseteq> sig_waiting (sr_cell (sig_exec r x))"
    by (intro sig_exec_sleepers) auto
  with Cons show ?case by (simp del: sig_exec.simps)
qed simp

text \<open>
  C36. A signal holds the last value and forgets no waiting task: after any operations on a new signal, the cell
  holds the last value signalled that was neither taken nor reset (so a value is delivered at most once and
  an overwritten one never), \<open>signaled\<close> tells whether there is one, and a poll delivers it or
  waits; without \<open>reset\<close> there is no value while a task sleeps, and the next \<open>signal\<close> wakes every sleeping task.
\<close>

theorem signal_delivers:
  fixes ops :: "'a sig_op list"
  assumes r: "r = sig_exec_all sig_run_init ops"
  shows "sig_value (sr_cell r) = sr_last r \<and> fst (Signal_signaled (sr_cell r)) = (sr_last r \<noteq> None) \<and>
    fst (Signal_poll_wait (sr_cell r) cx) = (case sr_last r of Some v \<Rightarrow> Ready v | None \<Rightarrow> Pending) \<and>
    fst (Signal_try_take (sr_cell r)) = sr_last r \<and>
    (SigReset \<notin> set ops \<longrightarrow> (sr_sleepers r \<noteq> {} \<longrightarrow> sr_last r = None) \<and>
       sr_sleepers r \<subseteq> set (snd (Signal_signal (sr_cell r) v)))"
proof -
  have last: "sr_last r = sig_value (sr_cell r)"
    unfolding r by (rule sig_exec_all_last) (simp add: sig_run_init_def signal_defs)
  have "sr_sleepers r \<subseteq> sig_waiting (sr_cell r)" if "SigReset \<notin> set ops"
    unfolding r by (rule sig_exec_all_sleepers) (simp_all add: sig_run_init_def that)
  with last show ?thesis by (cases "sr_cell r") (auto simp: signal_defs)
qed

theorem signal_delivers_witness:
  "let r = sig_exec_all sig_run_init [SigSignal (1 :: nat), SigTake, SigPoll (RawWaker 3 VTABLE)]
   in sr_sleepers r = {RawWaker 3 VTABLE} \<and> sr_last r = None \<and>
     sr_sleepers r \<subseteq> set (snd (Signal_signal (sr_cell r) 7))"
proof -
  let ?ops = "[SigSignal (1 :: nat), SigTake, SigPoll (RawWaker 3 VTABLE)]"
  have "sr_sleepers (sig_exec_all sig_run_init ?ops) = {RawWaker 3 VTABLE}"
    by (simp add: sig_exec_all_def sig_run_init_def signal_defs)
  with signal_delivers [OF refl, of ?ops] show ?thesis by (simp add: Let_def)
qed

text \<open>
  \<open>reset\<close> forgets a waiting task: it is documented to remove the queued value, but it also
  drops the waker of a task that waits, so that a task that went to sleep before the reset is not
  woken by the next signal.
\<close>

theorem signal_reset_forgets_waiter:
  "let r = sig_exec_all sig_run_init [SigPoll w, SigReset]
   in sr_sleepers r = {w} \<and> snd (Signal_signal (sr_cell r) v) = []"
  by (simp add: sig_exec_all_def sig_run_init_def signal_defs)

end
