(* ===== verification/Once_Lock.thy ===== *)
theory Once_Lock
  imports Waitqueue
begin

text \<open>
  The once-lock of \<open>src/src/sync/once_lock.rs\<close>.  The data is a \<open>MaybeUninit\<close>; reading it when it is
  not initialised is undefined behaviour in Rust and \<open>None\<close> here.  The closure of \<open>get_or_init\<close>
  runs inside the critical section and may itself use the lock, so it is a function on the lock.
\<close>

datatype 'a maybe_uninit = Uninit | Zeroed | Init 'a

record 'a once_lock =
  ol_init :: bool
  ol_data :: "'a maybe_uninit"

fun assume_init :: "'a maybe_uninit \<Rightarrow> 'a option" where
  "assume_init (Init x) = Some x"
| "assume_init Uninit = None"
| "assume_init Zeroed = None"

definition OnceLock_new :: "'a once_lock" where
  "OnceLock_new = \<lparr>ol_init = False, ol_data = Uninit\<rparr>"

definition OnceLock_get_ref_unchecked :: "'a once_lock \<Rightarrow> 'a option" where
  "OnceLock_get_ref_unchecked l = assume_init (ol_data l)"

text \<open>The outer option is undefined behaviour, the inner one the result of the method.\<close>

definition OnceLock_try_get :: "'a once_lock \<Rightarrow> 'a option option" where
  "OnceLock_try_get l =
     (if ol_init l then map_option Some (OnceLock_get_ref_unchecked l) else Some None)"

definition OnceLock_get_poll :: "'a once_lock \<Rightarrow> waker \<Rightarrow> ('a poll \<times> waker list) option" where
  "OnceLock_get_poll l cx =
     map_option (\<lambda>r. case r of Some data \<Rightarrow> (Ready data, []) | None \<Rightarrow> (Pending, [cx]))
       (OnceLock_try_get l)"

definition OnceLock_init :: "'a once_lock \<Rightarrow> 'a \<Rightarrow> (unit, 'a) result \<times> 'a once_lock" where
  "OnceLock_init l value =
     (if \<not> ol_init l then (Ok (), l\<lparr>ol_data := Init value, ol_init := True\<rparr>) else (Err value, l))"

definition OnceLock_get_or_init ::
  "'a once_lock \<Rightarrow> ('a once_lock \<Rightarrow> 'a \<times> 'a once_lock) \<Rightarrow> 'a option \<times> 'a once_lock" where
  "OnceLock_get_or_init l f =
     (let l' = (if \<not> ol_init l then let (v, l1) = f l in l1\<lparr>ol_data := Init v, ol_init := True\<rparr> else l)
      in (OnceLock_get_ref_unchecked l', l'))"

definition OnceLock_into_inner :: "'a once_lock \<Rightarrow> 'a option option" where
  "OnceLock_into_inner l =
     (if ol_init l then map_option Some (assume_init (ol_data l)) else Some None)"

definition OnceLock_take :: "'a once_lock \<Rightarrow> 'a option option \<times> 'a once_lock" where
  "OnceLock_take l =
     (if ol_init l then (map_option Some (assume_init (ol_data l)), l\<lparr>ol_data := Zeroed, ol_init := False\<rparr>)
      else (Some None, l))"

definition OnceLock_is_set :: "'a once_lock \<Rightarrow> bool" where
  "OnceLock_is_set l = ol_init l"

lemmas once_lock_defs =
  OnceLock_new_def OnceLock_get_ref_unchecked_def OnceLock_try_get_def OnceLock_get_poll_def
  OnceLock_init_def OnceLock_get_or_init_def OnceLock_into_inner_def OnceLock_take_def OnceLock_is_set_def

section \<open>The lock is an optional value\<close>

text \<open>
  A well-formed lock has initialised data when its flag is set; it then is an optional value.
\<close>

definition ol_inv :: "'a once_lock \<Rightarrow> bool" where
  "ol_inv l \<longleftrightarrow> (ol_init l \<longrightarrow> (\<exists>v. ol_data l = Init v))"

definition ol_value :: "'a once_lock \<Rightarrow> 'a option" where
  "ol_value l = (if ol_init l then assume_init (ol_data l) else None)"

datatype 'a once_op = OnceInit 'a | OnceGetOrInit 'a | OnceTryGet | OnceTake

datatype 'a once_res = InitRes "(unit, 'a) result" | RefRes "'a option"

text \<open>Operations of callers, with closures that do not use the lock; \<open>None\<close> is undefined behaviour.\<close>

fun once_exec :: "'a once_lock \<Rightarrow> 'a once_op \<Rightarrow> ('a once_res \<times> 'a once_lock) option" where
  "once_exec l (OnceInit v) = (let (r, l') = OnceLock_init l v in Some (InitRes r, l'))"
| "once_exec l (OnceGetOrInit v) =
     (let (r, l') = OnceLock_get_or_init l (\<lambda>l. (v, l)) in map_option (\<lambda>x. (RefRes (Some x), l')) r)"
| "once_exec l OnceTryGet = map_option (\<lambda>r. (RefRes r, l)) (OnceLock_try_get l)"
| "once_exec l OnceTake = (let (r, l') = OnceLock_take l in map_option (\<lambda>x. (RefRes x, l')) r)"

fun once_spec :: "'a option \<Rightarrow> 'a once_op \<Rightarrow> 'a once_res \<times> 'a option" where
  "once_spec (Some x) (OnceInit v) = (InitRes (Err v), Some x)"
| "once_spec None (OnceInit v) = (InitRes (Ok ()), Some v)"
| "once_spec (Some x) (OnceGetOrInit v) = (RefRes (Some x), Some x)"
| "once_spec None (OnceGetOrInit v) = (RefRes (Some v), Some v)"
| "once_spec st OnceTryGet = (RefRes st, st)"
| "once_spec st OnceTake = (RefRes st, None)"

fun once_exec_all :: "'a once_lock \<Rightarrow> 'a once_op list \<Rightarrow> ('a once_res list \<times> 'a once_lock) option" where
  "once_exec_all l [] = Some ([], l)"
| "once_exec_all l (x # xs) =
     (case once_exec l x of None \<Rightarrow> None
      | Some (r, l') \<Rightarrow> map_option (\<lambda>(rs, l''). (r # rs, l'')) (once_exec_all l' xs))"

fun once_spec_all :: "'a option \<Rightarrow> 'a once_op list \<Rightarrow> 'a once_res list \<times> 'a option" where
  "once_spec_all st [] = ([], st)"
| "once_spec_all st (x # xs) =
     (let (r, st') = once_spec st x; (rs, st'') = once_spec_all st' xs in (r # rs, st''))"

lemma once_exec_refines:
  assumes "ol_inv l"
  shows "\<exists>r l'. once_exec l x = Some (r, l') \<and> ol_inv l' \<and> once_spec (ol_value l) x = (r, ol_value l')"
proof -
  have "case once_exec l x of None \<Rightarrow> False
      | Some (r, l') \<Rightarrow> ol_inv l' \<and> once_spec (ol_value l) x = (r, ol_value l')"
    using assms by (cases x; cases "ol_init l") (auto simp: once_lock_defs ol_inv_def ol_value_def)
  then show ?thesis by (auto split: option.splits)
qed

lemma once_exec_all_refines:
  "ol_inv l \<Longrightarrow> \<exists>rs l'. once_exec_all l xs = Some (rs, l') \<and> ol_inv l' \<and>
     once_spec_all (ol_value l) xs = (rs, ol_value l')"
proof (induction xs arbitrary: l)
  case (Cons x xs)
  obtain r l1 where 1: "once_exec l x = Some (r, l1)" "ol_inv l1"
    "once_spec (ol_value l) x = (r, ol_value l1)" using once_exec_refines [OF Cons.prems] by blast
  from Cons.IH [OF 1(2)] 1 show ?case by (auto simp del: once_exec.simps once_spec.simps)
qed simp

text \<open>
  C30. The once-lock implements a write-once cell: any sequence of \<open>init\<close>, \<open>get_or_init\<close>, \<open>try_get\<close>
  and \<open>take\<close> on a new lock never reads uninitialised data and gives the results and the final value
  of an optional value that the first initialisation sets, later ones leave, and \<open>take\<close> clears.
\<close>

theorem once_lock_refines:
  fixes ops :: "'a once_op list"
  shows "\<exists>rs l. once_exec_all OnceLock_new ops = Some (rs, l) \<and>
     once_spec_all None ops = (rs, ol_value l) \<and> OnceLock_is_set l = (ol_value l \<noteq> None)"
proof -
  have new: "ol_inv OnceLock_new" "ol_value (OnceLock_new :: 'a once_lock) = None"
    by (simp_all add: ol_inv_def ol_value_def once_lock_defs)
  from once_exec_all_refines [OF new(1), of ops] obtain rs l where
    "once_exec_all OnceLock_new ops = Some (rs, l)" "ol_inv l" "once_spec_all None ops = (rs, ol_value l)"
    unfolding new(2) by blast
  then show ?thesis by (auto simp: ol_inv_def ol_value_def OnceLock_is_set_def)
qed

text \<open>
  A closure of \<open>get_or_init\<close> that initialises the lock itself is overwritten: the value that
  its \<open>init\<close> stored successfully is replaced by the closure's result.
\<close>

theorem get_or_init_reentrant:
  "let (r, l) = OnceLock_get_or_init OnceLock_new (\<lambda>l. let (_, l') = OnceLock_init l a in (b, l'))
   in OnceLock_init OnceLock_new a = (Ok (), \<lparr>ol_init = True, ol_data = Init a\<rparr>) \<and>
      r = Some b \<and> ol_value l = Some b"
  by (simp add: once_lock_defs ol_value_def)

end
