(* ===== verification/Srp_Mutex.thy ===== *)
theory Srp_Mutex
  imports Rust_Prelude
begin

text \<open>
  The stack resource policy mutex of \<open>src/src/srp_mutex.rs\<close>.  Each task that uses a resource
  registers its priority; the mutex keeps the ceiling.  A section raises the current priority of
  the core (\<open>ICR.CCPN\<close>) to the ceiling when several priorities share the resource.  The register
  is accessed through the device crate, so reading and writing it are parameters with the laws of a
  register field; a priority is a \<open>u8\<close>.
\<close>

type_synonym prio = "8 word"

datatype srp_state = Owned prio | CoOwned prio | Contended prio

record 'a srp_mutex =
  srp_st :: srp_state
  srp_inner :: 'a

definition SrpMutex_new :: "prio \<Rightarrow> 'a \<Rightarrow> 'a srp_mutex" where
  "SrpMutex_new p v = \<lparr>srp_st = Owned p, srp_inner = v\<rparr>"

fun srp_register :: "srp_state \<Rightarrow> prio \<Rightarrow> srp_state" where
  "srp_register (Owned p) prio = (if p = prio then CoOwned p else Contended (max p prio))"
| "srp_register (CoOwned p) prio = (if p \<noteq> prio then Contended (max p prio) else CoOwned p)"
| "srp_register (Contended p) prio = (if p \<noteq> prio then Contended (max p prio) else Contended p)"

definition SrpMutex_register_access :: "'a srp_mutex \<Rightarrow> prio \<Rightarrow> 'a srp_mutex" where
  "SrpMutex_register_access m prio = m\<lparr>srp_st := srp_register (srp_st m) prio\<rparr>"

record 'h icr_ops =
  icr_ccpn :: "'h \<Rightarrow> prio"
  icr_set_ccpn :: "prio \<Rightarrow> 'h \<Rightarrow> 'h"

locale icr_register =
  fixes I :: "'h icr_ops"
  assumes ccpn_set [simp]: "icr_ccpn I (icr_set_ccpn I p h) = p"

definition plain_icr :: "prio icr_ops" where
  "plain_icr = \<lparr>icr_ccpn = (\<lambda>h. h), icr_set_ccpn = (\<lambda>p h. p)\<rparr>"

interpretation plain_icr: icr_register plain_icr
  by unfold_locales (simp add: plain_icr_def)

definition SrpMutex_do_srp ::
  "'h icr_ops \<Rightarrow> srp_state \<Rightarrow> ('s \<times> 'h \<Rightarrow> 'u \<times> 's \<times> 'h) \<Rightarrow> 's \<times> 'h \<Rightarrow> 'u \<times> 's \<times> 'h" where
  "SrpMutex_do_srp I st f sh =
     (case st of
        Contended p \<Rightarrow>
          (let (s, h) = sh;
               previous_ceiling = icr_ccpn I h;
               h = (if previous_ceiling < p then icr_set_ccpn I p h else h);
               (x, s, h) = f (s, h)
           in (x, s, icr_set_ccpn I previous_ceiling h))
      | _ \<Rightarrow> f sh)"

definition SrpMutex_lock_mut ::
  "'h icr_ops \<Rightarrow> ('a \<Rightarrow> 'h \<Rightarrow> 'u \<times> 'a \<times> 'h) \<Rightarrow> 'a srp_mutex \<times> 'h \<Rightarrow> 'u \<times> 'a srp_mutex \<times> 'h" where
  "SrpMutex_lock_mut I f mh =
     SrpMutex_do_srp I (srp_st (fst mh))
       (\<lambda>(m, h). let (x, v, h) = f (srp_inner m) h in (x, m\<lparr>srp_inner := v\<rparr>, h)) mh"

definition SrpMutex_lock ::
  "'h icr_ops \<Rightarrow> ('a \<Rightarrow> 'h \<Rightarrow> 'u \<times> 'h) \<Rightarrow> 'a srp_mutex \<times> 'h \<Rightarrow> 'u \<times> 'a srp_mutex \<times> 'h" where
  "SrpMutex_lock I f mh =
     SrpMutex_do_srp I (srp_st (fst mh)) (\<lambda>(m, h). let (x, h) = f (srp_inner m) h in (x, m, h)) mh"

section \<open>The registered ceiling\<close>

text \<open>What the state should be: the owner's priority and those registered after it.\<close>

definition srp_ceiling :: "prio \<Rightarrow> prio list \<Rightarrow> prio" where
  "srp_ceiling p ps = fold max ps p"

definition srp_spec :: "prio \<Rightarrow> prio list \<Rightarrow> srp_state" where
  "srp_spec p ps =
     (if ps = [] then Owned p else if set ps \<subseteq> {p} then CoOwned p else Contended (srp_ceiling p ps))"

lemma srp_ceiling_Max: "srp_ceiling p ps = Max (set (p # ps))"
  by (simp only: srp_ceiling_def Max.set_eq_fold)

lemma srp_ceiling_ge: "q \<in> set (p # ps) \<Longrightarrow> q \<le> srp_ceiling p ps"
  unfolding srp_ceiling_Max by (rule Max_ge) simp_all

lemma srp_ceiling_snoc [simp]: "srp_ceiling p (ps @ [q]) = max q (srp_ceiling p ps)"
  by (simp add: srp_ceiling_def)

lemma srp_ceiling_all_eq: "\<forall>q \<in> set ps. q = p \<Longrightarrow> srp_ceiling p ps = p"
  unfolding srp_ceiling_def by (induction ps) auto

lemma srp_register_spec: "srp_register (srp_spec p ps) q = srp_spec p (ps @ [q])"
proof -
  consider "ps = []" | "ps \<noteq> []" "\<forall>r \<in> set ps. r = p" | "ps \<noteq> []" "\<not> (\<forall>r \<in> set ps. r = p)" by blast
  then show ?thesis
  proof cases
    case 2
    then show ?thesis by (auto simp: srp_spec_def srp_ceiling_all_eq max.commute)
  next
    case 3
    then have "srp_spec p ps = Contended (srp_ceiling p ps)" "srp_spec p (ps @ [q]) = Contended (max q (srp_ceiling p ps))"
      by (auto simp: srp_spec_def)
    then show ?thesis by (auto simp: max.commute)
  qed (auto simp: srp_spec_def srp_ceiling_def max.commute)
qed

lemma srp_registered: "fold (\<lambda>q st. srp_register st q) ps (Owned p) = srp_spec p ps"
proof (induction ps rule: rev_induct)
  case (snoc q ps)
  then show ?case by (simp add: srp_register_spec)
qed (simp add: srp_spec_def)

lemma register_access_state:
  "srp_st (fold (\<lambda>q m. SrpMutex_register_access m q) ps m) = fold (\<lambda>q st. srp_register st q) ps (srp_st m)"
  by (induction ps arbitrary: m) (auto simp: SrpMutex_register_access_def)

context icr_register
begin

lemma do_srp_contended:
  "SrpMutex_do_srp I (Contended p) f (s, h) =
     (let h' = (if icr_ccpn I h < p then icr_set_ccpn I p h else h); (x, s', h'') = f (s, h')
      in (x, s', icr_set_ccpn I (icr_ccpn I h) h''))"
  by (simp add: SrpMutex_do_srp_def Let_def)

lemma raised: "p \<le> icr_ccpn I (if icr_ccpn I h < p then icr_set_ccpn I p h else h)"
  by (simp add: not_less)

lemma lock_mut_runs_at:
  assumes st: "srp_st m = srp_spec p ps"
    and q: "q \<in> set (p # ps)" "q \<le> icr_ccpn I h"
    and f: "\<And>x h. icr_ccpn I (snd (snd (f x h))) = icr_ccpn I h"
  shows "\<exists>h'. (\<forall>r \<in> set (p # ps). r \<le> icr_ccpn I h') \<and>
    fst (SrpMutex_lock_mut I f (m, h)) = fst (f (srp_inner m) h') \<and>
    srp_inner (fst (snd (SrpMutex_lock_mut I f (m, h)))) = fst (snd (f (srp_inner m) h')) \<and>
    icr_ccpn I (snd (snd (SrpMutex_lock_mut I f (m, h)))) = icr_ccpn I h"
proof (cases "srp_spec p ps")
  case (Contended c)
  let ?h' = "if icr_ccpn I h < c then icr_set_ccpn I c h else h"
  have "c = srp_ceiling p ps" using Contended by (auto simp: srp_spec_def split: if_splits)
  then have "\<forall>r \<in> set (p # ps). r \<le> icr_ccpn I ?h'"
    using srp_ceiling_ge raised by (blast intro: order_trans)
  then show ?thesis
    by (intro exI [of _ ?h'])
      (auto simp: SrpMutex_lock_mut_def st Contended do_srp_contended Let_def split: prod.splits)
next
  case (Owned c)
  then have c: "\<forall>r \<in> set (p # ps). r = c" by (auto simp: srp_spec_def split: if_splits)
  with q(1) have "q = c" by blast
  with c q(2) have "\<forall>r \<in> set (p # ps). r \<le> icr_ccpn I h" by metis
  then show ?thesis using q f [of "srp_inner m" h]
    by (intro exI [of _ h])
      (auto simp: SrpMutex_lock_mut_def st Owned SrpMutex_do_srp_def split: prod.splits)
next
  case (CoOwned c)
  then have c: "\<forall>r \<in> set (p # ps). r = c" by (auto simp: srp_spec_def split: if_splits)
  with q(1) have "q = c" by blast
  with c q(2) have "\<forall>r \<in> set (p # ps). r \<le> icr_ccpn I h" by metis
  then show ?thesis using q f [of "srp_inner m" h]
    by (intro exI [of _ h])
      (auto simp: SrpMutex_lock_mut_def st CoOwned SrpMutex_do_srp_def split: prod.splits)
qed

end

text \<open>
  The mutex learns its ceiling: after registering the priorities \<open>ps\<close> on a mutex made for
  priority \<open>p\<close>, its state is \<open>Owned\<close> without registrations, \<open>CoOwned\<close> when all are \<open>p\<close>, and
  otherwise \<open>Contended\<close> with the maximum of all of them, whatever their order.
\<close>

theorem srp_state_is_ceiling:
  "srp_st (fold (\<lambda>q m. SrpMutex_register_access m q) ps (SrpMutex_new p v)) =
     (if ps = [] then Owned p else if set ps \<subseteq> {p} then CoOwned p
      else Contended (Max (set (p # ps))))"
  by (auto simp: register_access_state SrpMutex_new_def srp_registered srp_spec_def srp_ceiling_Max)

text \<open>
  C29. No registered task preempts a section on its resource: when a task of a registered priority
  \<open>q\<close> runs at least at \<open>q\<close> and enters \<open>lock_mut\<close>, its closure runs at a current priority that no
  registered priority exceeds, and, when the closure restores the register, the section leaves it as
  it found it.
\<close>

theorem srp_no_preemption:
  assumes "icr_register I"
    and "m = fold (\<lambda>q m. SrpMutex_register_access m q) ps (SrpMutex_new p v)"
    and "q \<in> set (p # ps)" "q \<le> icr_ccpn I h"
    and "\<And>x h. icr_ccpn I (snd (snd (f x h))) = icr_ccpn I h"
  shows "\<exists>h'. (\<forall>r \<in> set (p # ps). r \<le> icr_ccpn I h') \<and>
    fst (SrpMutex_lock_mut I f (m, h)) = fst (f (srp_inner m) h') \<and>
    srp_inner (fst (snd (SrpMutex_lock_mut I f (m, h)))) = fst (snd (f (srp_inner m) h')) \<and>
    icr_ccpn I (snd (snd (SrpMutex_lock_mut I f (m, h)))) = icr_ccpn I h"
proof -
  have "srp_st m = srp_spec p ps"
    unfolding assms(2) by (simp add: register_access_state SrpMutex_new_def srp_registered)
  from icr_register.lock_mut_runs_at [OF assms(1) this assms(3-5)] show ?thesis .
qed

theorem srp_no_preemption_witness:
  "\<exists>h'. (\<forall>r \<in> set [3, 5, 4 :: prio]. r \<le> h') \<and>
    fst (SrpMutex_lock_mut plain_icr (\<lambda>x h. (x, x + 1, h))
      (fold (\<lambda>q m. SrpMutex_register_access m q) [5, 4] (SrpMutex_new 3 (10 :: nat)), 3)) = 10 \<and>
    icr_ccpn plain_icr (snd (snd (SrpMutex_lock_mut plain_icr (\<lambda>x h. (x, x + 1, h))
      (fold (\<lambda>q m. SrpMutex_register_access m q) [5, 4] (SrpMutex_new 3 (10 :: nat)), 3)))) = 3"
proof -
  have "srp_inner (fold (\<lambda>q m. SrpMutex_register_access m q) [5, 4] (SrpMutex_new 3 (10 :: nat))) = 10"
    by (simp add: SrpMutex_register_access_def SrpMutex_new_def)
  with srp_no_preemption [OF plain_icr.icr_register_axioms refl, of 3 3 "[5, 4]" 3 "\<lambda>x h. (x, x + 1, h)" "10 :: nat"]
  show ?thesis by (auto simp: plain_icr_def)
qed

end
