(* ===== verification/Alarm.thy ===== *)
theory Alarm
  imports Timer_Queue "HOL-Library.Product_Lexorder"
begin

text \<open>
  The alarm queue of \<open>src/src/cpu/alarm.rs\<close>: handles with a callback each, and a min-heap of alarms.
  A callback \<open>'k\<close> is a function pointer with its context; calling it is the parameter \<open>run_cb\<close>, which
  changes the rest \<open>'s\<close> of the kernel.  \<open>call_all_expired\<close> takes fuel like \<open>dequeue_expired\<close>.
\<close>

record alarm_handle =
  ah_id :: "8 word"

record alarm_item =
  ai_expires_at :: nat
  ai_handle :: alarm_handle

record ('v, 'h) alarm_queue =
  aq_callbacks :: 'v
  aq_queue :: 'h

type_synonym ('v, 'k) callback_vec_ops = "('v, 'k option) vec_ops"
type_synonym 'h alarm_heap_ops = "('h, alarm_item) heap_ops"

definition AlarmHandle_from :: "8 word \<Rightarrow> alarm_handle" where
  "AlarmHandle_from value = \<lparr>ah_id = value\<rparr>"

text \<open>The derived order compares the deadline first and then the handle.\<close>

definition AlarmItem_le :: "alarm_item \<Rightarrow> alarm_item \<Rightarrow> bool" where
  "AlarmItem_le x y \<longleftrightarrow> ai_expires_at x < ai_expires_at y \<or>
     ai_expires_at x = ai_expires_at y \<and> ah_id (ai_handle x) \<le> ah_id (ai_handle y)"

definition AlarmQueue_new :: "('v, 'k) callback_vec_ops \<Rightarrow> 'h alarm_heap_ops \<Rightarrow> ('v, 'h) alarm_queue" where
  "AlarmQueue_new V H = \<lparr>aq_callbacks = Vec_new V, aq_queue = Heap_new H\<rparr>"

definition AlarmQueue_try_allocate_handle ::
  "('v, 'k) callback_vec_ops \<Rightarrow> ('v, 'h) alarm_queue \<Rightarrow>
     (alarm_handle option \<times> ('v, 'h) alarm_queue) outcome" where
  "AlarmQueue_try_allocate_handle V q =
     (case Vec_push V (aq_callbacks q) None of
        (Err _, v) \<Rightarrow> Ret (None, q\<lparr>aq_callbacks := v\<rparr>)
      | (Ok _, v) \<Rightarrow>
          bind_out (sub_usize (Vec_len V v) 1) (\<lambda>idx.
            Ret (Some (AlarmHandle_from (word_of_nat idx)), q\<lparr>aq_callbacks := v\<rparr>)))"

definition AlarmQueue_register_callback ::
  "('v, 'k) callback_vec_ops \<Rightarrow> ('v, 'h) alarm_queue \<Rightarrow> alarm_handle \<Rightarrow> 'k \<Rightarrow>
     ('v, 'h) alarm_queue outcome" where
  "AlarmQueue_register_callback V q handle f =
     (let idx = unat (ah_id handle) in
      if idx < length (Vec_as_slice V (aq_callbacks q))
      then Ret (q\<lparr>aq_callbacks := Vec_set_nth V (aq_callbacks q) idx (Some f)\<rparr>)
      else Panic UnwrapFailed)"

definition AlarmQueue_call ::
  "('v, 'k) callback_vec_ops \<Rightarrow> ('k \<Rightarrow> 's \<Rightarrow> 's outcome) \<Rightarrow> ('v, 'h) alarm_queue \<Rightarrow> alarm_handle \<Rightarrow> 's \<Rightarrow>
     (unit option \<times> 's) outcome" where
  "AlarmQueue_call V run_cb q handle s =
     (let idx = unat (ah_id handle) in
      if idx < length (Vec_as_slice V (aq_callbacks q)) then
        (case Vec_as_slice V (aq_callbacks q) ! idx of
           Some f \<Rightarrow> bind_out (run_cb f s) (\<lambda>s'. Ret (Some (), s'))
         | None \<Rightarrow> Ret (None, s))
      else Panic UnwrapFailed)"

definition AlarmQueue_set_alarm ::
  "'h alarm_heap_ops \<Rightarrow> ('v, 'h) alarm_queue \<Rightarrow> alarm_handle \<Rightarrow> nat \<Rightarrow> unit option \<times> ('v, 'h) alarm_queue" where
  "AlarmQueue_set_alarm H q handle e =
     (let (r, h) = Heap_push H (aq_queue q) \<lparr>ai_expires_at = e, ai_handle = handle\<rparr>
      in (result_ok r, q\<lparr>aq_queue := h\<rparr>))"

definition AlarmQueue_get_one_expired_item ::
  "'h alarm_heap_ops \<Rightarrow> ('v, 'h) alarm_queue \<Rightarrow> nat \<Rightarrow> alarm_item option \<times> ('v, 'h) alarm_queue" where
  "AlarmQueue_get_one_expired_item H q now =
     (case Heap_peek H (aq_queue q) of
        Some item \<Rightarrow>
          if ai_expires_at item \<le> now
          then let (r, h) = Heap_pop H (aq_queue q) in (r, q\<lparr>aq_queue := h\<rparr>)
          else (None, q)
      | None \<Rightarrow> (None, q))"

fun AlarmQueue_call_all_expired ::
  "nat \<Rightarrow> ('v, 'k) callback_vec_ops \<Rightarrow> 'h alarm_heap_ops \<Rightarrow> ('k \<Rightarrow> 's \<Rightarrow> 's outcome) \<Rightarrow>
     ('v, 'h) alarm_queue \<Rightarrow> nat \<Rightarrow> 's \<Rightarrow> nat \<Rightarrow> (nat \<times> ('v, 'h) alarm_queue \<times> 's) outcome option" where
  "AlarmQueue_call_all_expired 0 V H run_cb q now s cnt = None"
| "AlarmQueue_call_all_expired (Suc fuel) V H run_cb q now s cnt =
     (case AlarmQueue_get_one_expired_item H q now of
        (Some item, q') \<Rightarrow>
          if ai_expires_at item \<le> now then
            (case AlarmQueue_call V run_cb q' (ai_handle item) s of
               Panic p \<Rightarrow> Some (Panic p)
             | Ret (_, s') \<Rightarrow>
                 (case add_usize cnt 1 of
                    Panic p \<Rightarrow> Some (Panic p)
                  | Ret cnt' \<Rightarrow> AlarmQueue_call_all_expired fuel V H run_cb q' now s' cnt'))
          else Some (Ret (cnt, q', s))
      | (None, q') \<Rightarrow> Some (Ret (cnt, q', s)))"

section \<open>Laws\<close>

text \<open>
  In a well-formed queue every alarm belongs to an allocated handle.  \<open>alarm_call\<close> calls the callback
  of an alarm, if its handle has one.
\<close>

definition AlarmQueue_inv ::
  "('v, 'k) callback_vec_ops \<Rightarrow> ('v \<Rightarrow> bool) \<Rightarrow> ('h \<Rightarrow> bool) \<Rightarrow> ('h \<Rightarrow> alarm_item multiset) \<Rightarrow>
     ('v, 'h) alarm_queue \<Rightarrow> bool" where
  "AlarmQueue_inv V cb_inv al_inv alarms q \<longleftrightarrow> cb_inv (aq_callbacks q) \<and> al_inv (aq_queue q) \<and>
     (\<forall>i \<in># alarms (aq_queue q). unat (ah_id (ai_handle i)) < length (Vec_as_slice V (aq_callbacks q)))"

definition alarm_call ::
  "('v, 'k) callback_vec_ops \<Rightarrow> ('k \<Rightarrow> 's \<Rightarrow> 's outcome) \<Rightarrow> ('v, 'h) alarm_queue \<Rightarrow> 's \<Rightarrow> alarm_item \<Rightarrow>
     's outcome" where
  "alarm_call V run_cb q s i =
     (case Vec_as_slice V (aq_callbacks q) ! unat (ah_id (ai_handle i)) of
        None \<Rightarrow> Ret s | Some f \<Rightarrow> run_cb f s)"

locale alarm_libs = cb: bounded_vec V NH cb_inv + al: bounded_heap H NA AlarmItem_le al_inv alarms
  for V :: "('v, 'k) callback_vec_ops" and NH :: nat and cb_inv :: "'v \<Rightarrow> bool"
    and H :: "'h alarm_heap_ops" and NA :: nat and al_inv :: "'h \<Rightarrow> bool"
    and alarms :: "'h \<Rightarrow> alarm_item multiset" +
  assumes handles_u8: "NH \<le> 256"
    and alarms_usize: "NA \<le> usize_max"
begin

abbreviation aq_inv :: "('v, 'h) alarm_queue \<Rightarrow> bool" where
  "aq_inv \<equiv> AlarmQueue_inv V cb_inv al_inv alarms"

lemmas aq_inv_def = AlarmQueue_inv_def

lemma new_aq_inv: "aq_inv (AlarmQueue_new V H)"
  by (simp add: aq_inv_def AlarmQueue_new_def)

lemma allocate_cases:
  assumes "aq_inv q"
  obtains (ok) q' where "length (Vec_as_slice V (aq_callbacks q)) < NH"
      "AlarmQueue_try_allocate_handle V q =
        Ret (Some (AlarmHandle_from (word_of_nat (length (Vec_as_slice V (aq_callbacks q))))), q')"
      "aq_inv q'" "aq_queue q' = aq_queue q"
      "Vec_as_slice V (aq_callbacks q') = Vec_as_slice V (aq_callbacks q) @ [None]"
    | (full) q' where "length (Vec_as_slice V (aq_callbacks q)) = NH"
      "AlarmQueue_try_allocate_handle V q = Ret (None, q')" "aq_inv q'" "aq_queue q' = aq_queue q"
      "Vec_as_slice V (aq_callbacks q') = Vec_as_slice V (aq_callbacks q)"
proof -
  from assms have inv: "cb_inv (aq_callbacks q)" by (simp add: aq_inv_def)
  then show ?thesis
  proof (cases rule: cb.push_cases [where x = None])
    case (ok v)
    then have "Vec_len V v = Suc (length (Vec_as_slice V (aq_callbacks q)))" by simp
    with ok assms show ?thesis
      by (intro that(1) [of "q\<lparr>aq_callbacks := v\<rparr>"])
        (auto simp: AlarmQueue_try_allocate_handle_def aq_inv_def dest!: multi_member_split)
  next
    case (full v)
    with assms show ?thesis
      by (intro that(2) [of "q\<lparr>aq_callbacks := v\<rparr>"])
        (auto simp: AlarmQueue_try_allocate_handle_def aq_inv_def)
  qed
qed

lemma set_alarm_cases:
  assumes "aq_inv q" "unat (ah_id handle) < length (Vec_as_slice V (aq_callbacks q))"
  obtains (ok) q' where "size (alarms (aq_queue q)) < NA" "AlarmQueue_set_alarm H q handle e = (Some (), q')"
      "aq_inv q'" "aq_callbacks q' = aq_callbacks q"
      "alarms (aq_queue q') = add_mset \<lparr>ai_expires_at = e, ai_handle = handle\<rparr> (alarms (aq_queue q))"
    | (full) q' where "size (alarms (aq_queue q)) = NA" "AlarmQueue_set_alarm H q handle e = (None, q')"
      "aq_inv q'" "aq_callbacks q' = aq_callbacks q" "alarms (aq_queue q') = alarms (aq_queue q)"
proof -
  from assms(1) have inv: "al_inv (aq_queue q)" by (simp add: aq_inv_def)
  then show ?thesis
  proof (cases rule: al.push_cases [where x = "\<lparr>ai_expires_at = e, ai_handle = handle\<rparr>"])
    case (ok h)
    with assms show ?thesis
      by (intro that(1) [of "q\<lparr>aq_queue := h\<rparr>"]) (auto simp: AlarmQueue_set_alarm_def aq_inv_def)
  next
    case (full h)
    with assms show ?thesis
      by (intro that(2) [of "q\<lparr>aq_queue := h\<rparr>"]) (auto simp: AlarmQueue_set_alarm_def aq_inv_def)
  qed
qed

lemma get_one_cases:
  assumes inv: "aq_inv q"
  obtains (none) "AlarmQueue_get_one_expired_item H q now = (None, q)"
      "\<forall>i \<in># alarms (aq_queue q). now < ai_expires_at i"
    | (some) i q' where "AlarmQueue_get_one_expired_item H q now = (Some i, q')" "ai_expires_at i \<le> now"
      "aq_inv q'" "aq_callbacks q' = aq_callbacks q" "alarms (aq_queue q) = add_mset i (alarms (aq_queue q'))"
      "\<And>j. j \<in># alarms (aq_queue q') \<Longrightarrow> AlarmItem_le i j"
      "unat (ah_id (ai_handle i)) < length (Vec_as_slice V (aq_callbacks q))"
proof -
  from inv have al: "al_inv (aq_queue q)" by (simp add: aq_inv_def)
  then show ?thesis
  proof (cases rule: al.pop_cases)
    case none
    then show ?thesis by (intro that(1)) (simp_all add: AlarmQueue_get_one_expired_item_def)
  next
    case (some i h)
    show ?thesis
    proof (cases "ai_expires_at i \<le> now")
      case True
      with some inv show ?thesis
        by (intro that(2) [of i "q\<lparr>aq_queue := h\<rparr>"]) (auto simp: AlarmQueue_get_one_expired_item_def aq_inv_def)
    next
      case False
      with some show ?thesis
        by (intro that(1)) (force simp: AlarmQueue_get_one_expired_item_def AlarmItem_le_def)+
    qed
  qed
qed

lemma call_all_expired:
  fixes q :: "('v, 'h) alarm_queue"
  assumes "aq_inv q" "size (alarms (aq_queue q)) < fuel" "n + size (alarms (aq_queue q)) \<le> usize_max"
  shows "\<exists>items (q' :: ('v, 'h) alarm_queue).
    mset items + alarms (aq_queue q') = alarms (aq_queue q) \<and> aq_inv q' \<and>
    aq_callbacks q' = aq_callbacks q \<and> sorted_wrt AlarmItem_le items \<and>
    (\<forall>i \<in> set items. ai_expires_at i \<le> now) \<and> (\<forall>i \<in># alarms (aq_queue q'). now < ai_expires_at i) \<and>
    (\<forall>s. AlarmQueue_call_all_expired fuel V H run_cb q now s n =
      Some (bind_out (each_out (alarm_call V run_cb q) items s) (\<lambda>s'. Ret (n + length items, q', s'))))"
  using assms
proof (induction fuel arbitrary: q n)
  case (Suc fuel)
  from Suc.prems(1) show ?case
  proof (cases rule: get_one_cases [where now = now])
    case none
    with Suc.prems(1) show ?thesis by (intro exI [of _ "[]"] exI [of _ q]) simp
  next
    case (some i q1)
    from Suc.prems(2,3) some(5) have sz: "size (alarms (aq_queue q1)) < fuel"
      "Suc n + size (alarms (aq_queue q1)) \<le> usize_max" by simp_all
    have cb: "alarm_call V run_cb q1 = alarm_call V run_cb q"
      by (intro ext) (simp add: alarm_call_def some(4))
    from Suc.IH [OF some(3) sz] obtain items and q' :: "('v, 'h) alarm_queue" where ih:
      "mset items + alarms (aq_queue q') = alarms (aq_queue q1)" "aq_inv q'"
      "aq_callbacks q' = aq_callbacks q1" "sorted_wrt AlarmItem_le items"
      "\<forall>i \<in> set items. ai_expires_at i \<le> now" "\<forall>i \<in># alarms (aq_queue q'). now < ai_expires_at i"
      "\<And>s. AlarmQueue_call_all_expired fuel V H run_cb q1 now s (Suc n) =
        Some (bind_out (each_out (alarm_call V run_cb q) items s) (\<lambda>s'. Ret (Suc n + length items, q', s')))"
      unfolding cb by blast
    have le: "AlarmItem_le i j" if "j \<in> set items" for j
      using some(6) [of j] ih(1) that by (metis set_mset_mset union_iff)
    have "add_usize n 1 = Ret (Suc n)" using sz(2) by simp
    then have "AlarmQueue_call_all_expired (Suc fuel) V H run_cb q now s n =
      Some (bind_out (each_out (alarm_call V run_cb q) (i # items) s) (\<lambda>s'. Ret (n + length (i # items), q', s')))" for s
      using some(1,2,4,7) ih(7)
      by (cases "Vec_as_slice V (aq_callbacks q) ! unat (ah_id (ai_handle i))";
          cases "alarm_call V run_cb q s i")
        (auto simp: AlarmQueue_call_def alarm_call_def)
    with ih some le show ?thesis by (intro exI [of _ "i # items"] exI [of _ q']) auto
  qed
qed simp

end

definition alarm_key :: "alarm_item \<Rightarrow> nat \<times> nat" where
  "alarm_key i = (ai_expires_at i, unat (ah_id (ai_handle i)))"

lemma sorted_alarm_libs:
  assumes "NH \<le> 256" "NA \<le> usize_max"
  shows "alarm_libs (list_vec NH) NH (\<lambda>v. length v \<le> NH) (sorted_heap NA alarm_key) NA
    (\<lambda>h. length h \<le> NA \<and> sorted (map alarm_key h)) mset"
proof -
  have "AlarmItem_le = (\<lambda>x y. alarm_key x \<le> alarm_key y)"
    by (intro ext) (auto simp: AlarmItem_le_def alarm_key_def word_le_nat_alt)
  then have "bounded_heap (sorted_heap NA alarm_key) NA AlarmItem_le
    (\<lambda>h. length h \<le> NA \<and> sorted (map alarm_key h)) mset"
    using sorted_heap_bounded [of NA alarm_key] by (simp only:)
  with assms show ?thesis
    by (intro alarm_libs.intro alarm_libs_axioms.intro list_vec_bounded)
qed

interpretation sorted_alarms: alarm_libs "list_vec 8" 8 "\<lambda>v. length v \<le> 8" "sorted_heap 64 alarm_key" 64
    "\<lambda>h. length h \<le> 64 \<and> sorted (map alarm_key h)" mset
  by (rule sorted_alarm_libs) (simp_all add: usize_max_def)

text \<open>
  The alarm queue calls exactly the expired alarms: for a well-formed queue and fuel above the
  number of alarms, \<open>call_all_expired\<close> calls the callback of every alarm whose tick is reached, ordered
  by tick and then handle, keeps the later ones, leaves the callbacks as they are and returns the
  number of alarms; it panics only if a callback does.
\<close>

theorem alarms_fire_exact:
  fixes q :: "('v, 'h) alarm_queue"
  assumes "alarm_libs V NH cb_inv H NA al_inv alarms" "AlarmQueue_inv V cb_inv al_inv alarms q"
    and "size (alarms (aq_queue q)) < fuel"
  shows "\<exists>items (q' :: ('v, 'h) alarm_queue).
    mset items + alarms (aq_queue q') = alarms (aq_queue q) \<and>
    AlarmQueue_inv V cb_inv al_inv alarms q' \<and> aq_callbacks q' = aq_callbacks q \<and>
    sorted_wrt AlarmItem_le items \<and>
    (\<forall>i \<in> set items. ai_expires_at i \<le> now) \<and> (\<forall>i \<in># alarms (aq_queue q'). now < ai_expires_at i) \<and>
    (\<forall>s. AlarmQueue_call_all_expired fuel V H run_cb q now s 0 =
      Some (bind_out (each_out (alarm_call V run_cb q) items s) (\<lambda>s'. Ret (length items, q', s'))))"
proof -
  have "size (alarms (aq_queue q)) \<le> NA"
    using assms(2) bounded_heap.bounded [OF alarm_libs.axioms(2) [OF assms(1)]] by (simp add: AlarmQueue_inv_def)
  then have "0 + size (alarms (aq_queue q)) \<le> usize_max"
    using alarm_libs.alarms_usize [OF assms(1)] by simp
  from alarm_libs.call_all_expired [OF assms this] show ?thesis by (simp only: add_0)
qed

theorem alarms_fire_exact_witness:
  "let q = \<lparr>aq_callbacks = [Some (7 :: nat)], aq_queue = [\<lparr>ai_expires_at = 4, ai_handle = AlarmHandle_from 0\<rparr>]\<rparr>
   in \<exists>items (q' :: (nat option list, alarm_item list) alarm_queue).
     mset items + mset (aq_queue q') = mset (aq_queue q) \<and>
     (\<forall>i \<in> set items. ai_expires_at i \<le> 4) \<and> (\<forall>i \<in> set (aq_queue q'). 4 < ai_expires_at i)"
proof -
  let ?q = "\<lparr>aq_callbacks = [Some (7 :: nat)], aq_queue = [\<lparr>ai_expires_at = 4, ai_handle = AlarmHandle_from 0\<rparr>]\<rparr>"
  have "AlarmQueue_inv (list_vec 8) (\<lambda>v. length v \<le> 8) (\<lambda>h. length h \<le> 64 \<and> sorted (map alarm_key h)) mset ?q"
    by (simp add: AlarmQueue_inv_def AlarmHandle_from_def list_vec_def)
  from alarms_fire_exact [OF sorted_alarms.alarm_libs_axioms this, of 2 4 "\<lambda>f s. Ret (s @ [f])"]
  show ?thesis by (simp add: Let_def del: AlarmQueue_call_all_expired.simps sorted_wrt.simps) blast
qed

text \<open>
  Handles are distinct and counted: allocating a handle succeeds exactly while there are fewer
  than \<open>NH\<close>, and the \<open>n\<close>-th one (from 0) has the number \<open>n\<close>; a full queue of alarms drops a new alarm
  and reports \<open>None\<close>.
\<close>

theorem alarm_handles:
  fixes q :: "('v, 'h) alarm_queue"
  assumes "alarm_libs V NH cb_inv H NA al_inv alarms" "AlarmQueue_inv V cb_inv al_inv alarms q"
  shows "\<exists>q'. AlarmQueue_try_allocate_handle V q =
      Ret (if length (Vec_as_slice V (aq_callbacks q)) < NH
           then Some (AlarmHandle_from (word_of_nat (length (Vec_as_slice V (aq_callbacks q))))) else None, q') \<and>
    AlarmQueue_inv V cb_inv al_inv alarms q' \<and>
    (size (alarms (aq_queue q)) = NA \<and> unat (ah_id h) < length (Vec_as_slice V (aq_callbacks q)) \<longrightarrow>
      fst (AlarmQueue_set_alarm H q h e) = None)"
proof -
  have "\<exists>q'. AlarmQueue_try_allocate_handle V q =
      Ret (if length (Vec_as_slice V (aq_callbacks q)) < NH
           then Some (AlarmHandle_from (word_of_nat (length (Vec_as_slice V (aq_callbacks q))))) else None, q') \<and>
    AlarmQueue_inv V cb_inv al_inv alarms q'"
    using assms by (cases rule: alarm_libs.allocate_cases) auto
  moreover have "fst (AlarmQueue_set_alarm H q h e) = None"
    if "size (alarms (aq_queue q)) = NA" "unat (ah_id h) < length (Vec_as_slice V (aq_callbacks q))"
    using assms that(2) by (cases rule: alarm_libs.set_alarm_cases [where e = e]) (use that in auto)
  ultimately show ?thesis by blast
qed

theorem alarm_handles_witness:
  "\<exists>q'. AlarmQueue_try_allocate_handle (list_vec 8)
      (AlarmQueue_new (list_vec 8 :: (nat option list, nat option) vec_ops) (sorted_heap 64 alarm_key)) =
      Ret (Some (AlarmHandle_from 0), q')"
  using alarm_handles [OF sorted_alarms.alarm_libs_axioms sorted_alarms.new_aq_inv]
  by (fastforce simp: AlarmQueue_new_def list_vec_def)

end
