(* ===== verification/Bump.thy ===== *)
theory Bump
  imports Rust_Prelude
begin

text \<open>
  The bump allocator of \<open>src/src/memory/bump.rs\<close>.  A type is given by its size and alignment, a
  value of it by its bytes; the memory is a map from addresses to bytes.
\<close>

record bump =
  ba_len :: nat
  ba_pos :: nat
  ba_start :: nat

type_synonym memory = "nat \<Rightarrow> 8 word"

definition BumpAllocator_new :: "nat \<Rightarrow> nat \<Rightarrow> bump" where
  "BumpAllocator_new start len = \<lparr>ba_len = len, ba_pos = 0, ba_start = start\<rparr>"

definition round_up :: "nat \<Rightarrow> nat \<Rightarrow> nat outcome" where
  "round_up n m =
     (if m = 0 then Panic ArithOverflow
      else let rem = n mod m in
        if rem = 0 then Ret n else bind_out (add_usize n m) (\<lambda>t. sub_usize t rem))"

definition BumpAllocator_alloc :: "bump \<Rightarrow> nat \<Rightarrow> nat \<Rightarrow> (nat \<times> bump) outcome" where
  "BumpAllocator_alloc b sz align =
     bind_out (round_up (ba_pos b) align) (\<lambda>new_pos.
     bind_out (add_usize new_pos sz) (\<lambda>e.
       if e < ba_len b then Ret (ba_start b + new_pos, b\<lparr>ba_pos := e\<rparr>)
       else Panic ExplicitPanic))"

definition write_bytes :: "nat \<Rightarrow> 8 word list \<Rightarrow> memory \<Rightarrow> memory" where
  "write_bytes a vs mem = (\<lambda>i. if a \<le> i \<and> i < a + length vs then vs ! (i - a) else mem i)"

definition read_bytes :: "nat \<Rightarrow> nat \<Rightarrow> memory \<Rightarrow> 8 word list" where
  "read_bytes a n mem = map mem [a..<a + n]"

definition BumpAllocator_alloc_init ::
  "bump \<Rightarrow> memory \<Rightarrow> nat \<Rightarrow> 8 word list \<Rightarrow> (nat \<times> bump \<times> memory) outcome" where
  "BumpAllocator_alloc_init b mem align val =
     bind_out (BumpAllocator_alloc b (length val) align) (\<lambda>(slot, b).
       Ret (slot, b, write_bytes slot val mem))"

section \<open>Rounding\<close>

lemma round_up_least:
  assumes "0 < m" "n + m \<le> usize_max"
  obtains r where "round_up n m = Ret r" "m dvd r" "n \<le> r" "r < n + m"
proof (cases "n mod m = 0")
  case True
  with assms show ?thesis by (intro that [of n]) (auto simp: round_up_def)
next
  case False
  have le: "n mod m \<le> n" "n mod m < m" using assms(1) by simp_all
  have "m dvd n - n mod m + m" by (rule dvd_add [OF dvd_minus_mod dvd_refl])
  then have "m dvd n + m - n mod m" by (simp only: diff_add_assoc2 [OF le(1)])
  with False assms le show ?thesis
    by (intro that [of "n + m - n mod m"]) (auto simp: round_up_def Let_def)
qed

lemma multiple_between_unique:
  assumes "m dvd (r :: nat)" "m dvd k" "n \<le> r" "r < n + m" "n \<le> k"
  shows "r \<le> k"
proof (rule ccontr)
  assume "\<not> r \<le> k"
  then have "k + m \<le> r" using assms(1,2) by (metis add.commute dvd_diff_nat dvd_imp_le le_add_diff_inverse le_diff_conv2 less_imp_le_nat not_le zero_less_diff)
  with assms show False by simp
qed

section \<open>Allocating\<close>

definition bump_inv :: "bump \<Rightarrow> bool" where
  "bump_inv b \<longleftrightarrow> ba_pos b \<le> ba_len b \<and> ba_start b + ba_len b \<le> usize_max"

lemma alloc_Ret:
  assumes inv: "bump_inv b" and al: "0 < align"
    and ret: "BumpAllocator_alloc b sz align = Ret (a, b')"
  shows "bump_inv b' \<and> ba_start b' = ba_start b \<and> ba_len b' = ba_len b \<and>
    align dvd (a - ba_start b) \<and> ba_start b + ba_pos b \<le> a \<and> a + sz = ba_start b + ba_pos b' \<and>
    ba_pos b' < ba_len b"
proof -
  from ret obtain r where r: "round_up (ba_pos b) align = Ret r" "r + sz < ba_len b"
    "a = ba_start b + r" "b' = b\<lparr>ba_pos := r + sz\<rparr>"
    by (auto simp: BumpAllocator_alloc_def add_usize_def split: if_splits)
  have "align dvd r \<and> ba_pos b \<le> r"
  proof (cases "ba_pos b mod align = 0")
    case True
    with r(1) al show ?thesis by (auto simp: round_up_def)
  next
    case False
    then have "ba_pos b + align \<le> usize_max"
      using r(1) al by (auto simp: round_up_def Let_def add_usize_def split: if_splits)
    from round_up_least [OF al this] r(1) show ?thesis by (metis outcome.inject(1))
  qed
  with r inv show ?thesis by (auto simp: bump_inv_def)
qed

lemma alloc_fits:
  assumes inv: "bump_inv b" and al: "0 < align" "ba_pos b + align \<le> usize_max"
    and fits: "align dvd k" "ba_pos b \<le> k" "k + sz < ba_len b"
  shows "\<exists>a b'. BumpAllocator_alloc b sz align = Ret (a, b')"
proof -
  obtain r where r: "round_up (ba_pos b) align = Ret r" "align dvd r" "ba_pos b \<le> r" "r < ba_pos b + align"
    using round_up_least [OF al] .
  have "r \<le> k" using multiple_between_unique [OF r(2) fits(1) r(3,4) fits(2)] .
  with r fits inv show ?thesis by (auto simp: BumpAllocator_alloc_def bump_inv_def)
qed

text \<open>A run: values with their alignments are stored one after the other.\<close>

fun bump_run ::
  "bump \<Rightarrow> memory \<Rightarrow> (nat \<times> 8 word list) list \<Rightarrow> (nat list \<times> bump \<times> memory) outcome" where
  "bump_run b mem [] = Ret ([], b, mem)"
| "bump_run b mem ((align, val) # rest) =
     bind_out (BumpAllocator_alloc_init b mem align val) (\<lambda>(a, b1, mem1).
     bind_out (bump_run b1 mem1 rest) (\<lambda>(as, b2, mem2). Ret (a # as, b2, mem2)))"

lemma read_write_same: "read_bytes a (length vs) (write_bytes a vs mem) = vs"
  by (rule nth_equalityI) (simp_all add: read_bytes_def write_bytes_def)

lemma read_cong: "(\<And>i. a \<le> i \<Longrightarrow> i < a + n \<Longrightarrow> m1 i = m2 i) \<Longrightarrow> read_bytes a n m1 = read_bytes a n m2"
  by (simp add: read_bytes_def)

lemma bump_run_spec:
  assumes "bump_inv b" "\<forall>(al, _) \<in> set reqs. 0 < al" "bump_run b mem reqs = Ret (as, b', mem')"
  shows "bump_inv b' \<and> ba_start b' = ba_start b \<and> ba_len b' = ba_len b \<and> ba_pos b \<le> ba_pos b' \<and>
    length as = length reqs \<and>
    (\<forall>i < length as. fst (reqs ! i) dvd (as ! i - ba_start b) \<and> ba_start b + ba_pos b \<le> as ! i \<and>
       as ! i + length (snd (reqs ! i)) \<le> ba_start b + ba_pos b' \<and>
       read_bytes (as ! i) (length (snd (reqs ! i))) mem' = snd (reqs ! i)) \<and>
    (\<forall>i j. i < j \<longrightarrow> j < length as \<longrightarrow> as ! i + length (snd (reqs ! i)) \<le> as ! j) \<and>
    (\<forall>x < ba_start b + ba_pos b. mem' x = mem x)"
  using assms
proof (induction reqs arbitrary: b mem as)
  case (Cons req reqs)
  obtain al val where req: "req = (al, val)" by (cases req)
  from Cons.prems(3) req obtain a b1 as1 where
    al: "BumpAllocator_alloc b (length val) al = Ret (a, b1)"
    and rest: "bump_run b1 (write_bytes a val mem) reqs = Ret (as1, b', mem')" and as: "as = a # as1"
    by (auto simp: BumpAllocator_alloc_init_def)
  have pos: "0 < al" using Cons.prems(2) req by simp
  note s = alloc_Ret [OF Cons.prems(1) pos al]
  have ih: "bump_inv b' \<and> ba_start b' = ba_start b1 \<and> ba_len b' = ba_len b1 \<and> ba_pos b1 \<le> ba_pos b' \<and>
    length as1 = length reqs \<and>
    (\<forall>i < length as1. fst (reqs ! i) dvd (as1 ! i - ba_start b1) \<and> ba_start b1 + ba_pos b1 \<le> as1 ! i \<and>
       as1 ! i + length (snd (reqs ! i)) \<le> ba_start b1 + ba_pos b' \<and>
       read_bytes (as1 ! i) (length (snd (reqs ! i))) mem' = snd (reqs ! i)) \<and>
    (\<forall>i j. i < j \<longrightarrow> j < length as1 \<longrightarrow> as1 ! i + length (snd (reqs ! i)) \<le> as1 ! j) \<and>
    (\<forall>x < ba_start b1 + ba_pos b1. mem' x = write_bytes a val mem x)"
    using Cons.prems(2) s by (intro Cons.IH [OF _ _ rest]) auto
  have first: "read_bytes a (length val) mem' = val"
    using read_cong [of a "length val" mem' "write_bytes a val mem"] read_write_same ih s by auto
  have old: "mem' x = mem x" if "x < ba_start b + ba_pos b" for x
    using ih s that by (auto simp: write_bytes_def)
  show ?case
    using ih s first old unfolding as req
    by (auto simp: nth_Cons split: nat.splits)
qed simp

text \<open>
  C35. The bump allocator never hands out the same memory twice: storing values one after the other
  from a new allocator, if it does not panic, gives each value its own region inside the memory,
  behind all earlier ones and at an offset that is a multiple of its alignment, and at the end every
  region still holds its value.
\<close>

theorem bump_regions:
  assumes "start + len \<le> usize_max" "\<forall>(al, _) \<in> set reqs. 0 < al"
    and "bump_run (BumpAllocator_new start len) mem reqs = Ret (as, b', mem')"
  shows "length as = length reqs \<and>
    (\<forall>i < length as. fst (reqs ! i) dvd (as ! i - start) \<and> start \<le> as ! i \<and>
       as ! i + length (snd (reqs ! i)) \<le> start + len \<and>
       read_bytes (as ! i) (length (snd (reqs ! i))) mem' = snd (reqs ! i)) \<and>
    (\<forall>i j. i < j \<longrightarrow> j < length as \<longrightarrow> as ! i + length (snd (reqs ! i)) \<le> as ! j)"
proof -
  have inv: "bump_inv (BumpAllocator_new start len)"
    using assms(1) by (simp add: bump_inv_def BumpAllocator_new_def)
  note spec = bump_run_spec [OF inv assms(2,3)]
  then have "ba_pos b' \<le> len" by (simp add: BumpAllocator_new_def bump_inv_def)
  then have "x \<le> start + len" if "x \<le> start + ba_pos b'" for x using that by simp
  with spec show ?thesis by (simp add: BumpAllocator_new_def)
qed

theorem bump_regions_witness:
  "\<exists>as b' mem'. bump_run (BumpAllocator_new 1000 64) (\<lambda>_. 0) [(1, [7]), (4, [1, 2, 3, 4])] = Ret (as, b', mem') \<and>
     as = [1000, 1004] \<and> read_bytes 1004 4 mem' = [1, 2, 3, 4]"
proof -
  let ?reqs = "[(1, [7]), (4, [1, 2, 3, 4])] :: (nat \<times> 8 word list) list"
  have "\<exists>b' mem'. bump_run (BumpAllocator_new 1000 64) (\<lambda>_. 0) ?reqs = Ret ([1000, 1004], b', mem')"
    by (simp add: BumpAllocator_new_def BumpAllocator_alloc_init_def BumpAllocator_alloc_def round_up_def
        usize_max_def rust_arith Let_def del: bind_out_eq_Ret)
  then obtain b' mem' where run:
    "bump_run (BumpAllocator_new 1000 64) (\<lambda>_. 0) ?reqs = Ret ([1000, 1004], b', mem')" by blast
  have "(1000 :: nat) + 64 \<le> usize_max" "\<forall>(al, _) \<in> set ?reqs. 0 < al" by (simp_all add: usize_max_def)
  note spec = bump_regions [OF this run]
  from spec [THEN conjunct2, THEN conjunct1, rule_format, of 1]
  have "read_bytes 1004 4 mem' = [1, 2, 3, 4]" by (simp add: eval_nat_numeral)
  with run show ?thesis by blast
qed

text \<open>
  The bump allocator returns whenever the value fits with a byte to spare: if some aligned
  offset from the current position on leaves room for the value strictly before the end of the
  memory, the allocation succeeds; it panics when the value would end exactly at the end.
\<close>

theorem bump_alloc_total:
  assumes "bump_inv b" "0 < align" "ba_pos b + align \<le> usize_max"
    and "align dvd k" "ba_pos b \<le> k" "k + sz < ba_len b"
  shows "(\<exists>a b'. BumpAllocator_alloc b sz align = Ret (a, b')) \<and>
    BumpAllocator_alloc (b\<lparr>ba_pos := 0\<rparr>) (ba_len b) align = Panic ExplicitPanic"
proof -
  have "round_up 0 align = Ret 0" using assms(2) by (simp add: round_up_def)
  with assms(1) have "BumpAllocator_alloc (b\<lparr>ba_pos := 0\<rparr>) (ba_len b) align = Panic ExplicitPanic"
    by (simp add: BumpAllocator_alloc_def bump_inv_def)
  with alloc_fits [OF assms] show ?thesis by blast
qed

theorem bump_alloc_total_witness:
  "(\<exists>a b'. BumpAllocator_alloc (BumpAllocator_new 1000 64) 8 4 = Ret (a, b')) \<and>
    BumpAllocator_alloc (BumpAllocator_new 1000 64) 64 4 = Panic ExplicitPanic"
  using bump_alloc_total [of "BumpAllocator_new 1000 64" 4 0 8]
  by (simp add: bump_inv_def BumpAllocator_new_def usize_max_def)

text \<open>
  Offsets are aligned, addresses need not be: the allocator rounds the offset and not the
  address, so in a memory that starts at an odd address a value of alignment 2 is stored at an odd
  address.
\<close>

theorem bump_address_misaligned:
  "\<exists>b'. BumpAllocator_alloc (BumpAllocator_new 1001 64) 2 2 = Ret (1001, b')"
  by (simp add: BumpAllocator_new_def BumpAllocator_alloc_def round_up_def usize_max_def)

end
