(* ===== verification/Select.thy ===== *)
theory Select
  imports Rust_Prelude
begin

text \<open>
  The select combinators of \<open>src/src/sync/select.rs\<close>.  A future is a state with a poll function;
  polling also changes the shared state \<open>'s\<close> of the program (the primitives, the wakers woken).
  The futures combined are parameters.
\<close>

type_synonym ('f, 'a, 's) future = "'f \<Rightarrow> waker \<Rightarrow> 's \<Rightarrow> 'a poll \<times> 'f \<times> 's"

datatype ('a, 'b) either = First 'a | Second 'b
datatype ('a, 'b, 'c) either3 = First3 'a | Second3 'b | Third3 'c
datatype ('a, 'b, 'c, 'd) either4 = First4 'a | Second4 'b | Third4 'c | Fourth4 'd

record ('f, 'g) select =
  sel_a :: 'f
  sel_b :: 'g

record ('f, 'g, 'h) select3 =
  sel3_a :: 'f
  sel3_b :: 'g
  sel3_c :: 'h

record ('f, 'g, 'h, 'i) select4 =
  sel4_a :: 'f
  sel4_b :: 'g
  sel4_c :: 'h
  sel4_d :: 'i

definition select :: "'f \<Rightarrow> 'g \<Rightarrow> ('f, 'g) select" where
  "select a b = \<lparr>sel_a = a, sel_b = b\<rparr>"

definition select3 :: "'f \<Rightarrow> 'g \<Rightarrow> 'h \<Rightarrow> ('f, 'g, 'h) select3" where
  "select3 a b c = \<lparr>sel3_a = a, sel3_b = b, sel3_c = c\<rparr>"

definition select4 :: "'f \<Rightarrow> 'g \<Rightarrow> 'h \<Rightarrow> 'i \<Rightarrow> ('f, 'g, 'h, 'i) select4" where
  "select4 a b c d = \<lparr>sel4_a = a, sel4_b = b, sel4_c = c, sel4_d = d\<rparr>"

definition Select_poll ::
  "('f, 'a, 's) future \<Rightarrow> ('g, 'b, 's) future \<Rightarrow> (('f, 'g) select, ('a, 'b) either, 's) future" where
  "Select_poll pa pb this cx s =
     (case pa (sel_a this) cx s of
        (Ready x, a, s) \<Rightarrow> (Ready (First x), this\<lparr>sel_a := a\<rparr>, s)
      | (Pending, a, s) \<Rightarrow>
          (case pb (sel_b this) cx s of
             (Ready x, b, s) \<Rightarrow> (Ready (Second x), this\<lparr>sel_a := a, sel_b := b\<rparr>, s)
           | (Pending, b, s) \<Rightarrow> (Pending, this\<lparr>sel_a := a, sel_b := b\<rparr>, s)))"

definition Select3_poll ::
  "('f, 'a, 's) future \<Rightarrow> ('g, 'b, 's) future \<Rightarrow> ('h, 'c, 's) future \<Rightarrow>
     (('f, 'g, 'h) select3, ('a, 'b, 'c) either3, 's) future" where
  "Select3_poll pa pb pc this cx s =
     (case pa (sel3_a this) cx s of
        (Ready x, a, s) \<Rightarrow> (Ready (First3 x), this\<lparr>sel3_a := a\<rparr>, s)
      | (Pending, a, s) \<Rightarrow>
          (case pb (sel3_b this) cx s of
             (Ready x, b, s) \<Rightarrow> (Ready (Second3 x), this\<lparr>sel3_a := a, sel3_b := b\<rparr>, s)
           | (Pending, b, s) \<Rightarrow>
               (case pc (sel3_c this) cx s of
                  (Ready x, c, s) \<Rightarrow> (Ready (Third3 x), this\<lparr>sel3_a := a, sel3_b := b, sel3_c := c\<rparr>, s)
                | (Pending, c, s) \<Rightarrow> (Pending, this\<lparr>sel3_a := a, sel3_b := b, sel3_c := c\<rparr>, s))))"

definition Select4_poll ::
  "('f, 'a, 's) future \<Rightarrow> ('g, 'b, 's) future \<Rightarrow> ('h, 'c, 's) future \<Rightarrow> ('i, 'd, 's) future \<Rightarrow>
     (('f, 'g, 'h, 'i) select4, ('a, 'b, 'c, 'd) either4, 's) future" where
  "Select4_poll pa pb pc pd this cx s =
     (case pa (sel4_a this) cx s of
        (Ready x, a, s) \<Rightarrow> (Ready (First4 x), this\<lparr>sel4_a := a\<rparr>, s)
      | (Pending, a, s) \<Rightarrow>
          (case pb (sel4_b this) cx s of
             (Ready x, b, s) \<Rightarrow> (Ready (Second4 x), this\<lparr>sel4_a := a, sel4_b := b\<rparr>, s)
           | (Pending, b, s) \<Rightarrow>
               (case pc (sel4_c this) cx s of
                  (Ready x, c, s) \<Rightarrow> (Ready (Third4 x), this\<lparr>sel4_a := a, sel4_b := b, sel4_c := c\<rparr>, s)
                | (Pending, c, s) \<Rightarrow>
                    (case pd (sel4_d this) cx s of
                       (Ready x, d, s) \<Rightarrow> (Ready (Fourth4 x),
                          this\<lparr>sel4_a := a, sel4_b := b, sel4_c := c, sel4_d := d\<rparr>, s)
                     | (Pending, d, s) \<Rightarrow> (Pending,
                          this\<lparr>sel4_a := a, sel4_b := b, sel4_c := c, sel4_d := d\<rparr>, s)))))"

text \<open>
  \<open>iter_mut().enumerate().find_map\<close> polls the futures in order, from index \<open>i\<close>, and stops at the
  first that is ready.
\<close>

fun find_map_poll ::
  "('f, 'a, 's) future \<Rightarrow> nat \<Rightarrow> 'f list \<Rightarrow> waker \<Rightarrow> 's \<Rightarrow> (nat \<times> 'a) option \<times> 'f list \<times> 's" where
  "find_map_poll p i [] cx s = (None, [], s)"
| "find_map_poll p i (f # fs) cx s =
     (case p f cx s of
        (Ready e, f', s') \<Rightarrow> (Some (i, e), f' # fs, s')
      | (Pending, f', s') \<Rightarrow>
          (let (item, fs', s'') = find_map_poll p (Suc i) fs cx s' in (item, f' # fs', s'')))"

definition SelectArray_poll ::
  "('f, 'a, 's) future \<Rightarrow> ('f list, 'a \<times> nat, 's) future" where
  "SelectArray_poll p inner cx s =
     (let (item, inner', s') = find_map_poll p 0 inner cx s
      in case item of Some (idx, res) \<Rightarrow> (Ready (res, idx), inner', s') | None \<Rightarrow> (Pending, inner', s'))"

definition SelectSlice_poll ::
  "('f, 'a, 's) future \<Rightarrow> ('f list, 'a \<times> nat, 's) future" where
  "SelectSlice_poll p inner cx s =
     (let (item, inner', s') = find_map_poll p 0 inner cx s
      in case item of Some (idx, res) \<Rightarrow> (Ready (res, idx), inner', s') | None \<Rightarrow> (Pending, inner', s'))"

section \<open>Specification\<close>

text \<open>Polling a list of futures in order, whatever they answer.\<close>

fun poll_seq :: "('f, 'a, 's) future \<Rightarrow> 'f list \<Rightarrow> waker \<Rightarrow> 's \<Rightarrow> 'a poll list \<times> 'f list \<times> 's" where
  "poll_seq p [] cx s = ([], [], s)"
| "poll_seq p (f # fs) cx s =
     (let (r, f', s') = p f cx s; (rs, fs', s'') = poll_seq p fs cx s' in (r # rs, f' # fs', s''))"

lemma find_map_poll_spec:
  "(case find_map_poll p i fs cx s of
      (Some (k, e), fs', s') \<Rightarrow> \<exists>n rs gs. k = i + n \<and> n < length fs \<and>
         poll_seq p (take (Suc n) fs) cx s = (rs @ [Ready e], gs, s') \<and> length rs = n \<and>
         (\<forall>r \<in> set rs. r = Pending) \<and> fs' = gs @ drop (Suc n) fs
    | (None, fs', s') \<Rightarrow> poll_seq p fs cx s = (replicate (length fs) Pending, fs', s'))"
proof (induction fs arbitrary: i s)
  case (Cons f fs)
  obtain r f' s1 where pf: "p f cx s = (r, f', s1)" by (metis prod_cases3)
  show ?case
  proof (cases r)
    case (Ready e)
    with pf show ?thesis by (auto intro!: exI [of _ 0])
  next
    case Pending
    obtain item fs' s2 where rec: "find_map_poll p (Suc i) fs cx s1 = (item, fs', s2)"
      by (metis prod_cases3)
    show ?thesis
    proof (cases item)
      case None
      with Cons.IH [where i = "Suc i" and s = s1] rec pf Pending show ?thesis by simp
    next
      case (Some ke)
      then obtain k e where ke: "item = Some (k, e)" by (cases ke) auto
      with Cons.IH [where i = "Suc i" and s = s1] rec obtain n rs gs where n: "k = Suc i + n" "n < length fs"
        "poll_seq p (take (Suc n) fs) cx s1 = (rs @ [Ready e], gs, s2)" "length rs = n"
        "\<forall>r \<in> set rs. r = Pending" "fs' = gs @ drop (Suc n) fs" by auto
      then have "poll_seq p (take (Suc (Suc n)) (f # fs)) cx s = ((Pending # rs) @ [Ready e], f' # gs, s2)"
        using pf Pending by simp
      with n ke rec pf Pending show ?thesis
        by (auto intro!: exI [of _ "Suc n"] exI [of _ "Pending # rs"] exI [of _ "f' # gs"])
    qed
  qed
qed simp

text \<open>
  A select over an array polls its futures in order and completes with the first that is ready:
  the ones before it were polled and are pending, the ones after it were not polled and are
  unchanged; when it is pending, every future was polled (and so had the chance to register the
  task).
\<close>

theorem select_array_first_ready:
  "case SelectArray_poll p fs cx s of
     (Ready (e, n), fs', s') \<Rightarrow> n < length fs \<and>
       (\<exists>rs gs. poll_seq p (take (Suc n) fs) cx s = (rs @ [Ready e], gs, s') \<and> length rs = n \<and>
         (\<forall>r \<in> set rs. r = Pending) \<and> fs' = gs @ drop (Suc n) fs)
   | (Pending, fs', s') \<Rightarrow> poll_seq p fs cx s = (replicate (length fs) Pending, fs', s')"
  using find_map_poll_spec [where p = p and i = 0 and fs = fs and cx = cx and s = s]
  by (auto simp: SelectArray_poll_def split: prod.splits option.splits)

theorem select_array_first_ready_witness:
  "SelectArray_poll (\<lambda>f cx s. (if f = 0 then Ready s else Pending, f - 1, Suc s)) [2, 0, 5 :: nat]
     (RawWaker 0 VTABLE) (0 :: nat) =
     (Ready (1, 1), [1, 0, 5], 2)"
  using select_array_first_ready [where p = "\<lambda>f cx s. (if f = 0 then Ready s else Pending, f - 1, Suc s)"
      and fs = "[2, 0, 5 :: nat]" and cx = "RawWaker 0 VTABLE" and s = "0 :: nat"]
  by (simp add: SelectArray_poll_def)

text \<open>
  \<open>select\<close>, \<open>select3\<close> and \<open>select4\<close> agree with a select over an array: on futures of one type
  they give the same result, leave the futures in the same states and change the shared state in
  the same way.
\<close>

theorem select_agrees_with_array:
  "(let (r, t, s') = Select_poll p p (select a b) cx s in
      ((case r of Ready (First x) \<Rightarrow> Ready (x, 0 :: nat) | Ready (Second x) \<Rightarrow> Ready (x, 1) | Pending \<Rightarrow> Pending),
       [sel_a t, sel_b t], s')) = SelectArray_poll p [a, b] cx s \<and>
   (let (r, t, s') = Select3_poll p p p (select3 a b c) cx s in
      ((case r of Ready (First3 x) \<Rightarrow> Ready (x, 0 :: nat) | Ready (Second3 x) \<Rightarrow> Ready (x, 1)
        | Ready (Third3 x) \<Rightarrow> Ready (x, 2) | Pending \<Rightarrow> Pending),
       [sel3_a t, sel3_b t, sel3_c t], s')) = SelectArray_poll p [a, b, c] cx s \<and>
   (let (r, t, s') = Select4_poll p p p p (select4 a b c d) cx s in
      ((case r of Ready (First4 x) \<Rightarrow> Ready (x, 0 :: nat) | Ready (Second4 x) \<Rightarrow> Ready (x, 1)
        | Ready (Third4 x) \<Rightarrow> Ready (x, 2) | Ready (Fourth4 x) \<Rightarrow> Ready (x, 3) | Pending \<Rightarrow> Pending),
       [sel4_a t, sel4_b t, sel4_c t, sel4_d t], s')) = SelectArray_poll p [a, b, c, d] cx s"
proof (intro conjI)
  show "(let (r, t, s') = Select_poll p p (select a b) cx s in
      ((case r of Ready (First x) \<Rightarrow> Ready (x, 0 :: nat) | Ready (Second x) \<Rightarrow> Ready (x, 1) | Pending \<Rightarrow> Pending),
       [sel_a t, sel_b t], s')) = SelectArray_poll p [a, b] cx s"
    by (simp add: Select_poll_def select_def SelectArray_poll_def split: prod.split poll.split)
  show "(let (r, t, s') = Select3_poll p p p (select3 a b c) cx s in
      ((case r of Ready (First3 x) \<Rightarrow> Ready (x, 0 :: nat) | Ready (Second3 x) \<Rightarrow> Ready (x, 1)
        | Ready (Third3 x) \<Rightarrow> Ready (x, 2) | Pending \<Rightarrow> Pending),
       [sel3_a t, sel3_b t, sel3_c t], s')) = SelectArray_poll p [a, b, c] cx s"
    by (simp add: Select3_poll_def select3_def SelectArray_poll_def split: prod.split poll.split)
  show "(let (r, t, s') = Select4_poll p p p p (select4 a b c d) cx s in
      ((case r of Ready (First4 x) \<Rightarrow> Ready (x, 0 :: nat) | Ready (Second4 x) \<Rightarrow> Ready (x, 1)
        | Ready (Third4 x) \<Rightarrow> Ready (x, 2) | Ready (Fourth4 x) \<Rightarrow> Ready (x, 3) | Pending \<Rightarrow> Pending),
       [sel4_a t, sel4_b t, sel4_c t, sel4_d t], s')) = SelectArray_poll p [a, b, c, d] cx s"
    by (simp add: Select4_poll_def select4_def SelectArray_poll_def split: prod.split poll.split)
qed

end
