(* ===== verification/Executor.thy ===== *)
theory Executor
  imports Alarm Bump Select
begin

text \<open>
  Tasks, wakers and executors: \<open>src/src/executor\<close>, with the parts of \<open>src/src/cpu/cpu0.rs\<close> they call
  (the local event, the tick counter, the alarms) and the timer future of \<open>src/src/time/timer_fut.rs\<close>.

  The kernel state is one record.  Executors and tasks are static, so a reference to one is its
  number: 0 is the thread executor, a priority the interrupt executor of that priority, and a task is
  the address of its header.  What a task does in one poll is a parameter: a future over the
  \<open>task_view\<close>, which can read the clock, use the shared state, and produce effects: waking a waker and
  setting the deadline of a header.  A poll cannot observe its own effects, so the executor
  applies them right after the poll, in order.
\<close>

section \<open>State\<close>

datatype pender = ThreadExecutorPender | InterruptExecutorPender nat

record 'f task_header =
  th_name :: string
  th_fut_ref :: 'f
  th_executor :: nat
  th_expires_at :: "nat option"

record ('q, 't) base_executor =
  be_run_queue :: 'q
  be_timer_queue :: "'t timer_queue"
  be_next_alarm_at :: "nat option"
  be_alarm_handle :: "alarm_handle option"
  be_pender :: pender

record ('q, 't, 'v, 'a, 'f, 's) kernel =
  k_tasks :: "nat \<Rightarrow> 'f task_header option"
  k_execs :: "nat \<Rightarrow> ('q, 't) base_executor option"
  k_alarm_queue :: "('v, 'a) alarm_queue"
  k_ticks :: "32 word"
  k_local_event :: bool
  k_sw_requests :: "nat set"
  k_alloc :: bump
  k_thread_initialised :: bool
  k_shared :: 's

text \<open>
  The containers of the kernel.  The only callback ever registered is \<open>BaseExecutor::alarm_callback\<close>
  with an executor as its context, so a callback is the number of the executor.
\<close>

record ('q, 'r, 't, 'v, 'a) kernel_libs =
  lib_run :: "('q, nat) deque_ops"
  lib_ready :: "('r, nat) vec_ops"
  lib_timers :: "'t timer_heap_ops"
  lib_callbacks :: "('v, nat) callback_vec_ops"
  lib_alarms :: "'a alarm_heap_ops"

datatype task_effect =
    EffWake waker              \<comment> \<open>\<open>Waker::wake\<close> or \<open>wake_by_ref\<close>\<close>
  | EffSetDeadline waker nat   \<comment> \<open>\<open>header.expires_at = Some(..)\<close> in \<open>Timer::poll\<close>\<close>

record 's task_view =
  tv_now :: nat
  tv_effects :: "task_effect list"
  tv_shared :: 's

type_synonym ('f, 's) task_poll = "('f, unit, 's task_view) future"

definition MAX_TASKS :: nat where
  "MAX_TASKS = 32"

section \<open>Clock, events and penders\<close>

definition Kernel_now :: "('q, 't, 'v, 'a, 'f, 's) kernel \<Rightarrow> nat" where
  "Kernel_now k = unat (k_ticks k)"

definition Kernel_current_tick :: "('q, 't, 'v, 'a, 'f, 's) kernel \<Rightarrow> 32 word" where
  "Kernel_current_tick k = k_ticks k"

definition Kernel_signal_event_local ::
  "('q, 't, 'v, 'a, 'f, 's) kernel \<Rightarrow> ('q, 't, 'v, 'a, 'f, 's) kernel" where
  "Kernel_signal_event_local k = k\<lparr>k_local_event := True\<rparr>"

definition Kernel_event_fetch_and_clear_local ::
  "('q, 't, 'v, 'a, 'f, 's) kernel \<Rightarrow> bool \<times> ('q, 't, 'v, 'a, 'f, 's) kernel" where
  "Kernel_event_fetch_and_clear_local k = (let old = k_local_event k in (old, k\<lparr>k_local_event := False\<rparr>))"

definition Pender_pend ::
  "pender \<Rightarrow> ('q, 't, 'v, 'a, 'f, 's) kernel \<Rightarrow> ('q, 't, 'v, 'a, 'f, 's) kernel" where
  "Pender_pend p k =
     (case p of
        ThreadExecutorPender \<Rightarrow> Kernel_signal_event_local k
      | InterruptExecutorPender sw_interrupt \<Rightarrow>
          k\<lparr>k_sw_requests := insert sw_interrupt (k_sw_requests k)\<rparr>)"

section \<open>The timer future and the yielder\<close>

record timer =
  timer_expires_at :: nat

definition Timer_after_ticks :: "('q, 't, 'v, 'a, 'f, 's) kernel \<Rightarrow> nat \<Rightarrow> timer outcome" where
  "Timer_after_ticks k ticks =
     bind_out (add_u64 (Kernel_now k) ticks) (\<lambda>e. Ret \<lparr>timer_expires_at = e\<rparr>)"

definition Timer_poll :: "(timer, unit, 's task_view) future" where
  "Timer_poll this cx v =
     (if timer_expires_at this \<le> tv_now v then (Ready (), this, v)
      else (Pending, this, v\<lparr>tv_effects := tv_effects v @ [EffSetDeadline cx (timer_expires_at this)]\<rparr>))"

record yielder =
  y_yielded :: bool

definition Yielder_new :: yielder where
  "Yielder_new = \<lparr>y_yielded = False\<rparr>"

definition Yielder_poll :: "(yielder, unit, 's task_view) future" where
  "Yielder_poll this cx v =
     (if y_yielded this then (Ready (), this, v)
      else (Pending, this\<lparr>y_yielded := True\<rparr>, v\<lparr>tv_effects := tv_effects v @ [EffWake cx]\<rparr>))"

section \<open>The base executor\<close>

definition BaseExecutor_new ::
  "('q, 'r, 't, 'v, 'a) kernel_libs \<Rightarrow> pender \<Rightarrow> alarm_handle option \<Rightarrow> ('q, 't) base_executor" where
  "BaseExecutor_new L pender alarm_handle = \<lparr>be_run_queue = Deque_new (lib_run L),
     be_timer_queue = TimerQueue_new (lib_timers L), be_next_alarm_at = None,
     be_alarm_handle = alarm_handle, be_pender = pender\<rparr>"

text \<open>Access to an executor or a header through a reference.\<close>

definition with_exec ::
  "nat \<Rightarrow> (('q, 't) base_executor \<Rightarrow> 'u outcome) \<Rightarrow> ('q, 't, 'v, 'a, 'f, 's) kernel \<Rightarrow> 'u outcome" where
  "with_exec e f k = (case k_execs k e of None \<Rightarrow> Panic UndefinedBehaviour | Some x \<Rightarrow> f x)"

definition set_exec ::
  "nat \<Rightarrow> ('q, 't) base_executor \<Rightarrow> ('q, 't, 'v, 'a, 'f, 's) kernel \<Rightarrow> ('q, 't, 'v, 'a, 'f, 's) kernel" where
  "set_exec e x k = k\<lparr>k_execs := (k_execs k)(e \<mapsto> x)\<rparr>"

definition with_header ::
  "nat \<Rightarrow> ('f task_header \<Rightarrow> 'u outcome) \<Rightarrow> ('q, 't, 'v, 'a, 'f, 's) kernel \<Rightarrow> 'u outcome" where
  "with_header t f k = (case k_tasks k t of None \<Rightarrow> Panic UndefinedBehaviour | Some h \<Rightarrow> f h)"

definition set_header ::
  "nat \<Rightarrow> 'f task_header \<Rightarrow> ('q, 't, 'v, 'a, 'f, 's) kernel \<Rightarrow> ('q, 't, 'v, 'a, 'f, 's) kernel" where
  "set_header t h k = k\<lparr>k_tasks := (k_tasks k)(t \<mapsto> h)\<rparr>"

definition BaseExecutor_register_alarm ::
  "nat \<Rightarrow> alarm_handle \<Rightarrow> ('q, 't, 'v, 'a, 'f, 's) kernel \<Rightarrow> ('q, 't, 'v, 'a, 'f, 's) kernel outcome" where
  "BaseExecutor_register_alarm e handle k =
     with_exec e (\<lambda>x. Ret (set_exec e (x\<lparr>be_alarm_handle := Some handle\<rparr>) k)) k"

definition BaseExecutor_enqueue_no_pend ::
  "('q, 'r, 't, 'v, 'a) kernel_libs \<Rightarrow> nat \<Rightarrow> nat \<Rightarrow> ('q, 't, 'v, 'a, 'f, 's) kernel \<Rightarrow>
     (unit option \<times> ('q, 't, 'v, 'a, 'f, 's) kernel) outcome" where
  "BaseExecutor_enqueue_no_pend L e t k =
     with_exec e (\<lambda>x.
       let (r, q) = Deque_push_back (lib_run L) (be_run_queue x) t
       in Ret (result_ok r, set_exec e (x\<lparr>be_run_queue := q\<rparr>) k)) k"

definition BaseExecutor_enqueue_and_pend ::
  "('q, 'r, 't, 'v, 'a) kernel_libs \<Rightarrow> nat \<Rightarrow> nat \<Rightarrow> ('q, 't, 'v, 'a, 'f, 's) kernel \<Rightarrow>
     (unit option \<times> ('q, 't, 'v, 'a, 'f, 's) kernel) outcome" where
  "BaseExecutor_enqueue_and_pend L e t k =
     with_exec e (\<lambda>x.
       let (r, q) = Deque_push_back (lib_run L) (be_run_queue x) t;
           k = set_exec e (x\<lparr>be_run_queue := q\<rparr>) k
       in Ret (result_ok r, Pender_pend (be_pender x) k)) k"

text \<open>
  \<open>wake_by_ref\<close> of the vtable \<open>VTABLE\<close>.  A waker of another vtable runs code that is not part of the
  kernel.
\<close>

definition Waker_wake_by_ref ::
  "('q, 'r, 't, 'v, 'a) kernel_libs \<Rightarrow> waker \<Rightarrow> ('q, 't, 'v, 'a, 'f, 's) kernel \<Rightarrow>
     ('q, 't, 'v, 'a, 'f, 's) kernel outcome" where
  "Waker_wake_by_ref L w k =
     (if waker_vtable w = VTABLE then
        with_header (waker_data w) (\<lambda>task.
          bind_out (BaseExecutor_enqueue_and_pend L (th_executor task) (waker_data w) k) (\<lambda>(_, k). Ret k)) k
      else Ret k)"

fun apply_effect ::
  "('q, 'r, 't, 'v, 'a) kernel_libs \<Rightarrow> ('q, 't, 'v, 'a, 'f, 's) kernel \<Rightarrow> task_effect \<Rightarrow>
     ('q, 't, 'v, 'a, 'f, 's) kernel outcome" where
  "apply_effect L k (EffWake w) = Waker_wake_by_ref L w k"
| "apply_effect L k (EffSetDeadline cx d) =
     bind_out (task_from_waker cx) (\<lambda>t.
       with_header t (\<lambda>h. Ret (set_header t (h\<lparr>th_expires_at := Some d\<rparr>) k)) k)"

text \<open>
  A spawned future and its header are stored by the bump allocator; their sizes and alignments are
  those of their types.
\<close>

record layout =
  fut_size :: nat
  fut_align :: nat
  hdr_size :: nat
  hdr_align :: nat

definition TaskHeader_new ::
  "layout \<Rightarrow> 'f \<Rightarrow> nat \<Rightarrow> string \<Rightarrow> ('q, 't, 'v, 'a, 'f, 's) kernel \<Rightarrow>
     (nat \<times> ('q, 't, 'v, 'a, 'f, 's) kernel) outcome" where
  "TaskHeader_new lay fut e name k =
     bind_out (BumpAllocator_alloc (k_alloc k) (fut_size lay) (fut_align lay)) (\<lambda>(_, b).
     bind_out (BumpAllocator_alloc b (hdr_size lay) (hdr_align lay)) (\<lambda>(t, b).
       Ret (t, set_header t \<lparr>th_name = name, th_fut_ref = fut, th_executor = e, th_expires_at = None\<rparr>
         (k\<lparr>k_alloc := b\<rparr>))))"

definition BaseExecutor_spawn ::
  "('q, 'r, 't, 'v, 'a) kernel_libs \<Rightarrow> layout \<Rightarrow> nat \<Rightarrow> 'f \<Rightarrow> string \<Rightarrow> ('q, 't, 'v, 'a, 'f, 's) kernel \<Rightarrow>
     ('q, 't, 'v, 'a, 'f, 's) kernel outcome" where
  "BaseExecutor_spawn L lay e fut name k =
     bind_out (TaskHeader_new lay fut e name k) (\<lambda>(t, k).
       with_exec e (\<lambda>x.
         case Deque_push_front (lib_run L) (be_run_queue x) t of
           (Err _, _) \<Rightarrow> Panic ExplicitPanic
         | (Ok _, q) \<Rightarrow> Ret (set_exec e (x\<lparr>be_run_queue := q\<rparr>) k)) k)"

definition push_ready ::
  "('q, 'r, 't, 'v, 'a) kernel_libs \<Rightarrow> 'r \<Rightarrow> timer_queue_item \<Rightarrow> 'r outcome" where
  "push_ready L ready item =
     bind_out (TimerQueueItem_get_task_ref item) (\<lambda>t.
       case Vec_push (lib_ready L) ready t of (Ok _, r) \<Rightarrow> Ret r | (Err _, _) \<Rightarrow> Panic UnwrapFailed)"

definition push_back_unwrap :: "('q, 'r, 't, 'v, 'a) kernel_libs \<Rightarrow> 'q \<Rightarrow> nat \<Rightarrow> 'q outcome" where
  "push_back_unwrap L q t =
     (case Deque_push_back (lib_run L) q t of (Ok _, q') \<Rightarrow> Ret q' | (Err _, _) \<Rightarrow> Panic UnwrapFailed)"

definition BaseExecutor_check_timer_queue ::
  "nat \<Rightarrow> ('q, 'r, 't, 'v, 'a) kernel_libs \<Rightarrow> nat \<Rightarrow> ('q, 't, 'v, 'a, 'f, 's) kernel \<Rightarrow>
     ('q, 't, 'v, 'a, 'f, 's) kernel outcome option" where
  "BaseExecutor_check_timer_queue fuel L e k =
     (let now = Kernel_now k in
      case k_execs k e of
        None \<Rightarrow> Some (Panic UndefinedBehaviour)
      | Some x \<Rightarrow>
          bind_fuel (TimerQueue_dequeue_expired fuel (lib_timers L) (be_timer_queue x) now
              (push_ready L) (Vec_new (lib_ready L)) 0) (\<lambda>(_, tq, ready).
            Some (bind_out (each_out (push_back_unwrap L) (Vec_as_slice (lib_ready L) ready) (be_run_queue x))
              (\<lambda>q. Ret (set_exec e (x\<lparr>be_timer_queue := tq, be_run_queue := q\<rparr>) k)))))"

definition BaseExecutor_update_timer_queue ::
  "('q, 'r, 't, 'v, 'a) kernel_libs \<Rightarrow> nat \<Rightarrow> nat \<Rightarrow> ('q, 't, 'v, 'a, 'f, 's) kernel \<Rightarrow>
     ('q, 't, 'v, 'a, 'f, 's) kernel outcome" where
  "BaseExecutor_update_timer_queue L e t k =
     with_header t (\<lambda>task.
       case th_expires_at task of
         None \<Rightarrow> Ret k
       | Some expires_at \<Rightarrow>
           with_exec e (\<lambda>x.
             let (_, tq) = TimerQueue_enqueue (lib_timers L) (be_timer_queue x)
                   \<lparr>ti_expires_at = expires_at, ti_waker = RawWaker t VTABLE\<rparr>
             in Ret (set_exec e (x\<lparr>be_timer_queue := tq\<rparr>) k)) k) k"

definition Kernel_set_alarm ::
  "('q, 'r, 't, 'v, 'a) kernel_libs \<Rightarrow> alarm_handle \<Rightarrow> nat \<Rightarrow> ('q, 't, 'v, 'a, 'f, 's) kernel \<Rightarrow>
     unit option \<times> ('q, 't, 'v, 'a, 'f, 's) kernel" where
  "Kernel_set_alarm L handle expires_at k =
     (let (r, q) = AlarmQueue_set_alarm (lib_alarms L) (k_alarm_queue k) handle expires_at
      in (r, k\<lparr>k_alarm_queue := q\<rparr>))"

definition BaseExecutor_set_alarm ::
  "('q, 'r, 't, 'v, 'a) kernel_libs \<Rightarrow> nat \<Rightarrow> nat \<Rightarrow> ('q, 't, 'v, 'a, 'f, 's) kernel \<Rightarrow>
     (unit option \<times> ('q, 't, 'v, 'a, 'f, 's) kernel) outcome" where
  "BaseExecutor_set_alarm L e expires_at k =
     with_exec e (\<lambda>x.
       bind_out (unwrap_option (be_alarm_handle x)) (\<lambda>handle.
         Ret (Kernel_set_alarm L handle expires_at k))) k"

definition BaseExecutor_renew_alarm ::
  "('q, 'r, 't, 'v, 'a) kernel_libs \<Rightarrow> nat \<Rightarrow> ('q, 't, 'v, 'a, 'f, 's) kernel \<Rightarrow>
     ('q, 't, 'v, 'a, 'f, 's) kernel outcome" where
  "BaseExecutor_renew_alarm L e k =
     with_exec e (\<lambda>x.
       case TimerQueue_next_expiration (lib_timers L) (be_timer_queue x) of
         Some next_tick \<Rightarrow> bind_out (BaseExecutor_set_alarm L e next_tick k) (\<lambda>(_, k). Ret k)
       | None \<Rightarrow> Ret k) k"

text \<open>
  One iteration of \<open>advance_runnable_tasks\<close> after the pop: clear the deadline, poll the future with a
  waker of the task, apply the effects, and put the task into the timer queue if it has a
  deadline now.  A spawned future that completes panics (\<open>TaskHeader::allocate_static_future\<close>).
\<close>

definition BaseExecutor_run_task ::
  "('q, 'r, 't, 'v, 'a) kernel_libs \<Rightarrow> ('f, 's) task_poll \<Rightarrow> nat \<Rightarrow> nat \<Rightarrow> ('q, 't, 'v, 'a, 'f, 's) kernel \<Rightarrow>
     ('q, 't, 'v, 'a, 'f, 's) kernel outcome" where
  "BaseExecutor_run_task L poll e t k =
     with_header t (\<lambda>h.
       let h = h\<lparr>th_expires_at := None\<rparr>;
           waker = RawWaker t VTABLE;
           (r, fut, v) = poll (th_fut_ref h) waker
             \<lparr>tv_now = Kernel_now k, tv_effects = [], tv_shared = k_shared k\<rparr>
       in case r of
            Ready _ \<Rightarrow> Panic ExplicitPanic
          | Pending \<Rightarrow>
              bind_out (each_out (apply_effect L) (tv_effects v)
                  (set_header t (h\<lparr>th_fut_ref := fut\<rparr>) (k\<lparr>k_shared := tv_shared v\<rparr>)))
                (BaseExecutor_update_timer_queue L e t)) k"

fun BaseExecutor_advance_runnable_tasks ::
  "nat \<Rightarrow> ('q, 'r, 't, 'v, 'a) kernel_libs \<Rightarrow> ('f, 's) task_poll \<Rightarrow> nat \<Rightarrow> ('q, 't, 'v, 'a, 'f, 's) kernel \<Rightarrow>
     ('q, 't, 'v, 'a, 'f, 's) kernel outcome option" where
  "BaseExecutor_advance_runnable_tasks 0 L poll e k = None"
| "BaseExecutor_advance_runnable_tasks (Suc fuel) L poll e k =
     (case k_execs k e of
        None \<Rightarrow> Some (Panic UndefinedBehaviour)
      | Some x \<Rightarrow>
          (case Deque_pop_front (lib_run L) (be_run_queue x) of
             (None, q) \<Rightarrow> Some (Ret (set_exec e (x\<lparr>be_run_queue := q\<rparr>) k))
           | (Some t, q) \<Rightarrow>
               bind_fuel (Some (BaseExecutor_run_task L poll e t (set_exec e (x\<lparr>be_run_queue := q\<rparr>) k)))
                 (BaseExecutor_advance_runnable_tasks fuel L poll e)))"

definition BaseExecutor_exec_once ::
  "nat \<Rightarrow> ('q, 'r, 't, 'v, 'a) kernel_libs \<Rightarrow> ('f, 's) task_poll \<Rightarrow> nat \<Rightarrow> ('q, 't, 'v, 'a, 'f, 's) kernel \<Rightarrow>
     ('q, 't, 'v, 'a, 'f, 's) kernel outcome option" where
  "BaseExecutor_exec_once fuel L poll e k =
     bind_fuel (BaseExecutor_check_timer_queue fuel L e k) (\<lambda>k.
     bind_fuel (BaseExecutor_advance_runnable_tasks fuel L poll e k) (\<lambda>k.
       Some (BaseExecutor_renew_alarm L e k)))"

section \<open>Alarms and executors\<close>

definition Kernel_set_alarm_callback ::
  "('q, 'r, 't, 'v, 'a) kernel_libs \<Rightarrow> alarm_handle \<Rightarrow> nat \<Rightarrow> ('q, 't, 'v, 'a, 'f, 's) kernel \<Rightarrow>
     ('q, 't, 'v, 'a, 'f, 's) kernel outcome" where
  "Kernel_set_alarm_callback L handle callback k =
     bind_out (AlarmQueue_register_callback (lib_callbacks L) (k_alarm_queue k) handle callback) (\<lambda>q.
       Ret (k\<lparr>k_alarm_queue := q\<rparr>))"

definition BaseExecutor_register_alarm_callback ::
  "('q, 'r, 't, 'v, 'a) kernel_libs \<Rightarrow> nat \<Rightarrow> ('q, 't, 'v, 'a, 'f, 's) kernel \<Rightarrow>
     ('q, 't, 'v, 'a, 'f, 's) kernel outcome" where
  "BaseExecutor_register_alarm_callback L e k =
     with_exec e (\<lambda>x.
       case be_alarm_handle x of None \<Rightarrow> Ret k | Some handle \<Rightarrow> Kernel_set_alarm_callback L handle e k) k"

definition BaseExecutor_alarm_callback ::
  "nat \<Rightarrow> ('q, 't, 'v, 'a, 'f, 's) kernel \<Rightarrow> ('q, 't, 'v, 'a, 'f, 's) kernel outcome" where
  "BaseExecutor_alarm_callback e k = with_exec e (\<lambda>x. Ret (Pender_pend (be_pender x) k)) k"

definition Kernel_on_timer_interrupt ::
  "nat \<Rightarrow> ('q, 'r, 't, 'v, 'a) kernel_libs \<Rightarrow> ('q, 't, 'v, 'a, 'f, 's) kernel \<Rightarrow>
     ('q, 't, 'v, 'a, 'f, 's) kernel outcome option" where
  "Kernel_on_timer_interrupt fuel L k =
     (let now = unat (k_ticks k);
          k = k\<lparr>k_ticks := k_ticks k + 1\<rparr>
      in bind_fuel (AlarmQueue_call_all_expired fuel (lib_callbacks L) (lib_alarms L)
           BaseExecutor_alarm_callback (k_alarm_queue k) now k 0) (\<lambda>(n, q, k).
           Some (Ret (k\<lparr>k_alarm_queue := q\<rparr>))))"

definition ThreadExecutor_start_iteration ::
  "nat \<Rightarrow> ('q, 'r, 't, 'v, 'a) kernel_libs \<Rightarrow> ('f, 's) task_poll \<Rightarrow> ('q, 't, 'v, 'a, 'f, 's) kernel \<Rightarrow>
     ('q, 't, 'v, 'a, 'f, 's) kernel outcome option" where
  "ThreadExecutor_start_iteration fuel L poll k =
     (let (event, k) = Kernel_event_fetch_and_clear_local k
      in if \<not> event then Some (Ret k) else BaseExecutor_exec_once fuel L poll 0 k)"

text \<open>One iteration of the loop of \<open>BaseExecutor::start\<close>.\<close>

definition BaseExecutor_start_iteration ::
  "nat \<Rightarrow> ('q, 'r, 't, 'v, 'a) kernel_libs \<Rightarrow> ('f, 's) task_poll \<Rightarrow> nat \<Rightarrow> ('q, 't, 'v, 'a, 'f, 's) kernel \<Rightarrow>
     ('q, 't, 'v, 'a, 'f, 's) kernel outcome option" where
  "BaseExecutor_start_iteration fuel L poll e k =
     (let (event, k) = Kernel_event_fetch_and_clear_local k
      in if \<not> event then Some (Ret k)
         else bind_fuel (BaseExecutor_check_timer_queue fuel L e k) (\<lambda>k.
              bind_fuel (BaseExecutor_advance_runnable_tasks fuel L poll e k) (\<lambda>k.
                Some (BaseExecutor_renew_alarm L e k))))"

lemma thread_executor_iterates: "ThreadExecutor_start_iteration fuel L poll k = BaseExecutor_start_iteration fuel L poll 0 k"
  by (simp add: ThreadExecutor_start_iteration_def BaseExecutor_start_iteration_def BaseExecutor_exec_once_def
      split: prod.split)

definition InterruptExecutor_start ::
  "('q, 'r, 't, 'v, 'a) kernel_libs \<Rightarrow> nat \<Rightarrow> ('q, 't, 'v, 'a, 'f, 's) kernel \<Rightarrow>
     ('q, 't, 'v, 'a, 'f, 's) kernel outcome" where
  "InterruptExecutor_start L e k =
     bind_out (BaseExecutor_register_alarm_callback L e k) (\<lambda>k.
       with_exec e (\<lambda>x. Ret (Pender_pend (be_pender x) k)) k)"

definition InterruptExecutor_on_interrupt ::
  "nat \<Rightarrow> ('q, 'r, 't, 'v, 'a) kernel_libs \<Rightarrow> ('f, 's) task_poll \<Rightarrow> nat \<Rightarrow> ('q, 't, 'v, 'a, 'f, 's) kernel \<Rightarrow>
     ('q, 't, 'v, 'a, 'f, 's) kernel outcome option" where
  "InterruptExecutor_on_interrupt fuel L poll e k = BaseExecutor_exec_once fuel L poll e k"

end
