(* ===== verification/Executor_Laws.thy ===== *)
theory Executor_Laws
  imports Executor
begin

text \<open>
  What the executor operations do to a well-formed kernel.  \<open>kernel_abs\<close> bundles the invariants and
  abstractions of the containers, \<open>kernel_laws\<close> their laws; \<open>kernel_inv\<close> says that every reference in
  a queue points to a task, every timer has a waker of a task, and the alarm handles of the executors
  are allocated, distinct, and have no callback but their executor's.  \<open>kernel_grows\<close> is what
  the effects of a poll may do: add tasks to the ends of run queues, set deadlines in headers, pend.
\<close>

record ('q, 'r, 't, 'v, 'a) kernel_abs =
  rq_inv :: "'q \<Rightarrow> bool"
  rq_items :: "'q \<Rightarrow> nat list"
  rv_inv :: "'r \<Rightarrow> bool"
  tq_inv :: "'t \<Rightarrow> bool"
  tq_elems :: "'t \<Rightarrow> timer_queue_item multiset"
  cb_inv :: "'v \<Rightarrow> bool"
  al_inv :: "'a \<Rightarrow> bool"
  al_elems :: "'a \<Rightarrow> alarm_item multiset"

definition N_ALARM_HANDLES :: nat where
  "N_ALARM_HANDLES = 8"

definition N_ALARM_ITEMS :: nat where
  "N_ALARM_ITEMS = 64"

definition run_items :: "('q, 'r, 't, 'v, 'a) kernel_abs \<Rightarrow> ('q, 't) base_executor \<Rightarrow> nat list" where
  "run_items A x = rq_items A (be_run_queue x)"

definition timer_items ::
  "('q, 'r, 't, 'v, 'a) kernel_abs \<Rightarrow> ('q, 't) base_executor \<Rightarrow> timer_queue_item multiset" where
  "timer_items A x = tq_elems A (tq_queue (be_timer_queue x))"

definition alarm_items ::
  "('q, 'r, 't, 'v, 'a) kernel_abs \<Rightarrow> ('q, 't, 'v, 'a, 'f, 's) kernel \<Rightarrow> alarm_item multiset" where
  "alarm_items A k = al_elems A (aq_queue (k_alarm_queue k))"

definition callbacks_of ::
  "('q, 'r, 't, 'v, 'a) kernel_libs \<Rightarrow> ('q, 't, 'v, 'a, 'f, 's) kernel \<Rightarrow> nat option list" where
  "callbacks_of L k = Vec_as_slice (lib_callbacks L) (aq_callbacks (k_alarm_queue k))"

definition timer_item_ok :: "(nat \<Rightarrow> 'f task_header option) \<Rightarrow> timer_queue_item \<Rightarrow> bool" where
  "timer_item_ok tasks i \<longleftrightarrow> waker_vtable (ti_waker i) = VTABLE \<and> waker_data (ti_waker i) \<in> dom tasks"

definition exec_ok ::
  "('q, 'r, 't, 'v, 'a) kernel_libs \<Rightarrow> ('q, 'r, 't, 'v, 'a) kernel_abs \<Rightarrow>
     ('q, 't, 'v, 'a, 'f, 's) kernel \<Rightarrow> nat \<Rightarrow> ('q, 't) base_executor \<Rightarrow> bool" where
  "exec_ok L A k e x \<longleftrightarrow> rq_inv A (be_run_queue x) \<and> tq_inv A (tq_queue (be_timer_queue x)) \<and>
     set (run_items A x) \<subseteq> dom (k_tasks k) \<and> (\<forall>i \<in># timer_items A x. timer_item_ok (k_tasks k) i) \<and>
     (\<forall>h. be_alarm_handle x = Some h \<longrightarrow> unat (ah_id h) < length (callbacks_of L k) \<and>
        callbacks_of L k ! unat (ah_id h) \<in> {None, Some e})"

text \<open>A started executor has registered its callback.\<close>

definition exec_started ::
  "('q, 'r, 't, 'v, 'a) kernel_libs \<Rightarrow> ('q, 't, 'v, 'a, 'f, 's) kernel \<Rightarrow> nat \<Rightarrow> ('q, 't) base_executor \<Rightarrow> bool" where
  "exec_started L k e x \<longleftrightarrow> (\<exists>h. be_alarm_handle x = Some h \<and> callbacks_of L k ! unat (ah_id h) = Some e)"

definition kernel_inv ::
  "('q, 'r, 't, 'v, 'a) kernel_libs \<Rightarrow> ('q, 'r, 't, 'v, 'a) kernel_abs \<Rightarrow>
     ('q, 't, 'v, 'a, 'f, 's) kernel \<Rightarrow> bool" where
  "kernel_inv L A k \<longleftrightarrow>
     (\<forall>e x. k_execs k e = Some x \<longrightarrow> exec_ok L A k e x) \<and>
     (\<forall>e x e' x' h. k_execs k e = Some x \<longrightarrow> k_execs k e' = Some x' \<longrightarrow>
        be_alarm_handle x = Some h \<longrightarrow> be_alarm_handle x' = Some h \<longrightarrow> e = e') \<and>
     (\<forall>t h. k_tasks k t = Some h \<longrightarrow> th_executor h \<in> dom (k_execs k)) \<and>
     AlarmQueue_inv (lib_callbacks L) (cb_inv A) (al_inv A) (al_elems A) (k_alarm_queue k) \<and>
     (\<forall>e. Some e \<in> set (callbacks_of L k) \<longrightarrow> e \<in> dom (k_execs k))"

definition pended :: "pender \<Rightarrow> ('q, 't, 'v, 'a, 'f, 's) kernel \<Rightarrow> bool" where
  "pended p k = (case p of ThreadExecutorPender \<Rightarrow> k_local_event k
     | InterruptExecutorPender n \<Rightarrow> n \<in> k_sw_requests k)"

definition exec_grows ::
  "('q, 'r, 't, 'v, 'a) kernel_abs \<Rightarrow> bool \<Rightarrow> ('q, 't) base_executor \<Rightarrow> ('q, 't) base_executor \<Rightarrow> bool" where
  "exec_grows A own x x' \<longleftrightarrow> be_alarm_handle x' = be_alarm_handle x \<and> be_pender x' = be_pender x \<and>
     (\<exists>ys. run_items A x' = run_items A x @ ys) \<and>
     timer_items A x \<subseteq># timer_items A x' \<and> (\<not> own \<longrightarrow> be_timer_queue x' = be_timer_queue x)"

definition kernel_grows ::
  "('q, 'r, 't, 'v, 'a) kernel_abs \<Rightarrow> nat \<Rightarrow> ('q, 't, 'v, 'a, 'f, 's) kernel \<Rightarrow>
     ('q, 't, 'v, 'a, 'f, 's) kernel \<Rightarrow> bool" where
  "kernel_grows A e k k' \<longleftrightarrow>
     dom (k_tasks k') = dom (k_tasks k) \<and> k_alarm_queue k' = k_alarm_queue k \<and> k_ticks k' = k_ticks k \<and>
     (k_local_event k \<longrightarrow> k_local_event k') \<and> k_sw_requests k \<subseteq> k_sw_requests k' \<and>
     dom (k_execs k') = dom (k_execs k) \<and>
     (\<forall>i x. k_execs k i = Some x \<longrightarrow> (\<exists>x'. k_execs k' i = Some x' \<and> exec_grows A (i = e) x x'))"

lemma exec_grows_refl: "exec_grows A own x x"
  by (simp add: exec_grows_def)

lemma exec_grows_trans: "exec_grows A own x y \<Longrightarrow> exec_grows A own y z \<Longrightarrow> exec_grows A own x z"
  unfolding exec_grows_def by (auto intro: subset_mset.order_trans)

lemma kernel_grows_refl: "kernel_grows A e k k"
  by (auto simp: kernel_grows_def exec_grows_refl)

lemma kernel_growsD:
  "kernel_grows A e k k' \<Longrightarrow> k_execs k i = Some x \<Longrightarrow> \<exists>x'. k_execs k' i = Some x' \<and> exec_grows A (i = e) x x'"
  by (simp add: kernel_grows_def)

lemma kernel_grows_trans:
  assumes "kernel_grows A e k1 k2" "kernel_grows A e k2 k3"
  shows "kernel_grows A e k1 k3"
proof -
  have "\<exists>z. k_execs k3 i = Some z \<and> exec_grows A (i = e) x z" if x: "k_execs k1 i = Some x" for i x
    using kernel_growsD [OF assms(1) x] kernel_growsD [OF assms(2)] by (blast intro: exec_grows_trans)
  with assms show ?thesis by (auto simp: kernel_grows_def)
qed

lemma pended_grows: "kernel_grows A e k k' \<Longrightarrow> pended p k \<Longrightarrow> pended p k'"
  by (auto simp: kernel_grows_def pended_def split: pender.splits)

text \<open>The effects a poll may have: wakers of tasks that exist, in \<open>D\<close>, and deadlines of such tasks.\<close>

fun effect_ok :: "nat set \<Rightarrow> task_effect \<Rightarrow> bool" where
  "effect_ok D (EffWake w) \<longleftrightarrow> (waker_vtable w = VTABLE \<longrightarrow> waker_data w \<in> D)"
| "effect_ok D (EffSetDeadline w d) \<longleftrightarrow> waker_vtable w = VTABLE \<and> waker_data w \<in> D"

definition poll_ok :: "('f, 's) task_poll \<Rightarrow> nat set \<Rightarrow> bool" where
  "poll_ok poll D \<longleftrightarrow> (\<forall>f t now s. t \<in> D \<longrightarrow>
     (case poll f (RawWaker t VTABLE) \<lparr>tv_now = now, tv_effects = [], tv_shared = s\<rparr> of
        (r, f', v) \<Rightarrow> r = Pending \<and> list_all (effect_ok D) (tv_effects v)))"

section \<open>Frames\<close>

lemma set_exec_simps [simp]:
  "k_tasks (set_exec e x k) = k_tasks k" "k_execs (set_exec e x k) = (k_execs k)(e \<mapsto> x)"
  "k_alarm_queue (set_exec e x k) = k_alarm_queue k" "k_ticks (set_exec e x k) = k_ticks k"
  "k_local_event (set_exec e x k) = k_local_event k" "k_sw_requests (set_exec e x k) = k_sw_requests k"
  "k_shared (set_exec e x k) = k_shared k" "k_alloc (set_exec e x k) = k_alloc k"
  "k_thread_initialised (set_exec e x k) = k_thread_initialised k"
  by (simp_all add: set_exec_def)

lemma set_header_simps [simp]:
  "k_tasks (set_header t h k) = (k_tasks k)(t \<mapsto> h)" "k_execs (set_header t h k) = k_execs k"
  "k_alarm_queue (set_header t h k) = k_alarm_queue k" "k_ticks (set_header t h k) = k_ticks k"
  "k_local_event (set_header t h k) = k_local_event k" "k_sw_requests (set_header t h k) = k_sw_requests k"
  "k_shared (set_header t h k) = k_shared k" "k_alloc (set_header t h k) = k_alloc k"
  "k_thread_initialised (set_header t h k) = k_thread_initialised k"
  by (simp_all add: set_header_def)

lemma Pender_pend_simps [simp]:
  "k_tasks (Pender_pend p k) = k_tasks k" "k_execs (Pender_pend p k) = k_execs k"
  "k_alarm_queue (Pender_pend p k) = k_alarm_queue k" "k_ticks (Pender_pend p k) = k_ticks k"
  "k_shared (Pender_pend p k) = k_shared k" "k_alloc (Pender_pend p k) = k_alloc k"
  "k_thread_initialised (Pender_pend p k) = k_thread_initialised k"
  by (simp_all add: Pender_pend_def Kernel_signal_event_local_def split: pender.split)

lemma Pender_pend_pended [simp]: "pended p (Pender_pend p k)"
  by (simp add: pended_def Pender_pend_def Kernel_signal_event_local_def split: pender.split)

lemma Pender_pend_mono:
  "k_local_event k \<Longrightarrow> k_local_event (Pender_pend p k)" "k_sw_requests k \<subseteq> k_sw_requests (Pender_pend p k)"
  by (auto simp: Pender_pend_def Kernel_signal_event_local_def split: pender.split)

lemma pended_mono: "pended p k \<Longrightarrow> pended p (Pender_pend p' k)"
  using Pender_pend_mono(1) [of k p'] Pender_pend_mono(2) [of k p']
  by (auto simp: pended_def split: pender.splits)

lemma exec_ok_cong:
  assumes "exec_ok L A k e x" "dom (k_tasks k) \<subseteq> dom (k_tasks k')"
    "aq_callbacks (k_alarm_queue k') = aq_callbacks (k_alarm_queue k)"
  shows "exec_ok L A k' e x"
proof -
  have "timer_item_ok (k_tasks k) i \<Longrightarrow> timer_item_ok (k_tasks k') i" for i
    using assms(2) unfolding timer_item_ok_def by blast
  moreover have "callbacks_of L k' = callbacks_of L k" by (simp add: callbacks_of_def assms(3))
  moreover have "set (run_items A x) \<subseteq> dom (k_tasks k')"
    using assms(1,2) unfolding exec_ok_def by (blast intro: order_trans)
  ultimately show ?thesis using assms(1) unfolding exec_ok_def by simp
qed

lemma kernel_invI:
  assumes "\<And>e x. k_execs k e = Some x \<Longrightarrow> exec_ok L A k e x"
    and "\<And>e x e' x' h. k_execs k e = Some x \<Longrightarrow> k_execs k e' = Some x' \<Longrightarrow>
        be_alarm_handle x = Some h \<Longrightarrow> be_alarm_handle x' = Some h \<Longrightarrow> e = e'"
    and "\<And>t h. k_tasks k t = Some h \<Longrightarrow> th_executor h \<in> dom (k_execs k)"
    and "AlarmQueue_inv (lib_callbacks L) (cb_inv A) (al_inv A) (al_elems A) (k_alarm_queue k)"
    and "\<And>e. Some e \<in> set (callbacks_of L k) \<Longrightarrow> e \<in> dom (k_execs k)"
  shows "kernel_inv L A k"
  unfolding kernel_inv_def using assms by blast

lemma kernel_invD:
  assumes "kernel_inv L A k"
  shows kernel_inv_exec: "k_execs k e = Some x \<Longrightarrow> exec_ok L A k e x"
    and kernel_inv_handle: "k_execs k e = Some x \<Longrightarrow> k_execs k e' = Some x' \<Longrightarrow>
        be_alarm_handle x = Some h \<Longrightarrow> be_alarm_handle x' = Some h \<Longrightarrow> e = e'"
    and kernel_inv_task: "k_tasks k t = Some h' \<Longrightarrow> th_executor h' \<in> dom (k_execs k)"
    and kernel_inv_alarms: "AlarmQueue_inv (lib_callbacks L) (cb_inv A) (al_inv A) (al_elems A) (k_alarm_queue k)"
    and kernel_inv_callback: "Some c \<in> set (callbacks_of L k) \<Longrightarrow> c \<in> dom (k_execs k)"
  using assms unfolding kernel_inv_def by blast+

lemma kernel_inv_set_exec:
  assumes inv: "kernel_inv L A k" and x: "k_execs k e = Some x" and ok: "exec_ok L A k e x'"
    and h: "be_alarm_handle x' = be_alarm_handle x"
  shows "kernel_inv L A (set_exec e x' k)"
proof (rule kernel_invI)
  fix i y
  assume "k_execs (set_exec e x' k) i = Some y"
  then have "exec_ok L A k i y" using ok kernel_inv_exec [OF inv] by (cases "i = e") auto
  then show "exec_ok L A (set_exec e x' k) i y" by (rule exec_ok_cong) simp_all
next
  fix i y j z a
  assume y: "k_execs (set_exec e x' k) i = Some y" "be_alarm_handle y = Some a"
    and z: "k_execs (set_exec e x' k) j = Some z" "be_alarm_handle z = Some a"
  have "\<exists>y'. k_execs k i = Some y' \<and> be_alarm_handle y' = Some a" using y x h by (cases "i = e") auto
  moreover have "\<exists>z'. k_execs k j = Some z' \<and> be_alarm_handle z' = Some a" using z x h by (cases "j = e") auto
  ultimately show "i = j" using kernel_inv_handle [OF inv] by blast
next
  fix t a
  assume "k_tasks (set_exec e x' k) t = Some a"
  then show "th_executor a \<in> dom (k_execs (set_exec e x' k))" using kernel_inv_task [OF inv] by auto
next
  show "AlarmQueue_inv (lib_callbacks L) (cb_inv A) (al_inv A) (al_elems A) (k_alarm_queue (set_exec e x' k))"
    using kernel_inv_alarms [OF inv] by simp
next
  fix c
  assume "Some c \<in> set (callbacks_of L (set_exec e x' k))"
  then show "c \<in> dom (k_execs (set_exec e x' k))"
    using kernel_inv_callback [OF inv] by (auto simp: callbacks_of_def)
qed

lemma kernel_inv_cong:
  assumes inv: "kernel_inv L A k" and "dom (k_tasks k) \<subseteq> dom (k_tasks k')" "k_execs k' = k_execs k"
    and "aq_callbacks (k_alarm_queue k') = aq_callbacks (k_alarm_queue k)"
    and "AlarmQueue_inv (lib_callbacks L) (cb_inv A) (al_inv A) (al_elems A) (k_alarm_queue k')"
    and "\<And>t h. k_tasks k' t = Some h \<Longrightarrow> th_executor h \<in> dom (k_execs k)"
  shows "kernel_inv L A k'"
proof (rule kernel_invI)
  fix i y
  assume "k_execs k' i = Some y"
  then have "exec_ok L A k i y" using kernel_inv_exec [OF inv] assms(3) by simp
  then show "exec_ok L A k' i y" by (rule exec_ok_cong) (simp_all add: assms)
next
  fix c
  assume "Some c \<in> set (callbacks_of L k')"
  then show "c \<in> dom (k_execs k')"
    using kernel_inv_callback [OF inv] by (simp add: callbacks_of_def assms)
qed (use kernel_inv_handle [OF inv] assms(3,5,6) in auto)

lemma kernel_inv_set_header:
  assumes inv: "kernel_inv L A k" and h: "k_tasks k t = Some h" "th_executor h' = th_executor h"
  shows "kernel_inv L A (set_header t h' k)"
proof (rule kernel_inv_cong [OF inv])
  fix i y
  assume "k_tasks (set_header t h' k) i = Some y"
  then show "th_executor y \<in> dom (k_execs k)"
    using kernel_inv_task [OF inv] h by (cases "i = t") auto
qed (use kernel_inv_alarms [OF inv] in auto)

lemma kernel_inv_frame:
  assumes "kernel_inv L A k" "k_tasks k' = k_tasks k" "k_execs k' = k_execs k" "k_alarm_queue k' = k_alarm_queue k"
  shows "kernel_inv L A k'"
  by (rule kernel_inv_cong [OF assms(1)]) (use assms kernel_invD(3,4) [OF assms(1)] in auto)

section \<open>The laws of the containers\<close>

locale kernel_laws =
  rq: bounded_deque "lib_run L" MAX_TASKS "rq_inv A" "rq_items A" +
  rv: bounded_vec "lib_ready L" MAX_TASKS "rv_inv A" +
  tq: timer_heap "lib_timers L" "tq_inv A" "tq_elems A" +
  aq: alarm_libs "lib_callbacks L" N_ALARM_HANDLES "cb_inv A" "lib_alarms L" N_ALARM_ITEMS "al_inv A" "al_elems A"
  for L :: "('q, 'r, 't, 'v, 'a) kernel_libs" and A :: "('q, 'r, 't, 'v, 'a) kernel_abs"
begin

text \<open>Enqueueing appends to the run queue unless it is full, and pends the executor either way.\<close>

lemma enqueue_cases:
  fixes k :: "('q, 't, 'v, 'a, 'f, 's) kernel"
  assumes inv: "kernel_inv L A k" and x: "k_execs k e = Some x" and t: "t \<in> dom (k_tasks k)"
  obtains q where "BaseExecutor_enqueue_and_pend L e t k =
      Ret (if length (run_items A x) < MAX_TASKS then Some () else None,
           Pender_pend (be_pender x) (set_exec e (x\<lparr>be_run_queue := q\<rparr>) k))"
    "rq_items A q = (if length (run_items A x) < MAX_TASKS then run_items A x @ [t] else run_items A x)"
    "kernel_inv L A (Pender_pend (be_pender x) (set_exec e (x\<lparr>be_run_queue := q\<rparr>) k))"
proof -
  have ok: "exec_ok L A k e x" using inv x by (rule kernel_inv_exec)
  then have rq: "rq_inv A (be_run_queue x)" by (simp add: exec_ok_def)
  have inv': "kernel_inv L A (Pender_pend (be_pender x) (set_exec e (x\<lparr>be_run_queue := q\<rparr>) k))"
    if "rq_inv A q" "set (rq_items A q) \<subseteq> insert t (set (run_items A x))" for q
  proof -
    have "exec_ok L A k e (x\<lparr>be_run_queue := q\<rparr>)"
      using ok that t by (auto simp: exec_ok_def run_items_def timer_items_def)
    then have "kernel_inv L A (set_exec e (x\<lparr>be_run_queue := q\<rparr>) k)"
      by (rule kernel_inv_set_exec [OF inv x]) simp
    then show ?thesis by (rule kernel_inv_frame) simp_all
  qed
  from rq show ?thesis
  proof (cases rule: rq.push_back_cases [where x = t])
    case (ok q)
    with x inv' [of q] show ?thesis
      by (intro that [of q]) (auto simp: BaseExecutor_enqueue_and_pend_def with_exec_def run_items_def)
  next
    case (full q)
    with x inv' [of q] show ?thesis
      by (intro that [of q]) (auto simp: BaseExecutor_enqueue_and_pend_def with_exec_def run_items_def)
  qed
qed

lemma enqueue_grows:
  assumes x: "k_execs k e = Some x" and q: "rq_items A q = run_items A x @ ys"
  shows "kernel_grows A i k (Pender_pend (be_pender x) (set_exec e (x\<lparr>be_run_queue := q\<rparr>) k))"
  using x q Pender_pend_mono [of "set_exec e (x\<lparr>be_run_queue := q\<rparr>) k" "be_pender x"]
  by (auto simp: kernel_grows_def exec_grows_def run_items_def timer_items_def)

lemma apply_effect_ok:
  assumes inv: "kernel_inv L A k" and eff: "effect_ok (dom (k_tasks k)) f"
  obtains k' where "apply_effect L k f = Ret k'" "kernel_inv L A k'" "kernel_grows A i k k'"
    "k_shared k' = k_shared k"
proof (cases f)
  case (EffSetDeadline w d)
  obtain t where w: "w = RawWaker t VTABLE" using eff EffSetDeadline by (cases w) auto
  with eff EffSetDeadline obtain h where h: "k_tasks k t = Some h" by auto
  let ?k = "set_header t (h\<lparr>th_expires_at := Some d\<rparr>) k"
  have "kernel_inv L A ?k" by (rule kernel_inv_set_header [OF inv h]) simp
  moreover have "kernel_grows A i k ?k" using h by (auto simp: kernel_grows_def exec_grows_refl)
  ultimately show ?thesis using h w EffSetDeadline by (intro that [of ?k]) (auto simp: with_header_def)
next
  case (EffWake w)
  show ?thesis
  proof (cases "waker_vtable w = VTABLE")
    case True
    with eff EffWake obtain h where h: "k_tasks k (waker_data w) = Some h" by auto
    with inv obtain x where x: "k_execs k (th_executor h) = Some x" using kernel_inv_task [OF inv h] by blast
    have "waker_data w \<in> dom (k_tasks k)" using h by auto
    from enqueue_cases [OF inv x this] obtain q where q:
      "BaseExecutor_enqueue_and_pend L (th_executor h) (waker_data w) k =
        Ret (if length (run_items A x) < MAX_TASKS then Some () else None,
           Pender_pend (be_pender x) (set_exec (th_executor h) (x\<lparr>be_run_queue := q\<rparr>) k))"
      "rq_items A q = (if length (run_items A x) < MAX_TASKS then run_items A x @ [waker_data w] else run_items A x)"
      "kernel_inv L A (Pender_pend (be_pender x) (set_exec (th_executor h) (x\<lparr>be_run_queue := q\<rparr>) k))" .
    have "\<exists>ys. rq_items A q = run_items A x @ ys" using q(2) by auto
    with enqueue_grows [OF x] True q(1,3) h EffWake show ?thesis
      by (intro that [of "Pender_pend (be_pender x) (set_exec (th_executor h) (x\<lparr>be_run_queue := q\<rparr>) k)"])
        (auto simp: Waker_wake_by_ref_def with_header_def)
  next
    case False
    with EffWake inv show ?thesis
      by (intro that [of k]) (auto simp: Waker_wake_by_ref_def kernel_grows_refl)
  qed
qed

lemma effect_ok_grows: "kernel_grows A i k k' \<Longrightarrow> effect_ok (dom (k_tasks k)) f \<Longrightarrow> effect_ok (dom (k_tasks k')) f"
  by (cases f) (auto simp: kernel_grows_def)

lemma apply_effects_ok:
  assumes "kernel_inv L A k" "list_all (effect_ok (dom (k_tasks k))) fs"
  shows "\<exists>k'. each_out (apply_effect L) fs k = Ret k' \<and> kernel_inv L A k' \<and> kernel_grows A i k k' \<and>
    k_shared k' = k_shared k"
  using assms
proof (induction fs arbitrary: k)
  case (Cons f fs)
  from Cons.prems obtain k1 where k1: "apply_effect L k f = Ret k1" "kernel_inv L A k1" "kernel_grows A i k k1"
    "k_shared k1 = k_shared k" by (auto elim: apply_effect_ok)
  have "list_all (effect_ok (dom (k_tasks k1))) fs"
    using Cons.prems(2) effect_ok_grows [OF k1(3)] by (simp add: list_all_iff)
  from Cons.IH [OF k1(2) this] k1 show ?case by (auto intro: kernel_grows_trans)
qed (simp add: kernel_grows_refl)

end

section \<open>Running tasks\<close>

context kernel_laws
begin

lemma update_timer_queue_ok:
  fixes k :: "('q, 't, 'v, 'a, 'f, 's) kernel"
  assumes inv: "kernel_inv L A k" and t: "k_tasks k t = Some h" and x: "k_execs k e = Some x"
  obtains tq where "BaseExecutor_update_timer_queue L e t k =
      Ret (if th_expires_at h = None then k else set_exec e (x\<lparr>be_timer_queue := tq\<rparr>) k)"
    "kernel_inv L A (set_exec e (x\<lparr>be_timer_queue := tq\<rparr>) k)"
    "\<And>d. th_expires_at h = Some d \<Longrightarrow> tq_elems A (tq_queue tq) =
       (if size (timer_items A x) < N_TIMERS
        then add_mset \<lparr>ti_expires_at = d, ti_waker = RawWaker t VTABLE\<rparr> (timer_items A x)
        else timer_items A x)"
proof (cases "th_expires_at h")
  case None
  have "set_exec e (x\<lparr>be_timer_queue := be_timer_queue x\<rparr>) k = k"
    using x by (simp add: set_exec_def fun_upd_idem)
  with None inv t show ?thesis
    by (intro that [of "be_timer_queue x"]) (auto simp: BaseExecutor_update_timer_queue_def with_header_def)
next
  case (Some d)
  let ?i = "\<lparr>ti_expires_at = d, ti_waker = RawWaker t VTABLE\<rparr>"
  have ok: "exec_ok L A k e x" using inv x by (rule kernel_inv_exec)
  then have tq: "tq_inv A (tq_queue (be_timer_queue x))" by (simp add: exec_ok_def)
  have inv': "kernel_inv L A (set_exec e (x\<lparr>be_timer_queue := q\<rparr>) k)"
    if "tq_inv A (tq_queue q)" "tq_elems A (tq_queue q) \<subseteq># add_mset ?i (timer_items A x)" for q
  proof (rule kernel_inv_set_exec [OF inv x])
    have "timer_item_ok (k_tasks k) j" if j: "j \<in># tq_elems A (tq_queue q)" for j
    proof -
      have "timer_item_ok (k_tasks k) ?i" using t by (auto simp: timer_item_ok_def)
      moreover have "timer_item_ok (k_tasks k) j'" if "j' \<in># timer_items A x" for j'
        using ok that by (simp add: exec_ok_def)
      moreover have "j \<in># add_mset ?i (timer_items A x)"
        using mset_subset_eqD [OF \<open>tq_elems A (tq_queue q) \<subseteq># add_mset ?i (timer_items A x)\<close> j] .
      ultimately show ?thesis by auto
    qed
    with ok that(1) show "exec_ok L A k e (x\<lparr>be_timer_queue := q\<rparr>)"
      by (simp add: exec_ok_def run_items_def timer_items_def)
    show "be_alarm_handle (x\<lparr>be_timer_queue := q\<rparr>) = be_alarm_handle x" by simp
  qed
  from tq show ?thesis
  proof (cases rule: tq.push_cases [where x = ?i])
    case (ok q)
    with Some x t inv' [of "(be_timer_queue x)\<lparr>tq_queue := q\<rparr>"] show ?thesis
      by (intro that [of "(be_timer_queue x)\<lparr>tq_queue := q\<rparr>"])
        (auto simp: BaseExecutor_update_timer_queue_def with_header_def with_exec_def
          TimerQueue_enqueue_def timer_items_def)
  next
    case (full q)
    with Some x t inv' [of "(be_timer_queue x)\<lparr>tq_queue := q\<rparr>"] show ?thesis
      by (intro that [of "(be_timer_queue x)\<lparr>tq_queue := q\<rparr>"])
        (auto simp: BaseExecutor_update_timer_queue_def with_header_def with_exec_def
          TimerQueue_enqueue_def timer_items_def)
  qed
qed

text \<open>
  The state between the poll and the update of the timer queue: the effects are applied to the
  kernel with the new future and no deadline.
\<close>

definition polled ::
  "('f, 's) task_poll \<Rightarrow> nat \<Rightarrow> 'f task_header \<Rightarrow> ('q, 't, 'v, 'a, 'f, 's) kernel \<Rightarrow>
     task_effect list \<times> ('q, 't, 'v, 'a, 'f, 's) kernel" where
  "polled poll t h k =
     (let (r, fut, v) = poll (th_fut_ref h) (RawWaker t VTABLE)
            \<lparr>tv_now = Kernel_now k, tv_effects = [], tv_shared = k_shared k\<rparr>
      in (tv_effects v, set_header t (h\<lparr>th_expires_at := None, th_fut_ref := fut\<rparr>) (k\<lparr>k_shared := tv_shared v\<rparr>)))"

lemma polled_ok:
  assumes inv: "kernel_inv L A k" and p: "poll_ok poll (dom (k_tasks k))" and t: "k_tasks k t = Some h"
    and pd: "polled poll t h k = (fs, k1)"
  shows "BaseExecutor_run_task L poll e t k =
      bind_out (each_out (apply_effect L) fs k1) (BaseExecutor_update_timer_queue L e t)"
    "kernel_inv L A k1" "list_all (effect_ok (dom (k_tasks k1))) fs" "kernel_grows A i k k1"
proof -
  obtain r fut v where pl: "poll (th_fut_ref h) (RawWaker t VTABLE)
      \<lparr>tv_now = Kernel_now k, tv_effects = [], tv_shared = k_shared k\<rparr> = (r, fut, v)"
    by (metis prod_cases3)
  have "t \<in> dom (k_tasks k)" using t by auto
  with p pl have r: "r = Pending" "list_all (effect_ok (dom (k_tasks k))) (tv_effects v)"
    unfolding poll_ok_def by (metis (mono_tags, lifting) case_prod_conv)+
  from pd pl have k1: "fs = tv_effects v"
    "k1 = set_header t (h\<lparr>th_expires_at := None, th_fut_ref := fut\<rparr>) (k\<lparr>k_shared := tv_shared v\<rparr>)"
    by (simp_all add: polled_def)
  have dom: "dom (k_tasks k1) = dom (k_tasks k)" using t k1 by auto
  show "BaseExecutor_run_task L poll e t k =
      bind_out (each_out (apply_effect L) fs k1) (BaseExecutor_update_timer_queue L e t)"
    using t pl r(1) k1 by (simp add: BaseExecutor_run_task_def with_header_def)
  have "kernel_inv L A (k\<lparr>k_shared := tv_shared v\<rparr>)" by (rule kernel_inv_frame [OF inv]) simp_all
  then show "kernel_inv L A k1" unfolding k1 by (rule kernel_inv_set_header [where h = h]) (simp_all add: t)
  show "list_all (effect_ok (dom (k_tasks k1))) fs" using r(2) by (simp only: dom k1(1))
  show "kernel_grows A i k k1" using dom k1 by (auto simp: kernel_grows_def exec_grows_refl)
qed

lemma dom_tasks_grows: "kernel_grows A i k k' \<Longrightarrow> dom (k_tasks k') = dom (k_tasks k)"
  by (simp add: kernel_grows_def)

lemma run_task_ok:
  assumes inv: "kernel_inv L A k" and p: "poll_ok poll (dom (k_tasks k))"
    and t: "t \<in> dom (k_tasks k)" and e: "e \<in> dom (k_execs k)"
  obtains k' where "BaseExecutor_run_task L poll e t k = Ret k'" "kernel_inv L A k'" "kernel_grows A e k k'"
proof -
  from t obtain h where h: "k_tasks k t = Some h" by auto
  obtain fs k1 where pd: "polled poll t h k = (fs, k1)" by fastforce
  note 1 = polled_ok [OF inv p h pd]
  from apply_effects_ok [OF 1(2,3), of e] obtain k2 where
    k2: "each_out (apply_effect L) fs k1 = Ret k2" "kernel_inv L A k2" "kernel_grows A e k1 k2" by blast
  have g: "kernel_grows A e k k2" using 1(4) k2(3) by (rule kernel_grows_trans)
  then have "t \<in> dom (k_tasks k2)" "e \<in> dom (k_execs k2)" using t e by (auto simp: kernel_grows_def)
  then obtain h2 x2 where h2: "k_tasks k2 t = Some h2" and x2: "k_execs k2 e = Some x2" by auto
  from update_timer_queue_ok [OF k2(2) h2 x2] obtain tq where
    tq: "BaseExecutor_update_timer_queue L e t k2 =
      Ret (if th_expires_at h2 = None then k2 else set_exec e (x2\<lparr>be_timer_queue := tq\<rparr>) k2)"
    "kernel_inv L A (set_exec e (x2\<lparr>be_timer_queue := tq\<rparr>) k2)"
    "\<And>d. th_expires_at h2 = Some d \<Longrightarrow> tq_elems A (tq_queue tq) =
       (if size (timer_items A x2) < N_TIMERS
        then add_mset \<lparr>ti_expires_at = d, ti_waker = RawWaker t VTABLE\<rparr> (timer_items A x2)
        else timer_items A x2)" by blast
  let ?k = "if th_expires_at h2 = None then k2 else set_exec e (x2\<lparr>be_timer_queue := tq\<rparr>) k2"
  have "kernel_grows A e k2 ?k"
  proof (cases "th_expires_at h2")
    case (Some d)
    then have "timer_items A x2 \<subseteq># tq_elems A (tq_queue tq)" using tq(3) by simp
    then have "exec_grows A True x2 (x2\<lparr>be_timer_queue := tq\<rparr>)"
      by (simp add: exec_grows_def run_items_def timer_items_def)
    with x2 Some show ?thesis by (auto simp: kernel_grows_def exec_grows_refl)
  qed (simp add: kernel_grows_refl)
  with g have "kernel_grows A e k ?k" by (rule kernel_grows_trans)
  moreover have "BaseExecutor_run_task L poll e t k = Ret ?k" using 1(1) k2(1) tq(1) by simp
  moreover have "kernel_inv L A ?k" using k2(2) tq(2) by simp
  ultimately show ?thesis by (intro that)
qed

text \<open>Popping the front of the run queue.\<close>

lemma pop_run_queue:
  assumes inv: "kernel_inv L A k" and x: "k_execs k e = Some x"
  obtains (empty) q where "run_items A x = []" "Deque_pop_front (lib_run L) (be_run_queue x) = (None, q)"
      "kernel_inv L A (set_exec e (x\<lparr>be_run_queue := q\<rparr>) k)" "rq_items A q = []"
    | (task) t ts q where "run_items A x = t # ts" "Deque_pop_front (lib_run L) (be_run_queue x) = (Some t, q)"
      "kernel_inv L A (set_exec e (x\<lparr>be_run_queue := q\<rparr>) k)" "rq_items A q = ts" "t \<in> dom (k_tasks k)"
proof -
  have ok: "exec_ok L A k e x" using inv x by (rule kernel_inv_exec)
  then have rq: "rq_inv A (be_run_queue x)" by (simp add: exec_ok_def)
  have inv': "kernel_inv L A (set_exec e (x\<lparr>be_run_queue := q\<rparr>) k)"
    if "rq_inv A q" "set (rq_items A q) \<subseteq> set (run_items A x)" for q
    using ok that by (intro kernel_inv_set_exec [OF inv x]) (auto simp: exec_ok_def run_items_def timer_items_def)
  from rq show ?thesis
  proof (cases rule: rq.pop_front_cases)
    case (none q)
    with inv' [of q] show ?thesis by (intro that(1) [of q]) (auto simp: run_items_def)
  next
    case (some t ts q)
    with inv' [of q] ok show ?thesis
      by (intro that(2) [of t ts q]) (auto simp: run_items_def exec_ok_def)
  qed
qed

end

section \<open>Reference containers\<close>

definition list_libs ::
  "(nat list, nat list, timer_queue_item list, nat option list, alarm_item list) kernel_libs" where
  "list_libs = \<lparr>lib_run = list_deque MAX_TASKS, lib_ready = list_vec MAX_TASKS,
     lib_timers = sorted_heap N_TIMERS ti_expires_at, lib_callbacks = list_vec N_ALARM_HANDLES,
     lib_alarms = sorted_heap N_ALARM_ITEMS alarm_key\<rparr>"

definition list_abs ::
  "(nat list, nat list, timer_queue_item list, nat option list, alarm_item list) kernel_abs" where
  "list_abs = \<lparr>rq_inv = (\<lambda>q. length q \<le> MAX_TASKS), rq_items = (\<lambda>q. q),
     rv_inv = (\<lambda>v. length v \<le> MAX_TASKS),
     tq_inv = (\<lambda>h. length h \<le> N_TIMERS \<and> sorted (map ti_expires_at h)), tq_elems = mset,
     cb_inv = (\<lambda>v. length v \<le> N_ALARM_HANDLES),
     al_inv = (\<lambda>h. length h \<le> N_ALARM_ITEMS \<and> sorted (map alarm_key h)), al_elems = mset\<rparr>"

lemma list_kernel_laws: "kernel_laws list_libs list_abs"
proof -
  have "alarm_libs (list_vec N_ALARM_HANDLES) N_ALARM_HANDLES (\<lambda>v. length v \<le> N_ALARM_HANDLES)
      (sorted_heap N_ALARM_ITEMS alarm_key) N_ALARM_ITEMS
      (\<lambda>h. length h \<le> N_ALARM_ITEMS \<and> sorted (map alarm_key h)) mset"
    by (rule sorted_alarm_libs) (simp_all add: N_ALARM_HANDLES_def N_ALARM_ITEMS_def usize_max_def)
  then show ?thesis
    unfolding kernel_laws_def
    by (simp add: list_libs_def list_abs_def list_deque_bounded list_vec_bounded sorted_timer_heap)
qed

interpretation list_kernel: kernel_laws list_libs list_abs
  by (rule list_kernel_laws)

text \<open>
  A started kernel with the thread executor, its alarm handle 0, and tasks at the given addresses, all
  of them in the run queue.
\<close>

definition demo_executor ::
  "nat list \<Rightarrow> timer_queue_item list \<Rightarrow> (nat list, timer_queue_item list) base_executor" where
  "demo_executor ts tms = \<lparr>be_run_queue = ts, be_timer_queue = \<lparr>tq_queue = tms\<rparr>, be_next_alarm_at = None,
     be_alarm_handle = Some (AlarmHandle_from 0), be_pender = ThreadExecutorPender\<rparr>"

definition demo_kernel ::
  "nat list \<Rightarrow> timer_queue_item list \<Rightarrow> alarm_item list \<Rightarrow> 32 word \<Rightarrow> 's \<Rightarrow>
     (nat list, timer_queue_item list, nat option list, alarm_item list, unit, 's) kernel" where
  "demo_kernel ts tms als now s = \<lparr>
     k_tasks = (\<lambda>t. if t \<in> {100, 200} then
       Some \<lparr>th_name = [], th_fut_ref = (), th_executor = 0, th_expires_at = None\<rparr> else None),
     k_execs = [0 \<mapsto> demo_executor ts tms],
     k_alarm_queue = \<lparr>aq_callbacks = [Some 0], aq_queue = als\<rparr>, k_ticks = now, k_local_event = False,
     k_sw_requests = {}, k_alloc = BumpAllocator_new 0 4096, k_thread_initialised = True, k_shared = s\<rparr>"

lemma demo_kernel_simps [simp]:
  "dom (k_tasks (demo_kernel ts tms als now s)) = {100, 200}"
  "k_execs (demo_kernel ts tms als now s) 0 = Some (demo_executor ts tms)"
  "k_ticks (demo_kernel ts tms als now s) = now" "k_shared (demo_kernel ts tms als now s) = s"
  "run_items list_abs (demo_executor ts tms) = ts" "timer_items list_abs (demo_executor ts tms) = mset tms"
  "alarm_items list_abs (demo_kernel ts tms als now s) = mset als"
  by (auto simp: demo_kernel_def demo_executor_def run_items_def timer_items_def alarm_items_def
      list_abs_def split: if_splits)

lemma demo_kernel_inv:
  assumes "set ts \<subseteq> {100, 200}" "length ts \<le> MAX_TASKS" "length tms \<le> N_TIMERS" "sorted (map ti_expires_at tms)"
    and "\<forall>i \<in> set tms. ti_waker i \<in> {RawWaker 100 VTABLE, RawWaker 200 VTABLE}"
    and "length als \<le> N_ALARM_ITEMS" "sorted (map alarm_key als)" "\<forall>i \<in> set als. ai_handle i = AlarmHandle_from 0"
  shows "kernel_inv list_libs list_abs (demo_kernel ts tms als now s)"
proof -
  let ?k = "demo_kernel ts tms als now s"
  have cb: "callbacks_of list_libs ?k = [Some 0]"
    by (simp add: callbacks_of_def demo_kernel_def list_libs_def list_vec_def)
  have "timer_item_ok (k_tasks ?k) i" if "i \<in> set tms" for i
    using assms(5) that unfolding timer_item_ok_def demo_kernel_simps by force
  then have "exec_ok list_libs list_abs ?k 0 (demo_executor ts tms)"
    using assms(1-4) unfolding exec_ok_def demo_kernel_simps cb
    by (simp add: demo_executor_def list_abs_def AlarmHandle_from_def)
  moreover have "e = 0 \<and> x = demo_executor ts tms" if "k_execs ?k e = Some x" for e x
    using that by (simp add: demo_kernel_def split: if_splits)
  moreover have "th_executor h \<in> dom (k_execs ?k)" if "k_tasks ?k t = Some h" for t h
    using that by (auto simp: demo_kernel_def split: if_splits)
  moreover have "AlarmQueue_inv (lib_callbacks list_libs) (cb_inv list_abs) (al_inv list_abs) (al_elems list_abs)
      (k_alarm_queue ?k)"
    using assms(6-8) by (auto simp: AlarmQueue_inv_def demo_kernel_def list_libs_def list_abs_def list_vec_def
        AlarmHandle_from_def N_ALARM_HANDLES_def)
  moreover have "e \<in> dom (k_execs ?k)" if "Some e \<in> set (callbacks_of list_libs ?k)" for e
    using that unfolding cb by (simp add: demo_kernel_def)
  ultimately show ?thesis by (intro kernel_invI) blast+
qed

end
