(* ===== verification/Executor_Runs.thy ===== *)
theory Executor_Runs
  imports Executor_Laws
begin

text \<open>
  The loop \<open>advance_runnable_tasks\<close>: it polls the queued tasks in the order of the queue, whatever is
  woken meanwhile; it ends when the wakeups of the polls are bounded; it does not end for a task
  that wakes itself at every poll.
\<close>

definition exec_ran ::
  "('q, 'r, 't, 'v, 'a) kernel_abs \<Rightarrow> bool \<Rightarrow> ('q, 't) base_executor \<Rightarrow> ('q, 't) base_executor \<Rightarrow> bool" where
  "exec_ran A own x x' \<longleftrightarrow> be_alarm_handle x' = be_alarm_handle x \<and> be_pender x' = be_pender x \<and>
     timer_items A x \<subseteq># timer_items A x' \<and>
     (\<not> own \<longrightarrow> be_timer_queue x' = be_timer_queue x \<and> (\<exists>ys. run_items A x' = run_items A x @ ys))"

definition kernel_ran ::
  "('q, 'r, 't, 'v, 'a) kernel_abs \<Rightarrow> nat \<Rightarrow> ('q, 't, 'v, 'a, 'f, 's) kernel \<Rightarrow>
     ('q, 't, 'v, 'a, 'f, 's) kernel \<Rightarrow> bool" where
  "kernel_ran A e k k' \<longleftrightarrow>
     dom (k_tasks k') = dom (k_tasks k) \<and> k_alarm_queue k' = k_alarm_queue k \<and> k_ticks k' = k_ticks k \<and>
     (k_local_event k \<longrightarrow> k_local_event k') \<and> k_sw_requests k \<subseteq> k_sw_requests k' \<and>
     dom (k_execs k') = dom (k_execs k) \<and>
     (\<forall>i x. k_execs k i = Some x \<longrightarrow> (\<exists>x'. k_execs k' i = Some x' \<and> exec_ran A (i = e) x x'))"

lemma exec_ran_refl: "exec_ran A own x x"
  by (simp add: exec_ran_def)

lemma exec_ran_trans: "exec_ran A own x y \<Longrightarrow> exec_ran A own y z \<Longrightarrow> exec_ran A own x z"
  unfolding exec_ran_def by (auto intro: subset_mset.order_trans)

lemma kernel_ran_refl: "kernel_ran A e k k"
  by (auto simp: kernel_ran_def exec_ran_refl)

lemma kernel_ranD:
  "kernel_ran A e k k' \<Longrightarrow> k_execs k i = Some x \<Longrightarrow> \<exists>x'. k_execs k' i = Some x' \<and> exec_ran A (i = e) x x'"
  by (simp add: kernel_ran_def)

lemma kernel_ran_trans:
  assumes "kernel_ran A e k1 k2" "kernel_ran A e k2 k3"
  shows "kernel_ran A e k1 k3"
proof -
  have "\<exists>z. k_execs k3 i = Some z \<and> exec_ran A (i = e) x z" if x: "k_execs k1 i = Some x" for i x
    using kernel_ranD [OF assms(1) x] kernel_ranD [OF assms(2)] by (blast intro: exec_ran_trans)
  with assms show ?thesis by (auto simp: kernel_ran_def)
qed

lemma kernel_grows_ran: "kernel_grows A e k k' \<Longrightarrow> kernel_ran A e k k'"
  unfolding kernel_grows_def kernel_ran_def exec_grows_def exec_ran_def by fastforce

lemma kernel_ran_pop:
  assumes "k_execs k e = Some x"
  shows "kernel_ran A e k (set_exec e (x\<lparr>be_run_queue := q\<rparr>) k)"
  using assms by (auto simp: kernel_ran_def exec_ran_def timer_items_def)

definition pop_and_run ::
  "('q, 'r, 't, 'v, 'a) kernel_libs \<Rightarrow> ('f, 's) task_poll \<Rightarrow> nat \<Rightarrow> ('q, 't, 'v, 'a, 'f, 's) kernel \<Rightarrow> nat \<Rightarrow>
     ('q, 't, 'v, 'a, 'f, 's) kernel outcome" where
  "pop_and_run L poll e k t =
     with_exec e (\<lambda>x. BaseExecutor_run_task L poll e t
       (set_exec e (x\<lparr>be_run_queue := snd (Deque_pop_front (lib_run L) (be_run_queue x))\<rparr>) k)) k"

definition run_in_order ::
  "('q, 'r, 't, 'v, 'a) kernel_libs \<Rightarrow> ('f, 's) task_poll \<Rightarrow> nat \<Rightarrow> nat list \<Rightarrow> ('q, 't, 'v, 'a, 'f, 's) kernel \<Rightarrow>
     ('q, 't, 'v, 'a, 'f, 's) kernel outcome" where
  "run_in_order L poll e ts k = each_out (pop_and_run L poll e) ts k"

context kernel_laws
begin

lemma advance_step:
  fixes k :: "('q, 't, 'v, 'a, 'f, 's) kernel"
  assumes inv: "kernel_inv L A k" and p: "poll_ok poll (dom (k_tasks k))"
    and x: "k_execs k e = Some x" and ts: "run_items A x = t # ts"
  obtains k1 x1 ys where "pop_and_run L poll e k t = Ret k1"
    "\<And>fuel. BaseExecutor_advance_runnable_tasks (Suc fuel) L poll e k =
       BaseExecutor_advance_runnable_tasks fuel L poll e k1"
    "kernel_inv L A k1" "kernel_ran A e k k1" "k_execs k1 e = Some x1" "run_items A x1 = ts @ ys"
proof -
  obtain q where q:
    "Deque_pop_front (lib_run L) (be_run_queue x) = (Some t, q)"
    "kernel_inv L A (set_exec e (x\<lparr>be_run_queue := q\<rparr>) k)" "rq_items A q = ts" "t \<in> dom (k_tasks k)"
    by (rule pop_run_queue [OF inv x]) (use ts in auto)
  let ?k = "set_exec e (x\<lparr>be_run_queue := q\<rparr>) k"
  have "poll_ok poll (dom (k_tasks ?k))" "t \<in> dom (k_tasks ?k)" "e \<in> dom (k_execs ?k)"
    using p q(4) by auto
  from run_task_ok [OF q(2) this] obtain k1 where
    k1: "BaseExecutor_run_task L poll e t ?k = Ret k1" "kernel_inv L A k1" "kernel_grows A e ?k k1" .
  from kernel_growsD [OF k1(3), of e] obtain x1 ys where
    "k_execs k1 e = Some x1" "run_items A x1 = ts @ ys" using q(3)
    by (auto simp: exec_grows_def run_items_def)
  moreover have "kernel_ran A e k k1"
    using kernel_ran_trans [OF kernel_ran_pop [OF x] kernel_grows_ran [OF k1(3)]] .
  ultimately show ?thesis using k1 q(1) x
    by (intro that [of k1 x1 ys]) (auto simp: pop_and_run_def with_exec_def)
qed

lemma advance_in_order:
  fixes k :: "('q, 't, 'v, 'a, 'f, 's) kernel"
  assumes "kernel_inv L A k" "poll_ok poll (dom (k_tasks k))" "k_execs k e = Some x" "run_items A x = ts @ rest"
  shows "\<exists>k' x' ys. run_in_order L poll e ts k = Ret k' \<and> kernel_inv L A k' \<and> kernel_ran A e k k' \<and>
    k_execs k' e = Some x' \<and> run_items A x' = rest @ ys \<and>
    (\<forall>fuel. BaseExecutor_advance_runnable_tasks (length ts + fuel) L poll e k =
       BaseExecutor_advance_runnable_tasks fuel L poll e k')"
  using assms
proof (induction ts arbitrary: k x rest)
  case Nil
  then show ?case by (auto simp: run_in_order_def kernel_ran_refl)
next
  case (Cons t ts)
  from Cons.prems(4) have "run_items A x = t # (ts @ rest)" by simp
  from advance_step [OF Cons.prems(1,2,3) this] obtain k1 x1 ys where
    k1: "pop_and_run L poll e k t = Ret k1"
    "\<And>fuel. BaseExecutor_advance_runnable_tasks (Suc fuel) L poll e k =
       BaseExecutor_advance_runnable_tasks fuel L poll e k1"
    "kernel_inv L A k1" "kernel_ran A e k k1" "k_execs k1 e = Some x1" "run_items A x1 = (ts @ rest) @ ys"
    by blast
  have "poll_ok poll (dom (k_tasks k1))" "run_items A x1 = ts @ (rest @ ys)"
    using Cons.prems(2) k1(4,6) by (simp_all add: kernel_ran_def)
  from Cons.IH [OF k1(3) this(1) k1(5) this(2)] obtain k' x' zs where
    k': "run_in_order L poll e ts k1 = Ret k'" "kernel_inv L A k'" "kernel_ran A e k1 k'"
    "k_execs k' e = Some x'" "run_items A x' = (rest @ ys) @ zs"
    "\<And>fuel. BaseExecutor_advance_runnable_tasks (length ts + fuel) L poll e k1 =
       BaseExecutor_advance_runnable_tasks fuel L poll e k'" by blast
  have "run_in_order L poll e (t # ts) k = Ret k'"
    using k1(1) k'(1) by (simp add: run_in_order_def)
  moreover have "kernel_ran A e k k'" using k1(4) k'(3) by (rule kernel_ran_trans)
  moreover have "BaseExecutor_advance_runnable_tasks (length (t # ts) + fuel) L poll e k =
      BaseExecutor_advance_runnable_tasks fuel L poll e k'" for fuel
    by (simp only: list.size add_Suc_right add_Suc add_0_right k1(2) k'(6))
  ultimately show ?case using k'(2,4,5) by (metis append.assoc)
qed

lemma advance_empty:
  assumes inv: "kernel_inv L A k" and x: "k_execs k e = Some x" and "run_items A x = []"
  obtains x' where "BaseExecutor_advance_runnable_tasks (Suc fuel) L poll e k = Some (Ret (set_exec e x' k))"
    "kernel_inv L A (set_exec e x' k)" "kernel_ran A e k (set_exec e x' k)" "run_items A x' = []"
proof -
  obtain q where
    "Deque_pop_front (lib_run L) (be_run_queue x) = (None, q)"
    "kernel_inv L A (set_exec e (x\<lparr>be_run_queue := q\<rparr>) k)" "rq_items A q = []"
    by (rule pop_run_queue [OF inv x]) (use assms(3) in auto)
  with x kernel_ran_pop [OF x, of A q] show ?thesis
    by (intro that [of "x\<lparr>be_run_queue := q\<rparr>"]) (auto simp: run_items_def)
qed

end

section \<open>Termination\<close>

text \<open>
  \<open>mu\<close> is a budget for wakeups in the shared state: a poll never raises it and lowers it when it
  wakes a task.
\<close>

fun is_wake :: "task_effect \<Rightarrow> bool" where
  "is_wake (EffWake _) = True"
| "is_wake (EffSetDeadline _ _) = False"

definition poll_budget :: "('f, 's) task_poll \<Rightarrow> nat set \<Rightarrow> ('s \<Rightarrow> nat) \<Rightarrow> bool" where
  "poll_budget poll D mu \<longleftrightarrow> (\<forall>f t now s. t \<in> D \<longrightarrow>
     (case poll f (RawWaker t VTABLE) \<lparr>tv_now = now, tv_effects = [], tv_shared = s\<rparr> of
        (r, f', v) \<Rightarrow> mu (tv_shared v) \<le> mu s \<and>
          (list_ex is_wake (tv_effects v) \<longrightarrow> mu (tv_shared v) < mu s)))"

lemma deadlines_keep_execs:
  "each_out (apply_effect L) fs k = Ret k' \<Longrightarrow> \<not> list_ex is_wake fs \<Longrightarrow> k_execs k' = k_execs k"
proof (induction fs arbitrary: k)
  case (Cons f fs)
  from Cons.prems obtain k1 where k1: "apply_effect L k f = Ret k1" "each_out (apply_effect L) fs k1 = Ret k'"
    by auto
  have "k_execs k1 = k_execs k"
    using k1(1) Cons.prems(2) by (cases f) (auto simp: with_header_def split: option.splits)
  with Cons.IH [OF k1(2)] Cons.prems(2) show ?case by simp
qed simp

lemma update_timer_queue_run_items:
  assumes "BaseExecutor_update_timer_queue L e t k = Ret k'" "k_execs k e = Some x"
  shows "\<exists>x'. k_execs k' e = Some x' \<and> be_run_queue x' = be_run_queue x"
    "k_shared k' = k_shared k" "k_tasks k' = k_tasks k"
  using assms by (auto simp: BaseExecutor_update_timer_queue_def with_header_def with_exec_def Let_def
      split: option.splits prod.splits)

lemma budget_step:
  assumes "(m :: nat) < n \<or> m \<le> n \<and> a = b" "a \<le> c" "(c + 1) * n + Suc b < Suc fuel"
  shows "(c + 1) * m + a < fuel"
proof (cases "m < n")
  case True
  then have "(c + 1) * m + (c + 1) \<le> (c + 1) * n"
    by (metis Suc_leI mult_Suc_right mult_le_mono2 add.commute)
  with assms(2,3) show ?thesis by linarith
next
  case False
  with assms(1) have "(c + 1) * m \<le> (c + 1) * n" "a = b" by auto
  with assms(3) show ?thesis by linarith
qed

context kernel_laws
begin

lemma run_task_budget:
  fixes k :: "('q, 't, 'v, 'a, 'f, 's) kernel"
  assumes inv: "kernel_inv L A k" and p: "poll_ok poll (dom (k_tasks k))"
    and b: "poll_budget poll (dom (k_tasks k)) mu" and h: "k_tasks k t = Some h" and x: "k_execs k e = Some x"
    and run: "BaseExecutor_run_task L poll e t k = Ret k'"
  shows "mu (k_shared k') < mu (k_shared k) \<or>
    mu (k_shared k') \<le> mu (k_shared k) \<and> (\<exists>x'. k_execs k' e = Some x' \<and> run_items A x' = run_items A x)"
proof -
  obtain fs k1 where pd: "polled poll t h k = (fs, k1)" by fastforce
  note 1 = polled_ok [OF inv p h pd]
  from apply_effects_ok [OF 1(2,3), of e] obtain k2 where
    k2: "each_out (apply_effect L) fs k1 = Ret k2" "k_shared k2 = k_shared k1" by blast
  have u: "BaseExecutor_update_timer_queue L e t k2 = Ret k'" using run 1(1) k2(1) by simp
  have k1x: "k_execs k1 e = Some x"
    using pd x by (auto simp: polled_def split: prod.splits)
  have mu: "mu (k_shared k1) \<le> mu (k_shared k) \<and> (list_ex is_wake fs \<longrightarrow> mu (k_shared k1) < mu (k_shared k))"
  proof -
    have "t \<in> dom (k_tasks k)" using h by auto
    then have "case poll (th_fut_ref h) (RawWaker t VTABLE)
        \<lparr>tv_now = Kernel_now k, tv_effects = [], tv_shared = k_shared k\<rparr> of
        (r, f', v) \<Rightarrow> mu (tv_shared v) \<le> mu (k_shared k) \<and>
          (list_ex is_wake (tv_effects v) \<longrightarrow> mu (tv_shared v) < mu (k_shared k))"
      using b [unfolded poll_budget_def, THEN spec [of _ "th_fut_ref h"], THEN spec [of _ t],
        THEN spec [of _ "Kernel_now k"], THEN spec [of _ "k_shared k"]] by simp
    with pd show ?thesis by (auto simp: polled_def split: prod.splits)
  qed
  show ?thesis
  proof (cases "list_ex is_wake fs")
    case True
    have "\<exists>x2. k_execs k2 e = Some x2"
      using apply_effects_ok [OF 1(2,3), of e] k2(1) k1x by (auto dest!: kernel_growsD)
    then obtain x2 where "k_execs k2 e = Some x2" ..
    with True mu k2(2) update_timer_queue_run_items(2) [OF u] show ?thesis by simp
  next
    case False
    then have "k_execs k2 e = Some x" using deadlines_keep_execs [OF k2(1)] k1x by simp
    with mu k2(2) update_timer_queue_run_items(1,2) [OF u] show ?thesis by (auto simp: run_items_def)
  qed
qed

lemma run_items_le: "kernel_inv L A k \<Longrightarrow> k_execs k e = Some x \<Longrightarrow> length (run_items A x) \<le> MAX_TASKS"
  using rq.bounded by (auto simp: kernel_inv_def exec_ok_def run_items_def)

lemma advance_terminates:
  fixes k :: "('q, 't, 'v, 'a, 'f, 's) kernel"
  assumes "kernel_inv L A k" "poll_ok poll (dom (k_tasks k))" "poll_budget poll (dom (k_tasks k)) mu"
    and "k_execs k e = Some x" "(MAX_TASKS + 1) * mu (k_shared k) + length (run_items A x) < fuel"
  shows "\<exists>k' x'. BaseExecutor_advance_runnable_tasks fuel L poll e k = Some (Ret k') \<and> kernel_inv L A k' \<and>
    kernel_ran A e k k' \<and> k_execs k' e = Some x' \<and> run_items A x' = []"
  using assms
proof (induction fuel arbitrary: k x)
  case (Suc fuel)
  show ?case
  proof (cases "run_items A x")
    case Nil
    from advance_empty [OF Suc.prems(1,4) Nil] obtain x' where
      "BaseExecutor_advance_runnable_tasks (Suc fuel) L poll e k = Some (Ret (set_exec e x' k))"
      "kernel_inv L A (set_exec e x' k)" "kernel_ran A e k (set_exec e x' k)" "run_items A x' = []" .
    then show ?thesis by auto
  next
    case (Cons t ts)
    from advance_step [OF Suc.prems(1,2,4) Cons] obtain k1 x1 ys where
      k1: "pop_and_run L poll e k t = Ret k1"
      "\<And>fuel. BaseExecutor_advance_runnable_tasks (Suc fuel) L poll e k =
         BaseExecutor_advance_runnable_tasks fuel L poll e k1"
      "kernel_inv L A k1" "kernel_ran A e k k1" "k_execs k1 e = Some x1" "run_items A x1 = ts @ ys" by blast
    obtain q where q: "Deque_pop_front (lib_run L) (be_run_queue x) = (Some t, q)"
      "kernel_inv L A (set_exec e (x\<lparr>be_run_queue := q\<rparr>) k)" "rq_items A q = ts" "t \<in> dom (k_tasks k)"
      by (rule pop_run_queue [OF Suc.prems(1,4)]) (use Cons in auto)
    let ?k = "set_exec e (x\<lparr>be_run_queue := q\<rparr>) k"
    from q(4) obtain h where h: "k_tasks ?k t = Some h" by auto
    have run: "BaseExecutor_run_task L poll e t ?k = Ret k1"
      using k1(1) Suc.prems(4) q(1) by (simp add: pop_and_run_def with_exec_def)
    have "mu (k_shared k1) < mu (k_shared k) \<or>
        mu (k_shared k1) \<le> mu (k_shared k) \<and> length (run_items A x1) = length ts"
      using run_task_budget [OF q(2) _ _ h _ run, of mu "x\<lparr>be_run_queue := q\<rparr>"] Suc.prems(2,3) k1(5) q(3)
      by (auto simp: run_items_def)
    from budget_step [OF this run_items_le [OF k1(3,5)]]
    have lt: "(MAX_TASKS + 1) * mu (k_shared k1) + length (run_items A x1) < fuel"
      using Suc.prems(5) Cons by simp
    have "poll_ok poll (dom (k_tasks k1))" "poll_budget poll (dom (k_tasks k1)) mu"
      using Suc.prems(2,3) k1(4) by (simp_all add: kernel_ran_def)
    from Suc.IH [OF k1(3) this k1(5) lt] k1(2,4) show ?thesis
      by (metis kernel_ran_trans)
  qed
qed simp

end

section \<open>Properties\<close>

text \<open>
  C19. Queued tasks run in the order of the run queue: when the queue of an executor starts with \<open>ts\<close>,
  the loop polls exactly the tasks \<open>ts\<close>, in this order, before anything else, whatever their polls
  wake; what they wake on the same executor is behind the rest of the queue, and the other
  executors' queues only grow at their ends.
\<close>

theorem tasks_run_in_order:
  fixes k :: "('q, 't, 'v, 'a, 'f, 's) kernel"
  assumes "kernel_laws L A" "kernel_inv L A k" "poll_ok poll (dom (k_tasks k))"
    and "k_execs k e = Some x" "run_items A x = ts @ rest"
  shows "\<exists>k' x' ys. run_in_order L poll e ts k = Ret k' \<and> kernel_inv L A k' \<and> kernel_ran A e k k' \<and>
    k_execs k' e = Some x' \<and> run_items A x' = rest @ ys \<and>
    (\<forall>fuel. BaseExecutor_advance_runnable_tasks (length ts + fuel) L poll e k =
       BaseExecutor_advance_runnable_tasks fuel L poll e k')"
  using assms by (rule kernel_laws.advance_in_order)

definition waking_poll :: "nat \<Rightarrow> (unit, nat) task_poll" where
  "waking_poll t f cx v =
     (Pending, f, if tv_shared v = 0 then v
        else v\<lparr>tv_shared := tv_shared v - 1, tv_effects := tv_effects v @ [EffWake (RawWaker t VTABLE)]\<rparr>)"

lemma waking_poll_ok: "t \<in> D \<Longrightarrow> poll_ok (waking_poll t) D" "poll_budget (waking_poll t) D (\<lambda>s. s)"
  by (simp_all add: poll_ok_def poll_budget_def waking_poll_def)

theorem tasks_run_in_order_witness:
  "\<exists>k' x' ys. run_in_order list_libs (waking_poll 100) 0 [100] (demo_kernel [100, 200] [] [] 0 3) = Ret k' \<and>
     k_execs k' 0 = Some x' \<and> run_items list_abs x' = [200] @ ys"
proof -
  let ?k = "demo_kernel [100, 200] [] [] 0 (3 :: nat)"
  have "kernel_inv list_libs list_abs ?k" by (rule demo_kernel_inv) (simp_all add: MAX_TASKS_def)
  from tasks_run_in_order [OF list_kernel_laws this, of "waking_poll 100" 0 "demo_executor [100, 200] []" "[100]" "[200]"]
  show ?thesis using waking_poll_ok(1) [of 100 "{100, 200}"] by auto
qed

text \<open>
  C20. The executor loop returns when wakeups are bounded: if the polls draw on a budget in the shared
  state (a poll that wakes a task lowers it, no poll raises it), \<open>advance_runnable_tasks\<close> returns
  with an empty run queue, given fuel above 33 times the budget plus the length of the queue, and
  keeps the kernel well-formed, all timers and the alarms.
\<close>

theorem advance_returns:
  fixes k :: "('q, 't, 'v, 'a, 'f, 's) kernel"
  assumes "kernel_laws L A" "kernel_inv L A k" "poll_ok poll (dom (k_tasks k))"
    and "poll_budget poll (dom (k_tasks k)) mu" "k_execs k e = Some x"
    and "(MAX_TASKS + 1) * mu (k_shared k) + length (run_items A x) < fuel"
  shows "\<exists>k' x'. BaseExecutor_advance_runnable_tasks fuel L poll e k = Some (Ret k') \<and> kernel_inv L A k' \<and>
    kernel_ran A e k k' \<and> k_execs k' e = Some x' \<and> run_items A x' = []"
  using assms by (rule kernel_laws.advance_terminates)

theorem advance_returns_witness:
  "\<exists>k' x'. BaseExecutor_advance_runnable_tasks 200 list_libs (waking_poll 100) 0
      (demo_kernel [100, 200] [] [] 0 3) = Some (Ret k') \<and>
     k_execs k' 0 = Some x' \<and> run_items list_abs x' = []"
proof -
  let ?k = "demo_kernel [100, 200] [] [] 0 (3 :: nat)"
  have "kernel_inv list_libs list_abs ?k" by (rule demo_kernel_inv) (simp_all add: MAX_TASKS_def)
  moreover have "poll_ok (waking_poll 100) (dom (k_tasks ?k))"
    "poll_budget (waking_poll 100) (dom (k_tasks ?k)) (\<lambda>s. s)"
    using waking_poll_ok [of 100 "{100, 200}"] by simp_all
  moreover have "(MAX_TASKS + 1) * k_shared ?k + length (run_items list_abs (demo_executor [100, 200] [])) < 200"
    by (simp add: MAX_TASKS_def)
  ultimately show ?thesis
    using advance_returns [OF list_kernel_laws, of ?k "waking_poll 100" "\<lambda>s. s" 0 "demo_executor [100, 200] []" 200]
    by (auto simp del: BaseExecutor_advance_runnable_tasks.simps)
qed

section \<open>Tasks that only yield\<close>

text \<open>One poll of a task \<open>loop { Kernel::yields().await }\<close>.\<close>

definition yield_loop_poll :: "(yielder, 's) task_poll" where
  "yield_loop_poll y cx v =
     (case Yielder_poll y cx v of
        (Ready _, _, v) \<Rightarrow> Yielder_poll Yielder_new cx v
      | (Pending, y, v) \<Rightarrow> (Pending, y, v))"

lemma yield_loop_poll_eq:
  "yield_loop_poll y cx v = (Pending, \<lparr>y_yielded = True\<rparr>, v\<lparr>tv_effects := tv_effects v @ [EffWake cx]\<rparr>)"
  by (cases y) (simp add: yield_loop_poll_def Yielder_poll_def Yielder_new_def)

lemma yield_loop_poll_ok: "poll_ok yield_loop_poll D"
  by (simp add: poll_ok_def yield_loop_poll_eq)

context kernel_laws
begin

lemma yield_run_task:
  fixes k :: "('q, 't, 'v, 'a, yielder, 's) kernel"
  assumes inv: "kernel_inv L A k" and h: "k_tasks k t = Some h" and e: "th_executor h = e"
    and x: "k_execs k e = Some x" and room: "length (run_items A x) < MAX_TASKS"
    and run: "BaseExecutor_run_task L yield_loop_poll e t k = Ret k'"
  shows "(\<exists>x'. k_execs k' e = Some x' \<and> run_items A x' = run_items A x @ [t]) \<and>
    (\<forall>t. map_option th_executor (k_tasks k' t) = map_option th_executor (k_tasks k t))"
proof -
  let ?h = "h\<lparr>th_expires_at := None, th_fut_ref := \<lparr>y_yielded = True\<rparr>\<rparr>"
  let ?k1 = "set_header t ?h k"
  have pd: "polled yield_loop_poll t h k = ([EffWake (RawWaker t VTABLE)], ?k1)"
    by (simp add: polled_def yield_loop_poll_eq)
  note 1 = polled_ok [OF inv yield_loop_poll_ok h pd]
  have "k_execs ?k1 e = Some x" "t \<in> dom (k_tasks ?k1)" using x by simp_all
  from enqueue_cases [OF 1(2) this] obtain q where q: "BaseExecutor_enqueue_and_pend L e t ?k1 =
      Ret (if length (run_items A x) < MAX_TASKS then Some () else None,
           Pender_pend (be_pender x) (set_exec e (x\<lparr>be_run_queue := q\<rparr>) ?k1))"
    "rq_items A q = (if length (run_items A x) < MAX_TASKS then run_items A x @ [t] else run_items A x)" by blast
  let ?k2 = "Pender_pend (be_pender x) (set_exec e (x\<lparr>be_run_queue := q\<rparr>) ?k1)"
  have "each_out (apply_effect L) [EffWake (RawWaker t VTABLE)] ?k1 = Ret ?k2"
    using q(1) e by (simp add: Waker_wake_by_ref_def with_header_def)
  moreover have "BaseExecutor_update_timer_queue L e t ?k2 = Ret ?k2"
    by (simp add: BaseExecutor_update_timer_queue_def with_header_def)
  ultimately have "k' = ?k2" using run 1(1) by simp
  with q(2) room h show ?thesis by (simp add: run_items_def)
qed

lemma yielding_starves:
  fixes k :: "('q, 't, 'v, 'a, yielder, 's) kernel"
  assumes "kernel_inv L A k" "k_execs k e = Some x" "run_items A x \<noteq> []"
    and "\<forall>t \<in> set (run_items A x). map_option th_executor (k_tasks k t) = Some e"
  shows "BaseExecutor_advance_runnable_tasks fuel L yield_loop_poll e k = None"
  using assms
proof (induction fuel arbitrary: k x)
  case (Suc fuel)
  then obtain t ts where ts: "run_items A x = t # ts" by (cases "run_items A x") auto
  from advance_step [OF Suc.prems(1) yield_loop_poll_ok Suc.prems(2) ts] obtain k1 x1 ys where
    k1: "pop_and_run L yield_loop_poll e k t = Ret k1"
    "\<And>fuel. BaseExecutor_advance_runnable_tasks (Suc fuel) L yield_loop_poll e k =
       BaseExecutor_advance_runnable_tasks fuel L yield_loop_poll e k1"
    "kernel_inv L A k1" "k_execs k1 e = Some x1" by blast
  obtain q where q: "Deque_pop_front (lib_run L) (be_run_queue x) = (Some t, q)"
    "kernel_inv L A (set_exec e (x\<lparr>be_run_queue := q\<rparr>) k)" "rq_items A q = ts" "t \<in> dom (k_tasks k)"
    by (rule pop_run_queue [OF Suc.prems(1,2)]) (use ts in auto)
  let ?x = "x\<lparr>be_run_queue := q\<rparr>"
  from Suc.prems(4) ts obtain h where h: "k_tasks (set_exec e ?x k) t = Some h" "th_executor h = e" by auto
  have room: "length (run_items A ?x) < MAX_TASKS"
    using run_items_le [OF Suc.prems(1,2)] ts q(3) by (simp add: run_items_def)
  have x: "k_execs (set_exec e ?x k) e = Some ?x" by simp
  have run: "BaseExecutor_run_task L yield_loop_poll e t (set_exec e ?x k) = Ret k1"
    using k1(1) Suc.prems(2) q(1) by (simp add: pop_and_run_def with_exec_def)
  from yield_run_task [OF q(2) h x room run] k1(4) q(3) have
    x1: "run_items A x1 = ts @ [t]" "\<And>t. map_option th_executor (k_tasks k1 t) = map_option th_executor (k_tasks k t)"
    by (auto simp: run_items_def)
  have "run_items A x1 \<noteq> []" "\<forall>t \<in> set (run_items A x1). map_option th_executor (k_tasks k1 t) = Some e"
    using Suc.prems(4) ts unfolding x1 by auto
  from Suc.IH [OF k1(3,4) this] k1(2) show ?case by simp
qed simp

end

text \<open>
  C37. Tasks that yield in a loop starve the timers of their executor: if every task in the run queue is
  \<open>loop { yields().await }\<close>, the loop of \<open>advance_runnable_tasks\<close> never ends for any number of
  iterations, since a yield puts the task back into the queue the loop empties.  The executor
  then never checks its timer queue again and never renews its alarm.
\<close>

theorem yielding_tasks_starve_timers:
  fixes k :: "('q, 't, 'v, 'a, yielder, 's) kernel"
  assumes "kernel_laws L A" "kernel_inv L A k" "k_execs k e = Some x" "run_items A x \<noteq> []"
    and "\<forall>t \<in> set (run_items A x). map_option th_executor (k_tasks k t) = Some e"
  shows "BaseExecutor_advance_runnable_tasks fuel L yield_loop_poll e k = None"
  using assms by (rule kernel_laws.yielding_starves)

definition demo_yield_kernel ::
  "(nat list, timer_queue_item list, nat option list, alarm_item list, yielder, unit) kernel" where
  "demo_yield_kernel = \<lparr>
     k_tasks = [100 \<mapsto> \<lparr>th_name = [], th_fut_ref = Yielder_new, th_executor = 0, th_expires_at = None\<rparr>],
     k_execs = [0 \<mapsto> demo_executor [100] []], k_alarm_queue = \<lparr>aq_callbacks = [Some 0], aq_queue = []\<rparr>,
     k_ticks = 0, k_local_event = False, k_sw_requests = {}, k_alloc = BumpAllocator_new 0 4096, k_thread_initialised = True, k_shared = ()\<rparr>"

theorem yielding_tasks_starve_timers_witness:
  "BaseExecutor_advance_runnable_tasks 1000 list_libs yield_loop_poll 0 demo_yield_kernel = None"
proof (rule yielding_tasks_starve_timers [OF list_kernel_laws, where x = "demo_executor [100] []"])
  show "kernel_inv list_libs list_abs demo_yield_kernel"
    by (auto simp: kernel_inv_def exec_ok_def demo_yield_kernel_def demo_executor_def list_libs_def list_abs_def
        run_items_def timer_items_def callbacks_of_def list_vec_def AlarmQueue_inv_def AlarmHandle_from_def
        MAX_TASKS_def N_ALARM_HANDLES_def split: if_splits)
qed (simp_all add: demo_yield_kernel_def)

end
