(* ===== verification/Executor_Timers.thy ===== *)
theory Executor_Timers
  imports Executor_Runs
begin

text \<open>
  Timers, alarms and ticks: a task that polls a pending timer gets an entry in its executor's timer
  queue; a run of the executor ends with an alarm no later than its earliest timer; the tick
  interrupt of that alarm pends the executor; and the executor's next run moves the expired
  tasks into its run queue.  \<open>timer_armed\<close> is the invariant that ties the steps together.
\<close>

definition timer_armed ::
  "('q, 'r, 't, 'v, 'a) kernel_libs \<Rightarrow> ('q, 'r, 't, 'v, 'a) kernel_abs \<Rightarrow> nat \<Rightarrow>
     ('q, 't, 'v, 'a, 'f, 's) kernel \<Rightarrow> bool" where
  "timer_armed L A e k \<longleftrightarrow> (\<forall>x. k_execs k e = Some x \<longrightarrow> exec_started L k e x \<and> (pended (be_pender x) k \<or>
     (\<forall>i \<in># timer_items A x. \<exists>a \<in># alarm_items A k.
        Some (ai_handle a) = be_alarm_handle x \<and> ai_expires_at a \<le> ti_expires_at i)))"

definition expired :: "nat \<Rightarrow> timer_queue_item \<Rightarrow> bool" where
  "expired now i \<longleftrightarrow> ti_expires_at i \<le> now"

definition task_of :: "timer_queue_item \<Rightarrow> nat" where
  "task_of i = waker_data (ti_waker i)"

section \<open>Checking the timer queue\<close>

context kernel_laws
begin

lemma push_ready_all:
  assumes "rv_inv A v" "\<forall>i \<in> set items. waker_vtable (ti_waker i) = VTABLE"
  shows "if length (Vec_as_slice (lib_ready L) v) + length items \<le> MAX_TASKS
    then \<exists>v'. each_out (push_ready L) items v = Ret v' \<and> rv_inv A v' \<and>
      Vec_as_slice (lib_ready L) v' = Vec_as_slice (lib_ready L) v @ map task_of items
    else each_out (push_ready L) items v = Panic UnwrapFailed"
  using assms
proof (induction items arbitrary: v)
  case Nil
  then show ?case using rv.bounded by auto
next
  case (Cons i items)
  have ref: "TimerQueueItem_get_task_ref i = Ret (task_of i)"
    using Cons.prems(2) by (cases "ti_waker i") (auto simp: TimerQueueItem_get_task_ref_def task_of_def)
  from Cons.prems(1) show ?case
  proof (cases rule: rv.push_cases [where x = "task_of i"])
    case (ok v1)
    then have "push_ready L v i = Ret v1" by (simp add: push_ready_def ref)
    with Cons.IH [OF ok(3)] Cons.prems(2) ok(4) show ?thesis by (auto split: if_splits)
  next
    case (full v1)
    then have "push_ready L v i = Panic UnwrapFailed" by (simp add: push_ready_def ref)
    with full show ?thesis by simp
  qed
qed

lemma push_back_all:
  assumes "rq_inv A q"
  shows "if length (rq_items A q) + length ts \<le> MAX_TASKS
    then \<exists>q'. each_out (push_back_unwrap L) ts q = Ret q' \<and> rq_inv A q' \<and> rq_items A q' = rq_items A q @ ts
    else each_out (push_back_unwrap L) ts q = Panic UnwrapFailed"
  using assms
proof (induction ts arbitrary: q)
  case Nil
  then show ?case using rq.bounded by auto
next
  case (Cons t ts)
  from Cons.prems show ?case
  proof (cases rule: rq.push_back_cases [where x = t])
    case (ok q1)
    then have "push_back_unwrap L q t = Ret q1" by (simp add: push_back_unwrap_def)
    with Cons.IH [OF ok(3)] ok(4) show ?thesis by (auto split: if_splits)
  next
    case (full q1)
    then have "push_back_unwrap L q t = Panic UnwrapFailed" by (simp add: push_back_unwrap_def)
    with full show ?thesis by simp
  qed
qed

lemma split_expired:
  assumes "mset items + rest = ms" "\<forall>i \<in> set items. expired now i" "\<forall>i \<in># rest. \<not> expired now i"
  shows "mset items = filter_mset (expired now) ms" "rest = filter_mset (\<lambda>i. \<not> expired now i) ms"
proof -
  have "filter_mset (expired now) (mset items) = mset items" "filter_mset (expired now) rest = {#}"
    "filter_mset (\<lambda>i. \<not> expired now i) (mset items) = {#}" "filter_mset (\<lambda>i. \<not> expired now i) rest = rest"
    using assms(2,3) by (auto simp: filter_mset_eq_conv)
  then show "mset items = filter_mset (expired now) ms" "rest = filter_mset (\<lambda>i. \<not> expired now i) ms"
    by (simp_all flip: assms(1))
qed

lemma check_timer_queue_cases:
  fixes k :: "('q, 't, 'v, 'a, 'f, 's) kernel"
  assumes inv: "kernel_inv L A k" and x: "k_execs k e = Some x" and fuel: "N_TIMERS < fuel"
  obtains (fits) items x' where
      "length (run_items A x) + length items \<le> MAX_TASKS"
      "mset items = filter_mset (expired (Kernel_now k)) (timer_items A x)"
      "sorted_wrt TimerQueueItem_le items"
      "BaseExecutor_check_timer_queue fuel L e k = Some (Ret (set_exec e x' k))"
      "kernel_inv L A (set_exec e x' k)" "run_items A x' = run_items A x @ map task_of items"
      "timer_items A x' = filter_mset (\<lambda>i. \<not> expired (Kernel_now k) i) (timer_items A x)"
      "be_alarm_handle x' = be_alarm_handle x" "be_pender x' = be_pender x"
    | (overflow) "MAX_TASKS < length (run_items A x) + size (filter_mset (expired (Kernel_now k)) (timer_items A x))"
      "BaseExecutor_check_timer_queue fuel L e k = Some (Panic UnwrapFailed)"
proof -
  let ?now = "Kernel_now k"
  have ok: "exec_ok L A k e x" using inv x by (rule kernel_inv_exec)
  then have tqi: "tq_inv A (tq_queue (be_timer_queue x))" and rqi: "rq_inv A (be_run_queue x)"
    by (simp_all add: exec_ok_def)
  have "size (timer_items A x) < fuel" using tq.bounded [OF tqi] fuel by (simp add: timer_items_def)
  moreover have "0 + size (timer_items A x) \<le> usize_max"
    using tq.bounded [OF tqi] by (simp add: timer_items_def N_TIMERS_def usize_max_def)
  ultimately have "size (tq_elems A (tq_queue (be_timer_queue x))) < fuel"
    "0 + size (tq_elems A (tq_queue (be_timer_queue x))) \<le> usize_max" by (simp_all add: timer_items_def)
  from tq.dequeue_expired [OF tqi this, of ?now "push_ready L" "Vec_new (lib_ready L)"]
  obtain items and tq' :: "'t timer_queue" where d:
    "mset items + tq_elems A (tq_queue tq') = timer_items A x" "tq_inv A (tq_queue tq')"
    "sorted_wrt TimerQueueItem_le items" "\<forall>i \<in> set items. expired ?now i"
    "\<forall>i \<in># tq_elems A (tq_queue tq'). \<not> expired ?now i"
    "TimerQueue_dequeue_expired fuel (lib_timers L) (be_timer_queue x) ?now (push_ready L) (Vec_new (lib_ready L)) 0 =
      Some (bind_out (each_out (push_ready L) items (Vec_new (lib_ready L))) (\<lambda>c'. Ret (length items, tq', c')))"
    by (auto simp: expired_def not_le timer_items_def)
  note sp = split_expired [OF d(1,4,5)]
  have sub: "i \<in># timer_items A x" if "i \<in> set items" for i
    using that by (simp flip: d(1))
  have vt: "\<forall>i \<in> set items. waker_vtable (ti_waker i) = VTABLE"
    using ok sub by (auto simp: exec_ok_def timer_item_ok_def)
  have sz: "size (filter_mset (expired ?now) (timer_items A x)) = length items" by (simp flip: sp(1))
  note pr = push_ready_all [OF rv.new(1) vt]
  note pb = push_back_all [OF rqi, of "map task_of items"]
  show ?thesis
  proof (cases "length (run_items A x) + length items \<le> MAX_TASKS")
    case True
    with pr obtain v where v: "each_out (push_ready L) items (Vec_new (lib_ready L)) = Ret v"
      "Vec_as_slice (lib_ready L) v = map task_of items" by auto
    from pb True obtain q where q: "each_out (push_back_unwrap L) (map task_of items) (be_run_queue x) = Ret q"
      "rq_inv A q" "rq_items A q = run_items A x @ map task_of items" by (auto simp: run_items_def)
    let ?x = "x\<lparr>be_timer_queue := tq', be_run_queue := q\<rparr>"
    have chk: "BaseExecutor_check_timer_queue fuel L e k = Some (Ret (set_exec e ?x k))"
      using x d(6) v q(1) by (simp add: BaseExecutor_check_timer_queue_def)
    have "task_of i \<in> dom (k_tasks k)" if "i \<in> set items" for i
      using ok sub [OF that] by (auto simp: exec_ok_def timer_item_ok_def task_of_def)
    moreover have "timer_item_ok (k_tasks k) i" if "i \<in># tq_elems A (tq_queue tq')" for i
    proof -
      have "i \<in># timer_items A x" using that by (simp flip: d(1))
      then show ?thesis using ok by (simp add: exec_ok_def)
    qed
    ultimately have "exec_ok L A k e ?x"
      using ok d(2) q(2,3) unfolding exec_ok_def run_items_def timer_items_def by auto
    then have "kernel_inv L A (set_exec e ?x k)" by (rule kernel_inv_set_exec [OF inv x]) simp
    with True sp d(3) chk q(3) show ?thesis
      by (intro fits [of items ?x]) (simp_all add: run_items_def timer_items_def)
  next
    case False
    have "BaseExecutor_check_timer_queue fuel L e k = Some (Panic UnwrapFailed)"
    proof (cases "length items \<le> MAX_TASKS")
      case True
      with pr obtain v where "each_out (push_ready L) items (Vec_new (lib_ready L)) = Ret v"
        "Vec_as_slice (lib_ready L) v = map task_of items" by auto
      with pb False x d(6) show ?thesis by (simp add: BaseExecutor_check_timer_queue_def run_items_def)
    next
      case over: False
      with pr x d(6) show ?thesis by (simp add: BaseExecutor_check_timer_queue_def)
    qed
    with False sz show ?thesis by (intro overflow) simp_all
  qed
qed

end

section \<open>Renewing the alarm\<close>

lemma kernel_inv_set_alarms:
  assumes inv: "kernel_inv L A k"
    and q: "AlarmQueue_inv (lib_callbacks L) (cb_inv A) (al_inv A) (al_elems A) q"
    and cb: "aq_callbacks q = aq_callbacks (k_alarm_queue k)"
  shows "kernel_inv L A (k\<lparr>k_alarm_queue := q\<rparr>)"
  by (rule kernel_inv_cong [OF inv]) (use q cb kernel_inv_task [OF inv] in auto)

context kernel_laws
begin

lemma renew_alarm_ok:
  fixes k :: "('q, 't, 'v, 'a, 'f, 's) kernel"
  assumes inv: "kernel_inv L A k" and x: "k_execs k e = Some x" and st: "exec_started L k e x"
    and room: "size (alarm_items A k) < N_ALARM_ITEMS"
  obtains q where "BaseExecutor_renew_alarm L e k = Ret (k\<lparr>k_alarm_queue := q\<rparr>)"
    "kernel_inv L A (k\<lparr>k_alarm_queue := q\<rparr>)"
    "alarm_items A k \<subseteq># alarm_items A (k\<lparr>k_alarm_queue := q\<rparr>)"
    "size (alarm_items A (k\<lparr>k_alarm_queue := q\<rparr>)) \<le> Suc (size (alarm_items A k))"
    "\<forall>i \<in># timer_items A x. \<exists>a \<in># alarm_items A (k\<lparr>k_alarm_queue := q\<rparr>).
       Some (ai_handle a) = be_alarm_handle x \<and> ai_expires_at a \<le> ti_expires_at i"
proof -
  have ok: "exec_ok L A k e x" using inv x by (rule kernel_inv_exec)
  then have tqi: "tq_inv A (tq_queue (be_timer_queue x))" by (simp add: exec_ok_def)
  from ok st obtain h where h: "be_alarm_handle x = Some h" "unat (ah_id h) < length (callbacks_of L k)"
    unfolding exec_ok_def exec_started_def by blast
  from inv have aqi: "AlarmQueue_inv (lib_callbacks L) (cb_inv A) (al_inv A) (al_elems A) (k_alarm_queue k)"
    by (simp add: kernel_inv_def)
  show ?thesis
  proof (cases "TimerQueue_next_expiration (lib_timers L) (be_timer_queue x)")
    case None
    then have "timer_items A x = {#}" using tq.next_expiration_None [OF tqi] by (simp add: timer_items_def)
    with None x inv show ?thesis
      by (intro that [of "k_alarm_queue k"]) (simp_all add: BaseExecutor_renew_alarm_def with_exec_def)
  next
    case (Some d)
    from aqi h(2) [unfolded callbacks_of_def] obtain q where q:
      "AlarmQueue_set_alarm (lib_alarms L) (k_alarm_queue k) h d = (Some (), q)"
      "AlarmQueue_inv (lib_callbacks L) (cb_inv A) (al_inv A) (al_elems A) q"
      "aq_callbacks q = aq_callbacks (k_alarm_queue k)"
      "al_elems A (aq_queue q) = add_mset \<lparr>ai_expires_at = d, ai_handle = h\<rparr> (al_elems A (aq_queue (k_alarm_queue k)))"
      using room by (cases rule: aq.set_alarm_cases [where e = d]) (auto simp: alarm_items_def)
    have "BaseExecutor_renew_alarm L e k = Ret (k\<lparr>k_alarm_queue := q\<rparr>)"
      using Some x h(1) q(1)
      by (simp add: BaseExecutor_renew_alarm_def BaseExecutor_set_alarm_def Kernel_set_alarm_def with_exec_def)
    moreover have "\<forall>i \<in># timer_items A x. d \<le> ti_expires_at i"
      using tq.next_expiration_Some [OF tqi Some] by (simp add: timer_items_def)
    ultimately show ?thesis using kernel_inv_set_alarms [OF inv q(2,3)] q(4) h(1)
      by (intro that [of q]) (auto simp: alarm_items_def)
  qed
qed

lemma exec_once_ok:
  fixes k :: "('q, 't, 'v, 'a, 'f, 's) kernel"
  assumes inv: "kernel_inv L A k" and p: "poll_ok poll (dom (k_tasks k))" "poll_budget poll (dom (k_tasks k)) mu"
    and x: "k_execs k e = Some x" and st: "exec_started L k e x"
    and fits: "length (run_items A x) + size (filter_mset (expired (Kernel_now k)) (timer_items A x)) \<le> MAX_TASKS"
    and room: "size (alarm_items A k) < N_ALARM_ITEMS"
    and fuel: "N_TIMERS < fuel" "(MAX_TASKS + 1) * mu (k_shared k) + MAX_TASKS < fuel"
  shows "\<exists>k' x'. BaseExecutor_exec_once fuel L poll e k = Some (Ret k') \<and> kernel_inv L A k' \<and>
    k_execs k' e = Some x' \<and> run_items A x' = [] \<and> k_ticks k' = k_ticks k \<and>
    alarm_items A k \<subseteq># alarm_items A k' \<and>
    filter_mset (\<lambda>i. \<not> expired (Kernel_now k) i) (timer_items A x) \<subseteq># timer_items A x' \<and>
    be_alarm_handle x' = be_alarm_handle x \<and> be_pender x' = be_pender x \<and>
    (\<forall>i \<in># timer_items A x'. \<exists>a \<in># alarm_items A k'.
       Some (ai_handle a) = be_alarm_handle x' \<and> ai_expires_at a \<le> ti_expires_at i)"
  using inv x fuel(1)
proof (cases rule: check_timer_queue_cases)
  case (fits items x1)
  let ?k1 = "set_exec e x1 k"
  have x1: "k_execs ?k1 e = Some x1" by simp
  have p1: "poll_ok poll (dom (k_tasks ?k1))" "poll_budget poll (dom (k_tasks ?k1)) mu" using p by simp_all
  have "(MAX_TASKS + 1) * mu (k_shared ?k1) + length (run_items A x1) < fuel"
    using fits(1,6) fuel(2) by simp
  from advance_terminates [OF fits(5) p1 x1 this] obtain k2 x2 where
    k2: "BaseExecutor_advance_runnable_tasks fuel L poll e ?k1 = Some (Ret k2)" "kernel_inv L A k2"
    "kernel_ran A e ?k1 k2" "k_execs k2 e = Some x2" "run_items A x2 = []" by blast
  have aq: "k_alarm_queue k2 = k_alarm_queue k" "k_ticks k2 = k_ticks k"
    using k2(3) by (simp_all add: kernel_ran_def)
  have ran: "exec_ran A True x1 x2" using kernel_ranD [OF k2(3) x1] k2(4) by simp
  have room2: "size (alarm_items A k2) < N_ALARM_ITEMS" using room aq by (simp add: alarm_items_def)
  have "exec_started L k2 e x2"
    using st ran fits(8) aq(1) by (simp add: exec_started_def exec_ran_def callbacks_of_def)
  from renew_alarm_ok [OF k2(2,4) this room2] obtain q where
    q: "BaseExecutor_renew_alarm L e k2 = Ret (k2\<lparr>k_alarm_queue := q\<rparr>)"
    "kernel_inv L A (k2\<lparr>k_alarm_queue := q\<rparr>)"
    "alarm_items A k2 \<subseteq># alarm_items A (k2\<lparr>k_alarm_queue := q\<rparr>)"
    "\<forall>i \<in># timer_items A x2. \<exists>a \<in># alarm_items A (k2\<lparr>k_alarm_queue := q\<rparr>).
       Some (ai_handle a) = be_alarm_handle x2 \<and> ai_expires_at a \<le> ti_expires_at i" by blast
  have ex: "BaseExecutor_exec_once fuel L poll e k = Some (Ret (k2\<lparr>k_alarm_queue := q\<rparr>))"
    using fits(4) k2(1) q(1) by (simp add: BaseExecutor_exec_once_def)
  have "alarm_items A k2 = alarm_items A k" by (simp add: alarm_items_def aq)
  with ex q k2(4,5) ran fits(7-9) aq(2) show ?thesis
    by (intro exI [of _ "k2\<lparr>k_alarm_queue := q\<rparr>"] exI [of _ x2]) (simp add: exec_ran_def)
next
  case overflow
  with fits show ?thesis by simp
qed

end

section \<open>The tick interrupt\<close>

definition only_pends ::
  "('q, 't, 'v, 'a, 'f, 's) kernel \<Rightarrow> ('q, 't, 'v, 'a, 'f, 's) kernel \<Rightarrow> bool" where
  "only_pends k k' \<longleftrightarrow> k_tasks k' = k_tasks k \<and> k_execs k' = k_execs k \<and> k_alarm_queue k' = k_alarm_queue k \<and>
     k_ticks k' = k_ticks k \<and> (\<forall>p. pended p k \<longrightarrow> pended p k')"

lemma alarm_calls_pend:
  fixes k :: "('q, 't, 'v, 'a, 'f, 's) kernel"
  assumes "\<forall>i \<in> set items. unat (ah_id (ai_handle i)) < length (Vec_as_slice V (aq_callbacks q))"
    and "\<forall>e. Some e \<in> set (Vec_as_slice V (aq_callbacks q)) \<longrightarrow> e \<in> dom (k_execs k)"
  shows "\<exists>k'. each_out (alarm_call V BaseExecutor_alarm_callback q) items k = Ret k' \<and> only_pends k k' \<and>
    (\<forall>i \<in> set items. \<forall>e x. Vec_as_slice V (aq_callbacks q) ! unat (ah_id (ai_handle i)) = Some e \<longrightarrow>
       k_execs k e = Some x \<longrightarrow> pended (be_pender x) k')"
  using assms
proof (induction items arbitrary: k)
  case Nil
  then show ?case by (simp add: only_pends_def)
next
  case (Cons i items)
  let ?cb = "Vec_as_slice V (aq_callbacks q) ! unat (ah_id (ai_handle i))"
  have "\<exists>k1. alarm_call V BaseExecutor_alarm_callback q k i = Ret k1 \<and> only_pends k k1 \<and>
      (\<forall>e x. ?cb = Some e \<longrightarrow> k_execs k e = Some x \<longrightarrow> pended (be_pender x) k1)"
  proof (cases ?cb)
    case None
    then show ?thesis by (simp add: alarm_call_def only_pends_def)
  next
    case (Some e)
    then have "Some e \<in> set (Vec_as_slice V (aq_callbacks q))" using Cons.prems(1) by (metis list.set_intros(1) nth_mem)
    with Cons.prems(2) obtain x where "k_execs k e = Some x" by blast
    with Some show ?thesis
      by (simp add: alarm_call_def BaseExecutor_alarm_callback_def with_exec_def only_pends_def pended_mono)
  qed
  then obtain k1 where k1: "alarm_call V BaseExecutor_alarm_callback q k i = Ret k1" "only_pends k k1"
    "\<forall>e x. ?cb = Some e \<longrightarrow> k_execs k e = Some x \<longrightarrow> pended (be_pender x) k1" by blast
  have ex: "k_execs k1 = k_execs k" using k1(2) by (simp add: only_pends_def)
  from Cons.IH [of k1] Cons.prems obtain k' where
    k': "each_out (alarm_call V BaseExecutor_alarm_callback q) items k1 = Ret k'" "only_pends k1 k'"
    "\<forall>i \<in> set items. \<forall>e x. Vec_as_slice V (aq_callbacks q) ! unat (ah_id (ai_handle i)) = Some e \<longrightarrow>
       k_execs k e = Some x \<longrightarrow> pended (be_pender x) k'" by (auto simp: ex)
  have "only_pends k k'" using k1(2) k'(2) by (simp add: only_pends_def)
  moreover have "\<forall>e x. ?cb = Some e \<longrightarrow> k_execs k e = Some x \<longrightarrow> pended (be_pender x) k'"
    using k1(3) k'(2) by (simp add: only_pends_def)
  ultimately show ?case using k1(1) k'(1,3) by simp
qed

context kernel_laws
begin

lemma timer_interrupt_ok:
  fixes k :: "('q, 't, 'v, 'a, 'f, 's) kernel"
  assumes inv: "kernel_inv L A k" and fuel: "N_ALARM_ITEMS < fuel"
  shows "\<exists>k'. Kernel_on_timer_interrupt fuel L k = Some (Ret k') \<and> kernel_inv L A k' \<and>
    k_ticks k' = k_ticks k + 1 \<and> k_execs k' = k_execs k \<and> k_tasks k' = k_tasks k \<and>
    (\<forall>e. timer_armed L A e k \<longrightarrow> timer_armed L A e k') \<and> (\<forall>p. pended p k \<longrightarrow> pended p k') \<and>
    callbacks_of L k' = callbacks_of L k \<and>
    (\<forall>e x i. timer_armed L A e k \<longrightarrow> k_execs k e = Some x \<longrightarrow> i \<in># timer_items A x \<longrightarrow>
       ti_expires_at i \<le> Kernel_now k \<longrightarrow> pended (be_pender x) k')"
proof -
  let ?k = "k\<lparr>k_ticks := k_ticks k + 1\<rparr>" and ?V = "lib_callbacks L" and ?q = "k_alarm_queue k"
  have aqi: "AlarmQueue_inv ?V (cb_inv A) (al_inv A) (al_elems A) ?q" using inv by (simp add: kernel_inv_def)
  then have bound: "size (al_elems A (aq_queue ?q)) \<le> N_ALARM_ITEMS"
    using aq.al.bounded by (simp add: AlarmQueue_inv_def)
  with fuel have sz: "size (al_elems A (aq_queue ?q)) < fuel" "0 + size (al_elems A (aq_queue ?q)) \<le> usize_max"
    by (simp_all add: N_ALARM_ITEMS_def usize_max_def)
  from aq.call_all_expired [OF aqi sz, of "Kernel_now k"
      "BaseExecutor_alarm_callback :: nat \<Rightarrow> ('q, 't, 'v, 'a, 'f, 's) kernel \<Rightarrow> _"]
  obtain items and q' :: "('v, 'a) alarm_queue" where c:
    "mset items + al_elems A (aq_queue q') = al_elems A (aq_queue ?q)"
    "AlarmQueue_inv ?V (cb_inv A) (al_inv A) (al_elems A) q'" "aq_callbacks q' = aq_callbacks ?q"
    "\<forall>i \<in> set items. ai_expires_at i \<le> Kernel_now k" "\<forall>i \<in># al_elems A (aq_queue q'). Kernel_now k < ai_expires_at i"
    "\<And>s :: ('q, 't, 'v, 'a, 'f, 's) kernel.
      AlarmQueue_call_all_expired fuel ?V (lib_alarms L) BaseExecutor_alarm_callback ?q (Kernel_now k) s 0 =
      Some (bind_out (each_out (alarm_call ?V BaseExecutor_alarm_callback ?q) items s) (\<lambda>s'. Ret (0 + length items, q', s')))"
    by blast
  have h: "\<forall>i \<in> set items. unat (ah_id (ai_handle i)) < length (Vec_as_slice ?V (aq_callbacks ?q))"
    using aqi by (auto simp: AlarmQueue_inv_def simp flip: c(1))
  have e: "\<forall>e. Some e \<in> set (Vec_as_slice ?V (aq_callbacks ?q)) \<longrightarrow> e \<in> dom (k_execs ?k)"
    using inv by (simp add: kernel_inv_def callbacks_of_def)
  from alarm_calls_pend [OF h e] obtain k1 where k1:
    "each_out (alarm_call ?V BaseExecutor_alarm_callback ?q) items ?k = Ret k1" "only_pends ?k k1"
    "\<And>i e x. i \<in> set items \<Longrightarrow> Vec_as_slice ?V (aq_callbacks ?q) ! unat (ah_id (ai_handle i)) = Some e \<Longrightarrow>
       k_execs ?k e = Some x \<Longrightarrow> pended (be_pender x) k1" by blast
  let ?k' = "k1\<lparr>k_alarm_queue := q'\<rparr>"
  have run: "Kernel_on_timer_interrupt fuel L k = Some (Ret ?k')"
    using c(6) [of ?k] k1(1) by (simp add: Kernel_on_timer_interrupt_def Kernel_now_def)
  have fr: "k_execs ?k' = k_execs k" "k_tasks ?k' = k_tasks k" "k_ticks ?k' = k_ticks k + 1"
    using k1(2) by (simp_all add: only_pends_def)
  have pn: "pended p ?k'" if "pended p k1" for p using that by (simp add: pended_def split: pender.splits)
  have pk: "pended p ?k'" if "pended p k" for p
  proof -
    have "pended p ?k" using that by (simp add: pended_def split: pender.splits)
    then show ?thesis using k1(2) pn by (simp add: only_pends_def)
  qed
  have "kernel_inv L A k1"
    using k1(2) by (intro kernel_inv_frame [OF inv]) (simp_all add: only_pends_def)
  then have inv': "kernel_inv L A ?k'"
    by (rule kernel_inv_set_alarms [OF _ c(2)]) (use c(3) k1(2) in \<open>simp add: only_pends_def\<close>)
  have fired: "pended (be_pender x) ?k'"
    if "k_execs k e = Some x" "a \<in> set items" "Some (ai_handle a) = be_alarm_handle x" "exec_started L k e x"
    for e x a
  proof -
    have "callbacks_of L k ! unat (ah_id (ai_handle a)) = Some e"
      using that(3,4) by (auto simp: exec_started_def)
    with k1(3) [OF that(2)] that(1) pn show ?thesis by (simp add: callbacks_of_def)
  qed
  have kept: "pended (be_pender x) ?k' \<or> a \<in># alarm_items A ?k' \<and> Kernel_now k < ai_expires_at a"
    if "k_execs k e = Some x" "a \<in># alarm_items A k" "Some (ai_handle a) = be_alarm_handle x"
      "exec_started L k e x" for e x a
  proof (cases "a \<in> set items")
    case False
    moreover have "a \<in># mset items + al_elems A (aq_queue q')" using that(2) c(1) by (simp add: alarm_items_def)
    ultimately show ?thesis using c(5) by (auto simp: alarm_items_def)
  qed (use fired that in blast)
  have st': "exec_started L ?k' e x" if "exec_started L k e x" for e x
    using that c(3) by (simp add: exec_started_def callbacks_of_def)
  have armed: "timer_armed L A e ?k'" if "timer_armed L A e k" for e
    using that kept pk st' unfolding timer_armed_def fr(1) by blast
  moreover have "pended (be_pender x) ?k'"
    if "timer_armed L A e k" "k_execs k e = Some x" "i \<in># timer_items A x" "ti_expires_at i \<le> Kernel_now k" for e x i
  proof (cases "pended (be_pender x) k")
    case False
    with that(1-3) obtain a where a: "a \<in># alarm_items A k" "Some (ai_handle a) = be_alarm_handle x"
      "ai_expires_at a \<le> ti_expires_at i" "exec_started L k e x" unfolding timer_armed_def by blast
    with kept [OF that(2) a(1,2,4)] that(4) show ?thesis by auto
  qed (rule pk)
  moreover have "callbacks_of L ?k' = callbacks_of L k" using c(3) by (simp add: callbacks_of_def)
  ultimately show ?thesis using run inv' fr pk by blast
qed

end

section \<open>Deadlines\<close>

fun set_deadline :: "nat \<Rightarrow> task_effect \<Rightarrow> nat option \<Rightarrow> nat option" where
  "set_deadline t (EffSetDeadline w d) old = (if waker_data w = t then Some d else old)"
| "set_deadline t (EffWake w) old = old"

definition last_deadline :: "nat \<Rightarrow> task_effect list \<Rightarrow> nat option" where
  "last_deadline t fs = fold (set_deadline t) fs None"

lemma apply_effect_deadline:
  assumes "apply_effect L k f = Ret k'" "k_tasks k t = Some h"
  shows "\<exists>h'. k_tasks k' t = Some h' \<and> th_expires_at h' = set_deadline t f (th_expires_at h)"
proof (cases f)
  case (EffWake w)
  with assms show ?thesis
    by (auto simp: Waker_wake_by_ref_def BaseExecutor_enqueue_and_pend_def with_header_def with_exec_def Let_def
        split: if_splits option.splits prod.splits)
next
  case (EffSetDeadline w d)
  with assms show ?thesis
    by (cases w) (auto simp: with_header_def split: if_splits option.splits)
qed

lemma apply_effects_deadline:
  assumes "each_out (apply_effect L) fs k = Ret k'" "k_tasks k t = Some h"
  shows "\<exists>h'. k_tasks k' t = Some h' \<and> th_expires_at h' = fold (set_deadline t) fs (th_expires_at h)"
  using assms
proof (induction fs arbitrary: k h)
  case (Cons f fs)
  from Cons.prems obtain k1 where k1: "apply_effect L k f = Ret k1" "each_out (apply_effect L) fs k1 = Ret k'"
    by auto
  from apply_effect_deadline [OF k1(1) Cons.prems(2)] obtain h1 where
    "k_tasks k1 t = Some h1" "th_expires_at h1 = set_deadline t f (th_expires_at h)" by blast
  with Cons.IH [OF k1(2)] show ?case by simp
qed simp

context kernel_laws
begin

lemma run_task_deadline:
  fixes k :: "('q, 't, 'v, 'a, 'f, 's) kernel"
  assumes inv: "kernel_inv L A k" and h: "k_tasks k t = Some h" and x: "k_execs k e = Some x"
    and poll: "poll (th_fut_ref h) (RawWaker t VTABLE)
      \<lparr>tv_now = Kernel_now k, tv_effects = [], tv_shared = k_shared k\<rparr> = (Pending, fut, v)"
    and eff: "list_all (effect_ok (dom (k_tasks k))) (tv_effects v)"
  shows "\<exists>k' x'. BaseExecutor_run_task L poll e t k = Ret k' \<and> kernel_inv L A k' \<and> k_execs k' e = Some x' \<and>
    timer_items A x' =
      (case last_deadline t (tv_effects v) of
         Some d \<Rightarrow> if size (timer_items A x) < N_TIMERS
           then add_mset \<lparr>ti_expires_at = d, ti_waker = RawWaker t VTABLE\<rparr> (timer_items A x)
           else timer_items A x
       | None \<Rightarrow> timer_items A x)"
proof -
  let ?poll = "\<lambda>f w u. (Pending :: unit poll, fut, v)"
  have ok: "poll_ok ?poll (dom (k_tasks k))" using eff by (simp add: poll_ok_def)
  have same: "BaseExecutor_run_task L poll e t k = BaseExecutor_run_task L ?poll e t k"
    using h poll by (simp add: BaseExecutor_run_task_def with_header_def)
  let ?k1 = "set_header t (h\<lparr>th_expires_at := None, th_fut_ref := fut\<rparr>) (k\<lparr>k_shared := tv_shared v\<rparr>)"
  have pd: "polled ?poll t h k = (tv_effects v, ?k1)" by (simp add: polled_def)
  note 1 = polled_ok [OF inv ok h pd]
  from apply_effects_ok [OF 1(2,3), of "Suc e"] obtain k2 where
    k2: "each_out (apply_effect L) (tv_effects v) ?k1 = Ret k2" "kernel_inv L A k2" "kernel_grows A (Suc e) ?k1 k2"
    by blast
  have "k_execs ?k1 e = Some x" using x by simp
  from kernel_growsD [OF k2(3) this] obtain x2 where x2: "k_execs k2 e = Some x2"
    "be_timer_queue x2 = be_timer_queue x" by (auto simp: exec_grows_def)
  have tm: "timer_items A x2 = timer_items A x" by (simp add: timer_items_def x2(2))
  from apply_effects_deadline [OF k2(1), of t] obtain h2 where
    h2: "k_tasks k2 t = Some h2" "th_expires_at h2 = last_deadline t (tv_effects v)"
    by (auto simp: last_deadline_def)
  from update_timer_queue_ok [OF k2(2) h2(1) x2(1)] obtain tq where
    tq: "BaseExecutor_update_timer_queue L e t k2 =
      Ret (if th_expires_at h2 = None then k2 else set_exec e (x2\<lparr>be_timer_queue := tq\<rparr>) k2)"
    "kernel_inv L A (set_exec e (x2\<lparr>be_timer_queue := tq\<rparr>) k2)"
    "\<And>d. th_expires_at h2 = Some d \<Longrightarrow> tq_elems A (tq_queue tq) =
       (if size (timer_items A x2) < N_TIMERS
        then add_mset \<lparr>ti_expires_at = d, ti_waker = RawWaker t VTABLE\<rparr> (timer_items A x2)
        else timer_items A x2)" by blast
  have run: "BaseExecutor_run_task L poll e t k =
      Ret (if th_expires_at h2 = None then k2 else set_exec e (x2\<lparr>be_timer_queue := tq\<rparr>) k2)"
    using same 1(1) k2(1) tq(1) by simp
  show ?thesis
  proof (cases "last_deadline t (tv_effects v)")
    case None
    with run h2 k2(2) x2(1) tm show ?thesis by simp
  next
    case (Some d)
    with run h2 tq(2,3) tm show ?thesis
      by (intro exI [of _ "set_exec e (x2\<lparr>be_timer_queue := tq\<rparr>) k2"] exI [of _ "x2\<lparr>be_timer_queue := tq\<rparr>"])
        (simp add: timer_items_def)
  qed
qed

lemma check_timer_queue_ok:
  fixes k :: "('q, 't, 'v, 'a, 'f, 's) kernel"
  assumes "kernel_inv L A k" "k_execs k e = Some x" "N_TIMERS < fuel"
  shows "if length (run_items A x) + size (filter_mset (expired (Kernel_now k)) (timer_items A x)) \<le> MAX_TASKS
    then \<exists>k' x' items. BaseExecutor_check_timer_queue fuel L e k = Some (Ret k') \<and> kernel_inv L A k' \<and>
      k_execs k' e = Some x' \<and> mset items = filter_mset (expired (Kernel_now k)) (timer_items A x) \<and>
      sorted_wrt TimerQueueItem_le items \<and> run_items A x' = run_items A x @ map task_of items \<and>
      timer_items A x' = filter_mset (\<lambda>i. \<not> expired (Kernel_now k) i) (timer_items A x)
    else BaseExecutor_check_timer_queue fuel L e k = Some (Panic UnwrapFailed)"
  using assms
proof (cases rule: check_timer_queue_cases)
  case (fits items x')
  have "size (filter_mset (expired (Kernel_now k)) (timer_items A x)) = length items" by (simp flip: fits(2))
  with fits show ?thesis by (auto intro!: exI [of _ items])
qed auto

lemma wake_ok:
  fixes k :: "('q, 't, 'v, 'a, 'f, 's) kernel"
  assumes inv: "kernel_inv L A k" and h: "k_tasks k t = Some h" and x: "k_execs k (th_executor h) = Some x"
  shows "\<exists>k' x'. Waker_wake_by_ref L (RawWaker t VTABLE) k = Ret k' \<and> kernel_inv L A k' \<and>
    k_execs k' (th_executor h) = Some x' \<and> pended (be_pender x) k' \<and>
    run_items A x' = (if length (run_items A x) < MAX_TASKS then run_items A x @ [t] else run_items A x) \<and>
    (\<forall>e. e \<noteq> th_executor h \<longrightarrow> k_execs k' e = k_execs k e)"
proof -
  have "t \<in> dom (k_tasks k)" using h by auto
  from enqueue_cases [OF inv x this] obtain q where q: "BaseExecutor_enqueue_and_pend L (th_executor h) t k =
      Ret (if length (run_items A x) < MAX_TASKS then Some () else None,
           Pender_pend (be_pender x) (set_exec (th_executor h) (x\<lparr>be_run_queue := q\<rparr>) k))"
    "rq_items A q = (if length (run_items A x) < MAX_TASKS then run_items A x @ [t] else run_items A x)"
    "kernel_inv L A (Pender_pend (be_pender x) (set_exec (th_executor h) (x\<lparr>be_run_queue := q\<rparr>) k))" .
  then show ?thesis using h
    by (intro exI [of _ "Pender_pend (be_pender x) (set_exec (th_executor h) (x\<lparr>be_run_queue := q\<rparr>) k)"]
        exI [of _ "x\<lparr>be_run_queue := q\<rparr>"]) (auto simp: Waker_wake_by_ref_def with_header_def run_items_def)
qed

end

section \<open>Properties\<close>

text \<open>
  Waking a task makes it run: in a well-formed kernel the waker of a task appends the task to the
  run queue of its executor and pends this executor; other executors are unchanged.  With 32 tasks
  queued already the task is not appended, although the executor is pended all the same; a task that is
  queued already is queued once more.
\<close>

theorem wake_enqueues_and_pends:
  fixes k :: "('q, 't, 'v, 'a, 'f, 's) kernel"
  assumes "kernel_laws L A" "kernel_inv L A k" "k_tasks k t = Some h" "k_execs k (th_executor h) = Some x"
  shows "\<exists>k' x'. Waker_wake_by_ref L (RawWaker t VTABLE) k = Ret k' \<and> kernel_inv L A k' \<and>
    k_execs k' (th_executor h) = Some x' \<and> pended (be_pender x) k' \<and>
    run_items A x' = (if length (run_items A x) < MAX_TASKS then run_items A x @ [t] else run_items A x) \<and>
    (\<forall>e. e \<noteq> th_executor h \<longrightarrow> k_execs k' e = k_execs k e)"
  using assms by (rule kernel_laws.wake_ok)

lemma demo_started: "exec_started list_libs (demo_kernel ts tms als now s) 0 (demo_executor ts tms)"
  by (simp add: exec_started_def callbacks_of_def demo_kernel_def demo_executor_def list_libs_def list_vec_def
      AlarmHandle_from_def)

lemma demo_header:
  "t \<in> {100, 200} \<Longrightarrow> k_tasks (demo_kernel ts tms als now s) t =
     Some \<lparr>th_name = [], th_fut_ref = (), th_executor = 0, th_expires_at = None\<rparr>"
  by (auto simp: demo_kernel_def)

theorem wake_enqueues_and_pends_witness:
  "\<exists>k' x'. Waker_wake_by_ref list_libs (RawWaker 100 VTABLE) (demo_kernel [200, 100] [] [] 0 ()) = Ret k' \<and>
     k_execs k' 0 = Some x' \<and> pended ThreadExecutorPender k' \<and> run_items list_abs x' = [200, 100, 100]"
proof -
  let ?k = "demo_kernel [200, 100] [] [] 0 ()"
  have inv: "kernel_inv list_libs list_abs ?k" by (rule demo_kernel_inv) (simp_all add: MAX_TASKS_def)
  have p: "be_pender (demo_executor [200, 100] []) = ThreadExecutorPender" by (simp add: demo_executor_def)
  show ?thesis
    using wake_enqueues_and_pends [OF list_kernel_laws inv demo_header, of 100 "demo_executor [200, 100] []"]
    by (auto simp: MAX_TASKS_def p)
qed

text \<open>
  C21. Expired timers reach the run queue: \<open>check_timer_queue\<close> appends the tasks of exactly the expired
  timers to the run queue, ordered by deadline, and keeps all other timers.  When the run queue and the
  expired timers together exceed 32 tasks it panics (the timer queue holds up to 64 timers).
\<close>

theorem expired_timers_are_queued:
  fixes k :: "('q, 't, 'v, 'a, 'f, 's) kernel"
  assumes "kernel_laws L A" "kernel_inv L A k" "k_execs k e = Some x" "N_TIMERS < fuel"
  shows "if length (run_items A x) + size (filter_mset (expired (Kernel_now k)) (timer_items A x)) \<le> MAX_TASKS
    then \<exists>k' x' items. BaseExecutor_check_timer_queue fuel L e k = Some (Ret k') \<and> kernel_inv L A k' \<and>
      k_execs k' e = Some x' \<and> mset items = filter_mset (expired (Kernel_now k)) (timer_items A x) \<and>
      sorted_wrt TimerQueueItem_le items \<and> run_items A x' = run_items A x @ map task_of items \<and>
      timer_items A x' = filter_mset (\<lambda>i. \<not> expired (Kernel_now k) i) (timer_items A x)
    else BaseExecutor_check_timer_queue fuel L e k = Some (Panic UnwrapFailed)"
  using assms by (rule kernel_laws.check_timer_queue_ok)

theorem expired_timers_are_queued_witness:
  "\<exists>k' x'. BaseExecutor_check_timer_queue 65 list_libs 0
       (demo_kernel [200] [\<lparr>ti_expires_at = 3, ti_waker = RawWaker 100 VTABLE\<rparr>] [] 5 ()) = Some (Ret k') \<and>
     k_execs k' 0 = Some x' \<and> run_items list_abs x' = [200, 100] \<and> timer_items list_abs x' = {#}"
proof -
  let ?i = "\<lparr>ti_expires_at = 3, ti_waker = RawWaker 100 VTABLE\<rparr>"
  let ?k = "demo_kernel [200] [?i] [] 5 ()" and ?x = "demo_executor [200] [?i]"
  have inv: "kernel_inv list_libs list_abs ?k"
    by (rule demo_kernel_inv) (simp_all add: MAX_TASKS_def N_TIMERS_def)
  have f: "filter_mset (expired (Kernel_now ?k)) (timer_items list_abs ?x) = {#?i#}"
    "filter_mset (\<lambda>i. \<not> expired (Kernel_now ?k) i) (timer_items list_abs ?x) = {#}"
    by (simp_all add: expired_def Kernel_now_def)
  have "length (run_items list_abs ?x) + size (filter_mset (expired (Kernel_now ?k)) (timer_items list_abs ?x)) \<le> MAX_TASKS"
    unfolding f by (simp add: MAX_TASKS_def)
  with expired_timers_are_queued [OF list_kernel_laws inv, of 0 ?x 65] obtain k' x' items where
    "BaseExecutor_check_timer_queue 65 list_libs 0 ?k = Some (Ret k')" "k_execs k' 0 = Some x'"
    "mset items = {#?i#}" "run_items list_abs x' = [200] @ map task_of items" "timer_items list_abs x' = {#}"
    unfolding f by (auto simp: N_TIMERS_def)
  moreover then have "items = [?i]" by simp
  ultimately show ?thesis by (auto simp: task_of_def)
qed

text \<open>
  C1. A run of an executor ends with its alarm set: if the expired timers fit the run queue, the polls
  are well-behaved with a budget for wakeups and an alarm slot is free, \<open>exec_once\<close> of a started executor returns with an
  empty run queue, has dropped no unexpired timer, and every timer of the executor has an alarm of
  its handle that fires no later; so the next deadline will wake the executor.
\<close>

theorem exec_once_sets_alarm:
  fixes k :: "('q, 't, 'v, 'a, 'f, 's) kernel"
  assumes "kernel_laws L A" "kernel_inv L A k"
    and "poll_ok poll (dom (k_tasks k))" "poll_budget poll (dom (k_tasks k)) mu" "k_execs k e = Some x"
    and "exec_started L k e x"
    and "length (run_items A x) + size (filter_mset (expired (Kernel_now k)) (timer_items A x)) \<le> MAX_TASKS"
    and "size (alarm_items A k) < N_ALARM_ITEMS"
    and "N_TIMERS < fuel" "(MAX_TASKS + 1) * mu (k_shared k) + MAX_TASKS < fuel"
  shows "\<exists>k' x'. BaseExecutor_exec_once fuel L poll e k = Some (Ret k') \<and> kernel_inv L A k' \<and>
    k_execs k' e = Some x' \<and> run_items A x' = [] \<and> k_ticks k' = k_ticks k \<and>
    alarm_items A k \<subseteq># alarm_items A k' \<and>
    filter_mset (\<lambda>i. \<not> expired (Kernel_now k) i) (timer_items A x) \<subseteq># timer_items A x' \<and>
    be_alarm_handle x' = be_alarm_handle x \<and> be_pender x' = be_pender x \<and>
    (\<forall>i \<in># timer_items A x'. \<exists>a \<in># alarm_items A k'.
       Some (ai_handle a) = be_alarm_handle x' \<and> ai_expires_at a \<le> ti_expires_at i)"
  using assms by (rule kernel_laws.exec_once_ok)

theorem exec_once_sets_alarm_witness:
  "\<exists>k' x'. BaseExecutor_exec_once 200 list_libs (waking_poll 100) 0
       (demo_kernel [100] [\<lparr>ti_expires_at = 9, ti_waker = RawWaker 200 VTABLE\<rparr>] [] 5 3) = Some (Ret k') \<and>
     k_execs k' 0 = Some x' \<and> run_items list_abs x' = [] \<and>
     (\<forall>i \<in># timer_items list_abs x'. \<exists>a \<in># alarm_items list_abs k'.
       Some (ai_handle a) = be_alarm_handle x' \<and> ai_expires_at a \<le> ti_expires_at i)"
proof -
  let ?i = "\<lparr>ti_expires_at = 9, ti_waker = RawWaker 200 VTABLE\<rparr>"
  let ?k = "demo_kernel [100] [?i] [] 5 (3 :: nat)" and ?x = "demo_executor [100] [?i]"
  have inv: "kernel_inv list_libs list_abs ?k"
    by (rule demo_kernel_inv) (simp_all add: MAX_TASKS_def N_TIMERS_def)
  have p: "poll_ok (waking_poll 100) (dom (k_tasks ?k))" "poll_budget (waking_poll 100) (dom (k_tasks ?k)) (\<lambda>s. s)"
    using waking_poll_ok [of 100 "{100, 200}"] by simp_all
  have "length (run_items list_abs ?x) + size (filter_mset (expired (Kernel_now ?k)) (timer_items list_abs ?x)) \<le> MAX_TASKS"
    by (simp add: expired_def Kernel_now_def MAX_TASKS_def)
  moreover have "size (alarm_items list_abs ?k) < N_ALARM_ITEMS" by (simp add: N_ALARM_ITEMS_def)
  moreover have "N_TIMERS < 200" "(MAX_TASKS + 1) * k_shared ?k + MAX_TASKS < 200"
    by (simp_all add: N_TIMERS_def MAX_TASKS_def)
  moreover have "exec_started list_libs ?k 0 ?x" by (rule demo_started)
  ultimately show ?thesis
    using exec_once_sets_alarm [OF list_kernel_laws inv p, of 0 ?x 200] by auto
qed

text \<open>
  C2. A deadline that is reached pends its executor: the tick interrupt always returns (with fuel for
  the 64 alarms), advances the clock by one, leaves executors and tasks alone, keeps every
  executor armed that was (its timers covered by alarms, or the executor pended), and pends every
  armed executor that has a timer whose deadline is reached.
\<close>

theorem tick_pends_due_executors:
  fixes k :: "('q, 't, 'v, 'a, 'f, 's) kernel"
  assumes "kernel_laws L A" "kernel_inv L A k" "N_ALARM_ITEMS < fuel"
  shows "\<exists>k'. Kernel_on_timer_interrupt fuel L k = Some (Ret k') \<and> kernel_inv L A k' \<and>
    k_ticks k' = k_ticks k + 1 \<and> k_execs k' = k_execs k \<and> k_tasks k' = k_tasks k \<and>
    (\<forall>e. timer_armed L A e k \<longrightarrow> timer_armed L A e k') \<and>
    (\<forall>e x i. timer_armed L A e k \<longrightarrow> k_execs k e = Some x \<longrightarrow> i \<in># timer_items A x \<longrightarrow>
       ti_expires_at i \<le> Kernel_now k \<longrightarrow> pended (be_pender x) k')"
  using kernel_laws.timer_interrupt_ok [OF assms(1-3)] by blast

theorem tick_pends_due_executors_witness:
  "\<exists>k'. Kernel_on_timer_interrupt 65 list_libs
       (demo_kernel [] [\<lparr>ti_expires_at = 5, ti_waker = RawWaker 100 VTABLE\<rparr>]
          [\<lparr>ai_expires_at = 5, ai_handle = AlarmHandle_from 0\<rparr>] 5 ()) = Some (Ret k') \<and>
     k_ticks k' = 6 \<and> pended ThreadExecutorPender k'"
proof -
  let ?i = "\<lparr>ti_expires_at = 5, ti_waker = RawWaker 100 VTABLE\<rparr>" and ?a = "\<lparr>ai_expires_at = 5, ai_handle = AlarmHandle_from 0\<rparr>"
  let ?k = "demo_kernel [] [?i] [?a] 5 ()" and ?x = "demo_executor [] [?i]"
  have inv: "kernel_inv list_libs list_abs ?k"
    by (rule demo_kernel_inv) (simp_all add: N_TIMERS_def N_ALARM_ITEMS_def)
  have h: "be_alarm_handle ?x = Some (AlarmHandle_from 0)" by (simp add: demo_executor_def)
  have armed: "timer_armed list_libs list_abs 0 ?k" by (auto simp: timer_armed_def h demo_started)
  have "N_ALARM_ITEMS < 65" by (simp add: N_ALARM_ITEMS_def)
  from tick_pends_due_executors [OF list_kernel_laws inv this] obtain k' where
    k': "Kernel_on_timer_interrupt 65 list_libs ?k = Some (Ret k')" "k_ticks k' = k_ticks ?k + 1"
    "\<forall>e x i. timer_armed list_libs list_abs e ?k \<longrightarrow> k_execs ?k e = Some x \<longrightarrow> i \<in># timer_items list_abs x \<longrightarrow>
       ti_expires_at i \<le> Kernel_now ?k \<longrightarrow> pended (be_pender x) k'" by blast
  have "pended (be_pender ?x) k'"
    using k'(3) [rule_format, OF armed, of ?x ?i] by (simp add: Kernel_now_def)
  with k' show ?thesis by (simp add: demo_executor_def)
qed

text \<open>
  The deadline of a task enters the timer queue: after one poll of a task, the last deadline its
  effects set for it, if any, is in the timer queue of the executor with a waker of the task; without
  one the queue is unchanged.  A full timer queue drops the deadline silently.
\<close>

theorem deadline_enters_timer_queue:
  fixes k :: "('q, 't, 'v, 'a, 'f, 's) kernel"
  assumes "kernel_laws L A" "kernel_inv L A k" "k_tasks k t = Some h" "k_execs k e = Some x"
    and "poll (th_fut_ref h) (RawWaker t VTABLE)
      \<lparr>tv_now = Kernel_now k, tv_effects = [], tv_shared = k_shared k\<rparr> = (Pending, fut, v)"
    and "list_all (effect_ok (dom (k_tasks k))) (tv_effects v)"
  shows "\<exists>k' x'. BaseExecutor_run_task L poll e t k = Ret k' \<and> kernel_inv L A k' \<and> k_execs k' e = Some x' \<and>
    timer_items A x' =
      (case last_deadline t (tv_effects v) of
         Some d \<Rightarrow> if size (timer_items A x) < N_TIMERS
           then add_mset \<lparr>ti_expires_at = d, ti_waker = RawWaker t VTABLE\<rparr> (timer_items A x)
           else timer_items A x
       | None \<Rightarrow> timer_items A x)"
  using assms by (rule kernel_laws.run_task_deadline)

theorem deadline_enters_timer_queue_witness:
  "\<exists>k' x'. BaseExecutor_run_task list_libs
       (\<lambda>f cx v. (Pending, f, v\<lparr>tv_effects := [EffSetDeadline cx 7]\<rparr>)) 0 100 (demo_kernel [] [] [] 0 ()) = Ret k' \<and>
     k_execs k' 0 = Some x' \<and> timer_items list_abs x' = {#\<lparr>ti_expires_at = 7, ti_waker = RawWaker 100 VTABLE\<rparr>#}"
proof -
  let ?k = "demo_kernel [] [] [] 0 ()"
  have inv: "kernel_inv list_libs list_abs ?k" by (rule demo_kernel_inv) simp_all
  show ?thesis
    using deadline_enters_timer_queue [OF list_kernel_laws inv demo_header, of 100 0 "demo_executor [] []"
        "\<lambda>f cx v. (Pending, f, v\<lparr>tv_effects := [EffSetDeadline cx 7]\<rparr>)", OF _ _ refl]
    by (auto simp: last_deadline_def N_TIMERS_def)
qed

end
