(* ===== verification/Kernel.thy ===== *)
theory Kernel
  imports Executor_Timers
begin

text \<open>
  The kernel of \<open>src/src/cpu/cpu0.rs\<close> and the executor list of \<open>src/src/cpu/executor_list.rs\<close>: booting,
  allocating interrupt executors, spawning and starting.  The interrupt executors are kept in a
  \<open>heapless::LinearMap\<close>, a parameter \<open>ins\<close> of the model with the law that inserting replaces the
  value of a key that is present and fails for a new key when the map is full.  A
  \<open>SoftwareInterruptNode\<close> is its priority; its \<open>init\<close> and \<open>enable\<close> act on the device only.
\<close>

definition N_EXECUTORS :: nat where
  "N_EXECUTORS = 4"

definition MEMORY_SIZE :: nat where
  "MEMORY_SIZE = 1024 * 10"

type_synonym ('q, 't) lmap_insert =
  "nat \<Rightarrow> ('q, 't) base_executor \<Rightarrow> (nat \<Rightarrow> ('q, 't) base_executor option) \<Rightarrow>
     bool \<times> (nat \<Rightarrow> ('q, 't) base_executor option)"

locale linear_map =
  fixes ins :: "('q, 't) lmap_insert" and N :: nat
  assumes insert: "finite (dom m) \<Longrightarrow> card (dom m) \<le> N \<Longrightarrow>
    ins p x m = (if p \<in> dom m \<or> card (dom m) < N then (True, m(p \<mapsto> x)) else (False, m))"

definition bounded_insert :: "nat \<Rightarrow> ('q, 't) lmap_insert" where
  "bounded_insert N p x m = (if p \<in> dom m \<or> card (dom m) < N then (True, m(p \<mapsto> x)) else (False, m))"

interpretation bounded_map: linear_map "bounded_insert N" N
  by unfold_locales (simp add: bounded_insert_def)

section \<open>Booting\<close>

text \<open>The statics before \<open>Kernel::init\<close>; the alarm queue and the allocator are not initialised yet.\<close>

definition Kernel_statics ::
  "('q, 'r, 't, 'v, 'a) kernel_libs \<Rightarrow> ('v, 'a) alarm_queue \<Rightarrow> bump \<Rightarrow> 's \<Rightarrow>
     ('q, 't, 'v, 'a, 'f, 's) kernel" where
  "Kernel_statics L q b s = \<lparr>k_tasks = Map.empty,
     k_execs = [0 \<mapsto> BaseExecutor_new L ThreadExecutorPender None], k_alarm_queue = q, k_ticks = 0,
     k_local_event = True, k_sw_requests = {}, k_alloc = b, k_thread_initialised = False, k_shared = s\<rparr>"

definition Kernel_init ::
  "('q, 'r, 't, 'v, 'a) kernel_libs \<Rightarrow> nat \<Rightarrow> ('q, 't, 'v, 'a, 'f, 's) kernel \<Rightarrow>
     ('q, 't, 'v, 'a, 'f, 's) kernel" where
  "Kernel_init L mem k = k\<lparr>k_alarm_queue := AlarmQueue_new (lib_callbacks L) (lib_alarms L),
     k_alloc := BumpAllocator_new mem MEMORY_SIZE\<rparr>"

definition Kernel_allocate_alarm ::
  "('q, 'r, 't, 'v, 'a) kernel_libs \<Rightarrow> ('q, 't, 'v, 'a, 'f, 's) kernel \<Rightarrow>
     (alarm_handle option \<times> ('q, 't, 'v, 'a, 'f, 's) kernel) outcome" where
  "Kernel_allocate_alarm L k =
     bind_out (AlarmQueue_try_allocate_handle (lib_callbacks L) (k_alarm_queue k)) (\<lambda>(h, q).
       Ret (h, k\<lparr>k_alarm_queue := q\<rparr>))"

definition ExecutorList_thread_executor ::
  "('q, 'r, 't, 'v, 'a) kernel_libs \<Rightarrow> ('q, 't, 'v, 'a, 'f, 's) kernel \<Rightarrow>
     ('q, 't, 'v, 'a, 'f, 's) kernel outcome" where
  "ExecutorList_thread_executor L k =
     (if \<not> k_thread_initialised k then
        bind_out (Kernel_allocate_alarm L k) (\<lambda>(h, k).
        bind_out (unwrap_option h) (\<lambda>alarm.
        bind_out (BaseExecutor_register_alarm 0 alarm k) (\<lambda>k. Ret (k\<lparr>k_thread_initialised := True\<rparr>))))
      else Ret k)"

definition irq_execs :: "('q, 't, 'v, 'a, 'f, 's) kernel \<Rightarrow> nat \<Rightarrow> ('q, 't) base_executor option" where
  "irq_execs k = (k_execs k)(0 := None)"

definition InterruptExecutor_new ::
  "('q, 'r, 't, 'v, 'a) kernel_libs \<Rightarrow> nat \<Rightarrow> alarm_handle option \<Rightarrow> ('q, 't) base_executor" where
  "InterruptExecutor_new L sw_interrupt alarm_handle =
     BaseExecutor_new L (InterruptExecutorPender sw_interrupt) alarm_handle"

definition ExecutorList_allocate ::
  "('q, 'r, 't, 'v, 'a) kernel_libs \<Rightarrow> ('q, 't) lmap_insert \<Rightarrow> nat \<Rightarrow> ('q, 't, 'v, 'a, 'f, 's) kernel \<Rightarrow>
     (nat option \<times> ('q, 't, 'v, 'a, 'f, 's) kernel) outcome" where
  "ExecutorList_allocate L ins node k =
     (if node = 0 then Panic ExplicitPanic
      else bind_out (Kernel_allocate_alarm L k) (\<lambda>(h, k).
        case h of
          None \<Rightarrow> Panic ExplicitPanic
        | Some alarm \<Rightarrow>
            (case ins node (InterruptExecutor_new L node (Some alarm)) (irq_execs k) of
               (True, m) \<Rightarrow> Ret (Some node, k\<lparr>k_execs := m(0 := k_execs k 0)\<rparr>)
             | (False, m) \<Rightarrow> Panic ExplicitPanic)))"

definition Kernel_allocate_interrupt_executor ::
  "('q, 'r, 't, 'v, 'a) kernel_libs \<Rightarrow> ('q, 't) lmap_insert \<Rightarrow> nat \<Rightarrow> ('q, 't, 'v, 'a, 'f, 's) kernel \<Rightarrow>
     (nat \<times> ('q, 't, 'v, 'a, 'f, 's) kernel) outcome" where
  "Kernel_allocate_interrupt_executor L ins node k =
     bind_out (ExecutorList_allocate L ins node k) (\<lambda>(r, k).
       case r of Some x \<Rightarrow> Ret (x, k) | None \<Rightarrow> Panic ExplicitPanic)"

definition ExecutorList_spawn ::
  "('q, 'r, 't, 'v, 'a) kernel_libs \<Rightarrow> layout \<Rightarrow> nat \<Rightarrow> 'f \<Rightarrow> string \<Rightarrow> ('q, 't, 'v, 'a, 'f, 's) kernel \<Rightarrow>
     ('q, 't, 'v, 'a, 'f, 's) kernel outcome" where
  "ExecutorList_spawn L lay handle fut name k =
     (case irq_execs k handle of
        None \<Rightarrow> Panic ExplicitPanic
      | Some _ \<Rightarrow> BaseExecutor_spawn L lay handle fut name k)"

definition Kernel_spawn ::
  "('q, 'r, 't, 'v, 'a) kernel_libs \<Rightarrow> layout \<Rightarrow> 'f \<Rightarrow> string \<Rightarrow> ('q, 't, 'v, 'a, 'f, 's) kernel \<Rightarrow>
     ('q, 't, 'v, 'a, 'f, 's) kernel outcome" where
  "Kernel_spawn L lay fut name k =
     bind_out (ExecutorList_thread_executor L k) (BaseExecutor_spawn L lay 0 fut name)"

definition ExecutorList_start_interrupt_executor ::
  "('q, 'r, 't, 'v, 'a) kernel_libs \<Rightarrow> nat \<Rightarrow> ('q, 't, 'v, 'a, 'f, 's) kernel \<Rightarrow>
     ('q, 't, 'v, 'a, 'f, 's) kernel outcome" where
  "ExecutorList_start_interrupt_executor L handle k =
     bind_out (unwrap_option (irq_execs k handle)) (\<lambda>_. InterruptExecutor_start L handle k)"

text \<open>What the interrupt handler of a priority does.\<close>

definition interrupt_executor_handler ::
  "nat \<Rightarrow> ('q, 'r, 't, 'v, 'a) kernel_libs \<Rightarrow> ('f, 's) task_poll \<Rightarrow> nat \<Rightarrow> ('q, 't, 'v, 'a, 'f, 's) kernel \<Rightarrow>
     ('q, 't, 'v, 'a, 'f, 's) kernel outcome option" where
  "interrupt_executor_handler fuel L poll prio k =
     bind_fuel (Some (unwrap_option (irq_execs k prio))) (\<lambda>_. InterruptExecutor_on_interrupt fuel L poll prio k)"

text \<open>\<open>start_thread_executor\<close> up to its loop.\<close>

definition Kernel_start_thread_executor ::
  "('q, 'r, 't, 'v, 'a) kernel_libs \<Rightarrow> ('q, 't, 'v, 'a, 'f, 's) kernel \<Rightarrow>
     ('q, 't, 'v, 'a, 'f, 's) kernel outcome" where
  "Kernel_start_thread_executor L k =
     bind_out (ExecutorList_thread_executor L k) (BaseExecutor_register_alarm_callback L 0)"

section \<open>Boot steps\<close>

datatype 'f boot_op =
    BootAllocate nat
  | BootSpawn nat 'f string
  | BootStart nat
  | BootStartThread

fun boot_exec ::
  "('q, 'r, 't, 'v, 'a) kernel_libs \<Rightarrow> ('q, 't) lmap_insert \<Rightarrow> layout \<Rightarrow> ('q, 't, 'v, 'a, 'f, 's) kernel \<Rightarrow>
     'f boot_op \<Rightarrow> ('q, 't, 'v, 'a, 'f, 's) kernel outcome" where
  "boot_exec L ins lay k (BootAllocate p) =
     bind_out (Kernel_allocate_interrupt_executor L ins p k) (\<lambda>(_, k). Ret k)"
| "boot_exec L ins lay k (BootSpawn p f name) =
     (if p = 0 then Kernel_spawn L lay f name k else ExecutorList_spawn L lay p f name k)"
| "boot_exec L ins lay k (BootStart p) = ExecutorList_start_interrupt_executor L p k"
| "boot_exec L ins lay k BootStartThread = Kernel_start_thread_executor L k"

text \<open>A boot sequence allocates each priority once.\<close>

definition boot_prios :: "'f boot_op list \<Rightarrow> nat list" where
  "boot_prios ops = concat (map (\<lambda>x. case x of BootAllocate p \<Rightarrow> [p] | _ \<Rightarrow> []) ops)"

definition boot_inv ::
  "('q, 'r, 't, 'v, 'a) kernel_libs \<Rightarrow> ('q, 'r, 't, 'v, 'a) kernel_abs \<Rightarrow>
     ('q, 't, 'v, 'a, 'f, 's) kernel \<Rightarrow> bool" where
  "boot_inv L A k \<longleftrightarrow> kernel_inv L A k \<and> 0 \<in> dom (k_execs k) \<and>
     finite (dom (irq_execs k)) \<and> card (dom (irq_execs k)) \<le> N_EXECUTORS \<and>
     bump_inv (k_alloc k) \<and> (\<forall>t \<in> dom (k_tasks k). t < ba_start (k_alloc k) + ba_pos (k_alloc k))"

section \<open>Boot steps keep the kernel well-formed\<close>

lemma kernel_inv_put_exec:
  assumes inv: "kernel_inv L A k" and ok: "exec_ok L A k e x'"
    and fresh: "\<And>i y h. i \<noteq> e \<Longrightarrow> k_execs k i = Some y \<Longrightarrow> be_alarm_handle y = Some h \<Longrightarrow> be_alarm_handle x' \<noteq> Some h"
  shows "kernel_inv L A (set_exec e x' k)"
proof (rule kernel_invI)
  fix i y
  assume "k_execs (set_exec e x' k) i = Some y"
  then have "exec_ok L A k i y" using ok kernel_inv_exec [OF inv] by (cases "i = e") auto
  then show "exec_ok L A (set_exec e x' k) i y" by (rule exec_ok_cong) simp_all
next
  fix i y j z a
  assume "k_execs (set_exec e x' k) i = Some y" "k_execs (set_exec e x' k) j = Some z"
    "be_alarm_handle y = Some a" "be_alarm_handle z = Some a"
  then show "i = j"
    using fresh [of i y a] fresh [of j z a] kernel_inv_handle [OF inv, of i y j z a]
    by (cases "i = e"; cases "j = e") auto
next
  fix t a
  assume "k_tasks (set_exec e x' k) t = Some a"
  then show "th_executor a \<in> dom (k_execs (set_exec e x' k))" using kernel_inv_task [OF inv] by auto
next
  show "AlarmQueue_inv (lib_callbacks L) (cb_inv A) (al_inv A) (al_elems A) (k_alarm_queue (set_exec e x' k))"
    using kernel_inv_alarms [OF inv] by simp
next
  fix c
  assume "Some c \<in> set (callbacks_of L (set_exec e x' k))"
  then show "c \<in> dom (k_execs (set_exec e x' k))"
    using kernel_inv_callback [OF inv] by (auto simp: callbacks_of_def)
qed

context kernel_laws
begin

lemma allocate_alarm_ok:
  fixes k :: "('q, 't, 'v, 'a, 'f, 's) kernel"
  assumes inv: "kernel_inv L A k" and ret: "Kernel_allocate_alarm L k = Ret (Some h, k')"
  shows "kernel_inv L A k' \<and> unat (ah_id h) = length (callbacks_of L k) \<and>
    callbacks_of L k' = callbacks_of L k @ [None] \<and>
    (\<exists>q. k' = k\<lparr>k_alarm_queue := q\<rparr>) \<and> (\<forall>e x. k_execs k e = Some x \<longrightarrow> be_alarm_handle x \<noteq> Some h)"
proof -
  have aqi: "AlarmQueue_inv (lib_callbacks L) (cb_inv A) (al_inv A) (al_elems A) (k_alarm_queue k)"
    by (rule kernel_inv_alarms [OF inv])
  from aqi obtain q where q: "length (callbacks_of L k) < N_ALARM_HANDLES"
    "h = AlarmHandle_from (word_of_nat (length (callbacks_of L k)))" "k' = k\<lparr>k_alarm_queue := q\<rparr>"
    "AlarmQueue_inv (lib_callbacks L) (cb_inv A) (al_inv A) (al_elems A) q"
    "Vec_as_slice (lib_callbacks L) (aq_callbacks q) = callbacks_of L k @ [None]"
    using ret by (cases rule: aq.allocate_cases) (auto simp: Kernel_allocate_alarm_def callbacks_of_def)
  have id: "unat (ah_id h) = length (callbacks_of L k)"
    using q(1) by (simp add: q(2) AlarmHandle_from_def N_ALARM_HANDLES_def unsigned_of_nat take_bit_nat_eq_self)
  have cb: "callbacks_of L k' = callbacks_of L k @ [None]" using q(3,5) by (simp add: callbacks_of_def)
  have fresh: "be_alarm_handle x \<noteq> Some h" if "k_execs k e = Some x" for e x
    using kernel_inv_exec [OF inv that] id by (auto simp: exec_ok_def)
  have "kernel_inv L A k'"
  proof (rule kernel_invI)
    fix e x
    assume "k_execs k' e = Some x"
    then have "exec_ok L A k e x" using kernel_inv_exec [OF inv] q(3) by simp
    then show "exec_ok L A k' e x" using cb q(3) by (auto simp: exec_ok_def nth_append)
  next
    show "AlarmQueue_inv (lib_callbacks L) (cb_inv A) (al_inv A) (al_elems A) (k_alarm_queue k')"
      using q(3,4) by simp
  qed (use kernel_invD(2,3,5) [OF inv] cb q(3) in auto)
  with id cb q(3) fresh show ?thesis by blast
qed

lemma allocate_alarm_room:
  fixes k :: "('q, 't, 'v, 'a, 'f, 's) kernel"
  assumes inv: "kernel_inv L A k" and room: "length (callbacks_of L k) < N_ALARM_HANDLES"
  shows "\<exists>h k'. Kernel_allocate_alarm L k = Ret (Some h, k')"
  using kernel_inv_alarms [OF inv]
  by (rule aq.allocate_cases) (use room in \<open>auto simp: Kernel_allocate_alarm_def callbacks_of_def\<close>)

lemma new_exec_empty: "run_items A (BaseExecutor_new L p h) = [] \<and> timer_items A (BaseExecutor_new L p h) = {#}"
  by (simp add: BaseExecutor_new_def TimerQueue_new_def run_items_def timer_items_def)

lemma callback_ok:
  fixes k :: "('q, 't, 'v, 'a, 'f, 's) kernel"
  assumes inv: "kernel_inv L A k" and x: "k_execs k e = Some x" and h: "be_alarm_handle x = Some h"
    and ret: "BaseExecutor_register_alarm_callback L e k = Ret k'"
  shows "kernel_inv L A k' \<and> exec_started L k' e x \<and> (\<exists>q. k' = k\<lparr>k_alarm_queue := q\<rparr>) \<and>
    (\<forall>i y. k_execs k i = Some y \<longrightarrow> exec_started L k i y \<longrightarrow> exec_started L k' i y)"
proof -
  let ?V = "lib_callbacks L" and ?c = "callbacks_of L k" and ?n = "unat (ah_id h)"
  let ?q = "(k_alarm_queue k)\<lparr>aq_callbacks := Vec_set_nth ?V (aq_callbacks (k_alarm_queue k)) ?n (Some e)\<rparr>"
  have n: "?n < length ?c" using kernel_inv_exec [OF inv x] h by (simp add: exec_ok_def)
  have aqi: "AlarmQueue_inv ?V (cb_inv A) (al_inv A) (al_elems A) (k_alarm_queue k)"
    by (rule kernel_inv_alarms [OF inv])
  have k': "k' = k\<lparr>k_alarm_queue := ?q\<rparr>"
    using ret x h n by (simp add: BaseExecutor_register_alarm_callback_def Kernel_set_alarm_callback_def
        AlarmQueue_register_callback_def with_exec_def callbacks_of_def Let_def)
  have cb: "callbacks_of L k' = ?c[?n := Some e]"
    using aqi n by (simp add: k' callbacks_of_def AlarmQueue_inv_def)
  have "kernel_inv L A k'"
  proof (rule kernel_invI)
    fix i y
    assume "k_execs k' i = Some y"
    then have y: "k_execs k i = Some y" by (simp add: k')
    note oky = kernel_inv_exec [OF inv y]
    have "callbacks_of L k' ! unat (ah_id a) \<in> {None, Some i}" if a: "be_alarm_handle y = Some a" for a
    proof (cases "unat (ah_id a) = ?n")
      case True
      then have "ah_id a = ah_id h" by (rule unsigned_word_eqI)
      then have "a = h" by (cases a; cases h) simp
      then have "i = e" using kernel_inv_handle [OF inv y x] a h by simp
      with True n show ?thesis by (simp add: cb)
    next
      case False
      with oky a show ?thesis by (auto simp: cb exec_ok_def)
    qed
    moreover have "k_tasks k' = k_tasks k" "length (callbacks_of L k') = length ?c" unfolding cb by (simp_all add: k')
    ultimately show "exec_ok L A k' i y" using oky unfolding exec_ok_def by simp
  next
    show "AlarmQueue_inv ?V (cb_inv A) (al_inv A) (al_elems A) (k_alarm_queue k')"
      using aqi n by (simp add: k' AlarmQueue_inv_def callbacks_of_def)
  next
    fix c
    assume "Some c \<in> set (callbacks_of L k')"
    then have "c = e \<or> Some c \<in> set ?c" unfolding cb by (auto dest: set_update_subset_insert [THEN subsetD])
    then show "c \<in> dom (k_execs k')" using kernel_inv_callback [OF inv] x by (auto simp: k')
  qed (use kernel_invD(2,3) [OF inv] in \<open>auto simp: k'\<close>)
  moreover have "exec_started L k' e x" using h n by (simp add: exec_started_def cb)
  moreover have "exec_started L k' i y" if y: "k_execs k i = Some y" and st: "exec_started L k i y" for i y
  proof (cases "i = e")
    case True
    with y x h n show ?thesis by (simp add: exec_started_def cb)
  next
    case False
    from st obtain a where a: "be_alarm_handle y = Some a" "?c ! unat (ah_id a) = Some i"
      by (auto simp: exec_started_def)
    have "unat (ah_id a) \<noteq> ?n"
      using kernel_inv_exec [OF inv x] h a(2) False by (auto simp: exec_ok_def)
    with a show ?thesis by (simp add: exec_started_def cb)
  qed
  ultimately show ?thesis using k' by blast
qed

lemma exec_started_append:
  assumes "exec_ok L A k e x" "exec_started L k e x" "callbacks_of L k' = callbacks_of L k @ ys"
  shows "exec_started L k' e x"
  using assms by (auto simp: exec_ok_def exec_started_def nth_append)

lemma new_exec_ok:
  assumes "unat (ah_id h) < length (callbacks_of L k)" "callbacks_of L k ! unat (ah_id h) = None"
  shows "exec_ok L A k e (BaseExecutor_new L p (Some h))"
  using assms by (simp add: exec_ok_def BaseExecutor_new_def TimerQueue_new_def run_items_def timer_items_def)

end

context kernel_laws
begin

lemma thread_executor_ok:
  fixes k :: "('q, 't, 'v, 'a, 'f, 's) kernel"
  assumes inv: "boot_inv L A k" and ret: "ExecutorList_thread_executor L k = Ret k'"
  obtains "k_thread_initialised k" "k' = k"
    | x h where "\<not> k_thread_initialised k" "boot_inv L A k'" "k_execs k 0 = Some x"
      "k_execs k' = (k_execs k)(0 \<mapsto> x\<lparr>be_alarm_handle := Some h\<rparr>)" "k_tasks k' = k_tasks k"
      "k_thread_initialised k'" "callbacks_of L k' = callbacks_of L k @ [None]"
      "k_local_event k' = k_local_event k" "k_sw_requests k' = k_sw_requests k"
proof (cases "k_thread_initialised k")
  case True
  with ret show ?thesis by (intro that(1)) (simp_all add: ExecutorList_thread_executor_def)
next
  case False
  with ret obtain h k1 where k1: "Kernel_allocate_alarm L k = Ret (Some h, k1)"
    and r: "bind_out (BaseExecutor_register_alarm 0 h k1) (\<lambda>k. Ret (k\<lparr>k_thread_initialised := True\<rparr>)) = Ret k'"
    by (auto simp: ExecutorList_thread_executor_def elim: unwrap_option.elims)
  from inv have ki: "kernel_inv L A k" by (simp add: boot_inv_def)
  note a = allocate_alarm_ok [OF ki k1]
  from inv obtain x where x: "k_execs k 0 = Some x" by (auto simp: boot_inv_def)
  let ?x = "x\<lparr>be_alarm_handle := Some h\<rparr>"
  have x1: "k_execs k1 0 = Some x" using a x by auto
  have k': "k' = (set_exec 0 ?x k1)\<lparr>k_thread_initialised := True\<rparr>"
    using r x1 by (simp add: BaseExecutor_register_alarm_def with_exec_def)
  have ki1: "kernel_inv L A k1" using a by blast
  have "exec_ok L A k1 0 ?x"
    using kernel_inv_exec [OF ki1 x1] a by (simp add: exec_ok_def run_items_def timer_items_def)
  moreover have "be_alarm_handle y \<noteq> Some h" if "k_execs k1 i = Some y" for i y using a that by auto
  ultimately have "kernel_inv L A (set_exec 0 ?x k1)" by (intro kernel_inv_put_exec [OF ki1]) auto
  then have "kernel_inv L A k'" unfolding k' by (rule kernel_inv_frame) simp_all
  moreover have "irq_execs k' = irq_execs k" using a by (auto simp: irq_execs_def k')
  ultimately have "boot_inv L A k'" using inv a by (auto simp: boot_inv_def k')
  moreover have "callbacks_of L k' = callbacks_of L k @ [None]" using a by (simp add: callbacks_of_def k')
  ultimately show ?thesis using a x False by (intro that(2) [of x h]) (auto simp: k')
qed

lemma allocate_executor_ok:
  fixes k :: "('q, 't, 'v, 'a, 'f, 's) kernel"
  assumes map: "linear_map ins N_EXECUTORS" and inv: "boot_inv L A k" and new: "p \<notin> dom (k_execs k)"
    and ret: "Kernel_allocate_interrupt_executor L ins p k = Ret (p', k')"
  shows "\<exists>h. boot_inv L A k' \<and> p' = p \<and> p \<noteq> 0 \<and>
    k_execs k' = (k_execs k)(p \<mapsto> BaseExecutor_new L (InterruptExecutorPender p) (Some h)) \<and>
    k_tasks k' = k_tasks k \<and> k_thread_initialised k' = k_thread_initialised k \<and>
    callbacks_of L k' = callbacks_of L k @ [None] \<and> k_local_event k' = k_local_event k \<and>
    k_sw_requests k' = k_sw_requests k"
proof -
  from inv have ki: "kernel_inv L A k" and fin: "finite (dom (irq_execs k))" "card (dom (irq_execs k)) \<le> N_EXECUTORS"
    and p: "p \<noteq> 0" using new by (auto simp: boot_inv_def)
  have "ExecutorList_allocate L ins p k = Ret (Some p', k')"
    using ret by (auto simp: Kernel_allocate_interrupt_executor_def split: option.splits)
  with p obtain h0 k1 where k0: "Kernel_allocate_alarm L k = Ret (h0, k1)"
    and r0: "(case h0 of None \<Rightarrow> Panic ExplicitPanic | Some alarm \<Rightarrow>
         (case ins p (InterruptExecutor_new L p (Some alarm)) (irq_execs k1) of
            (True, m) \<Rightarrow> Ret (Some p, k1\<lparr>k_execs := m(0 := k_execs k1 0)\<rparr>)
          | (False, m) \<Rightarrow> Panic ExplicitPanic)) = Ret (Some p', k')"
    by (auto simp: ExecutorList_allocate_def)
  then obtain h where h0: "h0 = Some h" by (cases h0) auto
  note k1 = k0 [unfolded h0] and r = r0 [unfolded h0 option.case]
  let ?x = "BaseExecutor_new L (InterruptExecutorPender p) (Some h)"
  note a = allocate_alarm_ok [OF ki k1]
  have ex: "k_execs k1 = k_execs k" "irq_execs k1 = irq_execs k" using a by (auto simp: irq_execs_def)
  have nm: "p \<notin> dom (irq_execs k)" using new by (auto simp: irq_execs_def split: if_splits)
  have card: "card (dom (irq_execs k)) < N_EXECUTORS"
    using r linear_map.insert [OF map fin] nm by (auto simp: ex split: if_splits)
  have k': "k' = set_exec p ?x k1" "p' = p"
    using r linear_map.insert [OF map fin] card p
    by (auto simp: ex set_exec_def InterruptExecutor_new_def irq_execs_def fun_upd_twist)
  have ki1: "kernel_inv L A k1" using a by blast
  have "exec_ok L A k1 p ?x" using a by (intro new_exec_ok) (auto simp: nth_append)
  moreover have "be_alarm_handle y \<noteq> Some h" if "k_execs k1 i = Some y" for i y using a ex that by auto
  ultimately have "kernel_inv L A k'"
    unfolding k' by (intro kernel_inv_put_exec [OF ki1]) (auto simp: BaseExecutor_new_def)
  moreover have "irq_execs k' = (irq_execs k)(p \<mapsto> ?x)" using p by (auto simp: irq_execs_def k' ex)
  ultimately have "boot_inv L A k'" using inv card nm fin(1) a k' by (auto simp: boot_inv_def ex)
  moreover have "callbacks_of L k' = callbacks_of L k @ [None]" using a by (simp add: callbacks_of_def k')
  ultimately show ?thesis using a p by (intro exI [of _ h]) (auto simp: k')
qed

lemma spawn_ok:
  fixes k :: "('q, 't, 'v, 'a, 'f, 's) kernel"
  assumes inv: "boot_inv L A k" and x: "k_execs k e = Some x"
    and lay: "0 < fut_align lay" "0 < hdr_align lay" "0 < hdr_size lay"
    and ret: "BaseExecutor_spawn L lay e fut name k = Ret k'"
  shows "\<exists>t x'. t \<notin> dom (k_tasks k) \<and> boot_inv L A k' \<and> k_execs k' = (k_execs k)(e \<mapsto> x') \<and>
    k_tasks k' = (k_tasks k)(t \<mapsto> \<lparr>th_name = name, th_fut_ref = fut, th_executor = e, th_expires_at = None\<rparr>) \<and>
    run_items A x' = t # run_items A x \<and> be_alarm_handle x' = be_alarm_handle x \<and> be_pender x' = be_pender x \<and>
    callbacks_of L k' = callbacks_of L k \<and> k_thread_initialised k' = k_thread_initialised k \<and>
    k_local_event k' = k_local_event k \<and> k_sw_requests k' = k_sw_requests k"
proof -
  let ?h = "\<lparr>th_name = name, th_fut_ref = fut, th_executor = e, th_expires_at = None\<rparr>"
  from ret x obtain a b1 t b2 q where b1: "BumpAllocator_alloc (k_alloc k) (fut_size lay) (fut_align lay) = Ret (a, b1)"
    and b2: "BumpAllocator_alloc b1 (hdr_size lay) (hdr_align lay) = Ret (t, b2)"
    and q: "Deque_push_front (lib_run L) (be_run_queue x) t = (Ok (), q)"
    and k': "k' = set_exec e (x\<lparr>be_run_queue := q\<rparr>) (set_header t ?h (k\<lparr>k_alloc := b2\<rparr>))"
    by (auto simp: BaseExecutor_spawn_def TaskHeader_new_def with_exec_def split: prod.splits result.splits)
  let ?k1 = "set_header t ?h (k\<lparr>k_alloc := b2\<rparr>)"
  from inv have ki: "kernel_inv L A k" and bi: "bump_inv (k_alloc k)"
    and old: "\<And>t. t \<in> dom (k_tasks k) \<Longrightarrow> t < ba_start (k_alloc k) + ba_pos (k_alloc k)"
    by (auto simp: boot_inv_def)
  note s1 = alloc_Ret [OF bi lay(1) b1]
  note s2 = alloc_Ret [OF conjunct1 [OF s1] lay(2) b2]
  from s1 s2 have b2i: "bump_inv b2" and le1: "ba_start (k_alloc k) + ba_pos (k_alloc k) \<le> t"
    and le2: "t + hdr_size lay = ba_start b2 + ba_pos b2"
    by simp_all
  have t: "t \<notin> dom (k_tasks k)" using old [of t] le1 by (meson not_le)
  have bnd: "i < ba_start b2 + ba_pos b2" if "i \<in> insert t (dom (k_tasks k))" for i
  proof (cases "i = t")
    case True
    with le2 lay(3) show ?thesis by linarith
  next
    case False
    with that have "i < ba_start (k_alloc k) + ba_pos (k_alloc k)" using old by simp
    with le1 le2 show ?thesis by linarith
  qed
  have ki1: "kernel_inv L A ?k1"
  proof (rule kernel_inv_cong [OF ki])
    fix i y
    assume "k_tasks ?k1 i = Some y"
    then show "th_executor y \<in> dom (k_execs k)" using kernel_inv_task [OF ki] x by (cases "i = t") auto
  qed (use kernel_inv_alarms [OF ki] in auto)
  have x1: "k_execs ?k1 e = Some x" using x by simp
  note okx = kernel_inv_exec [OF ki1 x1]
  then have "rq_inv A (be_run_queue x)" by (simp add: exec_ok_def)
  from rq.push_front [OF this q] have rq: "rq_inv A q" "rq_items A q = t # run_items A x"
    by (auto simp: run_items_def split: if_splits)
  have "exec_ok L A ?k1 e (x\<lparr>be_run_queue := q\<rparr>)"
    using okx rq by (auto simp: exec_ok_def run_items_def timer_items_def)
  then have "kernel_inv L A k'" unfolding k' by (rule kernel_inv_set_exec [OF ki1 x1]) simp
  moreover have "dom (irq_execs k') = dom (irq_execs k)" using x by (auto simp: irq_execs_def k')
  moreover have "k_tasks k' = (k_tasks k)(t \<mapsto> ?h)" "k_alloc k' = b2" "0 \<in> dom (k_execs k')"
    using inv by (auto simp: k' boot_inv_def)
  ultimately have "boot_inv L A k'"
    using inv b2i bnd unfolding boot_inv_def by (simp only: dom_fun_upd option.distinct if_False) blast
  with t rq(2) show ?thesis by (intro exI [of _ t] exI [of _ "x\<lparr>be_run_queue := q\<rparr>"]) (simp add: k' run_items_def callbacks_of_def)
qed

end

section \<open>A boot sequence\<close>

fun boot_all ::
  "('q, 'r, 't, 'v, 'a) kernel_libs \<Rightarrow> ('q, 't) lmap_insert \<Rightarrow> layout \<Rightarrow> 'f boot_op list \<Rightarrow>
     ('q, 't, 'v, 'a, 'f, 's) kernel \<Rightarrow> ('q, 't, 'v, 'a, 'f, 's) kernel outcome" where
  "boot_all L ins lay [] k = Ret k"
| "boot_all L ins lay (x # ops) k = bind_out (boot_exec L ins lay k x) (boot_all L ins lay ops)"

definition boot_spawned :: "nat \<Rightarrow> 'f boot_op list \<Rightarrow> string list" where
  "boot_spawned p ops = concat (map (\<lambda>x. case x of BootSpawn e _ n \<Rightarrow> if e = p then [n] else [] | _ \<Rightarrow> []) ops)"

definition boot_starts :: "'f boot_op list \<Rightarrow> nat set" where
  "boot_starts ops = \<Union> (set (map (\<lambda>x. case x of BootStart p \<Rightarrow> {p} | BootStartThread \<Rightarrow> {0} | _ \<Rightarrow> {}) ops))"

definition task_names :: "('q, 't, 'v, 'a, 'f, 's) kernel \<Rightarrow> nat list \<Rightarrow> string list" where
  "task_names k ts = map (\<lambda>t. th_name (the (k_tasks k t))) ts"

lemma boot_snoc [simp]:
  "boot_prios (ops @ [x]) = boot_prios ops @ (case x of BootAllocate p \<Rightarrow> [p] | _ \<Rightarrow> [])"
  "boot_spawned p (ops @ [x]) = boot_spawned p ops @
     (case x of BootSpawn e _ n \<Rightarrow> if e = p then [n] else [] | _ \<Rightarrow> [])"
  "boot_starts (ops @ [x]) = boot_starts ops \<union>
     (case x of BootStart p \<Rightarrow> {p} | BootStartThread \<Rightarrow> {0} | _ \<Rightarrow> {})"
  by (auto simp: boot_prios_def boot_spawned_def boot_starts_def)

lemma boot_nil [simp]: "boot_prios [] = []" "boot_spawned p [] = []" "boot_starts [] = {}"
  by (simp_all add: boot_prios_def boot_spawned_def boot_starts_def)

text \<open>What the steps done so far have established.\<close>

definition boot_exec_done ::
  "('q, 'r, 't, 'v, 'a) kernel_libs \<Rightarrow> ('q, 'r, 't, 'v, 'a) kernel_abs \<Rightarrow> 'f boot_op list \<Rightarrow>
     ('q, 't, 'v, 'a, 'f, 's) kernel \<Rightarrow> nat \<Rightarrow> ('q, 't) base_executor \<Rightarrow> bool" where
  "boot_exec_done L A ops k p x \<longleftrightarrow>
     task_names k (run_items A x) = rev (boot_spawned p ops) \<and>
     be_pender x = (if p = 0 then ThreadExecutorPender else InterruptExecutorPender p) \<and>
     (be_alarm_handle x = None \<longleftrightarrow> p = 0 \<and> \<not> k_thread_initialised k) \<and>
     (p \<in> boot_starts ops \<longrightarrow> exec_started L k p x \<and> pended (be_pender x) k)"

definition boot_done ::
  "('q, 'r, 't, 'v, 'a) kernel_libs \<Rightarrow> ('q, 'r, 't, 'v, 'a) kernel_abs \<Rightarrow> 'f boot_op list \<Rightarrow>
     ('q, 't, 'v, 'a, 'f, 's) kernel \<Rightarrow> bool" where
  "boot_done L A ops k \<longleftrightarrow> boot_inv L A k \<and> k_local_event k \<and>
     dom (k_execs k) = insert 0 (set (boot_prios ops)) \<and>
     (\<forall>p. p \<notin> dom (k_execs k) \<longrightarrow> boot_spawned p ops = [] \<and> p \<notin> boot_starts ops) \<and>
     (\<forall>p x. k_execs k p = Some x \<longrightarrow> boot_exec_done L A ops k p x)"

lemma task_names_fresh: "t \<notin> set ts \<Longrightarrow> k_tasks k' = (k_tasks k)(t \<mapsto> h) \<Longrightarrow> task_names k' ts = task_names k ts"
  by (auto simp: task_names_def)

lemma task_names_same: "k_tasks k' = k_tasks k \<Longrightarrow> task_names k' ts = task_names k ts"
  by (simp add: task_names_def)

lemma boot_doneI:
  assumes "boot_inv L A k" "k_local_event k" "dom (k_execs k) = insert 0 (set (boot_prios ops))"
    and "\<And>p. p \<notin> dom (k_execs k) \<Longrightarrow> boot_spawned p ops = [] \<and> p \<notin> boot_starts ops"
    and "\<And>p x. k_execs k p = Some x \<Longrightarrow> boot_exec_done L A ops k p x"
  shows "boot_done L A ops k"
  unfolding boot_done_def using assms by blast

lemma boot_doneD:
  assumes "boot_done L A ops k"
  shows "boot_inv L A k" "k_local_event k" "dom (k_execs k) = insert 0 (set (boot_prios ops))"
    and "p \<notin> dom (k_execs k) \<Longrightarrow> boot_spawned p ops = [] \<and> p \<notin> boot_starts ops"
    and "k_execs k p = Some x \<Longrightarrow> boot_exec_done L A ops k p x"
    and "kernel_inv L A k"
proof -
  note d = assms [unfolded boot_done_def]
  show "boot_inv L A k" "k_local_event k" "dom (k_execs k) = insert 0 (set (boot_prios ops))"
    "p \<notin> dom (k_execs k) \<Longrightarrow> boot_spawned p ops = [] \<and> p \<notin> boot_starts ops"
    "k_execs k p = Some x \<Longrightarrow> boot_exec_done L A ops k p x"
    using d by (elim conjE; simp)+
  then show "kernel_inv L A k" unfolding boot_inv_def by (elim conjE)
qed

context kernel_laws
begin

lemma boot_exec_done_cong:
  fixes k :: "('q, 't, 'v, 'a, 'f, 's) kernel"
  assumes d: "boot_exec_done L A ops k p x" and ok: "exec_ok L A k p x"
    and "\<And>t. t \<in> set (run_items A x) \<Longrightarrow> k_tasks k' t = k_tasks k t"
    and "p = 0 \<Longrightarrow> k_thread_initialised k' = k_thread_initialised k"
    and "callbacks_of L k' = callbacks_of L k @ ys" "k_local_event k' = k_local_event k"
    and "k_sw_requests k' = k_sw_requests k" "boot_spawned p ops' = boot_spawned p ops"
    and "p \<in> boot_starts ops' \<Longrightarrow> p \<in> boot_starts ops"
  shows "boot_exec_done L A ops' k' p x"
proof -
  have "task_names k' (run_items A x) = task_names k (run_items A x)"
    using assms(3) by (simp add: task_names_def)
  moreover have "pended q k \<longleftrightarrow> pended q k'" for q using assms(6,7) by (simp add: pended_def split: pender.split)
  moreover have "exec_started L k p x \<Longrightarrow> exec_started L k' p x" using exec_started_append [OF ok _ assms(5)] .
  moreover have "p = 0 \<and> \<not> k_thread_initialised k \<longleftrightarrow> p = 0 \<and> \<not> k_thread_initialised k'" using assms(4) by blast
  ultimately show ?thesis using d assms(8,9) unfolding boot_exec_done_def by metis
qed

lemma boot_thread_done:
  fixes k :: "('q, 't, 'v, 'a, 'f, 's) kernel"
  assumes d: "boot_done L A ops k" and ret: "ExecutorList_thread_executor L k = Ret k'"
  shows "boot_done L A ops k' \<and> k_thread_initialised k'"
  using boot_doneD(1) [OF d] ret
proof (rule thread_executor_ok)
  fix x h
  assume k: "\<not> k_thread_initialised k" "boot_inv L A k'" "k_execs k 0 = Some x"
    "k_execs k' = (k_execs k)(0 \<mapsto> x\<lparr>be_alarm_handle := Some h\<rparr>)" "k_tasks k' = k_tasks k"
    "k_thread_initialised k'" "callbacks_of L k' = callbacks_of L k @ [None]"
    "k_local_event k' = k_local_event k" "k_sw_requests k' = k_sw_requests k"
  have "boot_exec_done L A ops k' p y" if y: "k_execs k' p = Some y" for p y
  proof (cases "p = 0")
    case True
    have x0: "boot_exec_done L A ops k 0 x" by (rule boot_doneD(5) [OF d k(3)])
    then have "0 \<notin> boot_starts ops" using k(1) by (auto simp: boot_exec_done_def exec_started_def)
    with x0 y True k(4-6) show ?thesis
      by (auto simp: boot_exec_done_def run_items_def task_names_def)
  next
    case False
    with y k(4) have "k_execs k p = Some y" by simp
    from boot_exec_done_cong [OF boot_doneD(5) [OF d this] kernel_inv_exec [OF boot_doneD(6) [OF d] this] _ _ k(7,8,9)]
      k(5) False show ?thesis by simp
  qed
  moreover have "dom (k_execs k') = dom (k_execs k)" using k(3,4) by auto
  ultimately have "boot_done L A ops k'"
    using k(2,8) boot_doneD(2,3,4) [OF d] by (intro boot_doneI) simp_all
  with k(6) show ?thesis by simp
qed (use d in auto)

lemma boot_spawn_done:
  fixes k :: "('q, 't, 'v, 'a, 'f, 's) kernel"
  assumes d: "boot_done L A ops k" and x: "e \<in> dom (k_execs k)"
    and lay: "0 < fut_align lay" "0 < hdr_align lay" "0 < hdr_size lay"
    and ret: "BaseExecutor_spawn L lay e fut name k = Ret k'"
  shows "boot_done L A (ops @ [BootSpawn e fut name]) k'"
proof -
  let ?ops = "ops @ [BootSpawn e fut name]"
  from x obtain x where x: "k_execs k e = Some x" by auto
  from spawn_ok [OF boot_doneD(1) [OF d] x lay ret] obtain t x' where k: "t \<notin> dom (k_tasks k)" "boot_inv L A k'"
    "k_execs k' = (k_execs k)(e \<mapsto> x')"
    "k_tasks k' = (k_tasks k)(t \<mapsto> \<lparr>th_name = name, th_fut_ref = fut, th_executor = e, th_expires_at = None\<rparr>)"
    "run_items A x' = t # run_items A x" "be_alarm_handle x' = be_alarm_handle x" "be_pender x' = be_pender x"
    and c: "callbacks_of L k' = callbacks_of L k @ []" "k_thread_initialised k' = k_thread_initialised k"
    "k_local_event k' = k_local_event k" "k_sw_requests k' = k_sw_requests k"
    by auto
  have keep: "k_tasks k' i = k_tasks k i" if "exec_ok L A k p y" "i \<in> set (run_items A y)" for i p y
    using that k(1,4) by (auto simp: exec_ok_def)
  have "boot_exec_done L A ?ops k' p y" if y: "k_execs k' p = Some y" for p y
  proof (cases "p = e")
    case True
    have x0: "boot_exec_done L A ops k e x" and okx: "exec_ok L A k e x"
      using boot_doneD(5) [OF d x] kernel_inv_exec [OF boot_doneD(6) [OF d] x] .
    have "task_names k' (run_items A x) = task_names k (run_items A x)"
      using keep [OF okx] by (simp add: task_names_def)
    then have "task_names k' (run_items A x') = name # task_names k (run_items A x)"
      using k(4,5) by (simp add: task_names_def)
    moreover have "exec_started L k' e x' = exec_started L k e x" "pended q k' = pended q k" for q
      using c k(6) by (simp_all add: exec_started_def pended_def split: pender.split)
    ultimately have "boot_exec_done L A ?ops k' e x'"
      using x0 unfolding boot_exec_done_def by (cases "e = 0"; simp add: k(6,7) c(2))
    with y True k(3) show ?thesis by simp
  next
    case False
    with y k(3) have y: "k_execs k p = Some y" by simp
    note oky = kernel_inv_exec [OF boot_doneD(6) [OF d] y]
    show ?thesis
      by (rule boot_exec_done_cong [OF boot_doneD(5) [OF d y] oky keep [OF oky] _ c(1,3,4)]) (use c(2) False in auto)
  qed
  with k(2,3) c(3) boot_doneD(2,3,4) [OF d] x show ?thesis by (intro boot_doneI) auto
qed

end

context kernel_laws
begin

lemma boot_allocate_done:
  fixes k :: "('q, 't, 'v, 'a, 'f, 's) kernel" and ins :: "('q, 't) lmap_insert"
  assumes map: "linear_map ins N_EXECUTORS" and d: "boot_done L A ops k" and new: "p \<notin> dom (k_execs k)"
    and ret: "Kernel_allocate_interrupt_executor L ins p k = Ret (p', k')"
  shows "boot_done L A (ops @ [BootAllocate p]) k'"
proof -
  let ?ops = "ops @ [BootAllocate p]"
  from allocate_executor_ok [OF map boot_doneD(1) [OF d] new ret] obtain h where k: "boot_inv L A k'" "p \<noteq> 0"
    "k_execs k' = (k_execs k)(p \<mapsto> BaseExecutor_new L (InterruptExecutorPender p) (Some h))"
    "k_tasks k' = k_tasks k" "k_thread_initialised k' = k_thread_initialised k"
    and c: "callbacks_of L k' = callbacks_of L k @ [None]" "k_local_event k' = k_local_event k"
    "k_sw_requests k' = k_sw_requests k"
    by blast
  have "boot_exec_done L A ?ops k' i y" if y: "k_execs k' i = Some y" for i y
  proof (cases "i = p")
    case True
    with y k(2,3) boot_doneD(4) [OF d new] show ?thesis
      by (auto simp: boot_exec_done_def BaseExecutor_new_def run_items_def task_names_def)
  next
    case False
    with y k(3) have y: "k_execs k i = Some y" by simp
    show ?thesis
      by (rule boot_exec_done_cong [OF boot_doneD(5) [OF d y] kernel_inv_exec [OF boot_doneD(6) [OF d] y] _ _ c])
        (simp_all add: k(4,5))
  qed
  with k(1,3) c(2) boot_doneD(2,3,4) [OF d] show ?thesis by (intro boot_doneI) auto
qed

lemma boot_callback_done:
  fixes k :: "('q, 't, 'v, 'a, 'f, 's) kernel"
  assumes d: "boot_done L A ops k" and x: "k_execs k p = Some x" and h: "be_alarm_handle x = Some h"
    and ret: "BaseExecutor_register_alarm_callback L p k = Ret k1"
    and ops: "\<And>i. boot_spawned i ops' = boot_spawned i ops" "boot_starts ops' = insert p (boot_starts ops)"
      "boot_prios ops' = boot_prios ops"
  shows "boot_done L A ops' (Pender_pend (be_pender x) k1)"
proof -
  let ?k = "Pender_pend (be_pender x) k1"
  note cb = callback_ok [OF boot_doneD(6) [OF d] x h ret]
  from cb obtain q where q: "k1 = k\<lparr>k_alarm_queue := q\<rparr>" by blast
  have same: "callbacks_of L ?k = callbacks_of L k1" by (simp add: callbacks_of_def)
  have mono: "pended a k \<Longrightarrow> pended a ?k" for a
    using pended_mono [of a k1 "be_pender x"] by (simp add: q pended_def split: pender.splits)
  have started: "exec_started L ?k i y" if "i = p \<or> exec_started L k i y" "k_execs k i = Some y" for i y
    using that cb x by (auto simp: exec_started_def same)
  have "boot_exec_done L A ops' ?k i y" if "k_execs ?k i = Some y" for i y
  proof -
    from that have y: "k_execs k i = Some y" by (simp add: q)
    have same: "task_names ?k (run_items A y) = task_names k (run_items A y)"
      "k_thread_initialised ?k = k_thread_initialised k" by (simp_all add: task_names_def q)
    have own: "pended (be_pender y) ?k" if "i = p" using that x y by simp
    have st: "exec_started L ?k i y \<and> pended (be_pender y) ?k" if "i \<in> boot_starts ops'"
      using boot_doneD(5) [OF d y] started [OF _ y] mono [of "be_pender y"] own that ops(2)
      unfolding boot_exec_done_def by (metis insertE)
    from boot_doneD(5) [OF d y] have "task_names k (run_items A y) = rev (boot_spawned i ops)"
      "be_pender y = (if i = 0 then ThreadExecutorPender else InterruptExecutorPender i)"
      "be_alarm_handle y = None \<longleftrightarrow> i = 0 \<and> \<not> k_thread_initialised k"
      unfolding boot_exec_done_def by blast+
    with st show ?thesis unfolding boot_exec_done_def ops(1) same by blast
  qed
  moreover have "boot_inv L A ?k"
  proof -
    have "kernel_inv L A ?k" by (rule kernel_inv_frame [OF conjunct1 [OF cb]]) simp_all
    moreover have "irq_execs ?k = irq_execs k" by (simp add: irq_execs_def q)
    ultimately show ?thesis using boot_doneD(1) [OF d] by (simp add: boot_inv_def q)
  qed
  moreover have "k_local_event ?k" by (rule Pender_pend_mono(1)) (simp add: q boot_doneD(2) [OF d])
  moreover have "p \<in> dom (k_execs k)" using x by blast
  moreover have "dom (k_execs ?k) = dom (k_execs k)" by (simp add: q)
  ultimately show ?thesis
    using boot_doneD(3,4) [OF d] by (intro boot_doneI) (auto simp: ops)
qed

end

context kernel_laws
begin

lemma boot_step_done:
  fixes k :: "('q, 't, 'v, 'a, 'f, 's) kernel" and ins :: "('q, 't) lmap_insert"
  assumes map: "linear_map ins N_EXECUTORS" and d: "boot_done L A ops k"
    and new: "\<And>p. x = BootAllocate p \<Longrightarrow> p \<notin> insert 0 (set (boot_prios ops))"
    and lay: "0 < fut_align lay" "0 < hdr_align lay" "0 < hdr_size lay"
    and ret: "boot_exec L ins lay k x = Ret k'"
  shows "boot_done L A (ops @ [x]) k'"
proof (cases x)
  case (BootAllocate p)
  have "p \<notin> dom (k_execs k)" using new [OF BootAllocate] boot_doneD(3) [OF d] by simp
  from boot_allocate_done [OF map d this] ret BootAllocate show ?thesis by auto
next
  case (BootSpawn p f name)
  show ?thesis
  proof (cases "p = 0")
    case True
    with ret BootSpawn obtain k1 where k1: "ExecutorList_thread_executor L k = Ret k1"
      "BaseExecutor_spawn L lay 0 f name k1 = Ret k'" by (auto simp: Kernel_spawn_def)
    from boot_thread_done [OF d k1(1)] have d1: "boot_done L A ops k1" ..
    have "0 \<in> dom (k_execs k1)" using boot_doneD(3) [OF d1] by simp
    from boot_spawn_done [OF d1 this lay k1(2)] True BootSpawn show ?thesis by simp
  next
    case False
    with ret BootSpawn have "p \<in> dom (k_execs k)" "BaseExecutor_spawn L lay p f name k = Ret k'"
      by (auto simp: ExecutorList_spawn_def irq_execs_def split: option.splits)
    from boot_spawn_done [OF d this(1) lay this(2)] BootSpawn show ?thesis by simp
  qed
next
  case (BootStart p)
  with ret obtain y where y: "irq_execs k p = Some y" "InterruptExecutor_start L p k = Ret k'"
    by (auto simp: ExecutorList_start_interrupt_executor_def elim: unwrap_option.elims)
  then have x: "k_execs k p = Some y" and p: "p \<noteq> 0" by (auto simp: irq_execs_def split: if_splits)
  from boot_doneD(5) [OF d x] p obtain h where h: "be_alarm_handle y = Some h"
    by (auto simp: boot_exec_done_def)
  from y(2) obtain k1 where k1: "BaseExecutor_register_alarm_callback L p k = Ret k1"
    "with_exec p (\<lambda>x. Ret (Pender_pend (be_pender x) k1)) k1 = Ret k'"
    by (auto simp: InterruptExecutor_start_def)
  from callback_ok [OF boot_doneD(6) [OF d] x h k1(1)] have "k_execs k1 = k_execs k" by auto
  with k1(2) x have "k' = Pender_pend (be_pender y) k1" by (simp add: with_exec_def)
  with boot_callback_done [OF d x h k1(1), of "ops @ [BootStart p]"] BootStart show ?thesis by simp
next
  case BootStartThread
  with ret obtain k1 where k1: "ExecutorList_thread_executor L k = Ret k1"
    "BaseExecutor_register_alarm_callback L 0 k1 = Ret k'" by (auto simp: Kernel_start_thread_executor_def)
  from boot_thread_done [OF d k1(1)] have d1: "boot_done L A ops k1" and i: "k_thread_initialised k1" by simp_all
  from boot_doneD(3) [OF d1] obtain y where y: "k_execs k1 0 = Some y" by blast
  from boot_doneD(5) [OF d1 y] i obtain h where h: "be_alarm_handle y = Some h"
    and p: "be_pender y = ThreadExecutorPender" by (auto simp: boot_exec_done_def)
  from callback_ok [OF boot_doneD(6) [OF d1] y h k1(2)] boot_doneD(2) [OF d1] have "k_local_event k'" by auto
  then have "Pender_pend ThreadExecutorPender k' = k'"
    by (simp add: Pender_pend_def Kernel_signal_event_local_def)
  with boot_callback_done [OF d1 y h k1(2), of "ops @ [BootStartThread]"] p BootStartThread show ?thesis by simp
qed

lemma boot_all_done:
  fixes k :: "('q, 't, 'v, 'a, 'f, 's) kernel" and ins :: "('q, 't) lmap_insert"
  assumes map: "linear_map ins N_EXECUTORS" and lay: "0 < fut_align lay" "0 < hdr_align lay" "0 < hdr_size lay"
    and "boot_done L A ops k" "distinct (0 # boot_prios (ops @ ops'))" "boot_all L ins lay ops' k = Ret k'"
  shows "boot_done L A (ops @ ops') k'"
  using assms(5-)
proof (induction ops' arbitrary: ops k)
  case (Cons x ops')
  from Cons.prems(3) obtain k1 where k1: "boot_exec L ins lay k x = Ret k1" "boot_all L ins lay ops' k1 = Ret k'"
    by auto
  have "p \<notin> insert 0 (set (boot_prios ops))" if "x = BootAllocate p" for p
    using Cons.prems(2) that by (auto simp: boot_prios_def)
  from boot_step_done [OF map Cons.prems(1) this lay k1(1)] have "boot_done L A (ops @ [x]) k1" by simp
  from Cons.IH [OF this _ k1(2)] Cons.prems(2) show ?case by simp
qed simp

lemma init_done:
  assumes "mem + MEMORY_SIZE \<le> usize_max"
  shows "boot_done L A [] (Kernel_init L mem (Kernel_statics L q b s) :: ('q, 't, 'v, 'a, 'f, 's) kernel)"
proof -
  let ?k = "Kernel_init L mem (Kernel_statics L q b s) :: ('q, 't, 'v, 'a, 'f, 's) kernel"
  let ?x = "BaseExecutor_new L ThreadExecutorPender None"
  have ex: "k_execs ?k = [0 \<mapsto> ?x]" "k_tasks ?k = Map.empty" "k_thread_initialised ?k = False" "k_local_event ?k"
    by (simp_all add: Kernel_init_def Kernel_statics_def)
  have cb: "callbacks_of L ?k = []" by (simp add: callbacks_of_def Kernel_init_def AlarmQueue_new_def)
  have "exec_ok L A ?k 0 ?x"
    by (simp add: exec_ok_def BaseExecutor_new_def TimerQueue_new_def run_items_def timer_items_def)
  moreover have "AlarmQueue_inv (lib_callbacks L) (cb_inv A) (al_inv A) (al_elems A) (k_alarm_queue ?k)"
    by (simp add: AlarmQueue_inv_def Kernel_init_def AlarmQueue_new_def)
  ultimately have "kernel_inv L A ?k" by (intro kernel_invI) (auto simp: ex cb split: if_splits)
  then have "boot_inv L A ?k"
    using assms by (simp add: boot_inv_def ex irq_execs_def)
      (simp add: Kernel_init_def BumpAllocator_new_def bump_inv_def MEMORY_SIZE_def)
  moreover have "boot_exec_done L A [] ?k 0 ?x"
    by (simp add: boot_exec_done_def BaseExecutor_new_def run_items_def task_names_def ex)
  ultimately show ?thesis by (intro boot_doneI) (auto simp: ex split: if_splits)
qed

end

section \<open>Properties\<close>


definition demo_boot :: "unit boot_op list" where
  "demo_boot = [BootAllocate 2, BootSpawn 2 () ''high'', BootSpawn 0 () ''idle'', BootSpawn 0 () ''blink'',
     BootStart 2, BootStartThread]"

definition demo_layout :: layout where
  "demo_layout = \<lparr>fut_size = 12, fut_align = 4, hdr_size = 24, hdr_align = 8\<rparr>"

lemmas boot_eval =
  demo_boot_def demo_layout_def Kernel_init_def Kernel_statics_def BumpAllocator_new_def MEMORY_SIZE_def
  AlarmQueue_new_def Kernel_allocate_interrupt_executor_def ExecutorList_allocate_def Kernel_allocate_alarm_def
  AlarmQueue_try_allocate_handle_def InterruptExecutor_new_def BaseExecutor_new_def TimerQueue_new_def
  bounded_insert_def irq_execs_def ExecutorList_spawn_def BaseExecutor_spawn_def TaskHeader_new_def
  BumpAllocator_alloc_def round_up_def Kernel_spawn_def ExecutorList_thread_executor_def
  BaseExecutor_register_alarm_def ExecutorList_start_interrupt_executor_def InterruptExecutor_start_def
  BaseExecutor_register_alarm_callback_def Kernel_set_alarm_callback_def AlarmQueue_register_callback_def
  Kernel_start_thread_executor_def Pender_pend_def Kernel_signal_event_local_def with_exec_def set_exec_def
  set_header_def list_libs_def list_deque_def list_vec_def sorted_heap_def AlarmHandle_from_def
  N_ALARM_HANDLES_def N_ALARM_ITEMS_def MAX_TASKS_def N_TIMERS_def N_EXECUTORS_def usize_max_def add_usize_def
  sub_usize_def


text \<open>
  Allocating a priority that already has an executor succeeds while alarm handles are left, and
  replaces it: the tasks queued on the old executor stay allocated and are in no run queue of that
  priority any more, and its alarm handle is not reused.
\<close>

theorem reallocate_forgets_tasks:
  fixes L :: "('q, 'r, 't, 'v, 'a) kernel_libs" and ins :: "('q, 't) lmap_insert"
    and k :: "('q, 't, 'v, 'a, 'f, 's) kernel"
  assumes laws: "kernel_laws L A" and map: "linear_map ins N_EXECUTORS" and inv: "boot_inv L A k"
    and x: "k_execs k p = Some x" "p \<noteq> 0" and room: "length (callbacks_of L k) < N_ALARM_HANDLES"
  shows "\<exists>k' x'. Kernel_allocate_interrupt_executor L ins p k = Ret (p, k') \<and> k_execs k' = (k_execs k)(p \<mapsto> x') \<and>
    run_items A x' = [] \<and> timer_items A x' = {#} \<and> k_tasks k' = k_tasks k \<and>
    (\<exists>h. be_alarm_handle x' = Some h \<and> unat (ah_id h) = length (callbacks_of L k))"
proof -
  from inv have ki: "kernel_inv L A k" and fin: "finite (dom (irq_execs k))" "card (dom (irq_execs k)) \<le> N_EXECUTORS"
    by (auto simp: boot_inv_def)
  obtain h k1 where k1: "Kernel_allocate_alarm L k = Ret (Some h, k1)"
    using kernel_laws.allocate_alarm_room [OF laws ki room] by blast
  note a = kernel_laws.allocate_alarm_ok [OF laws ki k1]
  let ?x = "BaseExecutor_new L (InterruptExecutorPender p) (Some h)"
  have ex: "k_execs k1 = k_execs k" "k_tasks k1 = k_tasks k" "irq_execs k1 = irq_execs k"
    using a by (auto simp: irq_execs_def)
  have "p \<in> dom (irq_execs k)" using x by (auto simp: irq_execs_def)
  then have "ins p ?x (irq_execs k) = (True, (irq_execs k)(p \<mapsto> ?x))"
    using linear_map.insert [OF map fin] by simp
  then have "Kernel_allocate_interrupt_executor L ins p k = Ret (p, set_exec p ?x k1)"
    using k1 x(2) by (simp add: Kernel_allocate_interrupt_executor_def ExecutorList_allocate_def ex
        InterruptExecutor_new_def set_exec_def irq_execs_def fun_upd_twist)
  moreover have "run_items A ?x = [] \<and> timer_items A ?x = {#}" by (rule kernel_laws.new_exec_empty [OF laws])
  ultimately show ?thesis
    using a by (intro exI [of _ "set_exec p ?x k1"] exI [of _ ?x]) (simp add: ex BaseExecutor_new_def)
qed

theorem reallocate_forgets_tasks_witness:
  "\<exists>(k :: (nat list, timer_queue_item list, nat option list, alarm_item list, unit, unit) kernel) x k' x'.
     k_execs k 2 = Some x \<and> length (run_items list_abs x) = 1 \<and>
     Kernel_allocate_interrupt_executor list_libs (bounded_insert N_EXECUTORS) 2 k = Ret (2, k') \<and>
     k_execs k' 2 = Some x' \<and> run_items list_abs x' = []"
proof -
  let ?k0 = "Kernel_init list_libs 4096 (Kernel_statics list_libs undefined undefined ())
    :: (nat list, timer_queue_item list, nat option list, alarm_item list, unit, unit) kernel"
    and ?ops = "[BootAllocate 2, BootSpawn 2 () ''high'']" and ?ins = "bounded_insert N_EXECUTORS"
  have "\<exists>k x. boot_all list_libs ?ins demo_layout ?ops ?k0 = Ret k \<and> k_execs k 2 = Some x \<and>
      length (run_items list_abs x) = 1 \<and> length (callbacks_of list_libs k) = 1"
    by (simp add: boot_eval run_items_def callbacks_of_def list_abs_def del: bind_out_eq_Ret)
  then obtain k x where k: "boot_all list_libs ?ins demo_layout ?ops ?k0 = Ret k" "k_execs k 2 = Some x"
    "length (run_items list_abs x) = 1" "length (callbacks_of list_libs k) = 1" by blast
  have "boot_done list_libs list_abs ([] @ ?ops) k"
  proof (rule list_kernel.boot_all_done [OF bounded_map.linear_map_axioms _ _ _ _ _ k(1)])
    show "boot_done list_libs list_abs [] ?k0"
      by (rule list_kernel.init_done) (simp add: MEMORY_SIZE_def usize_max_def)
  qed (simp_all add: demo_layout_def boot_prios_def)
  then have "boot_inv list_libs list_abs k" by (rule boot_doneD(1))
  from reallocate_forgets_tasks [OF list_kernel_laws bounded_map.linear_map_axioms this k(2)] k(4)
  obtain k' x' where "Kernel_allocate_interrupt_executor list_libs ?ins 2 k = Ret (2, k')"
    "k_execs k' = (k_execs k)(2 \<mapsto> x')" "run_items list_abs x' = []"
    by (auto simp: N_ALARM_HANDLES_def)
  with k(2,3) show ?thesis
    by (intro exI [of _ k] exI [of _ x] exI [of _ k'] exI [of _ x']) simp
qed

end
