(* ===== verification/Kernel_Time.thy ===== *)
theory Kernel_Time
  imports Executor_Timers
begin

text \<open>
  The life of a timer across the components: a task that waits for a deadline (\<open>time/timer_fut.rs\<close>), its
  entry in the timer queue of its executor, the alarms and ticks of \<open>cpu/cpu0.rs\<close>, and the run of the
  executor that polls the task again; and two timers that do not work this way.
\<close>

text \<open>Successive tick interrupts.\<close>

fun timer_interrupts ::
  "nat \<Rightarrow> ('q, 'r, 't, 'v, 'a) kernel_libs \<Rightarrow> nat \<Rightarrow> ('q, 't, 'v, 'a, 'f, 's) kernel \<Rightarrow>
     ('q, 't, 'v, 'a, 'f, 's) kernel outcome option" where
  "timer_interrupts fuel L 0 k = Some (Ret k)"
| "timer_interrupts fuel L (Suc n) k =
     bind_fuel (Kernel_on_timer_interrupt fuel L k) (timer_interrupts fuel L n)"

text \<open>One poll of a task that waits for the first of two timers.\<close>

definition two_timers_poll :: "((timer, timer) select, 's) task_poll" where
  "two_timers_poll this cx v =
     (case Select_poll Timer_poll Timer_poll this cx v of
        (Ready _, this, v) \<Rightarrow> (Ready (), this, v)
      | (Pending, this, v) \<Rightarrow> (Pending, this, v))"

lemma two_timers_pending:
  assumes "tv_now v < d1" "tv_now v < d2"
  shows "two_timers_poll (select \<lparr>timer_expires_at = d1\<rparr> \<lparr>timer_expires_at = d2\<rparr>) cx v =
    (Pending, select \<lparr>timer_expires_at = d1\<rparr> \<lparr>timer_expires_at = d2\<rparr>,
     v\<lparr>tv_effects := tv_effects v @ [EffSetDeadline cx d1, EffSetDeadline cx d2]\<rparr>)"
  using assms by (simp add: two_timers_poll_def Select_poll_def Timer_poll_def select_def)

lemma now_Suc:
  fixes k :: "('q, 't, 'v, 'a, 'f, 's) kernel" and k' :: "('q, 't, 'v, 'a, 'f, 's) kernel"
  assumes "k_ticks k' = k_ticks k + 1" "Kernel_now k + 1 < 2 ^ 32"
  shows "Kernel_now k' = Kernel_now k + 1"
proof -
  have "unat (k_ticks k + 1) = (unat (k_ticks k) + unat (1 :: 32 word)) mod 2 ^ LENGTH(32)"
    by (rule unat_word_ariths)
  with assms(2) show ?thesis by (simp add: Kernel_now_def assms(1))
qed

context kernel_laws
begin

lemma timer_interrupts_ok:
  fixes k :: "('q, 't, 'v, 'a, 'f, 's) kernel"
  assumes fuel: "N_ALARM_ITEMS < fuel" and "kernel_inv L A k" "timer_armed L A e k" "k_execs k e = Some x"
    and "i \<in># timer_items A x" "Kernel_now k + n = ti_expires_at i" "ti_expires_at i + 1 < 2 ^ 32"
  shows "\<exists>k'. timer_interrupts fuel L (Suc n) k = Some (Ret k') \<and> kernel_inv L A k' \<and>
    k_execs k' = k_execs k \<and> k_tasks k' = k_tasks k \<and> Kernel_now k' = ti_expires_at i + 1 \<and>
    pended (be_pender x) k'"
  using assms(2-)
proof (induction n arbitrary: k)
  case 0
  from timer_interrupt_ok [OF 0(1) fuel] obtain k' where
    k': "Kernel_on_timer_interrupt fuel L k = Some (Ret k')" "kernel_inv L A k'" "k_ticks k' = k_ticks k + 1"
    "k_execs k' = k_execs k" "k_tasks k' = k_tasks k" "pended (be_pender x) k'"
    using 0 by auto
  moreover have "Kernel_now k' = ti_expires_at i + 1" using now_Suc [OF k'(3)] 0(5,6) by simp
  ultimately show ?case by simp
next
  case (Suc n)
  from timer_interrupt_ok [OF Suc.prems(1) fuel] obtain k1 where
    k1: "Kernel_on_timer_interrupt fuel L k = Some (Ret k1)" "kernel_inv L A k1" "k_ticks k1 = k_ticks k + 1"
    "k_execs k1 = k_execs k" "k_tasks k1 = k_tasks k" "timer_armed L A e k1"
    using Suc.prems by auto
  have "Kernel_now k1 + n = ti_expires_at i" using now_Suc [OF k1(3)] Suc.prems(5,6) by simp
  from Suc.IH [OF k1(2,6) _ Suc.prems(4) this Suc.prems(6)] obtain k' where
    "timer_interrupts fuel L (Suc n) k1 = Some (Ret k')" "kernel_inv L A k'" "k_execs k' = k_execs k"
    "k_tasks k' = k_tasks k" "Kernel_now k' = ti_expires_at i + 1" "pended (be_pender x) k'"
    using Suc.prems(3) by (auto simp: k1(4,5) simp del: timer_interrupts.simps)
  then show ?case by (intro exI [of _ k']) (simp add: k1(1))
qed

lemma expired_task_runs:
  fixes k :: "('q, 't, 'v, 'a, 'f, 's) kernel"
  assumes inv: "kernel_inv L A k" and p: "poll_ok poll (dom (k_tasks k))" and x: "k_execs k e = Some x"
    and i: "i \<in># timer_items A x" "ti_expires_at i \<le> Kernel_now k"
    and fits: "length (run_items A x) + size (timer_items A x) \<le> MAX_TASKS" and fuel: "N_TIMERS < fuel"
  shows "\<exists>k1 ts k2. BaseExecutor_check_timer_queue fuel L e k = Some (Ret k1) \<and> task_of i \<in> set ts \<and>
    run_in_order L poll e ts k1 = Ret k2 \<and>
    (\<forall>n. BaseExecutor_advance_runnable_tasks (length ts + n) L poll e k1 =
       BaseExecutor_advance_runnable_tasks n L poll e k2)"
proof -
  let ?ex = "filter_mset (expired (Kernel_now k)) (timer_items A x)"
  have "size ?ex \<le> size (timer_items A x)" by (rule size_mset_mono) simp
  with fits have "length (run_items A x) + size ?ex \<le> MAX_TASKS" by linarith
  with inv x fuel obtain items x1 where c:
    "mset items = ?ex" "BaseExecutor_check_timer_queue fuel L e k = Some (Ret (set_exec e x1 k))"
    "kernel_inv L A (set_exec e x1 k)" "run_items A x1 = run_items A x @ map task_of items"
    by (cases rule: check_timer_queue_cases) auto
  have "i \<in># mset items" unfolding c(1) using i by (simp add: expired_def)
  then have "task_of i \<in> set (run_items A x1)" using c(4) by simp
  moreover have "poll_ok poll (dom (k_tasks (set_exec e x1 k)))" using p by simp
  from advance_in_order [OF c(3) this, of e x1 "run_items A x1" "[]"]
  obtain k2 where "run_in_order L poll e (run_items A x1) (set_exec e x1 k) = Ret k2"
    "\<forall>n. BaseExecutor_advance_runnable_tasks (length (run_items A x1) + n) L poll e (set_exec e x1 k) =
       BaseExecutor_advance_runnable_tasks n L poll e k2" by auto
  ultimately show ?thesis using c(2) by blast
qed

end

section \<open>Properties\<close>

text \<open>
  C3. A sleeping task is polled again: in a well-formed kernel whose executor \<open>e\<close> is armed, take a task with
  a deadline in the timer queue of \<open>e\<close> that is not before the current tick and before the wrap of the
  tick counter.  The tick interrupts up to and including the tick of the deadline all return, and the last one leaves
  the executor pended; the executor's next run moves the task to the run queue and polls it, in the order of the
  queue, before anything that is woken meanwhile (if run queue and timers together hold at most 32 tasks).
\<close>

theorem sleeping_task_is_polled:
  fixes k :: "('q, 't, 'v, 'a, 'f, 's) kernel"
  assumes laws: "kernel_laws L A" and inv: "kernel_inv L A k" and armed: "timer_armed L A e k"
    and p: "poll_ok poll (dom (k_tasks k))" and x: "k_execs k e = Some x" and i: "i \<in># timer_items A x"
    and d: "Kernel_now k \<le> ti_expires_at i" "ti_expires_at i + 1 < 2 ^ 32"
    and fits: "length (run_items A x) + size (timer_items A x) \<le> MAX_TASKS"
    and fuel: "N_ALARM_ITEMS < fuel" "N_TIMERS < fuel"
  shows "\<exists>k' k1 ts k2.
    timer_interrupts fuel L (ti_expires_at i + 1 - Kernel_now k) k = Some (Ret k') \<and>
    Kernel_now k' = ti_expires_at i + 1 \<and> pended (be_pender x) k' \<and>
    BaseExecutor_check_timer_queue fuel L e k' = Some (Ret k1) \<and> task_of i \<in> set ts \<and>
    run_in_order L poll e ts k1 = Ret k2 \<and>
    (\<forall>n. BaseExecutor_advance_runnable_tasks (length ts + n) L poll e k1 =
       BaseExecutor_advance_runnable_tasks n L poll e k2)"
proof -
  let ?n = "ti_expires_at i - Kernel_now k"
  have n: "ti_expires_at i + 1 - Kernel_now k = Suc ?n" "Kernel_now k + ?n = ti_expires_at i" using d(1) by simp_all
  from kernel_laws.timer_interrupts_ok [OF laws fuel(1) inv armed x i n(2) d(2)] obtain k' where
    k': "timer_interrupts fuel L (Suc ?n) k = Some (Ret k')" "kernel_inv L A k'" "k_execs k' = k_execs k"
    "k_tasks k' = k_tasks k" "Kernel_now k' = ti_expires_at i + 1" "pended (be_pender x) k'" by blast
  have "poll_ok poll (dom (k_tasks k'))" "k_execs k' e = Some x" "ti_expires_at i \<le> Kernel_now k'"
    using p x by (simp_all add: k'(3-5))
  from kernel_laws.expired_task_runs [OF laws k'(2) this(1,2) i this(3) fits fuel(2)] show ?thesis
    unfolding n(1) using k'(1,5,6) by blast
qed

theorem sleeping_task_is_polled_witness:
  "\<exists>k' k1 ts k2.
     timer_interrupts 65 list_libs 3
       (demo_kernel [] [\<lparr>ti_expires_at = 5, ti_waker = RawWaker 100 VTABLE\<rparr>]
          [\<lparr>ai_expires_at = 5, ai_handle = AlarmHandle_from 0\<rparr>] 3 (0 :: nat)) = Some (Ret k') \<and>
     pended ThreadExecutorPender k' \<and> BaseExecutor_check_timer_queue 65 list_libs 0 k' = Some (Ret k1) \<and>
     100 \<in> set ts \<and> run_in_order list_libs (waking_poll 100) 0 ts k1 = Ret k2"
proof -
  let ?i = "\<lparr>ti_expires_at = 5, ti_waker = RawWaker 100 VTABLE\<rparr>" and ?a = "\<lparr>ai_expires_at = 5, ai_handle = AlarmHandle_from 0\<rparr>"
  let ?k = "demo_kernel [] [?i] [?a] 3 (0 :: nat)" and ?x = "demo_executor [] [?i]"
  have inv: "kernel_inv list_libs list_abs ?k"
    by (rule demo_kernel_inv) (simp_all add: N_TIMERS_def N_ALARM_ITEMS_def)
  have h: "be_alarm_handle ?x = Some (AlarmHandle_from 0)" by (simp add: demo_executor_def)
  have armed: "timer_armed list_libs list_abs 0 ?k" by (auto simp: timer_armed_def h demo_started)
  have p: "poll_ok (waking_poll 100) (dom (k_tasks ?k))" using waking_poll_ok(1) [of 100 "{100, 200}"] by simp
  have now: "Kernel_now ?k = 3" by (simp add: Kernel_now_def)
  have "?i \<in># timer_items list_abs ?x" "Kernel_now ?k \<le> ti_expires_at ?i" "ti_expires_at ?i + 1 < 2 ^ 32"
    "length (run_items list_abs ?x) + size (timer_items list_abs ?x) \<le> MAX_TASKS" "N_ALARM_ITEMS < 65" "N_TIMERS < 65"
    by (simp_all add: now MAX_TASKS_def N_ALARM_ITEMS_def N_TIMERS_def)
  from sleeping_task_is_polled [OF list_kernel_laws inv armed p _ this] show ?thesis
    unfolding now by (auto simp: task_of_def demo_executor_def simp del: timer_interrupts.simps)
qed

text \<open>
  C39. A task that waits for the first of two timers sleeps until the deadline of the second one: both futures
  write the one deadline of the task's header, so when both are pending only the deadline that is
  written last, that of the second timer, enters the timer queue, although the first one is earlier.
\<close>

theorem select_of_timers_oversleeps:
  fixes k :: "('q, 't, 'v, 'a, (timer, timer) select, 's) kernel"
  assumes laws: "kernel_laws L A" and inv: "kernel_inv L A k" and x: "k_execs k e = Some x"
    and h: "k_tasks k t = Some h" "th_fut_ref h = select \<lparr>timer_expires_at = d1\<rparr> \<lparr>timer_expires_at = d2\<rparr>"
    and d: "Kernel_now k < d1" "d1 < d2" and room: "size (timer_items A x) < N_TIMERS"
  shows "\<exists>k' x'. BaseExecutor_run_task L two_timers_poll e t k = Ret k' \<and> k_execs k' e = Some x' \<and>
    timer_items A x' = add_mset \<lparr>ti_expires_at = d2, ti_waker = RawWaker t VTABLE\<rparr> (timer_items A x)"
proof -
  let ?v = "\<lparr>tv_now = Kernel_now k, tv_effects = [], tv_shared = k_shared k\<rparr>" and ?w = "RawWaker t VTABLE"
  have "two_timers_poll (th_fut_ref h) ?w ?v = (Pending, th_fut_ref h,
      ?v\<lparr>tv_effects := [EffSetDeadline ?w d1, EffSetDeadline ?w d2]\<rparr>)"
    using d by (simp add: h(2) two_timers_pending)
  from kernel_laws.run_task_deadline [OF laws inv h(1) x, of two_timers_poll, OF this] h(1) room
  show ?thesis by (auto simp: last_deadline_def)
qed

definition select_kernel ::
  "(nat list, timer_queue_item list, nat option list, alarm_item list, (timer, timer) select, unit) kernel" where
  "select_kernel = \<lparr>k_tasks = [100 \<mapsto> \<lparr>th_name = [],
       th_fut_ref = select \<lparr>timer_expires_at = 10\<rparr> \<lparr>timer_expires_at = 1000\<rparr>, th_executor = 0, th_expires_at = None\<rparr>],
     k_execs = [0 \<mapsto> demo_executor [] []], k_alarm_queue = \<lparr>aq_callbacks = [Some 0], aq_queue = []\<rparr>,
     k_ticks = 0, k_local_event = False, k_sw_requests = {}, k_alloc = BumpAllocator_new 0 4096,
     k_thread_initialised = True, k_shared = ()\<rparr>"

theorem select_of_timers_oversleeps_witness:
  "\<exists>k' x'. BaseExecutor_run_task list_libs two_timers_poll 0 100 select_kernel = Ret k' \<and> k_execs k' 0 = Some x' \<and>
     timer_items list_abs x' = {#\<lparr>ti_expires_at = 1000, ti_waker = RawWaker 100 VTABLE\<rparr>#}"
proof -
  have inv: "kernel_inv list_libs list_abs select_kernel"
    by (auto simp: kernel_inv_def exec_ok_def select_kernel_def demo_executor_def list_libs_def list_abs_def
        run_items_def timer_items_def callbacks_of_def list_vec_def AlarmQueue_inv_def AlarmHandle_from_def
        MAX_TASKS_def N_ALARM_HANDLES_def split: if_splits)
  have "k_execs select_kernel 0 = Some (demo_executor [] [])" "Kernel_now select_kernel < 10" "(10 :: nat) < 1000"
    "size (timer_items list_abs (demo_executor [] [])) < N_TIMERS"
    by (simp_all add: select_kernel_def Kernel_now_def N_TIMERS_def)
  note f = this
  have h: "k_tasks select_kernel 100 = Some \<lparr>th_name = [],
      th_fut_ref = select \<lparr>timer_expires_at = 10\<rparr> \<lparr>timer_expires_at = 1000\<rparr>, th_executor = 0, th_expires_at = None\<rparr>"
    by (simp add: select_kernel_def)
  from select_of_timers_oversleeps [OF list_kernel_laws inv f(1) h _ f(2-4)] show ?thesis by simp
qed



end
