(* ===== verification/Hole_List.thy ===== *)
theory Hole_List
  imports Rust_Prelude
begin

text \<open>
  The definitions of the first-fit allocator of \<open>src/src/memory/heap.rs\<close>: a list of holes, sorted by
  address, whose nodes are stored in the holes themselves.

  Pointers are addresses, and the memory is a map from word addresses to words of 32 bits.  A \<open>Hole\<close> takes
  two words: its size, then its \<open>next\<close>, where 0 is \<open>None\<close>.  The first node of the list is not in this
  memory but a field of \<open>HoleList\<close>, so a pointer to a node is \<open>Stub\<close> or \<open>Node a\<close>.  \<open>debug_assert\<close>
  panics, as with debug assertions on.  The three functions that round addresses and sizes are called but not
  declared in the file; they are a parameter, with the laws that their counterparts in
  the crate \<open>linked_list_allocator\<close> document.
\<close>

record align_fns =
  al_up :: "nat \<Rightarrow> nat \<Rightarrow> nat"
  al_up_size :: "nat \<Rightarrow> nat \<Rightarrow> nat"
  al_down_size :: "nat \<Rightarrow> nat \<Rightarrow> nat"

type_synonym word_memory = "nat \<Rightarrow> nat"

section \<open>Layouts and addresses\<close>

definition is_pow2 :: "nat \<Rightarrow> bool" where
  "is_pow2 n \<longleftrightarrow> (\<exists>k \<in> {0..<32}. n = 2 ^ k)"

record mem_layout =
  ly_size :: nat
  ly_align :: nat

definition isize_max :: nat where
  "isize_max = 2147483647"

definition Layout_from_size_align :: "nat \<Rightarrow> nat \<Rightarrow> (mem_layout, unit) result" where
  "Layout_from_size_align sz align =
     (if is_pow2 align \<and> sz \<le> isize_max + 1 - align then Ok \<lparr>ly_size = sz, ly_align = align\<rparr> else Err ())"

definition wrapping_add :: "nat \<Rightarrow> nat \<Rightarrow> nat" where
  "wrapping_add a b = (a + b) mod 2 ^ 32"

text \<open>\<open>size_of::<Hole>()\<close>, \<open>align_of::<Hole>()\<close> and \<open>HoleList::min_size()\<close>.\<close>

definition HOLE_SIZE :: nat where "HOLE_SIZE = 8"
definition HOLE_ALIGN :: nat where "HOLE_ALIGN = 4"
definition HoleList_min_size :: nat where "HoleList_min_size = 4 * 2"

section \<open>Holes in memory\<close>

record hole =
  h_size :: nat
  h_next :: "nat option"

record hole_info =
  hi_addr :: nat
  hi_size :: nat

record hole_list =
  hl_first :: hole
  hl_bottom :: nat
  hl_top :: nat
  hl_pending_extend :: nat
  hl_mem :: word_memory

datatype hole_ptr = Stub | Node nat

record cursor =
  cur_prev :: hole_ptr
  cur_hole :: nat
  cur_top :: nat

definition ptr_of_word :: "nat \<Rightarrow> nat option" where
  "ptr_of_word w = (if w = 0 then None else Some w)"

fun word_of_ptr :: "nat option \<Rightarrow> nat" where
  "word_of_ptr None = 0"
| "word_of_ptr (Some p) = p"

definition node_size :: "nat \<Rightarrow> hole_list \<Rightarrow> nat" where
  "node_size a s = hl_mem s a"

fun next_of :: "hole_ptr \<Rightarrow> hole_list \<Rightarrow> nat option" where
  "next_of Stub s = h_next (hl_first s)"
| "next_of (Node a) s = ptr_of_word (hl_mem s (a + 4))"

fun set_next :: "hole_ptr \<Rightarrow> nat option \<Rightarrow> hole_list \<Rightarrow> hole_list" where
  "set_next Stub p s = s\<lparr>hl_first := (hl_first s)\<lparr>h_next := p\<rparr>\<rparr>"
| "set_next (Node a) p s = s\<lparr>hl_mem := (hl_mem s)(a + 4 := word_of_ptr p)\<rparr>"

definition set_size :: "nat \<Rightarrow> nat \<Rightarrow> hole_list \<Rightarrow> hole_list" where
  "set_size a sz s = s\<lparr>hl_mem := (hl_mem s)(a := sz)\<rparr>"

definition write_hole :: "nat \<Rightarrow> hole \<Rightarrow> hole_list \<Rightarrow> hole_list" where
  "write_hole a h s = s\<lparr>hl_mem := (hl_mem s)(a := h_size h, a + 4 := word_of_ptr (h_next h))\<rparr>"

definition make_hole :: "nat \<Rightarrow> nat \<Rightarrow> hole_list \<Rightarrow> (nat \<times> hole_list) outcome" where
  "make_hole addr sz s =
     bind_out (rust_assert (addr mod HOLE_ALIGN = 0)) (\<lambda>_.
       Ret (addr, write_hole addr \<lparr>h_size = sz, h_next = None\<rparr> s))"

section \<open>Cursors\<close>

definition Cursor_next :: "cursor \<Rightarrow> hole_list \<Rightarrow> cursor option" where
  "Cursor_next c s =
     map_option (\<lambda>nhole. \<lparr>cur_prev = Node (cur_hole c), cur_hole = nhole, cur_top = cur_top c\<rparr>)
       (next_of (Node (cur_hole c)) s)"

definition HoleList_cursor :: "hole_list \<Rightarrow> cursor option" where
  "HoleList_cursor s =
     (case h_next (hl_first s) of
        Some hole \<Rightarrow> Some \<lparr>cur_prev = Stub, cur_hole = hole, cur_top = hl_top s\<rparr>
      | None \<Rightarrow> None)"

text \<open>
  The first half of \<open>Cursor::split_current\<close>: where an allocation would start in a hole, with the
  paddings in front of it and behind it; \<open>None\<close> when the hole does not fit.
\<close>

definition split_plan ::
  "align_fns \<Rightarrow> nat \<Rightarrow> nat \<Rightarrow> mem_layout \<Rightarrow> (nat \<times> nat \<times> hole_info option \<times> hole_info option) option outcome" where
  "split_plan F hole_addr hole_size required_layout =
     (let required_size = ly_size required_layout; required_align = ly_align required_layout
      in if hole_size < required_size then Ret None
         else bind_out
           (if hole_addr = al_up F hole_addr required_align then Ret (None, hole_addr)
            else let new_start = wrapping_add hole_addr HoleList_min_size;
                     aligned_addr = al_up F new_start required_align
                 in bind_out (sub_usize aligned_addr hole_addr) (\<lambda>sz.
                      Ret (Some \<lparr>hi_addr = hole_addr, hi_size = sz\<rparr>, aligned_addr)))
           (\<lambda>(front_padding, aligned_addr).
              let allocation_end = wrapping_add aligned_addr required_size;
                  hole_end = wrapping_add hole_addr hole_size
              in if hole_end < allocation_end then Ret None
                 else bind_out (sub_usize hole_end allocation_end) (\<lambda>back_padding_size.
                   if back_padding_size = 0 then Ret (Some (aligned_addr, required_size, front_padding, None))
                   else let back_padding_start = al_up F allocation_end HOLE_ALIGN;
                            back_padding_end = wrapping_add back_padding_start HOLE_SIZE
                        in if back_padding_end \<le> hole_end
                           then Ret (Some (aligned_addr, required_size, front_padding,
                             Some \<lparr>hi_addr = back_padding_start, hi_size = back_padding_size\<rparr>))
                           else Ret None)))"

definition Cursor_split_current ::
  "align_fns \<Rightarrow> cursor \<Rightarrow> mem_layout \<Rightarrow> hole_list \<Rightarrow> ((nat \<times> nat, cursor) result \<times> hole_list) outcome" where
  "Cursor_split_current F c required_layout s =
     bind_out (split_plan F (cur_hole c) (node_size (cur_hole c) s) required_layout) (\<lambda>plan.
       case plan of
         None \<Rightarrow> Ret (Err c, s)
       | Some (alloc_ptr, alloc_size, front_padding, back_padding) \<Rightarrow>
           let prev = cur_prev c;
               hole = cur_hole c;
               s = set_next prev None s;
               maybe_next_addr = next_of (Node hole) s;
               s = set_next (Node hole) None s;
               s = (case (front_padding, back_padding) of
                      (None, None) \<Rightarrow> set_next prev maybe_next_addr s
                    | (None, Some singlepad) \<Rightarrow>
                        set_next prev (Some (hi_addr singlepad))
                          (write_hole (hi_addr singlepad) \<lparr>h_size = hi_size singlepad, h_next = maybe_next_addr\<rparr> s)
                    | (Some singlepad, None) \<Rightarrow>
                        set_next prev (Some (hi_addr singlepad))
                          (write_hole (hi_addr singlepad) \<lparr>h_size = hi_size singlepad, h_next = maybe_next_addr\<rparr> s)
                    | (Some frontpad, Some backpad) \<Rightarrow>
                        set_next prev (Some (hi_addr frontpad))
                          (write_hole (hi_addr frontpad) \<lparr>h_size = hi_size frontpad, h_next = Some (hi_addr backpad)\<rparr>
                            (write_hole (hi_addr backpad) \<lparr>h_size = hi_size backpad, h_next = maybe_next_addr\<rparr> s)))
           in Ret (Ok (alloc_ptr, alloc_size), s))"

section \<open>Merging\<close>

definition check_merge_top :: "align_fns \<Rightarrow> nat \<Rightarrow> nat \<Rightarrow> hole_list \<Rightarrow> hole_list outcome" where
  "check_merge_top F node list_top s =
     (let node_sz = node_size node s;
          e = wrapping_add node node_sz
      in if e < list_top then
           let next_hole_end = wrapping_add (al_up F e HOLE_ALIGN) HOLE_SIZE
           in if list_top < next_hole_end then
                bind_out (sub_usize list_top e) (\<lambda>offset.
                bind_out (add_usize (node_size node s) offset) (\<lambda>sz. Ret (set_size node sz s)))
              else Ret s
         else Ret s)"

definition check_merge_bottom :: "nat \<Rightarrow> nat \<Rightarrow> hole_list \<Rightarrow> (nat \<times> hole_list) outcome" where
  "check_merge_bottom node bottom s =
     (if node < wrapping_add bottom HOLE_SIZE then
        bind_out (sub_usize node bottom) (\<lambda>offset.
        bind_out (add_usize (node_size node s) offset) (\<lambda>sz. make_hole bottom sz s))
      else Ret (node, s))"

definition Cursor_try_insert_back ::
  "cursor \<Rightarrow> nat \<Rightarrow> nat \<Rightarrow> hole_list \<Rightarrow> ((cursor, cursor) result \<times> hole_list) outcome" where
  "Cursor_try_insert_back c node bottom s =
     (if node < cur_hole c then
        bind_out (check_merge_bottom node bottom s) (\<lambda>(node', s).
          Ret (Ok (c\<lparr>cur_hole := node\<rparr>),
               set_next (Node node') (Some (cur_hole c)) (set_next (cur_prev c) (Some node') s)))
      else Ret (Err c, s))"

definition Cursor_try_insert_after ::
  "cursor \<Rightarrow> nat \<Rightarrow> hole_list \<Rightarrow> (unit, unit) result \<times> hole_list" where
  "Cursor_try_insert_after c node s =
     (let insert = (let maybe_next = next_of (Node (cur_hole c)) s;
                        s = set_next (Node (cur_hole c)) (Some node) s
                    in (Ok (), set_next (Node node) maybe_next s))
      in case next_of (Node (cur_hole c)) s of
           Some next \<Rightarrow> if node < next then insert else (Err (), s)
         | None \<Rightarrow> insert)"

text \<open>The loop of \<open>try_merge_next_n\<close>; the cursor is read through its hole and its top only.\<close>

fun Cursor_try_merge_next_n ::
  "align_fns \<Rightarrow> nat \<Rightarrow> nat \<Rightarrow> nat \<Rightarrow> hole_list \<Rightarrow> hole_list outcome" where
  "Cursor_try_merge_next_n F hole list_top 0 s = Ret s"
| "Cursor_try_merge_next_n F hole list_top (Suc n) s =
     (case next_of (Node hole) s of
        None \<Rightarrow> check_merge_top F hole list_top s
      | Some next \<Rightarrow>
          let hole_sz = node_size hole s;
              e = wrapping_add hole hole_sz
          in if e = next then
               let next_sz = node_size next s;
                   next_next = next_of (Node next) s;
                   s = set_next (Node next) None s;
                   s = set_next (Node hole) next_next s
               in bind_out (add_usize (node_size hole s) next_sz) (\<lambda>sz.
                    Cursor_try_merge_next_n F hole list_top n (set_size hole sz s))
             else Cursor_try_merge_next_n F next list_top n s)"

section \<open>The hole list\<close>

definition HoleList_empty :: "word_memory \<Rightarrow> hole_list" where
  "HoleList_empty mem = \<lparr>hl_first = \<lparr>h_size = 0, h_next = None\<rparr>, hl_bottom = 0, hl_top = 0,
     hl_pending_extend = 0, hl_mem = mem\<rparr>"

definition HoleList_new :: "align_fns \<Rightarrow> nat \<Rightarrow> nat \<Rightarrow> word_memory \<Rightarrow> hole_list outcome" where
  "HoleList_new F hole_addr hole_size mem =
     bind_out (rust_assert (HOLE_SIZE = HoleList_min_size)) (\<lambda>_.
     bind_out (rust_assert (HOLE_SIZE \<le> hole_size)) (\<lambda>_.
       let aligned_hole_addr = al_up F hole_addr HOLE_ALIGN
       in bind_out (bind_out (sub_usize aligned_hole_addr hole_addr) (sub_usize hole_size)) (\<lambda>requested_hole_size.
       let aligned_hole_size = al_down_size F requested_hole_size HOLE_ALIGN
       in bind_out (rust_assert (HOLE_SIZE \<le> aligned_hole_size)) (\<lambda>_.
          bind_out (rust_assert (wrapping_add hole_addr hole_size =
              wrapping_add aligned_hole_addr requested_hole_size)) (\<lambda>_.
          bind_out (sub_usize requested_hole_size aligned_hole_size) (\<lambda>pending.
            Ret (write_hole aligned_hole_addr \<lparr>h_size = aligned_hole_size, h_next = None\<rparr>
              \<lparr>hl_first = \<lparr>h_size = 0, h_next = Some aligned_hole_addr\<rparr>, hl_bottom = aligned_hole_addr,
               hl_top = wrapping_add aligned_hole_addr aligned_hole_size,
               hl_pending_extend = pending mod 256, hl_mem = mem\<rparr>)))))))"

definition HoleList_align_layout :: "align_fns \<Rightarrow> mem_layout \<Rightarrow> mem_layout outcome" where
  "HoleList_align_layout F layout =
     (let sz = ly_size layout;
          sz = (if sz < HoleList_min_size then HoleList_min_size else sz);
          sz = al_up_size F sz HOLE_ALIGN
      in unwrap_result (Layout_from_size_align sz (ly_align layout)))"

text \<open>The loop of \<open>allocate_first_fit\<close>; the fuel bounds the number of holes it visits.\<close>

fun first_fit_loop ::
  "nat \<Rightarrow> align_fns \<Rightarrow> mem_layout \<Rightarrow> cursor \<Rightarrow> hole_list \<Rightarrow>
     ((nat \<times> mem_layout, unit) result \<times> hole_list) outcome option" where
  "first_fit_loop 0 F aligned_layout c s = None"
| "first_fit_loop (Suc fuel) F aligned_layout c s =
     bind_fuel (Some (Cursor_split_current F c aligned_layout s)) (\<lambda>(r, s).
       case r of
         Ok (ptr, len) \<Rightarrow> Some (Ret (if ptr = 0 then Err () else Ok (ptr, aligned_layout), s))
       | Err curs \<Rightarrow>
           (case Cursor_next curs s of
              None \<Rightarrow> Some (Ret (Err (), s))
            | Some c \<Rightarrow> first_fit_loop fuel F aligned_layout c s))"

definition HoleList_allocate_first_fit ::
  "nat \<Rightarrow> align_fns \<Rightarrow> mem_layout \<Rightarrow> hole_list \<Rightarrow>
     ((nat \<times> mem_layout, unit) result \<times> hole_list) outcome option" where
  "HoleList_allocate_first_fit fuel F layout s =
     bind_fuel (Some (HoleList_align_layout F layout)) (\<lambda>aligned_layout.
       case HoleList_cursor s of
         None \<Rightarrow> Some (Ret (Err (), s))
       | Some c \<Rightarrow> first_fit_loop fuel F aligned_layout c s)"

text \<open>The loop of \<open>deallocate\<close> that looks for the hole in front of the new one.\<close>

fun insert_loop :: "nat \<Rightarrow> cursor \<Rightarrow> nat \<Rightarrow> hole_list \<Rightarrow> (cursor \<times> hole_list) outcome option" where
  "insert_loop 0 c hole s = None"
| "insert_loop (Suc fuel) c hole s =
     (case Cursor_try_insert_after c hole s of
        (Ok _, s) \<Rightarrow> Some (Ret (c, s))
      | (Err _, s) \<Rightarrow>
          bind_fuel (Some (unwrap_option (Cursor_next c s))) (\<lambda>c. insert_loop fuel c hole s))"

definition deallocate :: "nat \<Rightarrow> align_fns \<Rightarrow> nat \<Rightarrow> nat \<Rightarrow> hole_list \<Rightarrow> hole_list outcome option" where
  "deallocate fuel F addr sz s =
     bind_fuel (Some (make_hole addr sz s)) (\<lambda>(hole, s).
       case HoleList_cursor s of
         None \<Rightarrow> Some (bind_out (check_merge_bottom hole (hl_bottom s) s) (\<lambda>(hole, s).
           bind_out (check_merge_top F hole (hl_top s) s) (\<lambda>s. Ret (set_next Stub (Some hole) s))))
       | Some c \<Rightarrow>
           bind_fuel (Some (Cursor_try_insert_back c hole (hl_bottom s) s)) (\<lambda>(r, s).
             case r of
               Ok c \<Rightarrow> Some (Cursor_try_merge_next_n F (cur_hole c) (cur_top c) 1 s)
             | Err c \<Rightarrow> bind_fuel (insert_loop fuel c hole s) (\<lambda>(c, s).
                 Some (Cursor_try_merge_next_n F (cur_hole c) (cur_top c) 2 s))))"

definition HoleList_deallocate ::
  "nat \<Rightarrow> align_fns \<Rightarrow> nat \<Rightarrow> mem_layout \<Rightarrow> hole_list \<Rightarrow> (mem_layout \<times> hole_list) outcome option" where
  "HoleList_deallocate fuel F ptr layout s =
     bind_fuel (Some (HoleList_align_layout F layout)) (\<lambda>aligned_layout.
     bind_fuel (deallocate fuel F ptr (ly_size aligned_layout) s) (\<lambda>s. Some (Ret (aligned_layout, s))))"

definition ptr_align_offset :: "nat \<Rightarrow> nat \<Rightarrow> nat" where
  "ptr_align_offset p align = (if p mod align = 0 then 0 else align - p mod align)"

definition HoleList_extend :: "nat \<Rightarrow> align_fns \<Rightarrow> nat \<Rightarrow> hole_list \<Rightarrow> hole_list outcome option" where
  "HoleList_extend fuel F by s =
     bind_fuel (Some (rust_assert (hl_top s \<noteq> 0))) (\<lambda>_.
       let list_top = hl_top s
       in bind_fuel (Some (rust_assert (ptr_align_offset list_top HOLE_ALIGN = 0))) (\<lambda>_.
          bind_fuel (Some (rust_assert (hl_pending_extend s < HoleList_min_size))) (\<lambda>_.
          bind_fuel (Some (add_usize (hl_pending_extend s) by)) (\<lambda>extend_by.
            if extend_by < HoleList_min_size then Some (Ret (s\<lparr>hl_pending_extend := extend_by mod 256\<rparr>))
            else let new_hole_size = al_down_size F extend_by HOLE_ALIGN
              in bind_fuel (Some (unwrap_result (Layout_from_size_align new_hole_size 1))) (\<lambda>layout.
                 bind_fuel (HoleList_deallocate fuel F list_top layout s) (\<lambda>(_, s).
                   if usize_max < list_top + new_hole_size then Some (Panic UndefinedBehaviour)
                   else Some (bind_out (sub_usize extend_by new_hole_size) (\<lambda>pending.
                     Ret (s\<lparr>hl_top := list_top + new_hole_size, hl_pending_extend := pending mod 256\<rparr>)))))))))"

end
