(* ===== verification/Hole_Chain.thy ===== *)
theory Hole_Chain
  imports Hole_List
begin

text \<open>
  The operations of \<open>memory/heap.rs\<close> on the linked list in memory, against lists of holes
  \<open>(address, size)\<close>: \<open>linked s r hs\<close> says that the nodes behind \<open>r\<close> are the holes \<open>hs\<close>.  The laws of the
  rounding functions are the locale \<open>hole_align\<close>.
\<close>

section \<open>Rounding\<close>

definition round_to :: "nat \<Rightarrow> nat \<Rightarrow> nat" where
  "round_to a al = (a + al - 1) div al * al"

locale hole_align =
  fixes F :: align_fns
  assumes up: "is_pow2 al \<Longrightarrow> round_to a al \<le> usize_max \<Longrightarrow> al_up F a al = round_to a al"
    and up_size: "is_pow2 al \<Longrightarrow> round_to a al \<le> usize_max \<Longrightarrow> al_up_size F a al = round_to a al"
    and down_size: "is_pow2 al \<Longrightarrow> al_down_size F a al = a div al * al"

definition std_align :: align_fns where
  "std_align = \<lparr>al_up = round_to, al_up_size = round_to, al_down_size = \<lambda>a al. a div al * al\<rparr>"

interpretation std_align: hole_align std_align
  by unfold_locales (simp_all add: std_align_def)

lemma round_to_bounds:
  assumes "0 < al"
  shows "al dvd round_to a al" "a \<le> round_to a al" "round_to a al < a + al"
proof -
  let ?b = "a + al - 1"
  have "?b div al * al + ?b mod al = ?b" by (rule div_mult_mod_eq)
  moreover have "?b mod al < al" using assms by simp
  ultimately show "a \<le> round_to a al" "round_to a al < a + al"
    using assms unfolding round_to_def by linarith+
qed (simp add: round_to_def)

lemma round_to_dvd: "0 < al \<Longrightarrow> al dvd a \<Longrightarrow> round_to a al = a"
proof -
  assume al: "0 < al" "al dvd a"
  note b = round_to_bounds [OF al(1), of a]
  have "al dvd round_to a al - a" using b(1) al(2) by (rule dvd_diff_nat)
  moreover have "round_to a al - a < al" using b(2,3) by simp
  ultimately have "round_to a al - a = 0" using nat_dvd_not_less by blast
  with b(2) show ?thesis by simp
qed

lemma is_pow2_pos: "is_pow2 al \<Longrightarrow> 0 < al"
  by (auto simp: is_pow2_def)

lemma is_pow2_numerals [simp]: "is_pow2 (Suc 0)" "is_pow2 1" "is_pow2 4" "is_pow2 8" "is_pow2 16"
proof -
  have "is_pow2 (2 ^ k)" if "k < 32" for k using that by (auto simp: is_pow2_def)
  from this [of 0] this [of 2] this [of 3] this [of 4] show "is_pow2 (Suc 0)" "is_pow2 1" "is_pow2 4" "is_pow2 8" "is_pow2 16" by simp_all
qed

text \<open>A power of two that does not divide a multiple of 4 is itself a multiple of 4.\<close>

lemma is_pow2_4_dvd:
  assumes "is_pow2 al" "4 dvd a" "\<not> al dvd a"
  shows "4 dvd al"
proof -
  from assms(1) obtain k where k: "al = 2 ^ k" by (auto simp: is_pow2_def)
  have "2 \<le> k"
  proof (rule ccontr)
    assume "\<not> 2 \<le> k"
    then have "k = 0 \<or> k = 1" by auto
    with k have "al dvd 4" by auto
    with assms(2,3) show False by (meson dvd_trans)
  qed
  then have "(2 :: nat) ^ 2 dvd 2 ^ k" by (rule le_imp_power_dvd)
  with k show ?thesis by simp
qed

section \<open>Where an allocation goes\<close>

text \<open>The sizes of the paddings in front of an allocation and behind it.\<close>

definition alloc_start :: "nat \<Rightarrow> nat \<Rightarrow> nat" where
  "alloc_start a al = (if al dvd a then a else round_to (a + 8) al)"

definition paddings :: "nat \<Rightarrow> nat \<Rightarrow> mem_layout \<Rightarrow> (nat \<times> nat) option" where
  "paddings a n ly =
     (let start = alloc_start a (ly_align ly); e = start + ly_size ly
      in if e = a + n then Some (start - a, 0)
         else if e + 8 \<le> a + n then Some (start - a, a + n - e)
         else None)"

definition pad_info :: "nat \<Rightarrow> nat \<Rightarrow> hole_info option" where
  "pad_info a n = (if n = 0 then None else Some \<lparr>hi_addr = a, hi_size = n\<rparr>)"

definition layout_ok :: "mem_layout \<Rightarrow> bool" where
  "layout_ok ly \<longleftrightarrow> is_pow2 (ly_align ly) \<and> 4 dvd ly_size ly \<and> 8 \<le> ly_size ly"

lemma alloc_start_bounds:
  assumes "is_pow2 al" "4 dvd a"
  shows "a \<le> alloc_start a al" "alloc_start a al \<le> a + 8 + al" "4 dvd alloc_start a al" "al dvd alloc_start a al"
    "alloc_start a al = a \<or> a + 8 \<le> alloc_start a al"
proof -
  note b = round_to_bounds [OF is_pow2_pos [OF assms(1)], of "a + 8"]
  show "a \<le> alloc_start a al" "alloc_start a al \<le> a + 8 + al" "al dvd alloc_start a al"
    "alloc_start a al = a \<or> a + 8 \<le> alloc_start a al"
    using b by (auto simp: alloc_start_def)
  show "4 dvd alloc_start a al"
    using assms(2) dvd_trans [OF is_pow2_4_dvd [OF assms] b(1)] by (auto simp: alloc_start_def)
qed

lemma paddings_Some:
  assumes "paddings a n ly = Some (f, b)" "layout_ok ly" "4 dvd a" "4 dvd n"
  shows "f + ly_size ly + b = n" "f = 0 \<or> 8 \<le> f" "b = 0 \<or> 8 \<le> b" "4 dvd f" "4 dvd b"
    "a + f = alloc_start a (ly_align ly)"
proof -
  let ?st = "alloc_start a (ly_align ly)"
  have pow: "is_pow2 (ly_align ly)" and sz: "4 dvd ly_size ly" using assms(2) by (simp_all add: layout_ok_def)
  note st = alloc_start_bounds [OF pow assms(3)]
  show sum: "f + ly_size ly + b = n" and "b = 0 \<or> 8 \<le> b" and eq: "a + f = ?st"
    using assms(1) st(1) by (auto simp: paddings_def Let_def split: if_splits)
  then show "f = 0 \<or> 8 \<le> f" using st(5) by auto
  show f4: "4 dvd f" using st(3) eq assms(3) by (metis dvd_add_right_iff)
  show "4 dvd b" using f4 sz sum assms(4) by (metis dvd_add dvd_add_right_iff)
qed

lemma wrapping_add_small [simp]: "a + b \<le> usize_max \<Longrightarrow> wrapping_add a b = a + b"
  by (simp add: wrapping_add_def usize_max_def)

context hole_align
begin

lemma up_dvd: "is_pow2 al \<Longrightarrow> al dvd a \<Longrightarrow> a \<le> usize_max \<Longrightarrow> al_up F a al = a"
  using up [of al a] by (simp add: round_to_dvd is_pow2_pos)

lemma up_hole [simp]: "4 dvd a \<Longrightarrow> a \<le> usize_max \<Longrightarrow> al_up F a HOLE_ALIGN = a"
  by (rule up_dvd) (simp_all add: HOLE_ALIGN_def)

lemma split_plan_eq:
  assumes ly: "layout_ok ly" and a: "4 dvd a" "4 dvd n" and bd: "a + n + ly_align ly + 8 \<le> usize_max"
  shows "split_plan F a n ly = Ret (map_option (\<lambda>(f, b).
    (a + f, ly_size ly, pad_info a f, pad_info (a + f + ly_size ly) b)) (paddings a n ly))"
proof -
  let ?al = "ly_align ly" and ?sz = "ly_size ly" and ?st = "alloc_start a (ly_align ly)"
  have pow: "is_pow2 ?al" and sz: "4 dvd ?sz" "0 < ?sz" using ly by (auto simp: layout_ok_def)
  note st = alloc_start_bounds [OF pow a(1)]
  have pos: "0 < ?al" using pow by (rule is_pow2_pos)
  have fst_eq: "(if a = al_up F a ?al then Ret (None, a)
      else let new_start = wrapping_add a HoleList_min_size; aligned_addr = al_up F new_start ?al
           in bind_out (sub_usize aligned_addr a) (\<lambda>sz. Ret (Some \<lparr>hi_addr = a, hi_size = sz\<rparr>, aligned_addr)))
    = Ret (pad_info a (?st - a), ?st)"
  proof (cases "?al dvd a")
    case True
    then show ?thesis using up_dvd [OF pow True] bd by (simp add: alloc_start_def pad_info_def)
  next
    case False
    note r = round_to_bounds [OF pos, of a] and r8 = round_to_bounds [OF pos, of "a + 8"]
    have "al_up F a ?al = round_to a ?al" using r bd by (intro up [OF pow]) simp
    moreover have "round_to a ?al \<noteq> a" using r(1) False by auto
    moreover have "al_up F (a + 8) ?al = round_to (a + 8) ?al" using r8 bd by (intro up [OF pow]) simp
    ultimately show ?thesis
      using False bd r8(2) by (simp add: alloc_start_def pad_info_def HoleList_min_size_def Let_def)
  qed
  show ?thesis
  proof (cases "n < ?sz")
    case True
    with st(1) have "paddings a n ly = None" by (simp add: paddings_def Let_def)
    with True show ?thesis by (simp add: split_plan_def)
  next
    case False
    then have w: "wrapping_add ?st ?sz = ?st + ?sz" "wrapping_add a n = a + n"
      using st(2) bd by simp_all
    have up4: "al_up F (?st + ?sz) HOLE_ALIGN = ?st + ?sz" if "?st + ?sz \<le> a + n"
      using that st(3) sz(1) bd by (intro up_hole) simp_all
    have w8: "wrapping_add (?st + ?sz) HOLE_SIZE = ?st + ?sz + 8" if "?st + ?sz \<le> a + n"
      using that bd by (simp add: HOLE_SIZE_def)
    have pi: "pad_info x m = Some \<lparr>hi_addr = x, hi_size = m\<rparr>" if "m \<noteq> 0" for x m
      using that by (simp add: pad_info_def)
    show ?thesis
      unfolding split_plan_def Let_def
      unfolding fst_eq [unfolded Let_def]
      using False w up4 w8 st(1)
      by (auto simp: paddings_def Let_def pad_info_def)
  qed
qed

end

section \<open>Linked holes\<close>

text \<open>The nodes whose \<open>next\<close> a segment uses, and the node it ends with.\<close>

fun refs :: "hole_ptr \<Rightarrow> (nat \<times> nat) list \<Rightarrow> hole_ptr list" where
  "refs r [] = []"
| "refs r ((a, n) # hs) = r # refs (Node a) hs"

fun last_ref :: "hole_ptr \<Rightarrow> (nat \<times> nat) list \<Rightarrow> hole_ptr" where
  "last_ref r [] = r"
| "last_ref r ((a, n) # hs) = last_ref (Node a) hs"

fun seg :: "hole_list \<Rightarrow> hole_ptr \<Rightarrow> (nat \<times> nat) list \<Rightarrow> bool" where
  "seg s r [] = True"
| "seg s r ((a, n) # hs) = (next_of r s = Some a \<and> node_size a s = n \<and> seg s (Node a) hs)"

definition linked :: "hole_list \<Rightarrow> hole_ptr \<Rightarrow> (nat \<times> nat) list \<Rightarrow> bool" where
  "linked s r hs \<longleftrightarrow> seg s r hs \<and> next_of (last_ref r hs) s = None"

text \<open>Holes between two addresses: aligned, at least 8 bytes, in order and disjoint.\<close>

fun spaced :: "nat \<Rightarrow> (nat \<times> nat) list \<Rightarrow> nat \<Rightarrow> bool" where
  "spaced lo [] hi = (lo \<le> hi)"
| "spaced lo ((a, n) # hs) hi = (lo \<le> a \<and> 4 dvd a \<and> 4 dvd n \<and> 8 \<le> n \<and> spaced (a + n) hs hi)"

lemma seg_append [simp]: "seg s r (xs @ ys) \<longleftrightarrow> seg s r xs \<and> seg s (last_ref r xs) ys"
  by (induction xs arbitrary: r) auto

lemma last_ref_append [simp]: "last_ref r (xs @ ys) = last_ref (last_ref r xs) ys"
  by (induction xs arbitrary: r) auto

lemma linked_append: "linked s r (xs @ ys) \<longleftrightarrow> seg s r xs \<and> linked s (last_ref r xs) ys"
  by (simp add: linked_def)

lemma linked_Nil [simp]: "linked s r [] \<longleftrightarrow> next_of r s = None"
  by (simp add: linked_def)

lemma linked_Cons [simp]:
  "linked s r ((a, n) # hs) \<longleftrightarrow> next_of r s = Some a \<and> node_size a s = n \<and> linked s (Node a) hs"
  by (auto simp: linked_def)

lemma refs_cases: "x \<in> set (refs r hs) \<Longrightarrow> x = r \<or> (\<exists>a n. x = Node a \<and> (a, n) \<in> set hs)"
  by (induction r hs rule: refs.induct) auto

lemma last_ref_cases: "last_ref r hs = r \<and> hs = [] \<or> (\<exists>a n. last_ref r hs = Node a \<and> (a, n) \<in> set hs)"
  by (induction r hs rule: last_ref.induct) auto

lemma last_ref_last: "hs \<noteq> [] \<Longrightarrow> last_ref r hs = Node (fst (last hs))"
  by (induction r hs rule: last_ref.induct) auto

lemma spaced_le: "spaced lo hs hi \<Longrightarrow> lo \<le> hi"
  by (induction lo hs hi rule: spaced.induct) auto

lemma spaced_mem:
  "spaced lo hs hi \<Longrightarrow> (a, n) \<in> set hs \<Longrightarrow> lo \<le> a \<and> a + n \<le> hi \<and> 8 \<le> n \<and> 4 dvd a \<and> 4 dvd n"
  by (induction lo hs hi rule: spaced.induct) (auto dest: spaced_le)

lemma spaced_append: "spaced lo (xs @ ys) hi \<longleftrightarrow> (\<exists>m. spaced lo xs m \<and> spaced m ys hi)"
proof (induction xs arbitrary: lo)
  case Nil
  have "spaced lo ys hi" if "lo \<le> m" "spaced m ys hi" for m
    using that by (cases ys) auto
  then show ?case by auto
next
  case (Cons x xs)
  then show ?case by (cases x) auto
qed

lemma spaced_lower: "spaced m hs hi \<Longrightarrow> lo \<le> m \<Longrightarrow> spaced lo hs hi"
  by (cases "(lo, hs, hi)" rule: spaced.cases) auto

lemma spaced_upper: "spaced lo hs m \<Longrightarrow> m \<le> hi \<Longrightarrow> spaced lo hs hi"
  by (induction lo hs m rule: spaced.induct) auto

lemma spaced_middle:
  assumes "spaced lo (xs @ (a, n) # ys) hi"
  shows "spaced lo xs a" "spaced (a + n) ys hi" "lo \<le> a" "a + n \<le> hi" "8 \<le> n" "4 dvd a" "4 dvd n"
proof -
  from assms obtain m where m: "spaced lo xs m" "m \<le> a" "4 dvd a" "4 dvd n" "8 \<le> n" "spaced (a + n) ys hi"
    by (auto simp: spaced_append)
  then show "spaced lo xs a" "spaced (a + n) ys hi" "8 \<le> n" "4 dvd a" "4 dvd n" by (auto intro: spaced_upper)
  then show "lo \<le> a" "a + n \<le> hi" by (auto dest: spaced_le)
qed

text \<open>No node of a segment that starts below it is its last node.\<close>

lemma last_ref_notin_refs:
  "spaced lo hs hi \<Longrightarrow> r = Stub \<or> (\<exists>b. r = Node b \<and> b < lo) \<Longrightarrow> last_ref r hs \<notin> set (refs r hs)"
proof (induction r hs arbitrary: lo rule: refs.induct)
  case (2 r a n hs)
  have "last_ref (Node a) hs \<notin> set (refs (Node a) hs)"
    using 2(2) by (intro 2(1) [of "a + n"]) auto
  moreover have "last_ref (Node a) hs \<noteq> r"
  proof
    assume "last_ref (Node a) hs = r"
    then obtain b where "r = Node b" "b = a \<or> b \<in> fst ` set hs" using last_ref_cases [of "Node a" hs] by force
    moreover from this have "lo \<le> b" using 2(2) by (auto dest: spaced_mem)
    ultimately show False using 2(3) by auto
  qed
  ultimately show ?case by simp
qed simp

lemma seg_cong:
  assumes "seg s r hs" "\<And>a n. (a, n) \<in> set hs \<Longrightarrow> node_size a s' = node_size a s"
    and "\<And>x. x \<in> set (refs r hs) \<Longrightarrow> next_of x s' = next_of x s"
  shows "seg s' r hs"
  using assms by (induction s r hs rule: seg.induct) auto

lemma linked_cong:
  assumes "linked s r hs" "\<And>a n. (a, n) \<in> set hs \<Longrightarrow> node_size a s' = node_size a s"
    and "\<And>x. x = r \<or> (\<exists>a n. x = Node a \<and> (a, n) \<in> set hs) \<Longrightarrow> next_of x s' = next_of x s"
  shows "linked s' r hs"
proof -
  from assms(1) have l: "seg s r hs" "next_of (last_ref r hs) s = None" by (simp_all add: linked_def)
  have "next_of x s' = next_of x s" if "x \<in> set (refs r hs)" for x
    using assms(3) refs_cases [OF that] by blast
  with l(1) assms(2) have "seg s' r hs" by (rule seg_cong)
  moreover have "next_of (last_ref r hs) s' = next_of (last_ref r hs) s"
    using assms(3) last_ref_cases [of r hs] by blast
  ultimately show ?thesis using l(2) by (simp add: linked_def)
qed

section \<open>Writing nodes\<close>

lemma ptr_word [simp]: "ptr_of_word (word_of_ptr p) = (if p = Some 0 then None else p)"
  by (cases p) (auto simp: ptr_of_word_def)

lemma next_set_next [simp]: "p \<noteq> Some 0 \<Longrightarrow> next_of x (set_next y p s) = (if x = y then p else next_of x s)"
  by (cases x; cases y) auto

lemma next_not_0 [simp]: "next_of (Node a) s \<noteq> Some 0"
  by (simp add: ptr_of_word_def)

lemma size_set_next [simp]: "(\<And>b. y = Node b \<Longrightarrow> a \<noteq> b + 4) \<Longrightarrow> node_size a (set_next y p s) = node_size a s"
  by (cases y) (auto simp: node_size_def)

lemma size_set_next_node [simp]: "a \<noteq> b + 4 \<Longrightarrow> node_size a (set_next (Node b) p s) = node_size a s"
  by (simp add: node_size_def)

lemma size_set_size [simp]: "node_size a (set_size b n s) = (if a = b then n else node_size a s)"
  by (simp add: node_size_def set_size_def)

lemma next_set_size [simp]: "(\<And>a. x = Node a \<Longrightarrow> b \<noteq> a + 4) \<Longrightarrow> next_of x (set_size b n s) = next_of x s"
  by (cases x) (auto simp: set_size_def)

lemma next_set_size_node [simp]: "b \<noteq> a + 4 \<Longrightarrow> next_of (Node a) (set_size b n s) = next_of (Node a) s"
  by (simp add: set_size_def)

lemma size_write_hole [simp]:
  "a \<noteq> b + 4 \<Longrightarrow> node_size a (write_hole b h s) = (if a = b then h_size h else node_size a s)"
  by (simp add: node_size_def write_hole_def)

lemma next_write_hole [simp]:
  "(\<And>a. x = Node a \<Longrightarrow> b \<noteq> a + 4) \<Longrightarrow> h_next h \<noteq> Some 0 \<Longrightarrow>
   next_of x (write_hole b h s) = (if x = Node b then h_next h else next_of x s)"
  by (cases x) (auto simp: write_hole_def)

lemma next_write_node [simp]:
  "b \<noteq> a + 4 \<Longrightarrow> h_next h \<noteq> Some 0 \<Longrightarrow>
   next_of (Node a) (write_hole b h s) = (if a = b then h_next h else next_of (Node a) s)"
  by (simp add: write_hole_def)

text \<open>What an operation leaves alone: the bounds of the list, and the memory outside a set of addresses.\<close>

definition same_but :: "nat set \<Rightarrow> hole_list \<Rightarrow> hole_list \<Rightarrow> bool" where
  "same_but X s s' \<longleftrightarrow> hl_bottom s' = hl_bottom s \<and> hl_top s' = hl_top s \<and>
     hl_pending_extend s' = hl_pending_extend s \<and> (\<forall>x. x \<notin> X \<longrightarrow> hl_mem s' x = hl_mem s x)"

lemma same_but_refl [simp]: "same_but X s s"
  by (simp add: same_but_def)

lemma same_but_trans: "same_but X s s' \<Longrightarrow> same_but X s' s'' \<Longrightarrow> same_but X s s''"
  by (simp add: same_but_def)

lemma same_but_mono: "same_but X s s' \<Longrightarrow> X \<subseteq> Y \<Longrightarrow> same_but Y s s'"
  by (auto simp: same_but_def)

lemma same_but_set_next: "(\<And>b. y = Node b \<Longrightarrow> b + 4 \<in> X) \<Longrightarrow> same_but X s (set_next y p s)"
  by (cases y) (auto simp: same_but_def)

lemma same_but_set_size: "a \<in> X \<Longrightarrow> same_but X s (set_size a n s)"
  by (auto simp: same_but_def set_size_def)

lemma same_but_write_hole: "a \<in> X \<Longrightarrow> a + 4 \<in> X \<Longrightarrow> same_but X s (write_hole a h s)"
  by (auto simp: same_but_def write_hole_def)

declare next_of.simps [simp del] set_next.simps [simp del]

definition area :: "(nat \<times> nat) list \<Rightarrow> nat set" where
  "area hs = (\<Union>(a, n) \<in> set hs. {a..<a + n})"

lemma in_area: "(a, n) \<in> set hs \<Longrightarrow> a \<le> x \<Longrightarrow> x < a + n \<Longrightarrow> x \<in> area hs"
  by (force simp: area_def)

lemma area_append [simp]: "area (xs @ ys) = area xs \<union> area ys"
  by (auto simp: area_def)

lemma area_Cons [simp]: "area ((a, n) # hs) = {a..<a + n} \<union> area hs"
  by (auto simp: area_def)

lemma area_Nil [simp]: "area [] = {}"
  by (simp add: area_def)

text \<open>Two nodes do not overlap.\<close>

definition apart :: "nat \<Rightarrow> nat \<Rightarrow> bool" where
  "apart a b \<longleftrightarrow> a = b \<or> a + 8 \<le> b \<or> b + 8 \<le> a"

lemma apartD: "apart a b \<Longrightarrow> a \<noteq> b + 4 \<and> b \<noteq> a + 4"
  by (auto simp: apart_def)

lemma spaced_apart:
  "spaced lo hs hi \<Longrightarrow> (a, n) \<in> set hs \<Longrightarrow> (b, m) \<in> set hs \<Longrightarrow> apart a b"
proof (induction lo hs hi rule: spaced.induct)
  case (2 lo c k hs hi)
  have far: "c + 8 \<le> x" if "(x, l) \<in> set hs" for x l
    using spaced_mem [of "c + k" hs hi x l] that 2(2) by auto
  from 2 show ?case by (auto simp: apart_def dest: far)
qed simp

text \<open>The same holes behind another node.\<close>

lemma linked_restart:
  assumes "linked s r hs" "next_of r' s' = next_of r s"
    and "\<And>a n. (a, n) \<in> set hs \<Longrightarrow> node_size a s' = node_size a s \<and> next_of (Node a) s' = next_of (Node a) s"
  shows "linked s' r' hs"
proof (cases hs)
  case (Cons h hs')
  obtain a n where h: "h = (a, n)" by fastforce
  have "linked s' (Node a) hs'"
    by (rule linked_cong [of s]) (use assms(1,3) in \<open>auto simp: Cons h\<close>)
  moreover have "node_size a s' = node_size a s" using assms(3) [of a n] by (simp add: Cons h)
  ultimately show ?thesis using assms(1,2) by (simp add: Cons h)
qed (use assms in simp)

text \<open>A segment survives writes to nodes that are apart from it and to the next pointer behind it.\<close>

definition keeps :: "hole_ptr list \<Rightarrow> (nat \<times> nat) list \<Rightarrow> hole_list \<Rightarrow> hole_list \<Rightarrow> bool" where
  "keeps rs hs s s' \<longleftrightarrow> (\<forall>x \<in> set rs. next_of x s' = next_of x s) \<and>
     (\<forall>(a, n) \<in> set hs. node_size a s' = node_size a s)"

lemma keeps_refl [simp]: "keeps rs hs s s"
  by (simp add: keeps_def)

lemma keeps_trans: "keeps rs hs s s' \<Longrightarrow> keeps rs hs s' s'' \<Longrightarrow> keeps rs hs s s''"
  unfolding keeps_def by fastforce

lemma keeps_seg: "keeps (refs r hs) hs s s' \<Longrightarrow> seg s r hs \<Longrightarrow> seg s' r hs"
  by (rule seg_cong) (auto simp: keeps_def)

lemma keeps_linked:
  assumes "keeps (map (Node \<circ> fst) hs) hs s s'" "linked s r hs" "next_of r' s' = next_of r s"
  shows "linked s' r' hs"
  by (rule linked_restart [OF assms(2,3)]) (use assms(1) in \<open>force simp: keeps_def\<close>)

lemma keeps_set_next:
  assumes "y \<notin> set rs" "p \<noteq> Some 0" "\<And>b a n. y = Node b \<Longrightarrow> (a, n) \<in> set hs \<Longrightarrow> apart a b"
  shows "keeps rs hs s (set_next y p s)"
proof -
  have "node_size a (set_next y p s) = node_size a s" if "(a, n) \<in> set hs" for a n
    using assms(3) [OF _ that] by (intro size_set_next) (auto dest: apartD)
  with assms(1,2) show ?thesis by (auto simp: keeps_def)
qed

lemma keeps_write_hole:
  assumes "Node q \<notin> set rs" "h_next h \<noteq> Some 0" "\<And>a n. (a, n) \<in> set hs \<Longrightarrow> a \<noteq> q \<and> apart a q"
    and "\<And>a. Node a \<in> set rs \<Longrightarrow> apart a q"
  shows "keeps rs hs s (write_hole q h s)"
proof -
  have "node_size a (write_hole q h s) = node_size a s" if "(a, n) \<in> set hs" for a n
  proof -
    from assms(3) [OF that] have "a \<noteq> q" "a \<noteq> q + 4" by (auto dest: apartD)
    then show ?thesis by simp
  qed
  moreover have "next_of x (write_hole q h s) = next_of x s" if "x \<in> set rs" for x
  proof -
    have "q \<noteq> a + 4" if "x = Node a" for a using assms(4) [of a] \<open>x \<in> set rs\<close> that by (auto dest: apartD)
    moreover have "x \<noteq> Node q" using assms(1) that by auto
    ultimately show ?thesis using assms(2) by simp
  qed
  ultimately show ?thesis by (auto simp: keeps_def)
qed

lemma keeps_set_size:
  assumes "\<And>a n. (a, n) \<in> set hs \<Longrightarrow> a \<noteq> q" "\<And>a. Node a \<in> set rs \<Longrightarrow> apart a q"
  shows "keeps rs hs s (set_size q m s)"
proof -
  have "next_of x (set_size q m s) = next_of x s" if "x \<in> set rs" for x
    using assms(2) that by (intro next_set_size) (auto dest: apartD)
  with assms(1) show ?thesis by (auto simp: keeps_def)
qed

section \<open>Splitting a hole\<close>

definition pad :: "nat \<Rightarrow> nat \<Rightarrow> (nat \<times> nat) list" where
  "pad a n = (if n = 0 then [] else [(a, n)])"

text \<open>The state of a split between its writes: everything but the hole \<open>(a, n)\<close> is as in \<open>s\<close>.\<close>

definition rest_kept ::
  "hole_list \<Rightarrow> (nat \<times> nat) list \<Rightarrow> nat \<Rightarrow> nat \<Rightarrow> (nat \<times> nat) list \<Rightarrow> hole_list \<Rightarrow> bool" where
  "rest_kept s pre a n post t \<longleftrightarrow> keeps (refs Stub pre) pre s t \<and> keeps (map (Node \<circ> fst) post) post s t \<and>
     same_but (area (pre @ [(a, n)])) s t"

lemma pre_mem: "spaced lo (pre @ (a, n) # post) hi \<Longrightarrow> (x, m) \<in> set pre \<Longrightarrow> lo \<le> x \<and> x + 8 \<le> a"
  using spaced_mem [OF spaced_middle(1)] by fastforce

lemma post_mem: "spaced lo (pre @ (a, n) # post) hi \<Longrightarrow> (x, m) \<in> set post \<Longrightarrow> a + n \<le> x"
  using spaced_mem [OF spaced_middle(2)] by fastforce

lemma prev_cases: "last_ref Stub pre = Stub \<or> (\<exists>p m. last_ref Stub pre = Node p \<and> (p, m) \<in> set pre)"
  using last_ref_cases [of Stub pre] by auto

lemma prev_notin: "spaced lo (pre @ (a, n) # post) hi \<Longrightarrow> last_ref Stub pre \<notin> set (refs Stub pre)"
  by (rule last_ref_notin_refs [OF spaced_middle(1)]) simp_all

lemma node_in_refs: "spaced lo (pre @ (a, n) # post) hi \<Longrightarrow> Node x \<in> set (refs Stub pre) \<Longrightarrow> lo \<le> x \<and> x + 8 \<le> a"
  using refs_cases [of "Node x" Stub pre] pre_mem by auto

lemma rest_kept_refl: "rest_kept s pre a n post s"
  by (simp add: rest_kept_def)

lemma set_prev_kept:
  assumes S: "spaced lo (pre @ (a, n) # post) hi" and t: "rest_kept s pre a n post t" and p: "p \<noteq> Some 0"
  shows "rest_kept s pre a n post (set_next (last_ref Stub pre) p t)"
proof -
  have "keeps (refs Stub pre) pre t (set_next (last_ref Stub pre) p t)"
  proof (rule keeps_set_next [OF prev_notin [OF S] p])
    fix b x m
    assume b: "last_ref Stub pre = Node b" and x: "(x, m) \<in> set pre"
    from b obtain k where "(b, k) \<in> set pre" using prev_cases [of pre] by auto
    with x show "apart x b" by (rule spaced_apart [OF spaced_middle(1) [OF S]])
  qed
  moreover have "keeps (map (Node \<circ> fst) post) post t (set_next (last_ref Stub pre) p t)"
  proof (rule keeps_set_next [OF _ p])
    show "last_ref Stub pre \<notin> set (map (Node \<circ> fst) post)"
      using prev_cases [of pre] by (auto dest!: pre_mem [OF S] post_mem [OF S])
    fix b x m
    assume b: "last_ref Stub pre = Node b" and x: "(x, m) \<in> set post"
    show "apart x b" using b prev_cases [of pre] post_mem [OF S x] by (auto simp: apart_def dest!: pre_mem [OF S])
  qed
  moreover have "same_but (area (pre @ [(a, n)])) t (set_next (last_ref Stub pre) p t)"
  proof (rule same_but_set_next)
    fix b
    assume "last_ref Stub pre = Node b"
    then obtain m where m: "(b, m) \<in> set pre" using prev_cases [of pre] by auto
    with spaced_mem [OF spaced_middle(1) [OF S] m] show "b + 4 \<in> area (pre @ [(a, n)])" by (auto intro: in_area)
  qed
  ultimately show ?thesis
    using t unfolding rest_kept_def by (blast intro: keeps_trans same_but_trans)
qed

lemma inside_kept:
  assumes S: "spaced lo (pre @ (a, n) # post) hi" and t: "rest_kept s pre a n post t" and q: "a \<le> q" "q + 8 \<le> a + n"
  shows "p \<noteq> Some 0 \<Longrightarrow> rest_kept s pre a n post (set_next (Node q) p t)"
    and "h_next h \<noteq> Some 0 \<Longrightarrow> rest_kept s pre a n post (write_hole q h t)"
proof -
  have pre: "x \<noteq> q \<and> apart x q" if "(x, m) \<in> set pre" for x m
    using pre_mem [OF S that] q by (auto simp: apart_def)
  have post: "x \<noteq> q \<and> apart x q" if "(x, m) \<in> set post" for x m
    using post_mem [OF S that] q by (auto simp: apart_def)
  have notin: "Node q \<notin> set (refs Stub pre)" "Node q \<notin> set (map (Node \<circ> fst) post)"
    using q by (auto dest: node_in_refs [OF S] post_mem [OF S])
  have refs: "apart x q" if "Node x \<in> set (refs Stub pre)" for x
    using node_in_refs [OF S that] q by (auto simp: apart_def)
  have nodes: "apart x q" if "Node x \<in> set (map (Node \<circ> fst) post)" for x
    using that post by auto
  have area: "q \<in> area (pre @ [(a, n)])" "q + 4 \<in> area (pre @ [(a, n)])" using q by simp_all
  show "rest_kept s pre a n post (set_next (Node q) p t)" if "p \<noteq> Some 0"
  proof -
    have "keeps (refs Stub pre) pre t (set_next (Node q) p t)"
      by (rule keeps_set_next [OF notin(1) that]) (use pre in auto)
    moreover have "keeps (map (Node \<circ> fst) post) post t (set_next (Node q) p t)"
      by (rule keeps_set_next [OF notin(2) that]) (use post in auto)
    moreover have "same_but (area (pre @ [(a, n)])) t (set_next (Node q) p t)"
      by (rule same_but_set_next) (use area(2) in auto)
    ultimately show ?thesis using t unfolding rest_kept_def by (blast intro: keeps_trans same_but_trans)
  qed
  show "rest_kept s pre a n post (write_hole q h t)" if h: "h_next h \<noteq> Some 0"
  proof -
    have "keeps (refs Stub pre) pre t (write_hole q h t)" by (rule keeps_write_hole [OF notin(1) h pre refs])
    moreover have "keeps (map (Node \<circ> fst) post) post t (write_hole q h t)"
      by (rule keeps_write_hole [OF notin(2) h post nodes])
    moreover have "same_but (area (pre @ [(a, n)])) t (write_hole q h t)"
      by (rule same_but_write_hole) (use area in auto)
    ultimately show ?thesis using t unfolding rest_kept_def by (blast intro: keeps_trans same_but_trans)
  qed
qed

lemma size_kept:
  assumes S: "spaced lo (pre @ (a, n) # post) hi" and t: "rest_kept s pre a n post t"
    and q: "a \<le> q" "q + 8 \<le> a + n"
  shows "rest_kept s pre a n post (set_size q m t)"
proof -
  have pre: "x \<noteq> q" if "(x, m) \<in> set pre" for x m using pre_mem [OF S that] q by auto
  have post: "x \<noteq> q" if "(x, m) \<in> set post" for x m using post_mem [OF S that] q by auto
  have refs: "apart x q" if "Node x \<in> set (refs Stub pre)" for x
    using node_in_refs [OF S that] q by (auto simp: apart_def)
  have nodes: "apart x q" if "Node x \<in> set (map (Node \<circ> fst) post)" for x
    using that q by (auto simp: apart_def dest: post_mem [OF S])
  have "keeps (refs Stub pre) pre t (set_size q m t)" by (rule keeps_set_size [OF pre refs])
  moreover have "keeps (map (Node \<circ> fst) post) post t (set_size q m t)" by (rule keeps_set_size [OF post nodes])
  moreover have "same_but (area (pre @ [(a, n)])) t (set_size q m t)" by (rule same_but_set_size) (use q in auto)
  ultimately show ?thesis using t unfolding rest_kept_def by (blast intro: keeps_trans same_but_trans)
qed

lemma rest_linked:
  assumes "seg s Stub pre" "rest_kept s pre a n post t" "linked t (last_ref Stub pre) hs"
  shows "linked t Stub (pre @ hs)" "same_but (area (pre @ [(a, n)])) s t"
  using assms by (auto simp: rest_kept_def linked_append dest: keeps_seg)

lemma post_linked:
  assumes "linked s r post" "rest_kept s pre a n post t" "next_of r' t = next_of r s"
  shows "linked t r' post"
  using assms by (auto simp: rest_kept_def intro: keeps_linked)

text \<open>A hole in a linked list.\<close>

lemma hole_at:
  assumes "linked s Stub (pre @ (a, n) # post)"
  shows "seg s Stub pre" "next_of (last_ref Stub pre) s = Some a" "node_size a s = n" "linked s (Node a) post"
  using assms by (simp_all add: linked_append)

context hole_align
begin

lemma split_current_None:
  assumes "split_plan F (cur_hole c) (node_size (cur_hole c) s) ly = Ret None"
  shows "Cursor_split_current F c ly s = Ret (Err c, s)"
  using assms by (simp add: Cursor_split_current_def)

lemma split_current_ok:
  assumes L: "linked s Stub (pre @ (a, n) # post)" and S: "spaced lo (pre @ (a, n) # post) hi"
    and lo: "0 < lo" and ly: "layout_ok ly"
    and bd: "hi + ly_align ly + 8 \<le> usize_max" and pd: "paddings a n ly = Some (f, b)"
    and c: "cur_prev c = last_ref Stub pre" "cur_hole c = a"
  shows "\<exists>s'. Cursor_split_current F c ly s = Ret (Ok (a + f, ly_size ly), s') \<and>
    linked s' Stub (pre @ pad a f @ pad (a + f + ly_size ly) b @ post) \<and> same_but (area (pre @ [(a, n)])) s s'"
proof -
  note d = hole_at [OF L] spaced_middle [OF S]
  let ?prev = "last_ref Stub pre" and ?nx = "next_of (Node a) s" and ?q = "a + f + ly_size ly"
  note p = paddings_Some [OF pd ly d(10,11)]
  have "a + n + ly_align ly + 8 \<le> usize_max" using d(8) bd by simp
  from split_plan_eq [OF ly d(10,11) this] have plan:
    "split_plan F a n ly = Ret (Some (a + f, ly_size ly, pad_info a f, pad_info ?q b))"
    by (simp add: pd)
  have prev: "?prev \<noteq> Node a" using prev_cases [of pre] pre_mem [OF S] by fastforce
  let ?s1 = "set_next ?prev None s"
  let ?s2 = "set_next (Node a) None ?s1"
  have ln: "linked t Stub (pre @ hs) \<and> same_but (area (pre @ [(a, n)])) s t"
    if "rest_kept s pre a n post t" "linked t ?prev hs" for t hs
    using rest_linked [OF d(1) that] by simp
  have k1: "rest_kept s pre a n post ?s1" by (rule set_prev_kept [OF S rest_kept_refl]) simp
  have k2: "rest_kept s pre a n post ?s2" by (rule inside_kept(1) [OF S k1]) (use d(9) in simp_all)
  have nx: "next_of (Node a) ?s1 = ?nx" using prev by simp
  have a0: "a \<noteq> 0" using d(7) lo by simp
  have step: "Cursor_split_current F c ly s = Ret (Ok (a + f, ly_size ly),
      case (pad_info a f, pad_info ?q b) of
        (None, None) \<Rightarrow> set_next ?prev ?nx ?s2
      | (None, Some x) \<Rightarrow> set_next ?prev (Some (hi_addr x)) (write_hole (hi_addr x) \<lparr>h_size = hi_size x, h_next = ?nx\<rparr> ?s2)
      | (Some x, None) \<Rightarrow> set_next ?prev (Some (hi_addr x)) (write_hole (hi_addr x) \<lparr>h_size = hi_size x, h_next = ?nx\<rparr> ?s2)
      | (Some x, Some y) \<Rightarrow> set_next ?prev (Some (hi_addr x))
          (write_hole (hi_addr x) \<lparr>h_size = hi_size x, h_next = Some (hi_addr y)\<rparr>
            (write_hole (hi_addr y) \<lparr>h_size = hi_size y, h_next = ?nx\<rparr> ?s2)))"
    by (simp add: Cursor_split_current_def c d(3) plan prev prev [symmetric] Let_def split: option.splits)
  have nprev: "?prev \<noteq> Node x \<and> (\<forall>b. ?prev = Node b \<longrightarrow> x \<noteq> b + 4)" if "a \<le> x" for x
    using that prev_cases [of pre] by (auto dest!: pre_mem [OF S])
  have q0: "x \<noteq> 0" if "a \<le> x" for x using that a0 by simp
  have one: "linked t Stub (pre @ (x, m) # post) \<and> same_but (area (pre @ [(a, n)])) s t"
    if t: "t = set_next ?prev (Some x) (write_hole x \<lparr>h_size = m, h_next = ?nx\<rparr> ?s2)" and x: "a \<le> x" "x + 8 \<le> a + n"
    for x m t
  proof (rule ln)
    have "rest_kept s pre a n post (write_hole x \<lparr>h_size = m, h_next = ?nx\<rparr> ?s2)"
      by (rule inside_kept(2) [OF S k2 x]) simp
    then show k: "rest_kept s pre a n post t" unfolding t by (rule set_prev_kept [OF S]) (use q0 x in simp)
    have "next_of (Node x) t = ?nx" using nprev [OF x(1)] q0 [OF x(1)] by (auto simp: t)
    moreover have "next_of ?prev t = Some x" "node_size x t = m" using nprev [OF x(1)] q0 [OF x(1)] by (auto simp: t)
    ultimately show "linked t ?prev ((x, m) # post)" using post_linked [OF d(4) k] by simp
  qed
  show ?thesis
  proof (cases "f = 0"; cases "b = 0")
    assume z: "f = 0" "b = 0"
    have "rest_kept s pre a n post (set_next ?prev ?nx ?s2)" by (rule set_prev_kept [OF S k2]) simp
    from ln [OF this post_linked [OF d(4) this]] step z show ?thesis by (simp add: pad_info_def pad_def)
  next
    assume z: "f = 0" "b \<noteq> 0"
    then have "a \<le> ?q" "?q + 8 \<le> a + n" using p(1,3) by simp_all
    from one [OF refl this, of b] step z show ?thesis by (simp add: pad_info_def pad_def)
  next
    assume z: "f \<noteq> 0" "b = 0"
    then have "a \<le> a" "a + 8 \<le> a + n" using d(9) by simp_all
    from one [OF refl this, of f] step z show ?thesis by (simp add: pad_info_def pad_def)
  next
    assume z: "f \<noteq> 0" "b \<noteq> 0"
    then have q: "a + 8 \<le> ?q" "a \<le> ?q" "?q + 8 \<le> a + n" using p(1-3) by simp_all
    let ?t1 = "write_hole ?q \<lparr>h_size = b, h_next = ?nx\<rparr> ?s2"
    let ?t2 = "write_hole a \<lparr>h_size = f, h_next = Some ?q\<rparr> ?t1"
    let ?t = "set_next ?prev (Some a) ?t2"
    have "rest_kept s pre a n post ?t1" by (rule inside_kept(2) [OF S k2 q(2,3)]) simp
    then have "rest_kept s pre a n post ?t2" by (rule inside_kept(2) [OF S]) (use d(9) q0 [OF q(2)] in simp_all)
    then have k: "rest_kept s pre a n post ?t" by (rule set_prev_kept [OF S]) (use a0 in simp)
    have x: "?q \<noteq> a" "?q \<noteq> a + 4" "a \<noteq> ?q + 4" "?q \<noteq> 0" using q q0 by auto
    have "next_of (Node ?q) ?t = ?nx" using nprev [OF q(2)] x a0 by (auto simp: )
    moreover have "next_of ?prev ?t = Some a" "node_size a ?t = f" "next_of (Node a) ?t = Some ?q" "node_size ?q ?t = b"
      using nprev [OF q(2)] nprev [OF order_refl] x a0 by (auto simp: )
    ultimately have "linked ?t ?prev ((a, f) # (?q, b) # post)" using post_linked [OF d(4) k] by simp
    from ln [OF k this] step z show ?thesis by (simp add: pad_info_def pad_def)
  qed
qed

end

section \<open>First fit\<close>

fun first_fit :: "mem_layout \<Rightarrow> (nat \<times> nat) list \<Rightarrow> (nat \<times> (nat \<times> nat) list) option" where
  "first_fit ly [] = None"
| "first_fit ly ((a, n) # hs) =
     (case paddings a n ly of
        Some (f, b) \<Rightarrow> Some (a + f, pad a f @ pad (a + f + ly_size ly) b @ hs)
      | None \<Rightarrow> map_option (\<lambda>(p, hs'). (p, (a, n) # hs')) (first_fit ly hs))"

definition allocated ::
  "((nat \<times> mem_layout, unit) result \<times> hole_list) outcome option \<Rightarrow> mem_layout \<Rightarrow> (nat \<times> nat) list \<Rightarrow>
     (nat \<times> nat) list \<Rightarrow> hole_list \<Rightarrow> bool" where
  "allocated res ly pre hs s \<longleftrightarrow>
     (case first_fit ly hs of
        None \<Rightarrow> res = Some (Ret (Err (), s))
      | Some (p, hs') \<Rightarrow> \<exists>s'. res = Some (Ret (Ok (p, ly), s')) \<and> linked s' Stub (pre @ hs') \<and>
          same_but (area (pre @ hs)) s s')"

context hole_align
begin

lemma first_fit_loop_ok:
  assumes "linked s Stub (pre @ (a, n) # post)" "spaced lo (pre @ (a, n) # post) hi" "length post < fuel"
    and lo: "0 < lo" and ly: "layout_ok ly" and bd: "hi + ly_align ly + 8 \<le> usize_max"
  shows "allocated (first_fit_loop fuel F ly \<lparr>cur_prev = last_ref Stub pre, cur_hole = a, cur_top = t\<rparr> s)
    ly pre ((a, n) # post) s"
  using assms(1-3)
proof (induction fuel arbitrary: pre a n post)
  case (Suc fuel)
  let ?c = "\<lparr>cur_prev = last_ref Stub pre, cur_hole = a, cur_top = t\<rparr>"
  note d = hole_at [OF Suc.prems(1)] spaced_middle [OF Suc.prems(2)]
  show ?case
  proof (cases "paddings a n ly")
    case (Some p)
    obtain f b where p: "p = (f, b)" by fastforce
    from split_current_ok [OF Suc.prems(1,2) lo ly bd Some [unfolded p], of ?c] obtain s' where
      s': "Cursor_split_current F ?c ly s = Ret (Ok (a + f, ly_size ly), s')"
      "linked s' Stub (pre @ pad a f @ pad (a + f + ly_size ly) b @ post)"
      "same_but (area (pre @ [(a, n)])) s s'" by auto
    have "same_but (area (pre @ (a, n) # post)) s s'" using s'(3) by (rule same_but_mono) auto
    moreover have "a \<noteq> 0" using d(7) lo by simp
    ultimately show ?thesis using s'(1,2) by (simp add: allocated_def Some p)
  next
    case None
    have "a + n + ly_align ly + 8 \<le> usize_max" using d(8) bd by simp
    from split_plan_eq [OF ly d(10,11) this] None have "split_plan F a n ly = Ret None" by simp
    then have sp: "Cursor_split_current F ?c ly s = Ret (Err ?c, s)"
      by (intro split_current_None) (simp add: d(3))
    show ?thesis
    proof (cases post)
      case Nil
      then have "Cursor_next ?c s = None" using d(4) by (simp add: Cursor_next_def)
      with sp None show ?thesis by (simp add: allocated_def Nil)
    next
      case (Cons q post')
      obtain b m where q: "q = (b, m)" by fastforce
      have l: "linked s Stub ((pre @ [(a, n)]) @ (b, m) # post')" "spaced lo ((pre @ [(a, n)]) @ (b, m) # post') hi"
        "length post' < fuel"
        using Suc.prems Cons q by simp_all
      have "next_of (Node a) s = Some b" using d(4) by (simp add: Cons q)
      then have nx: "Cursor_next ?c s = Some \<lparr>cur_prev = last_ref Stub (pre @ [(a, n)]), cur_hole = b, cur_top = t\<rparr>"
        by (simp add: Cursor_next_def)
      from Suc.IH [OF l] show ?thesis
        by (auto simp: allocated_def Cons q None sp nx split: option.splits)
    qed
  qed
qed simp

end

definition aligned_size :: "nat \<Rightarrow> nat" where
  "aligned_size n = round_to (max n 8) 4"

definition align_layout :: "mem_layout \<Rightarrow> mem_layout" where
  "align_layout ly = \<lparr>ly_size = aligned_size (ly_size ly), ly_align = ly_align ly\<rparr>"

text \<open>Layouts that \<open>align_layout\<close> accepts.\<close>

definition request_ok :: "mem_layout \<Rightarrow> bool" where
  "request_ok ly \<longleftrightarrow> is_pow2 (ly_align ly) \<and> aligned_size (ly_size ly) \<le> isize_max + 1 - ly_align ly"

lemma layout_ok_align: "request_ok ly \<Longrightarrow> layout_ok (align_layout ly)"
  using round_to_bounds [of 4 "max (ly_size ly) 8"]
  by (auto simp: layout_ok_def align_layout_def request_ok_def aligned_size_def)

context hole_align
begin

lemma align_layout_eq:
  assumes "request_ok ly"
  shows "HoleList_align_layout F ly = Ret (align_layout ly)"
proof -
  have "aligned_size (ly_size ly) \<le> usize_max"
    using assms unfolding request_ok_def isize_max_def usize_max_def by arith
  then have "al_up_size F (max (ly_size ly) 8) 4 = aligned_size (ly_size ly)"
    unfolding aligned_size_def by (intro up_size) simp_all
  moreover have "(if ly_size ly < HoleList_min_size then HoleList_min_size else ly_size ly) = max (ly_size ly) 8"
    by (simp add: HoleList_min_size_def)
  ultimately show ?thesis
    using assms by (simp add: HoleList_align_layout_def Let_def HOLE_ALIGN_def Layout_from_size_align_def
        request_ok_def align_layout_def)
qed

lemma allocate_ok:
  assumes l: "linked s Stub hs" and sp: "spaced lo hs hi" and fuel: "length hs \<le> fuel"
    and lo: "0 < lo" and ly: "request_ok ly" and bd: "hi + ly_align ly + 8 \<le> usize_max"
  shows "allocated (HoleList_allocate_first_fit fuel F ly s) (align_layout ly) [] hs s"
proof (cases hs)
  case Nil
  with l have "h_next (hl_first s) = None" by (simp add: next_of.simps)
  then show ?thesis by (simp add: HoleList_allocate_first_fit_def align_layout_eq [OF ly] HoleList_cursor_def allocated_def Nil)
next
  case (Cons h hs')
  obtain a n where h: "h = (a, n)" by fastforce
  have "h_next (hl_first s) = Some a" using l by (simp add: Cons h next_of.simps)
  then have "HoleList_allocate_first_fit fuel F ly s =
      first_fit_loop fuel F (align_layout ly) \<lparr>cur_prev = last_ref Stub [], cur_hole = a, cur_top = hl_top s\<rparr> s"
    by (simp add: HoleList_allocate_first_fit_def align_layout_eq [OF ly] HoleList_cursor_def)
  moreover have "hi + ly_align (align_layout ly) + 8 \<le> usize_max" using bd by (simp add: align_layout_def)
  from first_fit_loop_ok [OF _ _ _ lo layout_ok_align [OF ly] this, of s "[]" a n hs' fuel "hl_top s"]
  have "allocated (first_fit_loop fuel F (align_layout ly) \<lparr>cur_prev = last_ref Stub [], cur_hole = a, cur_top = hl_top s\<rparr> s)
      (align_layout ly) [] ((a, n) # hs') s"
    using l sp fuel by (simp add: Cons h)
  ultimately show ?thesis by (simp add: Cons h)
qed

end

section \<open>Merging holes\<close>

fun merge_next :: "nat \<Rightarrow> (nat \<times> nat) list \<Rightarrow> (nat \<times> nat) list" where
  "merge_next (Suc k) ((a, n) # (b, m) # hs) =
     (if a + n = b then merge_next k ((a, n + m) # hs) else (a, n) # merge_next k ((b, m) # hs))"
| "merge_next k hs = hs"

fun hole_end :: "(nat \<times> nat) list \<Rightarrow> nat" where
  "hole_end [] = 0"
| "hole_end [(a, n)] = a + n"
| "hole_end (h # hs) = hole_end hs"

text \<open>There is room for a hole between the last hole and the top, or none at all.\<close>

definition top_ok :: "(nat \<times> nat) list \<Rightarrow> nat \<Rightarrow> bool" where
  "top_ok hs t \<longleftrightarrow> (hole_end hs < t \<longrightarrow> hole_end hs + 8 \<le> t)"

lemma hole_end_Cons: "hs \<noteq> [] \<Longrightarrow> hole_end (h # hs) = hole_end hs"
  by (cases hs) simp_all

lemma hole_end_append: "ys \<noteq> [] \<Longrightarrow> hole_end (xs @ ys) = hole_end ys"
  by (induction xs) (auto simp: hole_end_Cons)

lemma spaced_join: "spaced lo ((a, n) # (a + n, m) # hs) hi \<Longrightarrow> spaced lo ((a, n + m) # hs) hi"
  by (auto simp: add.assoc)

context hole_align
begin

lemma check_merge_top_id:
  assumes "4 dvd a + node_size a s" "a + node_size a s + 8 \<le> usize_max"
    and "a + node_size a s < t \<Longrightarrow> a + node_size a s + 8 \<le> t"
  shows "check_merge_top F a t s = Ret s"
  using assms by (auto simp: check_merge_top_def Let_def HOLE_SIZE_def)

lemma merge_ok:
  assumes "linked s Stub (pre @ (a, n) # post)" "spaced lo (pre @ (a, n) # post) hi" "top_ok ((a, n) # post) t"
    and lo: "0 < lo" and bd: "hi + 8 \<le> usize_max"
  shows "\<exists>s'. Cursor_try_merge_next_n F a t k s = Ret s' \<and> linked s' Stub (pre @ merge_next k ((a, n) # post)) \<and>
    same_but (area (pre @ (a, n) # post)) s s'"
  using assms(1-3)
proof (induction k arbitrary: s pre a n post)
  case (Suc k)
  note d = hole_at [OF Suc.prems(1)] spaced_middle [OF Suc.prems(2)]
  show ?case
  proof (cases post)
    case Nil
    have "check_merge_top F a t s = Ret s"
      using d(3,8,10,11) bd Suc.prems(3) by (intro check_merge_top_id) (auto simp: Nil top_ok_def)
    with d(4) Suc.prems(1) show ?thesis by (simp add: Nil)
  next
    case (Cons q post')
    obtain b m where q: "q = (b, m)" by fastforce
    note post = Cons [unfolded q]
    have nx: "next_of (Node a) s = Some b" "node_size b s = m" "linked s (Node b) post'"
      using d(4) by (simp_all add: post)
    have w: "wrapping_add a n = a + n" using d(8) bd by simp
    show ?thesis
    proof (cases "a + n = b")
      case False
      have "linked s Stub ((pre @ [(a, n)]) @ (b, m) # post')" "spaced lo ((pre @ [(a, n)]) @ (b, m) # post') hi"
        "top_ok ((b, m) # post') t"
        using Suc.prems by (simp_all add: post top_ok_def)
      from Suc.IH [OF this] obtain s' where s': "Cursor_try_merge_next_n F b t k s = Ret s'"
        "linked s' Stub ((pre @ [(a, n)]) @ merge_next k ((b, m) # post'))"
        "same_but (area ((pre @ [(a, n)]) @ (b, m) # post')) s s'" by blast
      with nx False w d(3) show ?thesis by (simp add: post Let_def)
    next
      case True
      have S: "spaced lo (pre @ (a, n + m) # post') hi"
        using Suc.prems(2) spaced_join by (auto simp: post spaced_append True simp flip: True)
      note g = spaced_middle [OF S] spaced_middle [OF Suc.prems(2) [unfolded post]]
      let ?nn = "next_of (Node b) s"
      let ?s1 = "set_next (Node b) None s"
      let ?s2 = "set_next (Node a) ?nn ?s1"
      let ?s3 = "set_size a (n + m) ?s2"
      have m: "8 \<le> m" using spaced_mem [OF g(9), of b m] by (simp add: True)
      have b: "a \<le> b" "b + 8 \<le> a + (n + m)" "a \<le> a" "a + 8 \<le> a + (n + m)" using True d(9) m by simp_all
      have k1: "rest_kept s pre a (n + m) post' ?s1" by (rule inside_kept(1) [OF S rest_kept_refl b(1,2)]) simp
      have k2: "rest_kept s pre a (n + m) post' ?s2" by (rule inside_kept(1) [OF S k1 b(3,4)]) simp
      have k3: "rest_kept s pre a (n + m) post' ?s3" by (rule size_kept [OF S k2 b(3,4)])
      have prev: "last_ref Stub pre \<noteq> Node a \<and> last_ref Stub pre \<noteq> Node b \<and> (\<forall>x. last_ref Stub pre = Node x \<longrightarrow> a \<noteq> x + 4)"
        using prev_cases [of pre] pre_mem [OF S] b(1) by fastforce
      have ab: "a \<noteq> b" using True d(9) by auto
      have "next_of (last_ref Stub pre) ?s3 = Some a" "next_of (Node a) ?s3 = ?nn"
        using prev ab d(2) by auto
      then have "linked ?s3 (last_ref Stub pre) ((a, n + m) # post')"
        using post_linked [OF nx(3) k3] by simp
      from rest_linked [OF d(1) k3 this]
      have L: "linked ?s3 Stub (pre @ (a, n + m) # post')" and sb: "same_but (area (pre @ [(a, n + m)])) s ?s3" .
      have "top_ok ((a, n + m) # post') t"
        using Suc.prems(3) True by (cases post') (auto simp: post top_ok_def)
      from Suc.IH [OF L S this] obtain s' where s': "Cursor_try_merge_next_n F a t k ?s3 = Ret s'"
        "linked s' Stub (pre @ merge_next k ((a, n + m) # post'))" "same_but (area (pre @ (a, n + m) # post')) ?s3 s'"
        by blast
      have ar: "{a..<a + (n + m)} = {a..<a + n} \<union> {b..<b + m}" using True by auto
      have sz: "node_size a ?s2 = n" using d(3) True d(9) by auto
      have "n + m \<le> usize_max" using g(4) bd by simp
      then have "Cursor_try_merge_next_n F a t (Suc k) s = Ret s'"
        using nx True w d(3) s'(1) sz by (simp add: Let_def)
      moreover have "same_but (area (pre @ (a, n) # post)) s s'"
        using same_but_mono [OF sb, of "area (pre @ (a, n) # post)"] s'(3)
        by (auto simp: post ar Un_assoc intro: same_but_trans)
      ultimately show ?thesis using s'(2) True by (auto simp: post)
    qed
  qed
qed simp

end

section \<open>Giving a hole back\<close>

definition insert_hole :: "(nat \<times> nat) list \<Rightarrow> nat \<times> nat \<Rightarrow> (nat \<times> nat) list \<Rightarrow> (nat \<times> nat) list" where
  "insert_hole pre h post =
     (if pre = [] then merge_next 1 (h # post) else butlast pre @ merge_next 2 (last pre # h # post))"

abbreviation link_in :: "hole_ptr \<Rightarrow> nat \<Rightarrow> hole_list \<Rightarrow> hole_list" where
  "link_in prev a s \<equiv> set_next (Node a) (next_of prev s) (set_next prev (Some a) s)"

lemma check_merge_bottom_id:
  assumes "a = bottom \<or> bottom + 8 \<le> a" "4 dvd a" "node_size a s = n" "next_of (Node a) s = None" "a + n + 8 \<le> usize_max"
  shows "check_merge_bottom a bottom s = Ret (a, s)"
proof -
  have w: "wrapping_add bottom HOLE_SIZE = bottom + 8" using assms(1,5) by (auto simp: HOLE_SIZE_def)
  show ?thesis
  proof (cases "a = bottom")
    case True
    have "write_hole a \<lparr>h_size = n, h_next = None\<rparr> s = s"
    proof -
      have "hl_mem s a = n" "hl_mem s (a + 4) = 0"
        using assms(3,4) by (auto simp: node_size_def next_of.simps ptr_of_word_def split: if_splits)
      then have "(hl_mem s)(a := n, a + 4 := 0) = hl_mem s" by auto
      then show ?thesis by (simp add: write_hole_def)
    qed
    with True w assms(2,3,5) show ?thesis
      by (auto simp: check_merge_bottom_def make_hole_def HOLE_ALIGN_def)
  next
    case False
    with assms(1) w show ?thesis by (auto simp: check_merge_bottom_def)
  qed
qed

lemma insert_loop_ok:
  assumes "cur_hole c = b" "linked s (Node b) (ys @ post)" "\<And>x m. (x, m) \<in> set ys \<Longrightarrow> x \<le> a"
    and "\<And>x m. (x, m) \<in> set post \<Longrightarrow> a < x" "length ys < fuel"
  shows "\<exists>c' p. insert_loop fuel c a s = Some (Ret (c', link_in (Node p) a s)) \<and>
    cur_hole c' = p \<and> cur_top c' = cur_top c \<and> Node p = last_ref (Node b) ys"
  using assms
proof (induction fuel arbitrary: c b ys)
  case (Suc fuel)
  show ?case
  proof (cases ys)
    case Nil
    have "next_of (Node b) s = None \<or> (\<exists>x. next_of (Node b) s = Some x \<and> a < x)"
    proof (cases post)
      case post: (Cons x post')
      obtain y m where x: "x = (y, m)" by fastforce
      with Suc.prems(2) Suc.prems(4) [of y m] show ?thesis by (simp add: Nil post)
    qed (use Suc.prems(2) in \<open>simp add: Nil\<close>)
    then show ?thesis using Suc.prems(1) by (auto simp: Nil Cursor_try_insert_after_def Let_def)
  next
    case (Cons y ys')
    obtain b' m where y: "y = (b', m)" by fastforce
    have nx: "next_of (Node b) s = Some b'" "linked s (Node b') (ys' @ post)"
      using Suc.prems(2) by (simp_all add: Cons y)
    have "b' \<le> a" using Suc.prems(3) [of b' m] by (simp add: Cons y)
    then have "Cursor_try_insert_after c a s = (Err (), s)"
      using nx(1) Suc.prems(1) by (simp add: Cursor_try_insert_after_def Let_def)
    moreover have "Cursor_next c s = Some \<lparr>cur_prev = Node b, cur_hole = b', cur_top = cur_top c\<rparr>"
      using nx(1) Suc.prems(1) by (simp add: Cursor_next_def)
    ultimately have "insert_loop (Suc fuel) c a s =
        insert_loop fuel \<lparr>cur_prev = Node b, cur_hole = b', cur_top = cur_top c\<rparr> a s" by simp
    moreover have "x \<le> a" if "(x, k) \<in> set ys'" for x k
      using Suc.prems(3) [of x k] that by (simp add: Cons)
    moreover have "length ys' < fuel" using Suc.prems(5) by (simp add: Cons)
    ultimately show ?thesis
      using Suc.IH [of "\<lparr>cur_prev = Node b, cur_hole = b', cur_top = cur_top c\<rparr>" b' ys'] nx(2) Suc.prems(4)
      by (simp add: Cons y)
  qed
qed simp

lemma link_in_ok:
  assumes l: "linked s Stub (pre @ post)" and S: "spaced lo (pre @ (a, n) # post) hi" and lo: "0 < lo"
  defines "s1 \<equiv> write_hole a \<lparr>h_size = n, h_next = None\<rparr> s"
  shows "linked (link_in (last_ref Stub pre) a s1) Stub (pre @ (a, n) # post)"
    and "same_but (area (pre @ [(a, n)])) s (link_in (last_ref Stub pre) a s1)"
    and "seg s1 Stub pre" "linked s1 (last_ref Stub pre) post" "node_size a s1 = n" "next_of (Node a) s1 = None"
proof -
  let ?prev = "last_ref Stub pre" and ?t = "link_in (last_ref Stub pre) a s1"
  note d = spaced_middle [OF S]
  have q: "a \<le> a" "a + 8 \<le> a + n" and a0: "a \<noteq> 0" using d(3,5) lo by auto
  have prev: "?prev \<noteq> Node a \<and> (\<forall>x. ?prev = Node x \<longrightarrow> a \<noteq> x + 4)"
    using prev_cases [of pre] pre_mem [OF S] by fastforce
  have l: "seg s Stub pre" "linked s ?prev post" using l by (simp_all add: linked_append)
  show sz: "node_size a s1 = n" and nn: "next_of (Node a) s1 = None" by (simp_all add: s1_def)
  have np: "next_of ?prev s1 = next_of ?prev s" unfolding s1_def using prev by (subst next_write_hole) auto
  have k1: "rest_kept s pre a n post s1" unfolding s1_def by (rule inside_kept(2) [OF S rest_kept_refl q]) simp
  then show "seg s1 Stub pre" "linked s1 ?prev post"
    using l np by (auto simp: rest_kept_def dest: keeps_seg intro: post_linked [OF _ k1])
  have k2: "rest_kept s pre a n post (set_next ?prev (Some a) s1)" by (rule set_prev_kept [OF S k1]) (use a0 in simp)
  have n0: "next_of ?prev s \<noteq> Some 0"
    using l(2) post_mem [OF S] a0 by (cases post) force+
  have k3: "rest_kept s pre a n post ?t" by (rule inside_kept(1) [OF S k2 q]) (use np n0 in simp)
  have "next_of (Node a) ?t = next_of ?prev s" using np n0 by simp
  moreover have "next_of ?prev ?t = Some a" using prev np n0 a0 by simp
  moreover have "node_size a ?t = n" using prev sz by simp
  ultimately have "linked ?t ?prev ((a, n) # post)" using post_linked [OF l(2) k3] by simp
  from rest_linked [OF l(1) k3 this] show "linked ?t Stub (pre @ (a, n) # post)" "same_but (area (pre @ [(a, n)])) s ?t" .
qed

context hole_align
begin

lemma deallocate_ok:
  assumes l: "linked s Stub (pre @ post)" and S: "spaced lo (pre @ (a, n) # post) hi" and lo: "0 < lo"
    and bot: "a = hl_bottom s \<or> hl_bottom s + 8 \<le> a" and t: "top_ok (pre @ (a, n) # post) (hl_top s)"
    and bd: "hi + 8 \<le> usize_max" and fuel: "length pre \<le> fuel"
  shows "\<exists>s'. deallocate fuel F a n s = Some (Ret s') \<and> linked s' Stub (insert_hole pre (a, n) post) \<and>
    same_but (area (pre @ (a, n) # post)) s s'"
proof -
  note d = spaced_middle [OF S]
  let ?s1 = "write_hole a \<lparr>h_size = n, h_next = None\<rparr> s"
  note i = link_in_ok [OF l S lo]
  have mk: "make_hole a n s = Ret (a, ?s1)" using d(6) by (simp add: make_hole_def HOLE_ALIGN_def dvd_eq_mod_eq_0)
  have s1: "hl_first ?s1 = hl_first s" "hl_bottom ?s1 = hl_bottom s" "hl_top ?s1 = hl_top s"
    by (simp_all add: write_hole_def)
  have bottom: "check_merge_bottom a (hl_bottom s) ?s1 = Ret (a, ?s1)"
    by (rule check_merge_bottom_id [OF bot d(6) i(5,6)]) (use d(4) bd in simp)
  have sb: "same_but (area (pre @ (a, n) # post)) s s'"
    if "same_but (area (pre @ [(a, n)])) s s2" "same_but (area (pre @ (a, n) # post)) s2 s'" for s2 s'
    using same_but_trans [OF same_but_mono [OF that(1)] that(2)] by auto
  show ?thesis
  proof (cases pre)
    case Nil
    show ?thesis
    proof (cases post)
      case post: Nil
      have first: "h_next (hl_first s) = None" using l by (simp add: Nil post next_of.simps)
      have top: "check_merge_top F a (hl_top s) ?s1 = Ret ?s1"
        using d(4,6,7) bd t by (intro check_merge_top_id) (auto simp: Nil post top_ok_def i(5))
      have "set_next (Node a) None (set_next Stub (Some a) ?s1) = set_next Stub (Some a) ?s1"
        by (simp add: set_next.simps write_hole_def)
      moreover have "next_of Stub ?s1 = None" using first by (simp add: next_of.simps write_hole_def)
      ultimately have "set_next Stub (Some a) ?s1 = link_in (last_ref Stub pre) a ?s1" by (simp add: Nil)
      then have "deallocate fuel F a n s = Some (Ret (link_in (last_ref Stub pre) a ?s1))"
        by (simp add: deallocate_def mk HoleList_cursor_def s1 first bottom top)
      then show ?thesis using i(1,2) by (simp add: insert_hole_def Nil post)
    next
      case (Cons q post')
      obtain b m where q: "q = (b, m)" by fastforce
      have first: "h_next (hl_first s) = Some b" using l by (simp add: Nil Cons q next_of.simps)
      then have nx: "next_of Stub ?s1 = Some b" by (simp add: next_of.simps write_hole_def)
      have ab: "a < b" using post_mem [OF S, of b m] d(5) by (simp add: Cons q)
      let ?s2 = "link_in (last_ref Stub pre) a ?s1"
      have tt: "hl_top ?s2 = hl_top s" using i(2) by (simp add: same_but_def)
      have "linked ?s2 Stub ([] @ (a, n) # post)" "spaced lo ([] @ (a, n) # post) hi" "top_ok ((a, n) # post) (hl_top s)"
        using i(1) S t by (simp_all add: Nil)
      from merge_ok [OF this lo bd, of 1] obtain s' where s':
        "Cursor_try_merge_next_n F a (hl_top s) 1 ?s2 = Ret s'" "linked s' Stub ([] @ merge_next 1 ((a, n) # post))"
        "same_but (area ([] @ (a, n) # post)) ?s2 s'" by blast
      have "deallocate fuel F a n s = Some (Ret s')"
        using s'(1) ab by (simp add: deallocate_def mk HoleList_cursor_def s1 first Cursor_try_insert_back_def
            bottom Nil nx del: Cursor_try_merge_next_n.simps)
      then show ?thesis using s'(2,3) sb [OF i(2), of s'] by (simp add: insert_hole_def Nil)
    qed
  next
    case (Cons q pre')
    obtain b m where q: "q = (b, m)" by fastforce
    have first: "h_next (hl_first s) = Some b" using l by (simp add: Cons q next_of.simps)
    have ba: "\<not> a < b" using pre_mem [OF S, of b m] by (simp add: Cons q)
    let ?c = "\<lparr>cur_prev = Stub, cur_hole = b, cur_top = hl_top s\<rparr>"
    have "linked ?s1 Stub (pre @ post)" using i(3,4) by (simp add: linked_append)
    then have "linked ?s1 (Node b) (pre' @ post)" by (simp add: Cons q)
    moreover have "x \<le> a" if "(x, k) \<in> set pre'" for x k
      using pre_mem [OF S, of x k] that by (simp add: Cons)
    moreover have "a < x" if "(x, k) \<in> set post" for x k using post_mem [OF S that] d(5) by simp
    moreover have "length pre' < fuel" using fuel by (simp add: Cons)
    ultimately obtain c' p where lp: "insert_loop fuel ?c a ?s1 = Some (Ret (c', link_in (Node p) a ?s1))"
      "cur_hole c' = p" "cur_top c' = hl_top s" "Node p = last_ref (Node b) pre'"
      using insert_loop_ok [of ?c b ?s1 pre' post a fuel] by auto
    let ?s2 = "link_in (last_ref Stub pre) a ?s1"
    have s2: "link_in (Node p) a ?s1 = ?s2" by (simp add: Cons q lp(4))
    obtain k where k: "pre = butlast pre @ [(p, k)]"
    proof -
      have "pre \<noteq> []" by (simp add: Cons)
      then have e: "pre = butlast pre @ [last pre]" by simp
      have "last_ref Stub pre = Node (fst (last pre))" by (rule last_ref_last) (simp add: Cons)
      then have "p = fst (last pre)" using lp(4) by (simp add: Cons q)
      with e that [of "snd (last pre)"] show ?thesis by simp
    qed
    have eq: "pre @ (a, n) # post = butlast pre @ (p, k) # (a, n) # post" by (subst k) simp
    have "linked ?s2 Stub (butlast pre @ (p, k) # (a, n) # post)" "spaced lo (butlast pre @ (p, k) # (a, n) # post) hi"
      "top_ok ((p, k) # (a, n) # post) (hl_top s)"
      using i(1) S t unfolding eq by (simp_all add: top_ok_def hole_end_append)
    from merge_ok [OF this lo bd, of 2] obtain s' where s':
      "Cursor_try_merge_next_n F p (hl_top s) 2 ?s2 = Ret s'"
      "linked s' Stub (butlast pre @ merge_next 2 ((p, k) # (a, n) # post))"
      "same_but (area (butlast pre @ (p, k) # (a, n) # post)) ?s2 s'" by blast
    have "deallocate fuel F a n s = Some (Ret s')"
      using s'(1) ba lp s2 by (simp add: deallocate_def mk HoleList_cursor_def s1 first Cursor_try_insert_back_def
          del: Cursor_try_merge_next_n.simps)
    moreover have "last pre = (p, k)" using k by (metis last_snoc)
    ultimately show ?thesis using s'(2,3) sb [OF i(2), of s'] unfolding eq [symmetric]
      by (simp add: insert_hole_def Cons)
  qed
qed

end

end
