(* ===== verification/Hole_Blocks.thy ===== *)
theory Hole_Blocks
  imports Hole_Chain
begin

text \<open>
  What the allocator of \<open>memory/heap.rs\<close> promises: its memory is a sequence of blocks, free or in use,
  without a gap and without two free blocks side by side.  An allocation takes the first free block
  that fits; giving a block back joins it with its free neighbours.  The operations of the source
  refine these, on any memory, and leave the contents of the blocks in use alone.
\<close>

section \<open>Blocks\<close>

type_synonym block = "bool \<times> nat"   \<comment> \<open>free, and its size\<close>

fun bytes :: "block list \<Rightarrow> nat" where
  "bytes [] = 0"
| "bytes ((f, n) # bs) = n + bytes bs"

fun holes :: "nat \<Rightarrow> block list \<Rightarrow> (nat \<times> nat) list" where
  "holes a [] = []"
| "holes a ((f, n) # bs) = (if f then [(a, n)] else []) @ holes (a + n) bs"

fun used :: "nat \<Rightarrow> block list \<Rightarrow> (nat \<times> nat) list" where
  "used a [] = []"
| "used a ((f, n) # bs) = (if f then [] else [(a, n)]) @ used (a + n) bs"

fun no_adjacent :: "block list \<Rightarrow> bool" where
  "no_adjacent ((f, n) # (g, m) # bs) = (\<not> (f \<and> g) \<and> no_adjacent ((g, m) # bs))"
| "no_adjacent bs = True"

fun block_ok :: "block \<Rightarrow> bool" where
  "block_ok (f, n) = (8 \<le> n \<and> 4 dvd n)"

definition blocks_ok :: "block list \<Rightarrow> bool" where
  "blocks_ok bs \<longleftrightarrow> list_all block_ok bs \<and> no_adjacent bs"

definition free_block :: "nat \<Rightarrow> block list" where
  "free_block n = (if n = 0 then [] else [(True, n)])"

fun spec_allocate :: "mem_layout \<Rightarrow> nat \<Rightarrow> block list \<Rightarrow> (nat \<times> block list) option" where
  "spec_allocate ly a [] = None"
| "spec_allocate ly a ((f, n) # bs) =
     (case (if f then paddings a n ly else None) of
        Some (front, back) \<Rightarrow> Some (a + front, free_block front @ (False, ly_size ly) # free_block back @ bs)
      | None \<Rightarrow> map_option (\<lambda>(p, bs'). (p, (f, n) # bs')) (spec_allocate ly (a + n) bs))"

fun join_right :: "nat \<Rightarrow> block list \<Rightarrow> block list" where
  "join_right n ((True, m) # bs) = (True, n + m) # bs"
| "join_right n bs = (True, n) # bs"

text \<open>The block of size \<open>n\<close> between \<open>xs\<close> and \<open>ys\<close> becomes free.\<close>

definition spec_free :: "block list \<Rightarrow> nat \<Rightarrow> block list \<Rightarrow> block list" where
  "spec_free xs n ys =
     (if xs \<noteq> [] \<and> fst (last xs) then butlast xs @ join_right (snd (last xs) + n) ys
      else xs @ join_right n ys)"

lemma bytes_append [simp]: "bytes (xs @ ys) = bytes xs + bytes ys"
  by (induction xs rule: bytes.induct) auto

lemma holes_append [simp]: "holes a (xs @ ys) = holes a xs @ holes (a + bytes xs) ys"
  by (induction a xs rule: holes.induct) (auto simp: add.assoc)

lemma used_append [simp]: "used a (xs @ ys) = used a xs @ used (a + bytes xs) ys"
  by (induction a xs rule: used.induct) (auto simp: add.assoc)

lemma spaced_holes: "list_all block_ok bs \<Longrightarrow> 4 dvd a \<Longrightarrow> spaced a (holes a bs) (a + bytes bs)"
proof (induction a bs rule: holes.induct)
  case (2 a f n bs)
  then have "spaced (a + n) (holes (a + n) bs) (a + n + bytes bs)" by simp
  with 2(2,3) show ?case by (auto simp: add.assoc intro: spaced_lower)
qed simp

lemma spaced_used: "list_all block_ok bs \<Longrightarrow> 4 dvd a \<Longrightarrow> spaced a (used a bs) (a + bytes bs)"
proof (induction a bs rule: used.induct)
  case (2 a f n bs)
  then have "spaced (a + n) (used (a + n) bs) (a + n + bytes bs)" by simp
  with 2(2,3) show ?case by (auto simp: add.assoc intro: spaced_lower)
qed simp

lemma area_bounds: "spaced lo hs hi \<Longrightarrow> x \<in> area hs \<Longrightarrow> lo \<le> x \<and> x < hi"
  by (auto simp: area_def dest!: spaced_mem)

lemma areas_disjoint: "list_all block_ok bs \<Longrightarrow> 4 dvd a \<Longrightarrow> area (used a bs) \<inter> area (holes a bs) = {}"
proof (induction a bs rule: used.induct)
  case (2 a f n bs)
  then have b: "list_all block_ok bs" "4 dvd a + n" by simp_all
  have "x \<notin> area (used (a + n) bs)" "x \<notin> area (holes (a + n) bs)" if "x < a + n" for x
    using area_bounds [OF spaced_used [OF b]] area_bounds [OF spaced_holes [OF b]] that by force+
  then show ?case using 2(1) [OF b] by auto
qed simp

lemma holes_lower: "(b, k) \<in> set (holes a bs) \<Longrightarrow> a \<le> b"
  by (induction a bs rule: holes.induct) (fastforce split: if_splits)+

lemma length_holes: "list_all block_ok bs \<Longrightarrow> 8 * length (holes a bs) \<le> bytes bs"
proof (induction a bs rule: holes.induct)
  case (2 a f n bs)
  then show ?case by auto
qed simp

lemma used_split:
  "(p, n) \<in> set (used a bs) \<Longrightarrow> \<exists>xs ys. bs = xs @ (False, n) # ys \<and> p = a + bytes xs"
proof (induction a bs rule: used.induct)
  case (2 a f m bs)
  then consider "\<not> f" "p = a" "n = m" | "(p, n) \<in> set (used (a + m) bs)" by (auto split: if_splits)
  then show ?case
  proof cases
    case 1
    then show ?thesis by (intro exI [of _ "[]"] exI [of _ bs]) simp
  next
    case 2
    from "2.IH" [OF 2] obtain xs ys where "bs = xs @ (False, n) # ys" "p = a + m + bytes xs" by blast
    then show ?thesis by (intro exI [of _ "(f, m) # xs"] exI [of _ ys]) simp
  qed
qed simp

lemma no_adjacent_append:
  "no_adjacent (xs @ ys) \<longleftrightarrow> no_adjacent xs \<and> no_adjacent ys \<and>
     (xs = [] \<or> ys = [] \<or> \<not> (fst (last xs) \<and> fst (hd ys)))"
proof (induction xs)
  case (Cons x xs)
  then show ?case by (cases x; cases xs; cases ys) auto
qed simp

lemma blocks_ok_append:
  "blocks_ok (xs @ ys) \<longleftrightarrow> blocks_ok xs \<and> blocks_ok ys \<and> (xs = [] \<or> ys = [] \<or> \<not> (fst (last xs) \<and> fst (hd ys)))"
  by (auto simp: blocks_ok_def no_adjacent_append)

lemma blocks_ok_Nil [simp]: "blocks_ok []"
  by (simp add: blocks_ok_def)

lemma blocks_ok_Cons [simp]:
  "blocks_ok ((f, n) # bs) \<longleftrightarrow> 8 \<le> n \<and> 4 dvd n \<and> blocks_ok bs \<and> (bs = [] \<or> \<not> (f \<and> fst (hd bs)))"
  using blocks_ok_append [of "[(f, n)]" bs] by (auto simp: blocks_ok_def)

section \<open>Allocating a block\<close>

lemma holes_free_block [simp]: "holes a (free_block n) = pad a n" "bytes (free_block n) = n" "used a (free_block n) = []"
  by (simp_all add: free_block_def pad_def)

lemma first_fit_holes:
  assumes "layout_ok ly" "list_all block_ok bs" "4 dvd a"
  shows "first_fit ly (holes a bs) = map_option (\<lambda>(p, bs'). (p, holes a bs')) (spec_allocate ly a bs)"
  using assms
proof (induction ly a bs rule: spec_allocate.induct)
  case (2 ly a f n bs)
  have n: "4 dvd n" "4 dvd a + n" "list_all block_ok bs" using 2(3,4) by simp_all
  show ?case
  proof (cases "if f then paddings a n ly else None")
    case None
    from "2.IH" [OF None 2(2) n(3,2)] None show ?thesis
      by (cases f) (auto simp: option.map_comp o_def case_prod_beta split: if_splits)
  next
    case (Some q)
    then obtain x y where q: "f" "paddings a n ly = Some (x, y)" by (cases q) (auto split: if_splits)
    from paddings_Some [OF q(2) 2(2,4) n(1)] have "a + x + ly_size ly + y = a + n" by simp
    with q show ?thesis by (simp add: add.assoc)
  qed
qed simp

lemma spec_allocate_ok:
  assumes "spec_allocate ly a bs = Some (p, bs')" "layout_ok ly" "blocks_ok bs" "4 dvd a"
  shows "blocks_ok bs' \<and> bytes bs' = bytes bs \<and> ly_align ly dvd p \<and>
    {p..<p + ly_size ly} \<subseteq> area (holes a bs) \<and>
    (\<exists>us vs. used a bs = us @ vs \<and> used a bs' = us @ (p, ly_size ly) # vs)"
  using assms
proof (induction ly a bs arbitrary: p bs' rule: spec_allocate.induct)
  case (2 ly a f n bs)
  have b: "blocks_ok bs" "4 dvd n" "4 dvd a + n" "8 \<le> n" "bs \<noteq> [] \<Longrightarrow> f \<Longrightarrow> \<not> fst (hd bs)"
    using 2(4,5) blocks_ok_append [of "[(f, n)]" bs] by (auto simp: blocks_ok_def)
  show ?case
  proof (cases "if f then paddings a n ly else None")
    case None
    with 2(2) obtain bs1 where bs1: "spec_allocate ly (a + n) bs = Some (p, bs1)" "bs' = (f, n) # bs1" by auto
    from "2.IH" [OF None bs1(1) 2(3) b(1,3)] obtain us vs where
      i: "blocks_ok bs1" "bytes bs1 = bytes bs" "ly_align ly dvd p" "{p..<p + ly_size ly} \<subseteq> area (holes (a + n) bs)"
      "used (a + n) bs = us @ vs" "used (a + n) bs1 = us @ (p, ly_size ly) # vs" by blast
    have "\<not> fst (hd bs1)" if "bs1 \<noteq> []" and f: "f"
    proof -
      obtain y ys where bs: "bs = y # ys" using bs1(1) by (cases bs) auto
      obtain m where y: "y = (False, m)" using b(5) f bs by (cases y) auto
      then show ?thesis using bs1(1) by (auto simp: bs)
    qed
    then have "blocks_ok bs'"
      using i(1) b(2,4) blocks_ok_append [of "[(f, n)]" bs1] by (auto simp: bs1(2) blocks_ok_def)
    moreover have "\<exists>us vs. used a ((f, n) # bs) = us @ vs \<and> used a bs' = us @ (p, ly_size ly) # vs"
      using i(5,6) by (intro exI [of _ "(if f then [] else [(a, n)]) @ us"] exI [of _ vs]) (simp add: bs1(2))
    ultimately show ?thesis using i(2-4) by (auto simp: bs1(2))
  next
    case (Some q)
    then obtain x y where q: "f" "paddings a n ly = Some (x, y)" by (cases q) (auto split: if_splits)
    note pd = paddings_Some [OF q(2) 2(3,5) b(2)]
    from 2(2) q have p: "p = a + x" "bs' = free_block x @ (False, ly_size ly) # free_block y @ bs" by auto
    have ly: "8 \<le> ly_size ly" "4 dvd ly_size ly" "is_pow2 (ly_align ly)" using 2(3) by (simp_all add: layout_ok_def)
    have fb: "blocks_ok (free_block x)" "blocks_ok (free_block y)"
      using pd(2-5) by (auto simp: free_block_def blocks_ok_def)
    have "blocks_ok (free_block y @ bs)"
      using fb(2) b(1,5) q(1) by (auto simp: blocks_ok_append)
    then have "blocks_ok ((False, ly_size ly) # free_block y @ bs)" using ly(1,2) by simp
    then have ok: "blocks_ok bs'" using fb(1) by (simp only: p(2) blocks_ok_append) simp
    have eq: "a + x + ly_size ly + y = a + n" using pd(1) by simp
    have tot: "bytes bs' = bytes ((f, n) # bs)" using pd(1) by (simp add: p(2))
    have "ly_align ly dvd p" using alloc_start_bounds(4) [OF ly(3) 2(5)] by (simp add: p(1) pd(6))
    moreover have "{p..<p + ly_size ly} \<subseteq> area (holes a ((f, n) # bs))"
      using pd(1) q(1) by (auto simp: p(1))
    moreover have "\<exists>us vs. used a ((f, n) # bs) = us @ vs \<and> used a bs' = us @ (p, ly_size ly) # vs"
      using q(1) eq by (intro exI [of _ "[]"] exI [of _ "used (a + n) bs"]) (simp add: p add.assoc)
    ultimately show ?thesis using ok tot by blast
  qed
qed simp

section \<open>Freeing a block\<close>

lemma holes_join_right:
  assumes "list_all block_ok ys"
  shows "holes a (join_right n ys) = merge_next 1 ((a, n) # holes (a + n) ys)"
    and "bytes (join_right n ys) = n + bytes ys" "used a (join_right n ys) = used (a + n) ys"
proof -
  show "bytes (join_right n ys) = n + bytes ys" "used a (join_right n ys) = used (a + n) ys"
    by (cases "(n, ys)" rule: join_right.cases; simp add: add.assoc)+
  show "holes a (join_right n ys) = merge_next 1 ((a, n) # holes (a + n) ys)"
  proof (cases ys)
    case (Cons y bs)
    obtain f m where y: "y = (f, m)" by fastforce
    show ?thesis
    proof (cases f)
      case True
      then show ?thesis by (simp add: Cons y add.assoc)
    next
      case False
      have no: "(a + n, k) \<notin> set (holes (a + n + m) bs)" for k
        using holes_lower [of "a + n" k "a + n + m" bs] assms by (auto simp: Cons y)
      show ?thesis
      proof (cases "holes (a + n + m) bs")
        case hs: (Cons h hs)
        obtain b k where h: "h = (b, k)" by fastforce
        with no [of k] hs have "a + n \<noteq> b" by auto
        with False hs show ?thesis by (simp add: Cons y h)
      qed (use False in \<open>simp add: Cons y\<close>)
    qed
  qed simp
qed

lemma join_right_ok:
  assumes "blocks_ok ys" "8 \<le> n" "4 dvd n"
  shows "blocks_ok (join_right n ys)" "join_right n ys \<noteq> []" "fst (hd (join_right n ys))"
  using assms by (cases "(n, ys)" rule: join_right.cases; auto)+

lemma merge_next_2: "merge_next 2 (h # (b, n) # hs) =
    (if fst h + snd h = b then merge_next 1 ((fst h, snd h + n) # hs) else h # merge_next 1 ((b, n) # hs))"
  by (cases h) (simp add: numeral_2_eq_2)

lemma spec_free_ok:
  assumes ok: "blocks_ok (xs @ (False, n) # ys)" and a: "4 dvd a"
  shows "blocks_ok (spec_free xs n ys)" "bytes (spec_free xs n ys) = bytes (xs @ (False, n) # ys)"
    and "used a (spec_free xs n ys) = used a xs @ used (a + bytes xs + n) ys"
    and "holes a (spec_free xs n ys) = insert_hole (holes a xs) (a + bytes xs, n) (holes (a + bytes xs + n) ys)"
proof -
  have ys: "blocks_ok ys" "8 \<le> n" "4 dvd n" and xs: "blocks_ok xs" using ok by (simp_all add: blocks_ok_append)
  then have lys: "list_all block_ok ys" and lxs: "list_all block_ok xs" by (simp_all add: blocks_ok_def)
  note j = holes_join_right [OF lys]
  have "blocks_ok (spec_free xs n ys) \<and> bytes (spec_free xs n ys) = bytes (xs @ (False, n) # ys) \<and>
      used a (spec_free xs n ys) = used a xs @ used (a + bytes xs + n) ys \<and>
      holes a (spec_free xs n ys) = insert_hole (holes a xs) (a + bytes xs, n) (holes (a + bytes xs + n) ys)"
  proof (cases "xs \<noteq> [] \<and> fst (last xs)")
    case True
    then obtain zs m where zs: "xs = zs @ [(True, m)]"
      by (metis append_butlast_last_id prod.collapse)
    have m: "8 \<le> m + n" "4 dvd m + n" "blocks_ok zs" "zs = [] \<or> \<not> fst (last zs)"
      using xs ys by (auto simp: zs blocks_ok_append)
    have eq: "spec_free xs n ys = zs @ join_right (m + n) ys" by (simp add: spec_free_def zs)
    have "blocks_ok (spec_free xs n ys)"
      using join_right_ok [OF ys(1) m(1,2)] m(3,4) by (auto simp: eq blocks_ok_append)
    moreover have "insert_hole (holes a xs) (a + bytes xs, n) (holes (a + bytes xs + n) ys) =
        holes a zs @ merge_next 1 ((a + bytes zs, m + n) # holes (a + bytes zs + (m + n)) ys)"
      by (simp add: insert_hole_def zs merge_next_2 add.assoc del: merge_next.simps)
    moreover have "used (a + bytes zs + (m + n)) ys = used (a + bytes xs + n) ys" by (simp add: zs add.assoc)
    ultimately show ?thesis by (simp add: eq [unfolded zs] j zs add.assoc del: merge_next.simps)
  next
    case False
    then have eq: "spec_free xs n ys = xs @ join_right n ys" by (auto simp: spec_free_def)
    have "blocks_ok (spec_free xs n ys)"
      using join_right_ok [OF ys] xs False by (auto simp: eq blocks_ok_append)
    moreover have "fst (last (holes a xs)) + snd (last (holes a xs)) \<noteq> a + bytes xs" if ne: "holes a xs \<noteq> []"
    proof -
      from ne have "xs \<noteq> []" by auto
      with False obtain zs m where zs: "xs = zs @ [(False, m)]"
        by (metis append_butlast_last_id prod.collapse)
      have "(fst (last (holes a zs)), snd (last (holes a zs))) \<in> set (holes a zs)" using ne by (simp add: zs)
      moreover have "list_all block_ok zs" "8 \<le> m" using lxs by (simp_all add: zs)
      ultimately show ?thesis using spaced_mem [OF spaced_holes [OF _ a]] by (fastforce simp: zs)
    qed
    then have "insert_hole (holes a xs) (a + bytes xs, n) (holes (a + bytes xs + n) ys) =
        holes a xs @ merge_next 1 ((a + bytes xs, n) # holes (a + bytes xs + n) ys)"
      by (auto simp: insert_hole_def merge_next_2 simp del: merge_next.simps)
    ultimately show ?thesis by (simp add: eq j add.assoc del: merge_next.simps)
  qed
  then show "blocks_ok (spec_free xs n ys)" "bytes (spec_free xs n ys) = bytes (xs @ (False, n) # ys)"
    "used a (spec_free xs n ys) = used a xs @ used (a + bytes xs + n) ys"
    "holes a (spec_free xs n ys) = insert_hole (holes a xs) (a + bytes xs, n) (holes (a + bytes xs + n) ys)" by blast+
qed

lemma hole_end_holes:
  "list_all block_ok bs \<Longrightarrow> holes a bs \<noteq> [] \<Longrightarrow>
   hole_end (holes a bs) = a + bytes bs \<or> hole_end (holes a bs) + 8 \<le> a + bytes bs"
proof (induction a bs rule: holes.induct)
  case (2 a f n bs)
  show ?case
  proof (cases "holes (a + n) bs")
    case Nil
    have "bs = [] \<or> 8 \<le> bytes bs" using 2(2) by (cases bs) auto
    with Nil 2(3) show ?thesis by (auto split: if_splits)
  next
    case (Cons h hs)
    with 2 show ?thesis by (auto simp: add.assoc hole_end_Cons)
  qed
qed simp

end
