(* ===== verification/Hole_Heap.thy ===== *)
theory Hole_Heap
  imports Hole_Blocks
begin

text \<open>
  The allocator of \<open>memory/heap.rs\<close> refines the blocks of \<open>Hole_Blocks\<close>, and what follows for its clients: runs of
  allocations, releases, extensions and of writes of the clients into their blocks.
\<close>

definition heap_holds :: "hole_list \<Rightarrow> block list \<Rightarrow> bool" where
  "heap_holds s bs \<longleftrightarrow> linked s Stub (holes (hl_bottom s) bs) \<and> blocks_ok bs \<and> 4 dvd hl_bottom s \<and>
     0 < hl_bottom s \<and> hl_top s = hl_bottom s + bytes bs \<and> hl_pending_extend s < 8"

lemma heap_holdsD:
  assumes "heap_holds s bs"
  shows "linked s Stub (holes (hl_bottom s) bs)" "blocks_ok bs" "list_all block_ok bs" "4 dvd hl_bottom s"
    "0 < hl_bottom s" "hl_top s = hl_bottom s + bytes bs" "hl_pending_extend s < 8"
    "spaced (hl_bottom s) (holes (hl_bottom s) bs) (hl_top s)"
proof -
  show "linked s Stub (holes (hl_bottom s) bs)" "blocks_ok bs" "list_all block_ok bs" "4 dvd hl_bottom s"
    "0 < hl_bottom s" "hl_top s = hl_bottom s + bytes bs" "hl_pending_extend s < 8"
    using assms by (simp_all add: heap_holds_def blocks_ok_def)
  then show "spaced (hl_bottom s) (holes (hl_bottom s) bs) (hl_top s)" by (simp add: spaced_holes)
qed

section \<open>The operations refine the blocks\<close>

context hole_align
begin

lemma allocate_refines:
  assumes h: "heap_holds s bs" and ly: "request_ok ly" and bd: "hl_top s + ly_align ly + 8 \<le> usize_max"
    and fuel: "bytes bs \<le> 8 * fuel"
  shows "case spec_allocate (align_layout ly) (hl_bottom s) bs of
      None \<Rightarrow> HoleList_allocate_first_fit fuel F ly s = Some (Ret (Err (), s))
    | Some (p, bs') \<Rightarrow> \<exists>s'. HoleList_allocate_first_fit fuel F ly s = Some (Ret (Ok (p, align_layout ly), s')) \<and>
        heap_holds s' bs' \<and> same_but (area (holes (hl_bottom s) bs)) s s'"
proof -
  note d = heap_holdsD [OF h]
  note lok = layout_ok_align [OF ly]
  have "length (holes (hl_bottom s) bs) \<le> fuel" using length_holes [OF d(3), of "hl_bottom s"] fuel by simp
  from allocate_ok [OF d(1,8) this d(5) ly bd]
  have al: "allocated (HoleList_allocate_first_fit fuel F ly s) (align_layout ly) [] (holes (hl_bottom s) bs) s" .
  show ?thesis
  proof (cases "spec_allocate (align_layout ly) (hl_bottom s) bs")
    case None
    with al show ?thesis by (simp add: allocated_def first_fit_holes [OF lok d(3,4)])
  next
    case (Some r)
    obtain p bs' where r: "r = (p, bs')" by fastforce
    from al obtain s' where s': "HoleList_allocate_first_fit fuel F ly s = Some (Ret (Ok (p, align_layout ly), s'))"
      "linked s' Stub (holes (hl_bottom s) bs')" "same_but (area (holes (hl_bottom s) bs)) s s'"
      by (auto simp: allocated_def first_fit_holes [OF lok d(3,4)] Some r)
    from spec_allocate_ok [OF Some [unfolded r] lok d(2,4)] have "blocks_ok bs'" "bytes bs' = bytes bs" by auto
    with s' d have "heap_holds s' bs'" by (simp add: heap_holds_def same_but_def)
    with s' show ?thesis by (simp add: Some r)
  qed
qed

text \<open>A block is given back at a time when the list may end with it (\<open>extend\<close>) or behind it.\<close>

lemma release_ok:
  assumes l: "linked s Stub (holes (hl_bottom s) (xs @ (False, n) # ys))"
    and ok: "blocks_ok (xs @ (False, n) # ys)" and b: "4 dvd hl_bottom s" "0 < hl_bottom s"
    and t: "hl_top s = hl_bottom s + bytes (xs @ (False, n) # ys) \<or> ys = [] \<and> hl_top s = hl_bottom s + bytes xs"
    and bd: "hl_bottom s + bytes (xs @ (False, n) # ys) + 8 \<le> usize_max"
    and fuel: "bytes xs \<le> 8 * fuel"
  shows "\<exists>s'. deallocate fuel F (hl_bottom s + bytes xs) n s = Some (Ret s') \<and>
    linked s' Stub (holes (hl_bottom s) (spec_free xs n ys)) \<and>
    same_but (area (holes (hl_bottom s) (xs @ (True, n) # ys))) s s'"
proof -
  let ?b = "hl_bottom s" and ?a = "hl_bottom s + bytes xs"
  have lok: "list_all block_ok (xs @ (True, n) # ys)" "list_all block_ok xs" using ok by (simp_all add: blocks_ok_def)
  have S: "spaced ?b (holes ?b xs @ (?a, n) # holes (?a + n) ys) (?b + bytes (xs @ (False, n) # ys))"
    using spaced_holes [OF lok(1) b(1)] by simp
  have bot: "?a = ?b \<or> ?b + 8 \<le> ?a" using lok(2) by (cases xs) auto
  have "hole_end (holes ?b (xs @ (True, n) # ys)) = ?b + bytes (xs @ (True, n) # ys) \<or>
      hole_end (holes ?b (xs @ (True, n) # ys)) + 8 \<le> ?b + bytes (xs @ (True, n) # ys)"
    by (rule hole_end_holes [OF lok(1)]) simp
  moreover have "hole_end (holes ?b (xs @ [(True, n)])) = ?a + n" by (simp add: hole_end_append)
  ultimately have "top_ok (holes ?b xs @ (?a, n) # holes (?a + n) ys) (hl_top s)"
    using t by (auto simp: top_ok_def)
  moreover have "length (holes ?b xs) \<le> fuel" using length_holes [OF lok(2), of ?b] fuel by simp
  ultimately have "\<exists>s'. deallocate fuel F ?a n s = Some (Ret s') \<and>
      linked s' Stub (insert_hole (holes ?b xs) (?a, n) (holes (?a + n) ys)) \<and>
      same_but (area (holes ?b xs @ (?a, n) # holes (?a + n) ys)) s s'"
    using deallocate_ok [OF _ S b(2) bot _ bd] l by (simp add: add.assoc)
  then show ?thesis using spec_free_ok(4) [OF ok b(1)] by simp
qed

lemma deallocate_refines:
  assumes h: "heap_holds s (xs @ (False, n) # ys)" and ly: "request_ok ly" and n: "n = aligned_size (ly_size ly)"
    and bd: "hl_top s + 8 \<le> usize_max" and fuel: "bytes xs \<le> 8 * fuel"
  shows "\<exists>s'. HoleList_deallocate fuel F (hl_bottom s + bytes xs) ly s = Some (Ret (align_layout ly, s')) \<and>
    heap_holds s' (spec_free xs n ys) \<and>
    same_but (area (holes (hl_bottom s) (xs @ (True, n) # ys))) s s'"
proof -
  note d = heap_holdsD [OF h]
  from release_ok [OF d(1,2,4,5) disjI1 [OF d(6)] _ fuel] bd d(6) obtain s' where
    s': "deallocate fuel F (hl_bottom s + bytes xs) n s = Some (Ret s')"
    "linked s' Stub (holes (hl_bottom s) (spec_free xs n ys))"
    "same_but (area (holes (hl_bottom s) (xs @ (True, n) # ys))) s s'" by auto
  have "heap_holds s' (spec_free xs n ys)"
    using s'(2,3) d spec_free_ok(1,2) [OF d(2,4)] by (simp add: heap_holds_def same_but_def)
  moreover have "HoleList_deallocate fuel F (hl_bottom s + bytes xs) ly s = Some (Ret (align_layout ly, s'))"
    using s'(1) by (simp add: HoleList_deallocate_def align_layout_eq [OF ly]) (simp add: align_layout_def n)
  ultimately show ?thesis using s'(3) by blast
qed

lemma extend_refines:
  assumes h: "heap_holds s bs" and bd: "hl_top s + hl_pending_extend s + by + 8 \<le> usize_max"
    and sz: "hl_pending_extend s + by \<le> isize_max" and fuel: "bytes bs \<le> 8 * fuel"
  shows "\<exists>s'. HoleList_extend fuel F by s = Some (Ret s') \<and>
    hl_top s' + hl_pending_extend s' = hl_top s + hl_pending_extend s + by \<and>
    heap_holds s' (if hl_pending_extend s + by < 8 then bs else spec_free bs ((hl_pending_extend s + by) div 4 * 4) []) \<and>
    hl_bottom s' = hl_bottom s \<and>
    (\<forall>x. x \<notin> area (holes (hl_bottom s) bs) \<longrightarrow> x < hl_top s \<longrightarrow> hl_mem s' x = hl_mem s x)"
proof -
  note d = heap_holdsD [OF h]
  define e where "e = hl_pending_extend s + by"
  define m where "m = e div 4 * 4"
  have add: "add_usize (hl_pending_extend s) by = Ret e" using bd by (simp add: e_def)
  have down: "al_down_size F e HOLE_ALIGN = m" by (simp add: down_size HOLE_ALIGN_def m_def)
  have dv: "4 dvd bytes bs" using d(3)
    by (induction bs rule: bytes.induct) auto
  have top: "4 dvd hl_top s" "hl_top s \<noteq> 0" using d(4-6) dv by simp_all
  have asserts: "rust_assert (hl_top s \<noteq> 0) = Ret ()" "rust_assert (ptr_align_offset (hl_top s) HOLE_ALIGN = 0) = Ret ()"
    "rust_assert (hl_pending_extend s < HoleList_min_size) = Ret ()"
    using top d(7) by (simp_all add: ptr_align_offset_def HOLE_ALIGN_def HoleList_min_size_def dvd_eq_mod_eq_0)
  note run = HoleList_extend_def Let_def asserts add bind_fuel.simps down
  have top_e: "hl_top s + hl_pending_extend s + by = hl_top s + e" by (simp add: e_def)
  show ?thesis
  proof (cases "e < 8")
    case True
    have "HoleList_extend fuel F by s = Some (Ret (s\<lparr>hl_pending_extend := e\<rparr>))"
      unfolding run using True by (simp add: HoleList_min_size_def)
    moreover have "heap_holds (s\<lparr>hl_pending_extend := e\<rparr>) bs"
    proof -
      have "linked (s\<lparr>hl_pending_extend := e\<rparr>) Stub (holes (hl_bottom s) bs)"
      proof (rule linked_cong [OF d(1)])
        show "next_of x (s\<lparr>hl_pending_extend := e\<rparr>) = next_of x s" for x by (cases x) (simp_all add: next_of.simps)
      qed (simp add: node_size_def)
      with d True show ?thesis by (simp add: heap_holds_def)
    qed
    ultimately show ?thesis unfolding top_e unfolding e_def [symmetric] unfolding m_def [symmetric] using True by simp
  next
    case False
    have n8: "8 \<le> m" "4 dvd m" "m \<le> e" "e - m < 4" unfolding m_def using False by presburger+
    let ?ly = "\<lparr>ly_size = m, ly_align = 1\<rparr>"
    have as: "aligned_size m = m" using n8(1,2) by (simp add: aligned_size_def round_to_dvd max_absorb1)
    have "m \<le> isize_max" using n8(3) sz by (simp add: e_def)
    then have rq: "request_ok ?ly" and lyt: "Layout_from_size_align m 1 = Ok ?ly"
      by (simp_all add: request_ok_def as Layout_from_size_align_def)
    have ok: "blocks_ok (bs @ (False, m) # [])" using d(2) n8 by (simp add: blocks_ok_append)
    have "\<exists>s'. deallocate fuel F (hl_bottom s + bytes bs) m s = Some (Ret s') \<and>
        linked s' Stub (holes (hl_bottom s) (spec_free bs m [])) \<and>
        same_but (area (holes (hl_bottom s) (bs @ (True, m) # []))) s s'"
      by (rule release_ok [OF _ ok d(4,5) _ _ fuel]) (use d(1,6) n8 bd in \<open>auto simp: e_def\<close>)
    then obtain s' where s': "deallocate fuel F (hl_top s) m s = Some (Ret s')"
      "linked s' Stub (holes (hl_bottom s) (spec_free bs m []))"
      "same_but (area (holes (hl_bottom s) (bs @ (True, m) # []))) s s'" by (auto simp: d(6))
    let ?s = "s'\<lparr>hl_top := hl_top s + m, hl_pending_extend := e - m\<rparr>"
    have "HoleList_deallocate fuel F (hl_top s) ?ly s = Some (Ret (align_layout ?ly, s'))"
      using s'(1) unfolding HoleList_deallocate_def align_layout_eq [OF rq] by (simp add: align_layout_def as)
    then have ext: "HoleList_extend fuel F by s = Some (Ret ?s)"
      unfolding run using False lyt n8 bd by (simp add: HoleList_min_size_def e_def)
    have "linked ?s Stub (holes (hl_bottom s) (spec_free bs m []))"
    proof (rule linked_cong [OF s'(2)])
      show "next_of x ?s = next_of x s'" for x by (cases x) (simp_all add: next_of.simps)
    qed (simp add: node_size_def)
    moreover have "hl_bottom s' = hl_bottom s" using s'(3) by (simp add: same_but_def)
    ultimately have "heap_holds ?s (spec_free bs m [])"
      using d(4-6) n8(4) spec_free_ok(1,2) [OF ok d(4)] by (simp add: heap_holds_def)
    moreover have "hl_mem ?s x = hl_mem s x" if "x \<notin> area (holes (hl_bottom s) bs)" "x < hl_top s" for x
      using s'(3) that d(6) by (simp add: same_but_def)
    ultimately show ?thesis unfolding top_e unfolding e_def [symmetric] unfolding m_def [symmetric]
      using ext n8(3) False \<open>hl_bottom s' = hl_bottom s\<close> by simp
  qed
qed

lemma new_holds:
  assumes a: "0 < a" "a + n \<le> usize_max" and n: "12 \<le> n"
  shows "\<exists>s. HoleList_new F a n mem = Ret s \<and> heap_holds s [(True, hl_top s - hl_bottom s)] \<and>
    a \<le> hl_bottom s \<and> hl_bottom s < a + 4 \<and> hl_top s + hl_pending_extend s = a + n"
proof -
  define b where "b = round_to a 4"
  define r where "r = n - (b - a)"
  define m where "m = r div 4 * 4"
  have b: "4 dvd b" "a \<le> b" "b < a + 4" using round_to_bounds [of 4 a] by (simp_all add: b_def)
  have up: "al_up F a 4 = b" using b(3) a n unfolding b_def by (intro up) simp_all
  have r: "b - a \<le> n" "b + r = a + n" "9 \<le> r" using b(2,3) n by (simp_all add: r_def)
  have m: "8 \<le> m" "m \<le> r" "r - m < 4" "4 dvd m" unfolding m_def using r(3) by presburger+
  have down: "al_down_size F r 4 = m" by (simp add: down_size m_def)
  let ?s = "write_hole b \<lparr>h_size = m, h_next = None\<rparr>
    \<lparr>hl_first = \<lparr>h_size = 0, h_next = Some b\<rparr>, hl_bottom = b, hl_top = b + m, hl_pending_extend = r - m, hl_mem = mem\<rparr>"
  have w: "wrapping_add a n = a + n" "wrapping_add b r = a + n" "wrapping_add b m = b + m"
    using a(2) r(2) m(2) by simp_all
  have sub: "bind_out (sub_usize b a) (sub_usize n) = Ret r" using b(2) r(1) by (simp add: r_def)
  have "HoleList_new F a n mem = Ret ?s"
    unfolding HoleList_new_def HOLE_SIZE_def HOLE_ALIGN_def HoleList_min_size_def Let_def up sub bind_out.simps down w
    using m n by (simp add: w)
  moreover have f: "hl_bottom ?s = b" "hl_top ?s = b + m" "hl_pending_extend ?s = r - m"
    by (simp_all add: write_hole_def)
  moreover have "heap_holds ?s [(True, m)]"
  proof -
    have "linked ?s Stub [(b, m)]" by (simp add: node_size_def write_hole_def next_of.simps ptr_of_word_def)
    with f show ?thesis using m b(1,2) a(1) by (simp add: heap_holds_def)
  qed
  ultimately show ?thesis using b(2,3) r(2) m(2) by (intro exI [of _ ?s]) simp
qed

end

section \<open>Runs\<close>

text \<open>
  A client allocates, gives back one of its blocks, writes a word of one of its blocks, or gives the
  heap more memory behind its end.  \<open>hr_shadow\<close> records what the client wrote last to each word of its blocks.
\<close>

datatype heap_op = HeapAlloc mem_layout | HeapFree nat | HeapWrite nat nat nat | HeapExtend nat

record heap_run =
  hr_heap :: hole_list
  hr_live :: "(nat \<times> mem_layout) list"
  hr_shadow :: "nat \<Rightarrow> nat option"

definition block_of :: "nat \<times> mem_layout \<Rightarrow> nat \<times> nat" where
  "block_of b = (fst b, aligned_size (ly_size (snd b)))"

fun heap_exec :: "nat \<Rightarrow> align_fns \<Rightarrow> heap_run \<Rightarrow> heap_op \<Rightarrow> heap_run outcome option" where
  "heap_exec fuel F r (HeapAlloc ly) =
     bind_fuel (HoleList_allocate_first_fit fuel F ly (hr_heap r)) (\<lambda>(res, s).
       Some (Ret (case res of
           Ok (p, _) \<Rightarrow> r\<lparr>hr_heap := s, hr_live := (p, ly) # hr_live r\<rparr>
         | Err _ \<Rightarrow> r\<lparr>hr_heap := s\<rparr>)))"
| "heap_exec fuel F r (HeapFree i) =
     (if i < length (hr_live r) then
        let (p, ly) = hr_live r ! i
        in bind_fuel (HoleList_deallocate fuel F p ly (hr_heap r)) (\<lambda>(_, s).
             Some (Ret (r\<lparr>hr_heap := s, hr_live := take i (hr_live r) @ drop (Suc i) (hr_live r),
               hr_shadow := \<lambda>x. if x \<in> {p..<p + aligned_size (ly_size ly)} then None else hr_shadow r x\<rparr>)))
      else Some (Ret r))"
| "heap_exec fuel F r (HeapWrite i k v) =
     (if i < length (hr_live r) \<and> 4 * k + 4 \<le> aligned_size (ly_size (snd (hr_live r ! i))) then
        let x = fst (hr_live r ! i) + 4 * k
        in Some (Ret (r\<lparr>hr_heap := (hr_heap r)\<lparr>hl_mem := (hl_mem (hr_heap r))(x := v)\<rparr>,
             hr_shadow := (hr_shadow r)(x \<mapsto> v)\<rparr>))
      else Some (Ret r))"
| "heap_exec fuel F r (HeapExtend n) =
     bind_fuel (HoleList_extend fuel F n (hr_heap r)) (\<lambda>s. Some (Ret (r\<lparr>hr_heap := s\<rparr>)))"

fun heap_exec_all :: "nat \<Rightarrow> align_fns \<Rightarrow> heap_op list \<Rightarrow> heap_run \<Rightarrow> heap_run outcome option" where
  "heap_exec_all fuel F [] r = Some (Ret r)"
| "heap_exec_all fuel F (x # ops) r = bind_fuel (heap_exec fuel F r x) (heap_exec_all fuel F ops)"

fun growth :: "heap_op \<Rightarrow> nat" where
  "growth (HeapExtend n) = n"
| "growth _ = 0"

fun heap_op_ok :: "nat \<Rightarrow> heap_op \<Rightarrow> bool" where
  "heap_op_ok al (HeapAlloc ly) = (request_ok ly \<and> ly_align ly \<le> al)"
| "heap_op_ok al (HeapExtend n) = (n + 8 \<le> isize_max)"
| "heap_op_ok al _ = True"

definition heap_run_inv :: "heap_run \<Rightarrow> block list \<Rightarrow> bool" where
  "heap_run_inv r bs \<longleftrightarrow> heap_holds (hr_heap r) bs \<and>
     mset (map block_of (hr_live r)) = mset (used (hl_bottom (hr_heap r)) bs) \<and>
     (\<forall>b \<in> set (hr_live r). request_ok (snd b) \<and> ly_align (snd b) dvd fst b) \<and>
     (\<forall>x v. hr_shadow r x = Some v \<longrightarrow>
        x \<in> area (used (hl_bottom (hr_heap r)) bs) \<and> hl_mem (hr_heap r) x = v)"

definition heap_limit :: "hole_list \<Rightarrow> nat" where
  "heap_limit s = hl_top s + hl_pending_extend s"

lemma heap_run_invD:
  assumes "heap_run_inv r bs"
  shows "heap_holds (hr_heap r) bs" "mset (map block_of (hr_live r)) = mset (used (hl_bottom (hr_heap r)) bs)"
    "b \<in> set (hr_live r) \<Longrightarrow> request_ok (snd b) \<and> ly_align (snd b) dvd fst b"
    "hr_shadow r x = Some v \<Longrightarrow> x \<in> area (used (hl_bottom (hr_heap r)) bs) \<and> hl_mem (hr_heap r) x = v"
  using assms by (auto simp: heap_run_inv_def)

lemma heap_run_invI:
  assumes "heap_holds (hr_heap r) bs" "mset (map block_of (hr_live r)) = mset (used (hl_bottom (hr_heap r)) bs)"
    and "\<And>b. b \<in> set (hr_live r) \<Longrightarrow> request_ok (snd b) \<and> ly_align (snd b) dvd fst b"
    and "\<And>x v. hr_shadow r x = Some v \<Longrightarrow> x \<in> area (used (hl_bottom (hr_heap r)) bs) \<and> hl_mem (hr_heap r) x = v"
  shows "heap_run_inv r bs"
  using assms by (auto simp: heap_run_inv_def)

lemma live_used:
  assumes "heap_run_inv r bs" "b \<in> set (hr_live r)"
  shows "block_of b \<in> set (used (hl_bottom (hr_heap r)) bs)"
proof -
  have "block_of b \<in># mset (map block_of (hr_live r))" using assms(2) by simp
  then show ?thesis unfolding heap_run_invD(2) [OF assms(1)] by simp
qed

text \<open>A write of the client touches no node of the list.\<close>

lemma heap_holds_write:
  assumes h: "heap_holds s bs" and x: "x \<in> area (used (hl_bottom s) bs)"
  shows "heap_holds (s\<lparr>hl_mem := (hl_mem s)(x := v)\<rparr>) bs"
proof -
  note d = heap_holdsD [OF h]
  let ?s = "s\<lparr>hl_mem := (hl_mem s)(x := v)\<rparr>"
  have no: "x \<noteq> a \<and> x \<noteq> a + 4" if "(a, n) \<in> set (holes (hl_bottom s) bs)" for a n
  proof -
    have "a \<in> area (holes (hl_bottom s) bs)" "a + 4 \<in> area (holes (hl_bottom s) bs)"
      using that spaced_mem [OF d(8) that] by (auto intro: in_area)
    with x areas_disjoint [OF d(3,4)] show ?thesis by blast
  qed
  have "linked ?s Stub (holes (hl_bottom s) bs)"
    by (rule linked_cong [OF d(1)]) (use no in \<open>fastforce simp: node_size_def next_of.simps\<close>)+
  with d show ?thesis by (simp add: heap_holds_def)
qed

definition heap_moves :: "nat \<Rightarrow> align_fns \<Rightarrow> heap_run \<Rightarrow> heap_op \<Rightarrow> bool" where
  "heap_moves fuel F r x \<longleftrightarrow> (\<exists>r' bs'. heap_exec fuel F r x = Some (Ret r') \<and> heap_run_inv r' bs' \<and>
     heap_limit (hr_heap r') = heap_limit (hr_heap r) + growth x \<and> hl_bottom (hr_heap r') = hl_bottom (hr_heap r))"

context hole_align
begin

lemma heap_step_alloc:
  assumes inv: "heap_run_inv r bs" and ly: "request_ok ly"
    and bd: "heap_limit (hr_heap r) + ly_align ly + 8 \<le> usize_max" and fuel: "heap_limit (hr_heap r) \<le> 8 * fuel"
  shows "heap_moves fuel F r (HeapAlloc ly)"
proof -
  let ?s = "hr_heap r" and ?b = "hl_bottom (hr_heap r)"
  note i = heap_run_invD [OF inv]
  note d = heap_holdsD [OF i(1)]
  have by8: "bytes bs \<le> 8 * fuel" using fuel d(6) by (simp add: heap_limit_def)
  note dis = areas_disjoint [OF d(3,4)]
  have bd': "hl_top ?s + ly_align ly + 8 \<le> usize_max" using bd by (simp add: heap_limit_def)
  note al = allocate_refines [OF i(1) ly bd' by8]
  show ?thesis
  proof (cases "spec_allocate (align_layout ly) ?b bs")
    case None
    with al inv show ?thesis by (auto simp: heap_moves_def intro!: exI [of _ bs])
  next
    case (Some q)
    obtain p bs' where q: "q = (p, bs')" by fastforce
    from al obtain s' where s': "HoleList_allocate_first_fit fuel F ly ?s = Some (Ret (Ok (p, align_layout ly), s'))"
      "heap_holds s' bs'" "same_but (area (holes ?b bs)) ?s s'" by (auto simp: Some q)
    from spec_allocate_ok [OF Some [unfolded q] layout_ok_align [OF ly] d(2,4)] obtain us vs where
      sp: "ly_align ly dvd p" "used ?b bs = us @ vs" "used ?b bs' = us @ (p, aligned_size (ly_size ly)) # vs"
      by (auto simp: align_layout_def)
    have b: "hl_bottom s' = ?b" "heap_limit s' = heap_limit ?s" using s'(3) by (simp_all add: same_but_def heap_limit_def)
    let ?r = "r\<lparr>hr_heap := s', hr_live := (p, ly) # hr_live r\<rparr>"
    have "heap_run_inv ?r bs'"
    proof (rule heap_run_invI)
      show "mset (map block_of (hr_live ?r)) = mset (used (hl_bottom (hr_heap ?r)) bs')"
        using i(2) by (simp add: b sp block_of_def)
      show "request_ok (snd c) \<and> ly_align (snd c) dvd fst c" if "c \<in> set (hr_live ?r)" for c
        using that ly sp(1) i(3) [of c] by auto
      show "y \<in> area (used (hl_bottom (hr_heap ?r)) bs') \<and> hl_mem (hr_heap ?r) y = v" if "hr_shadow ?r y = Some v" for y v
      proof -
        have y: "y \<in> area (used ?b bs)" "hl_mem ?s y = v" using i(4) that by simp_all
        then have "y \<notin> area (holes ?b bs)" using dis by blast
        then show ?thesis using y s'(3) by (simp add: b sp same_but_def) blast
      qed
    qed (use s'(2) in simp)
    with s'(1) b show ?thesis by (auto simp: heap_moves_def)
  qed
qed

lemma heap_step_free:
  assumes inv: "heap_run_inv r bs" and bd: "heap_limit (hr_heap r) + 8 \<le> usize_max"
    and fuel: "heap_limit (hr_heap r) \<le> 8 * fuel"
  shows "heap_moves fuel F r (HeapFree k)"
proof -
  let ?s = "hr_heap r" and ?b = "hl_bottom (hr_heap r)"
  note i = heap_run_invD [OF inv]
  note d = heap_holdsD [OF i(1)]
  have by8: "bytes bs \<le> 8 * fuel" using fuel d(6) by (simp add: heap_limit_def)
  show ?thesis
  proof (cases "k < length (hr_live r)")
    case False
    with inv show ?thesis by (auto simp: heap_moves_def)
  next
    case True
    obtain p ly where e: "hr_live r ! k = (p, ly)" by fastforce
    let ?n = "aligned_size (ly_size ly)" and ?l = "take k (hr_live r) @ drop (Suc k) (hr_live r)"
    have live: "hr_live r = take k (hr_live r) @ (p, ly) # drop (Suc k) (hr_live r)"
      using id_take_nth_drop [OF True] e by simp
    have mem: "(p, ly) \<in> set (hr_live r)" using True e by (metis nth_mem)
    from live_used [OF inv mem] have "(p, ?n) \<in> set (used ?b bs)" by (simp add: block_of_def)
    from used_split [OF this] obtain xs ys where bs: "bs = xs @ (False, ?n) # ys" and p: "p = ?b + bytes xs" by blast
    have ly: "request_ok ly" using i(3) [OF mem] by simp
    have "hl_top ?s + 8 \<le> usize_max" "bytes xs \<le> 8 * fuel" using bd by8 by (simp_all add: heap_limit_def bs)
    from deallocate_refines [OF i(1) [unfolded bs] ly refl this] obtain s' where
      s': "HoleList_deallocate fuel F p ly ?s = Some (Ret (align_layout ly, s'))" "heap_holds s' (spec_free xs ?n ys)"
      "same_but (area (holes ?b (xs @ (True, ?n) # ys))) ?s s'" by (auto simp: p)
    have b: "hl_bottom s' = ?b" "heap_limit s' = heap_limit ?s" using s'(3) by (simp_all add: same_but_def heap_limit_def)
    have us: "used ?b (spec_free xs ?n ys) = used ?b xs @ used (?b + bytes xs + ?n) ys"
      "used ?b bs = used ?b xs @ (p, ?n) # used (?b + bytes xs + ?n) ys"
      using spec_free_ok(3) [OF _ d(4), of xs ?n ys] d(2) by (simp_all add: bs p)
    have okT: "list_all block_ok (xs @ (True, ?n) # ys)" using d(3) by (simp add: bs)
    let ?r = "r\<lparr>hr_heap := s', hr_live := ?l,
      hr_shadow := \<lambda>x. if x \<in> {p..<p + ?n} then None else hr_shadow r x\<rparr>"
    have "heap_run_inv ?r (spec_free xs ?n ys)"
    proof (rule heap_run_invI)
      have "mset (map block_of (hr_live r)) = add_mset (p, ?n) (mset (map block_of ?l))"
        by (subst live) (simp add: block_of_def)
      then show "mset (map block_of (hr_live ?r)) = mset (used (hl_bottom (hr_heap ?r)) (spec_free xs ?n ys))"
        using i(2) by (simp add: b us)
      show "request_ok (snd c) \<and> ly_align (snd c) dvd fst c" if "c \<in> set (hr_live ?r)" for c
        using that i(3) [of c] by (auto dest: in_set_takeD in_set_dropD)
      show "y \<in> area (used (hl_bottom (hr_heap ?r)) (spec_free xs ?n ys)) \<and> hl_mem (hr_heap ?r) y = v"
        if y: "hr_shadow ?r y = Some v" for y v
      proof -
        have y: "y \<notin> {p..<p + ?n}" "y \<in> area (used ?b bs)" "hl_mem ?s y = v"
          using y i(4) by (auto split: if_splits)
        then have a: "y \<in> area (used ?b xs @ used (?b + bytes xs + ?n) ys)" by (auto simp: us(2))
        then have "y \<in> area (used ?b (xs @ (True, ?n) # ys))" by simp
        then have "y \<notin> area (holes ?b (xs @ (True, ?n) # ys))" using areas_disjoint [OF okT d(4)] by blast
        then show ?thesis using a y(3) s'(3) by (simp add: b us same_but_def)
      qed
    qed (use s'(2) in simp)
    with s'(1) b show ?thesis by (auto simp: heap_moves_def True e)
  qed
qed

lemma heap_step_write:
  assumes inv: "heap_run_inv r bs"
  shows "heap_moves fuel F r (HeapWrite k j v)"
proof -
  let ?s = "hr_heap r" and ?b = "hl_bottom (hr_heap r)"
  note i = heap_run_invD [OF inv]
  note d = heap_holdsD [OF i(1)]
  show ?thesis
  proof (cases "k < length (hr_live r) \<and> 4 * j + 4 \<le> aligned_size (ly_size (snd (hr_live r ! k)))")
    case False
    with inv show ?thesis by (auto simp: heap_moves_def)
  next
    case True
    let ?x = "fst (hr_live r ! k) + 4 * j"
    let ?r = "r\<lparr>hr_heap := ?s\<lparr>hl_mem := (hl_mem ?s)(?x := v)\<rparr>, hr_shadow := (hr_shadow r)(?x \<mapsto> v)\<rparr>"
    have "block_of (hr_live r ! k) \<in> set (used ?b bs)" using live_used [OF inv nth_mem] True by blast
    then have x: "?x \<in> area (used ?b bs)" using True by (intro in_area) (auto simp: block_of_def)
    have "heap_run_inv ?r bs"
      by (rule heap_run_invI) (use heap_holds_write [OF i(1) x] i x in \<open>auto split: if_splits\<close>)
    with True show ?thesis by (auto simp: heap_moves_def heap_limit_def Let_def)
  qed
qed

lemma heap_step_extend:
  assumes inv: "heap_run_inv r bs" and n: "n + 8 \<le> isize_max"
    and bd: "heap_limit (hr_heap r) + n + 8 \<le> usize_max" and fuel: "heap_limit (hr_heap r) \<le> 8 * fuel"
  shows "heap_moves fuel F r (HeapExtend n)"
proof -
  let ?s = "hr_heap r" and ?b = "hl_bottom (hr_heap r)"
  note i = heap_run_invD [OF inv]
  note d = heap_holdsD [OF i(1)]
  have by8: "bytes bs \<le> 8 * fuel" using fuel d(6) by (simp add: heap_limit_def)
  note dis = areas_disjoint [OF d(3,4)]
  have "hl_top ?s + hl_pending_extend ?s + n + 8 \<le> usize_max" "hl_pending_extend ?s + n \<le> isize_max"
    using bd n d(7) by (simp_all add: heap_limit_def)
  from extend_refines [OF i(1) this by8] obtain s' bs' where s': "HoleList_extend fuel F n ?s = Some (Ret s')"
    "heap_limit s' = heap_limit ?s + n" "heap_holds s' bs'" "hl_bottom s' = ?b"
    "\<forall>y. y \<notin> area (holes ?b bs) \<longrightarrow> y < hl_top ?s \<longrightarrow> hl_mem s' y = hl_mem ?s y"
    "bs' = (if hl_pending_extend ?s + n < 8 then bs else spec_free bs ((hl_pending_extend ?s + n) div 4 * 4) [])"
    unfolding heap_limit_def by blast
  have us: "used ?b bs' = used ?b bs"
  proof (cases "hl_pending_extend ?s + n < 8")
    case False
    let ?m = "(hl_pending_extend ?s + n) div 4 * 4"
    have "8 \<le> ?m" using False by presburger
    then have "blocks_ok (bs @ (False, ?m) # [])" using d(2) by (simp add: blocks_ok_append)
    from spec_free_ok(3) [OF this d(4)] False show ?thesis by (simp add: s'(6))
  qed (simp add: s'(6))
  let ?r = "r\<lparr>hr_heap := s'\<rparr>"
  have "heap_run_inv ?r bs'"
  proof (rule heap_run_invI)
    show "y \<in> area (used (hl_bottom (hr_heap ?r)) bs') \<and> hl_mem (hr_heap ?r) y = v" if "hr_shadow ?r y = Some v" for y v
    proof -
      have y: "y \<in> area (used ?b bs)" "hl_mem ?s y = v" using i(4) that by simp_all
      have "y \<notin> area (holes ?b bs)" "y < hl_top ?s"
        using y(1) dis area_bounds [OF spaced_used [OF d(3,4)] y(1)] by (auto simp: d(6))
      with y s'(4,5) show ?thesis by (simp add: us)
    qed
  qed (use s'(3,4) i us in auto)
  with s' show ?thesis by (auto simp: heap_moves_def)
qed

lemma heap_step:
  assumes "heap_run_inv r bs" "heap_op_ok al x" "heap_limit (hr_heap r) + growth x + al + 8 \<le> usize_max"
    and "heap_limit (hr_heap r) \<le> 8 * fuel"
  shows "heap_moves fuel F r x"
  using assms by (cases x) (auto intro: heap_step_alloc heap_step_free heap_step_write heap_step_extend)

lemma heap_steps:
  assumes "heap_run_inv r bs" "list_all (heap_op_ok al) ops"
    and "heap_limit (hr_heap r) + sum_list (map growth ops) + al + 8 \<le> usize_max"
    and "heap_limit (hr_heap r) + sum_list (map growth ops) \<le> 8 * fuel"
  shows "\<exists>r' bs'. heap_exec_all fuel F ops r = Some (Ret r') \<and> heap_run_inv r' bs' \<and>
    heap_limit (hr_heap r') = heap_limit (hr_heap r) + sum_list (map growth ops) \<and>
    hl_bottom (hr_heap r') = hl_bottom (hr_heap r)"
  using assms
proof (induction ops arbitrary: r bs)
  case (Cons x ops)
  from Cons.prems have "heap_op_ok al x" "heap_limit (hr_heap r) + growth x + al + 8 \<le> usize_max"
    "heap_limit (hr_heap r) \<le> 8 * fuel" by simp_all
  from heap_step [OF Cons.prems(1) this, unfolded heap_moves_def] obtain r1 bs1 where r1: "heap_exec fuel F r x = Some (Ret r1)"
    "heap_run_inv r1 bs1" "heap_limit (hr_heap r1) = heap_limit (hr_heap r) + growth x"
    "hl_bottom (hr_heap r1) = hl_bottom (hr_heap r)" by blast
  from Cons.IH [OF r1(2)] Cons.prems(2-4) r1(1,3,4) show ?case by (simp add: add.assoc)
qed auto

end

definition heap_run_from ::
  "nat \<Rightarrow> align_fns \<Rightarrow> nat \<Rightarrow> nat \<Rightarrow> word_memory \<Rightarrow> heap_op list \<Rightarrow> heap_run outcome option" where
  "heap_run_from fuel F a n mem ops =
     bind_fuel (Some (HoleList_new F a n mem)) (\<lambda>s.
       heap_exec_all fuel F ops \<lparr>hr_heap = s, hr_live = [], hr_shadow = Map.empty\<rparr>)"

lemma spaced_disjoint:
  "spaced lo hs hi \<Longrightarrow> (a, n) \<in> set hs \<Longrightarrow> (b, m) \<in> set hs \<Longrightarrow> (a, n) \<noteq> (b, m) \<Longrightarrow> a + n \<le> b \<or> b + m \<le> a"
proof (induction lo hs hi rule: spaced.induct)
  case (2 lo c k hs hi)
  have "c + k \<le> x" if "(x, l) \<in> set hs" for x l
    using spaced_mem [of "c + k" hs hi x l] that 2(2) by auto
  with 2 show ?case by auto
qed simp

lemma spaced_distinct: "spaced lo hs hi \<Longrightarrow> distinct hs"
proof (induction lo hs hi rule: spaced.induct)
  case (2 lo c k hs hi)
  have "(c, k) \<notin> set hs" using spaced_mem [of "c + k" hs hi c k] 2(2) by auto
  with 2 show ?case by simp
qed simp

lemma live_disjoint:
  assumes inv: "heap_run_inv r bs" and ij: "i < length (hr_live r)" "j < length (hr_live r)" "i \<noteq> j"
  shows "fst (hr_live r ! i) + snd (block_of (hr_live r ! i)) \<le> fst (hr_live r ! j) \<or>
    fst (hr_live r ! j) + snd (block_of (hr_live r ! j)) \<le> fst (hr_live r ! i)"
proof -
  let ?u = "used (hl_bottom (hr_heap r)) bs"
  note d = heap_holdsD [OF heap_run_invD(1) [OF inv]]
  note sp = spaced_used [OF d(3,4)]
  have "distinct (map block_of (hr_live r))"
    using mset_eq_imp_distinct_iff [OF heap_run_invD(2) [OF inv]] spaced_distinct [OF sp] by simp
  then have ne: "block_of (hr_live r ! i) \<noteq> block_of (hr_live r ! j)"
    using ij by (simp add: distinct_conv_nth)
  have "block_of (hr_live r ! k) \<in> set ?u" if "k < length (hr_live r)" for k
    using live_used [OF inv nth_mem [OF that]] .
  from spaced_disjoint [OF sp, of "fst (hr_live r ! i)" _ "fst (hr_live r ! j)"] this [OF ij(1)] this [OF ij(2)] ne
  show ?thesis by (simp add: block_of_def)
qed

lemma bytes_split: "sum_list (map snd (holes a bs)) + sum_list (map snd (used a bs)) = bytes bs"
  by (induction a bs rule: holes.induct) auto

lemma all_free: "used a bs = [] \<Longrightarrow> no_adjacent bs \<Longrightarrow> bs \<noteq> [] \<Longrightarrow> \<exists>n. bs = [(True, n)]"
  by (induction bs rule: no_adjacent.induct) (auto split: if_splits)

context hole_align
begin

lemma heap_run_ok:
  assumes a: "0 < a" "12 \<le> n" and ops: "list_all (heap_op_ok al) ops"
    and bd: "a + n + sum_list (map growth ops) + al + 8 \<le> usize_max"
    and fuel: "a + n + sum_list (map growth ops) \<le> 8 * fuel"
  shows "\<exists>r bs. heap_run_from fuel F a n mem ops = Some (Ret r) \<and> heap_run_inv r bs \<and>
    heap_limit (hr_heap r) = a + n + sum_list (map growth ops) \<and>
    a \<le> hl_bottom (hr_heap r) \<and> hl_bottom (hr_heap r) < a + 4"
proof -
  have "a + n \<le> usize_max" using bd by simp
  from new_holds [OF a(1) this a(2)] obtain s where s: "HoleList_new F a n mem = Ret s"
    "heap_holds s [(True, hl_top s - hl_bottom s)]" "a \<le> hl_bottom s" "hl_bottom s < a + 4" "heap_limit s = a + n"
    unfolding heap_limit_def by blast
  let ?r = "\<lparr>hr_heap = s, hr_live = [], hr_shadow = Map.empty\<rparr>"
  have "heap_run_inv ?r [(True, hl_top s - hl_bottom s)]"
    by (rule heap_run_invI) (use s(2) in auto)
  from heap_steps [OF this ops, of fuel] bd fuel s(5) obtain r bs where
    "heap_exec_all fuel F ops ?r = Some (Ret r)" "heap_run_inv r bs"
    "heap_limit (hr_heap r) = a + n + sum_list (map growth ops)" "hl_bottom (hr_heap r) = hl_bottom s" by auto
  with s(1,3,4) show ?thesis
    by (intro exI [of _ r] exI [of _ bs]) (simp add: heap_run_from_def)
qed

end

section \<open>Properties\<close>

text \<open>
  C13. The heap is safe for its clients: from \<open>HoleList::new\<close> on at least 12 bytes, any sequence of allocations,
  releases of live blocks, extensions, and writes of the clients into their blocks runs without a panic
  (within the address space, and with fuel for an eighth of its size); every live block has the alignment that was asked for and
  lies in the memory given to the heap, no two live blocks overlap, and the allocator never changes
  what a client has written into a live block.
\<close>

theorem heap_runs_safe:
  assumes F: "hole_align F" and a: "0 < a" "12 \<le> n" and ops: "list_all (heap_op_ok al) ops"
    and bd: "a + n + sum_list (map growth ops) + al + 8 \<le> usize_max"
    and fuel: "a + n + sum_list (map growth ops) \<le> 8 * fuel"
  shows "\<exists>r. heap_run_from fuel F a n mem ops = Some (Ret r) \<and>
    (\<forall>b \<in> set (hr_live r). ly_align (snd b) dvd fst b \<and> a \<le> fst b \<and>
       fst b + snd (block_of b) \<le> a + n + sum_list (map growth ops)) \<and>
    (\<forall>i < length (hr_live r). \<forall>j < length (hr_live r). i \<noteq> j \<longrightarrow>
       fst (hr_live r ! i) + snd (block_of (hr_live r ! i)) \<le> fst (hr_live r ! j) \<or>
       fst (hr_live r ! j) + snd (block_of (hr_live r ! j)) \<le> fst (hr_live r ! i)) \<and>
    (\<forall>x v. hr_shadow r x = Some v \<longrightarrow> hl_mem (hr_heap r) x = v)"
proof -
  obtain r bs where r: "heap_run_from fuel F a n mem ops = Some (Ret r)" and inv: "heap_run_inv r bs"
    and l: "heap_limit (hr_heap r) = a + n + sum_list (map growth ops)" "a \<le> hl_bottom (hr_heap r)"
    using hole_align.heap_run_ok [OF F a ops bd fuel] by blast
  note d = heap_holdsD [OF heap_run_invD(1) [OF inv]]
  have "ly_align (snd b) dvd fst b \<and> a \<le> fst b \<and> fst b + snd (block_of b) \<le> a + n + sum_list (map growth ops)"
    if b: "b \<in> set (hr_live r)" for b
  proof -
    have "(fst b, snd (block_of b)) \<in> set (used (hl_bottom (hr_heap r)) bs)"
      using live_used [OF inv b] by (simp add: block_of_def)
    from spaced_mem [OF spaced_used [OF d(3,4)] this] l d(6) heap_run_invD(3) [OF inv b] show ?thesis
      by (simp add: heap_limit_def)
  qed
  then show ?thesis
    by (intro exI [of _ r] conjI r ballI allI impI live_disjoint [OF inv])
      (use heap_run_invD(4) [OF inv] in blast)+
qed

definition demo_heap :: hole_list where
  "demo_heap = write_hole 1024 \<lparr>h_size = 64, h_next = None\<rparr> \<lparr>hl_first = \<lparr>h_size = 0, h_next = Some 1024\<rparr>,
     hl_bottom = 1024, hl_top = 1088, hl_pending_extend = 0, hl_mem = \<lambda>_. 0\<rparr>"

definition demo_request :: mem_layout where
  "demo_request = \<lparr>ly_size = 18, ly_align = 16\<rparr>"

lemma demo_heap:
  "HoleList_new std_align 1024 64 (\<lambda>_. 0) = Ret demo_heap" "heap_holds demo_heap [(True, 64)]"
  "request_ok demo_request" "align_layout demo_request = \<lparr>ly_size = 20, ly_align = 16\<rparr>"
  "hl_bottom demo_heap = 1024" "hl_top demo_heap = 1088" "ly_align demo_request = 16"
  by (simp_all add: demo_heap_def demo_request_def HoleList_new_def HOLE_SIZE_def HOLE_ALIGN_def HoleList_min_size_def
      Let_def std_align_def round_to_def usize_max_def heap_holds_def write_hole_def node_size_def next_of.simps
      ptr_of_word_def align_layout_def aligned_size_def request_ok_def isize_max_def)

lemma demo_spec_allocate:
  "spec_allocate (align_layout demo_request) (hl_bottom demo_heap) [(True, 64)] = Some (1024, [(False, 20), (True, 44)])"
  by (simp add: demo_heap paddings_def alloc_start_def free_block_def)

lemma demo_allocate:
  obtains s' where
    "HoleList_allocate_first_fit 200 std_align demo_request demo_heap = Some (Ret (Ok (1024, align_layout demo_request), s'))"
    "heap_holds s' [(False, 20), (True, 44)]" "hl_bottom s' = 1024" "hl_top s' = 1088"
  using std_align.allocate_refines [OF demo_heap(2,3), of 200]
  unfolding demo_spec_allocate by (auto simp: demo_heap(5-7) usize_max_def same_but_def)

lemma demo_request_size: "aligned_size (ly_size demo_request) = 20"
  by (simp add: demo_request_def aligned_size_def round_to_def)

theorem heap_runs_safe_witness:
  "\<exists>r. heap_run_from 200 std_align 1024 64 (\<lambda>_. 0) [HeapAlloc demo_request, HeapWrite 0 1 77] = Some (Ret r) \<and>
     hr_live r = [(1024, demo_request)] \<and> hl_mem (hr_heap r) 1028 = 77"
proof -
  let ?ops = "[HeapAlloc demo_request, HeapWrite 0 1 77]"
  have run: "\<exists>r. heap_run_from 200 std_align 1024 64 (\<lambda>_. 0) ?ops = Some (Ret r) \<and>
      hr_live r = [(1024, demo_request)] \<and> hr_shadow r 1028 = Some 77"
    by (rule demo_allocate)
      (simp add: heap_run_from_def demo_heap(1) demo_request_size Let_def del: bind_fuel_eq_Ret)
  have "list_all (heap_op_ok 16) ?ops" using demo_heap(3,7) by simp
  from heap_runs_safe [OF std_align.hole_align_axioms _ _ this, of 1024 64 200 "\<lambda>_. 0"] run
  show ?thesis by (auto simp: usize_max_def)
qed

text \<open>
  C16. No memory is lost: after any such run the sizes of the holes and of the live blocks add up to the memory
  between bottom and top, and when the clients have given back every block the heap is one hole over all
  of it again, including the extensions.
\<close>

theorem heap_no_leak:
  assumes F: "hole_align F" and a: "0 < a" "12 \<le> n" and ops: "list_all (heap_op_ok al) ops"
    and bd: "a + n + sum_list (map growth ops) + al + 8 \<le> usize_max"
    and fuel: "a + n + sum_list (map growth ops) \<le> 8 * fuel"
  shows "\<exists>r hs. heap_run_from fuel F a n mem ops = Some (Ret r) \<and> linked (hr_heap r) Stub hs \<and>
    sum_list (map snd hs) + sum_list (map (snd \<circ> block_of) (hr_live r)) = hl_top (hr_heap r) - hl_bottom (hr_heap r) \<and>
    a + n + sum_list (map growth ops) < hl_top (hr_heap r) + 8 \<and>
    (hr_live r = [] \<longrightarrow> hs = [(hl_bottom (hr_heap r), hl_top (hr_heap r) - hl_bottom (hr_heap r))])"
proof -
  obtain r bs where r: "heap_run_from fuel F a n mem ops = Some (Ret r)" and inv: "heap_run_inv r bs"
    and l: "heap_limit (hr_heap r) = a + n + sum_list (map growth ops)" "hl_bottom (hr_heap r) < a + 4"
    using hole_align.heap_run_ok [OF F a ops bd fuel] by blast
  let ?s = "hr_heap r" and ?b = "hl_bottom (hr_heap r)"
  note d = heap_holdsD [OF heap_run_invD(1) [OF inv]]
  have "sum_list (map snd (map block_of (hr_live r))) = sum_list (map snd (used ?b bs))"
    using heap_run_invD(2) [OF inv] by (metis mset_map sum_mset_sum_list)
  then have "sum_list (map snd (holes ?b bs)) + sum_list (map (snd \<circ> block_of) (hr_live r)) = hl_top ?s - ?b"
    using bytes_split [of ?b bs] d(6) by (simp add: comp_def)
  moreover have top: "a + n + sum_list (map growth ops) < hl_top ?s + 8" using l(1) d(7) by (simp add: heap_limit_def)
  moreover have "holes ?b bs = [(?b, hl_top ?s - ?b)]" if "hr_live r = []"
  proof -
    have "used ?b bs = []" using heap_run_invD(2) [OF inv] that by simp
    moreover have "bs \<noteq> []" using top l(2) a(2) d(6) by auto
    ultimately obtain m where "bs = [(True, m)]" using all_free [of ?b bs] d(2) by (auto simp: blocks_ok_def)
    then show ?thesis using d(6) by simp
  qed
  ultimately show ?thesis using r d(1) by blast
qed

theorem heap_no_leak_witness:
  "\<exists>r. heap_run_from 200 std_align 1024 64 (\<lambda>_. 0) [HeapAlloc demo_request, HeapFree 0] = Some (Ret r) \<and>
     linked (hr_heap r) Stub [(1024, 64)]"
proof -
  let ?ops = "[HeapAlloc demo_request, HeapFree 0]"
  obtain s1 where s1: "HoleList_allocate_first_fit 200 std_align demo_request demo_heap =
      Some (Ret (Ok (1024, align_layout demo_request), s1))"
    "heap_holds s1 [(False, 20), (True, 44)]" "hl_bottom s1 = 1024" "hl_top s1 = 1088" by (rule demo_allocate)
  have "heap_holds s1 ([] @ (False, 20) # [(True, 44)])" "20 = aligned_size (ly_size demo_request)"
    "hl_top s1 + 8 \<le> usize_max" "bytes [] \<le> 8 * 200"
    using s1(2,4) by (simp_all add: demo_request_size usize_max_def)
  from std_align.deallocate_refines [OF this(1) demo_heap(3) this(2-4)] obtain s2 where
    s2: "HoleList_deallocate 200 std_align (hl_bottom s1 + bytes []) demo_request s1 = Some (Ret (align_layout demo_request, s2))"
    "same_but (area (holes (hl_bottom s1) ([] @ (True, 20) # [(True, 44)]))) s1 s2" by blast
  then have s2: "HoleList_deallocate 200 std_align 1024 demo_request s1 = Some (Ret (align_layout demo_request, s2))"
    "hl_bottom s2 = 1024" "hl_top s2 = 1088" using s1(3,4) by (simp_all add: same_but_def)
  obtain r where r: "heap_run_from 200 std_align 1024 64 (\<lambda>_. 0) ?ops = Some (Ret r)" "hr_live r = []"
    "hl_bottom (hr_heap r) = 1024" "hl_top (hr_heap r) = 1088"
    by (simp add: heap_run_from_def demo_heap(1) s1(1) s2 Let_def del: bind_fuel_eq_Ret)
  have ops: "list_all (heap_op_ok 16) ?ops" using demo_heap(3,7) by simp
  have "0 < (1024 :: nat)" "12 \<le> (64 :: nat)" "1024 + 64 + sum_list (map growth ?ops) + 16 + 8 \<le> usize_max"
    "1024 + 64 + sum_list (map growth ?ops) \<le> 8 * 200" by (simp_all add: usize_max_def)
  from heap_no_leak [OF std_align.hole_align_axioms this(1,2) ops this(3,4), of "\<lambda>_. 0"] obtain r' hs where
    r': "heap_run_from 200 std_align 1024 64 (\<lambda>_. 0) ?ops = Some (Ret r')" "linked (hr_heap r') Stub hs"
    "hr_live r' = [] \<longrightarrow> hs = [(hl_bottom (hr_heap r'), hl_top (hr_heap r') - hl_bottom (hr_heap r'))]" by blast
  from r'(1) r(1) have "r' = r" by simp
  with r r' show ?thesis by auto
qed

text \<open>
  C14. The allocator refines the sequence of blocks: when the memory holds the blocks \<open>bs\<close>, \<open>allocate_first_fit\<close>
  takes the first free block that fits, keeps its paddings as free blocks and returns the block's address, or
  fails without a change when no free block fits; \<open>deallocate\<close> joins the block with its free neighbours; both
  leave the memory outside the holes and the block alone.
\<close>

theorem heap_refines_blocks:
  assumes F: "hole_align F" and h: "heap_holds s bs" and ly: "request_ok ly"
    and bd: "hl_top s + ly_align ly + 8 \<le> usize_max" and fuel: "bytes bs \<le> 8 * fuel"
  shows "(case spec_allocate (align_layout ly) (hl_bottom s) bs of
      None \<Rightarrow> HoleList_allocate_first_fit fuel F ly s = Some (Ret (Err (), s))
    | Some (p, bs') \<Rightarrow> \<exists>s'. HoleList_allocate_first_fit fuel F ly s = Some (Ret (Ok (p, align_layout ly), s')) \<and>
        heap_holds s' bs' \<and> same_but (area (holes (hl_bottom s) bs)) s s') \<and>
    (\<forall>xs n ys. bs = xs @ (False, n) # ys \<and> n = aligned_size (ly_size ly) \<longrightarrow>
      (\<exists>s'. HoleList_deallocate fuel F (hl_bottom s + bytes xs) ly s = Some (Ret (align_layout ly, s')) \<and>
        heap_holds s' (spec_free xs n ys) \<and> same_but (area (holes (hl_bottom s) (xs @ (True, n) # ys))) s s'))"
proof (intro conjI allI impI)
  fix xs n ys
  assume *: "bs = xs @ (False, n) # ys \<and> n = aligned_size (ly_size ly)"
  have "hl_top s + 8 \<le> usize_max" "bytes xs \<le> 8 * fuel" using bd fuel * by simp_all
  then show "\<exists>s'. HoleList_deallocate fuel F (hl_bottom s + bytes xs) ly s = Some (Ret (align_layout ly, s')) \<and>
      heap_holds s' (spec_free xs n ys) \<and> same_but (area (holes (hl_bottom s) (xs @ (True, n) # ys))) s s'"
    using * h by (intro hole_align.deallocate_refines [OF F _ ly]) simp_all
qed (rule hole_align.allocate_refines [OF F h ly bd fuel])

theorem heap_refines_blocks_witness:
  "\<exists>s'. HoleList_allocate_first_fit 10 std_align demo_request demo_heap =
       Some (Ret (Ok (1024, \<lparr>ly_size = 20, ly_align = 16\<rparr>), s')) \<and>
     heap_holds s' [(False, 20), (True, 44)]"
  using heap_refines_blocks [OF std_align.hole_align_axioms demo_heap(2,3), of 10]
  unfolding demo_spec_allocate by (auto simp: demo_heap(4,6,7) usize_max_def)

end
