(* ===== verification/Shared_Cell.thy ===== *)
theory Shared_Cell
  imports Critical_Section
begin

text \<open>
  State shared by reference: a \<open>RefCell\<close> of the core library inside the blocking mutex of
  \<open>src/src/sync/blocking_mutex.rs\<close>, as the channels hold their state.  \<open>try_borrow_mut\<close> fails while
  the cell is borrowed, and dropping the borrow gives the cell back with its new value.  A closure
  on the state returns its result, the new state and the wakers it woke.
\<close>

record 'a ref_cell =
  rc_value :: 'a
  rc_borrowed :: bool

datatype borrow_error = BorrowError

definition RefCell_new :: "'a \<Rightarrow> 'a ref_cell" where
  "RefCell_new v = \<lparr>rc_value = v, rc_borrowed = False\<rparr>"

definition RefCell_try_borrow_mut :: "'a ref_cell \<Rightarrow> ('a, borrow_error) result \<times> 'a ref_cell" where
  "RefCell_try_borrow_mut rc =
     (if rc_borrowed rc then (Err BorrowError, rc)
      else (Ok (rc_value rc), rc\<lparr>rc_borrowed := True\<rparr>))"

definition RefMut_drop :: "'a \<Rightarrow> 'a ref_cell \<Rightarrow> 'a ref_cell" where
  "RefMut_drop v rc = rc\<lparr>rc_value := v, rc_borrowed := False\<rparr>"

text \<open>\<open>borrow_mut\<close> panics where \<open>try_borrow_mut\<close> fails; \<open>borrow\<close> reads a cell that is not borrowed mutably.\<close>

definition RefCell_borrow_mut :: "'a ref_cell \<Rightarrow> ('a \<times> 'a ref_cell) outcome" where
  "RefCell_borrow_mut rc =
     (case RefCell_try_borrow_mut rc of
        (Ok s, rc) \<Rightarrow> Ret (s, rc)
      | (Err _, rc) \<Rightarrow> Panic BorrowMutError)"

definition RefCell_borrow :: "'a ref_cell \<Rightarrow> 'a outcome" where
  "RefCell_borrow rc = (if rc_borrowed rc then Panic BorrowMutError else Ret (rc_value rc))"

text \<open>\<open>self.inner.lock(|rc| f(&mut *unwrap!(rc.try_borrow_mut())))\<close>, as both channels write it.\<close>

definition lock_ref_cell ::
  "('s \<Rightarrow> 'u \<times> 's \<times> waker list) \<Rightarrow> 's ref_cell blocking_mutex \<times> cpu_irq \<Rightarrow>
     ('u \<times> waker list) outcome \<times> 's ref_cell blocking_mutex \<times> cpu_irq" where
  "lock_ref_cell f mc = BlockingMutex_lock
     (\<lambda>rc (m, c).
        let (borrow, rc) = RefCell_try_borrow_mut rc
        in case unwrap_result borrow of
             Panic e \<Rightarrow> (Panic e, m\<lparr>bm_data := rc\<rparr>, c)
           | Ret s \<Rightarrow>
               (let (u, s, ws) = f s
                in (Ret (u, ws), m\<lparr>bm_data := RefMut_drop s rc\<rparr>, c))) mc"

text \<open>The core inside \<open>d\<close> open critical sections.\<close>

definition in_sections :: "nat \<Rightarrow> cpu_irq" where
  "in_sections d = \<lparr>irq_enabled = (d = 0), nested_interrupt_nr = word_of_nat d\<rparr>"

definition cell_of :: "'s \<Rightarrow> 's ref_cell blocking_mutex" where
  "cell_of s = BlockingMutex_new (RefCell_new s)"

text \<open>
  The lock of a cell that nobody borrows applies the closure to its value once and leaves the cell
  unborrowed and the core as it was.
\<close>

lemma lock_cell_of:
  assumes "d < 2 ^ 32 - 1" "f s = (u, s', ws)"
  shows "lock_ref_cell f (cell_of s, in_sections d) = (Ret (u, ws), cell_of s', in_sections d)"
  using assms(2)
  by (simp add: lock_ref_cell_def BlockingMutex_lock_def CriticalSectionRawMutex_lock_def
      critical_section_with_def in_sections_def acquire_eq release_eq [OF assms(1)] cell_of_def
      BlockingMutex_new_def RefCell_new_def RefCell_try_borrow_mut_def RefMut_drop_def)

text \<open>The lock of a cell that is borrowed, as from inside its own closure, panics.\<close>

lemma lock_ref_cell_borrowed:
  "rc_borrowed (bm_data m) \<Longrightarrow> fst (lock_ref_cell f (m, c)) = Panic UnwrapFailed"
  by (simp add: lock_ref_cell_def BlockingMutex_lock_def CriticalSectionRawMutex_lock_def
      critical_section_with_def RefCell_try_borrow_mut_def split: prod.splits)

end
