(* ===== verification/Channel_Handles.thy ===== *)
theory Channel_Handles
  imports Priority_Channel Shared_Cell
begin

text \<open>
  The channels of \<open>src/src/sync/channel.rs\<close> and \<open>src/src/sync/priority_channel.rs\<close> as their users see
  them: the structs \<open>Channel\<close> and \<open>PriorityChannel\<close>, which keep the state of \<open>Channel\<close> and
  \<open>Priority_Channel\<close> in a cell behind the blocking mutex; the senders, receivers and futures, which
  hold references to a channel; and the dynamic handles, which hold a reference to a trait object.
  A reference is the number of a channel in the memory \<open>chan_mem\<close>; a reference to a
  \<open>dyn DynamicChannel\<close> also says which of the two types it points to, as its vtable does.  The
  refinement says that calls through any handles on any channels act on each channel as
  a sequence of the atomic operations of \<open>Channel\<close>, so its theorems hold for them.
\<close>

section \<open>The channels\<close>

record 'q channel =
  ch_inner :: "'q channel_state ref_cell blocking_mutex"

definition Channel_new :: "('q, 'a) deque_ops \<Rightarrow> 'q channel" where
  "Channel_new D = \<lparr>ch_inner = BlockingMutex_new (RefCell_new (ChannelState_new D))\<rparr>"

definition Channel_lock ::
  "('q channel_state \<Rightarrow> 'u \<times> 'q channel_state \<times> waker list) \<Rightarrow> 'q channel \<times> cpu_irq \<Rightarrow>
     ('u \<times> waker list) outcome \<times> 'q channel \<times> cpu_irq" where
  "Channel_lock f cc =
     (let (ch, cpu) = cc; (r, inner, cpu) = lock_ref_cell f (ch_inner ch, cpu)
      in (r, ch\<lparr>ch_inner := inner\<rparr>, cpu))"

definition Channel_try_receive_with_context where
  "Channel_try_receive_with_context D cx =
     Channel_lock (\<lambda>c. ChannelState_try_receive_with_context D c cx)"

definition Channel_poll_receive where
  "Channel_poll_receive D cx = Channel_lock (\<lambda>c. ChannelState_poll_receive D c cx)"

definition Channel_try_send_with_context where
  "Channel_try_send_with_context D m cx =
     Channel_lock (\<lambda>c. ChannelState_try_send_with_context D c m cx)"

definition Channel_poll_ready_to_receive where
  "Channel_poll_ready_to_receive D cx = Channel_lock (\<lambda>c. ChannelState_poll_ready_to_receive D c cx)"

definition Channel_poll_ready_to_send where
  "Channel_poll_ready_to_send D cx = Channel_lock (\<lambda>c. ChannelState_poll_ready_to_send D c cx)"

definition Channel_try_send where
  "Channel_try_send D message = Channel_lock (\<lambda>c. ChannelState_try_send D c message)"

definition Channel_try_receive where
  "Channel_try_receive D = Channel_lock (\<lambda>c. ChannelState_try_receive D c)"

definition Channel_len where
  "Channel_len D = Channel_lock (\<lambda>c. (ChannelState_len D c, c, []))"

definition Channel_is_empty where
  "Channel_is_empty D = Channel_lock (\<lambda>c. (ChannelState_is_empty D c, c, []))"

definition Channel_is_full where
  "Channel_is_full D = Channel_lock (\<lambda>c. (ChannelState_is_full D c, c, []))"

record 'h priority_channel =
  pc_inner :: "'h pchannel_state ref_cell blocking_mutex"

definition PriorityChannel_new :: "('h, 'a) heap_ops \<Rightarrow> 'h priority_channel" where
  "PriorityChannel_new H = \<lparr>pc_inner = BlockingMutex_new (RefCell_new (PChannelState_new H))\<rparr>"

definition PriorityChannel_lock ::
  "('h pchannel_state \<Rightarrow> 'u \<times> 'h pchannel_state \<times> waker list) \<Rightarrow> 'h priority_channel \<times> cpu_irq \<Rightarrow>
     ('u \<times> waker list) outcome \<times> 'h priority_channel \<times> cpu_irq" where
  "PriorityChannel_lock f cc =
     (let (ch, cpu) = cc; (r, inner, cpu) = lock_ref_cell f (pc_inner ch, cpu)
      in (r, ch\<lparr>pc_inner := inner\<rparr>, cpu))"

definition PriorityChannel_try_receive_with_context where
  "PriorityChannel_try_receive_with_context H cx =
     PriorityChannel_lock (\<lambda>c. PChannelState_try_receive_with_context H c cx)"

definition PriorityChannel_poll_receive where
  "PriorityChannel_poll_receive H cx = PriorityChannel_lock (\<lambda>c. PChannelState_poll_receive H c cx)"

definition PriorityChannel_try_send_with_context where
  "PriorityChannel_try_send_with_context H m cx =
     PriorityChannel_lock (\<lambda>c. PChannelState_try_send_with_context H c m cx)"

definition PriorityChannel_poll_ready_to_receive where
  "PriorityChannel_poll_ready_to_receive H cx =
     PriorityChannel_lock (\<lambda>c. PChannelState_poll_ready_to_receive H c cx)"

definition PriorityChannel_poll_ready_to_send where
  "PriorityChannel_poll_ready_to_send H cx =
     PriorityChannel_lock (\<lambda>c. PChannelState_poll_ready_to_send H c cx)"

definition PriorityChannel_try_send where
  "PriorityChannel_try_send H message = PriorityChannel_lock (\<lambda>c. PChannelState_try_send H c message)"

definition PriorityChannel_try_receive where
  "PriorityChannel_try_receive H = PriorityChannel_lock (\<lambda>c. PChannelState_try_receive H c)"

section \<open>Memory and references\<close>

record ('q, 'h) chan_mem =
  mem_channels :: "nat \<Rightarrow> 'q channel"
  mem_priority :: "nat \<Rightarrow> 'h priority_channel"
  mem_cpu :: cpu_irq

text \<open>A method call through a reference.\<close>

definition call_channel ::
  "nat \<Rightarrow> ('q channel \<times> cpu_irq \<Rightarrow> 'r \<times> 'q channel \<times> cpu_irq) \<Rightarrow> ('q, 'h) chan_mem \<Rightarrow>
     'r \<times> ('q, 'h) chan_mem" where
  "call_channel i f M =
     (let (r, ch, cpu) = f (mem_channels M i, mem_cpu M)
      in (r, M\<lparr>mem_channels := (mem_channels M)(i := ch), mem_cpu := cpu\<rparr>))"

definition call_priority ::
  "nat \<Rightarrow> ('h priority_channel \<times> cpu_irq \<Rightarrow> 'r \<times> 'h priority_channel \<times> cpu_irq) \<Rightarrow>
     ('q, 'h) chan_mem \<Rightarrow> 'r \<times> ('q, 'h) chan_mem" where
  "call_priority i f M =
     (let (r, ch, cpu) = f (mem_priority M i, mem_cpu M)
      in (r, M\<lparr>mem_priority := (mem_priority M)(i := ch), mem_cpu := cpu\<rparr>))"

datatype dyn_ref = DynChannel nat | DynPriority nat

definition DynamicChannel_try_send_with_context where
  "DynamicChannel_try_send_with_context D H t m cx =
     (case t of
        DynChannel i \<Rightarrow> call_channel i (Channel_try_send_with_context D m cx)
      | DynPriority i \<Rightarrow> call_priority i (PriorityChannel_try_send_with_context H m cx))"

definition DynamicChannel_try_receive_with_context where
  "DynamicChannel_try_receive_with_context D H t cx =
     (case t of
        DynChannel i \<Rightarrow> call_channel i (Channel_try_receive_with_context D cx)
      | DynPriority i \<Rightarrow> call_priority i (PriorityChannel_try_receive_with_context H cx))"

definition DynamicChannel_poll_ready_to_send where
  "DynamicChannel_poll_ready_to_send D H t cx =
     (case t of
        DynChannel i \<Rightarrow> call_channel i (Channel_poll_ready_to_send D cx)
      | DynPriority i \<Rightarrow> call_priority i (PriorityChannel_poll_ready_to_send H cx))"

definition DynamicChannel_poll_ready_to_receive where
  "DynamicChannel_poll_ready_to_receive D H t cx =
     (case t of
        DynChannel i \<Rightarrow> call_channel i (Channel_poll_ready_to_receive D cx)
      | DynPriority i \<Rightarrow> call_priority i (PriorityChannel_poll_ready_to_receive H cx))"

definition DynamicChannel_poll_receive where
  "DynamicChannel_poll_receive D H t cx =
     (case t of
        DynChannel i \<Rightarrow> call_channel i (Channel_poll_receive D cx)
      | DynPriority i \<Rightarrow> call_priority i (PriorityChannel_poll_receive H cx))"

section \<open>Senders, receivers and futures\<close>

datatype sender = Sender (sender_channel: nat)
datatype psender = PSender (psender_channel: nat)
datatype dyn_sender = DynamicSender (dyn_sender_channel: dyn_ref)
datatype receiver = Receiver (receiver_channel: nat)
datatype preceiver = PReceiver (preceiver_channel: nat)
datatype dyn_receiver = DynamicReceiver (dyn_receiver_channel: dyn_ref)

definition Channel_sender :: "nat \<Rightarrow> sender" where "Channel_sender self = Sender self"
definition Channel_receiver :: "nat \<Rightarrow> receiver" where "Channel_receiver self = Receiver self"
definition Channel_dyn_sender :: "nat \<Rightarrow> dyn_sender" where
  "Channel_dyn_sender self = DynamicSender (DynChannel self)"
definition Channel_dyn_receiver :: "nat \<Rightarrow> dyn_receiver" where
  "Channel_dyn_receiver self = DynamicReceiver (DynChannel self)"
definition PriorityChannel_sender :: "nat \<Rightarrow> psender" where "PriorityChannel_sender self = PSender self"
definition PriorityChannel_receiver :: "nat \<Rightarrow> preceiver" where
  "PriorityChannel_receiver self = PReceiver self"

definition DynamicSender_from_Sender :: "sender \<Rightarrow> dyn_sender" where
  "DynamicSender_from_Sender s = DynamicSender (DynChannel (sender_channel s))"
definition DynamicSender_from_PSender :: "psender \<Rightarrow> dyn_sender" where
  "DynamicSender_from_PSender s = DynamicSender (DynPriority (psender_channel s))"
definition DynamicReceiver_from_Receiver :: "receiver \<Rightarrow> dyn_receiver" where
  "DynamicReceiver_from_Receiver s = DynamicReceiver (DynChannel (receiver_channel s))"
definition DynamicReceiver_from_PReceiver :: "preceiver \<Rightarrow> dyn_receiver" where
  "DynamicReceiver_from_PReceiver s = DynamicReceiver (DynPriority (preceiver_channel s))"

definition Sender_try_send where
  "Sender_try_send D s message = call_channel (sender_channel s) (Channel_try_send D message)"
definition Sender_poll_ready_to_send where
  "Sender_poll_ready_to_send D s cx = call_channel (sender_channel s) (Channel_poll_ready_to_send D cx)"
definition PSender_try_send where
  "PSender_try_send H s message = call_priority (psender_channel s) (PriorityChannel_try_send H message)"
definition PSender_poll_ready_to_send where
  "PSender_poll_ready_to_send H s cx =
     call_priority (psender_channel s) (PriorityChannel_poll_ready_to_send H cx)"
definition DynamicSender_try_send_in where
  "DynamicSender_try_send_in D H s message =
     DynamicChannel_try_send_with_context D H (dyn_sender_channel s) message None"
definition DynamicSender_poll_ready_to_send where
  "DynamicSender_poll_ready_to_send D H s cx =
     DynamicChannel_poll_ready_to_send D H (dyn_sender_channel s) cx"

definition Receiver_try_receive where
  "Receiver_try_receive D s = call_channel (receiver_channel s) (Channel_try_receive D)"
definition Receiver_poll_ready_to_receive where
  "Receiver_poll_ready_to_receive D s cx =
     call_channel (receiver_channel s) (Channel_poll_ready_to_receive D cx)"
definition Receiver_poll_receive where
  "Receiver_poll_receive D s cx = call_channel (receiver_channel s) (Channel_poll_receive D cx)"
definition PReceiver_try_receive where
  "PReceiver_try_receive H s = call_priority (preceiver_channel s) (PriorityChannel_try_receive H)"
definition PReceiver_poll_ready_to_receive where
  "PReceiver_poll_ready_to_receive H s cx =
     call_priority (preceiver_channel s) (PriorityChannel_poll_ready_to_receive H cx)"
definition PReceiver_poll_receive where
  "PReceiver_poll_receive H s cx = call_priority (preceiver_channel s) (PriorityChannel_poll_receive H cx)"
definition DynamicReceiver_try_receive_in where
  "DynamicReceiver_try_receive_in D H s =
     DynamicChannel_try_receive_with_context D H (dyn_receiver_channel s) None"
definition DynamicReceiver_poll_ready_to_receive where
  "DynamicReceiver_poll_ready_to_receive D H s cx =
     DynamicChannel_poll_ready_to_receive D H (dyn_receiver_channel s) cx"
definition DynamicReceiver_poll_receive where
  "DynamicReceiver_poll_receive D H s cx =
     DynamicChannel_poll_receive D H (dyn_receiver_channel s) cx"

text \<open>
  A send future owns its message.  The three polls have one body, up to the method they call:
  \<open>take\<close> the message, try to send it, and put it back when the channel was full.
\<close>

record 'a send_future =
  sf_channel :: nat
  sf_message :: "'a option"

record 'a psend_future =
  psf_channel :: nat
  psf_message :: "'a option"

record 'a dyn_send_future =
  dsf_channel :: dyn_ref
  dsf_message :: "'a option"

definition send_poll_body ::
  "('a \<Rightarrow> waker option \<Rightarrow> 'm \<Rightarrow> ((unit, 'a try_send_error) result \<times> waker list) outcome \<times> 'm) \<Rightarrow>
     'a option \<Rightarrow> waker \<Rightarrow> 'm \<Rightarrow> (unit poll \<times> waker list) outcome \<times> 'a option \<times> 'm" where
  "send_poll_body try_send message cx M =
     (case message of
        None \<Rightarrow> (Panic ExplicitPanic, None, M)
      | Some m \<Rightarrow>
          (case try_send m (Some cx) M of
             (Panic e, M) \<Rightarrow> (Panic e, None, M)
           | (Ret (Ok _, ws), M) \<Rightarrow> (Ret (Ready (), ws), None, M)
           | (Ret (Err (TrySendError_Full m'), ws), M) \<Rightarrow> (Ret (Pending, ws), Some m', M)))"

definition SendFuture_poll_in where
  "SendFuture_poll_in D f cx M =
     (let (r, message, M) = send_poll_body
            (\<lambda>m cx. call_channel (sf_channel f) (Channel_try_send_with_context D m cx)) (sf_message f) cx M
      in (r, f\<lparr>sf_message := message\<rparr>, M))"

definition PSendFuture_poll_in where
  "PSendFuture_poll_in H f cx M =
     (let (r, message, M) = send_poll_body
            (\<lambda>m cx. call_priority (psf_channel f) (PriorityChannel_try_send_with_context H m cx))
            (psf_message f) cx M
      in (r, f\<lparr>psf_message := message\<rparr>, M))"

definition DynamicSendFuture_poll_in where
  "DynamicSendFuture_poll_in D H f cx M =
     (let (r, message, M) = send_poll_body
            (\<lambda>m cx. DynamicChannel_try_send_with_context D H (dsf_channel f) m cx) (dsf_message f) cx M
      in (r, f\<lparr>dsf_message := message\<rparr>, M))"

definition Channel_send :: "nat \<Rightarrow> 'a \<Rightarrow> 'a send_future" where
  "Channel_send self message = \<lparr>sf_channel = self, sf_message = Some message\<rparr>"
definition Sender_send :: "sender \<Rightarrow> 'a \<Rightarrow> 'a send_future" where
  "Sender_send s message = Channel_send (sender_channel s) message"
definition PriorityChannel_send :: "nat \<Rightarrow> 'a \<Rightarrow> 'a psend_future" where
  "PriorityChannel_send self message = \<lparr>psf_channel = self, psf_message = Some message\<rparr>"
definition PSender_send :: "psender \<Rightarrow> 'a \<Rightarrow> 'a psend_future" where
  "PSender_send s message = PriorityChannel_send (psender_channel s) message"
definition DynamicSender_send :: "dyn_sender \<Rightarrow> 'a \<Rightarrow> 'a dyn_send_future" where
  "DynamicSender_send s message = \<lparr>dsf_channel = dyn_sender_channel s, dsf_message = Some message\<rparr>"

text \<open>Only the futures of \<open>Channel\<close> convert into dynamic ones.\<close>

definition DynamicSendFuture_from :: "'a send_future \<Rightarrow> 'a dyn_send_future" where
  "DynamicSendFuture_from f = \<lparr>dsf_channel = DynChannel (sf_channel f), dsf_message = sf_message f\<rparr>"

datatype receive_future = ReceiveFuture (rf_channel: nat)
datatype receive_ready_future = ReceiveReadyFuture (rrf_channel: nat)
datatype preceive_future = PReceiveFuture (prf_channel: nat)
datatype dyn_receive_future = DynamicReceiveFuture (drf_channel: dyn_ref)

definition Channel_receive :: "nat \<Rightarrow> receive_future" where
  "Channel_receive self = ReceiveFuture self"
definition Receiver_receive :: "receiver \<Rightarrow> receive_future" where
  "Receiver_receive s = Channel_receive (receiver_channel s)"
definition Channel_ready_to_receive :: "nat \<Rightarrow> receive_ready_future" where
  "Channel_ready_to_receive self = ReceiveReadyFuture self"
definition Receiver_ready_to_receive :: "receiver \<Rightarrow> receive_ready_future" where
  "Receiver_ready_to_receive s = Channel_ready_to_receive (receiver_channel s)"
definition PriorityChannel_receive :: "nat \<Rightarrow> preceive_future" where
  "PriorityChannel_receive self = PReceiveFuture self"
definition PReceiver_receive :: "preceiver \<Rightarrow> preceive_future" where
  "PReceiver_receive s = PriorityChannel_receive (preceiver_channel s)"
definition DynamicReceiver_receive :: "dyn_receiver \<Rightarrow> dyn_receive_future" where
  "DynamicReceiver_receive s = DynamicReceiveFuture (dyn_receiver_channel s)"
definition DynamicReceiveFuture_from :: "receive_future \<Rightarrow> dyn_receive_future" where
  "DynamicReceiveFuture_from f = DynamicReceiveFuture (DynChannel (rf_channel f))"

definition ReceiveFuture_poll_in where
  "ReceiveFuture_poll_in D f cx = call_channel (rf_channel f) (Channel_poll_receive D cx)"
definition ReceiveReadyFuture_poll_in where
  "ReceiveReadyFuture_poll_in D f cx =
     call_channel (rrf_channel f) (Channel_poll_ready_to_receive D cx)"
definition PReceiveFuture_poll_in where
  "PReceiveFuture_poll_in H f cx = call_priority (prf_channel f) (PriorityChannel_poll_receive H cx)"
definition DynamicReceiveFuture_poll_in where
  "DynamicReceiveFuture_poll_in D H f cx M =
     (case DynamicChannel_try_receive_with_context D H (drf_channel f) (Some cx) M of
        (Panic e, M) \<Rightarrow> (Panic e, M)
      | (Ret (Ok v, ws), M) \<Rightarrow> (Ret (Ready v, ws), M)
      | (Ret (Err TryReceiveError_Empty, ws), M) \<Rightarrow> (Ret (Pending, ws), M))"

section \<open>Users of handles\<close>

text \<open>
  The users hold handles of every kind and keep their send futures in numbered places; a receive
  future has no state of its own, so it is made and polled at once.  For each channel the users note what
  they see: the messages it accepted and delivered and the tasks that sleep on it.
\<close>

datatype any_sender = StaticSender sender | PrioSender psender | DynSender dyn_sender
datatype any_receiver = StaticReceiver receiver | PrioReceiver preceiver | DynReceiver dyn_receiver
datatype 'a any_send =
  StaticSend "'a send_future" | PrioSend "'a psend_future" | DynSend "'a dyn_send_future"

fun sender_target :: "any_sender \<Rightarrow> dyn_ref" where
  "sender_target (StaticSender s) = DynChannel (sender_channel s)"
| "sender_target (PrioSender s) = DynPriority (psender_channel s)"
| "sender_target (DynSender s) = dyn_sender_channel s"

fun receiver_target :: "any_receiver \<Rightarrow> dyn_ref" where
  "receiver_target (StaticReceiver s) = DynChannel (receiver_channel s)"
| "receiver_target (PrioReceiver s) = DynPriority (preceiver_channel s)"
| "receiver_target (DynReceiver s) = dyn_receiver_channel s"

fun send_target :: "'a any_send \<Rightarrow> dyn_ref" where
  "send_target (StaticSend f) = DynChannel (sf_channel f)"
| "send_target (PrioSend f) = DynPriority (psf_channel f)"
| "send_target (DynSend f) = dsf_channel f"

fun send_message :: "'a any_send \<Rightarrow> 'a option" where
  "send_message (StaticSend f) = sf_message f"
| "send_message (PrioSend f) = psf_message f"
| "send_message (DynSend f) = dsf_message f"

fun any_try_send where
  "any_try_send D H (StaticSender s) m = Sender_try_send D s m"
| "any_try_send D H (PrioSender s) m = PSender_try_send H s m"
| "any_try_send D H (DynSender s) m = DynamicSender_try_send_in D H s m"

fun any_poll_ready_to_send where
  "any_poll_ready_to_send D H (StaticSender s) cx = Sender_poll_ready_to_send D s cx"
| "any_poll_ready_to_send D H (PrioSender s) cx = PSender_poll_ready_to_send H s cx"
| "any_poll_ready_to_send D H (DynSender s) cx = DynamicSender_poll_ready_to_send D H s cx"

fun any_send_new :: "any_sender \<Rightarrow> 'a \<Rightarrow> 'a any_send" where
  "any_send_new (StaticSender s) m = StaticSend (Sender_send s m)"
| "any_send_new (PrioSender s) m = PrioSend (PSender_send s m)"
| "any_send_new (DynSender s) m = DynSend (DynamicSender_send s m)"

fun any_send_poll where
  "any_send_poll D H (StaticSend f) cx M =
     (let (r, f, M) = SendFuture_poll_in D f cx M in (r, StaticSend f, M))"
| "any_send_poll D H (PrioSend f) cx M =
     (let (r, f, M) = PSendFuture_poll_in H f cx M in (r, PrioSend f, M))"
| "any_send_poll D H (DynSend f) cx M =
     (let (r, f, M) = DynamicSendFuture_poll_in D H f cx M in (r, DynSend f, M))"

fun any_send_into_dynamic :: "'a any_send \<Rightarrow> 'a any_send" where
  "any_send_into_dynamic (StaticSend f) = DynSend (DynamicSendFuture_from f)"
| "any_send_into_dynamic f = f"

fun any_try_receive where
  "any_try_receive D H (StaticReceiver s) = Receiver_try_receive D s"
| "any_try_receive D H (PrioReceiver s) = PReceiver_try_receive H s"
| "any_try_receive D H (DynReceiver s) = DynamicReceiver_try_receive_in D H s"

fun any_poll_ready_to_receive where
  "any_poll_ready_to_receive D H (StaticReceiver s) cx = Receiver_poll_ready_to_receive D s cx"
| "any_poll_ready_to_receive D H (PrioReceiver s) cx = PReceiver_poll_ready_to_receive H s cx"
| "any_poll_ready_to_receive D H (DynReceiver s) cx = DynamicReceiver_poll_ready_to_receive D H s cx"

fun any_poll_receive where
  "any_poll_receive D H (StaticReceiver s) cx = Receiver_poll_receive D s cx"
| "any_poll_receive D H (PrioReceiver s) cx = PReceiver_poll_receive H s cx"
| "any_poll_receive D H (DynReceiver s) cx = DynamicReceiver_poll_receive D H s cx"

fun any_receive_poll where
  "any_receive_poll D H (StaticReceiver s) cx = ReceiveFuture_poll_in D (Receiver_receive s) cx"
| "any_receive_poll D H (PrioReceiver s) cx = PReceiveFuture_poll_in H (PReceiver_receive s) cx"
| "any_receive_poll D H (DynReceiver s) cx =
     DynamicReceiveFuture_poll_in D H (DynamicReceiver_receive s) cx"

definition note_send :: "'a \<Rightarrow> waker option \<Rightarrow> bool \<Rightarrow> waker list \<Rightarrow> ('s, 'a) chan_run \<Rightarrow> ('s, 'a) chan_run" where
  "note_send m cx ok ws c = c\<lparr>
     cr_accepted := cr_accepted c @ (if ok then [m] else []),
     cr_receivers := cr_receivers c - set ws,
     cr_senders := (cr_senders c - set ws) \<union> (if ok then {} else set_option cx)\<rparr>"

definition note_receive ::
  "waker option \<Rightarrow> 'a option \<Rightarrow> waker list \<Rightarrow> ('s, 'a) chan_run \<Rightarrow> ('s, 'a) chan_run" where
  "note_receive cx got ws c = c\<lparr>
     cr_delivered := cr_delivered c @ (case got of Some m \<Rightarrow> [m] | None \<Rightarrow> []),
     cr_receivers := (cr_receivers c - set ws) \<union> (if got = None then set_option cx else {}),
     cr_senders := cr_senders c - set ws\<rparr>"

definition note_ready_receive ::
  "waker \<Rightarrow> bool \<Rightarrow> waker list \<Rightarrow> ('s, 'a) chan_run \<Rightarrow> ('s, 'a) chan_run" where
  "note_ready_receive cx ready ws c = c\<lparr>
     cr_receivers := (cr_receivers c - set ws) \<union> (if ready then {} else {cx}),
     cr_senders := cr_senders c - set ws\<rparr>"

definition note_ready_send ::
  "waker \<Rightarrow> bool \<Rightarrow> waker list \<Rightarrow> ('s, 'a) chan_run \<Rightarrow> ('s, 'a) chan_run" where
  "note_ready_send cx ready ws c = c\<lparr>
     cr_receivers := cr_receivers c - set ws,
     cr_senders := (cr_senders c - set ws) \<union> (if ready then {} else {cx})\<rparr>"

datatype 'a handle_call =
    CallTrySend any_sender 'a
  | CallReadySend any_sender waker
  | CallSend nat any_sender 'a
  | CallPollSend nat waker
  | CallDropSend nat
  | CallIntoDynamic nat
  | CallTryReceive any_receiver
  | CallReadyReceive any_receiver waker
  | CallPollReceive any_receiver waker
  | CallReceive any_receiver waker
  | CallReceiveReady receiver waker

record ('q, 'h, 'a) handle_users =
  hu_mem :: "('q, 'h) chan_mem"
  hu_sends :: "nat \<Rightarrow> 'a any_send option"
  hu_log :: "dyn_ref \<Rightarrow> (unit, 'a) chan_run"

definition handle_log ::
  "dyn_ref \<Rightarrow> ((unit, 'a) chan_run \<Rightarrow> (unit, 'a) chan_run) \<Rightarrow> ('q, 'h) chan_mem \<Rightarrow>
     ('q, 'h, 'a) handle_users \<Rightarrow> ('q, 'h, 'a) handle_users" where
  "handle_log t f M u = u\<lparr>hu_mem := M, hu_log := (hu_log u)(t := f (hu_log u t))\<rparr>"

text \<open>A future that completes is dropped; a place without a future is not polled.\<close>

fun handle_exec ::
  "('q, 'a) deque_ops \<Rightarrow> ('h, 'a) heap_ops \<Rightarrow> 'a handle_call \<Rightarrow> ('q, 'h, 'a) handle_users \<Rightarrow>
     ('q, 'h, 'a) handle_users outcome" where
  "handle_exec D H (CallTrySend s m) u =
     (let (r, M) = any_try_send D H s m (hu_mem u)
      in bind_out r (\<lambda>(r, ws).
           Ret (handle_log (sender_target s) (note_send m None (result_ok r \<noteq> None) ws) M u)))"
| "handle_exec D H (CallReadySend s cx) u =
     (let (r, M) = any_poll_ready_to_send D H s cx (hu_mem u)
      in bind_out r (\<lambda>(r, ws).
           Ret (handle_log (sender_target s) (note_ready_send cx (r = Ready ()) ws) M u)))"
| "handle_exec D H (CallSend k s m) u =
     Ret (u\<lparr>hu_sends := (hu_sends u)(k \<mapsto> any_send_new s m)\<rparr>)"
| "handle_exec D H (CallPollSend k cx) u =
     (case hu_sends u k of
        None \<Rightarrow> Ret u
      | Some f \<Rightarrow>
          (let (r, f', M) = any_send_poll D H f cx (hu_mem u)
           in bind_out r (\<lambda>(r, ws).
                Ret ((handle_log (send_target f)
                        (note_send (the (send_message f)) (Some cx) (r = Ready ()) ws) M u)
                     \<lparr>hu_sends := (hu_sends u)(k := (if r = Ready () then None else Some f'))\<rparr>))))"
| "handle_exec D H (CallDropSend k) u = Ret (u\<lparr>hu_sends := (hu_sends u)(k := None)\<rparr>)"
| "handle_exec D H (CallIntoDynamic k) u =
     Ret (u\<lparr>hu_sends := (hu_sends u)(k := map_option any_send_into_dynamic (hu_sends u k))\<rparr>)"
| "handle_exec D H (CallTryReceive s) u =
     (let (r, M) = any_try_receive D H s (hu_mem u)
      in bind_out r (\<lambda>(r, ws).
           Ret (handle_log (receiver_target s) (note_receive None (result_ok r) ws) M u)))"
| "handle_exec D H (CallReadyReceive s cx) u =
     (let (r, M) = any_poll_ready_to_receive D H s cx (hu_mem u)
      in bind_out r (\<lambda>(r, ws).
           Ret (handle_log (receiver_target s) (note_ready_receive cx (r = Ready ()) ws) M u)))"
| "handle_exec D H (CallPollReceive s cx) u =
     (let (r, M) = any_poll_receive D H s cx (hu_mem u)
      in bind_out r (\<lambda>(r, ws).
           Ret (handle_log (receiver_target s) (note_receive (Some cx) (poll_value r) ws) M u)))"
| "handle_exec D H (CallReceive s cx) u =
     (let (r, M) = any_receive_poll D H s cx (hu_mem u)
      in bind_out r (\<lambda>(r, ws).
           Ret (handle_log (receiver_target s) (note_receive (Some cx) (poll_value r) ws) M u)))"
| "handle_exec D H (CallReceiveReady s cx) u =
     (let (r, M) = ReceiveReadyFuture_poll_in D (Receiver_ready_to_receive s) cx (hu_mem u)
      in bind_out r (\<lambda>(r, ws).
           Ret (handle_log (DynChannel (receiver_channel s)) (note_ready_receive cx (r = Ready ()) ws) M u)))"

fun handle_execs ::
  "('q, 'a) deque_ops \<Rightarrow> ('h, 'a) heap_ops \<Rightarrow> 'a handle_call list \<Rightarrow> ('q, 'h, 'a) handle_users \<Rightarrow>
     ('q, 'h, 'a) handle_users outcome" where
  "handle_execs D H [] u = Ret u"
| "handle_execs D H (x # xs) u = bind_out (handle_exec D H x u) (handle_execs D H xs)"

definition handle_users_new ::
  "('q, 'a) deque_ops \<Rightarrow> ('h, 'a) heap_ops \<Rightarrow> nat \<Rightarrow> ('q, 'h, 'a) handle_users" where
  "handle_users_new D H d = \<lparr>
     hu_mem = \<lparr>mem_channels = \<lambda>_. Channel_new D, mem_priority = \<lambda>_. PriorityChannel_new H,
       mem_cpu = in_sections d\<rparr>,
     hu_sends = \<lambda>_. None, hu_log = \<lambda>_. chan_run_init ()\<rparr>"

section \<open>Handles refine the channels\<close>

text \<open>
  The concrete memory and the notes of users for a family of runs of channels: cells unborrowed,
  the core inside \<open>d\<close> critical sections.
\<close>

definition forget_state :: "('s, 'a) chan_run \<Rightarrow> (unit, 'a) chan_run" where
  "forget_state c = \<lparr>cr_state = (), cr_accepted = cr_accepted c, cr_delivered = cr_delivered c,
     cr_receivers = cr_receivers c, cr_senders = cr_senders c\<rparr>"

definition mem_of ::
  "nat \<Rightarrow> (nat \<Rightarrow> ('q channel_state, 'a) chan_run) \<Rightarrow> (nat \<Rightarrow> ('h pchannel_state, 'a) chan_run) \<Rightarrow>
     ('q, 'h) chan_mem" where
  "mem_of d rs ps = \<lparr>mem_channels = \<lambda>i. \<lparr>ch_inner = cell_of (cr_state (rs i))\<rparr>,
     mem_priority = \<lambda>i. \<lparr>pc_inner = cell_of (cr_state (ps i))\<rparr>, mem_cpu = in_sections d\<rparr>"

definition log_at ::
  "(nat \<Rightarrow> ('q channel_state, 'a) chan_run) \<Rightarrow> (nat \<Rightarrow> ('h pchannel_state, 'a) chan_run) \<Rightarrow>
     dyn_ref \<Rightarrow> (unit, 'a) chan_run" where
  "log_at rs ps t = (case t of DynChannel i \<Rightarrow> forget_state (rs i) | DynPriority i \<Rightarrow> forget_state (ps i))"

definition users_of ::
  "nat \<Rightarrow> (nat \<Rightarrow> ('q channel_state, 'a) chan_run) \<Rightarrow> (nat \<Rightarrow> ('h pchannel_state, 'a) chan_run) \<Rightarrow>
     (nat \<Rightarrow> 'a any_send option) \<Rightarrow> ('q, 'h, 'a) handle_users" where
  "users_of d rs ps sends = \<lparr>hu_mem = mem_of d rs ps, hu_sends = sends, hu_log = log_at rs ps\<rparr>"

text \<open>One atomic operation on the channel that \<open>t\<close> points to.\<close>

definition exec_at where
  "exec_at D H t x rp = (let (rs, ps) = rp in case t of
     DynChannel i \<Rightarrow> (rs(i := chan_exec (Channel_dyn D) (rs i) x), ps)
   | DynPriority i \<Rightarrow> (rs, ps(i := chan_exec (PriorityChannel_dyn H) (ps i) x)))"

text \<open>
  An answer of the state operation \<open>f\<close> to a user who notes \<open>note\<close> is that of the atomic operation \<open>x\<close>.
\<close>

definition answers ::
  "('s, 'a) dyn_channel \<Rightarrow> 'a chan_op \<Rightarrow> ('s \<Rightarrow> 'r \<times> 's \<times> waker list) \<Rightarrow>
     ('r \<Rightarrow> waker list \<Rightarrow> (unit, 'a) chan_run \<Rightarrow> (unit, 'a) chan_run) \<Rightarrow> bool" where
  "answers C x f note \<longleftrightarrow> (\<forall>c. case f (cr_state c) of (r, s, ws) \<Rightarrow>
     s = cr_state (chan_exec C c x) \<and> note r ws (forget_state c) = forget_state (chan_exec C c x))"

lemma answers_channel:
  assumes "answers C x f note"
  shows "\<exists>r ws. f (cr_state c) = (r, cr_state (chan_exec C c x), ws) \<and>
    note r ws (forget_state c) = forget_state (chan_exec C c x)"
  using assms [unfolded answers_def, THEN spec [where x = c]] by (auto split: prod.splits)

lemma answers_send: "answers C (ChanSend m cx) (\<lambda>s. dyn_try_send_with_context C s m cx)
    (\<lambda>r. note_send m cx (result_ok r \<noteq> None))"
  by (auto simp: answers_def note_send_def forget_state_def split: prod.splits result.splits)

lemma answers_receive: "answers C (ChanReceive cx) (\<lambda>s. dyn_try_receive_with_context C s cx)
    (\<lambda>r. note_receive cx (result_ok r))"
  by (auto simp: answers_def note_receive_def forget_state_def split: prod.splits result.splits)

lemma answers_poll_receive: "answers C (ChanPollReceive w) (\<lambda>s. dyn_poll_receive C s w)
    (\<lambda>r. note_receive (Some w) (poll_value r))"
  by (auto simp: answers_def note_receive_def forget_state_def split: prod.splits poll.splits)

lemma answers_ready_receive: "answers C (ChanReadyReceive w) (\<lambda>s. dyn_poll_ready_to_receive C s w)
    (\<lambda>r. note_ready_receive w (r = Ready ()))"
  by (auto simp: answers_def note_ready_receive_def forget_state_def split: prod.splits poll.splits)

lemma answers_ready_send: "answers C (ChanReadySend w) (\<lambda>s. dyn_poll_ready_to_send C s w)
    (\<lambda>r. note_ready_send w (r = Ready ()))"
  by (auto simp: answers_def note_ready_send_def forget_state_def split: prod.splits poll.splits)

lemma call_channel_lock:
  assumes "d < 2 ^ 32 - 1" "g (cr_state (rs i)) = (u, cr_state c, ws)"
  shows "call_channel i (Channel_lock g) (mem_of d rs ps) = (Ret (u, ws), mem_of d (rs(i := c)) ps)"
  using lock_cell_of [where f = g and s = "cr_state (rs i)", OF assms]
  by (auto simp: call_channel_def Channel_lock_def mem_of_def)

lemma call_priority_lock:
  assumes "d < 2 ^ 32 - 1" "g (cr_state (ps i)) = (u, cr_state c, ws)"
  shows "call_priority i (PriorityChannel_lock g) (mem_of d rs ps) =
    (Ret (u, ws), mem_of d rs (ps(i := c)))"
  using lock_cell_of [where f = g and s = "cr_state (ps i)", OF assms]
  by (auto simp: call_priority_def PriorityChannel_lock_def mem_of_def)

text \<open>The dispatch of a call to the channel that \<open>t\<close> points to.\<close>

definition dyn_call where
  "dyn_call t f g = (case t of DynChannel i \<Rightarrow> call_channel i (Channel_lock f)
     | DynPriority i \<Rightarrow> call_priority i (PriorityChannel_lock g))"

lemma log_at_upd:
  "log_at (rs(i := c)) ps = (log_at rs ps)(DynChannel i := forget_state c)"
  "log_at rs (ps(i := p)) = (log_at rs ps)(DynPriority i := forget_state p)"
  by (auto simp: log_at_def fun_eq_iff split: dyn_ref.splits)

lemma dyn_call_at:
  assumes "d < 2 ^ 32 - 1" "exec_at D H t x (rs, ps) = (rs', ps')"
    and f: "answers (Channel_dyn D) x f note" and g: "answers (PriorityChannel_dyn H) x g note"
  obtains r ws where "dyn_call t f g (mem_of d rs ps) = (Ret (r, ws), mem_of d rs' ps')"
    "(log_at rs ps)(t := note r ws (log_at rs ps t)) = log_at rs' ps'"
proof (cases t)
  case (DynChannel i)
  from f obtain r ws where
    r: "f (cr_state (rs i)) = (r, cr_state (chan_exec (Channel_dyn D) (rs i) x), ws)"
      "note r ws (forget_state (rs i)) = forget_state (chan_exec (Channel_dyn D) (rs i) x)"
    using answers_channel [OF f] by blast
  from call_channel_lock [where g = f and rs = rs and i = i, OF assms(1) r(1), of ps] r(2) assms(2) DynChannel show ?thesis
    by (intro that [of r ws])
      (auto simp: exec_at_def log_at_upd dyn_call_def, simp add: log_at_def)
next
  case (DynPriority i)
  from g obtain r ws where
    r: "g (cr_state (ps i)) = (r, cr_state (chan_exec (PriorityChannel_dyn H) (ps i) x), ws)"
      "note r ws (forget_state (ps i)) = forget_state (chan_exec (PriorityChannel_dyn H) (ps i) x)"
    using answers_channel [OF g] by blast
  from call_priority_lock [where g = g and ps = ps and i = i, OF assms(1) r(1), of rs] r(2) assms(2) DynPriority show ?thesis
    by (intro that [of r ws])
      (auto simp: exec_at_def log_at_upd dyn_call_def, simp add: log_at_def)
qed

text \<open>A user that makes such a call and notes its answer stays among the users of a family of runs.\<close>

lemma call_step:
  assumes "d < 2 ^ 32 - 1" "answers (Channel_dyn D) x f note" "answers (PriorityChannel_dyn H) x g note"
  shows "\<exists>r ws M rs' ps'. dyn_call t f g (mem_of d rs ps) = (Ret (r, ws), M) \<and>
    exec_at D H t x (rs, ps) = (rs', ps') \<and>
    handle_log t (note r ws) M (users_of d rs ps sends) = users_of d rs' ps' sends"
proof -
  obtain rs' ps' where e: "exec_at D H t x (rs, ps) = (rs', ps')" by fastforce
  from dyn_call_at [OF assms(1) e assms(2,3)] e show ?thesis
    by (fastforce simp: handle_log_def users_of_def)
qed

text \<open>The calls through handles of any kind are dispatched calls.\<close>

lemmas handle_defs = Channel_dyn_def PriorityChannel_dyn_def dyn_call_def
  Channel_try_send_def Channel_try_send_with_context_def Channel_poll_ready_to_send_def
  Channel_try_receive_def Channel_try_receive_with_context_def Channel_poll_receive_def
  Channel_poll_ready_to_receive_def PriorityChannel_try_send_def
  PriorityChannel_try_send_with_context_def PriorityChannel_poll_ready_to_send_def
  PriorityChannel_try_receive_def PriorityChannel_try_receive_with_context_def
  PriorityChannel_poll_receive_def PriorityChannel_poll_ready_to_receive_def
  ChannelState_try_send_def ChannelState_try_receive_def PChannelState_try_send_def
  PChannelState_try_receive_def DynamicChannel_try_send_with_context_def
  DynamicChannel_try_receive_with_context_def DynamicChannel_poll_ready_to_send_def
  DynamicChannel_poll_ready_to_receive_def DynamicChannel_poll_receive_def

lemma any_try_send_call:
  "any_try_send D H s m = dyn_call (sender_target s)
     (\<lambda>c. dyn_try_send_with_context (Channel_dyn D) c m None)
     (\<lambda>c. dyn_try_send_with_context (PriorityChannel_dyn H) c m None)"
  by (cases s) (simp_all add: handle_defs Sender_try_send_def PSender_try_send_def
      DynamicSender_try_send_in_def split: dyn_ref.split)

lemma any_poll_ready_to_send_call:
  "any_poll_ready_to_send D H s cx = dyn_call (sender_target s)
     (\<lambda>c. dyn_poll_ready_to_send (Channel_dyn D) c cx)
     (\<lambda>c. dyn_poll_ready_to_send (PriorityChannel_dyn H) c cx)"
  by (cases s) (simp_all add: handle_defs Sender_poll_ready_to_send_def
      PSender_poll_ready_to_send_def DynamicSender_poll_ready_to_send_def split: dyn_ref.split)

lemma any_try_receive_call:
  "any_try_receive D H s = dyn_call (receiver_target s)
     (\<lambda>c. dyn_try_receive_with_context (Channel_dyn D) c None)
     (\<lambda>c. dyn_try_receive_with_context (PriorityChannel_dyn H) c None)"
  by (cases s) (simp_all add: handle_defs Receiver_try_receive_def PReceiver_try_receive_def
      DynamicReceiver_try_receive_in_def split: dyn_ref.split)

lemma any_poll_ready_to_receive_call:
  "any_poll_ready_to_receive D H s cx = dyn_call (receiver_target s)
     (\<lambda>c. dyn_poll_ready_to_receive (Channel_dyn D) c cx)
     (\<lambda>c. dyn_poll_ready_to_receive (PriorityChannel_dyn H) c cx)"
  by (cases s) (simp_all add: handle_defs Receiver_poll_ready_to_receive_def
      PReceiver_poll_ready_to_receive_def DynamicReceiver_poll_ready_to_receive_def split: dyn_ref.split)

lemma any_poll_receive_call:
  "any_poll_receive D H s cx = dyn_call (receiver_target s)
     (\<lambda>c. dyn_poll_receive (Channel_dyn D) c cx) (\<lambda>c. dyn_poll_receive (PriorityChannel_dyn H) c cx)"
  by (cases s) (simp_all add: handle_defs Receiver_poll_receive_def PReceiver_poll_receive_def
      DynamicReceiver_poll_receive_def split: dyn_ref.split)

lemma static_receive_poll:
  "any_receive_poll D H (StaticReceiver s) cx = any_poll_receive D H (StaticReceiver s) cx"
  "any_receive_poll D H (PrioReceiver p) cx = any_poll_receive D H (PrioReceiver p) cx"
  by (simp_all add: ReceiveFuture_poll_in_def Receiver_receive_def Channel_receive_def
      Receiver_poll_receive_def PReceiveFuture_poll_in_def PReceiver_receive_def
      PriorityChannel_receive_def PReceiver_poll_receive_def)

lemma dyn_receive_poll:
  "any_receive_poll D H (DynReceiver s) cx M =
     (let (r, M) = dyn_call (dyn_receiver_channel s)
            (\<lambda>c. dyn_try_receive_with_context (Channel_dyn D) c (Some cx))
            (\<lambda>c. dyn_try_receive_with_context (PriorityChannel_dyn H) c (Some cx)) M
      in (bind_out r (\<lambda>(r, ws). Ret (case r of Ok v \<Rightarrow> Ready v | Err _ \<Rightarrow> Pending, ws)), M))"
  by (auto simp: handle_defs DynamicReceiveFuture_poll_in_def DynamicReceiver_receive_def Let_def
      split: dyn_ref.splits prod.splits outcome.splits result.splits try_receive_error.splits)

lemma receive_ready_call:
  "ReceiveReadyFuture_poll_in D (Receiver_ready_to_receive s) cx = dyn_call (DynChannel (receiver_channel s))
     (\<lambda>c. dyn_poll_ready_to_receive (Channel_dyn D) c cx)
     (\<lambda>c. dyn_poll_ready_to_receive (PriorityChannel_dyn H) c cx)"
  by (simp add: handle_defs ReceiveReadyFuture_poll_in_def Receiver_ready_to_receive_def
      Channel_ready_to_receive_def)

lemma any_send_poll_call:
  "\<exists>g. any_send_poll D H f cx M =
     (let (r, message, M) = send_poll_body (\<lambda>m cx. dyn_call (send_target f)
              (\<lambda>c. dyn_try_send_with_context (Channel_dyn D) c m cx)
              (\<lambda>c. dyn_try_send_with_context (PriorityChannel_dyn H) c m cx)) (send_message f) cx M
      in (r, g message, M)) \<and> (\<forall>message. send_message (g message) = message)"
proof (cases f)
  case (StaticSend s)
  then show ?thesis
    by (intro exI [where x = "\<lambda>m. StaticSend (s\<lparr>sf_message := m\<rparr>)"])
      (simp add: handle_defs SendFuture_poll_in_def split: prod.split)
next
  case (PrioSend s)
  then show ?thesis
    by (intro exI [where x = "\<lambda>m. PrioSend (s\<lparr>psf_message := m\<rparr>)"])
      (simp add: handle_defs PSendFuture_poll_in_def split: prod.split)
next
  case (DynSend s)
  then show ?thesis
    by (intro exI [where x = "\<lambda>m. DynSend (s\<lparr>dsf_message := m\<rparr>)"])
      (cases "dsf_channel s"; simp add: handle_defs DynamicSendFuture_poll_in_def split: prod.split)
qed

definition sends_full :: "(nat \<Rightarrow> 'a any_send option) \<Rightarrow> bool" where
  "sends_full sends \<longleftrightarrow> (\<forall>k f. sends k = Some f \<longrightarrow> send_message f \<noteq> None)"

lemma sends_full_upd [simp]:
  "sends_full sends \<Longrightarrow> sends_full (sends(k := None))"
  "sends_full sends \<Longrightarrow> send_message f \<noteq> None \<Longrightarrow> sends_full (sends(k \<mapsto> f))"
  by (auto simp: sends_full_def)

lemma send_message_new [simp]: "send_message (any_send_new s m) = Some m"
  by (cases s) (simp_all add: Sender_send_def Channel_send_def PSender_send_def
      PriorityChannel_send_def DynamicSender_send_def)

lemma send_message_dynamic [simp]: "send_message (any_send_into_dynamic f) = send_message f"
  by (cases f) (simp_all add: DynamicSendFuture_from_def)

lemma hu_simps [simp]:
  "hu_mem (users_of d rs ps sends) = mem_of d rs ps"
  "hu_sends (users_of d rs ps sends) = sends"
  "(users_of d rs ps sends)\<lparr>hu_sends := sends'\<rparr> = users_of d rs ps sends'"
  by (simp_all add: users_of_def)

lemma handle_log_sends:
  "handle_log t f M (users_of d rs ps sends) = users_of d rs' ps' sends \<Longrightarrow>
   (handle_log t f M (users_of d rs ps sends))\<lparr>hu_sends := sends'\<rparr> = users_of d rs' ps' sends'"
  by simp

text \<open>One call of a user: no panic, and at most one atomic operation on one channel.\<close>

definition user_step where
  "user_step D H d x rs ps sends \<longleftrightarrow> (\<exists>rs' ps' sends'.
     handle_exec D H x (users_of d rs ps sends) = Ret (users_of d rs' ps' sends') \<and> sends_full sends' \<and>
     ((rs', ps') = (rs, ps) \<or> (\<exists>t y. exec_at D H t y (rs, ps) = (rs', ps'))))"

lemma user_step_sends:
  "handle_exec D H x (users_of d rs ps sends) = Ret (users_of d rs ps sends') \<Longrightarrow> sends_full sends' \<Longrightarrow>
   user_step D H d x rs ps sends"
  unfolding user_step_def by blast

lemma user_stepI:
  "handle_exec D H x (users_of d rs ps sends) = Ret (users_of d rs' ps' sends') \<Longrightarrow> sends_full sends' \<Longrightarrow>
   exec_at D H t y (rs, ps) = (rs', ps') \<Longrightarrow> user_step D H d x rs ps sends"
  unfolding user_step_def by blast

lemma user_step_call:
  assumes "handle_exec D H x (users_of d rs ps sends) =
      (let (r, M) = dyn_call t f g (mem_of d rs ps)
       in bind_out r (\<lambda>(r, ws). Ret (handle_log t (note r ws) M (users_of d rs ps sends))))"
    and "d < 2 ^ 32 - 1" "answers (Channel_dyn D) y f note" "answers (PriorityChannel_dyn H) y g note"
    and "sends_full sends"
  shows "user_step D H d x rs ps sends"
proof -
  from call_step [OF assms(2-4), of t rs ps sends] obtain r ws M rs' ps' where
    "dyn_call t f g (mem_of d rs ps) = (Ret (r, ws), M)" "exec_at D H t y (rs, ps) = (rs', ps')"
    "handle_log t (note r ws) M (users_of d rs ps sends) = users_of d rs' ps' sends" by blast
  moreover from this assms(1) have
    "handle_exec D H x (users_of d rs ps sends) = Ret (users_of d rs' ps' sends)" by simp
  ultimately show ?thesis using assms(5) unfolding user_step_def by blast
qed

lemma poll_value_result:
  "poll_value (case r of Ok v \<Rightarrow> Ready v | Err _ \<Rightarrow> Pending) = result_ok r"
  by (cases r) auto

lemma bind_out_case: "bind_out m f = (case m of Ret x \<Rightarrow> f x | Panic e \<Rightarrow> Panic e)"
  by (cases m) auto

lemma user_step_receive:
  assumes "d < 2 ^ 32 - 1" "sends_full sends"
  shows "user_step D H d (CallPollReceive s cx) rs ps sends"
    "user_step D H d (CallReceive s cx) rs ps sends"
proof -
  show poll: "user_step D H d (CallPollReceive s cx) rs ps sends" for s
    by (rule user_step_call [where t = "receiver_target s", OF _ assms(1)
          answers_poll_receive [where w = cx] answers_poll_receive [where w = cx] assms(2)])
      (simp add: any_poll_receive_call)
  show "user_step D H d (CallReceive s cx) rs ps sends"
  proof (cases s)
    case (DynReceiver h)
    show ?thesis
      by (rule user_step_call [where t = "dyn_receiver_channel h", OF _ assms(1)
            answers_receive [where cx = "Some cx"] answers_receive [where cx = "Some cx"] assms(2)])
        (auto simp: DynReceiver dyn_receive_poll poll_value_result bind_out_case Let_def
          simp del: any_receive_poll.simps split: prod.split outcome.split)
  next
    case (StaticReceiver h)
    then have "handle_exec D H (CallReceive s cx) u = handle_exec D H (CallPollReceive s cx) u" for u
      by (simp only: handle_exec.simps static_receive_poll)
    with poll [of s] show ?thesis by (simp only: user_step_def)
  next
    case (PrioReceiver h)
    then have "handle_exec D H (CallReceive s cx) u = handle_exec D H (CallPollReceive s cx) u" for u
      by (simp only: handle_exec.simps static_receive_poll)
    with poll [of s] show ?thesis by (simp only: user_step_def)
  qed
qed

lemma user_step_poll_send:
  assumes "d < 2 ^ 32 - 1" "sends_full sends"
  shows "user_step D H d (CallPollSend k cx) rs ps sends"
proof (cases "sends k")
  case None
  with assms show ?thesis by (auto simp: user_step_def)
next
  case (Some f)
  with assms(2) obtain m where m: "send_message f = Some m" by (auto simp: sends_full_def)
  let ?F = "\<lambda>m cx c. dyn_try_send_with_context (Channel_dyn D) c m cx"
  let ?G = "\<lambda>m cx c. dyn_try_send_with_context (PriorityChannel_dyn H) c m cx"
  from any_send_poll_call [of D H f cx "mem_of d rs ps"] obtain g where
    g: "any_send_poll D H f cx (mem_of d rs ps) =
      (let (r, message, M) = send_poll_body (\<lambda>m cx. dyn_call (send_target f) (?F m cx) (?G m cx))
             (send_message f) cx (mem_of d rs ps) in (r, g message, M))"
      "\<And>message. send_message (g message) = message" by blast
  from call_step [where t = "send_target f" and rs = rs and ps = ps and sends = sends and D = D and H = H,
      OF assms(1) answers_send [where m = m and cx = "Some cx"]
        answers_send [where m = m and cx = "Some cx"]]
  obtain r ws M rs' ps' where
    "dyn_call (send_target f) (?F m (Some cx)) (?G m (Some cx)) (mem_of d rs ps) = (Ret (r, ws), M)"
    "exec_at D H (send_target f) (ChanSend m (Some cx)) (rs, ps) = (rs', ps')"
    "handle_log (send_target f) (note_send m (Some cx) (result_ok r \<noteq> None) ws) M
       (users_of d rs ps sends) = users_of d rs' ps' sends" by blast
  note call = this
  show ?thesis
  proof (cases r)
    case (Ok y)
    with call Some m g(1) have exec:
      "handle_exec D H (CallPollSend k cx) (users_of d rs ps sends) = Ret (users_of d rs' ps' (sends(k := None)))"
      by (simp add: send_poll_body_def)
    show ?thesis by (rule user_stepI [OF exec _ call(2)]) (simp add: assms(2))
  next
    case (Err e)
    moreover obtain m' where "e = TrySendError_Full m'" by (cases e)
    ultimately have exec:
      "handle_exec D H (CallPollSend k cx) (users_of d rs ps sends) =
         Ret (users_of d rs' ps' (sends(k \<mapsto> g (Some m'))))"
      using call Some m g(1) by (simp add: send_poll_body_def)
    show ?thesis by (rule user_stepI [OF exec _ call(2)]) (simp add: assms(2) g(2))
  qed
qed

lemma user_step:
  assumes "d < 2 ^ 32 - 1" "sends_full sends"
  shows "user_step D H d x rs ps sends"
proof (cases x)
  case (CallTrySend s m)
  then show ?thesis
    by (intro user_step_call [where t = "sender_target s", OF _ assms(1)
          answers_send [where m = m and cx = None] answers_send [where m = m and cx = None] assms(2)])
      (simp add: any_try_send_call)
next
  case (CallReadySend s cx)
  then show ?thesis
    by (intro user_step_call [where t = "sender_target s", OF _ assms(1)
          answers_ready_send [where w = cx] answers_ready_send [where w = cx] assms(2)])
      (simp add: any_poll_ready_to_send_call)
next
  case (CallTryReceive s)
  then show ?thesis
    by (intro user_step_call [where t = "receiver_target s", OF _ assms(1)
          answers_receive [where cx = None] answers_receive [where cx = None] assms(2)])
      (simp add: any_try_receive_call)
next
  case (CallReadyReceive s cx)
  then show ?thesis
    by (intro user_step_call [where t = "receiver_target s", OF _ assms(1)
          answers_ready_receive [where w = cx] answers_ready_receive [where w = cx] assms(2)])
      (simp add: any_poll_ready_to_receive_call)
next
  case (CallReceiveReady s cx)
  then show ?thesis
    by (intro user_step_call [where t = "DynChannel (receiver_channel s)", OF _ assms(1)
          answers_ready_receive [where w = cx] answers_ready_receive [where w = cx] assms(2)])
      (simp add: receive_ready_call [where H = H])
next
  case (CallIntoDynamic k)
  have "sends_full (sends(k := map_option any_send_into_dynamic (sends k)))"
    using assms(2) by (auto simp: sends_full_def)
  with CallIntoDynamic show ?thesis by (intro user_step_sends) auto
next
  case (CallDropSend k)
  with assms(2) show ?thesis by (intro user_step_sends [where sends' = "sends(k := None)"]) simp_all
next
  case (CallSend k s m)
  with assms(2) show ?thesis
    by (intro user_step_sends [where sends' = "sends(k \<mapsto> any_send_new s m)"]) simp_all
next
  case (CallPollSend k cx)
  with assms show ?thesis by (simp only: user_step_poll_send)
next
  case (CallPollReceive s cx)
  with assms show ?thesis by (simp only: user_step_receive)
next
  case (CallReceive s cx)
  with assms show ?thesis by (simp only: user_step_receive)
qed

text \<open>Families of runs in which each channel has its own sequence of atomic operations.\<close>

definition channel_runs where
  "channel_runs D H rs ps \<longleftrightarrow>
     (\<forall>i. \<exists>ops. rs i = chan_exec_all (Channel_dyn D) (chan_run_init (ChannelState_new D)) ops) \<and>
     (\<forall>i. \<exists>ops. ps i = chan_exec_all (PriorityChannel_dyn H) (chan_run_init (PChannelState_new H)) ops)"

lemma chan_exec_all_snoc: "chan_exec C (chan_exec_all C c ops) x = chan_exec_all C c (ops @ [x])"
  by (simp add: chan_exec_all_def)

lemma channel_runs_step:
  assumes "channel_runs D H rs ps" "exec_at D H t x (rs, ps) = (rs', ps')"
  shows "channel_runs D H rs' ps'"
proof (cases t)
  case (DynChannel i)
  with assms have "rs' = rs(i := chan_exec (Channel_dyn D) (rs i) x)" "ps' = ps"
    by (auto simp: exec_at_def)
  with assms(1) show ?thesis by (auto simp: channel_runs_def chan_exec_all_snoc) (metis chan_exec_all_snoc)
next
  case (DynPriority i)
  with assms have "ps' = ps(i := chan_exec (PriorityChannel_dyn H) (ps i) x)" "rs' = rs"
    by (auto simp: exec_at_def)
  with assms(1) show ?thesis by (auto simp: channel_runs_def) (metis chan_exec_all_snoc)
qed

lemma handle_execs_runs:
  assumes "d < 2 ^ 32 - 1"
  shows "sends_full sends \<Longrightarrow> channel_runs D H rs ps \<Longrightarrow>
    \<exists>rs' ps' sends'. handle_execs D H xs (users_of d rs ps sends) = Ret (users_of d rs' ps' sends') \<and>
      sends_full sends' \<and> channel_runs D H rs' ps'"
proof (induction xs arbitrary: rs ps sends)
  case (Cons x xs)
  from user_step [OF assms Cons.prems(1), of D H x rs ps] obtain rs' ps' sends' where
    "handle_exec D H x (users_of d rs ps sends) = Ret (users_of d rs' ps' sends')" "sends_full sends'"
    "(rs', ps') = (rs, ps) \<or> (\<exists>t y. exec_at D H t y (rs, ps) = (rs', ps'))"
    unfolding user_step_def by blast
  moreover from this(3) Cons.prems(2) have "channel_runs D H rs' ps'"
    by (auto intro: channel_runs_step)
  ultimately show ?case using Cons.IH [of sends' rs' ps'] by simp
qed auto

lemma handle_users_new_eq:
  "handle_users_new D H d = users_of d (\<lambda>_. chan_run_init (ChannelState_new D))
     (\<lambda>_. chan_run_init (PChannelState_new H)) (\<lambda>_. None)"
  by (auto simp: handle_users_new_def users_of_def mem_of_def log_at_def Channel_new_def
      PriorityChannel_new_def cell_of_def chan_run_init_def forget_state_def fun_eq_iff
      split: dyn_ref.splits)

text \<open>
  C9. Handles refine the channels: any sequence of calls through senders, receivers, dynamic handles and
  futures, on any channels and priority channels, inside any number of critical sections below the
  limit of the nesting counter, never panics: no cell is found borrowed, no future without its
  message is polled.  Afterwards every cell is unborrowed and the core is as before; the state
  and the history of every channel (what it accepted and delivered, who sleeps) are those
  of a sequence of its own atomic operations, and every pending send future holds its message.
\<close>

theorem handles_refine_channels:
  assumes "d < 2 ^ 32 - 1"
  shows "\<exists>rs ps sends. handle_execs D H xs (handle_users_new D H d) = Ret (users_of d rs ps sends) \<and>
    (\<forall>i. \<exists>ops. rs i = chan_exec_all (Channel_dyn D) (chan_run_init (ChannelState_new D)) ops) \<and>
    (\<forall>i. \<exists>ops. ps i =
       chan_exec_all (PriorityChannel_dyn H) (chan_run_init (PChannelState_new H)) ops) \<and>
    (\<forall>k f. sends k = Some f \<longrightarrow> send_message f \<noteq> None)"
proof -
  have init: "channel_runs D H (\<lambda>_. chan_run_init (ChannelState_new D))
      (\<lambda>_. chan_run_init (PChannelState_new H))"
    by (auto simp: channel_runs_def intro: exI [where x = "[]"])
  have "sends_full (\<lambda>_. None)" by (simp add: sends_full_def)
  from handle_execs_runs [OF assms this init, of xs] show ?thesis
    unfolding handle_users_new_eq channel_runs_def sends_full_def by blast
qed

lemmas handle_eval = handle_defs handle_users_new_def handle_log_def channel_eval pchannel_eval
  Channel_new_def PriorityChannel_new_def Sender_send_def Channel_send_def DynamicSender_send_def
  Channel_sender_def Channel_dyn_sender_def Channel_dyn_receiver_def DynamicReceiver_receive_def
  SendFuture_poll_in_def DynamicSendFuture_poll_in_def DynamicReceiveFuture_poll_in_def
  send_poll_body_def call_channel_def Channel_lock_def lock_ref_cell_def BlockingMutex_lock_def
  CriticalSectionRawMutex_lock_def critical_section_with_def Section_acquire_def Section_release_def
  in_sections_def BlockingMutex_new_def RefCell_new_def RefCell_try_borrow_mut_def RefMut_drop_def
  note_send_def note_receive_def

definition example_calls :: "nat handle_call list" where
  "example_calls =
     [CallSend 0 (StaticSender (Channel_sender 0)) 5, CallPollSend 0 (RawWaker 1 VTABLE),
      CallSend 1 (DynSender (Channel_dyn_sender 0)) 6, CallPollSend 1 (RawWaker 2 VTABLE),
      CallReceive (DynReceiver (Channel_dyn_receiver 0)) (RawWaker 3 VTABLE)]"

theorem handles_refine_channels_witness:
  "\<exists>rs ps sends. handle_execs (list_deque 1) (sorted_heap 1 (\<lambda>x. x)) example_calls
      (handle_users_new (list_deque 1) (sorted_heap 1 (\<lambda>x. x)) 0) = Ret (users_of 0 rs ps sends) \<and>
    cr_accepted (rs 0) = [5] \<and> cr_delivered (rs 0) = [5] \<and> cr_senders (rs 0) = {}"
proof -
  let ?D = "list_deque 1 :: (nat list, nat) deque_ops"
  let ?H = "sorted_heap 1 (\<lambda>x::nat. x)"
  from handles_refine_channels [of 0 ?D ?H example_calls] obtain rs ps sends where
    r: "handle_execs ?D ?H example_calls (handle_users_new ?D ?H 0) = Ret (users_of 0 rs ps sends)"
    by auto
  have "bind_out (handle_execs ?D ?H example_calls (handle_users_new ?D ?H 0))
      (\<lambda>u. Ret (hu_log u (DynChannel 0))) =
    Ret \<lparr>cr_state = (), cr_accepted = [5], cr_delivered = [5], cr_receivers = {}, cr_senders = {}\<rparr>"
    by (simp add: example_calls_def handle_eval del: bind_out_eq_Ret)
  then have "log_at rs ps (DynChannel 0) =
    \<lparr>cr_state = (), cr_accepted = [5], cr_delivered = [5], cr_receivers = {}, cr_senders = {}\<rparr>"
    unfolding r by (simp add: users_of_def)
  with r show ?thesis by (auto simp: log_at_def forget_state_def)
qed

end
