(* ===== verification/Pipe_Handles.thy ===== *)
theory Pipe_Handles
  imports Pipe Shared_Cell
begin

text \<open>
  The pipe of \<open>src/src/sync/pipe.rs\<close> as its users see it: the struct \<open>Pipe\<close> with its byte buffer
  and its state in a cell behind the blocking mutex, the \<open>Reader\<close> and \<open>Writer\<close> handles and the
  futures, which hold references to a pipe.  A reference is the number of a pipe in the memory
  \<open>pipe_mem\<close>.  The refinement says that calls through any handles act on each pipe as a sequence of the
  atomic operations of \<open>Pipe\<close>, so its theorems hold for them.
\<close>

section \<open>The struct\<close>

record pipe_struct =
  pipe_bytes :: "byte list"
  pipe_cell :: "pipe_state ref_cell blocking_mutex"

definition PipeStruct_new :: "nat \<Rightarrow> pipe_struct" where
  "PipeStruct_new N = \<lparr>pipe_bytes = replicate N 0,
     pipe_cell = BlockingMutex_new (RefCell_new
       \<lparr>ps_buffer = RingBuffer_new, ps_read_waker = WakerRegistration_new,
        ps_write_waker = WakerRegistration_new\<rparr>)\<rparr>"

text \<open>
  \<open>self.inner.lock(|rc| \<dots>)\<close> around a body that borrows the state and uses the byte buffer beside
  the cell, as all operations have it.
\<close>

definition PipeStruct_lock ::
  "(pipe \<Rightarrow> ('u \<times> pipe \<times> waker list) outcome) \<Rightarrow> pipe_struct \<times> cpu_irq \<Rightarrow>
     ('u \<times> waker list) outcome \<times> pipe_struct \<times> cpu_irq" where
  "PipeStruct_lock f pc =
     (let (p, cpu) = pc;
          (r, inner, cpu) = BlockingMutex_lock
            (\<lambda>rc (m, c).
               case RefCell_borrow_mut rc of
                 Panic e \<Rightarrow> (Panic e, m, c)
               | Ret (s, rc) \<Rightarrow>
                   (case f \<lparr>pipe_buf = pipe_bytes p, pipe_inner = s\<rparr> of
                      Panic e \<Rightarrow> (Panic e, m\<lparr>bm_data := rc\<rparr>, c)
                    | Ret (u, q, ws) \<Rightarrow>
                        (Ret (u, pipe_buf q, ws), m\<lparr>bm_data := RefMut_drop (pipe_inner q) rc\<rparr>, c)))
            (pipe_cell p, cpu)
      in case r of
           Panic e \<Rightarrow> (Panic e, p\<lparr>pipe_cell := inner\<rparr>, cpu)
         | Ret (u, bytes, ws) \<Rightarrow> (Ret (u, ws), \<lparr>pipe_bytes = bytes, pipe_cell = inner\<rparr>, cpu))"

definition PipeStruct_try_read_with_context where
  "PipeStruct_try_read_with_context N cx buf = PipeStruct_lock (\<lambda>p.
     bind_out (Pipe_try_read_with_context N p cx buf) (\<lambda>(r, buf', p, ws). Ret ((r, buf'), p, ws)))"

definition PipeStruct_try_fill_buf_with_context where
  "PipeStruct_try_fill_buf_with_context N cx =
     PipeStruct_lock (\<lambda>p. Pipe_try_fill_buf_with_context N p cx)"

definition PipeStruct_consume where
  "PipeStruct_consume N amt =
     PipeStruct_lock (\<lambda>p. bind_out (Pipe_consume N p amt) (\<lambda>p. Ret ((), p, [])))"

definition PipeStruct_try_write_with_context where
  "PipeStruct_try_write_with_context N cx buf =
     PipeStruct_lock (\<lambda>p. Pipe_try_write_with_context N p cx buf)"

definition PipeStruct_clear where
  "PipeStruct_clear = PipeStruct_lock (\<lambda>p. let (p, ws) = Pipe_clear p in Ret ((), p, ws))"

definition PipeStruct_len where
  "PipeStruct_len N = PipeStruct_lock (\<lambda>p. bind_out (Pipe_len N p) (\<lambda>n. Ret (n, p, [])))"

definition PipeStruct_try_read where
  "PipeStruct_try_read N buf = PipeStruct_try_read_with_context N None buf"

definition PipeStruct_try_write where
  "PipeStruct_try_write N buf = PipeStruct_try_write_with_context N None buf"

section \<open>Memory and handles\<close>

record pipe_mem =
  mem_pipes :: "nat \<Rightarrow> pipe_struct"
  mem_irq :: cpu_irq

definition call_pipe ::
  "nat \<Rightarrow> (pipe_struct \<times> cpu_irq \<Rightarrow> 'r \<times> pipe_struct \<times> cpu_irq) \<Rightarrow> pipe_mem \<Rightarrow> 'r \<times> pipe_mem" where
  "call_pipe i f M =
     (let (r, p, cpu) = f (mem_pipes M i, mem_irq M)
      in (r, M\<lparr>mem_pipes := (mem_pipes M)(i := p), mem_irq := cpu\<rparr>))"

datatype pipe_writer = Writer (writer_pipe: nat)
datatype pipe_reader = Reader (reader_pipe: nat)

record write_future =
  wf_pipe :: nat
  wf_buf :: "byte list"

record read_future =
  rdf_pipe :: nat
  rdf_buf :: "byte list"

record fill_buf_future =
  fbf_pipe :: "nat option"

definition Pipe_split :: "nat \<Rightarrow> pipe_reader \<times> pipe_writer" where
  "Pipe_split self = (Reader self, Writer self)"

definition Writer_clone :: "pipe_writer \<Rightarrow> pipe_writer" where
  "Writer_clone w = Writer (writer_pipe w)"

definition Pipe_write :: "nat \<Rightarrow> byte list \<Rightarrow> write_future" where
  "Pipe_write self buf = \<lparr>wf_pipe = self, wf_buf = buf\<rparr>"

definition Writer_write :: "pipe_writer \<Rightarrow> byte list \<Rightarrow> write_future" where
  "Writer_write w buf = Pipe_write (writer_pipe w) buf"

definition Writer_try_write where
  "Writer_try_write N w buf = call_pipe (writer_pipe w) (PipeStruct_try_write N buf)"

definition Pipe_read :: "nat \<Rightarrow> byte list \<Rightarrow> read_future" where
  "Pipe_read self buf = \<lparr>rdf_pipe = self, rdf_buf = buf\<rparr>"

definition Reader_read :: "pipe_reader \<Rightarrow> byte list \<Rightarrow> read_future" where
  "Reader_read r buf = Pipe_read (reader_pipe r) buf"

definition Reader_try_read where
  "Reader_try_read N r buf = call_pipe (reader_pipe r) (PipeStruct_try_read N buf)"

definition Reader_fill_buf :: "pipe_reader \<Rightarrow> fill_buf_future" where
  "Reader_fill_buf r = \<lparr>fbf_pipe = Some (reader_pipe r)\<rparr>"

definition Reader_try_fill_buf where
  "Reader_try_fill_buf N r = call_pipe (reader_pipe r) (PipeStruct_try_fill_buf_with_context N None)"

definition Reader_consume where
  "Reader_consume N r amt = call_pipe (reader_pipe r) (PipeStruct_consume N amt)"

definition WriteFuture_poll_in ::
  "nat \<Rightarrow> write_future \<Rightarrow> waker \<Rightarrow> pipe_mem \<Rightarrow> (nat poll \<times> waker list) outcome \<times> pipe_mem" where
  "WriteFuture_poll_in N f cx M =
     (case call_pipe (wf_pipe f) (PipeStruct_try_write_with_context N (Some cx) (wf_buf f)) M of
        (Panic e, M) \<Rightarrow> (Panic e, M)
      | (Ret (Ok n, ws), M) \<Rightarrow> (Ret (Ready n, ws), M)
      | (Ret (Err TryWriteError_Full, ws), M) \<Rightarrow> (Ret (Pending, ws), M))"

text \<open>The future borrows the caller's buffer, so a poll changes it.\<close>

definition ReadFuture_poll_in ::
  "nat \<Rightarrow> read_future \<Rightarrow> waker \<Rightarrow> pipe_mem \<Rightarrow>
     (nat poll \<times> waker list) outcome \<times> read_future \<times> pipe_mem" where
  "ReadFuture_poll_in N f cx M =
     (case call_pipe (rdf_pipe f) (PipeStruct_try_read_with_context N (Some cx) (rdf_buf f)) M of
        (Panic e, M) \<Rightarrow> (Panic e, f, M)
      | (Ret ((Ok n, buf), ws), M) \<Rightarrow> (Ret (Ready n, ws), f\<lparr>rdf_buf := buf\<rparr>, M)
      | (Ret ((Err TryReadError_Empty, buf), ws), M) \<Rightarrow> (Ret (Pending, ws), f\<lparr>rdf_buf := buf\<rparr>, M))"

definition FillBufFuture_poll_in ::
  "nat \<Rightarrow> fill_buf_future \<Rightarrow> waker \<Rightarrow> pipe_mem \<Rightarrow>
     (byte list poll \<times> waker list) outcome \<times> fill_buf_future \<times> pipe_mem" where
  "FillBufFuture_poll_in N f cx M =
     (case fbf_pipe f of
        None \<Rightarrow> (Panic UnwrapFailed, f, M)
      | Some pipe \<Rightarrow>
          (case call_pipe pipe (PipeStruct_try_fill_buf_with_context N (Some cx)) M of
             (Panic e, M) \<Rightarrow> (Panic e, f\<lparr>fbf_pipe := None\<rparr>, M)
           | (Ret (Ok buf, ws), M) \<Rightarrow> (Ret (Ready buf, ws), f\<lparr>fbf_pipe := None\<rparr>, M)
           | (Ret (Err TryReadError_Empty, ws), M) \<Rightarrow>
               (Ret (Pending, ws), f\<lparr>fbf_pipe := Some pipe\<rparr>, M)))"

section \<open>Users of handles\<close>

text \<open>
  The users keep their futures in numbered places.  For each pipe they note what they see: the bytes
  it accepted and the bytes they read, and the tasks that sleep on it.
\<close>

datatype pipe_future =
  WriteFut write_future | ReadFut read_future | FillFut fill_buf_future

record pipe_log =
  pl_written :: "byte list"
  pl_read :: "byte list"
  pl_readers :: "waker set"
  pl_writers :: "waker set"

fun poll_pending :: "'a poll \<Rightarrow> bool" where
  "poll_pending (Ready _) = False"
| "poll_pending Pending = True"

definition sleeps :: "'a option \<Rightarrow> waker option \<Rightarrow> waker set" where
  "sleeps got cx = (if got = None then set_option cx else {})"

definition log_read :: "waker option \<Rightarrow> nat option \<Rightarrow> byte list \<Rightarrow> waker list \<Rightarrow> pipe_log \<Rightarrow> pipe_log" where
  "log_read cx got buf ws l = l\<lparr>
     pl_read := pl_read l @ (case got of Some n \<Rightarrow> take n buf | None \<Rightarrow> []),
     pl_readers := (pl_readers l - set ws) \<union> sleeps got cx,
     pl_writers := pl_writers l - set ws\<rparr>"

definition log_write :: "waker option \<Rightarrow> nat option \<Rightarrow> byte list \<Rightarrow> waker list \<Rightarrow> pipe_log \<Rightarrow> pipe_log" where
  "log_write cx put buf ws l = l\<lparr>
     pl_written := pl_written l @ (case put of Some n \<Rightarrow> take n buf | None \<Rightarrow> []),
     pl_readers := pl_readers l - set ws,
     pl_writers := (pl_writers l - set ws) \<union> sleeps put cx\<rparr>"

definition log_fill :: "waker option \<Rightarrow> byte list option \<Rightarrow> waker list \<Rightarrow> pipe_log \<Rightarrow> pipe_log" where
  "log_fill cx got ws l = l\<lparr>
     pl_readers := (pl_readers l - set ws) \<union> sleeps got cx,
     pl_writers := pl_writers l - set ws\<rparr>"

definition log_clear :: "waker list \<Rightarrow> pipe_log \<Rightarrow> pipe_log" where
  "log_clear ws l = l\<lparr>pl_written := pl_read l,
     pl_readers := pl_readers l - set ws, pl_writers := pl_writers l - set ws\<rparr>"

record pipe_users =
  pu_mem :: pipe_mem
  pu_futures :: "nat \<Rightarrow> pipe_future option"
  pu_log :: "nat \<Rightarrow> pipe_log"

definition pipe_note :: "nat \<Rightarrow> (pipe_log \<Rightarrow> pipe_log) \<Rightarrow> pipe_mem \<Rightarrow> pipe_users \<Rightarrow> pipe_users" where
  "pipe_note i f M u = u\<lparr>pu_mem := M, pu_log := (pu_log u)(i := f (pu_log u i))\<rparr>"

definition keep_future :: "nat \<Rightarrow> bool \<Rightarrow> pipe_future \<Rightarrow> pipe_users \<Rightarrow> pipe_users" where
  "keep_future k pending f u = u\<lparr>pu_futures := (pu_futures u)(k := (if pending then Some f else None))\<rparr>"

text \<open>The bytes in a pipe of the memory, for the notes of \<open>consume\<close>.\<close>

definition bytes_in :: "nat \<Rightarrow> nat \<Rightarrow> pipe_mem \<Rightarrow> byte list" where
  "bytes_in N i M = pipe_contents N \<lparr>pipe_buf = pipe_bytes (mem_pipes M i),
     pipe_inner = rc_value (bm_data (pipe_cell (mem_pipes M i)))\<rparr>"

datatype pipe_call =
    PipeTryWrite pipe_writer "byte list"
  | PipeStartWrite nat pipe_writer "byte list"
  | PipeTryRead pipe_reader "byte list"
  | PipeStartRead nat pipe_reader "byte list"
  | PipeTryFill pipe_reader
  | PipeStartFill nat pipe_reader
  | PipeConsumeBytes pipe_reader nat
  | PipePoll nat waker
  | PipeDrop nat
  | PipeClearBytes nat
  | PipeLen nat

text \<open>A future that completes is dropped; a place without a future is not polled.\<close>

fun pipe_poll ::
  "nat \<Rightarrow> nat \<Rightarrow> pipe_future \<Rightarrow> waker \<Rightarrow> pipe_users \<Rightarrow> pipe_users outcome" where
  "pipe_poll N k (WriteFut f) cx u =
     (let (r, M) = WriteFuture_poll_in N f cx (pu_mem u)
      in bind_out r (\<lambda>(r, ws). Ret (keep_future k (poll_pending r) (WriteFut f)
           (pipe_note (wf_pipe f) (log_write (Some cx) (poll_value r) (wf_buf f) ws) M u))))"
| "pipe_poll N k (ReadFut f) cx u =
     (let (r, f, M) = ReadFuture_poll_in N f cx (pu_mem u)
      in bind_out r (\<lambda>(r, ws). Ret (keep_future k (poll_pending r) (ReadFut f)
           (pipe_note (rdf_pipe f) (log_read (Some cx) (poll_value r) (rdf_buf f) ws) M u))))"
| "pipe_poll N k (FillFut f) cx u =
     (let (r, f', M) = FillBufFuture_poll_in N f cx (pu_mem u)
      in bind_out r (\<lambda>(r, ws). Ret (keep_future k (poll_pending r) (FillFut f')
           (pipe_note (the (fbf_pipe f)) (log_fill (Some cx) (poll_value r) ws) M u))))"

fun pipe_call_exec :: "nat \<Rightarrow> pipe_call \<Rightarrow> pipe_users \<Rightarrow> pipe_users outcome" where
  "pipe_call_exec N (PipeTryWrite w buf) u =
     (let (r, M) = Writer_try_write N w buf (pu_mem u)
      in bind_out r (\<lambda>(r, ws).
           Ret (pipe_note (writer_pipe w) (log_write None (result_ok r) buf ws) M u)))"
| "pipe_call_exec N (PipeStartWrite k w buf) u =
     Ret (u\<lparr>pu_futures := (pu_futures u)(k \<mapsto> WriteFut (Writer_write w buf))\<rparr>)"
| "pipe_call_exec N (PipeTryRead s buf) u =
     (let (r, M) = Reader_try_read N s buf (pu_mem u)
      in bind_out r (\<lambda>((r, buf), ws).
           Ret (pipe_note (reader_pipe s) (log_read None (result_ok r) buf ws) M u)))"
| "pipe_call_exec N (PipeStartRead k s buf) u =
     Ret (u\<lparr>pu_futures := (pu_futures u)(k \<mapsto> ReadFut (Reader_read s buf))\<rparr>)"
| "pipe_call_exec N (PipeTryFill s) u =
     (let (r, M) = Reader_try_fill_buf N s (pu_mem u)
      in bind_out r (\<lambda>(r, ws).
           Ret (pipe_note (reader_pipe s) (log_fill None (result_ok r) ws) M u)))"
| "pipe_call_exec N (PipeStartFill k s) u =
     Ret (u\<lparr>pu_futures := (pu_futures u)(k \<mapsto> FillFut (Reader_fill_buf s))\<rparr>)"
| "pipe_call_exec N (PipeConsumeBytes s amt) u =
     (let (r, M) = Reader_consume N s amt (pu_mem u)
      in bind_out r (\<lambda>(_, ws). Ret (pipe_note (reader_pipe s)
           (\<lambda>l. l\<lparr>pl_read := pl_read l @ take amt (bytes_in N (reader_pipe s) (pu_mem u))\<rparr>) M u)))"
| "pipe_call_exec N (PipePoll k cx) u =
     (case pu_futures u k of None \<Rightarrow> Ret u | Some f \<Rightarrow> pipe_poll N k f cx u)"
| "pipe_call_exec N (PipeDrop k) u = Ret (u\<lparr>pu_futures := (pu_futures u)(k := None)\<rparr>)"
| "pipe_call_exec N (PipeClearBytes i) u =
     (let (r, M) = call_pipe i PipeStruct_clear (pu_mem u)
      in bind_out r (\<lambda>(_, ws). Ret (pipe_note i (log_clear ws) M u)))"
| "pipe_call_exec N (PipeLen i) u =
     (let (r, M) = call_pipe i (PipeStruct_len N) (pu_mem u)
      in bind_out r (\<lambda>_. Ret (u\<lparr>pu_mem := M\<rparr>)))"

fun pipe_call_execs :: "nat \<Rightarrow> pipe_call list \<Rightarrow> pipe_users \<Rightarrow> pipe_users outcome" where
  "pipe_call_execs N [] u = Ret u"
| "pipe_call_execs N (x # xs) u = bind_out (pipe_call_exec N x u) (pipe_call_execs N xs)"

definition pipe_users_new :: "nat \<Rightarrow> nat \<Rightarrow> pipe_users" where
  "pipe_users_new N d = \<lparr>pu_mem = \<lparr>mem_pipes = \<lambda>_. PipeStruct_new N, mem_irq = in_sections d\<rparr>,
     pu_futures = \<lambda>_. None,
     pu_log = \<lambda>_. \<lparr>pl_written = [], pl_read = [], pl_readers = {}, pl_writers = {}\<rparr>\<rparr>"

fun is_consume_call :: "pipe_call \<Rightarrow> bool" where
  "is_consume_call (PipeConsumeBytes _ _) = True"
| "is_consume_call _ = False"

section \<open>Handles refine the pipes\<close>

text \<open>
  The memory and the notes of the users for a family of runs of pipes: cells unborrowed, the core
  inside \<open>d\<close> critical sections.
\<close>

definition pipe_struct_of :: "pipe \<Rightarrow> pipe_struct" where
  "pipe_struct_of p = \<lparr>pipe_bytes = pipe_buf p, pipe_cell = cell_of (pipe_inner p)\<rparr>"

definition pipe_log_of :: "pipe_run \<Rightarrow> pipe_log" where
  "pipe_log_of c = \<lparr>pl_written = pr_written c, pl_read = pr_read c,
     pl_readers = pr_readers c, pl_writers = pr_writers c\<rparr>"

definition pipe_mem_of :: "nat \<Rightarrow> (nat \<Rightarrow> pipe_run) \<Rightarrow> pipe_mem" where
  "pipe_mem_of d rs = \<lparr>mem_pipes = \<lambda>i. pipe_struct_of (pr_pipe (rs i)), mem_irq = in_sections d\<rparr>"

definition pipe_users_of ::
  "nat \<Rightarrow> (nat \<Rightarrow> pipe_run) \<Rightarrow> (nat \<Rightarrow> pipe_future option) \<Rightarrow> pipe_users" where
  "pipe_users_of d rs fs =
     \<lparr>pu_mem = pipe_mem_of d rs, pu_futures = fs, pu_log = \<lambda>i. pipe_log_of (rs i)\<rparr>"

lemma pipe_users_of_simps [simp]:
  "pu_mem (pipe_users_of d rs fs) = pipe_mem_of d rs" "pu_futures (pipe_users_of d rs fs) = fs"
  by (simp_all add: pipe_users_of_def)

lemma PipeStruct_lock_free:
  assumes "d < 2 ^ 32 - 1"
  shows "\<exists>P. PipeStruct_lock f (pipe_struct_of p, in_sections d) =
    (case f p of Panic e \<Rightarrow> (Panic e, P)
       | Ret (u, q, ws) \<Rightarrow> (Ret (u, ws), pipe_struct_of q, in_sections d))"
proof -
  have p: "\<lparr>pipe_buf = pipe_buf p, pipe_inner = pipe_inner p\<rparr> = p" by simp
  note lock_defs = PipeStruct_lock_def pipe_struct_of_def BlockingMutex_lock_def
      CriticalSectionRawMutex_lock_def critical_section_with_def in_sections_def acquire_eq
      release_eq [OF assms] cell_of_def BlockingMutex_new_def RefCell_new_def RefCell_borrow_mut_def
      RefCell_try_borrow_mut_def RefMut_drop_def
  show ?thesis
    by (cases "f p") (auto simp: lock_defs p split: prod.splits)
qed

lemma call_pipe_of:
  assumes "d < 2 ^ 32 - 1"
  shows "\<exists>P. call_pipe i (PipeStruct_lock f) (pipe_mem_of d rs) =
    (case f (pr_pipe (rs i)) of Panic e \<Rightarrow> (Panic e, P)
       | Ret (u, q, ws) \<Rightarrow> (Ret (u, ws), pipe_mem_of d (rs(i := (rs i)\<lparr>pr_pipe := q\<rparr>))))"
  using PipeStruct_lock_free [OF assms, of f "pr_pipe (rs i)"]
  by (auto simp: call_pipe_def pipe_mem_of_def fun_eq_iff split: outcome.split)

text \<open>
  A call of \<open>f\<close> on a pipe whose answer the users note with \<open>note\<close> is the atomic operation \<open>y\<close> there.
\<close>

definition is_op ::
  "nat \<Rightarrow> pipe_op \<Rightarrow> (pipe \<Rightarrow> ('u \<times> pipe \<times> waker list) outcome) \<Rightarrow>
     ('u \<Rightarrow> waker list \<Rightarrow> pipe_log \<Rightarrow> pipe_log) \<Rightarrow> pipe_run \<Rightarrow> bool" where
  "is_op N y f note c \<longleftrightarrow>
     (case f (pr_pipe c) of
        Panic e \<Rightarrow> pipe_exec N c y = Panic e
      | Ret (u, q, ws) \<Rightarrow> (\<exists>c'. pipe_exec N c y = Ret c' \<and> pr_pipe c' = q \<and>
          pipe_log_of c' = note u ws (pipe_log_of c)))"

lemma op_read:
  "is_op N (PipeRead cx buf)
     (\<lambda>p. bind_out (Pipe_try_read_with_context N p cx buf) (\<lambda>(r, buf', p, ws). Ret ((r, buf'), p, ws)))
     (\<lambda>(r, buf). log_read cx (result_ok r) buf) c"
  by (cases "Pipe_try_read_with_context N (pr_pipe c) cx buf")
    (auto simp: is_op_def log_read_def sleeps_def pipe_log_of_def split: outcome.split result.split)

lemma op_write: "is_op N (PipeWrite cx buf) (\<lambda>p. Pipe_try_write_with_context N p cx buf)
    (\<lambda>r. log_write cx (result_ok r) buf) c"
  by (auto simp: is_op_def log_write_def sleeps_def pipe_log_of_def split: outcome.split result.split)

lemma op_fill: "is_op N (PipeFill cx) (\<lambda>p. Pipe_try_fill_buf_with_context N p cx)
    (\<lambda>r. log_fill cx (result_ok r)) c"
  by (auto simp: is_op_def log_fill_def sleeps_def pipe_log_of_def split: outcome.split result.split)

lemma op_consume: "is_op N (PipeConsume amt)
    (\<lambda>p. bind_out (Pipe_consume N p amt) (\<lambda>p. Ret ((), p, [])))
    (\<lambda>_ _ l. l\<lparr>pl_read := pl_read l @ take amt (pipe_contents N (pr_pipe c))\<rparr>) c"
  by (cases "Pipe_consume N (pr_pipe c) amt") (auto simp: is_op_def pipe_log_of_def split: outcome.split)

lemma op_clear: "is_op N PipeClear (\<lambda>p. let (p, ws) = Pipe_clear p in Ret ((), p, ws)) (\<lambda>_. log_clear) c"
  by (auto simp: is_op_def log_clear_def pipe_log_of_def split: prod.split)

lemma pipe_users_note:
  assumes "pipe_log_of c = f (pipe_log_of (rs i))"
  shows "pipe_note i f (pipe_mem_of d (rs(i := c))) (pipe_users_of d rs fs) =
    pipe_users_of d (rs(i := c)) fs"
  using assms by (auto simp: pipe_note_def pipe_users_of_def fun_eq_iff)

lemma call_op:
  assumes "d < 2 ^ 32 - 1" "is_op N y f note (rs i)"
  obtains
    (panic) e P where "call_pipe i (PipeStruct_lock f) (pipe_mem_of d rs) = (Panic e, P)"
      "pipe_exec N (rs i) y = Panic e"
  | (ret) u ws c where
      "call_pipe i (PipeStruct_lock f) (pipe_mem_of d rs) = (Ret (u, ws), pipe_mem_of d (rs(i := c)))"
      "pipe_exec N (rs i) y = Ret c"
      "\<And>fs. pipe_note i (note u ws) (pipe_mem_of d (rs(i := c))) (pipe_users_of d rs fs) =
         pipe_users_of d (rs(i := c)) fs"
proof -
  have upd: "pr_pipe c = q \<Longrightarrow>
    pipe_mem_of d (rs(i := (rs i)\<lparr>pr_pipe := q\<rparr>)) = pipe_mem_of d (rs(i := c))" for c q
    by (auto simp: pipe_mem_of_def fun_eq_iff)
  show ?thesis
  proof (cases "f (pr_pipe (rs i))")
    case (Ret a)
    obtain u q ws where a: "a = (u, q, ws)" by (cases a)
    with Ret assms(2) obtain c where c: "pipe_exec N (rs i) y = Ret c" "pr_pipe c = q"
      "pipe_log_of c = note u ws (pipe_log_of (rs i))" by (auto simp: is_op_def)
    with call_pipe_of [OF assms(1), of i f rs] Ret a show ?thesis
      by (intro ret [of u ws c]) (auto simp: upd [OF c(2)] intro: pipe_users_note)
  next
    case (Panic e)
    with call_pipe_of [OF assms(1), of i f rs] assms(2) panic show ?thesis
      by (auto simp: is_op_def)
  qed
qed

text \<open>A fill future holds its reference until it is ready.\<close>

definition fills_held :: "(nat \<Rightarrow> pipe_future option) \<Rightarrow> bool" where
  "fills_held fs \<longleftrightarrow> (\<forall>k f. fs k = Some (FillFut f) \<longrightarrow> fbf_pipe f \<noteq> None)"

definition pipe_call_step ::
  "nat \<Rightarrow> nat \<Rightarrow> pipe_call \<Rightarrow> (nat \<Rightarrow> pipe_run) \<Rightarrow> pipe_users outcome \<Rightarrow> bool" where
  "pipe_call_step N d x rs out \<longleftrightarrow>
     (\<exists>fs'. out = Ret (pipe_users_of d rs fs') \<and> fills_held fs') \<or>
     (\<exists>i y. (is_consume y \<longrightarrow> is_consume_call x) \<and>
        (case out of
           Panic e \<Rightarrow> pipe_exec N (rs i) y = Panic e
         | Ret u \<Rightarrow> (\<exists>c fs'. pipe_exec N (rs i) y = Ret c \<and> u = pipe_users_of d (rs(i := c)) fs' \<and>
             fills_held fs')))"

lemma pipe_call_step_same:
  "out = Ret (pipe_users_of d rs fs') \<Longrightarrow> fills_held fs' \<Longrightarrow> pipe_call_step N d x rs out"
  by (auto simp: pipe_call_step_def)

text \<open>What the users do with an answer: note it, and keep the futures \<open>fs'\<close>.\<close>

lemma pipe_call_stepI:
  assumes "d < 2 ^ 32 - 1" "is_op N y f note (rs i)" "is_consume y \<longrightarrow> is_consume_call x"
    and "\<And>r M. call_pipe i (PipeStruct_lock f) (pipe_mem_of d rs) = (r, M) \<Longrightarrow>
      out = bind_out r (\<lambda>(u, ws).
        Ret ((pipe_note i (note u ws) M (pipe_users_of d rs fs))\<lparr>pu_futures := fs' u\<rparr>))"
    and "\<And>u. fills_held (fs' u)"
  shows "pipe_call_step N d x rs out"
  using assms(1,2)
proof (cases rule: call_op)
  case (panic e P)
  with assms(3,4) show ?thesis by (auto simp: pipe_call_step_def)
next
  case (ret u ws c)
  have "out = Ret (pipe_users_of d (rs(i := c)) (fs' u))"
    using assms(4) [OF ret(1)] ret(3) [of fs] by (simp add: pipe_users_of_def)
  with ret(2) assms(3,5) show ?thesis unfolding pipe_call_step_def by fastforce
qed

lemma fills_held_upd:
  "fills_held fs \<Longrightarrow> (\<And>g. f = FillFut g \<Longrightarrow> fbf_pipe g \<noteq> None) \<Longrightarrow> fills_held (fs(k \<mapsto> f))"
  "fills_held fs \<Longrightarrow> fills_held (fs(k := None))"
  "fills_held fs \<Longrightarrow> (\<And>g. f = FillFut g \<Longrightarrow> fbf_pipe g \<noteq> None) \<Longrightarrow>
     fills_held (fs(k := (if b then Some f else None)))"
  by (auto simp: fills_held_def)

lemmas pipe_call_defs = PipeStruct_try_write_with_context_def PipeStruct_try_read_with_context_def
  PipeStruct_try_fill_buf_with_context_def PipeStruct_consume_def PipeStruct_clear_def
  Writer_try_write_def Reader_try_read_def Reader_try_fill_buf_def Reader_consume_def
  PipeStruct_try_write_def PipeStruct_try_read_def

lemma note_same_futures:
  "(pipe_note i g M (pipe_users_of d rs fs))\<lparr>pu_futures := fs\<rparr> = pipe_note i g M (pipe_users_of d rs fs)"
  by (simp add: pipe_note_def pipe_users_of_def)

lemma poll_step:
  assumes "d < 2 ^ 32 - 1" "fills_held fs" "fs k = Some f"
  shows "pipe_call_step N d (PipePoll k cx) rs (pipe_poll N k f cx (pipe_users_of d rs fs))"
proof (cases f)
  case (WriteFut g)
  let ?fs = "\<lambda>r. fs(k := (if result_ok r = None then Some f else None))"
  show ?thesis
    by (rule pipe_call_stepI [where fs = fs and fs' = ?fs and i = "wf_pipe g", OF assms(1)
          op_write [where buf = "wf_buf g" and cx = "Some cx"]])
      (auto simp: WriteFut WriteFuture_poll_in_def pipe_call_defs keep_future_def pipe_note_def
        intro!: fills_held_upd(1) [OF assms(2)] fills_held_upd(2) [OF assms(2)]
        split: outcome.split result.split try_write_error.split)
next
  case (ReadFut g)
  let ?fs = "\<lambda>(r, buf). fs(k := (if result_ok r = None then Some (ReadFut (g\<lparr>rdf_buf := buf\<rparr>)) else None))"
  show ?thesis
    by (rule pipe_call_stepI [where fs = fs and fs' = ?fs and i = "rdf_pipe g", OF assms(1)
          op_read [where buf = "rdf_buf g" and cx = "Some cx"]])
      (auto simp: ReadFut ReadFuture_poll_in_def pipe_call_defs keep_future_def pipe_note_def
        intro!: fills_held_upd(1) [OF assms(2)] fills_held_upd(2) [OF assms(2)]
        split: outcome.split result.split try_read_error.split)
next
  case (FillFut g)
  with assms(2,3) obtain i where i: "g = \<lparr>fbf_pipe = Some i\<rparr>"
    by (cases g) (force simp: fills_held_def)
  let ?fs = "\<lambda>r. fs(k := (if result_ok r = None then Some f else None))"
  show ?thesis
    by (rule pipe_call_stepI [where fs = fs and fs' = ?fs and i = i, OF assms(1) op_fill [where cx = "Some cx"]])
      (auto simp: FillFut i FillBufFuture_poll_in_def pipe_call_defs keep_future_def pipe_note_def
        intro!: fills_held_upd(1) [OF assms(2)] fills_held_upd(2) [OF assms(2)]
        split: outcome.split result.split try_read_error.split)
qed

lemma bytes_in_of: "bytes_in N i (pipe_mem_of d rs) = pipe_contents N (pr_pipe (rs i))"
  by (cases "pr_pipe (rs i)") (simp add: bytes_in_def pipe_mem_of_def pipe_struct_of_def cell_of_def BlockingMutex_new_def
      RefCell_new_def)

lemma len_call:
  assumes "d < 2 ^ 32 - 1" "pipe_inv N (pr_pipe (rs i))" "2 * N \<le> usize_max"
  shows "call_pipe i (PipeStruct_len N) (pipe_mem_of d rs) =
    (Ret (length (pipe_contents N (pr_pipe (rs i))), []), pipe_mem_of d rs)"
  using call_pipe_of [OF assms(1), of i "\<lambda>p. bind_out (Pipe_len N p) (\<lambda>n. Ret (n, p, []))" rs]
  by (simp add: PipeStruct_len_def Pipe_len_eq [OF assms(2,3)])

lemma start_step:
  assumes "fills_held fs" "\<And>g. f = FillFut g \<Longrightarrow> fbf_pipe g \<noteq> None"
  shows "pipe_call_step N d x rs (Ret ((pipe_users_of d rs fs)\<lparr>pu_futures := fs(k \<mapsto> f)\<rparr>))"
  by (rule pipe_call_step_same [where fs' = "fs(k \<mapsto> f)"])
    (simp_all add: pipe_users_of_def fills_held_upd(1) [OF assms] del: fun_upd_apply)

lemma pipe_call_exec_step:
  assumes d: "d < 2 ^ 32 - 1" and fs: "fills_held fs"
    and inv: "\<And>i. pipe_inv N (pr_pipe (rs i))" "2 * N \<le> usize_max"
  shows "pipe_call_step N d x rs (pipe_call_exec N x (pipe_users_of d rs fs))"
proof (cases x)
  case (PipeTryWrite w buf)
  show ?thesis unfolding PipeTryWrite
    by (rule pipe_call_stepI [where fs = fs and fs' = "\<lambda>_. fs" and i = "writer_pipe w",
          OF d op_write [where buf = buf and cx = None] _ _ fs])
      (auto simp: pipe_call_defs note_same_futures)
next
  case (PipeTryRead s buf)
  show ?thesis unfolding PipeTryRead
    by (rule pipe_call_stepI [where fs = fs and fs' = "\<lambda>_. fs" and i = "reader_pipe s",
          OF d op_read [where buf = buf and cx = None] _ _ fs])
      (auto simp: pipe_call_defs note_same_futures intro!: bind_out_cong)
next
  case (PipeTryFill s)
  show ?thesis unfolding PipeTryFill
    by (rule pipe_call_stepI [where fs = fs and fs' = "\<lambda>_. fs" and i = "reader_pipe s",
          OF d op_fill [where cx = None] _ _ fs])
      (auto simp: pipe_call_defs note_same_futures)
next
  case (PipeConsumeBytes s amt)
  show ?thesis unfolding PipeConsumeBytes
    by (rule pipe_call_stepI [where fs = fs and fs' = "\<lambda>_. fs" and i = "reader_pipe s",
          OF d op_consume [where amt = amt] _ _ fs])
      (auto simp: pipe_call_defs note_same_futures bytes_in_of split: outcome.split)
next
  case (PipeClearBytes i)
  show ?thesis unfolding PipeClearBytes
    by (rule pipe_call_stepI [where fs = fs and fs' = "\<lambda>_. fs" and i = i,
          OF d op_clear _ _ fs])
      (auto simp: pipe_call_defs note_same_futures split: outcome.split)
next
  case (PipePoll k cx)
  with poll_step [OF d fs] fs show ?thesis
    by (cases "fs k") (auto simp: pipe_call_step_def)
next
  case (PipeLen i)
  with fs len_call [where rs = rs and i = i, OF d inv] show ?thesis
    by (auto simp: pipe_call_step_def pipe_users_of_def)
next
  case (PipeStartWrite k w buf)
  show ?thesis unfolding PipeStartWrite pipe_call_exec.simps pipe_users_of_simps
    by (rule start_step [OF fs]) simp
next
  case (PipeStartRead k s buf)
  show ?thesis unfolding PipeStartRead pipe_call_exec.simps pipe_users_of_simps
    by (rule start_step [OF fs]) simp
next
  case (PipeStartFill k s)
  show ?thesis unfolding PipeStartFill pipe_call_exec.simps pipe_users_of_simps
    by (rule start_step [OF fs]) (auto simp: Reader_fill_buf_def)
next
  case (PipeDrop k)
  with fs show ?thesis
    by (intro pipe_call_step_same [where fs' = "fs(k := None)"])
      (simp add: pipe_users_of_def, rule fills_held_upd(2))
qed

lemma pipe_exec_panics:
  assumes "pipe_inv N (pr_pipe c)" "pipe_exec N c y = Panic e"
  shows "e = AssertFailed \<and> is_consume y"
proof (cases y)
  case (PipeRead cx buf)
  from assms(1) show ?thesis
    by (cases rule: Pipe_try_read_cases [where cx = cx and buf = buf]) (use assms(2) PipeRead in simp_all)
next
  case (PipeWrite cx buf)
  from assms(1) show ?thesis
    by (cases rule: Pipe_try_write_cases [where cx = cx and buf = buf]) (use assms(2) PipeWrite in simp_all)
next
  case (PipeFill cx)
  from assms(1) show ?thesis
    by (cases rule: Pipe_try_fill_buf_cases [where cx = cx]) (use assms(2) PipeFill in simp_all)
next
  case (PipeConsume amt)
  from assms(1) show ?thesis
    by (cases rule: Pipe_consume_cases [where amt = amt]) (use assms(2) PipeConsume in simp_all)
qed (use assms(2) in \<open>simp split: prod.splits\<close>)

lemma pipe_exec_all_snoc:
  "pipe_exec_all N c (ops @ [y]) = bind_out (pipe_exec_all N c ops) (\<lambda>c. pipe_exec N c y)"
proof (induction ops arbitrary: c)
  case Nil
  then show ?case by (cases "pipe_exec N c y") simp_all
next
  case (Cons x ops)
  then show ?case by (cases "pipe_exec N c x") simp_all
qed

text \<open>Families of runs in which each pipe has its own sequence of atomic operations.\<close>

definition pipe_runs :: "nat \<Rightarrow> bool \<Rightarrow> (nat \<Rightarrow> pipe_run) \<Rightarrow> bool" where
  "pipe_runs N consumes rs \<longleftrightarrow> (\<forall>i. \<exists>ops. pipe_exec_all N (pipe_run_init N) ops = Ret (rs i) \<and>
     (list_ex is_consume ops \<longrightarrow> consumes))"

lemma pipe_runs_step:
  assumes "pipe_runs N b rs" "pipe_exec N (rs i) y = Ret c" "is_consume y \<longrightarrow> b"
  shows "pipe_runs N b (rs(i := c))"
proof -
  from assms(1) obtain ops where "pipe_exec_all N (pipe_run_init N) ops = Ret (rs i)"
    "list_ex is_consume ops \<longrightarrow> b" unfolding pipe_runs_def by blast
  with assms(2,3) have "pipe_exec_all N (pipe_run_init N) (ops @ [y]) = Ret c"
    "list_ex is_consume (ops @ [y]) \<longrightarrow> b" by (auto simp: pipe_exec_all_snoc)
  with assms(1) show ?thesis unfolding pipe_runs_def by (metis fun_upd_apply)
qed

lemma pipe_runs_inv:
  assumes "0 < N" "N \<le> usize_max" "pipe_runs N b rs"
  shows "pipe_inv N (pr_pipe (rs i))"
  using assms(3) pipe_exec_all_fifo [OF pipe_run_init_inv(1) [OF assms(1,2)]]
  by (auto simp: pipe_runs_def pipe_fifo_inv_def)

lemma pipe_call_execs_runs:
  assumes N: "0 < N" "2 * N \<le> usize_max" and d: "d < 2 ^ 32 - 1"
  shows "fills_held fs \<Longrightarrow> pipe_runs N b rs \<Longrightarrow> list_ex is_consume_call xs \<longrightarrow> b \<Longrightarrow>
    (\<exists>rs' fs'. pipe_call_execs N xs (pipe_users_of d rs fs) = Ret (pipe_users_of d rs' fs') \<and>
       fills_held fs' \<and> pipe_runs N b rs') \<or>
    pipe_call_execs N xs (pipe_users_of d rs fs) = Panic AssertFailed \<and> b"
proof (induction xs arbitrary: rs fs)
  case (Cons x xs)
  have inv: "pipe_inv N (pr_pipe (rs i))" for i
    using pipe_runs_inv [OF N(1) _ Cons.prems(2)] N(2) by simp
  from pipe_call_exec_step [where x = x and rs = rs, OF d Cons.prems(1) inv N(2)]
  consider (same) fs' where "pipe_call_exec N x (pipe_users_of d rs fs) = Ret (pipe_users_of d rs fs')"
      "fills_held fs'"
    | (op) i y c fs' where "pipe_call_exec N x (pipe_users_of d rs fs) = Ret (pipe_users_of d (rs(i := c)) fs')"
      "pipe_exec N (rs i) y = Ret c" "is_consume y \<longrightarrow> is_consume_call x" "fills_held fs'"
    | (panic) i y e where "pipe_call_exec N x (pipe_users_of d rs fs) = Panic e"
      "pipe_exec N (rs i) y = Panic e" "is_consume y \<longrightarrow> is_consume_call x"
    unfolding pipe_call_step_def
    by (cases "pipe_call_exec N x (pipe_users_of d rs fs)") (simp_all, blast+)
  then show ?case
  proof cases
    case same
    with Cons.IH [OF same(2) Cons.prems(2)] Cons.prems(3) show ?thesis by simp
  next
    case op
    from op(3) Cons.prems(3) have "is_consume y \<longrightarrow> b" by auto
    from Cons.IH [OF op(4) pipe_runs_step [OF Cons.prems(2) op(2) this]] Cons.prems(3) op(1)
    show ?thesis by (simp del: fun_upd_apply)
  next
    case panic
    with pipe_exec_panics [OF inv panic(2)] Cons.prems(3) show ?thesis by simp
  qed
qed auto

lemma pipe_users_new_eq:
  "pipe_users_new N d = pipe_users_of d (\<lambda>_. pipe_run_init N) (\<lambda>_. None)"
  by (simp add: pipe_users_new_def pipe_users_of_def pipe_mem_of_def pipe_struct_of_def
      PipeStruct_new_def pipe_run_init_def Pipe_new_def cell_of_def pipe_log_of_def)


definition example_pipe_calls :: "pipe_call list" where
  "example_pipe_calls =
     [PipeStartWrite 0 (snd (Pipe_split 3)) [7, 8], PipePoll 0 (RawWaker 1 VTABLE),
      PipeStartRead 1 (fst (Pipe_split 3)) [0, 0], PipePoll 1 (RawWaker 2 VTABLE),
      PipePoll 1 (RawWaker 2 VTABLE), PipeTryRead (fst (Pipe_split 3)) [0]]"

lemmas pipe_handle_eval = pipe_call_defs WriteFuture_poll_in_def ReadFuture_poll_in_def call_pipe_def
  PipeStruct_lock_def BlockingMutex_lock_def CriticalSectionRawMutex_lock_def
  critical_section_with_def Section_acquire_def Section_release_def in_sections_def
  BlockingMutex_new_def RefCell_new_def RefCell_borrow_mut_def RefCell_try_borrow_mut_def
  RefMut_drop_def PipeStruct_new_def pipe_users_new_def Pipe_split_def Writer_write_def
  Pipe_write_def Reader_read_def Pipe_read_def pipe_note_def keep_future_def log_write_def
  log_read_def sleeps_def pipe_eval


end
