(* ===== verification/Pubsub_Handles.thy ===== *)
theory Pubsub_Handles
  imports Pubsub Shared_Cell
begin

text \<open>
  The publish/subscribe channel of \<open>src/src/sync/pubsub\<close> as its users see it: the struct \<open>PubSubChannel\<close>
  with its state in a cell behind the blocking mutex, and the publishers, immediate publishers,
  subscribers and futures, which hold references to a channel.  A reference is the number of a
  channel in the memory \<open>pubsub_mem\<close>; as there is one implementation of \<open>PubSubBehavior\<close>, a
  reference to the trait object is such a number as well.  The refinement says that calls through
  any handles act on each channel as a sequence of the atomic operations of \<open>Pubsub\<close>.
\<close>

section \<open>The struct\<close>

record ('q, 'v, 'w) pubsub_channel =
  psc_inner :: "('q, 'v, 'w) pubsub_state ref_cell blocking_mutex"

definition PubSubChannel_new :: "('q, 'v, 'w, 'a) pubsub_libs \<Rightarrow> ('q, 'v, 'w) pubsub_channel" where
  "PubSubChannel_new L = \<lparr>psc_inner = BlockingMutex_new (RefCell_new (PubSubState_new L))\<rparr>"

text \<open>
  \<open>self.inner.lock(|s| { let mut s = s.borrow_mut(); \<dots> })\<close>, and the same with \<open>borrow\<close>.  A body that
  runs out of fuel is \<open>None\<close>.
\<close>

definition PubSubChannel_lock ::
  "(('q, 'v, 'w) pubsub_state \<Rightarrow> ('u \<times> ('q, 'v, 'w) pubsub_state \<times> waker list) outcome option) \<Rightarrow>
     ('q, 'v, 'w) pubsub_channel \<times> cpu_irq \<Rightarrow>
     ('u \<times> waker list) outcome option \<times> ('q, 'v, 'w) pubsub_channel \<times> cpu_irq" where
  "PubSubChannel_lock f cc =
     (let (ch, cpu) = cc;
          (r, inner, cpu) = BlockingMutex_lock
            (\<lambda>rc (m, c).
               case RefCell_borrow_mut rc of
                 Panic e \<Rightarrow> (Some (Panic e), m, c)
               | Ret (s, rc) \<Rightarrow>
                   (case f s of
                      Some (Ret (u, s, ws)) \<Rightarrow>
                        (Some (Ret (u, ws)), m\<lparr>bm_data := RefMut_drop s rc\<rparr>, c)
                    | Some (Panic e) \<Rightarrow> (Some (Panic e), m\<lparr>bm_data := rc\<rparr>, c)
                    | None \<Rightarrow> (None, m\<lparr>bm_data := rc\<rparr>, c)))
            (psc_inner ch, cpu)
      in (r, ch\<lparr>psc_inner := inner\<rparr>, cpu))"

definition PubSubChannel_peek ::
  "(('q, 'v, 'w) pubsub_state \<Rightarrow> 'u outcome) \<Rightarrow> ('q, 'v, 'w) pubsub_channel \<times> cpu_irq \<Rightarrow>
     'u outcome \<times> ('q, 'v, 'w) pubsub_channel \<times> cpu_irq" where
  "PubSubChannel_peek f cc =
     (let (ch, cpu) = cc;
          (r, inner, cpu) = BlockingMutex_lock (\<lambda>rc (m, c). (bind_out (RefCell_borrow rc) f, m, c))
            (psc_inner ch, cpu)
      in (r, ch\<lparr>psc_inner := inner\<rparr>, cpu))"

definition PubSubChannel_lock_subscriber where
  "PubSubChannel_lock_subscriber SUBS = PubSubChannel_lock (\<lambda>s.
     Some (bind_out (PubSubChannel_subscriber SUBS s) (\<lambda>(r, s). Ret (r, s, []))))"

definition PubSubChannel_lock_publisher where
  "PubSubChannel_lock_publisher PUBS = PubSubChannel_lock (\<lambda>s.
     Some (bind_out (PubSubChannel_publisher PUBS s) (\<lambda>(r, s). Ret (r, s, []))))"

definition PubSubChannel_lock_get_message where
  "PubSubChannel_lock_get_message L next_message_id cx = PubSubChannel_lock (\<lambda>s.
     Some (bind_out (PubSubChannel_get_message_with_context L s next_message_id cx)
       (\<lambda>(r, n, s, ws). Ret ((r, n), s, ws))))"

definition PubSubChannel_lock_publish where
  "PubSubChannel_lock_publish L message cx = PubSubChannel_lock (\<lambda>s.
     Some (PubSubChannel_publish_with_context L s message cx))"

definition PubSubChannel_lock_publish_immediate where
  "PubSubChannel_lock_publish_immediate L message = PubSubChannel_lock (\<lambda>s.
     Some (bind_out (PubSubChannel_publish_immediate L s message) (\<lambda>(s, ws). Ret ((), s, ws))))"

definition PubSubChannel_lock_unregister_subscriber where
  "PubSubChannel_lock_unregister_subscriber L subscriber_next_message_id = PubSubChannel_lock (\<lambda>s.
     bind_fuel (PubSubChannel_unregister_subscriber L s subscriber_next_message_id)
       (\<lambda>(s, ws). Some (Ret ((), s, ws))))"

definition PubSubChannel_lock_unregister_publisher ::
  "('q, 'v, 'w) pubsub_channel \<times> cpu_irq \<Rightarrow>
     (unit \<times> waker list) outcome option \<times> ('q, 'v, 'w) pubsub_channel \<times> cpu_irq" where
  "PubSubChannel_lock_unregister_publisher = PubSubChannel_lock (\<lambda>s.
     Some (bind_out (PubSubChannel_unregister_publisher s) (\<lambda>s. Ret ((), s, []))))"

definition PubSubChannel_peek_available where
  "PubSubChannel_peek_available next_message_id =
     PubSubChannel_peek (\<lambda>s. PubSubChannel_available s next_message_id)"

definition PubSubChannel_peek_space where
  "PubSubChannel_peek_space L = PubSubChannel_peek (PubSubChannel_space L)"

section \<open>Memory and handles\<close>

record ('q, 'v, 'w) pubsub_mem =
  psm_channels :: "nat \<Rightarrow> ('q, 'v, 'w) pubsub_channel"
  psm_cpu :: cpu_irq

definition call_pubsub ::
  "nat \<Rightarrow> (('q, 'v, 'w) pubsub_channel \<times> cpu_irq \<Rightarrow> 'r \<times> ('q, 'v, 'w) pubsub_channel \<times> cpu_irq) \<Rightarrow>
     ('q, 'v, 'w) pubsub_mem \<Rightarrow> 'r \<times> ('q, 'v, 'w) pubsub_mem" where
  "call_pubsub i f M =
     (let (r, ch, cpu) = f (psm_channels M i, psm_cpu M)
      in (r, M\<lparr>psm_channels := (psm_channels M)(i := ch), psm_cpu := cpu\<rparr>))"

datatype pub_handle = Pub (pub_channel: nat)
datatype immediate_pub = ImmediatePub (immediate_channel: nat)

record sub_handle =
  sh_channel :: nat
  sh_sub :: sub

text \<open>The types that users name wrap the handles; \<open>deref\<close> unwraps them.\<close>

datatype publisher = Publisher (Publisher_deref: pub_handle)
datatype dyn_publisher = DynPublisher (DynPublisher_deref: pub_handle)
datatype immediate_publisher = ImmediatePublisher (ImmediatePublisher_deref: immediate_pub)
datatype dyn_immediate_publisher = DynImmediatePublisher (DynImmediatePublisher_deref: immediate_pub)
datatype subscriber = Subscriber (Subscriber_deref: sub_handle)
datatype dyn_subscriber = DynSubscriber (DynSubscriber_deref: sub_handle)

definition PubSubChannel_make_subscriber where
  "PubSubChannel_make_subscriber SUBS self M =
     (let (r, M) = call_pubsub self (PubSubChannel_lock_subscriber SUBS) M
      in (bind_fuel r (\<lambda>(r, ws). Some (Ret (case r of
            Ok s \<Rightarrow> Ok (Subscriber \<lparr>sh_channel = self, sh_sub = s\<rparr>) | Err e \<Rightarrow> Err e))), M))"

definition PubSubChannel_dyn_subscriber where
  "PubSubChannel_dyn_subscriber SUBS self M =
     (let (r, M) = call_pubsub self (PubSubChannel_lock_subscriber SUBS) M
      in (bind_fuel r (\<lambda>(r, ws). Some (Ret (case r of
            Ok s \<Rightarrow> Ok (DynSubscriber \<lparr>sh_channel = self, sh_sub = s\<rparr>) | Err e \<Rightarrow> Err e))), M))"

definition PubSubChannel_make_publisher where
  "PubSubChannel_make_publisher PUBS self M =
     (let (r, M) = call_pubsub self (PubSubChannel_lock_publisher PUBS) M
      in (bind_fuel r (\<lambda>(r, ws). Some (Ret (case r of
            Ok _ \<Rightarrow> Ok (Publisher (Pub self)) | Err e \<Rightarrow> Err e))), M))"

definition PubSubChannel_dyn_publisher where
  "PubSubChannel_dyn_publisher PUBS self M =
     (let (r, M) = call_pubsub self (PubSubChannel_lock_publisher PUBS) M
      in (bind_fuel r (\<lambda>(r, ws). Some (Ret (case r of
            Ok _ \<Rightarrow> Ok (DynPublisher (Pub self)) | Err e \<Rightarrow> Err e))), M))"

definition PubSubChannel_immediate_publisher :: "nat \<Rightarrow> immediate_publisher" where
  "PubSubChannel_immediate_publisher self = ImmediatePublisher (ImmediatePub self)"

definition PubSubChannel_dyn_immediate_publisher :: "nat \<Rightarrow> dyn_immediate_publisher" where
  "PubSubChannel_dyn_immediate_publisher self = DynImmediatePublisher (ImmediatePub self)"

section \<open>Publishers\<close>

definition Pub_publish_immediate_in where
  "Pub_publish_immediate_in L p message =
     call_pubsub (pub_channel p) (PubSubChannel_lock_publish_immediate L message)"

definition Pub_try_publish_in where
  "Pub_try_publish_in L p message = call_pubsub (pub_channel p) (PubSubChannel_lock_publish L message None)"

definition Pub_space_in where
  "Pub_space_in L p = call_pubsub (pub_channel p) (PubSubChannel_peek_space L)"

definition Pub_drop_in where
  "Pub_drop_in p = call_pubsub (pub_channel p) PubSubChannel_lock_unregister_publisher"

record 'a publisher_wait_future =
  pwf_message :: "'a option"
  pwf_publisher :: pub_handle

definition Pub_publish :: "pub_handle \<Rightarrow> 'a \<Rightarrow> 'a publisher_wait_future" where
  "Pub_publish p message = \<lparr>pwf_message = Some message, pwf_publisher = p\<rparr>"

definition PublisherWaitFuture_poll_in where
  "PublisherWaitFuture_poll_in L f cx M =
     (case pwf_message f of
        None \<Rightarrow> (Some (Panic UnwrapFailed), M)
      | Some message \<Rightarrow>
          (let (r, M) = call_pubsub (pub_channel (pwf_publisher f))
                          (PubSubChannel_lock_publish L message (Some cx)) M
           in (bind_fuel r (\<lambda>(r, ws). Some (Ret (case r of
                 Ok _ \<Rightarrow> (Ready (), f\<lparr>pwf_message := None\<rparr>, ws)
               | Err message \<Rightarrow> (Pending, f\<lparr>pwf_message := Some message\<rparr>, ws)))), M)))"

definition ImmediatePub_publish_immediate where
  "ImmediatePub_publish_immediate L p message =
     call_pubsub (immediate_channel p) (PubSubChannel_lock_publish_immediate L message)"

definition ImmediatePub_try_publish where
  "ImmediatePub_try_publish L p message =
     call_pubsub (immediate_channel p) (PubSubChannel_lock_publish L message None)"

definition ImmediatePub_space where
  "ImmediatePub_space L p = call_pubsub (immediate_channel p) (PubSubChannel_peek_space L)"

section \<open>Subscribers\<close>

text \<open>The methods that read change the subscriber's next message id.\<close>

definition Sub_get_message where
  "Sub_get_message L x cx M =
     (let (r, M) = call_pubsub (sh_channel x)
            (PubSubChannel_lock_get_message L (sub_next_message_id (sh_sub x)) cx) M
      in (bind_fuel r (\<lambda>((r, n), ws). Some (Ret (r, x\<lparr>sh_sub := \<lparr>sub_next_message_id = n\<rparr>\<rparr>, ws))), M))"

definition Sub_try_next_message_in where
  "Sub_try_next_message_in L x M =
     (let (r, M) = Sub_get_message L x None M
      in (bind_fuel r (\<lambda>(r, x, ws). Some (Ret (poll_value r, x, ws))), M))"

text \<open>The future of \<open>next_message\<close> holds only a reference to the subscriber, so a poll acts on that.\<close>

definition SubscriberWaitFuture_poll_in where
  "SubscriberWaitFuture_poll_in L x cx M = Sub_get_message L x (Some cx) M"

definition Sub_available_in where
  "Sub_available_in x =
     call_pubsub (sh_channel x) (PubSubChannel_peek_available (sub_next_message_id (sh_sub x)))"

definition Sub_drop_in where
  "Sub_drop_in L x = call_pubsub (sh_channel x)
     (PubSubChannel_lock_unregister_subscriber L (sub_next_message_id (sh_sub x)))"

section \<open>Users of handles\<close>

text \<open>
  The users keep their publishers, subscribers and publish futures in numbered places, and for each
  place what its subscriber has been told since it was made.
\<close>

datatype any_publisher = StaticPublisher publisher | DynamicPublisher dyn_publisher
datatype any_subscriber = StaticSubscriber subscriber | DynamicSubscriber dyn_subscriber

fun pub_of :: "any_publisher \<Rightarrow> pub_handle" where
  "pub_of (StaticPublisher p) = Publisher_deref p"
| "pub_of (DynamicPublisher p) = DynPublisher_deref p"

fun sub_of :: "any_subscriber \<Rightarrow> sub_handle" where
  "sub_of (StaticSubscriber x) = Subscriber_deref x"
| "sub_of (DynamicSubscriber x) = DynSubscriber_deref x"

fun sub_deref_mut :: "any_subscriber \<Rightarrow> sub_handle \<Rightarrow> any_subscriber" where
  "sub_deref_mut (StaticSubscriber _) h = StaticSubscriber (Subscriber h)"
| "sub_deref_mut (DynamicSubscriber _) h = DynamicSubscriber (DynSubscriber h)"

fun new_subscriber where
  "new_subscriber SUBS dyn i M =
     (if dyn then
        (let (r, M) = PubSubChannel_dyn_subscriber SUBS i M
         in (bind_fuel r (\<lambda>r. Some (Ret (map_option DynamicSubscriber (result_ok r)))), M))
      else
        (let (r, M) = PubSubChannel_make_subscriber SUBS i M
         in (bind_fuel r (\<lambda>r. Some (Ret (map_option StaticSubscriber (result_ok r)))), M)))"

fun new_publisher where
  "new_publisher PUBS dyn i M =
     (if dyn then
        (let (r, M) = PubSubChannel_dyn_publisher PUBS i M
         in (bind_fuel r (\<lambda>r. Some (Ret (map_option DynamicPublisher (result_ok r)))), M))
      else
        (let (r, M) = PubSubChannel_make_publisher PUBS i M
         in (bind_fuel r (\<lambda>r. Some (Ret (map_option StaticPublisher (result_ok r)))), M)))"

fun immediate_of :: "bool \<Rightarrow> nat \<Rightarrow> immediate_pub" where
  "immediate_of dyn i =
     (if dyn then DynImmediatePublisher_deref (PubSubChannel_dyn_immediate_publisher i)
      else ImmediatePublisher_deref (PubSubChannel_immediate_publisher i))"

datatype 'a pubsub_call =
    NewSubscriber nat nat bool
  | NewPublisher nat nat bool
  | ReadMessage nat
  | AwaitMessage nat waker
  | DropSubscriber nat
  | DropPublisher nat
  | PublishTry nat 'a
  | PublishNow nat 'a
  | PublishStart nat nat 'a
  | PublishPoll nat waker
  | PublishDrop nat
  | ImmediateNow nat bool 'a
  | ImmediateTry nat bool 'a
  | AskAvailable nat
  | AskSpace nat

record ('q, 'v, 'w, 'a) pubsub_users =
  psu_mem :: "('q, 'v, 'w) pubsub_mem"
  psu_subs :: "nat \<Rightarrow> any_subscriber option"
  psu_pubs :: "nat \<Rightarrow> any_publisher option"
  psu_futures :: "nat \<Rightarrow> 'a publisher_wait_future option"
  psu_told :: "nat \<Rightarrow> 'a wait_result list"

definition hear :: "nat \<Rightarrow> any_subscriber \<Rightarrow> sub_handle \<Rightarrow> 'a wait_result option \<Rightarrow>
    ('q, 'v, 'w, 'a) pubsub_users \<Rightarrow> ('q, 'v, 'w, 'a) pubsub_users" where
  "hear k x h v u = u\<lparr>psu_subs := (psu_subs u)(k \<mapsto> sub_deref_mut x h),
     psu_told := (psu_told u)(k := psu_told u k @ read_result v)\<rparr>"

text \<open>A place that is taken is not filled again, and an empty one is not used.\<close>

fun pubsub_call_exec ::
  "('q, 'v, 'w, 'a) pubsub_libs \<Rightarrow> nat \<Rightarrow> nat \<Rightarrow> 'a pubsub_call \<Rightarrow> ('q, 'v, 'w, 'a) pubsub_users \<Rightarrow>
     ('q, 'v, 'w, 'a) pubsub_users outcome option" where
  "pubsub_call_exec L SUBS PUBS (NewSubscriber k i dyn) u =
     (if psu_subs u k \<noteq> None then Some (Ret u)
      else let (r, M) = new_subscriber SUBS dyn i (psu_mem u)
        in bind_fuel r (\<lambda>x. Some (Ret (case x of
             None \<Rightarrow> u\<lparr>psu_mem := M\<rparr>
           | Some x \<Rightarrow> u\<lparr>psu_mem := M, psu_subs := (psu_subs u)(k \<mapsto> x), psu_told := (psu_told u)(k := [])\<rparr>))))"
| "pubsub_call_exec L SUBS PUBS (NewPublisher k i dyn) u =
     (if psu_pubs u k \<noteq> None then Some (Ret u)
      else let (r, M) = new_publisher PUBS dyn i (psu_mem u)
        in bind_fuel r (\<lambda>p. Some (Ret (case p of
             None \<Rightarrow> u\<lparr>psu_mem := M\<rparr>
           | Some p \<Rightarrow> u\<lparr>psu_mem := M, psu_pubs := (psu_pubs u)(k \<mapsto> p)\<rparr>))))"
| "pubsub_call_exec L SUBS PUBS (ReadMessage k) u =
     (case psu_subs u k of
        None \<Rightarrow> Some (Ret u)
      | Some x \<Rightarrow>
          let (r, M) = Sub_try_next_message_in L (sub_of x) (psu_mem u)
          in bind_fuel r (\<lambda>(v, h, ws). Some (Ret (hear k x h v (u\<lparr>psu_mem := M\<rparr>)))))"
| "pubsub_call_exec L SUBS PUBS (AwaitMessage k cx) u =
     (case psu_subs u k of
        None \<Rightarrow> Some (Ret u)
      | Some x \<Rightarrow>
          let (r, M) = SubscriberWaitFuture_poll_in L (sub_of x) cx (psu_mem u)
          in bind_fuel r (\<lambda>(r, h, ws). Some (Ret (hear k x h (poll_value r) (u\<lparr>psu_mem := M\<rparr>)))))"
| "pubsub_call_exec L SUBS PUBS (DropSubscriber k) u =
     (case psu_subs u k of
        None \<Rightarrow> Some (Ret u)
      | Some x \<Rightarrow>
          let (r, M) = Sub_drop_in L (sub_of x) (psu_mem u)
          in bind_fuel r (\<lambda>_. Some (Ret (u\<lparr>psu_mem := M, psu_subs := (psu_subs u)(k := None)\<rparr>))))"
| "pubsub_call_exec L SUBS PUBS (DropPublisher k) u =
     (case psu_pubs u k of
        None \<Rightarrow> Some (Ret u)
      | Some p \<Rightarrow>
          let (r, M) = Pub_drop_in (pub_of p) (psu_mem u)
          in bind_fuel r (\<lambda>_. Some (Ret (u\<lparr>psu_mem := M, psu_pubs := (psu_pubs u)(k := None)\<rparr>))))"
| "pubsub_call_exec L SUBS PUBS (PublishTry k m) u =
     (case psu_pubs u k of
        None \<Rightarrow> Some (Ret u)
      | Some p \<Rightarrow>
          let (r, M) = Pub_try_publish_in L (pub_of p) m (psu_mem u)
          in bind_fuel r (\<lambda>_. Some (Ret (u\<lparr>psu_mem := M\<rparr>))))"
| "pubsub_call_exec L SUBS PUBS (PublishNow k m) u =
     (case psu_pubs u k of
        None \<Rightarrow> Some (Ret u)
      | Some p \<Rightarrow>
          let (r, M) = Pub_publish_immediate_in L (pub_of p) m (psu_mem u)
          in bind_fuel r (\<lambda>_. Some (Ret (u\<lparr>psu_mem := M\<rparr>))))"
| "pubsub_call_exec L SUBS PUBS (PublishStart f k m) u =
     (case psu_pubs u k of
        None \<Rightarrow> Some (Ret u)
      | Some p \<Rightarrow> Some (Ret (u\<lparr>psu_futures := (psu_futures u)(f \<mapsto> Pub_publish (pub_of p) m)\<rparr>)))"
| "pubsub_call_exec L SUBS PUBS (PublishPoll f cx) u =
     (case psu_futures u f of
        None \<Rightarrow> Some (Ret u)
      | Some w \<Rightarrow>
          let (r, M) = PublisherWaitFuture_poll_in L w cx (psu_mem u)
          in bind_fuel r (\<lambda>(r, w, ws). Some (Ret (u\<lparr>psu_mem := M,
               psu_futures := (psu_futures u)(f := if r = Ready () then None else Some w)\<rparr>))))"
| "pubsub_call_exec L SUBS PUBS (PublishDrop f) u =
     Some (Ret (u\<lparr>psu_futures := (psu_futures u)(f := None)\<rparr>))"
| "pubsub_call_exec L SUBS PUBS (ImmediateNow i dyn m) u =
     (let (r, M) = ImmediatePub_publish_immediate L (immediate_of dyn i) m (psu_mem u)
      in bind_fuel r (\<lambda>_. Some (Ret (u\<lparr>psu_mem := M\<rparr>))))"
| "pubsub_call_exec L SUBS PUBS (ImmediateTry i dyn m) u =
     (let (r, M) = ImmediatePub_try_publish L (immediate_of dyn i) m (psu_mem u)
      in bind_fuel r (\<lambda>_. Some (Ret (u\<lparr>psu_mem := M\<rparr>))))"
| "pubsub_call_exec L SUBS PUBS (AskAvailable k) u =
     (case psu_subs u k of
        None \<Rightarrow> Some (Ret u)
      | Some x \<Rightarrow>
          let (r, M) = Sub_available_in (sub_of x) (psu_mem u)
          in bind_fuel (Some r) (\<lambda>_. Some (Ret (u\<lparr>psu_mem := M\<rparr>))))"
| "pubsub_call_exec L SUBS PUBS (AskSpace i) u =
     (let (r, M) = ImmediatePub_space L (immediate_of False i) (psu_mem u)
      in bind_fuel (Some r) (\<lambda>_. Some (Ret (u\<lparr>psu_mem := M\<rparr>))))"

fun pubsub_call_execs ::
  "('q, 'v, 'w, 'a) pubsub_libs \<Rightarrow> nat \<Rightarrow> nat \<Rightarrow> 'a pubsub_call list \<Rightarrow> ('q, 'v, 'w, 'a) pubsub_users \<Rightarrow>
     ('q, 'v, 'w, 'a) pubsub_users outcome option" where
  "pubsub_call_execs L SUBS PUBS [] u = Some (Ret u)"
| "pubsub_call_execs L SUBS PUBS (x # xs) u =
     bind_fuel (pubsub_call_exec L SUBS PUBS x u) (pubsub_call_execs L SUBS PUBS xs)"

definition pubsub_users_new ::
  "('q, 'v, 'w, 'a) pubsub_libs \<Rightarrow> nat \<Rightarrow> ('q, 'v, 'w, 'a) pubsub_users" where
  "pubsub_users_new L d = \<lparr>
     psu_mem = \<lparr>psm_channels = \<lambda>_. PubSubChannel_new L, psm_cpu = in_sections d\<rparr>,
     psu_subs = \<lambda>_. None, psu_pubs = \<lambda>_. None, psu_futures = \<lambda>_. None, psu_told = \<lambda>_. []\<rparr>"

section \<open>Handles refine the channels\<close>

definition psm_of :: "nat \<Rightarrow> (nat \<Rightarrow> ('q, 'v, 'w, 'a) pubsub_run) \<Rightarrow> ('q, 'v, 'w) pubsub_mem" where
  "psm_of d rs = \<lparr>psm_channels = \<lambda>i. \<lparr>psc_inner = cell_of (pr_state (rs i))\<rparr>, psm_cpu = in_sections d\<rparr>"

lemmas pubsub_lock_eval = call_pubsub_def psm_of_def BlockingMutex_lock_def
  CriticalSectionRawMutex_lock_def critical_section_with_def in_sections_def acquire_eq
  cell_of_def BlockingMutex_new_def RefCell_new_def RefCell_borrow_mut_def RefCell_borrow_def
  RefCell_try_borrow_mut_def RefMut_drop_def

lemma call_pubsub_lock:
  assumes "d < 2 ^ 32 - 1" "f (pr_state (rs i)) = Some (Ret (x, pr_state r', ws))"
  shows "call_pubsub i (PubSubChannel_lock f) (psm_of d rs) = (Some (Ret (x, ws)), psm_of d (rs(i := r')))"
  using assms(2) by (auto simp: PubSubChannel_lock_def pubsub_lock_eval release_eq [OF assms(1)] fun_eq_iff)

lemma call_pubsub_peek:
  assumes "d < 2 ^ 32 - 1"
  shows "call_pubsub i (PubSubChannel_peek f) (psm_of d rs) = (f (pr_state (rs i)), psm_of d rs)"
  by (auto simp: PubSubChannel_peek_def pubsub_lock_eval release_eq [OF assms] fun_eq_iff)

text \<open>The subscribers and publishers of a channel.\<close>

definition subs_at :: "(nat \<Rightarrow> any_subscriber option) \<Rightarrow> nat \<Rightarrow> nat \<Rightarrow> sub option" where
  "subs_at m i k = (case m k of
     Some x \<Rightarrow> if sh_channel (sub_of x) = i then Some (sh_sub (sub_of x)) else None | None \<Rightarrow> None)"

definition pubs_at :: "(nat \<Rightarrow> any_publisher option) \<Rightarrow> nat \<Rightarrow> nat set" where
  "pubs_at m i = {k. \<exists>p. m k = Some p \<and> pub_channel (pub_of p) = i}"

text \<open>
  The users and a family of runs of channels: cells unborrowed, the core inside \<open>d\<close> critical sections, the
  handles are those that the runs count, and the users have been told what the runs say.
\<close>

definition users_hold ::
  "nat \<Rightarrow> ('q, 'v, 'w, 'a) pubsub_users \<Rightarrow> (nat \<Rightarrow> ('q, 'v, 'w, 'a) pubsub_run) \<Rightarrow> bool" where
  "users_hold d u rs \<longleftrightarrow> psu_mem u = psm_of d rs \<and> (\<forall>i. pr_subs (rs i) = subs_at (psu_subs u) i) \<and>
     (\<forall>k x. psu_subs u k = Some x \<longrightarrow> pr_log (rs (sh_channel (sub_of x))) k = psu_told u k) \<and>
     finite (dom (psu_pubs u)) \<and> (\<forall>i. pr_publishers (rs i) = card (pubs_at (psu_pubs u) i)) \<and>
     (\<forall>f w. psu_futures u f = Some w \<longrightarrow> pwf_message w \<noteq> None)"

lemma users_holdI:
  assumes "psu_mem u = psm_of d rs" "\<And>i. pr_subs (rs i) = subs_at (psu_subs u) i"
    "\<And>k x. psu_subs u k = Some x \<Longrightarrow> pr_log (rs (sh_channel (sub_of x))) k = psu_told u k"
    "finite (dom (psu_pubs u))" "\<And>i. pr_publishers (rs i) = card (pubs_at (psu_pubs u) i)"
    "\<And>f w. psu_futures u f = Some w \<Longrightarrow> pwf_message w \<noteq> None"
  shows "users_hold d u rs"
  using assms by (simp add: users_hold_def)

lemma users_holdD:
  assumes "users_hold d u rs"
  shows "psu_mem u = psm_of d rs" "pr_subs (rs i) = subs_at (psu_subs u) i"
    "psu_subs u k = Some x \<Longrightarrow> pr_log (rs (sh_channel (sub_of x))) k = psu_told u k"
    "finite (dom (psu_pubs u))" "pr_publishers (rs i) = card (pubs_at (psu_pubs u) i)"
    "psu_futures u f = Some w \<Longrightarrow> \<exists>m. pwf_message w = Some m"
  using assms by (auto simp: users_hold_def)

lemma users_hold_told:
  "users_hold d u rs \<Longrightarrow> psu_subs u k = Some x \<Longrightarrow> sh_channel (sub_of x) = i \<Longrightarrow>
    pr_log (rs i) k = psu_told u k"
  by (auto simp: users_hold_def)

lemma sub_of_deref_mut [simp]: "sub_of (sub_deref_mut x h) = h"
  by (cases x) simp_all

lemma subs_at_upd:
  "subs_at (m(k \<mapsto> x)) i = (if sh_channel (sub_of x) = i then (subs_at m i)(k \<mapsto> sh_sub (sub_of x))
     else (subs_at m i)(k := None))"
  "subs_at (m(k := None)) i = (subs_at m i)(k := None)"
  by (auto simp: subs_at_def fun_eq_iff)

lemma subs_at_self: "m k = Some x \<Longrightarrow> subs_at m (sh_channel (sub_of x)) k = Some (sh_sub (sub_of x))"
  by (simp add: subs_at_def)

lemma subs_at_other:
  "m k = None \<Longrightarrow> (subs_at m i)(k := None) = subs_at m i"
  "m k = Some x \<Longrightarrow> sh_channel (sub_of x) \<noteq> i \<Longrightarrow> (subs_at m i)(k := None) = subs_at m i"
  by (auto simp: subs_at_def fun_eq_iff)

text \<open>A step that leaves the handles alone, as all publishing does.\<close>

lemma users_hold_same:
  assumes "users_hold d u rs" "pr_subs r' = pr_subs (rs i)" "pr_log r' = pr_log (rs i)"
    "pr_publishers r' = pr_publishers (rs i)"
    and "u' = u\<lparr>psu_mem := psm_of d (rs(i := r')), psu_futures := fs\<rparr>"
    "\<And>f w. fs f = Some w \<Longrightarrow> pwf_message w \<noteq> None"
  shows "users_hold d u' (rs(i := r'))"
  using assms by (intro users_holdI) (auto simp: users_hold_def)

definition pubsub_call_ok where
  "pubsub_call_ok L SUBS PUBS d c u rs \<longleftrightarrow> (\<exists>u' rs'. pubsub_call_exec L SUBS PUBS c u = Some (Ret u') \<and>
     users_hold d u' rs' \<and>
     (rs' = rs \<or> (\<exists>i op r'. pubsub_exec L SUBS PUBS (rs i) op = Some (Ret r') \<and> rs' = rs(i := r'))))"

lemma pubsub_call_okI:
  assumes "pubsub_call_exec L SUBS PUBS c u = Some (Ret u')" "users_hold d u' (rs(i := r'))"
    "pubsub_exec L SUBS PUBS (rs i) op = Some (Ret r')"
  shows "pubsub_call_ok L SUBS PUBS d c u rs"
  using assms unfolding pubsub_call_ok_def by blast

lemma pubsub_call_ok_idle:
  "pubsub_call_exec L SUBS PUBS c u = Some (Ret u') \<Longrightarrow> users_hold d u' rs \<Longrightarrow>
    pubsub_call_ok L SUBS PUBS d c u rs"
  unfolding pubsub_call_ok_def by blast

lemma pubsub_step_simps [simp]:
  "pr_state (pubsub_step s ws r) = s" "pr_subs (pubsub_step s ws r) = pr_subs r"
  "pr_log (pubsub_step s ws r) = pr_log r" "pr_publishers (pubsub_step s ws r) = pr_publishers r"
  by (simp_all add: pubsub_step_def)

lemma note_published_simps [simp]:
  "pr_state (note_published m s r) = pr_state r" "pr_subs (note_published m s r) = pr_subs r"
  "pr_log (note_published m s r) = pr_log r" "pr_publishers (note_published m s r) = pr_publishers r"
  by (simp_all add: note_published_def)

lemma publish_call:
  assumes "d < 2 ^ 32 - 1" "pubsub_exec L SUBS PUBS (rs i) (OpPublish m cx) = Some (Ret r')"
  obtains x ws where
    "call_pubsub i (PubSubChannel_lock_publish L m cx) (psm_of d rs) = (Some (Ret (x, ws)), psm_of d (rs(i := r')))"
    "pr_subs r' = pr_subs (rs i)" "pr_log r' = pr_log (rs i)" "pr_publishers r' = pr_publishers (rs i)"
proof -
  from assms(2) obtain b s ws where p: "pubsub_publish L (pr_state (rs i)) m cx = Ret (b, s, ws)"
    and r': "pr_state r' = s" "pr_subs r' = pr_subs (rs i)" "pr_log r' = pr_log (rs i)"
      "pr_publishers r' = pr_publishers (rs i)"
    by (auto simp: Let_def)
  have "\<exists>x. PubSubChannel_publish_with_context L (pr_state (rs i)) m cx = Ret (x, s, ws)"
  proof (cases "PubSubChannel_publish_with_context L (pr_state (rs i)) m cx")
    case (Ret a)
    obtain y s' ws' where a: "a = (y, s', ws')" by (cases a)
    with p Ret show ?thesis
      by (cases cx; cases y)
        (auto simp: pubsub_publish_def Pub_try_publish_def PublisherWaitFuture_poll_def)
  next
    case (Panic e)
    with p show ?thesis
      by (cases cx) (auto simp: pubsub_publish_def Pub_try_publish_def PublisherWaitFuture_poll_def)
  qed
  then obtain x where "PubSubChannel_publish_with_context L (pr_state (rs i)) m cx = Ret (x, s, ws)" ..
  with r' show ?thesis
    by (intro that, unfold PubSubChannel_lock_publish_def, intro call_pubsub_lock [OF assms(1)]) simp_all
qed

lemma publish_immediate_call:
  assumes "d < 2 ^ 32 - 1" "pubsub_exec L SUBS PUBS (rs i) (OpPublishImmediate m) = Some (Ret r')"
  obtains ws where
    "call_pubsub i (PubSubChannel_lock_publish_immediate L m) (psm_of d rs) =
       (Some (Ret ((), ws)), psm_of d (rs(i := r')))"
    "pr_subs r' = pr_subs (rs i)" "pr_log r' = pr_log (rs i)" "pr_publishers r' = pr_publishers (rs i)"
proof -
  from assms(2) obtain s ws where p: "PubSubChannel_publish_immediate L (pr_state (rs i)) m = Ret (s, ws)"
    and r': "pr_state r' = s" "pr_subs r' = pr_subs (rs i)" "pr_log r' = pr_log (rs i)"
      "pr_publishers r' = pr_publishers (rs i)"
    by (auto simp: Pub_publish_immediate_def)
  with r' show ?thesis
    by (intro that, unfold PubSubChannel_lock_publish_immediate_def, intro call_pubsub_lock [OF assms(1)]) simp_all
qed

lemma read_call:
  assumes "d < 2 ^ 32 - 1" "pr_subs (rs i) k = Some x"
    and "pubsub_exec L SUBS PUBS (rs i) (OpRead k cx) = Some (Ret r')"
  obtains r n ws where
    "call_pubsub i (PubSubChannel_lock_get_message L (sub_next_message_id x) cx) (psm_of d rs) =
       (Some (Ret ((r, n), ws)), psm_of d (rs(i := r')))"
    "pr_subs r' = (pr_subs (rs i))(k \<mapsto> \<lparr>sub_next_message_id = n\<rparr>)"
    "pr_log r' = (pr_log (rs i))(k := pr_log (rs i) k @ read_result (poll_value r))"
    "pr_publishers r' = pr_publishers (rs i)"
proof -
  from assms(2,3) obtain v y s ws where p: "pubsub_read L x (pr_state (rs i)) cx = Ret (v, y, s, ws)"
    and r': "pr_state r' = s" "pr_subs r' = (pr_subs (rs i))(k \<mapsto> y)" "pr_publishers r' = pr_publishers (rs i)"
      "pr_log r' = (pr_log (rs i))(k := pr_log (rs i) k @ read_result v)"
    by (auto simp: Let_def)
  have "\<exists>r n. PubSubChannel_get_message_with_context L (pr_state (rs i)) (sub_next_message_id x) cx =
      Ret (r, n, s, ws) \<and> y = \<lparr>sub_next_message_id = n\<rparr> \<and> v = poll_value r"
  proof (cases "PubSubChannel_get_message_with_context L (pr_state (rs i)) (sub_next_message_id x) cx")
    case (Ret a)
    obtain r n s' ws' where a: "a = (r, n, s', ws')" by (cases a)
    with p Ret show ?thesis
      by (cases cx; cases r)
        (auto simp: pubsub_read_def Sub_try_next_message_def SubscriberWaitFuture_poll_def)
  next
    case (Panic e)
    with p show ?thesis
      by (cases cx) (auto simp: pubsub_read_def Sub_try_next_message_def SubscriberWaitFuture_poll_def)
  qed
  then obtain r n where "PubSubChannel_get_message_with_context L (pr_state (rs i)) (sub_next_message_id x) cx =
      Ret (r, n, s, ws)" "y = \<lparr>sub_next_message_id = n\<rparr>" "v = poll_value r" by blast
  with r' show ?thesis
    by (intro that, unfold PubSubChannel_lock_get_message_def, intro call_pubsub_lock [OF assms(1)]) simp_all
qed

lemma drop_subscriber_call:
  assumes "d < 2 ^ 32 - 1" "pr_subs (rs i) k = Some x"
    and "pubsub_exec L SUBS PUBS (rs i) (OpUnsubscribe k) = Some (Ret r')"
  obtains ws where
    "call_pubsub i (PubSubChannel_lock_unregister_subscriber L (sub_next_message_id x)) (psm_of d rs) =
       (Some (Ret ((), ws)), psm_of d (rs(i := r')))"
    "pr_subs r' = (pr_subs (rs i))(k := None)" "pr_log r' = pr_log (rs i)"
    "pr_publishers r' = pr_publishers (rs i)"
proof -
  from assms(2,3) obtain s ws where
    p: "PubSubChannel_unregister_subscriber L (pr_state (rs i)) (sub_next_message_id x) = Some (Ret (s, ws))"
    and r': "pr_state r' = s" "pr_subs r' = (pr_subs (rs i))(k := None)" "pr_log r' = pr_log (rs i)"
      "pr_publishers r' = pr_publishers (rs i)"
    by (auto simp: Sub_drop_def Let_def)
  with r' show ?thesis
    by (intro that, unfold PubSubChannel_lock_unregister_subscriber_def, intro call_pubsub_lock [OF assms(1)]) simp_all
qed

lemma drop_publisher_call:
  assumes "d < 2 ^ 32 - 1" "pr_publishers (rs i) \<noteq> 0"
    and "pubsub_exec L SUBS PUBS (rs i) OpDropPublisher = Some (Ret r')"
  shows "call_pubsub i PubSubChannel_lock_unregister_publisher (psm_of d rs) =
       (Some (Ret ((), [])), psm_of d (rs(i := r')))"
    "pr_subs r' = pr_subs (rs i)" "pr_log r' = pr_log (rs i)"
    "pr_publishers r' = pr_publishers (rs i) - 1"
proof -
  from assms(2,3) obtain s where
    p: "PubSubChannel_unregister_publisher (pr_state (rs i)) = Ret s"
    and r': "pr_state r' = s" "pr_subs r' = pr_subs (rs i)" "pr_log r' = pr_log (rs i)"
      "pr_publishers r' = pr_publishers (rs i) - 1"
    by (auto simp: Pub_drop_def)
  then show "call_pubsub i PubSubChannel_lock_unregister_publisher (psm_of d rs) =
       (Some (Ret ((), [])), psm_of d (rs(i := r')))"
    unfolding PubSubChannel_lock_unregister_publisher_def
    by (intro call_pubsub_lock [OF assms(1)]) simp
qed (use assms in \<open>auto simp: Pub_drop_def\<close>)

lemma new_subscriber_call:
  assumes "d < 2 ^ 32 - 1" "pr_subs (rs i) k = None"
    and "pubsub_exec L SUBS PUBS (rs i) (OpSubscribe k) = Some (Ret r')"
  obtains
    (full) "new_subscriber SUBS dyn i (psm_of d rs) = (Some (Ret None), psm_of d (rs(i := r')))"
      "pr_subs r' = pr_subs (rs i)" "pr_log r' = pr_log (rs i)" "pr_publishers r' = pr_publishers (rs i)"
  | (made) x s where "new_subscriber SUBS dyn i (psm_of d rs) = (Some (Ret (Some x)), psm_of d (rs(i := r')))"
      "sub_of x = \<lparr>sh_channel = i, sh_sub = s\<rparr>" "pr_subs r' = (pr_subs (rs i))(k \<mapsto> s)"
      "pr_log r' = (pr_log (rs i))(k := [])" "pr_publishers r' = pr_publishers (rs i)"
proof -
  from assms(2,3) obtain y t where p: "PubSubChannel_subscriber SUBS (pr_state (rs i)) = Ret (y, t)"
    and r': "(case y of Err _ \<Rightarrow> Ret ((rs i)\<lparr>pr_state := t\<rparr>)
      | Ok x \<Rightarrow> Ret ((rs i)\<lparr>pr_state := t, pr_subs := (pr_subs (rs i))(k \<mapsto> x),
          pr_from := (pr_from (rs i))(k := sub_next_message_id x), pr_log := (pr_log (rs i))(k := []),
          pr_asleep := (pr_asleep (rs i))(k := None)\<rparr>)) = Ret r'"
    by auto
  have t: "pr_state r' = t" using r' by (cases y) auto
  have "call_pubsub i (PubSubChannel_lock_subscriber SUBS) (psm_of d rs) =
      (Some (Ret (y, [])), psm_of d (rs(i := r')))"
    unfolding PubSubChannel_lock_subscriber_def
    by (rule call_pubsub_lock [OF assms(1)]) (simp add: p t)
  note call = this
  show ?thesis
  proof (cases y)
    case (Ok s)
    define x where "x = (let h = \<lparr>sh_channel = i, sh_sub = s\<rparr> in
      if dyn then DynamicSubscriber (DynSubscriber h) else StaticSubscriber (Subscriber h))"
    show ?thesis
      by (rule made [of x s])
        (use Ok r' call in \<open>auto simp: x_def Let_def PubSubChannel_make_subscriber_def PubSubChannel_dyn_subscriber_def\<close>)
  next
    case (Err e)
    show ?thesis
      by (rule full)
        (use Err r' call in \<open>auto simp: PubSubChannel_make_subscriber_def PubSubChannel_dyn_subscriber_def\<close>)
  qed
qed

lemma new_publisher_call:
  assumes "d < 2 ^ 32 - 1" "pubsub_exec L SUBS PUBS (rs i) OpNewPublisher = Some (Ret r')"
  obtains
    (full) "new_publisher PUBS dyn i (psm_of d rs) = (Some (Ret None), psm_of d (rs(i := r')))"
      "pr_subs r' = pr_subs (rs i)" "pr_log r' = pr_log (rs i)" "pr_publishers r' = pr_publishers (rs i)"
  | (made) p where "new_publisher PUBS dyn i (psm_of d rs) = (Some (Ret (Some p)), psm_of d (rs(i := r')))"
      "pub_of p = Pub i" "pr_subs r' = pr_subs (rs i)" "pr_log r' = pr_log (rs i)"
      "pr_publishers r' = Suc (pr_publishers (rs i))"
proof -
  from assms(2) obtain y t where p: "PubSubChannel_publisher PUBS (pr_state (rs i)) = Ret (y, t)"
    and r': "(case y of Err _ \<Rightarrow> Ret ((rs i)\<lparr>pr_state := t\<rparr>)
      | Ok _ \<Rightarrow> Ret ((rs i)\<lparr>pr_state := t, pr_publishers := Suc (pr_publishers (rs i))\<rparr>)) = Ret r'"
    by auto
  have t: "pr_state r' = t" using r' by (cases y) auto
  have "call_pubsub i (PubSubChannel_lock_publisher PUBS) (psm_of d rs) =
      (Some (Ret (y, [])), psm_of d (rs(i := r')))"
    unfolding PubSubChannel_lock_publisher_def
    by (rule call_pubsub_lock [OF assms(1)]) (simp add: p t)
  note call = this
  show ?thesis
  proof (cases y)
    case (Ok s)
    define p where "p = (if dyn then DynamicPublisher (DynPublisher (Pub i)) else StaticPublisher (Publisher (Pub i)))"
    show ?thesis
      by (rule made [of p])
        (use Ok r' call in \<open>auto simp: p_def PubSubChannel_make_publisher_def PubSubChannel_dyn_publisher_def\<close>)
  next
    case (Err e)
    show ?thesis
      by (rule full)
        (use Err r' call in \<open>auto simp: PubSubChannel_make_publisher_def PubSubChannel_dyn_publisher_def\<close>)
  qed
qed

lemma users_hold_read:
  assumes "users_hold d u rs" "psu_subs u k = Some x" "i = sh_channel (sub_of x)"
    "pr_subs r' = (pr_subs (rs i))(k \<mapsto> s)" "pr_log r' = (pr_log (rs i))(k := pr_log (rs i) k @ read_result v)"
    "pr_publishers r' = pr_publishers (rs i)" "h = (sub_of x)\<lparr>sh_sub := s\<rparr>"
  shows "users_hold d (hear k x h v (u\<lparr>psu_mem := psm_of d (rs(i := r'))\<rparr>)) (rs(i := r'))"
proof (rule users_holdI)
  fix j
  show "pr_subs ((rs(i := r')) j) = subs_at (psu_subs (hear k x h v (u\<lparr>psu_mem := psm_of d (rs(i := r'))\<rparr>))) j"
    using assms users_holdD(2) [OF assms(1)] by (simp add: hear_def subs_at_upd subs_at_other)
qed (use assms users_holdD [OF assms(1)] users_hold_told [OF assms(1)] in \<open>auto simp: hear_def split: if_splits\<close>)

lemma users_hold_subscribe:
  assumes "users_hold d u rs" "psu_subs u k = None" "sub_of x = \<lparr>sh_channel = i, sh_sub = s\<rparr>"
    "pr_subs r' = (pr_subs (rs i))(k \<mapsto> s)" "pr_log r' = (pr_log (rs i))(k := [])"
    "pr_publishers r' = pr_publishers (rs i)"
  shows "users_hold d (u\<lparr>psu_mem := psm_of d (rs(i := r')), psu_subs := (psu_subs u)(k \<mapsto> x),
    psu_told := (psu_told u)(k := [])\<rparr>) (rs(i := r'))"
proof (rule users_holdI)
  fix j
  show "pr_subs ((rs(i := r')) j) = subs_at (psu_subs (u\<lparr>psu_mem := psm_of d (rs(i := r')),
      psu_subs := (psu_subs u)(k \<mapsto> x), psu_told := (psu_told u)(k := [])\<rparr>)) j"
    using assms users_holdD(2) [OF assms(1)] by (simp add: subs_at_upd subs_at_other)
qed (use assms users_holdD [OF assms(1)] users_hold_told [OF assms(1)] in \<open>auto split: if_splits\<close>)

lemma users_hold_unsubscribe:
  assumes "users_hold d u rs" "psu_subs u k = Some x" "i = sh_channel (sub_of x)"
    "pr_subs r' = (pr_subs (rs i))(k := None)" "pr_log r' = pr_log (rs i)"
    "pr_publishers r' = pr_publishers (rs i)"
  shows "users_hold d (u\<lparr>psu_mem := psm_of d (rs(i := r')), psu_subs := (psu_subs u)(k := None)\<rparr>) (rs(i := r'))"
proof (rule users_holdI)
  fix j
  show "pr_subs ((rs(i := r')) j) = subs_at (psu_subs (u\<lparr>psu_mem := psm_of d (rs(i := r')),
      psu_subs := (psu_subs u)(k := None)\<rparr>)) j"
    using assms users_holdD(2) [OF assms(1)] by (simp add: subs_at_upd subs_at_other)
qed (use assms users_holdD [OF assms(1)] users_hold_told [OF assms(1)] in \<open>auto split: if_splits\<close>)

lemma pubs_at_upd:
  "m k = None \<Longrightarrow> pubs_at (m(k \<mapsto> p)) i = (if pub_channel (pub_of p) = i then insert k (pubs_at m i) else pubs_at m i)"
  "pubs_at (m(k := None)) i = pubs_at m i - {k}"
  by (auto simp: pubs_at_def)

lemma finite_pubs_at: "finite (dom m) \<Longrightarrow> finite (pubs_at m i)"
  by (rule finite_subset [of _ "dom m"]) (auto simp: pubs_at_def)

lemma users_hold_new_publisher:
  assumes "users_hold d u rs" "psu_pubs u k = None" "pub_of p = Pub i" "pr_subs r' = pr_subs (rs i)"
    "pr_log r' = pr_log (rs i)" "pr_publishers r' = Suc (pr_publishers (rs i))"
  shows "users_hold d (u\<lparr>psu_mem := psm_of d (rs(i := r')), psu_pubs := (psu_pubs u)(k \<mapsto> p)\<rparr>) (rs(i := r'))"
proof (rule users_holdI)
  fix j
  have "k \<notin> pubs_at (psu_pubs u) i" using assms(2) by (simp add: pubs_at_def)
  then show "pr_publishers ((rs(i := r')) j) = card (pubs_at (psu_pubs (u\<lparr>psu_mem := psm_of d (rs(i := r')),
      psu_pubs := (psu_pubs u)(k \<mapsto> p)\<rparr>)) j)"
    using assms users_holdD(4,5) [OF assms(1)] by (cases "j = i") (simp_all add: pubs_at_upd finite_pubs_at)
qed (use assms users_holdD [OF assms(1)] users_hold_told [OF assms(1)] in \<open>auto\<close>)

lemma users_hold_drop_publisher:
  assumes "users_hold d u rs" "psu_pubs u k = Some p" "i = pub_channel (pub_of p)" "pr_subs r' = pr_subs (rs i)"
    "pr_log r' = pr_log (rs i)" "pr_publishers r' = pr_publishers (rs i) - 1"
  shows "users_hold d (u\<lparr>psu_mem := psm_of d (rs(i := r')), psu_pubs := (psu_pubs u)(k := None)\<rparr>) (rs(i := r'))"
proof (rule users_holdI)
  fix j
  have "k \<in> pubs_at (psu_pubs u) j \<longleftrightarrow> j = i" using assms(2,3) by (auto simp: pubs_at_def)
  then show "pr_publishers ((rs(i := r')) j) = card (pubs_at (psu_pubs (u\<lparr>psu_mem := psm_of d (rs(i := r')),
      psu_pubs := (psu_pubs u)(k := None)\<rparr>)) j)"
    using assms users_holdD(4,5) [OF assms(1)] by (cases "j = i") (simp_all add: pubs_at_upd finite_pubs_at)
qed (use assms users_holdD [OF assms(1)] users_hold_told [OF assms(1)] in \<open>auto\<close>)

lemma dropped_publisher_counted:
  assumes "users_hold d u rs" "psu_pubs u k = Some p"
  shows "pr_publishers (rs (pub_channel (pub_of p))) \<noteq> 0"
proof -
  have "k \<in> pubs_at (psu_pubs u) (pub_channel (pub_of p))" using assms(2) by (simp add: pubs_at_def)
  then show ?thesis
    using users_holdD(4,5) [OF assms(1)] finite_pubs_at by (metis card_0_eq empty_iff)
qed

text \<open>The calls that read, and the ones that publish through some handle.\<close>

lemma read_call_ok:
  assumes "d < 2 ^ 32 - 1" "users_hold d u rs" "psu_subs u k = Some x" "i = sh_channel (sub_of x)"
    and "pubsub_exec L SUBS PUBS (rs i) (OpRead k cx) = Some (Ret r')"
    and "\<And>r n ws. call_pubsub i (PubSubChannel_lock_get_message L (sub_next_message_id (sh_sub (sub_of x))) cx)
          (psu_mem u) = (Some (Ret ((r, n), ws)), psm_of d (rs(i := r'))) \<Longrightarrow>
        pubsub_call_exec L SUBS PUBS c u = Some (Ret (hear k x ((sub_of x)\<lparr>sh_sub := \<lparr>sub_next_message_id = n\<rparr>\<rparr>)
          (poll_value r) (u\<lparr>psu_mem := psm_of d (rs(i := r'))\<rparr>)))"
  shows "pubsub_call_ok L SUBS PUBS d c u rs"
proof -
  have s: "pr_subs (rs i) k = Some (sh_sub (sub_of x))"
    using users_holdD(2) [OF assms(2)] subs_at_self [where m = "psu_subs u" and k = k, OF assms(3)] assms(4) by simp
  from read_call [where rs = rs and i = i, OF assms(1) s assms(5)] obtain r n ws where
    r: "call_pubsub i (PubSubChannel_lock_get_message L (sub_next_message_id (sh_sub (sub_of x))) cx) (psm_of d rs) =
       (Some (Ret ((r, n), ws)), psm_of d (rs(i := r')))"
    "pr_subs r' = (pr_subs (rs i))(k \<mapsto> \<lparr>sub_next_message_id = n\<rparr>)"
    "pr_log r' = (pr_log (rs i))(k := pr_log (rs i) k @ read_result (poll_value r))"
    "pr_publishers r' = pr_publishers (rs i)" .
  show ?thesis
    by (rule pubsub_call_okI [where rs = rs, OF assms(6) users_hold_read [where rs = rs, OF assms(2-4) r(2-4) refl] assms(5)])
      (use r(1) users_holdD(1) [OF assms(2)] in simp)
qed

lemma publish_call_ok:
  assumes "d < 2 ^ 32 - 1" "users_hold d u rs" "pubsub_exec L SUBS PUBS (rs i) (OpPublish m cx) = Some (Ret r')"
    and "\<And>x ws. call_pubsub i (PubSubChannel_lock_publish L m cx) (psu_mem u) =
          (Some (Ret (x, ws)), psm_of d (rs(i := r'))) \<Longrightarrow>
        pubsub_call_exec L SUBS PUBS c u =
          Some (Ret (u\<lparr>psu_mem := psm_of d (rs(i := r')), psu_futures := fs x\<rparr>))"
    and "\<And>x f w. fs x f = Some w \<Longrightarrow> pwf_message w \<noteq> None"
  shows "pubsub_call_ok L SUBS PUBS d c u rs"
  using assms(1,3)
proof (rule publish_call)
  fix x ws
  assume c: "call_pubsub i (PubSubChannel_lock_publish L m cx) (psm_of d rs) =
      (Some (Ret (x, ws)), psm_of d (rs(i := r')))"
    and f: "pr_subs r' = pr_subs (rs i)" "pr_log r' = pr_log (rs i)" "pr_publishers r' = pr_publishers (rs i)"
  from c have c': "call_pubsub i (PubSubChannel_lock_publish L m cx) (psu_mem u) =
      (Some (Ret (x, ws)), psm_of d (rs(i := r')))" by (simp only: users_holdD(1) [OF assms(2)])
  show ?thesis
    by (rule pubsub_call_okI [where rs = rs, OF assms(4) [OF c'] users_hold_same [where rs = rs and i = i, OF assms(2) f refl assms(5)] assms(3)])
qed

lemma publish_immediate_call_ok:
  assumes "d < 2 ^ 32 - 1" "users_hold d u rs"
    and "pubsub_exec L SUBS PUBS (rs i) (OpPublishImmediate m) = Some (Ret r')"
    and "\<And>ws. call_pubsub i (PubSubChannel_lock_publish_immediate L m) (psu_mem u) =
          (Some (Ret ((), ws)), psm_of d (rs(i := r'))) \<Longrightarrow>
        pubsub_call_exec L SUBS PUBS c u = Some (Ret (u\<lparr>psu_mem := psm_of d (rs(i := r'))\<rparr>))"
  shows "pubsub_call_ok L SUBS PUBS d c u rs"
  using assms(1,3)
proof (rule publish_immediate_call)
  fix ws
  assume c: "call_pubsub i (PubSubChannel_lock_publish_immediate L m) (psm_of d rs) =
      (Some (Ret ((), ws)), psm_of d (rs(i := r')))"
    and f: "pr_subs r' = pr_subs (rs i)" "pr_log r' = pr_log (rs i)" "pr_publishers r' = pr_publishers (rs i)"
  from c have c': "call_pubsub i (PubSubChannel_lock_publish_immediate L m) (psu_mem u) =
      (Some (Ret ((), ws)), psm_of d (rs(i := r')))" by (simp only: users_holdD(1) [OF assms(2)])
  have "users_hold d (u\<lparr>psu_mem := psm_of d (rs(i := r'))\<rparr>) (rs(i := r'))"
    by (rule users_hold_same [where rs = rs and i = i, OF assms(2) f, where fs = "psu_futures u"])
      (use users_holdD(6) [OF assms(2)] in \<open>auto simp: pubsub_users.defs\<close>)
  from pubsub_call_okI [where rs = rs, OF assms(4) [OF c'] this assms(3)] show ?thesis .
qed

lemma immediate_of_channel [simp]: "immediate_channel (immediate_of dyn i) = i"
  by (simp add: PubSubChannel_dyn_immediate_publisher_def PubSubChannel_immediate_publisher_def)

lemma set_same_mem: "users_hold d u rs \<Longrightarrow> u\<lparr>psu_mem := psm_of d rs\<rparr> = u"
  by (cases u) (simp add: users_hold_def)

lemma set_same_futures: "u\<lparr>psu_mem := M, psu_futures := psu_futures u\<rparr> = u\<lparr>psu_mem := M\<rparr>"
  by simp

context pubsub_laws
begin

lemma pubsub_call_exec_step:
  fixes rs :: "nat \<Rightarrow> ('q, 'v, 'w, 'a) pubsub_run"
  assumes d: "d < 2 ^ 32 - 1" and hold: "users_hold d u rs"
    and inv: "\<And>i. pubsub_inv (rs i)" "\<And>i. length (pr_published (rs i)) < u64_max"
  shows "pubsub_call_ok L SUBS PUBS d c u rs"
proof -
  have step: "\<exists>r'. pubsub_exec L SUBS PUBS (rs i) x = Some (Ret r')" for i x
    using exec_step [OF inv(1,2)] by blast
  note mem = users_holdD(1) [OF hold] and fut = users_holdD(6) [OF hold]
  have fut': "psu_futures u f = Some w \<Longrightarrow> pwf_message w \<noteq> None" for f w
    using fut by blast
  show ?thesis
  proof (cases c)
    case (NewSubscriber k i dyn)
    show ?thesis
    proof (cases "psu_subs u k")
      case None
      then have n: "pr_subs (rs i) k = None" using users_holdD(2) [OF hold] by (simp add: subs_at_def)
      obtain r' where r': "pubsub_exec L SUBS PUBS (rs i) (OpSubscribe k) = Some (Ret r')" using step by blast
      show ?thesis
      proof (rule new_subscriber_call [where rs = rs and i = i and dyn = dyn, OF d n r'])
        assume call: "new_subscriber SUBS dyn i (psm_of d rs) = (Some (Ret None), psm_of d (rs(i := r')))"
          and f: "pr_subs r' = pr_subs (rs i)" "pr_log r' = pr_log (rs i)" "pr_publishers r' = pr_publishers (rs i)"
        show ?thesis
          by (rule pubsub_call_okI [where rs = rs, OF _ users_hold_same [where rs = rs and fs = "psu_futures u", OF hold f refl fut'] r'])
            (simp add: NewSubscriber None mem call del: new_subscriber.simps)
      next
        fix x s
        assume call: "new_subscriber SUBS dyn i (psm_of d rs) = (Some (Ret (Some x)), psm_of d (rs(i := r')))"
          and f: "sub_of x = \<lparr>sh_channel = i, sh_sub = s\<rparr>" "pr_subs r' = (pr_subs (rs i))(k \<mapsto> s)"
            "pr_log r' = (pr_log (rs i))(k := [])" "pr_publishers r' = pr_publishers (rs i)"
        show ?thesis
          by (rule pubsub_call_okI [where rs = rs, OF _ users_hold_subscribe [where rs = rs, OF hold None f] r'])
            (simp add: NewSubscriber None mem call del: new_subscriber.simps)
      qed
    qed (use NewSubscriber hold in \<open>auto intro: pubsub_call_ok_idle\<close>)
  next
    case (NewPublisher k i dyn)
    show ?thesis
    proof (cases "psu_pubs u k")
      case None
      obtain r' where r': "pubsub_exec L SUBS PUBS (rs i) OpNewPublisher = Some (Ret r')" using step by blast
      show ?thesis
      proof (rule new_publisher_call [where rs = rs and i = i and dyn = dyn, OF d r'])
        assume call: "new_publisher PUBS dyn i (psm_of d rs) = (Some (Ret None), psm_of d (rs(i := r')))"
          and f: "pr_subs r' = pr_subs (rs i)" "pr_log r' = pr_log (rs i)" "pr_publishers r' = pr_publishers (rs i)"
        show ?thesis
          by (rule pubsub_call_okI [where rs = rs, OF _ users_hold_same [where rs = rs and fs = "psu_futures u", OF hold f refl fut'] r'])
            (simp add: NewPublisher None mem call del: new_publisher.simps)
      next
        fix p
        assume call: "new_publisher PUBS dyn i (psm_of d rs) = (Some (Ret (Some p)), psm_of d (rs(i := r')))"
          and f: "pub_of p = Pub i" "pr_subs r' = pr_subs (rs i)" "pr_log r' = pr_log (rs i)"
            "pr_publishers r' = Suc (pr_publishers (rs i))"
        show ?thesis
          by (rule pubsub_call_okI [where rs = rs, OF _ users_hold_new_publisher [where rs = rs, OF hold None f] r'])
            (simp add: NewPublisher None mem call del: new_publisher.simps)
      qed
    qed (use NewPublisher hold in \<open>auto intro: pubsub_call_ok_idle\<close>)
  next
    case (ReadMessage k)
    show ?thesis
    proof (cases "psu_subs u k")
      case (Some x)
      obtain r' where r': "pubsub_exec L SUBS PUBS (rs (sh_channel (sub_of x))) (OpRead k None) = Some (Ret r')"
        using step by blast
      show ?thesis
        by (rule read_call_ok [where rs = rs, OF d hold Some refl r'])
          (simp_all add: ReadMessage Some Sub_try_next_message_in_def Sub_get_message_def)
    qed (use ReadMessage hold in \<open>auto intro: pubsub_call_ok_idle\<close>)
  next
    case (AwaitMessage k cx)
    show ?thesis
    proof (cases "psu_subs u k")
      case (Some x)
      obtain r' where r': "pubsub_exec L SUBS PUBS (rs (sh_channel (sub_of x))) (OpRead k (Some cx)) = Some (Ret r')"
        using step by blast
      show ?thesis
        by (rule read_call_ok [where rs = rs, OF d hold Some refl r'])
          (simp_all add: AwaitMessage Some SubscriberWaitFuture_poll_in_def Sub_get_message_def)
    qed (use AwaitMessage hold in \<open>auto intro: pubsub_call_ok_idle\<close>)
  next
    case (DropSubscriber k)
    show ?thesis
    proof (cases "psu_subs u k")
      case (Some x)
      let ?i = "sh_channel (sub_of x)"
      have s: "pr_subs (rs ?i) k = Some (sh_sub (sub_of x))"
        using users_holdD(2) [OF hold] subs_at_self [where m = "psu_subs u" and k = k, OF Some] by simp
      obtain r' where r': "pubsub_exec L SUBS PUBS (rs ?i) (OpUnsubscribe k) = Some (Ret r')"
        using step by blast
      show ?thesis
        by (rule drop_subscriber_call [where rs = rs and i = ?i, OF d s r'],
            rule pubsub_call_okI [where rs = rs, OF _ users_hold_unsubscribe [where rs = rs, OF hold Some refl] r'])
          (simp_all add: DropSubscriber Some Sub_drop_in_def mem)
    qed (use DropSubscriber hold in \<open>auto intro: pubsub_call_ok_idle\<close>)
  next
    case (DropPublisher k)
    show ?thesis
    proof (cases "psu_pubs u k")
      case (Some p)
      let ?i = "pub_channel (pub_of p)"
      obtain r' where r': "pubsub_exec L SUBS PUBS (rs ?i) OpDropPublisher = Some (Ret r')"
        using step by blast
      note call = drop_publisher_call [where rs = rs and i = ?i, OF d dropped_publisher_counted [OF hold Some] r']
      show ?thesis
        by (rule pubsub_call_okI [where rs = rs, OF _ users_hold_drop_publisher [where rs = rs, OF hold Some refl call(2-4)] r'])
          (simp add: DropPublisher Some Pub_drop_in_def mem call(1))
    qed (use DropPublisher hold in \<open>auto intro: pubsub_call_ok_idle\<close>)
  next
    case (PublishTry k m)
    show ?thesis
    proof (cases "psu_pubs u k")
      case (Some p)
      obtain r' where r': "pubsub_exec L SUBS PUBS (rs (pub_channel (pub_of p))) (OpPublish m None) = Some (Ret r')"
        using step by blast
      show ?thesis
        by (rule publish_call_ok [where rs = rs and fs = "\<lambda>_. psu_futures u", OF d hold r' _ fut'])
          (simp_all add: PublishTry Some Pub_try_publish_in_def set_same_futures)
    qed (use PublishTry hold in \<open>auto intro: pubsub_call_ok_idle\<close>)
  next
    case (PublishNow k m)
    show ?thesis
    proof (cases "psu_pubs u k")
      case (Some p)
      obtain r' where r': "pubsub_exec L SUBS PUBS (rs (pub_channel (pub_of p))) (OpPublishImmediate m) = Some (Ret r')"
        using step by blast
      show ?thesis
        by (rule publish_immediate_call_ok [where rs = rs, OF d hold r'])
          (simp_all add: PublishNow Some Pub_publish_immediate_in_def)
    qed (use PublishNow hold in \<open>auto intro: pubsub_call_ok_idle\<close>)
  next
    case (ImmediateTry i dyn m)
    obtain r' where r': "pubsub_exec L SUBS PUBS (rs i) (OpPublish m None) = Some (Ret r')"
      using step by blast
    show ?thesis
      by (rule publish_call_ok [where rs = rs and fs = "\<lambda>_. psu_futures u", OF d hold r' _ fut'])
        (simp_all add: ImmediateTry ImmediatePub_try_publish_def set_same_futures del: immediate_of.simps)
  next
    case (ImmediateNow i dyn m)
    obtain r' where r': "pubsub_exec L SUBS PUBS (rs i) (OpPublishImmediate m) = Some (Ret r')"
      using step by blast
    show ?thesis
      by (rule publish_immediate_call_ok [where rs = rs, OF d hold r'])
        (simp_all add: ImmediateNow ImmediatePub_publish_immediate_def del: immediate_of.simps)
  next
    case (PublishStart f k m)
    show ?thesis
    proof (cases "psu_pubs u k")
      case (Some p)
      have "users_hold d (u\<lparr>psu_futures := (psu_futures u)(f \<mapsto> Pub_publish (pub_of p) m)\<rparr>) rs"
        using hold by (auto simp: users_hold_def Pub_publish_def)
      with PublishStart Some show ?thesis by (intro pubsub_call_ok_idle) auto
    qed (use PublishStart hold in \<open>auto intro: pubsub_call_ok_idle\<close>)
  next
    case (PublishDrop f)
    have "users_hold d (u\<lparr>psu_futures := (psu_futures u)(f := None)\<rparr>) rs"
      using hold by (auto simp: users_hold_def)
    with PublishDrop show ?thesis by (intro pubsub_call_ok_idle) auto
  next
    case (PublishPoll f cx)
    show ?thesis
    proof (cases "psu_futures u f")
      case (Some w)
      obtain m where m: "pwf_message w = Some m" using fut [OF Some] by blast
      obtain r' where r': "pubsub_exec L SUBS PUBS (rs (pub_channel (pwf_publisher w))) (OpPublish m (Some cx)) =
          Some (Ret r')" using step by blast
      let ?fs = "\<lambda>x. (psu_futures u)(f := (case x of Ok _ \<Rightarrow> None | Err m \<Rightarrow> Some (w\<lparr>pwf_message := Some m\<rparr>)))"
      have fs: "?fs x g = Some w' \<Longrightarrow> pwf_message w' \<noteq> None" for x g w'
        using fut' by (auto split: if_splits result.splits)
      show ?thesis
        by (rule publish_call_ok [where rs = rs and fs = ?fs, OF d hold r' _ fs])
          (auto simp: PublishPoll Some m PublisherWaitFuture_poll_in_def split: result.split)
    qed (use PublishPoll hold in \<open>auto intro: pubsub_call_ok_idle\<close>)
  next
    case (AskAvailable k)
    show ?thesis
    proof (cases "psu_subs u k")
      case (Some x)
      let ?i = "sh_channel (sub_of x)"
      have i: "run_inv (rs ?i)" "subs_inv (rs ?i)" using inv(1) [of ?i] by (simp_all add: pubsub_inv_def)
      have "pr_subs (rs ?i) k = Some (sh_sub (sub_of x))"
        using users_holdD(2) [OF hold] subs_at_self [where m = "psu_subs u" and k = k, OF Some] by simp
      from subs_invD(1) [OF i(2) this] run_invD(2) [OF i(1)]
      have a: "sub_next_message_id (sh_sub (sub_of x)) \<le> pss_next_message_id (pr_state (rs ?i))" by simp
      have "pubsub_call_exec L SUBS PUBS c u = Some (Ret (u\<lparr>psu_mem := psm_of d rs\<rparr>))"
        using a by (simp add: AskAvailable Some Sub_available_in_def PubSubChannel_peek_available_def mem
            call_pubsub_peek [OF d] PubSubChannel_available_def)
      with hold show ?thesis by (intro pubsub_call_ok_idle) (simp_all add: set_same_mem [OF hold])
    qed (use AskAvailable hold in \<open>auto intro: pubsub_call_ok_idle\<close>)
  next
    case (AskSpace i)
    have "state_ok (pr_state (rs i))" using inv(1) [of i] by (simp add: pubsub_inv_def run_inv_def)
    then have "dq_inv (pss_queue (pr_state (rs i)))" by (simp add: state_ok_def)
    note q = dq.len [OF this] dq.capacity [OF this] dq.bounded [OF this]
    have "pubsub_call_exec L SUBS PUBS c u = Some (Ret (u\<lparr>psu_mem := psm_of d rs\<rparr>))"
      using q by (simp add: AskSpace ImmediatePub_space_def PubSubChannel_peek_space_def mem
          call_pubsub_peek [OF d] PubSubChannel_space_def del: immediate_of.simps)
    with hold show ?thesis by (intro pubsub_call_ok_idle) (simp_all add: set_same_mem [OF hold])
  qed
qed

end

text \<open>Families of runs in which each channel has its own sequence of at most \<open>n\<close> atomic operations.\<close>

definition pubsub_runs where
  "pubsub_runs L SUBS PUBS n rs \<longleftrightarrow> (\<forall>i. \<exists>ops. length ops \<le> n \<and>
     pubsub_exec_all L SUBS PUBS ops (pubsub_run_init L) = Some (Ret (rs i)))"

lemma pubsub_exec_all_snoc:
  assumes "pubsub_exec_all L SUBS PUBS ops r = Some (Ret r1)" "pubsub_exec L SUBS PUBS r1 x = Some (Ret r2)"
  shows "pubsub_exec_all L SUBS PUBS (ops @ [x]) r = Some (Ret r2)"
  using assms(1)
proof (induction ops arbitrary: r)
  case Nil
  with assms(2) show ?case by (simp del: pubsub_exec.simps)
next
  case (Cons y ops)
  then show ?case by (auto simp del: pubsub_exec.simps)
qed

lemma pubsub_runs_step:
  assumes "pubsub_runs L SUBS PUBS n rs"
    and "rs' = rs \<or> (\<exists>i op r'. pubsub_exec L SUBS PUBS (rs i) op = Some (Ret r') \<and> rs' = rs(i := r'))"
  shows "pubsub_runs L SUBS PUBS (Suc n) rs'"
  unfolding pubsub_runs_def
proof
  fix j
  obtain ops where ops: "length ops \<le> n"
    "pubsub_exec_all L SUBS PUBS ops (pubsub_run_init L) = Some (Ret (rs j))"
    using assms(1) by (auto simp: pubsub_runs_def)
  show "\<exists>ops. length ops \<le> Suc n \<and> pubsub_exec_all L SUBS PUBS ops (pubsub_run_init L) = Some (Ret (rs' j))"
  proof (cases "rs' j = rs j")
    case True
    with ops show ?thesis by (auto intro: exI [of _ ops])
  next
    case False
    with assms(2) obtain op where "pubsub_exec L SUBS PUBS (rs j) op = Some (Ret (rs' j))"
      by (auto split: if_splits simp del: pubsub_exec.simps)
    from pubsub_exec_all_snoc [OF ops(2) this] ops(1) show ?thesis by (intro exI [of _ "ops @ [op]"]) simp
  qed
qed

context pubsub_laws
begin

lemma pubsub_runs_inv:
  fixes rs :: "nat \<Rightarrow> ('q, 'v, 'w, 'a) pubsub_run"
  assumes "pubsub_runs L SUBS PUBS n rs" "n \<le> u64_max"
  shows "pubsub_inv (rs i)" "length (pr_published (rs i)) \<le> n"
proof -
  obtain ops where ops: "length ops \<le> n"
    "pubsub_exec_all L SUBS PUBS ops (pubsub_run_init L) = Some (Ret (rs i))"
    using assms(1) by (auto simp: pubsub_runs_def)
  from exec_all_inv [OF init_inv, of ops] ops assms(2)
  show "pubsub_inv (rs i)" "length (pr_published (rs i)) \<le> n" by (auto simp: pubsub_run_init_def)
qed

lemma pubsub_call_execs_runs:
  fixes rs :: "nat \<Rightarrow> ('q, 'v, 'w, 'a) pubsub_run"
  assumes d: "d < 2 ^ 32 - 1"
  shows "users_hold d u rs \<Longrightarrow> pubsub_runs L SUBS PUBS n rs \<Longrightarrow> n + length cs \<le> u64_max \<Longrightarrow>
    \<exists>u' rs'. pubsub_call_execs L SUBS PUBS cs u = Some (Ret u') \<and> users_hold d u' rs' \<and>
      pubsub_runs L SUBS PUBS (n + length cs) rs'"
proof (induction cs arbitrary: u rs n)
  case (Cons c cs)
  note inv = pubsub_runs_inv [OF Cons.prems(2)]
  have "pubsub_inv (rs i)" "length (pr_published (rs i)) < u64_max" for i
    using inv [of i] Cons.prems(3) by simp_all
  from pubsub_call_exec_step [OF d Cons.prems(1) this, of c] obtain u1 rs1 where
    1: "pubsub_call_exec L SUBS PUBS c u = Some (Ret u1)" "users_hold d u1 rs1"
    and "rs1 = rs \<or> (\<exists>i op r'. pubsub_exec L SUBS PUBS (rs i) op = Some (Ret r') \<and> rs1 = rs(i := r'))"
    unfolding pubsub_call_ok_def by blast
  note runs = pubsub_runs_step [OF Cons.prems(2) this(3)]
  have "Suc n + length cs \<le> u64_max" using Cons.prems(3) by simp
  from Cons.IH [OF 1(2) runs this] 1(1) show ?case by (auto simp del: pubsub_call_exec.simps)
qed auto

end

lemma users_hold_new: "users_hold d (pubsub_users_new L d) (\<lambda>_. pubsub_run_init L)"
  by (auto simp: users_hold_def pubsub_users_new_def psm_of_def pubsub_run_init_def PubSubChannel_new_def
      cell_of_def subs_at_def pubs_at_def fun_eq_iff)


lemmas pubsub_handle_eval = pubsub_eval pubsub_users_new_def PubSubChannel_new_def call_pubsub_def
  PubSubChannel_lock_def PubSubChannel_lock_subscriber_def PubSubChannel_lock_get_message_def
  PubSubChannel_lock_publish_immediate_def PubSubChannel_make_subscriber_def Sub_try_next_message_in_def
  Sub_get_message_def ImmediatePub_publish_immediate_def PubSubChannel_dyn_immediate_publisher_def hear_def
  BlockingMutex_lock_def CriticalSectionRawMutex_lock_def critical_section_with_def Section_acquire_def
  Section_release_def in_sections_def BlockingMutex_new_def RefCell_new_def RefCell_borrow_mut_def
  RefCell_try_borrow_mut_def RefMut_drop_def PubSubChannel_dyn_subscriber_def

definition example_pubsub_calls :: "nat pubsub_call list" where
  "example_pubsub_calls = [NewSubscriber 0 7 False, ImmediateNow 7 True 5, ReadMessage 0]"


end
