(* ===== verification/Tricore.thy ===== *)
theory Tricore
  imports Rust_Prelude
begin

unbundle bit_operations_syntax

text \<open>
  The part of the TriCore architecture that the assembly of \<open>src/src/runtime.rs\<close> uses: address and data
  registers, byte memory (little endian), the core registers, and one function per instruction.  A
  \<open>call\<close> saves the upper context (A10 to A15, D8 to D15, PSW) and the return restores it; the
  memory in which the core keeps saved contexts is private to it and not part of \<open>mem\<close>.  A loop that never
  ends is \<open>None\<close>.  Traps (alignment, protection) are not modelled.
\<close>

type_synonym u32 = "32 word"
type_synonym byte_memory = "u32 \<Rightarrow> 8 word"

record tricore =
  areg :: "nat \<Rightarrow> u32"
  dreg :: "nat \<Rightarrow> u32"
  mem :: byte_memory
  psw :: u32
  pcxi :: u32
  fcx :: u32
  lcx :: u32
  isp :: u32
  btv :: u32
  biv :: u32
  core_id :: u32

section \<open>Memory\<close>

definition byte_of :: "nat \<Rightarrow> u32 \<Rightarrow> 8 word" where
  "byte_of k w = ucast (drop_bit (8 * k) w)"

definition load_word :: "byte_memory \<Rightarrow> u32 \<Rightarrow> u32" where
  "load_word m a = ucast (m a) OR push_bit 8 (ucast (m (a + 1))) OR push_bit 16 (ucast (m (a + 2)))
     OR push_bit 24 (ucast (m (a + 3)))"

definition store_word :: "u32 \<Rightarrow> u32 \<Rightarrow> byte_memory \<Rightarrow> byte_memory" where
  "store_word a w m = m(a := byte_of 0 w, a + 1 := byte_of 1 w, a + 2 := byte_of 2 w, a + 3 := byte_of 3 w)"

text \<open>Membership of an address in a region of \<open>n\<close> bytes from \<open>b\<close>; a region may wrap around.\<close>

definition in_region :: "u32 \<Rightarrow> u32 \<Rightarrow> nat \<Rightarrow> bool" where
  "in_region a b n \<longleftrightarrow> unat (a - b) < n"

definition region :: "u32 \<Rightarrow> nat \<Rightarrow> u32 set" where
  "region b n = {a. in_region a b n}"

section \<open>Instructions\<close>

definition set_a :: "nat \<Rightarrow> u32 \<Rightarrow> tricore \<Rightarrow> tricore" where
  "set_a r v s = s\<lparr>areg := (areg s)(r := v)\<rparr>"

definition set_d :: "nat \<Rightarrow> u32 \<Rightarrow> tricore \<Rightarrow> tricore" where
  "set_d r v s = s\<lparr>dreg := (dreg s)(r := v)\<rparr>"

definition mov_a :: "nat \<Rightarrow> nat \<Rightarrow> tricore \<Rightarrow> tricore" where "mov_a a d s = set_a a (dreg s d) s"
definition mov_aa :: "nat \<Rightarrow> nat \<Rightarrow> tricore \<Rightarrow> tricore" where "mov_aa a b s = set_a a (areg s b) s"
definition mov_d :: "nat \<Rightarrow> nat \<Rightarrow> tricore \<Rightarrow> tricore" where "mov_d d a s = set_d d (areg s a) s"
definition mov_dd :: "nat \<Rightarrow> nat \<Rightarrow> tricore \<Rightarrow> tricore" where "mov_dd d e s = set_d d (dreg s e) s"
definition mov_e0 :: "nat \<Rightarrow> tricore \<Rightarrow> tricore" where "mov_e0 d s = set_d (d + 1) 0 (set_d d 0 s)"
definition add_i :: "nat \<Rightarrow> u32 \<Rightarrow> tricore \<Rightarrow> tricore" where "add_i d i s = set_d d (dreg s d + i) s"
definition add_ai :: "nat \<Rightarrow> u32 \<Rightarrow> tricore \<Rightarrow> tricore" where "add_ai a i s = set_a a (areg s a + i) s"
definition add_aa :: "nat \<Rightarrow> nat \<Rightarrow> tricore \<Rightarrow> tricore" where
  "add_aa a b s = set_a a (areg s a + areg s b) s"
definition add_dd :: "nat \<Rightarrow> nat \<Rightarrow> nat \<Rightarrow> tricore \<Rightarrow> tricore" where
  "add_dd c a b s = set_d c (dreg s a + dreg s b) s"
definition and_i :: "nat \<Rightarrow> u32 \<Rightarrow> tricore \<Rightarrow> tricore" where "and_i d i s = set_d d (dreg s d AND i) s"
definition or_i :: "nat \<Rightarrow> u32 \<Rightarrow> tricore \<Rightarrow> tricore" where "or_i d i s = set_d d (dreg s d OR i) s"
definition andn_i :: "nat \<Rightarrow> u32 \<Rightarrow> tricore \<Rightarrow> tricore" where
  "andn_i d i s = set_d d (dreg s d AND NOT i) s"
definition and_dd :: "nat \<Rightarrow> nat \<Rightarrow> tricore \<Rightarrow> tricore" where
  "and_dd d e s = set_d d (dreg s d AND dreg s e) s"
definition or_dd :: "nat \<Rightarrow> nat \<Rightarrow> tricore \<Rightarrow> tricore" where
  "or_dd d e s = set_d d (dreg s d OR dreg s e) s"
definition mul_i :: "nat \<Rightarrow> u32 \<Rightarrow> tricore \<Rightarrow> tricore" where "mul_i d i s = set_d d (dreg s d * i) s"

text \<open>\<open>sh\<close> by a negative amount: a logical shift to the right.\<close>

definition sh_right :: "nat \<Rightarrow> nat \<Rightarrow> tricore \<Rightarrow> tricore" where
  "sh_right d k s = set_d d (drop_bit k (dreg s d)) s"

definition ld_w :: "nat \<Rightarrow> nat \<Rightarrow> u32 \<Rightarrow> tricore \<Rightarrow> tricore" where
  "ld_w d a off s = set_d d (load_word (mem s) (areg s a + off)) s"
definition ld_a :: "nat \<Rightarrow> nat \<Rightarrow> u32 \<Rightarrow> tricore \<Rightarrow> tricore" where
  "ld_a d a off s = set_a d (load_word (mem s) (areg s a + off)) s"
definition ld_w_inc :: "nat \<Rightarrow> nat \<Rightarrow> u32 \<Rightarrow> tricore \<Rightarrow> tricore" where
  "ld_w_inc d a k s = add_ai a k (ld_w d a 0 s)"
definition ld_b_inc :: "nat \<Rightarrow> nat \<Rightarrow> u32 \<Rightarrow> tricore \<Rightarrow> tricore" where
  "ld_b_inc d a k s = add_ai a k (set_d d (scast (mem s (areg s a))) s)"
definition st_w :: "nat \<Rightarrow> nat \<Rightarrow> tricore \<Rightarrow> tricore" where
  "st_w a d s = s\<lparr>mem := store_word (areg s a) (dreg s d) (mem s)\<rparr>"
definition st_b_inc :: "nat \<Rightarrow> u32 \<Rightarrow> nat \<Rightarrow> tricore \<Rightarrow> tricore" where
  "st_b_inc a k d s = add_ai a k (s\<lparr>mem := (mem s)(areg s a := ucast (dreg s d))\<rparr>)"
definition st_d_inc :: "nat \<Rightarrow> u32 \<Rightarrow> nat \<Rightarrow> tricore \<Rightarrow> tricore" where
  "st_d_inc a k d s = add_ai a k (s\<lparr>mem :=
     store_word (areg s a + 4) (dreg s (d + 1)) (store_word (areg s a) (dreg s d) (mem s))\<rparr>)"

text \<open>\<open>loop a, label\<close> jumps back while the register is not zero, and decrements it in any case.\<close>

partial_function (option) asm_loop ::
  "nat \<Rightarrow> (tricore \<Rightarrow> tricore option) \<Rightarrow> tricore \<Rightarrow> tricore option" where
  "asm_loop r body s = Option.bind (body s) (\<lambda>s.
     let n = areg s r; s = set_a r (n - 1) s
     in if n = 0 then Some s else asm_loop r body s)"

definition restore_upper :: "tricore \<Rightarrow> tricore \<Rightarrow> tricore" where
  "restore_upper s t = t\<lparr>
     areg := (\<lambda>r. if 10 \<le> r \<and> r \<le> 15 then areg s r else areg t r),
     dreg := (\<lambda>r. if 8 \<le> r \<and> r \<le> 15 then dreg s r else dreg t r),
     psw := psw s\<rparr>"

definition asm_call :: "(tricore \<Rightarrow> tricore option) \<Rightarrow> tricore \<Rightarrow> tricore option" where
  "asm_call f s = map_option (restore_upper s) (f s)"

section \<open>Laws of the memory\<close>

lemma load_store_same [simp]: "load_word (store_word a w m) a = w"
proof -
  have ne: "a + 1 \<noteq> a" "a + 2 \<noteq> a" "a + 3 \<noteq> a" "a + 2 \<noteq> a + 1" "a + 3 \<noteq> a + 1" "a + 3 \<noteq> a + 2" by simp_all
  have "bit (load_word (store_word a w m) a) n = bit w n" if "n < 32" for n
    using that ne
    by (cases "n < 8"; cases "n < 16"; cases "n < 24")
      (auto simp: load_word_def store_word_def byte_of_def bit_simps)
  then show ?thesis by (intro bit_word_eqI) simp
qed

lemma load_word_cong:
  assumes "\<And>j. j < 4 \<Longrightarrow> m (a + of_nat j) = m' (a + of_nat j)"
  shows "load_word m a = load_word m' a"
  using assms [of 0] assms [of 1] assms [of 2] assms [of 3] by (simp add: load_word_def)

lemma store_word_other:
  "\<not> in_region x a 4 \<Longrightarrow> store_word a w m x = m x"
  by (auto simp: store_word_def in_region_def)

lemma byte_of_zero [simp]: "byte_of k 0 = 0"
  by (simp add: byte_of_def)

section \<open>Laws of loops and calls\<close>

lemma areg_set_a [simp]: "areg (set_a r v s) = (areg s)(r := v)" by (simp add: set_a_def)
lemma dreg_set_d [simp]: "dreg (set_d r v s) = (dreg s)(r := v)" by (simp add: set_d_def)
lemma areg_set_d [simp]: "areg (set_d r v s) = areg s" by (simp add: set_d_def)
lemma dreg_set_a [simp]: "dreg (set_a r v s) = dreg s" by (simp add: set_a_def)
lemma mem_set [simp]: "mem (set_a r v s) = mem s" "mem (set_d r v s) = mem s"
  by (simp_all add: set_a_def set_d_def)

lemma csfr_set [simp]:
  "fcx (set_a r v s) = fcx s" "lcx (set_a r v s) = lcx s" "isp (set_a r v s) = isp s"
  "btv (set_a r v s) = btv s" "biv (set_a r v s) = biv s" "core_id (set_a r v s) = core_id s"
  "psw (set_a r v s) = psw s" "pcxi (set_a r v s) = pcxi s"
  "fcx (set_d r v s) = fcx s" "lcx (set_d r v s) = lcx s" "isp (set_d r v s) = isp s"
  "btv (set_d r v s) = btv s" "biv (set_d r v s) = biv s" "core_id (set_d r v s) = core_id s"
  "psw (set_d r v s) = psw s" "pcxi (set_d r v s) = pcxi s"
  by (simp_all add: set_a_def set_d_def)

lemma restore_upper_simps [simp]:
  "mem (restore_upper s t) = mem t" "fcx (restore_upper s t) = fcx t" "lcx (restore_upper s t) = lcx t"
  "isp (restore_upper s t) = isp t" "btv (restore_upper s t) = btv t" "biv (restore_upper s t) = biv t"
  "core_id (restore_upper s t) = core_id t"
  "areg (restore_upper s t) r = (if 10 \<le> r \<and> r \<le> 15 then areg s r else areg t r)"
  "dreg (restore_upper s t) r = (if 8 \<le> r \<and> r \<le> 15 then dreg s r else dreg t r)"
  by (simp_all add: restore_upper_def)

lemma asm_call_Some: "asm_call f s = Some t \<longleftrightarrow> (\<exists>u. f s = Some u \<and> t = restore_upper s u)"
  by (auto simp: asm_call_def)

text \<open>
  The rule for loops: with \<open>n - 1\<close> in the counter the body runs \<open>n\<close> times, so an assertion that each
  run of the body carries from \<open>k\<close> to \<open>k + 1\<close> holds for \<open>n\<close> at the end.
\<close>

lemma asm_loop_rule:
  assumes body: "\<And>k s. k < n \<Longrightarrow> I k s \<Longrightarrow>
      \<exists>t. body s = Some t \<and> areg t r = areg s r \<and> I (Suc k) (set_a r (areg t r - 1) t)"
    and "I 0 s" "0 < n" "areg s r = of_nat (n - 1)" "n \<le> 2 ^ 32"
  shows "\<exists>t. asm_loop r body s = Some t \<and> I n t"
proof -
  have "\<exists>t. asm_loop r body s = Some t \<and> I n t" if "I k s" "areg s r = of_nat j" "n = k + Suc j" for j k s
    using that
  proof (induction j arbitrary: k s)
    case (0 k s)
    from body [of k s] 0 obtain t where "body s = Some t" "areg t r = 0" "I (Suc k) (set_a r (areg t r - 1) t)"
      by auto
    with 0 show ?case by (simp add: asm_loop.simps)
  next
    case (Suc j k s)
    from body [of k s] Suc.prems obtain t where
      t: "body s = Some t" "areg t r = areg s r" "I (Suc k) (set_a r (areg t r - 1) t)" by auto
    have ne: "(of_nat (Suc j) :: 32 word) \<noteq> 0"
      using Suc.prems(3) assms(5) by (simp only: word_of_nat_eq_0_iff) (auto dest!: dvd_imp_le)
    have "areg (set_a r (areg t r - 1) t) r = of_nat j" using t(2) Suc.prems(2) by simp
    from Suc.IH [OF t(3) this] Suc.prems(3) obtain u where
      "asm_loop r body (set_a r (areg t r - 1) t) = Some u" "I n u" by auto
    with t(1,2) Suc.prems(2) ne show ?case by (auto simp: asm_loop.simps [of r body s] Let_def)
  qed
  from this [OF assms(2,4)] assms(3) show ?thesis by simp
qed

section \<open>Regions\<close>

lemma unat_of_nat32: "n < 2 ^ 32 \<Longrightarrow> unat (of_nat n :: u32) = n"
  by (simp only: unsigned_of_nat) (simp add: take_bit_nat_eq_self)

lemma unat_less32: "unat (w :: u32) < 2 ^ 32"
  using unsigned_less [of w] by simp

lemma word_of_unat: "unat w = k \<Longrightarrow> (w :: u32) = of_nat k"
  by auto

lemma in_region_shift:
  assumes "n + k \<le> 2 ^ 32"
  shows "in_region x (b + of_nat n) k \<longleftrightarrow> n \<le> unat (x - b) \<and> unat (x - b) < n + k"
proof (cases "n = 2 ^ 32")
  case True
  with assms unsigned_less [of "x - b"] show ?thesis by (simp add: in_region_def)
next
  case False
  let ?y = "x - b"
  have y: "unat ?y < 2 ^ 32" using unsigned_less [of ?y] by simp
  have eq: "x - (b + of_nat n) = ?y - of_nat n" by simp
  from False have n: "unat (of_nat n :: u32) = n" using assms by (intro unat_of_nat32) simp
  show ?thesis
  proof (cases "n \<le> unat ?y")
    case True
    then have "unat (?y - of_nat n) = unat ?y - n" using n by (simp add: unat_sub word_le_nat_alt)
    with True show ?thesis unfolding in_region_def eq by auto
  next
    case less: False
    then have "unat (?y - of_nat n) = unat ?y + 2 ^ 32 - n"
      using n unat_sub_if' [of ?y "of_nat n"] by (simp add: word_le_nat_alt)
    with less assms show ?thesis unfolding in_region_def eq by auto
  qed
qed

lemma in_region_append:
  "n + k \<le> 2 ^ 32 \<Longrightarrow> in_region x b (n + k) \<longleftrightarrow> in_region x b n \<or> in_region x (b + of_nat n) k"
  by (auto simp: in_region_shift in_region_def [of x b])

lemma in_region_zero [simp]: "\<not> in_region x b 0"
  by (simp add: in_region_def)

lemma in_region_four: "in_region x a 4 \<longleftrightarrow> x = a \<or> x = a + 1 \<or> x = a + 2 \<or> x = a + 3"
proof -
  have "unat y < 4 \<longleftrightarrow> y = 0 \<or> y = 1 \<or> y = 2 \<or> y = 3" for y :: u32
    by (simp add: word_unat_eq_iff) arith
  then show ?thesis unfolding in_region_def by (simp add: diff_eq_eq add.commute)
qed

definition clear_mem :: "u32 \<Rightarrow> nat \<Rightarrow> byte_memory \<Rightarrow> byte_memory" where
  "clear_mem b n m = (\<lambda>x. if in_region x b n then 0 else m x)"

definition copy_mem :: "u32 \<Rightarrow> u32 \<Rightarrow> nat \<Rightarrow> byte_memory \<Rightarrow> byte_memory" where
  "copy_mem d b n m = (\<lambda>x. if in_region x d n then m (b + (x - d)) else m x)"

lemma clear_mem_0 [simp]: "clear_mem b 0 m = m"
  by (simp add: clear_mem_def)

lemma copy_mem_0 [simp]: "copy_mem d b 0 m = m"
  by (simp add: copy_mem_def)

lemma store_word_zero: "store_word a 0 m = clear_mem a 4 m"
  by (auto simp: store_word_def clear_mem_def in_region_four)

lemma clear_mem_append:
  "n + k \<le> 2 ^ 32 \<Longrightarrow> clear_mem (b + of_nat n) k (clear_mem b n m) = clear_mem b (n + k) m"
  by (auto simp: clear_mem_def in_region_append)

end
