(* ===== verification/Startup.thy ===== *)
theory Startup
  imports Tricore
begin

text \<open>
  The start-up code: the assembly of \<open>src/src/runtime.rs\<close> from \<open>_start\<close> to the call of \<open>main\<close>, and its hooks
  in \<open>src/src/main.rs\<close>.  Each group of instructions is a function on the core's state, and
  \<open>asm_block\<close> runs instructions in order.  The address of the configuration table that the linker
  fills and of the trap and interrupt tables, the constructors in the table of the linker, and the drivers that
  the hooks call are parameters.
\<close>

definition asm_block :: "(tricore \<Rightarrow> tricore) list \<Rightarrow> tricore \<Rightarrow> tricore" where
  "asm_block is s = fold (\<lambda>i s. i s) is s"

lemma asm_block_simps [simp]:
  "asm_block [] s = s" "asm_block (i # is) s = asm_block is (i s)"
  by (simp_all add: asm_block_def)

section \<open>Offsets\<close>

definition STACK :: u32 where "STACK = 0x00"
definition STACK_SIZE :: u32 where "STACK_SIZE = 0x04"
definition CSA :: u32 where "CSA = 0x08"
definition CSA_SIZE :: u32 where "CSA_SIZE = 0x0C"
definition SDATA :: u32 where "SDATA = 0x10"
definition SDATA2 :: u32 where "SDATA2 = 0x14"
definition SDATA3 :: u32 where "SDATA3 = 0x18"
definition SDATA4 :: u32 where "SDATA4 = 0x1C"
definition CLEAR_TABLE :: u32 where "CLEAR_TABLE = 0x20"
definition COPY_TABLE :: u32 where "COPY_TABLE = 0x24"
definition CTOR_TABLE :: u32 where "CTOR_TABLE = 0x28"
definition CPUINIT_SIZE :: u32 where "CPUINIT_SIZE = 0x2C"
definition CSA_ENTRY_SIZE :: u32 where "CSA_ENTRY_SIZE = 64"
definition LW_OFFSET_SHIFT :: nat where "LW_OFFSET_SHIFT = 6"
definition CLEAR_TABLE_DST :: u32 where "CLEAR_TABLE_DST = 0x00"
definition CLEAR_TABLE_SIZE :: u32 where "CLEAR_TABLE_SIZE = 0x04"
definition CLEAR_TABLE_OFFSET :: u32 where "CLEAR_TABLE_OFFSET = 0x08"
definition COPY_TABLE_SRC :: u32 where "COPY_TABLE_SRC = 0x00"
definition COPY_TABLE_DST :: u32 where "COPY_TABLE_DST = 0x04"
definition COPY_TABLE_SIZE :: u32 where "COPY_TABLE_SIZE = 0x08"
definition COPY_TABLE_OFFSET :: u32 where "COPY_TABLE_OFFSET = 0x0C"

section \<open>The routines\<close>

definition clear_exec :: "tricore \<Rightarrow> tricore option" where
  "clear_exec s =
     (if dreg s 4 = 0 then Some s
      else asm_loop 15 (\<lambda>s. Some (st_d_inc 4 8 14 s))
        (asm_block [add_i 4 (-1), sh_right 4 3, mov_a 15 4, mov_e0 14] s))"

definition copy_exec :: "tricore \<Rightarrow> tricore option" where
  "copy_exec s =
     (let s = mov_dd 15 4 s
      in if dreg s 15 = 0 then Some s
         else asm_loop 15 (\<lambda>s. Some (asm_block [ld_b_inc 15 5 1, st_b_inc 4 1 15] s))
           (asm_block [add_i 15 (-1), mov_a 15 15] s))"

partial_function (option) table_bss_clear_loop :: "tricore \<Rightarrow> tricore option" where
  "table_bss_clear_loop s =
     (let s = ld_w 15 13 CLEAR_TABLE_DST s
      in if dreg s 15 = -1 then Some s
         else Option.bind (asm_call clear_exec (asm_block [mov_a 4 15, ld_w 4 13 CLEAR_TABLE_SIZE] s))
           (\<lambda>s. table_bss_clear_loop (add_aa 13 12 s)))"

definition Crt0BssInit :: "tricore \<Rightarrow> tricore option" where
  "Crt0BssInit s = table_bss_clear_loop (asm_block [mov_aa 13 4, set_a 12 CLEAR_TABLE_OFFSET] s)"

partial_function (option) table_data_copy_loop :: "tricore \<Rightarrow> tricore option" where
  "table_data_copy_loop s =
     (let s = ld_w 15 13 COPY_TABLE_DST s
      in if dreg s 15 = -1 then Some s
         else Option.bind (asm_call copy_exec (asm_block
                [mov_a 4 15, ld_w 4 13 COPY_TABLE_SRC, mov_a 5 4, ld_w 4 13 COPY_TABLE_SIZE] s))
           (\<lambda>s. table_data_copy_loop (add_aa 13 12 s)))"

definition Crt0DataInit :: "tricore \<Rightarrow> tricore option" where
  "Crt0DataInit s = table_data_copy_loop (asm_block [mov_aa 13 4, set_a 12 COPY_TABLE_OFFSET] s)"

definition Crt0CtorInit :: "(u32 \<Rightarrow> tricore \<Rightarrow> tricore option) \<Rightarrow> tricore \<Rightarrow> tricore option" where
  "Crt0CtorInit ctor s =
     (if areg s 4 = 0 then Some s
      else let s = asm_block [ld_w_inc 4 4 4, mov_a 15 4] s
      in if areg s 15 = 0 then Some s
      else asm_loop 15
        (\<lambda>s. let s = asm_block [ld_w_inc 4 4 4, mov_a 13 4] s in asm_call (ctor (areg s 13)) s)
        (add_ai 15 (-1) s))"

section \<open>\<open>_start\<close>\<close>

definition core_config :: "u32 \<Rightarrow> tricore \<Rightarrow> tricore" where
  "core_config crt0_config = asm_block
     [set_a 14 crt0_config, (\<lambda>s. set_d 15 (core_id s) s), and_i 15 7, mul_i 15 CPUINIT_SIZE,
      (\<lambda>s. set_a 14 (areg s 14 + dreg s 15) s)]"

definition small_address_init :: "tricore \<Rightarrow> tricore" where
  "small_address_init = asm_block
     [(\<lambda>s. set_d 15 (psw s) s), or_i 15 0x7f, andn_i 15 0x80, or_i 15 0x100, (\<lambda>s. s\<lparr>psw := dreg s 15\<rparr>),
      ld_w 15 14 SDATA, mov_a 0 15, ld_w 15 14 SDATA2, mov_a 1 15,
      ld_w 15 14 SDATA3, mov_a 8 15, ld_w 15 14 SDATA4, mov_a 9 15,
      (\<lambda>s. set_d 15 (psw s) s), andn_i 15 0x100, (\<lambda>s. s\<lparr>psw := dreg s 15\<rparr>)]"

definition csa_init :: "tricore \<Rightarrow> tricore option" where
  "csa_init s =
     (let s = asm_block
        [set_d 4 0, (\<lambda>s. s\<lparr>pcxi := dreg s 4\<rparr>),
         ld_w 4 14 CSA_SIZE, sh_right 4 LW_OFFSET_SHIFT, mov_a 4 4, add_ai 4 (-1),
         set_d 4 CSA_ENTRY_SIZE, mov_a 3 4,
         ld_a 15 14 CSA, set_d 5 0x000F0000,
         mov_d 15 15, sh_right 15 12, and_dd 15 5,
         set_d 5 0xFFFF, mov_d 4 15, sh_right 4 LW_OFFSET_SHIFT, and_dd 4 5, or_dd 4 15,
         (\<lambda>s. s\<lparr>fcx := dreg s 4\<rparr>)] s
      in map_option (\<lambda>s. s\<lparr>lcx := dreg s 4\<rparr>)
           (asm_loop 4 (\<lambda>s. Some (asm_block [add_i 4 1, st_w 15 4, add_aa 15 3] s)) s))"

text \<open>The stack pointer is A10.\<close>

definition stack_init :: "tricore \<Rightarrow> tricore option" where
  "stack_init s = asm_call clear_exec (asm_block
     [ld_w 4 14 STACK, mov_a 4 4, ld_w 4 14 STACK_SIZE, mov_d 1 4, add_dd 1 1 4, mov_a 10 1,
      (\<lambda>s. s\<lparr>isp := dreg s 1\<rparr>)] s)"

definition trap_table_init :: "u32 \<Rightarrow> tricore \<Rightarrow> tricore" where
  "trap_table_init first_trap_table = asm_block
     [set_d 0 first_trap_table, (\<lambda>s. s\<lparr>btv := dreg s 0\<rparr>)]"

text \<open>Drivers of the chip, from \<open>bw_r_drivers_tc37x\<close>; \<open>init_clock\<close> returns whether it failed.\<close>

record drivers =
  disable_safety_watchdog :: "tricore \<Rightarrow> tricore"
  disable_cpu_watchdog :: "tricore \<Rightarrow> tricore"
  init_clock :: "tricore \<Rightarrow> bool \<times> tricore"
  call_without_endinit :: "(tricore \<Rightarrow> tricore) \<Rightarrow> tricore \<Rightarrow> tricore"

definition load_interrupt_table :: "drivers \<Rightarrow> u32 \<Rightarrow> tricore \<Rightarrow> tricore" where
  "load_interrupt_table dr interrupt_table = call_without_endinit dr (\<lambda>s. s\<lparr>biv := interrupt_table\<rparr>)"

definition pre_init_fn :: "drivers \<Rightarrow> tricore \<Rightarrow> tricore" where
  "pre_init_fn dr s =
     (let s = (if core_id s = 0 then disable_safety_watchdog dr s else s)
      in disable_cpu_watchdog dr s)"

text \<open>A core other than 0 stays in the hook for ever.\<close>

definition post_init_fn :: "drivers \<Rightarrow> u32 \<Rightarrow> tricore \<Rightarrow> tricore outcome option" where
  "post_init_fn dr interrupt_table s =
     (if core_id s = 0 then
        (let (is_err, s) = init_clock dr s
         in if is_err then Some (Panic ExplicitPanic) else Some (Ret (load_interrupt_table dr interrupt_table s)))
      else None)"

definition crt0_memory ::
  "u32 \<Rightarrow> u32 \<Rightarrow> drivers \<Rightarrow> tricore \<Rightarrow> tricore option" where
  "crt0_memory crt0_config first_trap_table dr s =
     Option.bind (csa_init (asm_block [core_config crt0_config, small_address_init] s)) (\<lambda>s.
     Option.bind (stack_init s) (\<lambda>s.
     Option.bind (asm_call (\<lambda>s. Some (pre_init_fn dr s)) (trap_table_init first_trap_table s)) (\<lambda>s.
     Option.bind (asm_call Crt0BssInit (asm_block [ld_w 4 14 CLEAR_TABLE, mov_a 4 4] s)) (\<lambda>s.
     asm_call Crt0DataInit (asm_block [ld_w 4 14 COPY_TABLE, mov_a 4 4] s)))))"

text \<open>The state in which \<open>main\<close> is called.\<close>

definition crt0_start ::
  "u32 \<Rightarrow> u32 \<Rightarrow> u32 \<Rightarrow> (u32 \<Rightarrow> tricore \<Rightarrow> tricore option) \<Rightarrow> drivers \<Rightarrow> tricore \<Rightarrow> tricore outcome option" where
  "crt0_start crt0_config first_trap_table interrupt_table ctor dr s =
     Option.bind (crt0_memory crt0_config first_trap_table dr s) (\<lambda>s.
     Option.bind (asm_call (Crt0CtorInit ctor) (asm_block [ld_w 4 14 CTOR_TABLE, mov_a 4 4] s)) (\<lambda>s.
     bind_fuel (post_init_fn dr interrupt_table s) (\<lambda>t. Some (Ret (restore_upper s t)))))"

section \<open>Clearing and copying\<close>

text \<open>
  What the routines leave alone: the core registers and the lower address registers but A4 and A5; a call
  restores the upper ones.
\<close>

definition kept :: "tricore \<Rightarrow> tricore \<Rightarrow> bool" where
  "kept s t \<longleftrightarrow> (\<forall>r < 10. r \<notin> {4, 5} \<longrightarrow> areg t r = areg s r) \<and>
     (fcx t, lcx t, isp t, btv t, biv t, core_id t) = (fcx s, lcx s, isp s, btv s, biv s, core_id s)"

definition round8 :: "nat \<Rightarrow> nat" where
  "round8 n = 8 * ((n + 7) div 8)"

lemma round8_le: "n < 2 ^ 32 \<Longrightarrow> round8 n \<le> 2 ^ 32"
  by (simp add: round8_def)

lemma round8_bounds: "n \<le> round8 n" "round8 n < n + 8"
  unfolding round8_def by presburger+

lemmas instr_defs = mov_a_def mov_aa_def mov_d_def mov_dd_def mov_e0_def add_i_def add_ai_def add_aa_def
  add_dd_def and_i_def or_i_def andn_i_def and_dd_def or_dd_def mul_i_def sh_right_def ld_w_def ld_a_def
  ld_w_inc_def ld_b_inc_def st_w_def st_b_inc_def st_d_inc_def

lemma unat_drop_bit3: "unat (drop_bit 3 (w :: u32)) = unat w div 8"
  by (simp add: drop_bit_eq_div unat_div)

lemma clear_exec_spec:
  "\<exists>t. clear_exec s = Some t \<and> kept s t \<and>
     mem t = clear_mem (areg s 4) (round8 (unat (dreg s 4))) (mem s)"
proof (cases "dreg s 4 = 0")
  case True
  then show ?thesis by (simp add: clear_exec_def kept_def round8_def)
next
  case False
  let ?n = "unat (dreg s 4)"
  let ?b = "areg s 4"
  let ?s = "asm_block [add_i 4 (-1), sh_right 4 3, mov_a 15 4, mov_e0 14] s"
  let ?k = "(?n + 7) div 8"
  let ?I = "\<lambda>k t. kept s t \<and> areg t 4 = ?b + of_nat (8 * k) \<and> dreg t 14 = 0 \<and> dreg t 15 = 0 \<and>
    mem t = clear_mem ?b (8 * k) (mem s)"
  have n: "0 < ?n" "?n < 2 ^ 32" using False unsigned_less [of "dreg s 4"] by (auto simp: unat_gt_0)
  have k: "0 < ?k" "8 * ?k \<le> 2 ^ 32" "?k \<le> 2 ^ 32" using n by auto
  have "unat (dreg s 4 + (-1)) = ?n - 1" using n by (simp add: unat_minus_one False)
  then have "unat (drop_bit 3 (dreg s 4 + (-1))) = (?n - 1) div 8" by (simp only: unat_drop_bit3)
  also have "\<dots> = ?k - 1" using n(1) by (cases ?n) simp_all
  finally have "unat (drop_bit 3 (dreg s 4 + (-1))) = ?k - 1" .
  from arg_cong [OF this, of "of_nat :: nat \<Rightarrow> u32"]
  have "drop_bit 3 (dreg s 4 + (-1)) = of_nat (?k - 1)" by (simp del: of_nat_diff)
  then have count: "areg ?s 15 = of_nat (?k - 1)" by (simp add: instr_defs)
  have "\<exists>t. asm_loop 15 (\<lambda>s. Some (st_d_inc 4 8 14 s)) ?s = Some t \<and> ?I ?k t"
  proof (rule asm_loop_rule [where I = ?I and n = ?k])
    fix k t
    assume "k < ?k" and t: "?I k t"
    then have "8 * k + 8 \<le> 2 ^ 32" using k(2) by auto
    then have "clear_mem (?b + of_nat (8 * k) + 4) 4 (clear_mem (?b + of_nat (8 * k)) 4 (clear_mem ?b (8 * k) (mem s)))
        = clear_mem ?b (8 * Suc k) (mem s)"
      using clear_mem_append [of "8 * k" 4 ?b "mem s"] clear_mem_append [of "8 * k + 4" 4 ?b "mem s"]
      by (simp add: algebra_simps)
    with t show "\<exists>u. Some (st_d_inc 4 8 14 t) = Some u \<and> areg u 15 = areg t 15 \<and>
        ?I (Suc k) (set_a 15 (areg u 15 - 1) u)"
      by (simp add: instr_defs store_word_zero kept_def algebra_simps)
  next
    show "?I 0 ?s" by (simp add: instr_defs kept_def)
  qed (use k count in auto)
  with False show ?thesis by (auto simp: clear_exec_def round8_def)
qed

lemma in_region_Suc:
  assumes "Suc k \<le> 2 ^ 32"
  shows "in_region x b (Suc k) \<longleftrightarrow> in_region x b k \<or> x = b + of_nat k"
  using in_region_append [of k 1 x b] assms by (auto simp: in_region_def unat_eq_zero)

lemma copy_mem_Suc:
  assumes "Suc k \<le> 2 ^ 32"
  shows "(copy_mem d b k m)(d + of_nat k := m (b + of_nat k)) = copy_mem d b (Suc k) m"
  using assms by (auto simp: copy_mem_def in_region_Suc fun_eq_iff)

lemma in_region_offset: "k < n \<Longrightarrow> n \<le> 2 ^ 32 \<Longrightarrow> in_region (b + of_nat k) b n"
  by (simp add: in_region_def unat_of_nat32)

lemma byte_roundtrip [simp]: "ucast (scast (v :: 8 word) :: u32) = v"
  by (intro bit_word_eqI) (auto simp: bit_simps min_def dest: le_less_Suc_eq [THEN iffD1])

lemma copy_exec_spec:
  assumes sep: "region (areg s 4) (unat (dreg s 4)) \<inter> region (areg s 5) (unat (dreg s 4)) = {}"
  shows "\<exists>t. copy_exec s = Some t \<and> kept s t \<and>
     mem t = copy_mem (areg s 4) (areg s 5) (unat (dreg s 4)) (mem s)"
proof (cases "dreg s 4 = 0")
  case True
  then show ?thesis by (simp add: copy_exec_def kept_def instr_defs)
next
  case False
  let ?n = "unat (dreg s 4)"
  let ?d = "areg s 4" and ?b = "areg s 5"
  let ?s = "asm_block [add_i 15 (-1), mov_a 15 15] (mov_dd 15 4 s)"
  let ?I = "\<lambda>k t. kept s t \<and> areg t 4 = ?d + of_nat k \<and> areg t 5 = ?b + of_nat k \<and>
    mem t = copy_mem ?d ?b k (mem s)"
  have n: "0 < ?n" "?n < 2 ^ 32" using False unsigned_less [of "dreg s 4"] by (auto simp: unat_gt_0)
  have "of_nat (?n - 1) = dreg s 4 - 1" using n(1) by (simp add: of_nat_diff)
  then have count: "areg ?s 15 = of_nat (?n - 1)" by (simp add: instr_defs)
  have "\<exists>t. asm_loop 15 (\<lambda>s. Some (asm_block [ld_b_inc 15 5 1, st_b_inc 4 1 15] s)) ?s = Some t \<and> ?I ?n t"
  proof (rule asm_loop_rule [where I = ?I and n = ?n])
    fix k t
    assume k: "k < ?n" and t: "?I k t"
    have "\<not> in_region (?b + of_nat k) ?d ?n"
      using sep in_region_offset [OF k, of ?b] n(2) by (auto simp: region_def)
    then have "\<not> in_region (?b + of_nat k) ?d k" using k by (simp add: in_region_def)
    then have "copy_mem ?d ?b k (mem s) (?b + of_nat k) = mem s (?b + of_nat k)"
      by (simp add: copy_mem_def)
    with t copy_mem_Suc [of k ?d ?b "mem s"] k n(2)
    show "\<exists>u. Some (asm_block [ld_b_inc 15 5 1, st_b_inc 4 1 15] t) = Some u \<and>
        areg u 15 = areg t 15 \<and> ?I (Suc k) (set_a 15 (areg u 15 - 1) u)"
      by (simp add: instr_defs kept_def algebra_simps)
  next
    show "?I 0 ?s" by (simp add: instr_defs kept_def)
  qed (use n count in auto)
  with False show ?thesis by (auto simp: copy_exec_def Let_def instr_defs)
qed
lemma kept_refl [simp]: "kept s s"
  by (simp add: kept_def)

lemma kept_trans: "kept s t \<Longrightarrow> kept t u \<Longrightarrow> kept s u"
  by (simp add: kept_def)

lemma low_upd: "r = 4 \<or> r = 5 \<or> 10 \<le> r \<Longrightarrow> q < 10 \<Longrightarrow> q \<notin> {4, 5} \<Longrightarrow> (f(r := v)) q = f (q :: nat)"
  by auto

lemma kept_set [simp]:
  "kept s (set_d r v t) \<longleftrightarrow> kept s t" "kept (set_d r v s) t \<longleftrightarrow> kept s t"
  "r = 4 \<or> r = 5 \<or> 10 \<le> r \<Longrightarrow> kept s (set_a r v t) \<longleftrightarrow> kept s t"
  "r = 4 \<or> r = 5 \<or> 10 \<le> r \<Longrightarrow> kept (set_a r v s) t \<longleftrightarrow> kept s t"
  by (simp_all add: kept_def low_upd del: fun_upd_apply cong: imp_cong)

lemma kept_restore [simp]: "kept s (restore_upper r t) \<longleftrightarrow> kept s t"
  by (simp add: kept_def)

section \<open>The tables\<close>

text \<open>
  Tables in memory.  \<open>R\<close> is a set of addresses that the start-up code reads and never writes: the tables and the images of the
  initialised data.
\<close>

definition word_in :: "u32 set \<Rightarrow> u32 \<Rightarrow> bool" where
  "word_in R a \<longleftrightarrow> (\<forall>j \<in> {0, 1, 2, 3}. a + j \<in> R)"

definition agree :: "u32 set \<Rightarrow> byte_memory \<Rightarrow> byte_memory \<Rightarrow> bool" where
  "agree R m m' \<longleftrightarrow> (\<forall>x \<in> R. m x = m' x)"

lemma load_word_agree: "agree R m m' \<Longrightarrow> word_in R a \<Longrightarrow> load_word m a = load_word m' a"
  by (simp add: load_word_def word_in_def agree_def)

lemma agree_refl [simp]: "agree R m m"
  by (simp add: agree_def)

lemma agree_trans: "agree R m m' \<Longrightarrow> agree R m' m'' \<Longrightarrow> agree R m m''"
  by (simp add: agree_def)

lemma agree_clear: "region b n \<inter> R = {} \<Longrightarrow> agree R m (clear_mem b n m)"
  by (auto simp: agree_def clear_mem_def region_def)

lemma agree_copy: "region d n \<inter> R = {} \<Longrightarrow> agree R m (copy_mem d b n m)"
  by (auto simp: agree_def copy_mem_def region_def)

fun clear_table :: "u32 set \<Rightarrow> byte_memory \<Rightarrow> u32 \<Rightarrow> (u32 \<times> u32) list \<Rightarrow> bool" where
  "clear_table R m t [] \<longleftrightarrow> word_in R t \<and> load_word m t = -1"
| "clear_table R m t ((d, n) # xs) \<longleftrightarrow> word_in R t \<and> word_in R (t + 4) \<and>
     load_word m t = d \<and> d \<noteq> -1 \<and> load_word m (t + 4) = n \<and> clear_table R m (t + 8) xs"

fun copy_table :: "u32 set \<Rightarrow> byte_memory \<Rightarrow> u32 \<Rightarrow> (u32 \<times> u32 \<times> u32) list \<Rightarrow> bool" where
  "copy_table R m t [] \<longleftrightarrow> word_in R (t + 4) \<and> load_word m (t + 4) = -1"
| "copy_table R m t ((b, d, n) # xs) \<longleftrightarrow> word_in R t \<and> word_in R (t + 4) \<and> word_in R (t + 8) \<and>
     load_word m t = b \<and> load_word m (t + 4) = d \<and> d \<noteq> -1 \<and> load_word m (t + 8) = n \<and>
     copy_table R m (t + 12) xs"

lemma clear_table_agree: "agree R m m' \<Longrightarrow> clear_table R m t xs = clear_table R m' t xs"
  by (induction xs arbitrary: t) (auto simp: load_word_agree [of R m m'])

lemma copy_table_agree: "agree R m m' \<Longrightarrow> copy_table R m t xs = copy_table R m' t xs"
  by (induction xs arbitrary: t) (auto simp: load_word_agree [of R m m'])

definition clear_area :: "u32 \<times> u32 \<Rightarrow> u32 set" where
  "clear_area e = region (fst e) (round8 (unat (snd e)))"

definition data_area :: "u32 \<times> u32 \<times> u32 \<Rightarrow> u32 set" where
  "data_area e = region (fst (snd e)) (unat (snd (snd e)))"

definition image_area :: "u32 \<times> u32 \<times> u32 \<Rightarrow> u32 set" where
  "image_area e = region (fst e) (unat (snd (snd e)))"

definition clear_all :: "(u32 \<times> u32) list \<Rightarrow> byte_memory \<Rightarrow> byte_memory" where
  "clear_all xs m = fold (\<lambda>(d, n). clear_mem d (round8 (unat n))) xs m"

definition copy_all :: "(u32 \<times> u32 \<times> u32) list \<Rightarrow> byte_memory \<Rightarrow> byte_memory" where
  "copy_all xs m = fold (\<lambda>(b, d, n). copy_mem d b (unat n)) xs m"

lemma table_bss_clear_loop_spec:
  assumes "clear_table R (mem s) (areg s 13) xs" "areg s 12 = 8" "\<forall>e \<in> set xs. clear_area e \<inter> R = {}"
  shows "\<exists>t. table_bss_clear_loop s = Some t \<and> kept s t \<and> mem t = clear_all xs (mem s)"
  using assms
proof (induction xs arbitrary: s)
  case Nil
  then show ?case
    by (subst table_bss_clear_loop.simps) (simp add: instr_defs CLEAR_TABLE_DST_def clear_all_def)
next
  case (Cons e xs)
  obtain d n where e: "e = (d, n)" by fastforce
  let ?s = "asm_block [ld_w 15 13 CLEAR_TABLE_DST, mov_a 4 15, ld_w 4 13 CLEAR_TABLE_SIZE] s"
  have s: "areg ?s 4 = d" "dreg ?s 4 = n" "mem ?s = mem s" "kept s ?s" "areg ?s 12 = 8" "areg ?s 13 = areg s 13"
    using Cons.prems e by (simp_all add: instr_defs CLEAR_TABLE_DST_def CLEAR_TABLE_SIZE_def)
  from clear_exec_spec [of ?s] s obtain t where
    t: "clear_exec ?s = Some t" "kept ?s t" "mem t = clear_mem d (round8 (unat n)) (mem s)" by metis
  let ?t = "add_aa 13 12 (restore_upper ?s t)"
  have "agree R (mem s) (mem ?t)"
    using Cons.prems(3) e t(3) by (auto simp: clear_area_def instr_defs intro: agree_clear)
  moreover have "areg ?t 13 = areg s 13 + 8" "areg ?t 12 = 8" using s by (simp_all add: add_aa_def)
  ultimately obtain u where u: "table_bss_clear_loop ?t = Some u" "kept ?t u" "mem u = clear_all xs (mem ?t)"
    using Cons.IH [of ?t] Cons.prems e clear_table_agree [of R "mem s" "mem ?t"] by auto
  moreover have "table_bss_clear_loop s = table_bss_clear_loop ?t"
    using Cons.prems e t(1) by (subst table_bss_clear_loop.simps)
      (simp add: asm_call_def Let_def, simp add: instr_defs CLEAR_TABLE_DST_def)
  moreover have "kept s ?t" using kept_trans [OF s(4) t(2)] by (simp add: instr_defs)
  ultimately have "table_bss_clear_loop s = Some u" "kept s u" by (auto intro: kept_trans)
  moreover have "mem u = clear_all (e # xs) (mem s)"
    using u(3) t(3) e by (simp add: clear_all_def instr_defs)
  ultimately show ?case by blast
qed
lemma table_data_copy_loop_spec:
  assumes "copy_table R (mem s) (areg s 13) xs" "areg s 12 = 12"
    "\<forall>e \<in> set xs. data_area e \<inter> R = {} \<and> image_area e \<subseteq> R"
  shows "\<exists>t. table_data_copy_loop s = Some t \<and> kept s t \<and> mem t = copy_all xs (mem s)"
  using assms
proof (induction xs arbitrary: s)
  case Nil
  then show ?case
    by (subst table_data_copy_loop.simps) (simp add: instr_defs COPY_TABLE_DST_def copy_all_def)
next
  case (Cons e xs)
  obtain b d n where e: "e = (b, d, n)" by (metis prod_cases3)
  let ?s = "asm_block [ld_w 15 13 COPY_TABLE_DST, mov_a 4 15, ld_w 4 13 COPY_TABLE_SRC, mov_a 5 4,
      ld_w 4 13 COPY_TABLE_SIZE] s"
  have s: "areg ?s 4 = d" "areg ?s 5 = b" "dreg ?s 4 = n" "mem ?s = mem s" "kept s ?s" "areg ?s 12 = 12"
      "areg ?s 13 = areg s 13"
    using Cons.prems e
    by (simp_all add: instr_defs COPY_TABLE_DST_def COPY_TABLE_SIZE_def COPY_TABLE_SRC_def)
  have "region d (unat n) \<inter> region b (unat n) = {}"
    using Cons.prems(3) e by (auto simp: data_area_def image_area_def)
  with copy_exec_spec [of ?s] s obtain t where
    t: "copy_exec ?s = Some t" "kept ?s t" "mem t = copy_mem d b (unat n) (mem s)" by metis
  let ?t = "add_aa 13 12 (restore_upper ?s t)"
  have "agree R (mem s) (mem ?t)"
    using Cons.prems(3) e t(3) by (auto simp: data_area_def instr_defs intro: agree_copy)
  moreover have "areg ?t 13 = areg s 13 + 12" "areg ?t 12 = 12" using s by (simp_all add: add_aa_def)
  ultimately obtain u where u: "table_data_copy_loop ?t = Some u" "kept ?t u" "mem u = copy_all xs (mem ?t)"
    using Cons.IH [of ?t] Cons.prems e copy_table_agree [of R "mem s" "mem ?t"] by auto
  moreover have "table_data_copy_loop s = table_data_copy_loop ?t"
    using Cons.prems e t(1) by (subst table_data_copy_loop.simps)
      (simp add: asm_call_def Let_def, simp add: instr_defs COPY_TABLE_DST_def)
  moreover have "kept s ?t" using kept_trans [OF s(5) t(2)] by (simp add: instr_defs)
  ultimately have "table_data_copy_loop s = Some u" "kept s u" by (auto intro: kept_trans)
  moreover have "mem u = copy_all (e # xs) (mem s)"
    using u(3) t(3) e by (simp add: copy_all_def instr_defs)
  ultimately show ?case by blast
qed

lemma Crt0BssInit_spec:
  assumes "clear_table R (mem s) (areg s 4) xs" "\<forall>e \<in> set xs. clear_area e \<inter> R = {}"
  shows "\<exists>t. asm_call Crt0BssInit s = Some t \<and> kept s t \<and> areg t 14 = areg s 14 \<and> areg t 10 = areg s 10 \<and>
    mem t = clear_all xs (mem s)"
proof -
  let ?s = "asm_block [mov_aa 13 4, set_a 12 CLEAR_TABLE_OFFSET] s"
  have "clear_table R (mem ?s) (areg ?s 13) xs" "areg ?s 12 = 8" "kept s ?s" "mem ?s = mem s"
    using assms(1) by (simp_all add: instr_defs CLEAR_TABLE_OFFSET_def)
  from table_bss_clear_loop_spec [OF this(1,2) assms(2)] this(3,4) show ?thesis
    by (auto simp: Crt0BssInit_def asm_call_def intro: kept_trans)
qed

lemma Crt0DataInit_spec:
  assumes "copy_table R (mem s) (areg s 4) xs" "\<forall>e \<in> set xs. data_area e \<inter> R = {} \<and> image_area e \<subseteq> R"
  shows "\<exists>t. asm_call Crt0DataInit s = Some t \<and> kept s t \<and> areg t 14 = areg s 14 \<and> areg t 10 = areg s 10 \<and>
    mem t = copy_all xs (mem s)"
proof -
  let ?s = "asm_block [mov_aa 13 4, set_a 12 COPY_TABLE_OFFSET] s"
  have "copy_table R (mem ?s) (areg ?s 13) xs" "areg ?s 12 = 12" "kept s ?s" "mem ?s = mem s"
    using assms(1) by (simp_all add: instr_defs COPY_TABLE_OFFSET_def)
  from table_data_copy_loop_spec [OF this(1,2) assms(2)] this(3,4) show ?thesis
    by (auto simp: Crt0DataInit_def asm_call_def intro: kept_trans)
qed

lemma clear_all_apply: "clear_all xs m x = (if \<exists>e \<in> set xs. x \<in> clear_area e then 0 else m x)"
  by (induction xs arbitrary: m) (auto simp: clear_all_def clear_mem_def clear_area_def region_def)

text \<open>Data areas that do not overlap each other or what is read get the bytes of their images.\<close>

definition data_ok :: "u32 set \<Rightarrow> (u32 \<times> u32 \<times> u32) list \<Rightarrow> bool" where
  "data_ok R xs \<longleftrightarrow> (\<forall>e \<in> set xs. data_area e \<inter> R = {} \<and> image_area e \<subseteq> R) \<and>
     sorted_wrt (\<lambda>e f. data_area e \<inter> data_area f = {}) xs"

lemma copy_all_other: "\<forall>e \<in> set xs. x \<notin> data_area e \<Longrightarrow> copy_all xs m x = m x"
  by (induction xs arbitrary: m) (auto simp: copy_all_def copy_mem_def data_area_def region_def)

lemma image_of: "x \<in> region d n \<Longrightarrow> b + (x - d) \<in> region b n"
  by (simp add: region_def in_region_def)

lemma copy_all_data:
  "data_ok R xs \<Longrightarrow> (b, d, n) \<in> set xs \<Longrightarrow> x \<in> region d (unat n) \<Longrightarrow> copy_all xs m x = m (b + (x - d))"
proof (induction xs arbitrary: m)
  case (Cons e xs)
  obtain b' d' n' where e: "e = (b', d', n')" by (metis prod_cases3)
  have ok: "data_ok R xs" using Cons.prems(1) by (simp add: data_ok_def)
  have step: "copy_all (e # xs) m = copy_all xs (copy_mem d' b' (unat n') m)" by (simp add: copy_all_def e)
  show ?case
  proof (cases "(b, d, n) \<in> set xs")
    case True
    have "b + (x - d) \<in> R"
      using Cons.prems image_of [of x d "unat n" b] by (force simp: data_ok_def image_area_def)
    then have "copy_mem d' b' (unat n') m (b + (x - d)) = m (b + (x - d))"
      using Cons.prems(1) e by (auto simp: data_ok_def data_area_def copy_mem_def region_def)
    with Cons.IH [OF ok True Cons.prems(3)] show ?thesis by (simp add: step)
  next
    case False
    with Cons.prems(2) e have e': "e = (b, d, n)" by simp
    then have "\<forall>f \<in> set xs. x \<notin> data_area f"
      using Cons.prems(1,3) by (auto simp: data_ok_def data_area_def)
    with e e' Cons.prems(3) show ?thesis
      unfolding step by (simp add: copy_all_other copy_mem_def region_def)
  qed
qed simp
section \<open>The list of free contexts\<close>

text \<open>
  A link word holds the segment (bits 28 to 31) and the bits 6 to 21 of the address of a context;
  \<open>csa_addr\<close> is the address the core computes from a link word.
\<close>

definition csa_link :: "u32 \<Rightarrow> u32" where
  "csa_link b = (drop_bit 6 b AND 0xFFFF) OR (drop_bit 12 b AND 0x000F0000)"

definition csa_addr :: "u32 \<Rightarrow> u32" where
  "csa_addr l = push_bit 28 (drop_bit 16 l AND 0xF) OR push_bit 6 (l AND 0xFFFF)"

definition csa_next :: "byte_memory \<Rightarrow> u32 \<Rightarrow> u32" where
  "csa_next m l = load_word m (csa_addr l)"

definition csa_write :: "u32 \<Rightarrow> u32 \<Rightarrow> nat \<Rightarrow> byte_memory \<Rightarrow> byte_memory" where
  "csa_write b l k m = fold (\<lambda>i. store_word (b + of_nat (64 * i)) (l + of_nat (Suc i))) [0..<k] m"

lemma csa_write_simps [simp]:
  "csa_write b l 0 m = m"
  "csa_write b l (Suc k) m = store_word (b + of_nat (64 * k)) (l + of_nat (Suc k)) (csa_write b l k m)"
  by (simp_all add: csa_write_def)

lemma csa_write_load:
  "i < k \<Longrightarrow> 64 * k \<le> 2 ^ 32 \<Longrightarrow> load_word (csa_write b l k m) (b + of_nat (64 * i)) = l + of_nat (Suc i)"
proof (induction k)
  case (Suc k)
  show ?case
  proof (cases "i = k")
    case False
    have "load_word (csa_write b l (Suc k) m) (b + of_nat (64 * i)) =
        load_word (csa_write b l k m) (b + of_nat (64 * i))"
    proof (rule load_word_cong)
      fix j :: nat
      assume j: "j < 4"
      have "in_region (b + of_nat (64 * i) + of_nat j) (b + of_nat (64 * i)) 4"
        using j by (simp add: in_region_def unat_of_nat32)
      then have "\<not> in_region (b + of_nat (64 * i) + of_nat j) (b + of_nat (64 * k)) 4"
        using False Suc.prems by (simp add: in_region_shift del: of_nat_mult)
      then show "csa_write b l (Suc k) m (b + of_nat (64 * i) + of_nat j) =
          csa_write b l k m (b + of_nat (64 * i) + of_nat j)"
        by (simp add: store_word_other)
    qed
    with Suc False show ?thesis by simp
  qed simp
qed simp

lemma csa_write_other:
  "64 * k \<le> 2 ^ 32 \<Longrightarrow> \<not> in_region x b (64 * k) \<Longrightarrow> csa_write b l k m x = m x"
proof (induction k)
  case (Suc k)
  have "\<not> in_region x (b + of_nat (64 * k)) 4"
    using Suc.prems by (simp add: in_region_shift in_region_def [of x b] del: of_nat_mult)
  moreover have "\<not> in_region x b (64 * k)" using Suc.prems(2) by (simp add: in_region_def)
  ultimately show ?case using Suc by (simp add: store_word_other)
qed simp

lemma csa_init_spec:
  assumes "load_word (mem s) (areg s 14 + CSA_SIZE) = of_nat (64 * n)" "0 < n" "64 * n < 2 ^ 32"
    and b: "load_word (mem s) (areg s 14 + CSA) = b"
  shows "\<exists>t. csa_init s = Some t \<and> fcx t = csa_link b \<and> lcx t = csa_link b + of_nat n \<and>
    mem t = csa_write b (csa_link b) n (mem s) \<and> core_id t = core_id s \<and>
    (\<forall>r. r \<notin> {3, 4, 15} \<longrightarrow> areg t r = areg s r)"
proof -
  let ?s = "asm_block
        [set_d 4 0, (\<lambda>s. s\<lparr>pcxi := dreg s 4\<rparr>),
         ld_w 4 14 CSA_SIZE, sh_right 4 LW_OFFSET_SHIFT, mov_a 4 4, add_ai 4 (-1),
         set_d 4 CSA_ENTRY_SIZE, mov_a 3 4,
         ld_a 15 14 CSA, set_d 5 0x000F0000,
         mov_d 15 15, sh_right 15 12, and_dd 15 5,
         set_d 5 0xFFFF, mov_d 4 15, sh_right 4 LW_OFFSET_SHIFT, and_dd 4 5, or_dd 4 15,
         (\<lambda>s. s\<lparr>fcx := dreg s 4\<rparr>)] s"
  let ?l = "csa_link b"
  let ?f = "\<lambda>s. asm_block [add_i 4 1, st_w 15 4, add_aa 15 3] s"
  let ?I = "\<lambda>k t. areg t 15 = b + of_nat (64 * k) \<and> dreg t 4 = ?l + of_nat k \<and> areg t 3 = 64 \<and>
    mem t = csa_write b ?l k (mem s) \<and> fcx t = ?l \<and> core_id t = core_id s \<and>
    (\<forall>r. r \<notin> {3, 4, 15} \<longrightarrow> areg t r = areg s r)"
  have "unat (drop_bit 6 (of_nat (64 * n) :: u32)) = n"
    using assms(3) by (simp add: drop_bit_eq_div unat_div unat_of_nat32 del: of_nat_mult)
  then have "drop_bit 6 (of_nat (64 * n) :: u32) = of_nat n" by (rule word_of_unat)
  then have count: "areg ?s 4 = of_nat (n - 1)"
    using assms(1,2) by (simp add: instr_defs LW_OFFSET_SHIFT_def of_nat_diff)
  have "\<exists>t. asm_loop 4 (\<lambda>s. Some (?f s)) ?s = Some t \<and> ?I n t"
  proof (rule asm_loop_rule [where I = ?I and n = n])
    show "\<exists>u. Some (?f t) = Some u \<and> areg u 4 = areg t 4 \<and> ?I (Suc k) (set_a 4 (areg u 4 - 1) u)"
      if "?I k t" for k t
      using that by (simp add: instr_defs algebra_simps)
    show "?I 0 ?s"
      by (simp add: instr_defs b csa_link_def LW_OFFSET_SHIFT_def CSA_ENTRY_SIZE_def)
  qed (use assms count in auto)
  then show ?thesis unfolding csa_init_def Let_def by auto
qed
text \<open>
  The areas that link words can express: 64-byte aligned, and within the first 4 megabytes of a segment.
\<close>

definition csa_area :: "u32 \<Rightarrow> nat \<Rightarrow> bool" where
  "csa_area b n \<longleftrightarrow> unat b mod 64 = 0 \<and> unat b mod 2 ^ 28 + 64 * n \<le> 2 ^ 22"

lemma small_bit: "i < 2 ^ k \<Longrightarrow> k \<le> m \<Longrightarrow> \<not> bit (i :: nat) m"
  using power_increasing [of k m "2 :: nat"] by (simp add: bit_iff_odd div_less less_le_trans)

lemma csa_addr_of_nat:
  assumes "sg < 16" "i < 2 ^ 16"
  shows "csa_addr (of_nat (sg * 2 ^ 16 + i)) = of_nat (sg * 2 ^ 28 + i * 64)"
proof -
  let ?l = "of_nat (sg * 2 ^ 16 + i) :: u32"
  have u: "unat ?l = sg * 2 ^ 16 + i" using assms by (intro unat_of_nat32) simp
  have "unat (drop_bit 16 ?l) = sg"
    unfolding drop_bit_eq_div unat_div u using assms by (simp add: unat_of_nat32)
  then have d: "drop_bit 16 ?l = of_nat sg" by (rule word_of_unat)
  have "unat (take_bit 16 ?l) = i"
    unfolding unsigned_take_bit_eq u using assms by (simp add: take_bit_eq_mod)
  then have t: "?l AND 0xFFFF = of_nat i"
    using take_bit_eq_mask [of 16 ?l] by (simp add: mask_eq_exp_minus_1 word_of_unat)
  have "unat (take_bit 4 (of_nat sg :: u32)) = sg"
    unfolding unsigned_take_bit_eq using assms by (simp add: unat_of_nat32 take_bit_eq_mod)
  then have s: "of_nat sg AND 0xF = (of_nat sg :: u32)"
    using take_bit_eq_mask [of 4 "of_nat sg :: u32"] by (simp add: mask_eq_exp_minus_1 word_of_unat)
  have "push_bit 28 (of_nat sg :: u32) OR push_bit 6 (of_nat i) = push_bit 28 (of_nat sg) + push_bit 6 (of_nat i)"
    by (rule disjunctive_add [symmetric]) (use small_bit [OF assms(2)] in \<open>auto simp: bit_simps\<close>)
  then show ?thesis
    unfolding csa_addr_def d t s by (simp add: push_bit_eq_mult)
qed

lemma split_segment:
  fixes x :: nat
  assumes "x mod 64 = 0"
  shows "x = x div 2 ^ 28 * 2 ^ 28 + x mod 2 ^ 28 div 64 * 64"
proof -
  have "x mod 2 ^ 28 mod 64 = 0" using assms by (simp add: mod_mod_cancel)
  then have "x mod 2 ^ 28 div 64 * 64 = x mod 2 ^ 28" using div_mult_mod_eq [of "x mod 2 ^ 28" 64] by simp
  then show ?thesis using div_mult_mod_eq [of x "2 ^ 28"] by linarith
qed

lemma csa_link_of_nat:
  assumes "sg < 16" "i < 2 ^ 16"
  shows "csa_link (of_nat (sg * 2 ^ 28 + i * 64)) = of_nat (sg * 2 ^ 16 + i)"
proof -
  let ?b = "of_nat (sg * 2 ^ 28 + i * 64) :: u32"
  have u: "unat ?b = sg * 2 ^ 28 + i * 64" using assms by (intro unat_of_nat32) simp
  have "(4194304 * sg + i) mod 65536 = i"
    using mod_mult_self3 [of "64 * sg" 65536 i] assms(2) by simp
  then have "unat (take_bit 16 (drop_bit 6 ?b)) = i"
    unfolding unsigned_take_bit_eq drop_bit_eq_div unat_div u using assms
    by (simp add: unat_of_nat32 take_bit_eq_mod)
  then have lo: "drop_bit 6 ?b AND 0xFFFF = of_nat i"
    using take_bit_eq_mask [of 16 "drop_bit 6 ?b"] by (simp add: mask_eq_exp_minus_1 word_of_unat)
  have "unat (take_bit 4 (drop_bit 28 ?b)) = sg"
    unfolding unsigned_take_bit_eq drop_bit_eq_div unat_div u using assms
    by (simp add: unat_of_nat32 take_bit_eq_mod)
  then have sg: "take_bit 4 (drop_bit 28 ?b) = of_nat sg" by (rule word_of_unat)
  have "drop_bit 12 ?b AND push_bit 16 (mask 4) = push_bit 16 (take_bit 4 (drop_bit 28 ?b))"
    by (intro bit_word_eqI) (auto simp: bit_simps)
  then have hi: "drop_bit 12 ?b AND 0x000F0000 = push_bit 16 (of_nat sg)"
    unfolding sg by (simp add: mask_eq_exp_minus_1 push_bit_eq_mult)
  have "of_nat i OR push_bit 16 (of_nat sg :: u32) = of_nat i + push_bit 16 (of_nat sg)"
    by (rule disjunctive_add [symmetric]) (use small_bit [OF assms(2)] in \<open>auto simp: bit_simps\<close>)
  then show ?thesis unfolding csa_link_def lo hi by (simp add: push_bit_eq_mult)
qed

lemma div64_aux: "(x :: nat) + 64 * n \<le> 4194304 \<Longrightarrow> x div 64 + n \<le> 65536"
  using div_times_less_eq_dividend [of x 64] by linarith

lemma div64_le: "(x :: nat) + 64 * n \<le> 4194304 \<Longrightarrow> x div 64 + n \<le> 2 ^ 16"
  using div64_aux [of x n] by simp

lemma csa_addr_link:
  assumes "csa_area b n" "i < n"
  shows "csa_addr (csa_link b + of_nat i) = b + of_nat (64 * i)"
proof -
  define sg where "sg = unat b div 2 ^ 28"
  define off where "off = unat b mod 2 ^ 28 div 64"
  have b: "unat b = sg * 2 ^ 28 + off * 64"
    using assms(1) split_segment [of "unat b"] unfolding sg_def off_def csa_area_def by simp
  have sg: "sg < 16" using unat_less32 [of b] unfolding sg_def by (simp add: less_mult_imp_div_less)
  have off: "off + n \<le> 2 ^ 16"
    using assms(1) unfolding csa_area_def off_def by (intro div64_le) simp
  have "csa_link b = of_nat (sg * 2 ^ 16 + off)"
    using csa_link_of_nat [of sg off] sg off b assms(2) word_of_unat [OF b] by simp
  then have "csa_addr (csa_link b + of_nat i) = csa_addr (of_nat (sg * 2 ^ 16 + (off + i)))"
    by (simp add: add.assoc)
  also have "\<dots> = of_nat (sg * 2 ^ 28 + (off + i) * 64)"
    using sg off assms(2) by (intro csa_addr_of_nat) auto
  also have "\<dots> = of_nat (unat b) + of_nat (64 * i)" unfolding b by simp
  finally show ?thesis by simp
qed
section \<open>From reset to initialised memory\<close>

lemma stack_init_spec:
  assumes "load_word (mem s) (areg s 14 + STACK) = b" "load_word (mem s) (areg s 14 + STACK_SIZE) = n"
  shows "\<exists>t. stack_init s = Some t \<and> mem t = clear_mem b (round8 (unat n)) (mem s) \<and>
    areg t 10 = b + n \<and> areg t 14 = areg s 14 \<and> core_id t = core_id s"
proof -
  let ?s = "asm_block
     [ld_w 4 14 STACK, mov_a 4 4, ld_w 4 14 STACK_SIZE, mov_d 1 4, add_dd 1 1 4, mov_a 10 1,
      (\<lambda>s. s\<lparr>isp := dreg s 1\<rparr>)] s"
  have s: "areg ?s 4 = b" "dreg ?s 4 = n" "mem ?s = mem s" "areg ?s 10 = b + n" "areg ?s 14 = areg s 14"
    "core_id ?s = core_id s"
    using assms by (simp_all add: instr_defs)
  from clear_exec_spec [of ?s] obtain t where
    "clear_exec ?s = Some t" "kept ?s t" "mem t = clear_mem b (round8 (unat n)) (mem s)"
    unfolding s(1-3) by blast
  with s(4-6) show ?thesis by (auto simp: stack_init_def asm_call_def kept_def)
qed

text \<open>
  What the linker promises about the memory at reset, for the entry at \<open>c\<close> of the configuration table:
  the entry, the two tables and the images of the initialised data lie in \<open>R\<close>, and what the start-up code
  writes lies outside \<open>R\<close>.
\<close>

record boot_image =
  bi_stack :: u32
  bi_stack_size :: u32
  bi_csa :: u32
  bi_csa_entries :: nat
  bi_clear_at :: u32
  bi_clear :: "(u32 \<times> u32) list"
  bi_copy_at :: u32
  bi_copy :: "(u32 \<times> u32 \<times> u32) list"

definition config_entry :: "u32 set \<Rightarrow> byte_memory \<Rightarrow> u32 \<Rightarrow> boot_image \<Rightarrow> bool" where
  "config_entry R m c g \<longleftrightarrow>
     word_in R (c + STACK) \<and> word_in R (c + STACK_SIZE) \<and> word_in R (c + CLEAR_TABLE) \<and> word_in R (c + COPY_TABLE) \<and>
     load_word m (c + STACK) = bi_stack g \<and> load_word m (c + STACK_SIZE) = bi_stack_size g \<and>
     load_word m (c + CSA) = bi_csa g \<and> load_word m (c + CSA_SIZE) = of_nat (64 * bi_csa_entries g) \<and>
     load_word m (c + CLEAR_TABLE) = bi_clear_at g \<and> load_word m (c + COPY_TABLE) = bi_copy_at g"

definition boot_linked :: "u32 set \<Rightarrow> byte_memory \<Rightarrow> u32 \<Rightarrow> boot_image \<Rightarrow> bool" where
  "boot_linked R m c g \<longleftrightarrow> config_entry R m c g \<and>
     0 < bi_csa_entries g \<and> 64 * bi_csa_entries g < 2 ^ 32 \<and>
     region (bi_csa g) (64 * bi_csa_entries g) \<inter> R = {} \<and>
     region (bi_stack g) (round8 (unat (bi_stack_size g))) \<inter> R = {} \<and>
     clear_table R m (bi_clear_at g) (bi_clear g) \<and> (\<forall>e \<in> set (bi_clear g). clear_area e \<inter> R = {}) \<and>
     copy_table R m (bi_copy_at g) (bi_copy g) \<and> data_ok R (bi_copy g)"

definition core_entry :: "u32 \<Rightarrow> u32 \<Rightarrow> u32" where
  "core_entry crt0_config cid = crt0_config + (cid AND 7) * CPUINIT_SIZE"

definition drivers_keep :: "u32 set \<Rightarrow> drivers \<Rightarrow> bool" where
  "drivers_keep R dr \<longleftrightarrow> (\<forall>s. agree R (mem s) (mem (disable_safety_watchdog dr s)) \<and>
     agree R (mem s) (mem (disable_cpu_watchdog dr s)))"

lemma pre_init_agree: "drivers_keep R dr \<Longrightarrow> agree R (mem s) (mem (pre_init_fn dr s))"
  by (auto simp: drivers_keep_def pre_init_fn_def Let_def intro: agree_trans)

lemma boot_linked_cfg:
  assumes "boot_linked R m c g" "agree R m m'"
  shows "load_word m' (c + STACK) = bi_stack g" "load_word m' (c + STACK_SIZE) = bi_stack_size g"
    "load_word m' (c + CLEAR_TABLE) = bi_clear_at g" "load_word m' (c + COPY_TABLE) = bi_copy_at g"
  using assms(1) load_word_agree [OF assms(2)] unfolding boot_linked_def config_entry_def by metis+

text \<open>Up to the hook: the list of contexts and the stack.\<close>

lemma crt0_stack_spec:
  assumes g: "boot_linked R (mem s) (core_entry crt0_config (core_id s)) g"
  shows "\<exists>s1 s2. csa_init (asm_block [core_config crt0_config, small_address_init] s) = Some s1 \<and>
    stack_init s1 = Some s2 \<and> agree R (mem s) (mem s2) \<and>
    areg s2 10 = bi_stack g + bi_stack_size g \<and> areg s2 14 = core_entry crt0_config (core_id s)"
proof -
  let ?c = "core_entry crt0_config (core_id s)"
  let ?n = "bi_csa_entries g"
  note g' = g [unfolded boot_linked_def config_entry_def]
  let ?s0 = "asm_block [core_config crt0_config, small_address_init] s"
  have s0: "areg ?s0 14 = ?c" "mem ?s0 = mem s" "core_id ?s0 = core_id s"
    by (simp_all add: core_config_def small_address_init_def instr_defs core_entry_def CPUINIT_SIZE_def)
  from csa_init_spec [of ?s0 ?n "bi_csa g"] g' s0 obtain s1 where
    s1: "csa_init ?s0 = Some s1" "mem s1 = csa_write (bi_csa g) (csa_link (bi_csa g)) ?n (mem s)"
      "areg s1 14 = ?c" by auto
  have a1: "agree R (mem s) (mem s1)"
    using g' csa_write_other [of ?n _ "bi_csa g"] unfolding s1(2) agree_def region_def
    by (metis (mono_tags, lifting) disjoint_iff less_imp_le mem_Collect_eq)
  from stack_init_spec [of s1] boot_linked_cfg(1,2) [OF g a1] s1(3) obtain s2 where
    s2: "stack_init s1 = Some s2" "areg s2 10 = bi_stack g + bi_stack_size g" "areg s2 14 = ?c"
      "mem s2 = clear_mem (bi_stack g) (round8 (unat (bi_stack_size g))) (mem s1)" by metis
  then have "agree R (mem s) (mem s2)" using a1 g' by (auto intro: agree_trans agree_clear)
  with s1(1) s2 show ?thesis by blast
qed

text \<open>The rest, from any state after the hook: the memory is cleared, then the data is copied.\<close>

lemma crt0_tables_spec:
  assumes g: "boot_linked R m (areg s3 14) g" and a3: "agree R m (mem s3)"
  shows "\<exists>s5 s7. asm_call Crt0BssInit (asm_block [ld_w 4 14 CLEAR_TABLE, mov_a 4 4] s3) = Some s5 \<and>
    asm_call Crt0DataInit (asm_block [ld_w 4 14 COPY_TABLE, mov_a 4 4] s5) = Some s7 \<and>
    mem s7 = copy_all (bi_copy g) (clear_all (bi_clear g) (mem s3)) \<and>
    areg s7 10 = areg s3 10 \<and> areg s7 14 = areg s3 14"
proof -
  note g' = g [unfolded boot_linked_def]
  let ?s4 = "asm_block [ld_w 4 14 CLEAR_TABLE, mov_a 4 4] s3"
  have s4: "areg ?s4 4 = bi_clear_at g" "mem ?s4 = mem s3" "areg ?s4 14 = areg s3 14" "areg ?s4 10 = areg s3 10"
    using boot_linked_cfg(3) [OF g a3] by (simp_all add: instr_defs)
  have "clear_table R (mem ?s4) (areg ?s4 4) (bi_clear g)"
    using g' clear_table_agree [OF a3] by (simp only: s4)
  from Crt0BssInit_spec [OF this] g' s4 obtain s5 where
    s5: "asm_call Crt0BssInit ?s4 = Some s5" "areg s5 14 = areg s3 14" "areg s5 10 = areg s3 10"
      "mem s5 = clear_all (bi_clear g) (mem s3)" by metis
  have a5: "agree R m (mem s5)"
    using a3 g' unfolding agree_def s5(4) clear_all_apply by (metis disjoint_iff)
  let ?s6 = "asm_block [ld_w 4 14 COPY_TABLE, mov_a 4 4] s5"
  have s6: "areg ?s6 4 = bi_copy_at g" "mem ?s6 = mem s5" "areg ?s6 14 = areg s3 14" "areg ?s6 10 = areg s3 10"
    using boot_linked_cfg(4) [OF g a5] s5 by (simp_all add: instr_defs)
  have "copy_table R (mem ?s6) (areg ?s6 4) (bi_copy g)"
    using g' copy_table_agree [OF a5] by (simp only: s6)
  from Crt0DataInit_spec [OF this] g' s6 s5 show ?thesis unfolding data_ok_def by metis
qed

lemma crt0_memory_spec:
  assumes g: "boot_linked R (mem s) (core_entry crt0_config (core_id s)) g" and dr: "drivers_keep R dr"
  shows "\<exists>m t. crt0_memory crt0_config first_trap_table dr s = Some t \<and> agree R (mem s) m \<and>
    mem t = copy_all (bi_copy g) (clear_all (bi_clear g) m) \<and> areg t 10 = bi_stack g + bi_stack_size g"
proof -
  from crt0_stack_spec [OF g] obtain s1 s2 where
    s2: "csa_init (asm_block [core_config crt0_config, small_address_init] s) = Some s1"
      "stack_init s1 = Some s2" "agree R (mem s) (mem s2)"
      "areg s2 10 = bi_stack g + bi_stack_size g" "areg s2 14 = core_entry crt0_config (core_id s)" by blast
  let ?t2 = "trap_table_init first_trap_table s2"
  define s3 where "s3 = restore_upper ?t2 (pre_init_fn dr ?t2)"
  have p3: "asm_call (\<lambda>s. Some (pre_init_fn dr s)) ?t2 = Some s3"
    by (simp add: asm_call_def s3_def)
  have t2: "mem ?t2 = mem s2" "areg ?t2 = areg s2" by (simp_all add: trap_table_init_def instr_defs)
  have a3: "agree R (mem s) (mem s3)"
    using agree_trans [OF s2(3)] pre_init_agree [OF dr, of ?t2] by (simp add: s3_def t2)
  have s3: "areg s3 14 = core_entry crt0_config (core_id s)" "areg s3 10 = bi_stack g + bi_stack_size g"
    by (simp_all add: s3_def t2 s2)
  from crt0_tables_spec [of R "mem s" s3 g] g a3 s3 obtain s5 s7 where
    s7: "asm_call Crt0BssInit (asm_block [ld_w 4 14 CLEAR_TABLE, mov_a 4 4] s3) = Some s5"
      "asm_call Crt0DataInit (asm_block [ld_w 4 14 COPY_TABLE, mov_a 4 4] s5) = Some s7"
      "mem s7 = copy_all (bi_copy g) (clear_all (bi_clear g) (mem s3))" "areg s7 10 = areg s3 10" by auto
  have "crt0_memory crt0_config first_trap_table dr s = Some s7"
    unfolding crt0_memory_def by (simp add: s2(1,2) p3 s7(1,2) del: asm_block_simps)
  with a3 s7(3,4) s3(2) show ?thesis by auto
qed
section \<open>Properties\<close>

text \<open>
  C31. The start-up code initialises the memory of a program: it reaches the call of the constructors, and then
  every byte of an initialised data area has the value of its image in the memory at reset, every byte of
  an area to clear (rounded up to 8 bytes, as the routine clears double words) that is not in a data area is
  zero, and the stack pointer is at the end of the stack.  The linker's tables are as they should be, the
  watchdog drivers do not write what the linker placed, and every core runs with its own table entry.
\<close>

theorem startup_initialises_memory:
  assumes "boot_linked R (mem s) (core_entry crt0_config (core_id s)) g" and "drivers_keep R dr"
  shows "\<exists>t. crt0_memory crt0_config first_trap_table dr s = Some t \<and>
    (\<forall>b d n x. (b, d, n) \<in> set (bi_copy g) \<longrightarrow> x \<in> region d (unat n) \<longrightarrow> mem t x = mem s (b + (x - d))) \<and>
    (\<forall>e x. e \<in> set (bi_clear g) \<longrightarrow> x \<in> clear_area e \<longrightarrow> (\<forall>f \<in> set (bi_copy g). x \<notin> data_area f) \<longrightarrow>
       mem t x = 0) \<and>
    areg t 10 = bi_stack g + bi_stack_size g"
proof -
  from crt0_memory_spec [OF assms, of first_trap_table] obtain m t where
    t: "crt0_memory crt0_config first_trap_table dr s = Some t" "agree R (mem s) m"
      "mem t = copy_all (bi_copy g) (clear_all (bi_clear g) m)" "areg t 10 = bi_stack g + bi_stack_size g" by blast
  have ok: "data_ok R (bi_copy g)" and clr: "\<forall>e \<in> set (bi_clear g). clear_area e \<inter> R = {}"
    using assms(1) by (auto simp: boot_linked_def)
  have "mem t x = mem s (b + (x - d))" if e: "(b, d, n) \<in> set (bi_copy g)" and x: "x \<in> region d (unat n)" for b d n x
  proof -
    have "b + (x - d) \<in> R"
      using ok e image_of [OF x, of b] by (force simp: data_ok_def image_area_def)
    then show ?thesis
      using copy_all_data [OF ok e x] clr t(2,3) by (auto simp: clear_all_apply agree_def)
  qed
  moreover have "mem t x = 0"
    if "e \<in> set (bi_clear g)" "x \<in> clear_area e" "\<forall>f \<in> set (bi_copy g). x \<notin> data_area f" for e x
    using that by (auto simp: t(3) copy_all_other clear_all_apply)
  ultimately show ?thesis using t(1,4) by blast
qed

text \<open>
  C33. The list of free contexts: from FCX, following the link words leads through all the contexts of the
  area, each at its place and in order of their addresses, and nothing outside the area is written.  LCX
  is the link that comes after the last context: it is not the link of a context of the list.
\<close>

theorem startup_context_list:
  assumes "load_word (mem s) (areg s 14 + CSA_SIZE) = of_nat (64 * n)" "0 < n"
    and "load_word (mem s) (areg s 14 + CSA) = b" and "csa_area b n"
  shows "\<exists>t. csa_init s = Some t \<and>
    (\<forall>k < n. csa_addr ((csa_next (mem t) ^^ k) (fcx t)) = b + of_nat (64 * k)) \<and>
    (csa_next (mem t) ^^ n) (fcx t) = lcx t \<and>
    (\<forall>k < n. (csa_next (mem t) ^^ k) (fcx t) \<noteq> lcx t) \<and>
    (\<forall>x. x \<notin> region b (64 * n) \<longrightarrow> mem t x = mem s x)"
proof -
  have n: "64 * n < 2 ^ 32" using assms(4) by (simp add: csa_area_def)
  let ?l = "csa_link b"
  from csa_init_spec [OF assms(1,2) n assms(3)] obtain t where
    t: "csa_init s = Some t" "fcx t = ?l" "lcx t = ?l + of_nat n" "mem t = csa_write b ?l n (mem s)" by blast
  have chain: "k \<le> n \<Longrightarrow> (csa_next (mem t) ^^ k) ?l = ?l + of_nat k" for k
  proof (induction k)
    case (Suc k)
    then have "(csa_next (mem t) ^^ Suc k) ?l = csa_next (mem t) (?l + of_nat k)" by simp
    also have "\<dots> = ?l + of_nat (Suc k)"
      using Suc.prems n csa_addr_link [OF assms(4), of k] csa_write_load [of k n b ?l "mem s"]
      by (simp add: csa_next_def t(4))
    finally show ?case .
  qed simp
  have "?l + of_nat k \<noteq> ?l + of_nat n" if "k < n" for k
  proof -
    have "unat (of_nat k :: u32) \<noteq> unat (of_nat n :: u32)" using that n by (simp add: unat_of_nat32)
    then show ?thesis by auto
  qed
  with t chain csa_addr_link [OF assms(4)] csa_write_other [of n _ b ?l "mem s"] n show ?thesis
    by (auto simp: region_def)
qed
section \<open>Examples\<close>

lemma region_disjoint:
  assumes "n \<le> unat (c - b)" "unat (c - b) + k \<le> 2 ^ 32"
  shows "region b n \<inter> region c k = {}"
proof -
  have "c = b + of_nat (unat (c - b))" by simp
  then have "in_region x c k \<longleftrightarrow> unat (c - b) \<le> unat (x - b) \<and> unat (x - b) < unat (c - b) + k" for x
    using in_region_shift [OF assms(2), of x b] by simp
  with assms(1) show ?thesis by (auto simp: region_def in_region_def [of _ b])
qed

lemma region_subset:
  assumes "unat (b - c) + n \<le> k" "k \<le> 2 ^ 32"
  shows "region b n \<subseteq> region c k"
proof -
  have "b = c + of_nat (unat (b - c))" by simp
  then have "in_region x b n \<Longrightarrow> in_region x c k" for x
    using in_region_shift [of "unat (b - c)" n x c] assms by (simp add: in_region_def [of x c])
  then show ?thesis by (auto simp: region_def)
qed

lemmas offset_defs = STACK_def STACK_SIZE_def CSA_def CSA_SIZE_def CLEAR_TABLE_def COPY_TABLE_def

text \<open>
  A small image: one context, a stack of 8 bytes, an area of 4 bytes to clear and two bytes of data.
\<close>

definition example_words :: "(u32 \<times> u32) list" where
  "example_words = [(0x1000, 0x3000), (0x1004, 8), (0x1008, 0x2000), (0x100C, 64), (0x1020, 0x1030),
     (0x1024, 0x1050), (0x1030, 0x4000), (0x1034, 4), (0x1038, -1),
     (0x1050, 0x1070), (0x1054, 0x5000), (0x1058, 2), (0x1060, -1), (0x1070, 0x0907)]"

definition example_mem :: byte_memory where
  "example_mem = fold (\<lambda>(a, w). store_word a w) example_words (\<lambda>_. 0xFF)"

definition example_image :: boot_image where
  "example_image = \<lparr>bi_stack = 0x3000, bi_stack_size = 8, bi_csa = 0x2000, bi_csa_entries = 1,
     bi_clear_at = 0x1030, bi_clear = [(0x4000, 4)], bi_copy_at = 0x1050, bi_copy = [(0x1070, 0x5000, 2)]\<rparr>"

definition example_reset :: tricore where
  "example_reset = \<lparr>areg = \<lambda>_. 0, dreg = \<lambda>_. 0, mem = example_mem, psw = 0, pcxi = 0, fcx = 0, lcx = 0,
     isp = 0, btv = 0, biv = 0, core_id = 0\<rparr>"

definition example_drivers :: drivers where
  "example_drivers = \<lparr>disable_safety_watchdog = \<lambda>s. s, disable_cpu_watchdog = \<lambda>s. s,
     init_clock = \<lambda>s. (False, s), call_without_endinit = \<lambda>f s. f s\<rparr>"

lemma load_store_other:
  assumes "4 \<le> unat (b - a)" "unat (b - a) + 4 \<le> 2 ^ 32"
  shows "load_word (store_word a w m) b = load_word m b"
proof (rule load_word_cong)
  fix j :: nat
  assume "j < 4"
  then have "in_region (b + of_nat j) b 4" by (simp add: in_region_def unat_of_nat32)
  then have "\<not> in_region (b + of_nat j) a 4"
    using region_disjoint [OF assms] by (auto simp: region_def)
  then show "store_word a w m (b + of_nat j) = m (b + of_nat j)" by (rule store_word_other)
qed

lemma example_loads:
  "load_word example_mem 0x1000 = 0x3000" "load_word example_mem 0x1004 = 8"
  "load_word example_mem 0x1008 = 0x2000" "load_word example_mem 0x100C = 64"
  "load_word example_mem 0x1020 = 0x1030" "load_word example_mem 0x1024 = 0x1050"
  "load_word example_mem 0x1030 = 0x4000" "load_word example_mem 0x1034 = 4"
  "load_word example_mem 0x1038 = -1" "load_word example_mem 0x1050 = 0x1070"
  "load_word example_mem 0x1054 = 0x5000" "load_word example_mem 0x1058 = 2"
  "load_word example_mem 0x1060 = -1"
  by (simp_all add: example_mem_def example_words_def load_store_other)

lemma example_linked: "boot_linked (region 0x1000 0x80) example_mem 0x1000 example_image"
proof -
  have "a + j \<in> region 0x1000 0x80" if "unat (a - 0x1000) + 3 < 0x80" "unat j < 4" for a j :: u32
  proof -
    have "unat ((a - 0x1000) + j) = unat (a - 0x1000) + unat j"
      using that by (simp only: unat_word_ariths) simp
    moreover have "a + j - 0x1000 = (a - 0x1000) + j" by simp
    ultimately have "unat (a + j - 0x1000) = unat (a - 0x1000) + unat j" by (simp only:)
    with that show ?thesis by (simp add: region_def in_region_def)
  qed
  note near = this
  have words: "word_in (region 0x1000 0x80) a" if "unat (a - 0x1000) + 3 < 0x80" for a
    unfolding word_in_def using near [OF that] by simp (use near [OF that, of 0] in simp)
  show ?thesis
    unfolding boot_linked_def config_entry_def data_ok_def
    by (simp add: example_image_def example_loads words clear_area_def data_area_def image_area_def
        round8_def region_disjoint region_subset offset_defs)
qed

theorem startup_initialises_memory_witness:
  "\<exists>t. crt0_memory 0x1000 0x9000 example_drivers example_reset = Some t \<and>
    mem t 0x5000 = 7 \<and> mem t 0x5001 = 9 \<and> mem t 0x4003 = 0 \<and> areg t 10 = 0x3008"
proof -
  have "boot_linked (region 0x1000 0x80) (mem example_reset)
      (core_entry 0x1000 (core_id example_reset)) example_image"
    using example_linked by (simp add: example_reset_def core_entry_def)
  moreover have "drivers_keep (region 0x1000 0x80) example_drivers"
    by (simp add: drivers_keep_def example_drivers_def)
  ultimately obtain t where t: "crt0_memory 0x1000 0x9000 example_drivers example_reset = Some t"
    "areg t 10 = bi_stack example_image + bi_stack_size example_image"
    "\<forall>b d n x. (b, d, n) \<in> set (bi_copy example_image) \<longrightarrow> x \<in> region d (unat n) \<longrightarrow>
       mem t x = mem example_reset (b + (x - d))"
    "\<forall>e x. e \<in> set (bi_clear example_image) \<longrightarrow> x \<in> clear_area e \<longrightarrow>
       (\<forall>f \<in> set (bi_copy example_image). x \<notin> data_area f) \<longrightarrow> mem t x = 0"
    using startup_initialises_memory [where R = "region 0x1000 0x80" and s = example_reset
      and crt0_config = "0x1000" and g = example_image and dr = example_drivers and first_trap_table = "0x9000"]
    by blast
  have "mem t 0x5000 = mem example_reset 0x1070" "mem t 0x5001 = mem example_reset 0x1071"
    using t(3) by (auto simp: example_image_def region_def in_region_def)
  moreover have "mem example_reset 0x1070 = 7" "mem example_reset 0x1071 = 9"
    by (simp_all add: example_reset_def example_mem_def example_words_def store_word_def byte_of_def)
  moreover have "mem t 0x4003 = 0"
    using t(4) by (auto simp: example_image_def clear_area_def data_area_def region_def in_region_def round8_def)
  ultimately show ?thesis using t(1,2) by (auto simp: example_image_def)
qed

theorem startup_context_list_witness:
  "\<exists>t. csa_init (set_a 14 0x1000 example_reset) = Some t \<and>
    csa_addr (fcx t) = 0x2000 \<and> csa_next (mem t) (fcx t) = lcx t \<and> fcx t \<noteq> lcx t"
proof -
  let ?s = "set_a 14 0x1000 example_reset"
  have "load_word (mem ?s) (areg ?s 14 + CSA_SIZE) = of_nat (64 * 1)"
    "load_word (mem ?s) (areg ?s 14 + CSA) = 0x2000"
    by (simp_all add: example_reset_def example_loads CSA_SIZE_def CSA_def)
  moreover have "csa_area 0x2000 1" by (simp add: csa_area_def)
  ultimately show ?thesis using startup_context_list [of ?s 1 "0x2000"] by auto
qed

end
