(* ===== verification/Interrupts.thy ===== *)
theory Interrupts
  imports Startup Kernel
begin

unbundle bit_operations_syntax

text \<open>
  Interrupts and traps: the tables that the assembler macros of \<open>src/src/runtime.rs\<close> lay out, the handlers
  that the linker finds for the entries (the weak ones of \<open>runtime.rs\<close>, the ones of the kernel in
  \<open>src/src/cpu/cpu0.rs\<close> and \<open>src/src/main.rs\<close>), and what the core does with them.  The core finds the
  entry of priority \<open>p\<close> at \<open>BIV OR (p << 5)\<close>, that of trap class \<open>c\<close> at \<open>BTV OR (c << 5)\<close>.  The number
  of bytes that the assembler needs for the instructions of an entry is a parameter.
\<close>

section \<open>Assembling the tables\<close>

text \<open>The assembler's location counter is a number; \<open>.align n\<close> moves it to the next multiple of \<open>2 ^ n\<close>.\<close>

definition asm_align :: "nat \<Rightarrow> nat \<Rightarrow> nat" where
  "asm_align n lc = (lc + 2 ^ n - 1) div 2 ^ n * 2 ^ n"

text \<open>
  An entry that is laid out: its number and its address.  A macro that calls itself until its
  bounds are equal would not end for bounds in the wrong order.
\<close>

type_synonym entries = "(int \<times> nat) list"

definition inttab_entry_1 :: "nat \<Rightarrow> int \<Rightarrow> nat \<Rightarrow> (int \<times> nat) \<times> nat" where
  "inttab_entry_1 code_size p lc = (let lc = asm_align 5 lc in ((p, lc), lc + code_size))"

partial_function (option) inttab_entry :: "nat \<Rightarrow> int \<Rightarrow> int \<Rightarrow> nat \<Rightarrow> (entries \<times> nat) option" where
  "inttab_entry code_size from to lc =
     (let (e, lc) = inttab_entry_1 code_size from lc; lc = asm_align 5 lc
      in if to - from \<noteq> 0 then
           Option.bind (inttab_entry code_size (from + 1) to lc) (\<lambda>(es, lc). Some (e # es, lc))
         else Some ([e], lc))"

text \<open>\<open>__INTERRUPT_TABLE\<close>: its address and its entries.\<close>

definition interrupt_table :: "nat \<Rightarrow> nat \<Rightarrow> (nat \<times> entries) option" where
  "interrupt_table code_size lc =
     (let base = asm_align 8 lc
      in Option.bind (inttab_entry code_size 0 15 base) (\<lambda>(es, lc).
         Option.bind (inttab_entry code_size 16 32 lc) (\<lambda>(es', lc). Some (base, es @ es'))))"

partial_function (option) trapentry :: "nat \<Rightarrow> int \<Rightarrow> int \<Rightarrow> nat \<Rightarrow> (entries \<times> nat) option" where
  "trapentry code_size from to lc =
     (let e = (from, lc); lc = asm_align 5 (lc + code_size)
      in if to - from \<noteq> 0 then
           Option.bind (trapentry code_size (from + 1) to lc) (\<lambda>(es, lc). Some (e # es, lc))
         else Some ([e], lc))"

definition trap_table :: "nat \<Rightarrow> nat \<Rightarrow> (nat \<times> entries) option" where
  "trap_table code_size lc =
     (let base = asm_align 8 lc
      in map_option (\<lambda>(es, _). (base, es)) (trapentry code_size 0 7 base))"

text \<open>The weak labels of the default handler.\<close>

partial_function (option) interrupt_hnd :: "int \<Rightarrow> int \<Rightarrow> int list option" where
  "interrupt_hnd from to =
     (if to - from \<noteq> 0 then Option.bind (interrupt_hnd (from + 1) to) (\<lambda>ps. Some (from # ps))
      else Some [from])"

definition default_handlers :: "int list option" where
  "default_handlers =
     Option.bind (interrupt_hnd 0 1) (\<lambda>a. Option.bind (interrupt_hnd 5 5) (\<lambda>b.
     Option.bind (interrupt_hnd 7 15) (\<lambda>c. map_option (\<lambda>d. a @ b @ c @ d) (interrupt_hnd 16 32))))"

section \<open>Entries\<close>

text \<open>
  The code of an interrupt entry and its return.  The core has saved the upper context before it jumps
  to the entry; \<open>svlcx\<close> and \<open>rslcx\<close> save and restore the lower one, \<open>rfe\<close> restores the upper one.
\<close>

definition restore_lower :: "tricore \<Rightarrow> tricore \<Rightarrow> tricore" where
  "restore_lower s t = t\<lparr>
     areg := (\<lambda>r. if 2 \<le> r \<and> r \<le> 7 \<or> r = 11 then areg s r else areg t r),
     dreg := (\<lambda>r. if r \<le> 7 then dreg s r else dreg t r)\<rparr>"

definition inttab_entry_code ::
  "u32 \<Rightarrow> (tricore \<Rightarrow> tricore option) \<Rightarrow> tricore \<Rightarrow> tricore option" where
  "inttab_entry_code handler_address handler s =
     map_option (\<lambda>t. restore_upper s (restore_lower s t))
       (asm_call handler (set_a 14 handler_address s))"

text \<open>The code of a trap entry up to its jump to \<open>_exit\<close>; D15 holds the number of the trap.\<close>

definition trapentry_code :: "nat \<Rightarrow> tricore \<Rightarrow> tricore" where
  "trapentry_code from = asm_block
     [set_d 14 (push_bit 8 (of_nat from)), add_dd 14 14 15, mov_a 14 14, add_ai 14 0xdead0000]"

text \<open>Which handler an entry calls; \<open>None\<close> is a name that the linker does not find.\<close>

datatype isr = DefaultIsr | ExecutorIsr nat | TimerIsr

text \<open>\<open>install_interrupt_executor_handler!\<close> in \<open>main.rs\<close>.\<close>

definition installed_executor_handlers :: "nat list" where
  "installed_executor_handlers = [2, 3, 4]"

definition linked_handler :: "nat \<Rightarrow> isr option" where
  "linked_handler p =
     (if p \<in> set installed_executor_handlers then Some (ExecutorIsr p)
      else if p = 6 then Some TimerIsr
      else case default_handlers of
             Some ps \<Rightarrow> if int p \<in> set ps then Some DefaultIsr else None
           | None \<Rightarrow> None)"

fun run_isr ::
  "nat \<Rightarrow> ('q, 'r, 't, 'v, 'a) kernel_libs \<Rightarrow> ('f, 's) task_poll \<Rightarrow> isr \<Rightarrow>
     ('q, 't, 'v, 'a, 'f, 's) kernel \<Rightarrow> ('q, 't, 'v, 'a, 'f, 's) kernel outcome option" where
  "run_isr fuel L poll DefaultIsr k = Some (Ret k)"
| "run_isr fuel L poll (ExecutorIsr p) k = interrupt_executor_handler fuel L poll p k"
| "run_isr fuel L poll TimerIsr k = Kernel_on_timer_interrupt fuel L k"

section \<open>Dispatch\<close>

definition vector_address :: "u32 \<Rightarrow> nat \<Rightarrow> u32" where
  "vector_address base n = base OR push_bit 5 (of_nat n)"

definition entry_at :: "entries \<Rightarrow> u32 \<Rightarrow> nat option" where
  "entry_at es a = map_option (\<lambda>(n, _). nat n) (List.find (\<lambda>(_, b). of_nat b = a) es)"

text \<open>An interrupt of priority \<open>p\<close>; a jump to an address that is no entry is undefined behaviour.\<close>

definition take_interrupt ::
  "nat \<Rightarrow> ('q, 'r, 't, 'v, 'a) kernel_libs \<Rightarrow> ('f, 's) task_poll \<Rightarrow> u32 \<Rightarrow> entries \<Rightarrow> nat \<Rightarrow>
     ('q, 't, 'v, 'a, 'f, 's) kernel \<Rightarrow> ('q, 't, 'v, 'a, 'f, 's) kernel outcome option" where
  "take_interrupt fuel L poll base es p k =
     (case Option.bind (entry_at es (vector_address base p)) linked_handler of
        Some h \<Rightarrow> run_isr fuel L poll h k
      | None \<Rightarrow> Some (Panic UndefinedBehaviour))"

section \<open>Laws of the layout\<close>

lemma asm_align_id: "2 ^ n dvd lc \<Longrightarrow> asm_align n lc = lc"
proof -
  assume "2 ^ n dvd lc"
  then obtain q where q: "lc = 2 ^ n * q" ..
  have "(d * q + d - 1) div d = q" if "0 < d" for d :: nat
    using that by (intro div_nat_eqI) (auto simp: algebra_simps intro: diff_less_mono)
  then have "(2 ^ n * q + 2 ^ n - 1) div 2 ^ n = q" by simp
  then show ?thesis by (simp add: asm_align_def q)
qed

lemma asm_align_dvd: "2 ^ n dvd asm_align n lc"
  by (simp add: asm_align_def)

lemma asm_align_next:
  assumes "32 dvd lc" "0 < k" "k \<le> 32"
  shows "asm_align 5 (lc + k) = lc + 32"
proof -
  from assms(1) obtain q where q: "lc = 32 * q" ..
  have "(lc + k + 2 ^ 5 - 1) div 2 ^ 5 = q + 1"
    using assms(2,3) q by (intro div_nat_eqI) simp_all
  then show ?thesis by (simp only: asm_align_def q) simp
qed

definition entries_from :: "int \<Rightarrow> nat \<Rightarrow> nat \<Rightarrow> entries" where
  "entries_from from n lc = map (\<lambda>i. (from + int i, lc + 32 * i)) [0..<n]"

lemma entries_from_nth:
  "length (entries_from a n lc) = n" "i < n \<Longrightarrow> entries_from a n lc ! i = (a + int i, lc + 32 * i)"
  by (simp_all add: entries_from_def)

lemma entries_from_Cons:
  "entries_from from (Suc n) lc = (from, lc) # entries_from (from + 1) n (lc + 32)"
  by (simp add: entries_from_def map_upt_Suc ac_simps del: upt_Suc)

lemma inttab_entry_layout:
  assumes "0 < k" "k \<le> 32"
  shows "32 dvd lc \<Longrightarrow>
    inttab_entry k from (from + int n) lc = Some (entries_from from (Suc n) lc, lc + 32 * Suc n)"
proof (induction n arbitrary: "from" lc)
  case 0
  then show ?case
    using asm_align_next [OF 0 assms] asm_align_id [of 5 lc]
    by (subst inttab_entry.simps) (simp add: inttab_entry_1_def entries_from_def)
next
  case (Suc n)
  have "inttab_entry k (from + 1) (from + int (Suc n)) (lc + 32) =
      Some (entries_from (from + 1) (Suc n) (lc + 32), lc + 32 + 32 * Suc n)"
    using Suc.IH [of "lc + 32" "from + 1"] Suc.prems by (simp add: ac_simps)
  then show ?case
    using asm_align_next [OF Suc.prems assms] asm_align_id [of 5 lc] Suc.prems
    by (subst inttab_entry.simps) (simp add: inttab_entry_1_def entries_from_Cons [of "from" "Suc n"])
qed

lemma trapentry_layout:
  assumes "0 < k" "k \<le> 32"
  shows "32 dvd lc \<Longrightarrow>
    trapentry k from (from + int n) lc = Some (entries_from from (Suc n) lc, lc + 32 * Suc n)"
proof (induction n arbitrary: "from" lc)
  case 0
  then show ?case
    using asm_align_next [OF 0 assms] by (subst trapentry.simps) (simp add: entries_from_def)
next
  case (Suc n)
  have "trapentry k (from + 1) (from + int (Suc n)) (lc + 32) =
      Some (entries_from (from + 1) (Suc n) (lc + 32), lc + 32 + 32 * Suc n)"
    using Suc.IH [of "lc + 32" "from + 1"] Suc.prems by (simp add: ac_simps)
  then show ?case
    using asm_align_next [OF Suc.prems assms]
    by (subst trapentry.simps) (simp add: entries_from_Cons [of "from" "Suc n"])
qed

lemma entries_from_append:
  "entries_from a n lc @ entries_from (a + int n) m (lc + 32 * n) = entries_from a (n + m) lc"
proof (induction n arbitrary: a lc)
  case (Suc n)
  have "a + int (Suc n) = a + 1 + int n" "lc + 32 * Suc n = lc + 32 + 32 * n" by simp_all
  with Suc [of "a + 1" "lc + 32"] show ?case by (simp only: entries_from_Cons append_Cons add_Suc)
qed (simp add: entries_from_def)

lemma interrupt_table_layout:
  assumes "0 < k" "k \<le> 32"
  shows "interrupt_table k lc = Some (asm_align 8 lc, entries_from 0 33 (asm_align 8 lc))"
proof -
  let ?b = "asm_align 8 lc"
  have b: "32 dvd ?b" using asm_align_dvd [of 8 lc] by (simp add: dvd_trans [of 32 256])
  have "inttab_entry k 0 15 ?b = Some (entries_from 0 16 ?b, ?b + 32 * 16)"
    using inttab_entry_layout [OF assms b, of 0 15] by simp
  moreover have "inttab_entry k 16 32 (?b + 32 * 16) = Some (entries_from 16 17 (?b + 32 * 16), ?b + 32 * 33)"
    using inttab_entry_layout [OF assms, of "?b + 32 * 16" 16 16] b by simp
  moreover have "entries_from 0 16 ?b @ entries_from 16 17 (?b + 32 * 16) = entries_from 0 33 ?b"
    using entries_from_append [of 0 16 ?b 17] by simp
  ultimately show ?thesis by (simp add: interrupt_table_def Let_def)
qed

lemma trap_table_layout:
  assumes "0 < k" "k \<le> 32"
  shows "trap_table k lc = Some (asm_align 8 lc, entries_from 0 8 (asm_align 8 lc))"
  using trapentry_layout [OF assms, of "asm_align 8 lc" 0 7] asm_align_dvd [of 8 lc]
  by (simp add: trap_table_def Let_def dvd_trans [of 32 256])

lemma interrupt_hnd_range: "interrupt_hnd from (from + int n) = Some (map (\<lambda>i. from + int i) [0..<Suc n])"
proof (induction n arbitrary: "from")
  case 0
  show ?case by (subst interrupt_hnd.simps) simp
next
  case (Suc n)
  have "interrupt_hnd (from + 1) (from + int (Suc n)) = Some (map (\<lambda>i. from + 1 + int i) [0..<Suc n])"
    using Suc.IH [of "from + 1"] by (simp add: ac_simps)
  moreover have "map (\<lambda>i. from + int i) [0..<Suc (Suc n)] = from # map (\<lambda>i. from + 1 + int i) [0..<Suc n]"
    by (simp add: map_upt_Suc [of _ "Suc n"] ac_simps del: upt_Suc)
  ultimately show ?case by (subst interrupt_hnd.simps) simp
qed

lemma default_handlers_eq:
  "\<exists>ps. default_handlers = Some ps \<and> set ps = {0..32} - {2, 3, 4, 6}"
proof -
  have r: "interrupt_hnd a b = Some (map (\<lambda>i. a + int i) [0..<Suc (nat (b - a))])" if "a \<le> b" for a b
    using interrupt_hnd_range [of a "nat (b - a)"] that by simp
  have s: "set (map (\<lambda>i. a + int i) [0..<n]) = {a..<a + int n}" for a n
  proof -
    have "x \<in> (\<lambda>i. a + int i) ` {0..<n}" if "a \<le> x" "x < a + int n" for x
      using that by (intro image_eqI [of _ _ "nat (x - a)"]) auto
    then show ?thesis by auto
  qed
  show ?thesis
    unfolding default_handlers_def
    by (simp add: r s del: upt_Suc set_map) auto
qed

section \<open>Laws of the dispatch\<close>

text \<open>
  The entry that the core reaches: the bits of the priority that the address of the table has as well
  get lost in the \<open>OR\<close>.
\<close>

definition reached_entry :: "u32 \<Rightarrow> nat \<Rightarrow> nat" where
  "reached_entry base n = unat (of_nat n AND NOT (drop_bit 5 base) :: u32)"

lemma unat_of_small: "n < 2 ^ 27 \<Longrightarrow> unat (of_nat n :: u32) = n"
  by (simp add: unsigned_of_nat take_bit_nat_eq_self)

lemma reached_entry_le: "n < 2 ^ 27 \<Longrightarrow> reached_entry base n \<le> n"
  using word_and_le2 [of "of_nat n :: u32" "NOT (drop_bit 5 base)"]
  by (simp add: reached_entry_def word_le_nat_alt unat_of_small)

lemma vector_address_eq:
  assumes "n < 2 ^ 27"
  shows "vector_address base n = base + of_nat (32 * reached_entry base n)"
proof -
  let ?x = "push_bit 5 (of_nat n AND NOT (drop_bit 5 base)) :: u32"
  have "base OR push_bit 5 (of_nat n) = base OR ?x"
    by (intro bit_word_eqI) (auto simp: bit_simps)
  also have "\<dots> = base + ?x"
    by (intro disjunctive_add_eq_or [symmetric] bit_word_eqI) (auto simp: bit_simps)
  also have "?x = of_nat (32 * reached_entry base n)"
    by (simp add: reached_entry_def push_bit_eq_mult mult.commute)
  finally show ?thesis by (simp add: vector_address_def)
qed

lemma entry_at_entries:
  assumes "lc + 32 * n \<le> 2 ^ 32" "i < n"
  shows "entry_at (entries_from 0 n lc) (of_nat (lc + 32 * i)) = Some i"
proof -
  have un: "unat (of_nat (lc + 32 * j) :: u32) = lc + 32 * j" if "j < n" for j
    using assms that by (intro unat_of_nat32) simp
  have inj: "(of_nat (lc + 32 * j) :: u32) = of_nat (lc + 32 * i) \<longleftrightarrow> j = i" if "j < n" for j
    using un [OF that] un [OF assms(2)] by (metis add_left_cancel mult_cancel1 zero_neq_numeral)
  have "List.find (\<lambda>(_, b). (of_nat b :: u32) = of_nat (lc + 32 * i)) (entries_from 0 n lc) =
      Some (int i, lc + 32 * i)"
    unfolding find_Some_iff
  proof (intro exI [of _ i] conjI allI impI)
    fix j
    assume "j < i"
    then show "\<not> (case entries_from 0 n lc ! j of (_, b) \<Rightarrow> (of_nat b :: u32) = of_nat (lc + 32 * i))"
      using assms(2) inj [of j] by (simp add: entries_from_nth)
  qed (simp_all add: entries_from_nth assms(2))
  then show ?thesis by (simp add: entry_at_def)
qed

text \<open>A table at a multiple of 256 keeps the priorities below 8.\<close>

lemma reached_entry_aligned:
  assumes "256 dvd lc" "lc < 2 ^ 32" "n < 8"
  shows "reached_entry (of_nat lc) n = n"
proof -
  obtain q where "lc = 256 * q" using assms(1) ..
  then have "lc = push_bit 8 q" by (simp add: push_bit_eq_mult)
  then have low: "\<not> bit lc i" if "i < 8" for i
    using that by (simp add: bit_push_bit_iff)
  have "bit (of_nat n AND NOT (drop_bit 5 (of_nat lc :: u32))) i = bit (of_nat n :: u32) i" if "i < 32" for i
  proof (cases "i < 3")
    case True
    with low show ?thesis by (simp add: bit_simps)
  next
    case False
    have "n < 2 ^ i" using assms(3) power_increasing [of 3 i "2::nat"] False by simp
    then have "\<not> bit n i" by (simp add: bit_iff_odd)
    then show ?thesis by (simp add: bit_simps)
  qed
  then have "of_nat n AND NOT (drop_bit 5 (of_nat lc :: u32)) = of_nat n"
    by (intro bit_word_eqI) simp
  with unat_of_small [of n] assms(3) show ?thesis by (simp add: reached_entry_def)
qed

lemma linked_handler_eq:
  assumes "p \<le> 32"
  shows "linked_handler p = Some (if p \<in> {2, 3, 4} then ExecutorIsr p else if p = 6 then TimerIsr else DefaultIsr)"
proof -
  obtain ps where ps: "default_handlers = Some ps" "set ps = {0..32} - {2, 3, 4, 6}"
    using default_handlers_eq by blast
  have "int p \<in> set ps \<longleftrightarrow> p \<notin> {2, 3, 4, 6}" using assms by (simp add: ps)
  then show ?thesis by (simp add: linked_handler_def installed_executor_handlers_def ps(1))
qed

lemma reached_entry_id: "n < 2 ^ 27 \<Longrightarrow>
    reached_entry base n = n \<longleftrightarrow> (of_nat n :: u32) AND drop_bit 5 base = 0"
proof -
  assume n: "n < 2 ^ 27"
  let ?n = "of_nat n :: u32" and ?b = "drop_bit 5 base"
  have "reached_entry base n = n \<longleftrightarrow> ?n AND NOT ?b = ?n"
    using unat_of_small [OF n] unfolding reached_entry_def by (metis unsigned_word_eqI)
  also have "\<dots> \<longleftrightarrow> ?n AND ?b = 0"
    by (auto simp: bit_eq_iff bit_simps)
  finally show ?thesis .
qed

text \<open>An interrupt leaves the registers of the code that it interrupts as they were, but for the global ones.\<close>

lemma inttab_entry_keeps:
  assumes "inttab_entry_code a handler s = Some t"
  shows "r < 16 \<Longrightarrow> r \<notin> {0, 1, 8, 9} \<Longrightarrow> areg t r = areg s r" "r < 16 \<Longrightarrow> dreg t r = dreg s r" "psw t = psw s"
  using assms
  by (auto simp: inttab_entry_code_def asm_call_def restore_lower_def restore_upper_def set_a_def)

text \<open>
  The trap table is aligned to its size, so each trap class reaches its own entry, which leaves a mark
  with the class and the number of the trap in A14.
\<close>

lemma traps_reach_entries:
  assumes "0 < k" "k \<le> 32" "trap_table k lc = Some (base, es)" "base + 256 \<le> 2 ^ 32" "c < 8"
  shows "entry_at es (vector_address (of_nat base) c) = Some c"
    "areg (trapentry_code c s) 14 = 0xdead0000 + push_bit 8 (of_nat c) + dreg s 15"
proof -
  have t: "base = asm_align 8 lc" "es = entries_from 0 8 base"
    using assms(3) by (auto simp: trap_table_layout [OF assms(1,2)])
  have "256 dvd base" using asm_align_dvd [of 8 lc] by (simp add: t)
  then have "reached_entry (of_nat base) c = c"
    using assms(4,5) by (intro reached_entry_aligned) auto
  then have "vector_address (of_nat base) c = of_nat (base + 32 * c)"
    using vector_address_eq [of c "of_nat base"] assms(5) by simp
  then show "entry_at es (vector_address (of_nat base) c) = Some c"
    using entry_at_entries [of base 8 c] assms(4,5) by (simp add: t(2))
  show "areg (trapentry_code c s) 14 = 0xdead0000 + push_bit 8 (of_nat c) + dreg s 15"
    by (simp add: trapentry_code_def instr_defs)
qed

section \<open>Properties\<close>

text \<open>
  C32. Interrupts reach their handlers: with the table that the macros lay out and the register that
  \<open>load_interrupt_table\<close> sets, an interrupt of priority \<open>p\<close> runs the handler of an entry of the table, which is
  linked for every priority: the software interrupts 2, 3 and 4 poll their executor, 6 is the
  tick, and the others do nothing.  Below priority 8 the entry is that of \<open>p\<close>.  The table is aligned
  to 256 bytes although it is longer, so from priority 8 on it depends on the address that the linker
  chooses: the entry is that of \<open>p\<close> only if the address has no bit of \<open>p << 5\<close>, and a lower one otherwise.
\<close>

theorem interrupts_reach_handlers:
  assumes "0 < code_size" "code_size \<le> 32" "interrupt_table code_size lc = Some (base, es)"
    and "base + 32 * 33 \<le> 2 ^ 32" "p \<le> 32"
    and "\<And>f s. biv (call_without_endinit dr f s) = biv (f s)"
    and "b = biv (load_interrupt_table dr (of_nat base) s)" "q = reached_entry b p"
  shows "take_interrupt fuel L poll b es p k =
      (if q \<in> {2, 3, 4} then interrupt_executor_handler fuel L poll q k
       else if q = 6 then Kernel_on_timer_interrupt fuel L k else Some (Ret k)) \<and>
    q \<le> p \<and> (p < 8 \<longrightarrow> q = p) \<and> (q = p \<longleftrightarrow> (of_nat p :: u32) AND drop_bit 5 b = 0)"
proof -
  have t: "base = asm_align 8 lc" "es = entries_from 0 33 base"
    using assms(3) by (auto simp: interrupt_table_layout [OF assms(1,2)])
  have b: "b = of_nat base" by (simp add: assms(6,7) load_interrupt_table_def)
  have p: "p < 2 ^ 27" using assms(5) by simp
  have q: "q \<le> p" using reached_entry_le [OF p] by (simp add: assms(8))
  have "vector_address b p = of_nat (base + 32 * q)"
    using vector_address_eq [OF p, of b] by (simp add: assms(8) b)
  then have "entry_at es (vector_address b p) = Some q"
    using entry_at_entries [of base 33 q] assms(4,5) q by (simp add: t(2))
  moreover have "256 dvd base" using asm_align_dvd [of 8 lc] by (simp add: t)
  then have "p < 8 \<longrightarrow> q = p"
    using assms(4) reached_entry_aligned [of base p] by (simp add: assms(8) b)
  ultimately show ?thesis
    using q assms(5) reached_entry_id [OF p, of b] linked_handler_eq [of q]
    by (simp add: take_interrupt_def assms(8))
qed

text \<open>
  With the table at \<open>0x80000100\<close>, the tick reaches the timer, but an interrupt of priority 10 polls the
  executor of priority 2.
\<close>

theorem interrupts_reach_handlers_witness:
  "\<exists>es. interrupt_table 24 0x800000F0 = Some (0x80000100, es) \<and>
    (\<forall>fuel L poll k. take_interrupt fuel L poll 0x80000100 es 6 k = Kernel_on_timer_interrupt fuel L k \<and>
       take_interrupt fuel L poll 0x80000100 es 10 k = interrupt_executor_handler fuel L poll 2 k)"
proof -
  have b: "biv (load_interrupt_table example_drivers (of_nat 0x80000100) s) = 0x80000100" for s
    by (simp add: load_interrupt_table_def example_drivers_def)
  have r: "reached_entry 0x80000100 10 = 2" "reached_entry 0x80000100 6 = 6"
    by (simp_all add: reached_entry_def)
  have t: "interrupt_table 24 0x800000F0 = Some (0x80000100, entries_from 0 33 0x80000100)"
    using interrupt_table_layout [of 24 "0x800000F0"] by (simp add: asm_align_def)
  have d: "biv (call_without_endinit example_drivers f s) = biv (f s)" for f s
    by (simp add: example_drivers_def)
  note i = interrupts_reach_handlers [OF _ _ t _ _ d b [symmetric] r(1) [symmetric]]
    interrupts_reach_handlers [OF _ _ t _ _ d b [symmetric] r(2) [symmetric]]
  have "take_interrupt fuel L poll 0x80000100 (entries_from 0 33 0x80000100) 6 k =
      Kernel_on_timer_interrupt fuel L k" for fuel L poll k
    using i(2) by simp
  moreover have "take_interrupt fuel L poll 0x80000100 (entries_from 0 33 0x80000100) 10 k =
      interrupt_executor_handler fuel L poll 2 k" for fuel L poll k
    using i(1) by simp
  ultimately show ?thesis using t by blast
qed

end
