(* ===== verification/Preemption.thy ===== *)
theory Preemption
  imports Kernel
begin

text \<open>
  Executors that preempt each other and are preempted by interrupts.  A round of an executor,
  \<open>BaseExecutor::exec_once\<close>, is cut where the code enters or leaves a critical section, reads the clock, polls a task or
  calls the alarm queue; between two of these pieces anything may run: other executors, the tick interrupt, and
  interrupt handlers that wake tasks, themselves cut between the section that queues the task and the call of
  \<open>pend\<close>.  A run is a list of events in any order, which includes the orders that the priorities of
  the core allow.  What is local to a round (its place in the code and its local variables) is a \<open>phase\<close>.
  \<open>undisturbed_round\<close> shows that a round without interruption is \<open>exec_once\<close>.
\<close>

section \<open>State\<close>

datatype 'r phase =
    PhIdle                              \<comment> \<open>outside \<open>exec_once\<close>\<close>
  | PhCheck                             \<comment> \<open>\<open>check_timer_queue\<close> is about to read the clock\<close>
  | PhDequeue nat                       \<comment> \<open>about to lock the timer queue, with \<open>now\<close>\<close>
  | PhQueueReady 'r                     \<comment> \<open>about to lock the run queue, with \<open>ready\<close>\<close>
  | PhPop                               \<comment> \<open>at the head of the loop of \<open>advance_runnable_tasks\<close>\<close>
  | PhRun nat                           \<comment> \<open>about to poll the task that was popped\<close>
  | PhEffects nat "task_effect list"    \<comment> \<open>inside the poll, with the effects to come\<close>
  | PhPend nat pender "task_effect list" \<comment> \<open>inside a wake of the poll, between its section and \<open>pend\<close>\<close>
  | PhUpdate nat                        \<comment> \<open>about to call \<open>update_timer_queue\<close>\<close>
  | PhRenew                             \<comment> \<open>\<open>renew_alarm\<close> is about to read the timer queue\<close>
  | PhSetAlarm nat                      \<comment> \<open>about to call \<open>set_alarm\<close> with \<open>next_tick\<close>\<close>
  | PhReturn "unit option"              \<comment> \<open>\<open>set_alarm\<close> has returned\<close>

text \<open>
  The kernel, the place of each executor in its code, and the interrupt handlers that have queued a task and
  have yet to pend its executor, the innermost first.  The last two fields are for the statements only: the executors whose
  last \<open>set_alarm\<close> was refused, and the tasks that were polled, with their executors, in order.
\<close>

record ('q, 'r, 't, 'v, 'a, 'f, 's) pre_state =
  ps_kernel :: "('q, 't, 'v, 'a, 'f, 's) kernel"
  ps_phase :: "nat \<Rightarrow> 'r phase"
  ps_isr :: "pender list"
  ps_refused :: "nat set"
  ps_polled :: "(nat \<times> nat) list"

section \<open>The pieces of a round\<close>

text \<open>\<open>wake_by_ref\<close> up to the end of the critical section of \<open>enqueue_and_pend\<close>: the pender that is called next.\<close>

definition wake_section ::
  "('q, 'r, 't, 'v, 'a) kernel_libs \<Rightarrow> waker \<Rightarrow> ('q, 't, 'v, 'a, 'f, 's) kernel \<Rightarrow>
     (pender option \<times> ('q, 't, 'v, 'a, 'f, 's) kernel) outcome" where
  "wake_section L w k =
     (if waker_vtable w = VTABLE then
        with_header (waker_data w) (\<lambda>task.
          with_exec (th_executor task) (\<lambda>x.
            let (_, q) = Deque_push_back (lib_run L) (be_run_queue x) (waker_data w)
            in Ret (Some (be_pender x), set_exec (th_executor task) (x\<lparr>be_run_queue := q\<rparr>) k)) k) k
      else Ret (None, k))"

fun micro_step ::
  "nat \<Rightarrow> ('q, 'r, 't, 'v, 'a) kernel_libs \<Rightarrow> ('f, 's) task_poll \<Rightarrow> nat \<Rightarrow> 'r phase \<Rightarrow>
     ('q, 't, 'v, 'a, 'f, 's) kernel \<Rightarrow> ('r phase \<times> ('q, 't, 'v, 'a, 'f, 's) kernel) outcome option" where
  "micro_step fuel L poll e PhIdle k = Some (Ret (PhIdle, k))"
| "micro_step fuel L poll e PhCheck k = Some (Ret (PhDequeue (Kernel_now k), k))"
| "micro_step fuel L poll e (PhDequeue now) k =
     (case k_execs k e of
        None \<Rightarrow> Some (Panic UndefinedBehaviour)
      | Some x \<Rightarrow>
          bind_fuel (TimerQueue_dequeue_expired fuel (lib_timers L) (be_timer_queue x) now
              (push_ready L) (Vec_new (lib_ready L)) 0) (\<lambda>(_, tq, ready).
            Some (Ret (PhQueueReady ready, set_exec e (x\<lparr>be_timer_queue := tq\<rparr>) k))))"
| "micro_step fuel L poll e (PhQueueReady ready) k =
     Some (with_exec e (\<lambda>x.
       bind_out (each_out (push_back_unwrap L) (Vec_as_slice (lib_ready L) ready) (be_run_queue x)) (\<lambda>q.
         Ret (PhPop, set_exec e (x\<lparr>be_run_queue := q\<rparr>) k))) k)"
| "micro_step fuel L poll e PhPop k =
     Some (with_exec e (\<lambda>x.
       case Deque_pop_front (lib_run L) (be_run_queue x) of
         (None, q) \<Rightarrow> Ret (PhRenew, set_exec e (x\<lparr>be_run_queue := q\<rparr>) k)
       | (Some t, q) \<Rightarrow> Ret (PhRun t, set_exec e (x\<lparr>be_run_queue := q\<rparr>) k)) k)"
| "micro_step fuel L poll e (PhRun t) k =
     Some (with_header t (\<lambda>h.
       let h = h\<lparr>th_expires_at := None\<rparr>;
           (r, fut, v) = poll (th_fut_ref h) (RawWaker t VTABLE)
             \<lparr>tv_now = Kernel_now k, tv_effects = [], tv_shared = k_shared k\<rparr>
       in case r of
            Ready _ \<Rightarrow> Panic ExplicitPanic
          | Pending \<Rightarrow> Ret (PhEffects t (tv_effects v),
              set_header t (h\<lparr>th_fut_ref := fut\<rparr>) (k\<lparr>k_shared := tv_shared v\<rparr>))) k)"
| "micro_step fuel L poll e (PhEffects t []) k = Some (Ret (PhUpdate t, k))"
| "micro_step fuel L poll e (PhEffects t (EffWake w # fs)) k =
     Some (bind_out (wake_section L w k) (\<lambda>(p, k).
       Ret (case p of None \<Rightarrow> PhEffects t fs | Some p \<Rightarrow> PhPend t p fs, k)))"
| "micro_step fuel L poll e (PhEffects t (EffSetDeadline cx d # fs)) k =
     Some (bind_out (apply_effect L k (EffSetDeadline cx d)) (\<lambda>k. Ret (PhEffects t fs, k)))"
| "micro_step fuel L poll e (PhPend t p fs) k = Some (Ret (PhEffects t fs, Pender_pend p k))"
| "micro_step fuel L poll e (PhUpdate t) k =
     Some (bind_out (BaseExecutor_update_timer_queue L e t k) (\<lambda>k. Ret (PhPop, k)))"
| "micro_step fuel L poll e PhRenew k =
     Some (with_exec e (\<lambda>x.
       case TimerQueue_next_expiration (lib_timers L) (be_timer_queue x) of
         Some next_tick \<Rightarrow> Ret (PhSetAlarm next_tick, k)
       | None \<Rightarrow> Ret (PhIdle, k)) k)"
| "micro_step fuel L poll e (PhSetAlarm d) k =
     Some (bind_out (BaseExecutor_set_alarm L e d k) (\<lambda>(r, k). Ret (PhReturn r, k)))"
| "micro_step fuel L poll e (PhReturn r) k = Some (Ret (PhIdle, k))"

section \<open>Events\<close>

text \<open>
  Entering a round takes the request: the thread executor clears the event in its loop, the core clears the request of
  a software interrupt when it enters the handler.
\<close>

definition take_request ::
  "pender \<Rightarrow> ('q, 't, 'v, 'a, 'f, 's) kernel \<Rightarrow> bool \<times> ('q, 't, 'v, 'a, 'f, 's) kernel" where
  "take_request p k =
     (case p of
        ThreadExecutorPender \<Rightarrow> Kernel_event_fetch_and_clear_local k
      | InterruptExecutorPender n \<Rightarrow> (n \<in> k_sw_requests k, k\<lparr>k_sw_requests := k_sw_requests k - {n}\<rparr>))"

datatype pre_event =
    EvEnter nat   \<comment> \<open>an executor starts a round, if it is idle and has been pended\<close>
  | EvStep nat    \<comment> \<open>the next piece of the round of an executor\<close>
  | EvTick        \<comment> \<open>the tick interrupt\<close>
  | EvWake nat    \<comment> \<open>an interrupt handler calls the waker of a task: the section that queues it\<close>
  | EvPend        \<comment> \<open>the innermost such handler pends the executor and returns\<close>

fun refused_after :: "nat \<Rightarrow> 'r phase \<Rightarrow> nat set \<Rightarrow> nat set" where
  "refused_after e (PhReturn None) R = insert e R"
| "refused_after e (PhReturn (Some _)) R = R - {e}"
| "refused_after e _ R = R"

fun polled_after :: "nat \<Rightarrow> 'r phase \<Rightarrow> (nat \<times> nat) list" where
  "polled_after e (PhRun t) = [(e, t)]"
| "polled_after e _ = []"

definition moved ::
  "('q, 'r, 't, 'v, 'a, 'f, 's) pre_state \<Rightarrow> nat \<Rightarrow> 'r phase \<Rightarrow> ('q, 't, 'v, 'a, 'f, 's) kernel \<Rightarrow>
     ('q, 'r, 't, 'v, 'a, 'f, 's) pre_state" where
  "moved s e ph k = s\<lparr>ps_kernel := k, ps_phase := (ps_phase s)(e := ph),
     ps_refused := refused_after e ph (ps_refused s),
     ps_polled := ps_polled s @ polled_after e (ps_phase s e)\<rparr>"

fun pre_exec ::
  "nat \<Rightarrow> ('q, 'r, 't, 'v, 'a) kernel_libs \<Rightarrow> ('f, 's) task_poll \<Rightarrow> ('q, 'r, 't, 'v, 'a, 'f, 's) pre_state \<Rightarrow>
     pre_event \<Rightarrow> ('q, 'r, 't, 'v, 'a, 'f, 's) pre_state outcome option" where
  "pre_exec fuel L poll s (EvEnter e) =
     (case (ps_phase s e, k_execs (ps_kernel s) e) of
        (PhIdle, Some x) \<Rightarrow>
          (let (taken, k) = take_request (be_pender x) (ps_kernel s)
           in Some (Ret (s\<lparr>ps_kernel := k,
                ps_phase := if taken then (ps_phase s)(e := PhCheck) else ps_phase s\<rparr>)))
      | _ \<Rightarrow> Some (Ret s))"
| "pre_exec fuel L poll s (EvStep e) =
     bind_fuel (micro_step fuel L poll e (ps_phase s e) (ps_kernel s)) (\<lambda>(ph, k).
       Some (Ret (moved s e ph k)))"
| "pre_exec fuel L poll s EvTick =
     bind_fuel (Kernel_on_timer_interrupt fuel L (ps_kernel s)) (\<lambda>k. Some (Ret (s\<lparr>ps_kernel := k\<rparr>)))"
| "pre_exec fuel L poll s (EvWake t) =
     (case k_tasks (ps_kernel s) t of
        None \<Rightarrow> Some (Ret s)
      | Some _ \<Rightarrow>
          bind_fuel (Some (wake_section L (RawWaker t VTABLE) (ps_kernel s))) (\<lambda>(p, k).
            Some (Ret (s\<lparr>ps_kernel := k, ps_isr := (case p of None \<Rightarrow> ps_isr s | Some p \<Rightarrow> p # ps_isr s)\<rparr>))))"
| "pre_exec fuel L poll s EvPend =
     (case ps_isr s of
        [] \<Rightarrow> Some (Ret s)
      | p # ps \<Rightarrow> Some (Ret (s\<lparr>ps_kernel := Pender_pend p (ps_kernel s), ps_isr := ps\<rparr>)))"

fun pre_run ::
  "nat \<Rightarrow> ('q, 'r, 't, 'v, 'a) kernel_libs \<Rightarrow> ('f, 's) task_poll \<Rightarrow> pre_event list \<Rightarrow>
     ('q, 'r, 't, 'v, 'a, 'f, 's) pre_state \<Rightarrow> ('q, 'r, 't, 'v, 'a, 'f, 's) pre_state outcome option" where
  "pre_run fuel L poll [] s = Some (Ret s)"
| "pre_run fuel L poll (ev # evs) s = bind_fuel (pre_exec fuel L poll s ev) (pre_run fuel L poll evs)"

text \<open>All executors are idle and no interrupt handler is active.\<close>

definition pre_start :: "('q, 't, 'v, 'a, 'f, 's) kernel \<Rightarrow> ('q, 'r, 't, 'v, 'a, 'f, 's) pre_state" where
  "pre_start k = \<lparr>ps_kernel = k, ps_phase = (\<lambda>_. PhIdle), ps_isr = [], ps_refused = {}, ps_polled = []\<rparr>"

section \<open>Undisturbed rounds\<close>

fun micro_steps ::
  "nat \<Rightarrow> ('q, 'r, 't, 'v, 'a) kernel_libs \<Rightarrow> ('f, 's) task_poll \<Rightarrow> nat \<Rightarrow> nat \<Rightarrow>
     'r phase \<times> ('q, 't, 'v, 'a, 'f, 's) kernel \<Rightarrow> ('r phase \<times> ('q, 't, 'v, 'a, 'f, 's) kernel) outcome option" where
  "micro_steps fuel L poll e 0 c = Some (Ret c)"
| "micro_steps fuel L poll e (Suc n) (ph, k) =
     bind_fuel (micro_step fuel L poll e ph k) (micro_steps fuel L poll e n)"

text \<open>The pieces from one phase to another amount to a given outcome.\<close>

definition micro_reaches ::
  "nat \<Rightarrow> ('q, 'r, 't, 'v, 'a) kernel_libs \<Rightarrow> ('f, 's) task_poll \<Rightarrow> nat \<Rightarrow> 'r phase \<Rightarrow>
     ('q, 't, 'v, 'a, 'f, 's) kernel \<Rightarrow> 'r phase \<Rightarrow> ('q, 't, 'v, 'a, 'f, 's) kernel outcome \<Rightarrow> bool" where
  "micro_reaches fuel L poll e ph k ph' r \<longleftrightarrow>
     (\<exists>n. micro_steps fuel L poll e n (ph, k) = Some (bind_out r (\<lambda>k'. Ret (ph', k'))))"

lemma micro_steps_append:
  "micro_steps fuel L poll e (m + n) c = bind_fuel (micro_steps fuel L poll e m c) (micro_steps fuel L poll e n)"
proof (induction m arbitrary: c)
  case (Suc m)
  obtain ph k where c: "c = (ph, k)" by fastforce
  show ?case
  proof (cases "micro_step fuel L poll e ph k")
    case (Some r)
    then show ?thesis using Suc.IH by (cases r) (simp_all add: c)
  qed (simp add: c)
qed simp

lemma micro_reaches_refl: "micro_reaches fuel L poll e ph k ph (Ret k)"
  unfolding micro_reaches_def by (intro exI [of _ 0]) simp

lemma micro_reaches_trans:
  assumes "micro_reaches fuel L poll e ph k ph1 r1" and "\<And>k1. r1 = Ret k1 \<Longrightarrow> micro_reaches fuel L poll e ph1 k1 ph2 (f k1)"
  shows "micro_reaches fuel L poll e ph k ph2 (bind_out r1 f)"
proof -
  from assms(1) obtain m where m: "micro_steps fuel L poll e m (ph, k) = Some (bind_out r1 (\<lambda>k'. Ret (ph1, k')))"
    by (auto simp: micro_reaches_def)
  show ?thesis
  proof (cases r1)
    case (Ret k1)
    with assms(2) obtain n where "micro_steps fuel L poll e n (ph1, k1) = Some (bind_out (f k1) (\<lambda>k'. Ret (ph2, k')))"
      by (auto simp: micro_reaches_def)
    with m Ret show ?thesis unfolding micro_reaches_def by (intro exI [of _ "m + n"]) (simp add: micro_steps_append)
  next
    case (Panic p)
    with m show ?thesis unfolding micro_reaches_def by (intro exI [of _ m]) simp
  qed
qed

lemma micro_reaches_then:
  assumes "micro_reaches fuel L poll e ph k ph1 (Ret k1)" "micro_reaches fuel L poll e ph1 k1 ph2 r"
  shows "micro_reaches fuel L poll e ph k ph2 r"
  using micro_reaches_trans [OF assms(1), of ph2 "\<lambda>_. r"] assms(2) by simp

lemma micro_reaches_panic:
  "micro_reaches fuel L poll e ph k ph1 (Panic p) \<Longrightarrow> micro_reaches fuel L poll e ph k ph2 (Panic p)"
  by (simp add: micro_reaches_def)

lemma micro_reaches_step:
  assumes "micro_step fuel L poll e ph k = Some (bind_out r (\<lambda>k'. Ret (ph', k')))"
  shows "micro_reaches fuel L poll e ph k ph' r"
  unfolding micro_reaches_def by (intro exI [of _ 1]) (cases r; use assms in simp)

lemma bind_out_Ret [simp]: "bind_out m Ret = m"
  by (cases m) simp_all

lemma bind_out_assoc [simp]: "bind_out (bind_out m f) g = bind_out m (\<lambda>x. bind_out (f x) g)"
  by (cases m) simp_all

text \<open>The two halves of a wake.\<close>

lemma wake_halves:
  "Waker_wake_by_ref L w k =
     bind_out (wake_section L w k) (\<lambda>(p, k). Ret (case p of None \<Rightarrow> k | Some p \<Rightarrow> Pender_pend p k))"
  by (auto simp: Waker_wake_by_ref_def wake_section_def BaseExecutor_enqueue_and_pend_def with_header_def with_exec_def
      Let_def split: option.split prod.split)

lemma effects_reach:
  "micro_reaches fuel L poll e (PhEffects t fs) k (PhEffects t []) (each_out (apply_effect L) fs k)"
proof (induction fs arbitrary: k)
  case Nil
  show ?case by (simp add: micro_reaches_refl)
next
  case (Cons f fs)
  have "micro_reaches fuel L poll e (PhEffects t (f # fs)) k (PhEffects t fs) (apply_effect L k f)"
  proof (cases f)
    case (EffSetDeadline cx d)
    show ?thesis unfolding EffSetDeadline by (rule micro_reaches_step) simp
  next
    case (EffWake w)
    show ?thesis
    proof (cases "wake_section L w k")
      case (Panic p)
      then show ?thesis by (intro micro_reaches_step) (simp add: EffWake wake_halves)
    next
      case (Ret pk)
      obtain p k1 where pk: "pk = (p, k1)" by fastforce
      show ?thesis
      proof (cases p)
        case None
        with Ret pk show ?thesis by (intro micro_reaches_step) (simp add: EffWake wake_halves)
      next
        case (Some q)
        have "micro_reaches fuel L poll e (PhEffects t (f # fs)) k (PhPend t q fs) (Ret k1)"
          by (rule micro_reaches_step) (simp add: EffWake Ret pk Some)
        moreover have "micro_reaches fuel L poll e (PhPend t q fs) k1 (PhEffects t fs) (Ret (Pender_pend q k1))"
          by (rule micro_reaches_step) simp
        ultimately have "micro_reaches fuel L poll e (PhEffects t (f # fs)) k (PhEffects t fs) (Ret (Pender_pend q k1))"
          by (rule micro_reaches_then)
        with Ret pk Some show ?thesis by (simp add: EffWake wake_halves)
      qed
    qed
  qed
  from micro_reaches_trans [OF this] Cons.IH show ?case by simp
qed

lemma run_task_reaches:
  "micro_reaches fuel L poll e (PhRun t) k PhPop (BaseExecutor_run_task L poll e t k)"
proof (cases "k_tasks k t")
  case None
  show ?thesis by (rule micro_reaches_step) (simp add: None with_header_def BaseExecutor_run_task_def)
next
  case (Some h)
  obtain r fut v where pl: "poll (th_fut_ref h) (RawWaker t VTABLE)
      \<lparr>tv_now = Kernel_now k, tv_effects = [], tv_shared = k_shared k\<rparr> = (r, fut, v)" by (metis prod_cases3)
  show ?thesis
  proof (cases r)
    case (Ready u)
    with Some pl show ?thesis by (intro micro_reaches_step) (simp add: with_header_def BaseExecutor_run_task_def)
  next
    case Pending
    let ?k = "set_header t (h\<lparr>th_expires_at := None, th_fut_ref := fut\<rparr>) (k\<lparr>k_shared := tv_shared v\<rparr>)"
    have "micro_reaches fuel L poll e (PhRun t) k (PhEffects t (tv_effects v)) (Ret ?k)"
      using Some pl Pending by (intro micro_reaches_step) (simp add: with_header_def)
    moreover have "micro_reaches fuel L poll e (PhEffects t (tv_effects v)) k1 PhPop
        (bind_out (each_out (apply_effect L) (tv_effects v) k1) (BaseExecutor_update_timer_queue L e t))" for k1
    proof (rule micro_reaches_trans [OF effects_reach])
      fix k2
      have "micro_reaches fuel L poll e (PhEffects t []) k2 (PhUpdate t) (Ret k2)" by (rule micro_reaches_step) simp
      moreover have "micro_reaches fuel L poll e (PhUpdate t) k2 PhPop (BaseExecutor_update_timer_queue L e t k2)"
        by (rule micro_reaches_step) simp
      ultimately show "micro_reaches fuel L poll e (PhEffects t []) k2 PhPop (BaseExecutor_update_timer_queue L e t k2)"
        by (rule micro_reaches_then)
    qed
    ultimately have "micro_reaches fuel L poll e (PhRun t) k PhPop (bind_out (Ret ?k) (\<lambda>k1.
        bind_out (each_out (apply_effect L) (tv_effects v) k1) (BaseExecutor_update_timer_queue L e t)))"
      by (rule micro_reaches_trans)
    with Some pl Pending show ?thesis by (simp add: with_header_def BaseExecutor_run_task_def)
  qed
qed

lemma advance_reaches:
  "BaseExecutor_advance_runnable_tasks fuel' L poll e k = Some r \<Longrightarrow>
     micro_reaches fuel L poll e PhPop k PhRenew r"
proof (induction fuel' arbitrary: k)
  case (Suc n)
  show ?case
  proof (cases "k_execs k e")
    case None
    with Suc.prems show ?thesis by (intro micro_reaches_step) (auto simp: with_exec_def)
  next
    case (Some x)
    obtain m q where pop: "Deque_pop_front (lib_run L) (be_run_queue x) = (m, q)" by fastforce
    let ?k = "set_exec e (x\<lparr>be_run_queue := q\<rparr>) k"
    show ?thesis
    proof (cases m)
      case None
      with Some pop Suc.prems show ?thesis by (intro micro_reaches_step) (auto simp: with_exec_def)
    next
      case (Some t)
      with \<open>k_execs k e = Some x\<close> pop have 1: "micro_reaches fuel L poll e PhPop k (PhRun t) (Ret ?k)"
        by (intro micro_reaches_step) (simp add: with_exec_def)
      have r: "bind_fuel (Some (BaseExecutor_run_task L poll e t ?k)) (BaseExecutor_advance_runnable_tasks n L poll e) = Some r"
        using Suc.prems \<open>k_execs k e = Some x\<close> pop Some by simp
      have "micro_reaches fuel L poll e (PhRun t) ?k PhRenew r"
      proof (cases "BaseExecutor_run_task L poll e t ?k")
        case (Ret k1)
        have "micro_reaches fuel L poll e (PhRun t) ?k PhPop (Ret k1)"
          using run_task_reaches [of fuel L poll e t ?k] Ret by simp
        from micro_reaches_trans [OF this, of PhRenew "\<lambda>_. r"] Suc.IH [of k1] r Ret show ?thesis by simp
      next
        case (Panic p)
        with r have "r = Panic p" by simp
        with run_task_reaches [of fuel L poll e t ?k] Panic show ?thesis by (simp add: micro_reaches_panic)
      qed
      with 1 show ?thesis by (rule micro_reaches_then)
    qed
  qed
qed simp

lemma check_reaches:
  assumes "BaseExecutor_check_timer_queue fuel L e k = Some r"
  shows "micro_reaches fuel L poll e PhCheck k PhPop r"
proof -
  let ?now = "Kernel_now k"
  have 1: "micro_reaches fuel L poll e PhCheck k (PhDequeue ?now) (Ret k)" by (rule micro_reaches_step) simp
  have "micro_reaches fuel L poll e (PhDequeue ?now) k PhPop r"
  proof (cases "k_execs k e")
    case None
    with assms show ?thesis by (intro micro_reaches_step) (auto simp: BaseExecutor_check_timer_queue_def)
  next
    case (Some x)
    with assms obtain d where d: "TimerQueue_dequeue_expired fuel (lib_timers L) (be_timer_queue x) ?now
        (push_ready L) (Vec_new (lib_ready L)) 0 = Some d"
      by (cases "TimerQueue_dequeue_expired fuel (lib_timers L) (be_timer_queue x) ?now
        (push_ready L) (Vec_new (lib_ready L)) 0") (auto simp: BaseExecutor_check_timer_queue_def)
    show ?thesis
    proof (cases d)
      case (Panic p)
      with d assms Some show ?thesis
        by (intro micro_reaches_step) (auto simp: BaseExecutor_check_timer_queue_def)
    next
      case (Ret u)
      obtain n tq ready where u: "u = (n, tq, ready)" by (metis prod_cases3)
      let ?k = "set_exec e (x\<lparr>be_timer_queue := tq\<rparr>) k"
      have "micro_reaches fuel L poll e (PhDequeue ?now) k (PhQueueReady ready) (Ret ?k)"
        using Some d Ret u by (intro micro_reaches_step) simp
      moreover have "micro_reaches fuel L poll e (PhQueueReady ready) ?k PhPop r"
        using assms Some d Ret u
        by (intro micro_reaches_step) (auto simp: BaseExecutor_check_timer_queue_def with_exec_def set_exec_def)
      ultimately show ?thesis
        by (rule micro_reaches_then)
    qed
  qed
  with 1 show ?thesis by (rule micro_reaches_then)
qed

lemma renew_reaches: "micro_reaches fuel L poll e PhRenew k PhIdle (BaseExecutor_renew_alarm L e k)"
proof (cases "k_execs k e")
  case None
  then show ?thesis by (intro micro_reaches_step) (simp add: BaseExecutor_renew_alarm_def with_exec_def)
next
  case (Some x)
  show ?thesis
  proof (cases "TimerQueue_next_expiration (lib_timers L) (be_timer_queue x)")
    case None
    with Some show ?thesis by (intro micro_reaches_step) (simp add: BaseExecutor_renew_alarm_def with_exec_def)
  next
    case (Some d)
    then have 1: "micro_reaches fuel L poll e PhRenew k (PhSetAlarm d) (Ret k)"
      using \<open>k_execs k e = Some x\<close> by (intro micro_reaches_step) (simp add: with_exec_def)
    have "micro_reaches fuel L poll e (PhSetAlarm d) k PhIdle (bind_out (BaseExecutor_set_alarm L e d k) (\<lambda>(_, k). Ret k))"
    proof (cases "BaseExecutor_set_alarm L e d k")
      case (Panic p)
      then show ?thesis by (intro micro_reaches_step) simp
    next
      case (Ret u)
      obtain r k1 where u: "u = (r, k1)" by fastforce
      have "micro_reaches fuel L poll e (PhSetAlarm d) k (PhReturn r) (Ret k1)"
        using Ret u by (intro micro_reaches_step) simp
      moreover have "micro_reaches fuel L poll e (PhReturn r) k1 PhIdle (Ret k1)" by (rule micro_reaches_step) simp
      ultimately have "micro_reaches fuel L poll e (PhSetAlarm d) k PhIdle (Ret k1)"
        by (rule micro_reaches_then)
      with Ret u show ?thesis by simp
    qed
    with 1 have "micro_reaches fuel L poll e PhRenew k PhIdle
        (bind_out (BaseExecutor_set_alarm L e d k) (\<lambda>(_, k). Ret k))" by (rule micro_reaches_then)
    with Some \<open>k_execs k e = Some x\<close> show ?thesis by (simp add: BaseExecutor_renew_alarm_def with_exec_def)
  qed
qed


lemma round_reaches:
  assumes "BaseExecutor_exec_once fuel L poll e k = Some r"
  shows "micro_reaches fuel L poll e PhCheck k PhIdle r"
proof -
  obtain r1 where r1: "BaseExecutor_check_timer_queue fuel L e k = Some r1"
    using assms by (cases "BaseExecutor_check_timer_queue fuel L e k") (auto simp: BaseExecutor_exec_once_def)
  note check = check_reaches [OF r1]
  show ?thesis
  proof (cases r1)
    case (Panic p)
    with assms r1 have "r = Panic p" by (simp add: BaseExecutor_exec_once_def)
    with check [of poll] Panic show ?thesis by (simp add: micro_reaches_panic)
  next
    case (Ret k1)
    with assms r1 obtain r2 where r2: "BaseExecutor_advance_runnable_tasks fuel L poll e k1 = Some r2"
      by (cases "BaseExecutor_advance_runnable_tasks fuel L poll e k1") (auto simp: BaseExecutor_exec_once_def)
    have "r = bind_out r2 (BaseExecutor_renew_alarm L e)"
      using assms r1 Ret r2 by (cases r2) (auto simp: BaseExecutor_exec_once_def)
    moreover have "micro_reaches fuel L poll e PhPop k1 PhIdle (bind_out r2 (BaseExecutor_renew_alarm L e))"
      by (rule micro_reaches_trans [OF advance_reaches [OF r2]]) (rule renew_reaches)
    ultimately show ?thesis using check Ret by (auto intro: micro_reaches_then)
  qed
qed

lemma steps_events:
  assumes "micro_steps fuel L poll e n (ps_phase s e, ps_kernel s) = Some r"
  shows "case r of
      Ret (ph, k) \<Rightarrow> \<exists>s'. pre_run fuel L poll (replicate n (EvStep e)) s = Some (Ret s') \<and> ps_kernel s' = k \<and>
        ps_phase s' = (ps_phase s)(e := ph) \<and> ps_isr s' = ps_isr s
    | Panic p \<Rightarrow> pre_run fuel L poll (replicate n (EvStep e)) s = Some (Panic p)"
  using assms
proof (induction n arbitrary: s)
  case (Suc n)
  let ?m = "micro_step fuel L poll e (ps_phase s e) (ps_kernel s)"
  show ?case
  proof (cases ?m)
    case (Some m)
    show ?thesis
    proof (cases m)
      case (Panic p)
      with Some Suc.prems show ?thesis by auto
    next
      case (Ret c)
      obtain ph k where c: "c = (ph, k)" by fastforce
      let ?s = "moved s e ph k"
      have "micro_steps fuel L poll e n (ps_phase ?s e, ps_kernel ?s) = Some r"
        using Suc.prems Some Ret c by (simp add: moved_def)
      from Suc.IH [OF this] Some Ret c show ?thesis by (cases r) (auto simp: moved_def split: prod.splits)
    qed
  qed (use Suc.prems in simp)
qed (auto simp: fun_upd_idem)

lemma take_pended: "pended p k \<Longrightarrow> take_request p k = (True, snd (take_request p k))"
  by (auto simp: pended_def take_request_def Kernel_event_fetch_and_clear_local_def split: pender.splits)

text \<open>
  C18. A round that nothing preempts is the \<open>exec_once\<close> of the sequential model: when an idle executor that has been
  pended enters its round and only its own pieces follow, then they end with exactly the kernel of
  \<open>exec_once\<close>, or with its panic, whenever \<open>exec_once\<close> ends.
\<close>

theorem undisturbed_round:
  assumes "ps_phase s e = PhIdle" "k_execs (ps_kernel s) e = Some x" "pended (be_pender x) (ps_kernel s)"
    and "BaseExecutor_exec_once fuel L poll e (snd (take_request (be_pender x) (ps_kernel s))) = Some r"
  shows "\<exists>n. case r of
      Ret k' \<Rightarrow> \<exists>s'. pre_run fuel L poll (EvEnter e # replicate n (EvStep e)) s = Some (Ret s') \<and>
        ps_kernel s' = k' \<and> ps_phase s' = ps_phase s \<and> ps_isr s' = ps_isr s
    | Panic p \<Rightarrow> pre_run fuel L poll (EvEnter e # replicate n (EvStep e)) s = Some (Panic p)"
proof -
  let ?k = "snd (take_request (be_pender x) (ps_kernel s))"
  let ?s = "s\<lparr>ps_kernel := ?k, ps_phase := (ps_phase s)(e := PhCheck)\<rparr>"
  from round_reaches [OF assms(4)] obtain n where
    n: "micro_steps fuel L poll e n (ps_phase ?s e, ps_kernel ?s) = Some (bind_out r (\<lambda>k'. Ret (PhIdle, k')))"
    by (auto simp: micro_reaches_def)
  have enter: "pre_exec fuel L poll s (EvEnter e) = Some (Ret ?s)"
    using assms(1,2) take_pended [OF assms(3)]
    by (cases "take_request (be_pender x) (ps_kernel s)") simp
  have "(ps_phase s)(e := PhIdle) = ps_phase s" using assms(1) by auto
  with steps_events [OF n] enter show ?thesis by (intro exI [of _ n]) (cases r; auto)
qed

section \<open>A run with an interrupt\<close>

definition quiet_poll :: "(unit, unit) task_poll" where
  "quiet_poll f cx v = (Pending, f, v)"

lemma quiet_poll_ok: "poll_ok quiet_poll D"
  by (simp add: poll_ok_def quiet_poll_def)

text \<open>The thread executor has been pended and has one of its two tasks in the run queue.\<close>

definition demo_pre ::
  "(nat list, nat list, timer_queue_item list, nat option list, alarm_item list, unit, unit) pre_state" where
  "demo_pre = pre_start ((demo_kernel [100] [] [] 0 ())\<lparr>k_local_event := True\<rparr>)"

lemmas expired_numeral =
  TimerQueue_dequeue_expired.simps(2) [of "pred_numeral n" for n, folded numeral_eq_Suc]
  AlarmQueue_call_all_expired.simps(2) [of "pred_numeral n" for n, folded numeral_eq_Suc]
  BaseExecutor_advance_runnable_tasks.simps(2) [of "pred_numeral n" for n, folded numeral_eq_Suc]

lemmas pre_eval =
  pre_start_def moved_def take_request_def Kernel_event_fetch_and_clear_local_def Kernel_now_def
  wake_section_def with_header_def with_exec_def Kernel_on_timer_interrupt_def AlarmQueue_get_one_expired_item_def
  TimerQueue_next_expiration_def BaseExecutor_update_timer_queue_def Pender_pend_def Kernel_signal_event_local_def
  set_exec_def set_header_def quiet_poll_def demo_pre_def demo_kernel_def demo_executor_def list_libs_def list_deque_def
  list_vec_def sorted_heap_def AlarmHandle_from_def MAX_TASKS_def expired_numeral

theorem undisturbed_round_witness:
  "\<exists>n s'. pre_run 65 list_libs quiet_poll (EvEnter 0 # replicate n (EvStep 0)) demo_pre = Some (Ret s') \<and>
     ps_phase s' 0 = PhIdle"
proof -
  let ?x = "demo_executor [100] []"
  have "ps_phase demo_pre 0 = PhIdle" "k_execs (ps_kernel demo_pre) 0 = Some ?x" "pended (be_pender ?x) (ps_kernel demo_pre)"
    by (simp_all add: demo_pre_def pre_start_def demo_kernel_def demo_executor_def pended_def)
  note h = this
  have "\<exists>k'. BaseExecutor_exec_once 65 list_libs quiet_poll 0
      (snd (take_request (be_pender ?x) (ps_kernel demo_pre))) = Some (Ret k')"
    by (simp add: BaseExecutor_exec_once_def BaseExecutor_check_timer_queue_def BaseExecutor_run_task_def
        BaseExecutor_renew_alarm_def pre_eval)
  then obtain k' where "BaseExecutor_exec_once 65 list_libs quiet_poll 0
      (snd (take_request (be_pender ?x) (ps_kernel demo_pre))) = Some (Ret k')" ..
  from undisturbed_round [OF h this] h(1) show ?thesis by (simp del: pre_run.simps) metis
qed

end
