(* ===== verification/Preemption_Laws.thy ===== *)
theory Preemption_Laws
  imports Preemption
begin

text \<open>
  What one piece of a round does to the kernel, \<open>micro_ok\<close>: it keeps the kernel well-formed and every request, alarm and timer of
  other executors; it only appends to the run queues of others, and then its wake is about to pend them; its own
  executor's tasks move in order from the queue through the hand of the executor to its poll.
\<close>

section \<open>The effect of one piece\<close>

fun phase_ok :: "('q, 'r, 't, 'v, 'a) kernel_libs \<Rightarrow> ('q, 'r, 't, 'v, 'a) kernel_abs \<Rightarrow> nat set \<Rightarrow> 'r phase \<Rightarrow> bool" where
  "phase_ok L A D (PhQueueReady ready) \<longleftrightarrow> rv_inv A ready \<and> set (Vec_as_slice (lib_ready L) ready) \<subseteq> D"
| "phase_ok L A D (PhRun t) \<longleftrightarrow> t \<in> D"
| "phase_ok L A D (PhEffects t fs) \<longleftrightarrow> t \<in> D \<and> list_all (effect_ok D) fs"
| "phase_ok L A D (PhPend t p fs) \<longleftrightarrow> t \<in> D \<and> list_all (effect_ok D) fs"
| "phase_ok L A D (PhUpdate t) \<longleftrightarrow> t \<in> D"
| "phase_ok L A D _ \<longleftrightarrow> True"

text \<open>The round will look at the run queue again; it will set the alarm again.\<close>

fun looks_again :: "'r phase \<Rightarrow> bool" where
  "looks_again PhIdle = False"
| "looks_again PhRenew = False"
| "looks_again (PhSetAlarm d) = False"
| "looks_again (PhReturn r) = False"
| "looks_again _ = True"

fun renews :: "'r phase \<Rightarrow> bool" where
  "renews PhIdle = False"
| "renews (PhReturn r) = False"
| "renews _ = True"

text \<open>Tasks that are on their way from the timer queue to the run queue.\<close>

fun phase_load :: "('q, 'r, 't, 'v, 'a) kernel_libs \<Rightarrow> 'r phase \<Rightarrow> nat" where
  "phase_load L (PhQueueReady ready) = length (Vec_as_slice (lib_ready L) ready)"
| "phase_load L _ = 0"

fun in_hand :: "'r phase \<Rightarrow> nat list" where
  "in_hand (PhRun t) = [t]"
| "in_hand _ = []"

fun pending_pender :: "'r phase \<Rightarrow> pender set" where
  "pending_pender (PhPend t p fs) = {p}"
| "pending_pender _ = {}"

definition exec_moved ::
  "('q, 'r, 't, 'v, 'a) kernel_abs \<Rightarrow> 'r phase \<Rightarrow> ('q, 't) base_executor \<Rightarrow> ('q, 't) base_executor \<Rightarrow> bool" where
  "exec_moved A ph' x x' \<longleftrightarrow> be_alarm_handle x' = be_alarm_handle x \<and> be_pender x' = be_pender x \<and>
     timer_items A x' = timer_items A x \<and>
     (\<exists>ys. run_items A x' = run_items A x @ ys \<and> (ys = [] \<or> be_pender x \<in> pending_pender ph'))"

definition own_moved ::
  "('q, 'r, 't, 'v, 'a) kernel_abs \<Rightarrow> nat \<Rightarrow> 'r phase \<Rightarrow> 'r phase \<Rightarrow> ('q, 't) base_executor \<Rightarrow> ('q, 't) base_executor \<Rightarrow> bool" where
  "own_moved A e ph ph' x x' \<longleftrightarrow> be_alarm_handle x' = be_alarm_handle x \<and> be_pender x' = be_pender x \<and>
     (\<exists>ys. map snd (polled_after e ph) @ in_hand ph' @ run_items A x' = in_hand ph @ run_items A x @ ys) \<and>
     (ph' = PhRenew \<longrightarrow> run_items A x' = []) \<and>
     (\<not> looks_again ph' \<longrightarrow> ph' \<noteq> PhRenew \<longrightarrow> \<not> looks_again ph \<and> x' = x) \<and>
     (\<forall>d. ph' = PhSetAlarm d \<longrightarrow> (\<forall>i \<in># timer_items A x'. d \<le> ti_expires_at i)) \<and>
     (ph' = PhIdle \<longrightarrow> timer_items A x' = {#} \<or> ph = PhIdle \<or> (\<exists>r. ph = PhReturn r))"

definition micro_ok ::
  "('q, 'r, 't, 'v, 'a) kernel_libs \<Rightarrow> ('q, 'r, 't, 'v, 'a) kernel_abs \<Rightarrow> nat \<Rightarrow>
     'r phase \<Rightarrow> ('q, 't, 'v, 'a, 'f, 's) kernel \<Rightarrow> 'r phase \<Rightarrow> ('q, 't, 'v, 'a, 'f, 's) kernel \<Rightarrow> bool" where
  "micro_ok L A e ph k ph' k' \<longleftrightarrow>
     kernel_inv L A k' \<and> dom (k_tasks k') = dom (k_tasks k) \<and> dom (k_execs k') = dom (k_execs k) \<and>
     callbacks_of L k' = callbacks_of L k \<and> alarm_items A k \<subseteq># alarm_items A k' \<and>
     (\<forall>p. pended p k \<longrightarrow> pended p k') \<and> (\<forall>p \<in> pending_pender ph. pended p k' \<or> p \<in> pending_pender ph') \<and>
     phase_ok L A (dom (k_tasks k)) ph' \<and>
     (\<forall>i x. k_execs k i = Some x \<longrightarrow> (\<exists>x'. k_execs k' i = Some x' \<and>
        (if i = e then own_moved A e ph ph' x x' else exec_moved A ph' x x'))) \<and>
     (ph' = PhReturn (Some ()) \<longrightarrow> (\<exists>d h x. ph = PhSetAlarm d \<and> k_execs k e = Some x \<and> be_alarm_handle x = Some h \<and>
        \<lparr>ai_expires_at = d, ai_handle = h\<rparr> \<in># alarm_items A k'))"

lemma exec_moved_refl [simp]: "exec_moved A ph' x x"
  by (simp add: exec_moved_def)

lemma pended_kernel_simps [simp]:
  "pended p (set_exec e x k) = pended p k" "pended p (set_header t h k) = pended p k"
  "pended p (k\<lparr>k_shared := s\<rparr>) = pended p k" "pended p (k\<lparr>k_alarm_queue := q\<rparr>) = pended p k"
  by (auto simp: pended_def split: pender.splits)

lemma aux_kernel_simps [simp]:
  "callbacks_of L (set_exec e x k) = callbacks_of L k" "callbacks_of L (set_header t h k) = callbacks_of L k"
  "callbacks_of L (k\<lparr>k_shared := s\<rparr>) = callbacks_of L k" "callbacks_of L (Pender_pend p k) = callbacks_of L k"
  "alarm_items A (set_exec e x k) = alarm_items A k" "alarm_items A (set_header t h k) = alarm_items A k"
  "alarm_items A (k\<lparr>k_shared := s\<rparr>) = alarm_items A k" "alarm_items A (Pender_pend p k) = alarm_items A k"
  by (simp_all add: callbacks_of_def alarm_items_def)

text \<open>A piece that changes its own executor only, one that changes no executor, and one that changes nothing.\<close>

lemma micro_ok_own:
  assumes "kernel_inv L A (set_exec e x' k)" "k_execs k e = Some x" "phase_ok L A (dom (k_tasks k)) ph'"
    and "own_moved A e ph ph' x x'" "pending_pender ph = {}" "ph' \<noteq> PhReturn (Some ())"
  shows "micro_ok L A e ph k ph' (set_exec e x' k)"
  using assms by (auto simp: micro_ok_def)

lemma micro_ok_same:
  assumes "kernel_inv L A k" "e \<in> dom (k_execs k)" "phase_ok L A (dom (k_tasks k)) ph'"
    and "\<And>x. k_execs k e = Some x \<Longrightarrow> own_moved A e ph ph' x x" "pending_pender ph = {}" "ph' \<noteq> PhReturn (Some ())"
  shows "micro_ok L A e ph k ph' k"
  using assms by (auto simp: micro_ok_def)

lemma own_moved_quiet:
  assumes "in_hand ph = []" "in_hand ph' = []" "polled_after e ph = []" "looks_again ph'"
    and "be_alarm_handle x' = be_alarm_handle x" "be_pender x' = be_pender x" "run_items A x' = run_items A x @ ys"
  shows "own_moved A e ph ph' x x'"
  using assms by (auto simp: own_moved_def)

context kernel_laws
begin

text \<open>The pieces end a round's phase as the code says, or they panic when too many timers expired at once.\<close>

lemma micro_dequeue_ok:
  fixes k :: "('q, 't, 'v, 'a, 'f, 's) kernel"
  assumes inv: "kernel_inv L A k" and x: "k_execs k e = Some x" and fuel: "N_TIMERS < fuel"
  shows "micro_step fuel L poll e (PhDequeue now) k = Some (Panic UnwrapFailed) \<and>
      MAX_TASKS < length (run_items A x) + size (timer_items A x) + phase_load L (PhDequeue now) \<or>
    (\<exists>ph' k'. micro_step fuel L poll e (PhDequeue now) k = Some (Ret (ph', k')) \<and> micro_ok L A e (PhDequeue now) k ph' k')"
proof -
  have ok: "exec_ok L A k e x" using inv x by (rule kernel_inv_exec)
  then have tqi: "tq_inv A (tq_queue (be_timer_queue x))" by (simp add: exec_ok_def)
  have "size (tq_elems A (tq_queue (be_timer_queue x))) < fuel"
    "0 + size (tq_elems A (tq_queue (be_timer_queue x))) \<le> usize_max"
    using tq.bounded [OF tqi] fuel by (simp_all add: N_TIMERS_def usize_max_def)
  from tq.dequeue_expired [OF tqi this, of now "push_ready L" "Vec_new (lib_ready L)"]
  obtain items and tq' :: "'t timer_queue" where d:
    "mset items + tq_elems A (tq_queue tq') = timer_items A x" "tq_inv A (tq_queue tq')"
    "TimerQueue_dequeue_expired fuel (lib_timers L) (be_timer_queue x) now (push_ready L) (Vec_new (lib_ready L)) 0 =
      Some (bind_out (each_out (push_ready L) items (Vec_new (lib_ready L))) (\<lambda>c'. Ret (length items, tq', c')))"
    by (auto simp: timer_items_def)
  have item: "timer_item_ok (k_tasks k) i" if "i \<in># timer_items A x" for i
    using ok that by (simp add: exec_ok_def)
  have items: "timer_item_ok (k_tasks k) i" if "i \<in> set items" for i
    using item that by (simp flip: d(1))
  have rest: "timer_item_ok (k_tasks k) i" if "i \<in># tq_elems A (tq_queue tq')" for i
    using item that by (simp flip: d(1))
  have "\<forall>i \<in> set items. waker_vtable (ti_waker i) = VTABLE" using items by (auto simp: timer_item_ok_def)
  note pr = push_ready_all [OF rv.new(1) this]
  show ?thesis
  proof (cases "length items \<le> MAX_TASKS")
    case True
    with pr obtain v where v: "each_out (push_ready L) items (Vec_new (lib_ready L)) = Ret v" "rv_inv A v"
      "Vec_as_slice (lib_ready L) v = map task_of items" by auto
    let ?x = "x\<lparr>be_timer_queue := tq'\<rparr>"
    have "exec_ok L A k e ?x" using ok d(2) rest by (simp add: exec_ok_def run_items_def timer_items_def)
    then have "kernel_inv L A (set_exec e ?x k)" by (rule kernel_inv_set_exec [OF inv x]) simp
    moreover have "own_moved A e (PhDequeue now) (PhQueueReady v) x ?x"
      by (rule own_moved_quiet [where ys = "[]"]) (simp_all add: run_items_def)
    moreover have "phase_ok L A (dom (k_tasks k)) (PhQueueReady v)"
      using v(2,3) items by (auto simp: task_of_def timer_item_ok_def)
    ultimately have "micro_ok L A e (PhDequeue now) k (PhQueueReady v) (set_exec e ?x k)"
      using x by (intro micro_ok_own) simp_all
    with x d(3) v(1) show ?thesis by (intro disjI2) simp
  next
    case False
    have "size (timer_items A x) = length items + size (tq_elems A (tq_queue tq'))" by (simp flip: d(1))
    with False pr x d(3) show ?thesis by simp
  qed
qed

lemma micro_ready_ok:
  fixes k :: "('q, 't, 'v, 'a, 'f, 's) kernel"
  assumes inv: "kernel_inv L A k" and x: "k_execs k e = Some x"
    and ph: "phase_ok L A (dom (k_tasks k)) (PhQueueReady ready)"
  shows "micro_step fuel L poll e (PhQueueReady ready) k = Some (Panic UnwrapFailed) \<and>
      MAX_TASKS < length (run_items A x) + size (timer_items A x) + phase_load L (PhQueueReady ready) \<or>
    (\<exists>ph' k'. micro_step fuel L poll e (PhQueueReady ready) k = Some (Ret (ph', k')) \<and>
       micro_ok L A e (PhQueueReady ready) k ph' k')"
proof -
  let ?ts = "Vec_as_slice (lib_ready L) ready"
  have ok: "exec_ok L A k e x" using inv x by (rule kernel_inv_exec)
  then have rqi: "rq_inv A (be_run_queue x)" by (simp add: exec_ok_def)
  note pb = push_back_all [OF rqi, of ?ts]
  show ?thesis
  proof (cases "length (rq_items A (be_run_queue x)) + length ?ts \<le> MAX_TASKS")
    case True
    with pb obtain q where q: "each_out (push_back_unwrap L) ?ts (be_run_queue x) = Ret q" "rq_inv A q"
      "rq_items A q = run_items A x @ ?ts" by (auto simp: run_items_def)
    let ?x = "x\<lparr>be_run_queue := q\<rparr>"
    have "exec_ok L A k e ?x" using ok ph q(2,3) by (auto simp: exec_ok_def run_items_def timer_items_def)
    then have "kernel_inv L A (set_exec e ?x k)" by (rule kernel_inv_set_exec [OF inv x]) simp
    moreover have "own_moved A e (PhQueueReady ready) PhPop x ?x"
      by (rule own_moved_quiet [where ys = ?ts]) (simp_all add: run_items_def q(3) [unfolded run_items_def])
    ultimately have "micro_ok L A e (PhQueueReady ready) k PhPop (set_exec e ?x k)"
      using x by (intro micro_ok_own) simp_all
    with x q(1) show ?thesis by (intro disjI2) (simp add: with_exec_def)
  next
    case False
    with pb x show ?thesis by (simp add: with_exec_def run_items_def)
  qed
qed

lemma micro_pop_ok:
  fixes k :: "('q, 't, 'v, 'a, 'f, 's) kernel"
  assumes inv: "kernel_inv L A k" and x: "k_execs k e = Some x"
  shows "\<exists>ph' k'. micro_step fuel L poll e PhPop k = Some (Ret (ph', k')) \<and> micro_ok L A e PhPop k ph' k'"
  using inv x
proof (cases rule: pop_run_queue)
  case (empty q)
  have "own_moved A e PhPop PhRenew x (x\<lparr>be_run_queue := q\<rparr>)"
    using empty by (simp add: own_moved_def run_items_def)
  then have "micro_ok L A e PhPop k PhRenew (set_exec e (x\<lparr>be_run_queue := q\<rparr>) k)"
    using x empty(3) by (intro micro_ok_own) simp_all
  with x empty(2) show ?thesis by (simp add: with_exec_def)
next
  case (task t ts q)
  have "own_moved A e PhPop (PhRun t) x (x\<lparr>be_run_queue := q\<rparr>)"
    using task by (simp add: own_moved_def run_items_def)
  then have "micro_ok L A e PhPop k (PhRun t) (set_exec e (x\<lparr>be_run_queue := q\<rparr>) k)"
    using x task(3,5) by (intro micro_ok_own) simp_all
  with x task(2) show ?thesis by (simp add: with_exec_def)
qed

lemma micro_ok_header:
  fixes k :: "('q, 't, 'v, 'a, 'f, 's) kernel"
  assumes inv: "kernel_inv L A k" and h: "k_tasks k t = Some h" "th_executor h' = th_executor h"
    and e: "e \<in> dom (k_execs k)" and ph: "phase_ok L A (dom (k_tasks k)) ph'"
    and own: "\<And>x. k_execs k e = Some x \<Longrightarrow> own_moved A e ph ph' x x" "pending_pender ph = {}" "ph' \<noteq> PhReturn (Some ())"
  shows "micro_ok L A e ph k ph' (set_header t h' (k\<lparr>k_shared := s\<rparr>))"
proof -
  have "kernel_inv L A (k\<lparr>k_shared := s\<rparr>)" by (rule kernel_inv_frame [OF inv]) simp_all
  then have "kernel_inv L A (set_header t h' (k\<lparr>k_shared := s\<rparr>))"
    by (rule kernel_inv_set_header) (use h in simp_all)
  then show ?thesis using assms by (auto simp: micro_ok_def)
qed

lemma micro_run_ok:
  fixes k :: "('q, 't, 'v, 'a, 'f, 's) kernel"
  assumes inv: "kernel_inv L A k" and p: "poll_ok poll (dom (k_tasks k))" and t: "t \<in> dom (k_tasks k)"
    and e: "e \<in> dom (k_execs k)"
  shows "\<exists>ph' k'. micro_step fuel L poll e (PhRun t) k = Some (Ret (ph', k')) \<and> micro_ok L A e (PhRun t) k ph' k'"
proof -
  from t obtain h where h: "k_tasks k t = Some h" by auto
  obtain r fut v where pl: "poll (th_fut_ref h) (RawWaker t VTABLE)
      \<lparr>tv_now = Kernel_now k, tv_effects = [], tv_shared = k_shared k\<rparr> = (r, fut, v)" by (metis prod_cases3)
  with p t have r: "r = Pending" "list_all (effect_ok (dom (k_tasks k))) (tv_effects v)"
    unfolding poll_ok_def by (metis (mono_tags, lifting) case_prod_conv)+
  have "micro_ok L A e (PhRun t) k (PhEffects t (tv_effects v))
      (set_header t (h\<lparr>th_expires_at := None, th_fut_ref := fut\<rparr>) (k\<lparr>k_shared := tv_shared v\<rparr>))"
    by (rule micro_ok_header [OF inv h _ e]) (use t r in \<open>simp_all add: own_moved_def\<close>)
  with h pl r(1) show ?thesis by (simp add: with_header_def)
qed

lemma wake_section_cases:
  fixes k :: "('q, 't, 'v, 'a, 'f, 's) kernel"
  assumes inv: "kernel_inv L A k" and w: "waker_vtable w = VTABLE" "waker_data w \<in> dom (k_tasks k)"
  obtains i x q ys where "k_execs k i = Some x" "rq_items A q = run_items A x @ ys"
    "wake_section L w k = Ret (Some (be_pender x), set_exec i (x\<lparr>be_run_queue := q\<rparr>) k)"
    "kernel_inv L A (set_exec i (x\<lparr>be_run_queue := q\<rparr>) k)"
proof -
  from w(2) obtain h where h: "k_tasks k (waker_data w) = Some h" by auto
  from kernel_inv_task [OF inv h] obtain x where x: "k_execs k (th_executor h) = Some x" by auto
  have ok: "exec_ok L A k (th_executor h) x" using inv x by (rule kernel_inv_exec)
  then have rqi: "rq_inv A (be_run_queue x)" by (simp add: exec_ok_def)
  obtain r q where push: "Deque_push_back (lib_run L) (be_run_queue x) (waker_data w) = (r, q)" by fastforce
  from rq.push_back [OF rqi push] obtain ys where q: "rq_inv A q" "rq_items A q = run_items A x @ ys"
    "set ys \<subseteq> {waker_data w}" by (auto simp: run_items_def split: if_splits intro: that)
  have "exec_ok L A k (th_executor h) (x\<lparr>be_run_queue := q\<rparr>)"
    using ok q w(2) by (auto simp: exec_ok_def run_items_def timer_items_def)
  then have "kernel_inv L A (set_exec (th_executor h) (x\<lparr>be_run_queue := q\<rparr>) k)"
    by (rule kernel_inv_set_exec [OF inv x]) simp
  with x q(2) w(1) h push show ?thesis
    by (intro that [of "th_executor h" x q ys]) (simp_all add: wake_section_def with_header_def with_exec_def)
qed

lemma micro_effects_ok:
  fixes k :: "('q, 't, 'v, 'a, 'f, 's) kernel"
  assumes inv: "kernel_inv L A k" and ph: "phase_ok L A (dom (k_tasks k)) (PhEffects t fs)" and e: "e \<in> dom (k_execs k)"
  shows "\<exists>ph' k'. micro_step fuel L poll e (PhEffects t fs) k = Some (Ret (ph', k')) \<and>
    micro_ok L A e (PhEffects t fs) k ph' k'"
proof (cases fs)
  case Nil
  have "micro_ok L A e (PhEffects t []) k (PhUpdate t) k"
    by (rule micro_ok_same [OF inv e]) (use ph in \<open>simp_all add: own_moved_def\<close>)
  with Nil show ?thesis by simp
next
  case (Cons f fs')
  note fs = Cons
  from ph fs have ph': "phase_ok L A (dom (k_tasks k)) (PhEffects t fs')" "effect_ok (dom (k_tasks k)) f" by simp_all
  have quiet: "own_moved A e (PhEffects t fs) (PhEffects t fs') x x" for x by (simp add: own_moved_def)
  show ?thesis
  proof (cases f)
    case (EffSetDeadline w d)
    obtain u where w: "w = RawWaker u VTABLE" using ph'(2) EffSetDeadline by (cases w) auto
    with ph'(2) EffSetDeadline obtain h where h: "k_tasks k u = Some h" by auto
    have "k\<lparr>k_shared := k_shared k\<rparr> = k" by simp
    then have "micro_ok L A e (PhEffects t fs) k (PhEffects t fs') (set_header u (h\<lparr>th_expires_at := Some d\<rparr>) k)"
      using micro_ok_header [OF inv h _ e ph'(1), of "h\<lparr>th_expires_at := Some d\<rparr>" "PhEffects t fs" "k_shared k"] quiet by simp
    with fs EffSetDeadline w h show ?thesis by (simp add: with_header_def)
  next
    case (EffWake w)
    show ?thesis
    proof (cases "waker_vtable w = VTABLE")
      case False
      have "micro_ok L A e (PhEffects t fs) k (PhEffects t fs') k"
        by (rule micro_ok_same [OF inv e ph'(1)]) (simp_all add: quiet)
      with fs EffWake False show ?thesis by (simp add: wake_section_def)
    next
      case True
      have "waker_data w \<in> dom (k_tasks k)" using ph'(2) EffWake True by auto
      from wake_section_cases [OF inv True this] obtain i x q ys where i: "k_execs k i = Some x" "rq_items A q = run_items A x @ ys"
        "wake_section L w k = Ret (Some (be_pender x), set_exec i (x\<lparr>be_run_queue := q\<rparr>) k)"
        "kernel_inv L A (set_exec i (x\<lparr>be_run_queue := q\<rparr>) k)" .
      let ?x = "x\<lparr>be_run_queue := q\<rparr>"
      have "own_moved A e (PhEffects t fs) (PhPend t (be_pender x) fs') x ?x"
        by (rule own_moved_quiet [where ys = ys]) (simp_all add: run_items_def i(2) [unfolded run_items_def])
      moreover have "own_moved A e (PhEffects t fs) (PhPend t (be_pender x) fs') y y" for y by (simp add: own_moved_def)
      moreover have "exec_moved A (PhPend t (be_pender x) fs') x ?x"
        by (simp add: exec_moved_def run_items_def timer_items_def i(2) [unfolded run_items_def])
      ultimately have "micro_ok L A e (PhEffects t fs) k (PhPend t (be_pender x) fs') (set_exec i ?x k)"
        using i(1,4) ph'(1) by (auto simp: micro_ok_def)
      with fs EffWake i(3) show ?thesis by simp
    qed
  qed
qed

lemma micro_update_ok:
  fixes k :: "('q, 't, 'v, 'a, 'f, 's) kernel"
  assumes inv: "kernel_inv L A k" and t: "t \<in> dom (k_tasks k)" and x: "k_execs k e = Some x"
  shows "\<exists>ph' k'. micro_step fuel L poll e (PhUpdate t) k = Some (Ret (ph', k')) \<and> micro_ok L A e (PhUpdate t) k ph' k'"
proof -
  from t obtain h where h: "k_tasks k t = Some h" by auto
  from update_timer_queue_ok [OF inv h x] obtain tq where
    tq: "BaseExecutor_update_timer_queue L e t k =
      Ret (if th_expires_at h = None then k else set_exec e (x\<lparr>be_timer_queue := tq\<rparr>) k)"
    "kernel_inv L A (set_exec e (x\<lparr>be_timer_queue := tq\<rparr>) k)" by blast
  have "own_moved A e (PhUpdate t) PhPop x x" "own_moved A e (PhUpdate t) PhPop x (x\<lparr>be_timer_queue := tq\<rparr>)"
    by (simp_all add: own_moved_def run_items_def)
  with tq(2) inv x have "micro_ok L A e (PhUpdate t) k PhPop k"
    "micro_ok L A e (PhUpdate t) k PhPop (set_exec e (x\<lparr>be_timer_queue := tq\<rparr>) k)"
    by (auto intro: micro_ok_same micro_ok_own)
  with tq(1) show ?thesis by simp
qed

lemma micro_renew_ok:
  fixes k :: "('q, 't, 'v, 'a, 'f, 's) kernel"
  assumes inv: "kernel_inv L A k" and x: "k_execs k e = Some x"
  shows "\<exists>ph' k'. micro_step fuel L poll e PhRenew k = Some (Ret (ph', k')) \<and> micro_ok L A e PhRenew k ph' k'"
proof -
  have "exec_ok L A k e x" using inv x by (rule kernel_inv_exec)
  then have tqi: "tq_inv A (tq_queue (be_timer_queue x))" by (simp add: exec_ok_def)
  show ?thesis
  proof (cases "TimerQueue_next_expiration (lib_timers L) (be_timer_queue x)")
    case None
    then have "timer_items A x = {#}" using tq.next_expiration_None [OF tqi] by (simp add: timer_items_def)
    then have "micro_ok L A e PhRenew k PhIdle k"
      using x by (intro micro_ok_same [OF inv]) (auto simp: own_moved_def)
    with None x show ?thesis by (simp add: with_exec_def)
  next
    case (Some d)
    then have "\<forall>i \<in># timer_items A x. d \<le> ti_expires_at i"
      using tq.next_expiration_Some [OF tqi Some] by (simp add: timer_items_def)
    then have "micro_ok L A e PhRenew k (PhSetAlarm d) k"
      using x by (intro micro_ok_same [OF inv]) (auto simp: own_moved_def)
    with Some x show ?thesis by (simp add: with_exec_def)
  qed
qed

lemma micro_set_alarm_ok:
  fixes k :: "('q, 't, 'v, 'a, 'f, 's) kernel"
  assumes inv: "kernel_inv L A k" and x: "k_execs k e = Some x" and st: "exec_started L k e x"
  shows "\<exists>ph' k'. micro_step fuel L poll e (PhSetAlarm d) k = Some (Ret (ph', k')) \<and> micro_ok L A e (PhSetAlarm d) k ph' k'"
proof -
  have ok: "exec_ok L A k e x" using inv x by (rule kernel_inv_exec)
  from ok st obtain h where h: "be_alarm_handle x = Some h" "unat (ah_id h) < length (callbacks_of L k)"
    unfolding exec_ok_def exec_started_def by blast
  from inv have aqi: "AlarmQueue_inv (lib_callbacks L) (cb_inv A) (al_inv A) (al_elems A) (k_alarm_queue k)"
    by (simp add: kernel_inv_def)
  have own: "own_moved A e (PhSetAlarm d) (PhReturn r) x x" for r by (simp add: own_moved_def)
  have ret: "micro_step fuel L poll e (PhSetAlarm d) k = Some (Ret (PhReturn r, k\<lparr>k_alarm_queue := q\<rparr>))"
    if "AlarmQueue_set_alarm (lib_alarms L) (k_alarm_queue k) h d = (r, q)" for r q
    using that x h(1) by (simp add: BaseExecutor_set_alarm_def Kernel_set_alarm_def with_exec_def)
  from aqi h(2) [unfolded callbacks_of_def] show ?thesis
  proof (cases rule: aq.set_alarm_cases [where e = d])
    case (ok q)
    let ?k = "k\<lparr>k_alarm_queue := q\<rparr>"
    have "alarm_items A ?k = add_mset \<lparr>ai_expires_at = d, ai_handle = h\<rparr> (alarm_items A k)"
      using ok(5) by (simp add: alarm_items_def)
    moreover have "callbacks_of L ?k = callbacks_of L k" using ok(4) by (simp add: callbacks_of_def)
    ultimately have "micro_ok L A e (PhSetAlarm d) k (PhReturn (Some ())) ?k"
      using kernel_inv_set_alarms [OF inv ok(3,4)] own x h(1) by (auto simp: micro_ok_def)
    with ret [OF ok(2)] show ?thesis by blast
  next
    case (full q)
    let ?k = "k\<lparr>k_alarm_queue := q\<rparr>"
    have "alarm_items A ?k = alarm_items A k" using full(5) by (simp add: alarm_items_def)
    moreover have "callbacks_of L ?k = callbacks_of L k" using full(4) by (simp add: callbacks_of_def)
    ultimately have "micro_ok L A e (PhSetAlarm d) k (PhReturn None) ?k"
      using kernel_inv_set_alarms [OF inv full(3,4)] own x by (auto simp: micro_ok_def)
    with ret [OF full(2)] show ?thesis by blast
  qed
qed

lemma micro_step_ok:
  fixes k :: "('q, 't, 'v, 'a, 'f, 's) kernel"
  assumes inv: "kernel_inv L A k" and p: "poll_ok poll (dom (k_tasks k))" and x: "k_execs k e = Some x"
    and st: "exec_started L k e x" and ph: "phase_ok L A (dom (k_tasks k)) ph" and fuel: "N_TIMERS < fuel"
  shows "micro_step fuel L poll e ph k = Some (Panic UnwrapFailed) \<and>
      MAX_TASKS < length (run_items A x) + size (timer_items A x) + phase_load L ph \<or>
    (\<exists>ph' k'. micro_step fuel L poll e ph k = Some (Ret (ph', k')) \<and> micro_ok L A e ph k ph' k')"
proof (cases ph)
  case (PhPend t q fs)
  have "kernel_inv L A (Pender_pend q k)" by (rule kernel_inv_frame [OF inv]) simp_all
  then have "micro_ok L A e (PhPend t q fs) k (PhEffects t fs) (Pender_pend q k)"
    using x ph PhPend by (auto simp: micro_ok_def own_moved_def pended_mono)
  with PhPend show ?thesis by simp
next
  case PhIdle
  have "micro_ok L A e PhIdle k PhIdle k"
    by (rule micro_ok_same [OF inv]) (use x in \<open>auto simp: own_moved_def\<close>)
  with PhIdle show ?thesis by simp
next
  case PhCheck
  have "micro_ok L A e PhCheck k (PhDequeue (Kernel_now k)) k"
    by (rule micro_ok_same [OF inv]) (use x in \<open>auto simp: own_moved_def\<close>)
  with PhCheck show ?thesis by simp
next
  case (PhReturn r)
  have "micro_ok L A e (PhReturn r) k PhIdle k"
    by (rule micro_ok_same [OF inv]) (use x in \<open>auto simp: own_moved_def\<close>)
  with PhReturn show ?thesis by simp
next
  case (PhDequeue now)
  with micro_dequeue_ok [OF inv x fuel] show ?thesis by blast
next
  case (PhQueueReady ready)
  with micro_ready_ok [OF inv x] ph show ?thesis by blast
next
  case PhPop
  with micro_pop_ok [OF inv x] show ?thesis by blast
next
  case (PhRun t)
  with micro_run_ok [OF inv p] x ph show ?thesis by fastforce
next
  case (PhEffects t fs)
  with micro_effects_ok [OF inv] x ph show ?thesis by blast
next
  case (PhUpdate t)
  with micro_update_ok [OF inv _ x] ph show ?thesis by fastforce
next
  case PhRenew
  with micro_renew_ok [OF inv x] show ?thesis by blast
next
  case (PhSetAlarm d)
  with micro_set_alarm_ok [OF inv x st] show ?thesis by blast
qed

end

end
