(* ===== verification/Preemption_Runs.thy ===== *)
theory Preemption_Runs
  imports Preemption_Laws "HOL-Library.Sublist"
begin

text \<open>
  Runs of executors and interrupts that preempt each other: the invariant \<open>pre_inv\<close>, that every event keeps it,
  and what follows for every interleaving after a boot.
\<close>

section \<open>The invariant\<close>

definition exec_pender :: "nat \<Rightarrow> pender" where
  "exec_pender e = (if e = 0 then ThreadExecutorPender else InterruptExecutorPender e)"

lemma exec_pender_eq [simp]: "exec_pender i = exec_pender e \<longleftrightarrow> i = e"
  by (simp add: exec_pender_def)

text \<open>A pender that some wake has yet to call.\<close>

definition owed :: "('q, 'r, 't, 'v, 'a, 'f, 's) pre_state \<Rightarrow> pender \<Rightarrow> bool" where
  "owed s p \<longleftrightarrow> p \<in> set (ps_isr s) \<or> (\<exists>e. p \<in> pending_pender (ps_phase s e))"

definition queue_covered ::
  "('q, 'r, 't, 'v, 'a) kernel_abs \<Rightarrow> ('q, 'r, 't, 'v, 'a, 'f, 's) pre_state \<Rightarrow> nat \<Rightarrow> ('q, 't) base_executor \<Rightarrow> bool" where
  "queue_covered A s e x \<longleftrightarrow> run_items A x = [] \<or> pended (be_pender x) (ps_kernel s) \<or>
     looks_again (ps_phase s e) \<or> owed s (be_pender x)"

definition timers_covered ::
  "('q, 'r, 't, 'v, 'a) kernel_abs \<Rightarrow> ('q, 'r, 't, 'v, 'a, 'f, 's) pre_state \<Rightarrow> nat \<Rightarrow> ('q, 't) base_executor \<Rightarrow> bool" where
  "timers_covered A s e x \<longleftrightarrow>
     pended (be_pender x) (ps_kernel s) \<or> e \<in> ps_refused s \<or> renews (ps_phase s e) \<or>
     (\<forall>i \<in># timer_items A x. \<exists>a \<in># alarm_items A (ps_kernel s).
        Some (ai_handle a) = be_alarm_handle x \<and> ai_expires_at a \<le> ti_expires_at i)"

definition exec_pre ::
  "('q, 'r, 't, 'v, 'a) kernel_libs \<Rightarrow> ('q, 'r, 't, 'v, 'a) kernel_abs \<Rightarrow>
     ('q, 'r, 't, 'v, 'a, 'f, 's) pre_state \<Rightarrow> nat \<Rightarrow> ('q, 't) base_executor \<Rightarrow> bool" where
  "exec_pre L A s e x \<longleftrightarrow> be_pender x = exec_pender e \<and> exec_started L (ps_kernel s) e x \<and>
     queue_covered A s e x \<and> timers_covered A s e x \<and>
     (\<forall>d. ps_phase s e = PhSetAlarm d \<longrightarrow> (\<forall>i \<in># timer_items A x. d \<le> ti_expires_at i))"

definition pre_inv ::
  "('q, 'r, 't, 'v, 'a) kernel_libs \<Rightarrow> ('q, 'r, 't, 'v, 'a) kernel_abs \<Rightarrow>
     ('q, 'r, 't, 'v, 'a, 'f, 's) pre_state \<Rightarrow> bool" where
  "pre_inv L A s \<longleftrightarrow> kernel_inv L A (ps_kernel s) \<and>
     (\<forall>e x. k_execs (ps_kernel s) e = Some x \<longrightarrow> exec_pre L A s e x) \<and>
     (\<forall>e. ps_phase s e \<noteq> PhIdle \<longrightarrow> e \<in> dom (k_execs (ps_kernel s))) \<and>
     (\<forall>e. phase_ok L A (dom (k_tasks (ps_kernel s))) (ps_phase s e))"

lemma pre_invI:
  assumes "kernel_inv L A (ps_kernel s)" "\<And>e x. k_execs (ps_kernel s) e = Some x \<Longrightarrow> exec_pre L A s e x"
    and "\<And>e. ps_phase s e \<noteq> PhIdle \<Longrightarrow> e \<in> dom (k_execs (ps_kernel s))"
    and "\<And>e. phase_ok L A (dom (k_tasks (ps_kernel s))) (ps_phase s e)"
  shows "pre_inv L A s"
  using assms unfolding pre_inv_def by blast

lemma pre_invD:
  assumes "pre_inv L A s"
  shows "kernel_inv L A (ps_kernel s)" "k_execs (ps_kernel s) e = Some x \<Longrightarrow> exec_pre L A s e x"
    and "ps_phase s e \<noteq> PhIdle \<Longrightarrow> \<exists>x. k_execs (ps_kernel s) e = Some x"
    and "phase_ok L A (dom (k_tasks (ps_kernel s))) (ps_phase s e)"
  using assms unfolding pre_inv_def by blast+

text \<open>The tasks an executor has polled, holds, and has queued, in this order: what a run only extends at the end.\<close>

definition polled_by :: "('q, 'r, 't, 'v, 'a, 'f, 's) pre_state \<Rightarrow> nat \<Rightarrow> nat list" where
  "polled_by s e = map snd (filter (\<lambda>u. fst u = e) (ps_polled s))"

definition task_history ::
  "('q, 'r, 't, 'v, 'a) kernel_abs \<Rightarrow> ('q, 'r, 't, 'v, 'a, 'f, 's) pre_state \<Rightarrow> nat \<Rightarrow> ('q, 't) base_executor \<Rightarrow> nat list" where
  "task_history A s e x = polled_by s e @ in_hand (ps_phase s e) @ run_items A x"

definition pre_extends ::
  "('q, 'r, 't, 'v, 'a) kernel_abs \<Rightarrow> ('q, 'r, 't, 'v, 'a, 'f, 's) pre_state \<Rightarrow>
     ('q, 'r, 't, 'v, 'a, 'f, 's) pre_state \<Rightarrow> bool" where
  "pre_extends A s s' \<longleftrightarrow> dom (k_tasks (ps_kernel s')) = dom (k_tasks (ps_kernel s)) \<and>
     (\<forall>e x. k_execs (ps_kernel s) e = Some x \<longrightarrow>
       (\<exists>x'. k_execs (ps_kernel s') e = Some x' \<and> prefix (task_history A s e x) (task_history A s' e x')))"

lemma pre_extends_refl: "pre_extends A s s"
  by (simp add: pre_extends_def)

lemma pre_extends_trans:
  assumes "pre_extends A s1 s2" "pre_extends A s2 s3"
  shows "pre_extends A s1 s3"
proof -
  have "\<exists>z. k_execs (ps_kernel s3) e = Some z \<and> prefix (task_history A s1 e x) (task_history A s3 e z)"
    if x: "k_execs (ps_kernel s1) e = Some x" for e x
    using assms x unfolding pre_extends_def by (meson prefix_order.order_trans)
  with assms show ?thesis by (simp add: pre_extends_def)
qed

lemma moved_simps [simp]:
  "ps_kernel (moved s e ph k) = k" "ps_phase (moved s e ph k) = (ps_phase s)(e := ph)" "ps_isr (moved s e ph k) = ps_isr s"
  "ps_refused (moved s e ph k) = refused_after e ph (ps_refused s)"
  by (simp_all add: moved_def)

lemma refused_other: "i \<noteq> e \<Longrightarrow> i \<in> refused_after e ph R \<longleftrightarrow> i \<in> R"
  by (cases "(e, ph, R)" rule: refused_after.cases) auto

lemma refused_keep: "e \<in> R \<Longrightarrow> ph \<noteq> PhReturn (Some ()) \<Longrightarrow> e \<in> refused_after e ph R"
  by (cases "(e, ph, R)" rule: refused_after.cases) auto

lemma polled_by_moved: "polled_by (moved s e ph k) i =
    polled_by s i @ (if i = e then map snd (polled_after e (ps_phase s e)) else [])"
  by (cases "ps_phase s e") (simp_all add: polled_by_def moved_def)

text \<open>More tasks than a run queue holds are queued, about to be queued, or in the timer queue of one executor.\<close>

definition crowded ::
  "('q, 'r, 't, 'v, 'a) kernel_libs \<Rightarrow> ('q, 'r, 't, 'v, 'a) kernel_abs \<Rightarrow>
     ('q, 'r, 't, 'v, 'a, 'f, 's) pre_state \<Rightarrow> bool" where
  "crowded L A s \<longleftrightarrow> (\<exists>e x. k_execs (ps_kernel s) e = Some x \<and>
     MAX_TASKS < length (run_items A x) + size (timer_items A x) + phase_load L (ps_phase s e))"

section \<open>The pieces keep the invariant\<close>

context kernel_laws
begin

lemma moved_ok:
  fixes s :: "('q, 'r, 't, 'v, 'a, 'f, 's) pre_state"
  assumes inv: "pre_inv L A s" and x: "k_execs (ps_kernel s) e = Some x"
    and m: "micro_ok L A e (ps_phase s e) (ps_kernel s) ph k"
  shows "pre_inv L A (moved s e ph k)" "pre_extends A s (moved s e ph k)"
proof -
  let ?k = "ps_kernel s" and ?s = "moved s e ph k"
  have fr: "kernel_inv L A k" "dom (k_tasks k) = dom (k_tasks ?k)" "dom (k_execs k) = dom (k_execs ?k)"
    "callbacks_of L k = callbacks_of L ?k" "alarm_items A ?k \<subseteq># alarm_items A k"
    "\<And>p. pended p ?k \<Longrightarrow> pended p k"
    "\<And>p. p \<in> pending_pender (ps_phase s e) \<Longrightarrow> pended p k \<or> p \<in> pending_pender ph"
    "phase_ok L A (dom (k_tasks ?k)) ph"
    using m by (auto simp: micro_ok_def)
  have owe: "pended p k \<or> owed ?s p" if "owed s p" for p
  proof (cases "p \<in> set (ps_isr s)")
    case False
    with that obtain i where "p \<in> pending_pender (ps_phase s i)" by (auto simp: owed_def)
    with fr(7) [of p] show ?thesis by (cases "i = e") (auto simp: owed_def)
  qed (simp add: owed_def)
  have alarm: "\<exists>a \<in># alarm_items A k. Q a" if "\<exists>a \<in># alarm_items A ?k. Q a" for Q
    using that fr(5) by (meson mset_subset_eqD)
  have all: "\<exists>y'. k_execs k i = Some y' \<and>
      (if i = e then own_moved A e (ps_phase s e) ph y y' else exec_moved A ph y y')" if "k_execs ?k i = Some y" for i y
    using m that unfolding micro_ok_def by (elim conjE) blast
  have other: "\<exists>y'. k_execs k i = Some y' \<and> exec_moved A ph y y'" if "k_execs ?k i = Some y" "i \<noteq> e" for i y
    using all [OF that(1)] that(2) by simp
  from all [OF x] obtain x' where x': "k_execs k e = Some x'" and own: "own_moved A e (ps_phase s e) ph x x'"
    by auto
  have pre: "exec_pre L A s i y" if "k_execs ?k i = Some y" for i y using pre_invD(2) [OF inv that] .
  have ex_e: "exec_pre L A ?s e x'"
  proof -
    have q: "queue_covered A ?s e x'"
    proof (cases "looks_again ph \<or> ph = PhRenew")
      case True
      with own show ?thesis by (auto simp: queue_covered_def own_moved_def)
    next
      case False
      with own have "\<not> looks_again (ps_phase s e)" "x' = x" by (auto simp: own_moved_def)
      with pre [OF x] fr(6) owe [of "be_pender x"] show ?thesis unfolding exec_pre_def queue_covered_def by auto
    qed
    have t: "timers_covered A ?s e x'"
    proof (cases ph)
      case PhIdle
      with own consider "timer_items A x' = {#}" | "\<not> renews (ps_phase s e)" "x' = x"
        by (auto simp: own_moved_def)
      then show ?thesis
      proof cases
        case 2
        with pre [OF x] PhIdle fr(6) alarm show ?thesis
          unfolding exec_pre_def timers_covered_def by (auto intro: refused_keep)
      qed (simp add: timers_covered_def)
    next
      case (PhReturn r)
      show ?thesis
      proof (cases r)
        case None
        with PhReturn show ?thesis by (simp add: timers_covered_def)
      next
        case (Some u)
        then have ret: "ph = PhReturn (Some ())" using PhReturn by simp
        from m ret x obtain d h where d: "ps_phase s e = PhSetAlarm d" "be_alarm_handle x = Some h"
          "\<lparr>ai_expires_at = d, ai_handle = h\<rparr> \<in># alarm_items A k" by (auto simp: micro_ok_def)
        from own ret have "x' = x" by (auto simp: own_moved_def)
        moreover have "\<forall>i \<in># timer_items A x. d \<le> ti_expires_at i" using pre [OF x] d(1) by (simp add: exec_pre_def)
        ultimately show ?thesis using d(2,3) by (force simp: timers_covered_def)
      qed
    qed (simp_all add: timers_covered_def)
    from own pre [OF x] fr(4) q t show ?thesis
      unfolding exec_pre_def own_moved_def exec_started_def by auto
  qed
  have ex_o: "exec_pre L A ?s i y'" if y: "k_execs ?k i = Some y" and i: "i \<noteq> e"
    and y': "k_execs k i = Some y'" "exec_moved A ph y y'" for i y y'
  proof -
    from y'(2) obtain ys where ys: "run_items A y' = run_items A y @ ys" "ys = [] \<or> be_pender y \<in> pending_pender ph"
      by (auto simp: exec_moved_def)
    have "ys = [] \<or> owed ?s (be_pender y)" using ys(2) by (auto simp: owed_def)
    with ys(1) pre [OF y] i y'(2) fr(6) owe [of "be_pender y"] have "queue_covered A ?s i y'"
      unfolding exec_pre_def queue_covered_def exec_moved_def by auto
    moreover have "timers_covered A ?s i y'"
      using pre [OF y] i y'(2) fr(6) alarm refused_other [OF i, of ph "ps_refused s"]
      unfolding exec_pre_def timers_covered_def exec_moved_def by auto
    ultimately show ?thesis
      using pre [OF y] i y'(2) fr(4) unfolding exec_pre_def exec_moved_def exec_started_def by auto
  qed
  show "pre_inv L A ?s"
  proof (rule pre_invI)
    fix i y'
    assume y': "k_execs (ps_kernel ?s) i = Some y'"
    show "exec_pre L A ?s i y'"
    proof (cases "i = e")
      case False
      from y' fr(3) obtain y where y: "k_execs ?k i = Some y" by fastforce
      with other [OF y False] y' ex_o [OF y False] show ?thesis by auto
    qed (use ex_e x' y' in auto)
  next
    fix i
    assume "ps_phase ?s i \<noteq> PhIdle"
    then show "i \<in> dom (k_execs (ps_kernel ?s))"
      using x pre_invD(3) [OF inv, of i] by (auto simp: fr(3) split: if_splits)
  next
    fix i
    show "phase_ok L A (dom (k_tasks (ps_kernel ?s))) (ps_phase ?s i)"
      using fr(8) pre_invD(4) [OF inv, of i] by (simp add: fr(2))
  qed (use fr(1) in simp)
  show "pre_extends A s ?s"
    unfolding pre_extends_def
  proof (intro conjI allI impI)
    fix i y
    assume y: "k_execs ?k i = Some y"
    show "\<exists>y'. k_execs (ps_kernel ?s) i = Some y' \<and> prefix (task_history A s i y) (task_history A ?s i y')"
    proof (cases "i = e")
      case True
      with own x y x' show ?thesis
        by (auto simp: task_history_def polled_by_moved own_moved_def prefix_def)
    next
      case False
      from other [OF y False] obtain y' ys where y': "k_execs k i = Some y'" "run_items A y' = run_items A y @ ys"
        by (auto simp: exec_moved_def)
      with False show ?thesis by (auto simp: task_history_def polled_by_moved prefix_def)
    qed
  qed (simp add: fr(2))
qed

lemma pre_exec_enter:
  fixes s :: "('q, 'r, 't, 'v, 'a, 'f, 's) pre_state"
  assumes inv: "pre_inv L A s"
  shows "\<exists>s'. pre_exec fuel L poll s (EvEnter e) = Some (Ret s') \<and> pre_inv L A s' \<and> pre_extends A s s'"
proof (cases "ps_phase s e = PhIdle \<and> (\<exists>x. k_execs (ps_kernel s) e = Some x \<and> pended (be_pender x) (ps_kernel s))")
  case False
  have "pre_exec fuel L poll s (EvEnter e) = Some (Ret s)"
  proof (cases "ps_phase s e = PhIdle")
    case idle: True
    show ?thesis
    proof (cases "k_execs (ps_kernel s) e")
      case (Some x)
      with False idle have "take_request (be_pender x) (ps_kernel s) = (False, ps_kernel s)"
        by (auto simp: pended_def take_request_def Kernel_event_fetch_and_clear_local_def split: pender.splits)
      with idle Some show ?thesis by simp
    qed (simp add: idle)
  qed (cases "ps_phase s e"; simp)
  with inv pre_extends_refl show ?thesis by blast
next
  case True
  then obtain x where x: "k_execs (ps_kernel s) e = Some x" and idle: "ps_phase s e = PhIdle"
    and p: "pended (be_pender x) (ps_kernel s)" by blast
  let ?k = "snd (take_request (be_pender x) (ps_kernel s))"
  let ?s = "s\<lparr>ps_kernel := ?k, ps_phase := (ps_phase s)(e := PhCheck)\<rparr>"
  have run: "pre_exec fuel L poll s (EvEnter e) = Some (Ret ?s)"
    using idle x take_pended [OF p] by (cases "take_request (be_pender x) (ps_kernel s)") simp
  have pe: "be_pender x = exec_pender e" using pre_invD(2) [OF inv x] by (simp add: exec_pre_def)
  have k: "k_tasks ?k = k_tasks (ps_kernel s)" "k_execs ?k = k_execs (ps_kernel s)"
    "k_alarm_queue ?k = k_alarm_queue (ps_kernel s)"
    by (simp_all add: take_request_def Kernel_event_fetch_and_clear_local_def Let_def split: pender.split)
  have pd: "pended (exec_pender i) (ps_kernel s) \<Longrightarrow> i \<noteq> e \<Longrightarrow> pended (exec_pender i) ?k" for i
    unfolding pe by (auto simp: pended_def take_request_def Kernel_event_fetch_and_clear_local_def exec_pender_def
        split: if_splits)
  have owe: "owed ?s q \<longleftrightarrow> owed s q" for q
  proof -
    have "q \<in> pending_pender (((ps_phase s)(e := PhCheck)) i) \<longleftrightarrow> q \<in> pending_pender (ps_phase s i)" for i
      by (cases "i = e") (simp_all add: idle)
    then show ?thesis by (simp add: owed_def del: fun_upd_apply)
  qed
  have "pre_inv L A ?s"
  proof (rule pre_invI)
    show "kernel_inv L A (ps_kernel ?s)" using pre_invD(1) [OF inv] k by (simp add: kernel_inv_frame)
  next
    fix i y
    assume "k_execs (ps_kernel ?s) i = Some y"
    then have y: "k_execs (ps_kernel s) i = Some y" using k by simp
    note pre = pre_invD(2) [OF inv y]
    have st: "exec_started L ?k i y" using pre k by (simp add: exec_pre_def exec_started_def callbacks_of_def)
    show "exec_pre L A ?s i y"
    proof (cases "i = e")
      case True
      with pre st show ?thesis by (simp add: exec_pre_def queue_covered_def timers_covered_def)
    next
      case False
      with pre pd [of i] st owe show ?thesis
        by (auto simp: exec_pre_def queue_covered_def timers_covered_def alarm_items_def k)
    qed
  next
    fix i
    assume "ps_phase ?s i \<noteq> PhIdle"
    then show "i \<in> dom (k_execs (ps_kernel ?s))"
      using x pre_invD(3) [OF inv, of i] by (auto simp: k split: if_splits)
  next
    fix i
    show "phase_ok L A (dom (k_tasks (ps_kernel ?s))) (ps_phase ?s i)"
      using pre_invD(4) [OF inv, of i] by (simp add: k)
  qed
  moreover have "pre_extends A s ?s"
    by (auto simp: pre_extends_def task_history_def polled_by_def k idle)
  ultimately show ?thesis using run by blast
qed

text \<open>A change of the kernel and of the handlers that keeps the executors but for additions to run queues.\<close>

lemma interrupt_ok:
  fixes s :: "('q, 'r, 't, 'v, 'a, 'f, 's) pre_state"
  assumes inv: "pre_inv L A s" and k: "kernel_inv L A k" "dom (k_tasks k) = dom (k_tasks (ps_kernel s))"
    "dom (k_execs k) = dom (k_execs (ps_kernel s))" "callbacks_of L k = callbacks_of L (ps_kernel s)"
    "\<And>p. pended p (ps_kernel s) \<Longrightarrow> pended p k"
    and isr: "\<And>p. p \<in> set (ps_isr s) \<Longrightarrow> pended p k \<or> p \<in> set isr"
    and ex: "\<And>e y. k_execs (ps_kernel s) e = Some y \<Longrightarrow> \<exists>y' ys. k_execs k e = Some y' \<and>
      be_alarm_handle y' = be_alarm_handle y \<and> be_pender y' = be_pender y \<and> timer_items A y' = timer_items A y \<and>
      run_items A y' = run_items A y @ ys \<and> (ys = [] \<or> be_pender y \<in> set isr)"
    and tm: "\<And>e y. k_execs (ps_kernel s) e = Some y \<Longrightarrow> exec_started L (ps_kernel s) e y \<Longrightarrow>
      \<not> pended (be_pender y) k \<Longrightarrow>
      \<forall>i \<in># timer_items A y. \<exists>a \<in># alarm_items A (ps_kernel s).
        Some (ai_handle a) = be_alarm_handle y \<and> ai_expires_at a \<le> ti_expires_at i \<Longrightarrow>
      \<forall>i \<in># timer_items A y. \<exists>a \<in># alarm_items A k.
        Some (ai_handle a) = be_alarm_handle y \<and> ai_expires_at a \<le> ti_expires_at i"
  shows "pre_inv L A (s\<lparr>ps_kernel := k, ps_isr := isr\<rparr>) \<and> pre_extends A s (s\<lparr>ps_kernel := k, ps_isr := isr\<rparr>)"
proof (intro conjI)
  let ?s = "s\<lparr>ps_kernel := k, ps_isr := isr\<rparr>"
  have owe: "pended p k \<or> owed ?s p" if "owed s p" for p
    using that isr [of p] by (auto simp: owed_def)
  have isr': "owed ?s p" if "p \<in> set isr" for p using that by (simp add: owed_def)
  show "pre_inv L A ?s"
  proof (rule pre_invI)
    fix e y'
    assume y': "k_execs (ps_kernel ?s) e = Some y'"
    then obtain y where y: "k_execs (ps_kernel s) e = Some y" using k(3) by fastforce
    note pre = pre_invD(2) [OF inv y]
    from ex [OF y] y' obtain ys where e: "be_alarm_handle y' = be_alarm_handle y" "be_pender y' = be_pender y"
      "timer_items A y' = timer_items A y" "run_items A y' = run_items A y @ ys" "ys = [] \<or> be_pender y \<in> set isr" by auto
    have "queue_covered A ?s e y'"
      using pre k(5) owe [of "be_pender y"] e(2,4,5) isr' unfolding exec_pre_def queue_covered_def by auto
    moreover have "timers_covered A ?s e y'"
      using pre k(5) tm [OF y] e(1-3) unfolding exec_pre_def timers_covered_def by auto
    ultimately show "exec_pre L A ?s e y'"
      using pre e(1-3) k(4) unfolding exec_pre_def exec_started_def by auto
  next
    fix e
    assume "ps_phase ?s e \<noteq> PhIdle"
    then show "e \<in> dom (k_execs (ps_kernel ?s))" using pre_invD(3) [OF inv, of e] k(3) by auto
  next
    fix e
    show "phase_ok L A (dom (k_tasks (ps_kernel ?s))) (ps_phase ?s e)"
      using pre_invD(4) [OF inv, of e] k(2) by simp
  qed (use k(1) in simp)
  show "pre_extends A s ?s"
    using ex k(2) unfolding pre_extends_def task_history_def polled_by_def by (auto simp: prefix_def) fastforce
qed

lemma pre_exec_ok:
  fixes s :: "('q, 'r, 't, 'v, 'a, 'f, 's) pre_state"
  assumes inv: "pre_inv L A s" and p: "poll_ok poll (dom (k_tasks (ps_kernel s)))"
    and fuel: "N_TIMERS < fuel" "N_ALARM_ITEMS < fuel"
  shows "pre_exec fuel L poll s ev = Some (Panic UnwrapFailed) \<and> crowded L A s \<or>
    (\<exists>s'. pre_exec fuel L poll s ev = Some (Ret s') \<and> pre_inv L A s' \<and> pre_extends A s s')"
proof (cases ev)
  case (EvEnter e)
  with pre_exec_enter [OF inv] show ?thesis by blast
next
  case (EvStep e)
  show ?thesis
  proof (cases "k_execs (ps_kernel s) e")
    case None
    then have "ps_phase s e = PhIdle" using pre_invD(3) [OF inv, of e] by auto
    then have "pre_exec fuel L poll s ev = Some (Ret s)" by (simp add: EvStep moved_def fun_upd_idem)
    with inv pre_extends_refl show ?thesis by blast
  next
    case (Some x)
    have "exec_started L (ps_kernel s) e x" using pre_invD(2) [OF inv Some] by (simp add: exec_pre_def)
    from micro_step_ok [OF pre_invD(1) [OF inv] p Some this pre_invD(4) [OF inv] fuel(1), of e] moved_ok [OF inv Some]
    show ?thesis using Some by (auto simp: EvStep crowded_def)
  qed
next
  case EvTick
  let ?k = "ps_kernel s"
  from timer_interrupt_ok [OF pre_invD(1) [OF inv] fuel(2)] obtain k where
    k: "Kernel_on_timer_interrupt fuel L ?k = Some (Ret k)" "kernel_inv L A k"
    "k_execs k = k_execs ?k" "k_tasks k = k_tasks ?k" "\<And>e. timer_armed L A e ?k \<Longrightarrow> timer_armed L A e k"
    "\<And>p. pended p ?k \<Longrightarrow> pended p k" "callbacks_of L k = callbacks_of L ?k" by blast
  have "pre_inv L A (s\<lparr>ps_kernel := k, ps_isr := ps_isr s\<rparr>) \<and> pre_extends A s (s\<lparr>ps_kernel := k, ps_isr := ps_isr s\<rparr>)"
  proof (rule interrupt_ok [OF inv k(2)])
    fix e y
    assume y: "k_execs ?k e = Some y" and "exec_started L ?k e y" "\<not> pended (be_pender y) k"
      "\<forall>i \<in># timer_items A y. \<exists>a \<in># alarm_items A ?k.
        Some (ai_handle a) = be_alarm_handle y \<and> ai_expires_at a \<le> ti_expires_at i"
    moreover from this have "timer_armed L A e k" by (intro k(5)) (simp add: timer_armed_def)
    ultimately show "\<forall>i \<in># timer_items A y. \<exists>a \<in># alarm_items A k.
        Some (ai_handle a) = be_alarm_handle y \<and> ai_expires_at a \<le> ti_expires_at i"
      by (simp add: timer_armed_def k(3))
  qed (use k in auto)
  with k(1) EvTick show ?thesis by auto
next
  case (EvWake t)
  let ?k = "ps_kernel s"
  show ?thesis
  proof (cases "t \<in> dom (k_tasks ?k)")
    case False
    then have "pre_exec fuel L poll s ev = Some (Ret s)" by (simp add: EvWake domIff)
    with inv pre_extends_refl show ?thesis by blast
  next
    case True
    have "waker_vtable (RawWaker t VTABLE) = VTABLE" "waker_data (RawWaker t VTABLE) \<in> dom (k_tasks ?k)"
      using True by simp_all
    from wake_section_cases [OF pre_invD(1) [OF inv] this] obtain i x q ys where
      i: "k_execs ?k i = Some x" "rq_items A q = run_items A x @ ys"
      "wake_section L (RawWaker t VTABLE) ?k = Ret (Some (be_pender x), set_exec i (x\<lparr>be_run_queue := q\<rparr>) ?k)"
      "kernel_inv L A (set_exec i (x\<lparr>be_run_queue := q\<rparr>) ?k)" .
    let ?x = "x\<lparr>be_run_queue := q\<rparr>" and ?isr = "be_pender x # ps_isr s"
    have x: "be_alarm_handle ?x = be_alarm_handle x" "be_pender ?x = be_pender x" "timer_items A ?x = timer_items A x"
      "run_items A ?x = run_items A x @ ys"
      using i(2) by (simp_all add: run_items_def timer_items_def)
    have "pre_inv L A (s\<lparr>ps_kernel := set_exec i ?x ?k, ps_isr := ?isr\<rparr>) \<and>
        pre_extends A s (s\<lparr>ps_kernel := set_exec i ?x ?k, ps_isr := ?isr\<rparr>)"
      by (rule interrupt_ok [OF inv i(4)]) (use i(1) x in auto)
    with i(3) True EvWake show ?thesis by auto
  qed
next
  case EvPend
  show ?thesis
  proof (cases "ps_isr s")
    case Nil
    with EvPend inv pre_extends_refl show ?thesis by auto
  next
    case (Cons p isr)
    let ?k = "Pender_pend p (ps_kernel s)"
    have "kernel_inv L A ?k" by (rule kernel_inv_frame [OF pre_invD(1) [OF inv]]) simp_all
    then have "pre_inv L A (s\<lparr>ps_kernel := ?k, ps_isr := isr\<rparr>) \<and> pre_extends A s (s\<lparr>ps_kernel := ?k, ps_isr := isr\<rparr>)"
      by (rule interrupt_ok [OF inv]) (use Cons in \<open>auto intro: pended_mono\<close>)
    with Cons EvPend show ?thesis by auto
  qed
qed

lemma pre_run_ok:
  fixes s :: "('q, 'r, 't, 'v, 'a, 'f, 's) pre_state"
  assumes "pre_inv L A s" "poll_ok poll (dom (k_tasks (ps_kernel s)))" and fuel: "N_TIMERS < fuel" "N_ALARM_ITEMS < fuel"
  shows "pre_run fuel L poll evs s = Some (Panic UnwrapFailed) \<and>
      (\<exists>n s1. pre_run fuel L poll (take n evs) s = Some (Ret s1) \<and> crowded L A s1) \<or>
    (\<exists>s'. pre_run fuel L poll evs s = Some (Ret s') \<and> pre_inv L A s' \<and> pre_extends A s s')"
  using assms(1,2)
proof (induction evs arbitrary: s)
  case Nil
  then show ?case using pre_extends_refl by auto
next
  case (Cons ev evs)
  from pre_exec_ok [OF Cons.prems fuel, of ev] show ?case
  proof (elim disjE exE conjE)
    assume "pre_exec fuel L poll s ev = Some (Panic UnwrapFailed)" "crowded L A s"
    then show ?thesis by (intro disjI1 conjI exI [of _ 0] exI [of _ s]) simp_all
  next
    fix s1
    assume s1: "pre_exec fuel L poll s ev = Some (Ret s1)" "pre_inv L A s1" "pre_extends A s s1"
    have "poll_ok poll (dom (k_tasks (ps_kernel s1)))" using s1(3) Cons.prems(2) by (simp add: pre_extends_def)
    from Cons.IH [OF s1(2) this] show ?thesis
    proof (elim disjE exE conjE)
      fix n s2
      assume "pre_run fuel L poll evs s1 = Some (Panic UnwrapFailed)"
        "pre_run fuel L poll (take n evs) s1 = Some (Ret s2)" "crowded L A s2"
      with s1(1) show ?thesis by (intro disjI1 conjI exI [of _ "Suc n"] exI [of _ s2]) simp_all
    qed (use s1(1,3) in \<open>auto intro: pre_extends_trans\<close>)
  qed
qed

lemma rested_empty:
  assumes "pre_inv L A s" "k_execs (ps_kernel s) e = Some x" "ps_phase s e = PhIdle"
    "\<not> pended (be_pender x) (ps_kernel s)" "\<not> owed s (be_pender x)"
  shows "run_items A x = []"
  using pre_invD(2) [OF assms(1,2)] assms(3-5) by (simp add: exec_pre_def queue_covered_def)

end

section \<open>From the boot sequence\<close>

lemma boot_pre_inv:
  fixes k :: "('q, 't, 'v, 'a, 'f, 's) kernel"
  assumes d: "boot_done L A ops k" and st: "insert 0 (set (boot_prios ops)) \<subseteq> boot_starts ops"
  shows "pre_inv L A (pre_start k :: ('q, 'r, 't, 'v, 'a, 'f, 's) pre_state)"
proof (rule pre_invI)
  fix e x
  assume "k_execs (ps_kernel (pre_start k :: ('q, 'r, 't, 'v, 'a, 'f, 's) pre_state)) e = Some x"
  then have x: "k_execs k e = Some x" by (simp add: pre_start_def)
  then have "e \<in> boot_starts ops" using st boot_doneD(3) [OF d] by blast
  with boot_doneD(5) [OF d x] show "exec_pre L A (pre_start k :: ('q, 'r, 't, 'v, 'a, 'f, 's) pre_state) e x"
    by (auto simp: exec_pre_def boot_exec_done_def queue_covered_def timers_covered_def pre_start_def exec_pender_def)
qed (use boot_doneD(6) [OF d] in \<open>simp_all add: pre_start_def\<close>)

section \<open>Properties\<close>

text \<open>
  C4. Preemption forgets nothing: start from a boot sequence that starts every executor, and let rounds, tick interrupts
  and waking interrupts interleave in any order, at any of the points between critical sections.  The run never runs out
  of fuel, and it panics only when, at some moment, one executor had more than 32 tasks queued or in its timer queue.  Otherwise
  the kernel stays well-formed, and in every state: an executor with a task in its run queue has been pended, or its round will look
  at the queue again, or a wake under way is about to pend it; and an executor with timers has been
  pended, or its round will set the alarm, or an alarm no later than each timer is set, unless its last alarm was refused because 64
  alarms were set.
\<close>

theorem preemption_forgets_nothing:
  fixes L :: "('q, 'r, 't, 'v, 'a) kernel_libs" and ins :: "('q, 't) lmap_insert" and st :: 's
    and k :: "('q, 't, 'v, 'a, 'f, 's) kernel"
  assumes laws: "kernel_laws L A" and map: "linear_map ins N_EXECUTORS"
    and lay: "0 < fut_align lay" "0 < hdr_align lay" "0 < hdr_size lay" and mem: "mem + MEMORY_SIZE \<le> usize_max"
    and once: "distinct (0 # boot_prios ops)" and all: "insert 0 (set (boot_prios ops)) \<subseteq> boot_starts ops"
    and ret: "boot_all L ins lay ops (Kernel_init L mem (Kernel_statics L q b st)) = Ret k"
    and p: "poll_ok poll (dom (k_tasks k))" and fuel: "N_TIMERS < fuel" "N_ALARM_ITEMS < fuel"
  shows "pre_run fuel L poll evs (pre_start k) = Some (Panic UnwrapFailed) \<and>
      (\<exists>n s1. pre_run fuel L poll (take n evs) (pre_start k) = Some (Ret s1) \<and> crowded L A s1) \<or>
    (\<exists>s. pre_run fuel L poll evs (pre_start k) = Some (Ret s) \<and> kernel_inv L A (ps_kernel s) \<and>
      (\<forall>e x. k_execs (ps_kernel s) e = Some x \<longrightarrow>
        (run_items A x = [] \<or> pended (be_pender x) (ps_kernel s) \<or> looks_again (ps_phase s e) \<or> owed s (be_pender x)) \<and>
        (pended (be_pender x) (ps_kernel s) \<or> renews (ps_phase s e) \<or> e \<in> ps_refused s \<or>
         (\<forall>i \<in># timer_items A x. \<exists>a \<in># alarm_items A (ps_kernel s).
            Some (ai_handle a) = be_alarm_handle x \<and> ai_expires_at a \<le> ti_expires_at i))))"
proof -
  have "boot_done L A ([] @ ops) k"
    using map lay kernel_laws.init_done [OF laws mem] once ret
    by (intro kernel_laws.boot_all_done [OF laws, where ops = "[]"]) simp_all
  then have inv: "pre_inv L A (pre_start k :: ('q, 'r, 't, 'v, 'a, 'f, 's) pre_state)"
    using all by (intro boot_pre_inv) simp_all
  have "poll_ok poll (dom (k_tasks (ps_kernel (pre_start k :: ('q, 'r, 't, 'v, 'a, 'f, 's) pre_state))))"
    using p by (simp add: pre_start_def)
  from kernel_laws.pre_run_ok [OF laws inv this fuel, of evs] show ?thesis
  proof (elim disjE exE conjE)
    fix s
    assume s: "pre_run fuel L poll evs (pre_start k) = Some (Ret s)" "pre_inv L A s"
    have "queue_covered A s e x \<and> timers_covered A s e x" if "k_execs (ps_kernel s) e = Some x" for e x
      using pre_invD(2) [OF s(2) that] by (simp add: exec_pre_def)
    with s(1) pre_invD(1) [OF s(2)] show ?thesis unfolding queue_covered_def timers_covered_def by blast
  qed blast
qed

theorem preemption_forgets_nothing_witness:
  "\<exists>(k :: (nat list, timer_queue_item list, nat option list, alarm_item list, unit, unit) kernel) s.
     boot_all list_libs (bounded_insert N_EXECUTORS) demo_layout demo_boot
       (Kernel_init list_libs 4096 (Kernel_statics list_libs undefined undefined ())) = Ret k \<and>
     pre_run 65 list_libs quiet_poll [EvEnter 0, EvEnter 2] (pre_start k) = Some (Ret s) \<and>
     kernel_inv list_libs list_abs (ps_kernel s) \<and>
     (\<forall>x. k_execs (ps_kernel s) 2 = Some x \<longrightarrow> run_items list_abs x = [] \<or> pended (be_pender x) (ps_kernel s) \<or>
        looks_again (ps_phase s 2) \<or> owed s (be_pender x))"
proof -
  let ?k0 = "Kernel_init list_libs 4096 (Kernel_statics list_libs undefined undefined ())
    :: (nat list, timer_queue_item list, nat option list, alarm_item list, unit, unit) kernel"
    and ?ins = "bounded_insert N_EXECUTORS"
  have "\<exists>k. boot_all list_libs ?ins demo_layout demo_boot ?k0 = Ret k"
    by (simp add: boot_eval del: bind_out_eq_Ret)
  then obtain k where k: "boot_all list_libs ?ins demo_layout demo_boot ?k0 = Ret k" ..
  have ops: "boot_prios demo_boot = [2]" "boot_starts demo_boot = {0, 2}"
    by (auto simp: demo_boot_def boot_prios_def boot_starts_def)
  let ?s = "pre_start k :: (nat list, nat list, timer_queue_item list, nat option list, alarm_item list, unit, unit) pre_state"
  have once: "distinct (0 # boot_prios demo_boot)" by (simp add: ops)
  have "boot_done list_libs list_abs ([] @ demo_boot) k"
    using list_kernel.init_done [of 4096] once k
    by (intro list_kernel.boot_all_done [OF bounded_map.linear_map_axioms, where ops = "[]"])
      (simp_all add: demo_layout_def MEMORY_SIZE_def usize_max_def)
  then have "pre_inv list_libs list_abs ?s" by (intro boot_pre_inv [where ops = demo_boot]) (simp_all add: ops)
  from list_kernel.pre_exec_enter [OF this] obtain s1 where
    s1: "pre_exec 65 list_libs quiet_poll ?s (EvEnter 0) = Some (Ret s1)" "pre_inv list_libs list_abs s1" by blast
  from list_kernel.pre_exec_enter [OF s1(2)] obtain s2 where
    "pre_exec 65 list_libs quiet_poll s1 (EvEnter 2) = Some (Ret s2)" by blast
  with s1(1) have run: "pre_run 65 list_libs quiet_poll [EvEnter 0, EvEnter 2] ?s = Some (Ret s2)"
    by (simp del: pre_exec.simps)
  have all: "insert 0 (set (boot_prios demo_boot)) \<subseteq> boot_starts demo_boot" by (simp add: ops)
  have "N_TIMERS < 65" "N_ALARM_ITEMS < 65" by (simp_all add: N_TIMERS_def N_ALARM_ITEMS_def)
  from preemption_forgets_nothing [OF list_kernel_laws bounded_map.linear_map_axioms _ _ _ _ once all k quiet_poll_ok this,
      of "[EvEnter 0, EvEnter 2]"] run
  have "kernel_inv list_libs list_abs (ps_kernel s2) \<and>
     (\<forall>x. k_execs (ps_kernel s2) 2 = Some x \<longrightarrow> run_items list_abs x = [] \<or> pended (be_pender x) (ps_kernel s2) \<or>
        looks_again (ps_phase s2 2) \<or> owed s2 (be_pender x))"
    by (auto simp: demo_layout_def MEMORY_SIZE_def usize_max_def simp del: pre_run.simps)
  with k run show ?thesis by blast
qed

text \<open>
  C5. Tasks run in the order of the queue, whatever preempts their executor: over any run from a state of the
  invariant, the tasks that an executor has polled, followed by the one it has just popped and those in its run queue, are only
  extended at the end.  When the executor is idle in the end, has not been pended and no wake is under way, its run queue is empty, so
  it has polled all the tasks that were in the queue, in their order.
\<close>

theorem preempted_tasks_in_order:
  fixes s :: "('q, 'r, 't, 'v, 'a, 'f, 's) pre_state"
  assumes laws: "kernel_laws L A" and inv: "pre_inv L A s" and p: "poll_ok poll (dom (k_tasks (ps_kernel s)))"
    and fuel: "N_TIMERS < fuel" "N_ALARM_ITEMS < fuel"
    and x: "k_execs (ps_kernel s) e = Some x" and run: "pre_run fuel L poll evs s = Some (Ret s')"
  shows "\<exists>x' ys. k_execs (ps_kernel s') e = Some x' \<and>
    polled_by s' e @ in_hand (ps_phase s' e) @ run_items A x' =
      polled_by s e @ in_hand (ps_phase s e) @ run_items A x @ ys \<and>
    (ps_phase s' e = PhIdle \<longrightarrow> \<not> pended (be_pender x') (ps_kernel s') \<longrightarrow> \<not> owed s' (be_pender x') \<longrightarrow>
      polled_by s' e = polled_by s e @ in_hand (ps_phase s e) @ run_items A x @ ys)"
proof -
  from kernel_laws.pre_run_ok [OF laws inv p fuel, of evs] run have inv': "pre_inv L A s'" "pre_extends A s s'"
    by auto
  from inv'(2) x obtain x' ys where x': "k_execs (ps_kernel s') e = Some x'"
    "task_history A s' e x' = task_history A s e x @ ys" unfolding pre_extends_def prefix_def by metis
  have "run_items A x' = []"
    if "ps_phase s' e = PhIdle" "\<not> pended (be_pender x') (ps_kernel s')" "\<not> owed s' (be_pender x')"
    by (rule kernel_laws.rested_empty [OF laws inv'(1) x'(1) that])
  with x' show ?thesis by (intro exI [of _ x'] exI [of _ ys]) (auto simp: task_history_def)
qed

text \<open>
  An executor that is preempted by an interrupt while it polls its only task: the handler wakes another one and
  pends the executor before the poll ends.
\<close>

definition demo_events :: "pre_event list" where
  "demo_events = [EvEnter 0, EvStep 0, EvStep 0, EvStep 0, EvStep 0, EvWake 200, EvStep 0, EvTick, EvPend,
     EvStep 0, EvStep 0, EvStep 0, EvStep 0, EvStep 0, EvStep 0, EvStep 0, EvStep 0,
     EvEnter 0, EvStep 0, EvStep 0, EvStep 0, EvStep 0, EvStep 0]"

theorem preempted_tasks_in_order_witness:
  "\<exists>s' ys. pre_run 65 list_libs quiet_poll demo_events demo_pre = Some (Ret s') \<and> polled_by s' 0 = 100 # ys"
proof -
  let ?x = "demo_executor [100] []"
  have "kernel_inv list_libs list_abs (demo_kernel [100] [] [] 0 ())"
    by (rule demo_kernel_inv) (simp_all add: MAX_TASKS_def)
  then have "kernel_inv list_libs list_abs (ps_kernel demo_pre)"
    by (rule kernel_inv_frame) (simp_all add: demo_pre_def pre_start_def)
  moreover have "exec_pre list_libs list_abs demo_pre e x" if "k_execs (ps_kernel demo_pre) e = Some x" for e x
  proof -
    have "e = 0" "x = ?x" using that by (simp_all add: demo_pre_def pre_start_def demo_kernel_def split: if_splits)
    moreover have "exec_started list_libs (ps_kernel demo_pre) 0 ?x"
      using demo_started [of "[100]" "[]" "[]" 0 "()"]
      by (simp add: demo_pre_def pre_start_def exec_started_def callbacks_of_def)
    ultimately show ?thesis
      by (simp add: exec_pre_def queue_covered_def timers_covered_def exec_pender_def)
        (simp add: demo_pre_def pre_start_def demo_executor_def pended_def)
  qed
  ultimately have inv: "pre_inv list_libs list_abs demo_pre"
    by (intro pre_invI) (simp_all add: demo_pre_def pre_start_def)
  have x: "k_execs (ps_kernel demo_pre) 0 = Some ?x" by (simp add: demo_pre_def pre_start_def)
  have "\<exists>s'. pre_run 65 list_libs quiet_poll demo_events demo_pre = Some (Ret s') \<and> ps_phase s' = (\<lambda>_. PhIdle) \<and>
      ps_isr s' = [] \<and> \<not> k_local_event (ps_kernel s') \<and>
      (\<forall>x. k_execs (ps_kernel s') 0 = Some x \<longrightarrow> be_pender x = ThreadExecutorPender)"
    by (simp add: demo_events_def pre_eval fun_eq_iff)
  then obtain s' where s': "pre_run 65 list_libs quiet_poll demo_events demo_pre = Some (Ret s')"
    "ps_phase s' = (\<lambda>_. PhIdle)" "ps_isr s' = []" "\<not> k_local_event (ps_kernel s')"
    "\<And>x. k_execs (ps_kernel s') 0 = Some x \<Longrightarrow> be_pender x = ThreadExecutorPender" by blast
  have "N_TIMERS < 65" "N_ALARM_ITEMS < 65" by (simp_all add: N_TIMERS_def N_ALARM_ITEMS_def)
  from preempted_tasks_in_order [OF list_kernel_laws inv quiet_poll_ok this x s'(1)] s'
  show ?thesis
    by (auto simp: pended_def owed_def polled_by_def demo_pre_def pre_start_def simp del: pre_run.simps)
qed

end
