(* ===== verification/Exact_Runs.thy ===== *)
theory Exact_Runs
  imports Kernel
begin

text \<open>
  What one task does to its executor when the result of its poll is known: the tasks it wakes are
  appended to the run queue, in order.  These lemmas run concrete programs on the kernel.
\<close>

definition fut_of :: "('q, 't, 'v, 'a, 'f, 's) kernel \<Rightarrow> nat \<Rightarrow> 'f option" where
  "fut_of k t = map_option th_fut_ref (k_tasks k t)"

definition home_of :: "('q, 't, 'v, 'a, 'f, 's) kernel \<Rightarrow> nat \<Rightarrow> nat option" where
  "home_of k t = map_option th_executor (k_tasks k t)"

fun effect_wakes :: "task_effect \<Rightarrow> nat list" where
  "effect_wakes (EffWake w) = (if waker_vtable w = VTABLE then [waker_data w] else [])"
| "effect_wakes (EffSetDeadline w d) = []"

definition wakes :: "task_effect list \<Rightarrow> nat list" where
  "wakes fs = concat (map effect_wakes fs)"

lemma wakes_simps [simp]: "wakes [] = []" "wakes (f # fs) = effect_wakes f @ wakes fs"
  by (simp_all add: wakes_def)

text \<open>The kernel after a step: well-formed, with the given run queue, futures and shared state.\<close>

definition runs_to ::
  "('q, 'r, 't, 'v, 'a) kernel_libs \<Rightarrow> ('q, 'r, 't, 'v, 'a) kernel_abs \<Rightarrow> nat \<Rightarrow> (nat \<Rightarrow> nat option) \<Rightarrow>
     ('q, 't, 'v, 'a, 'f, 's) kernel \<Rightarrow> nat list \<Rightarrow> (nat \<Rightarrow> 'f option) \<Rightarrow> 's \<Rightarrow> bool" where
  "runs_to L A e home k ts futs s \<longleftrightarrow> kernel_inv L A k \<and> home_of k = home \<and> fut_of k = futs \<and> k_shared k = s \<and>
     (\<exists>x. k_execs k e = Some x \<and> run_items A x = ts)"

lemma fut_of_simps [simp]:
  "fut_of (set_exec e x k) = fut_of k" "fut_of (Pender_pend p k) = fut_of k"
  "fut_of (set_header t h k) = (fut_of k)(t \<mapsto> th_fut_ref h)"
  "home_of (set_exec e x k) = home_of k" "home_of (Pender_pend p k) = home_of k"
  "home_of (set_header t h k) = (home_of k)(t \<mapsto> th_executor h)"
  "fut_of (k\<lparr>k_shared := s\<rparr>) = fut_of k" "home_of (k\<lparr>k_shared := s\<rparr>) = home_of k"
  "fut_of (k\<lparr>k_local_event := v\<rparr>) = fut_of k" "home_of (k\<lparr>k_local_event := v\<rparr>) = home_of k"
  by (auto simp: fut_of_def home_of_def)

context kernel_laws
begin

lemma effects_exact:
  fixes k :: "('q, 't, 'v, 'a, 'f, 's) kernel"
  assumes "runs_to L A e home k ts futs s" "list_all (effect_ok (dom (k_tasks k))) fs"
    and "\<forall>u \<in> set (wakes fs). home u = Some e" "length ts + length (wakes fs) \<le> MAX_TASKS"
  shows "\<exists>k'. each_out (apply_effect L) fs k = Ret k' \<and> runs_to L A e home k' (ts @ wakes fs) futs s \<and>
    dom (k_tasks k') = dom (k_tasks k)"
  using assms
proof (induction fs arbitrary: k ts)
  case (Cons f fs)
  from Cons.prems(1) obtain x where k: "kernel_inv L A k" "home_of k = home" "fut_of k = futs" "k_shared k = s"
    "k_execs k e = Some x" "run_items A x = ts" by (auto simp: runs_to_def)
  have "\<exists>k1. apply_effect L k f = Ret k1 \<and> runs_to L A e home k1 (ts @ effect_wakes f) futs s \<and>
      dom (k_tasks k1) = dom (k_tasks k)"
  proof (cases f)
    case (EffSetDeadline w d)
    obtain t where w: "w = RawWaker t VTABLE" using Cons.prems(2) EffSetDeadline by (cases w) auto
    with Cons.prems(2) EffSetDeadline obtain h where h: "k_tasks k t = Some h" by auto
    let ?k = "set_header t (h\<lparr>th_expires_at := Some d\<rparr>) k"
    have "kernel_inv L A ?k" by (rule kernel_inv_set_header [OF k(1) h]) simp
    moreover have "home_of k t = Some (th_executor h)" "fut_of k t = Some (th_fut_ref h)"
      using h by (simp_all add: home_of_def fut_of_def)
    then have "home_of ?k = home" "fut_of ?k = futs" by (simp_all add: fun_upd_idem flip: k(2,3))
    ultimately show ?thesis using k(4-6) h w EffSetDeadline by (auto simp: runs_to_def with_header_def)
  next
    case (EffWake w)
    show ?thesis
    proof (cases "waker_vtable w = VTABLE")
      case True
      let ?t = "waker_data w"
      have t: "home ?t = Some e" using Cons.prems(3) EffWake True by simp
      then obtain h where h: "k_tasks k ?t = Some h" "th_executor h = e" using k(2) by (auto simp: home_of_def)
      then have "?t \<in> dom (k_tasks k)" by auto
      from enqueue_cases [OF k(1,5) this] obtain q where q: "BaseExecutor_enqueue_and_pend L e ?t k =
          Ret (if length (run_items A x) < MAX_TASKS then Some () else None,
               Pender_pend (be_pender x) (set_exec e (x\<lparr>be_run_queue := q\<rparr>) k))"
        "rq_items A q = (if length (run_items A x) < MAX_TASKS then run_items A x @ [?t] else run_items A x)"
        "kernel_inv L A (Pender_pend (be_pender x) (set_exec e (x\<lparr>be_run_queue := q\<rparr>) k))" .
      have "length ts < MAX_TASKS" using Cons.prems(4) EffWake True by simp
      then have "rq_items A q = ts @ [?t]" using q(2) k(6) by simp
      with q(1,3) k h EffWake True show ?thesis
        by (auto simp: runs_to_def Waker_wake_by_ref_def with_header_def run_items_def)
    next
      case False
      with EffWake Cons.prems(1) show ?thesis by (simp add: Waker_wake_by_ref_def)
    qed
  qed
  then obtain k1 where k1: "apply_effect L k f = Ret k1" "runs_to L A e home k1 (ts @ effect_wakes f) futs s"
    "dom (k_tasks k1) = dom (k_tasks k)" by blast
  from Cons.IH [OF k1(2)] Cons.prems k1(1,3) show ?case by auto
qed simp

lemma pop_exact:
  fixes k :: "('q, 't, 'v, 'a, 'f, 's) kernel"
  assumes k: "runs_to L A e home k (t # ts) futs s" and f: "futs t = Some f"
    and poll: "poll f (RawWaker t VTABLE) \<lparr>tv_now = Kernel_now k, tv_effects = [], tv_shared = s\<rparr> = (Pending, f', v)"
    and eff: "list_all (effect_ok (dom home)) (tv_effects v)" and home: "\<forall>u \<in> set (wakes (tv_effects v)). home u = Some e"
    and len: "length ts + length (wakes (tv_effects v)) \<le> MAX_TASKS"
  shows "\<exists>k'. pop_and_run L poll e k t = Ret k' \<and>
    (\<forall>fuel. BaseExecutor_advance_runnable_tasks (Suc fuel) L poll e k =
       BaseExecutor_advance_runnable_tasks fuel L poll e k') \<and>
    runs_to L A e home k' (ts @ wakes (tv_effects v)) (futs(t \<mapsto> f')) (tv_shared v)"
proof -
  from k obtain x where x: "kernel_inv L A k" "home_of k = home" "fut_of k = futs" "k_shared k = s"
    "k_execs k e = Some x" "run_items A x = t # ts" by (auto simp: runs_to_def)
  have dom: "dom (k_tasks k) = dom home" using x(2) by (auto simp: home_of_def)
  obtain q where q:
    "Deque_pop_front (lib_run L) (be_run_queue x) = (Some t, q)"
    "kernel_inv L A (set_exec e (x\<lparr>be_run_queue := q\<rparr>) k)" "rq_items A q = ts" "t \<in> dom (k_tasks k)"
    by (rule pop_run_queue [OF x(1,5)]) (use x(6) in auto)
  let ?k = "set_exec e (x\<lparr>be_run_queue := q\<rparr>) k"
  from q(4) obtain h where h: "k_tasks ?k t = Some h" by auto
  have hf: "th_fut_ref h = f" using h f x(3) by (auto simp: fut_of_def)
  let ?poll = "\<lambda>f w u. (Pending :: unit poll, f', v)"
  have ok: "poll_ok ?poll (dom (k_tasks ?k))" using eff dom by (simp add: poll_ok_def)
  have same: "BaseExecutor_run_task L poll e t ?k = BaseExecutor_run_task L ?poll e t ?k"
    using h hf poll x(4) by (simp add: BaseExecutor_run_task_def with_header_def Kernel_now_def)
  let ?k1 = "set_header t (h\<lparr>th_expires_at := None, th_fut_ref := f'\<rparr>) (?k\<lparr>k_shared := tv_shared v\<rparr>)"
  have pd: "polled ?poll t h ?k = (tv_effects v, ?k1)" by (simp add: polled_def)
  note 1 = polled_ok [OF q(2) ok h pd]
  have th: "home t = Some (th_executor h)" using h x(2) by (auto simp: home_of_def)
  have "runs_to L A e home ?k1 ts (futs(t \<mapsto> f')) (tv_shared v)"
    using 1(2) x(2,3) q(3) th by (auto simp: runs_to_def run_items_def fun_upd_idem)
  from effects_exact [OF this 1(3) home len] obtain k2 where
    k2: "each_out (apply_effect L) (tv_effects v) ?k1 = Ret k2"
    "runs_to L A e home k2 (ts @ wakes (tv_effects v)) (futs(t \<mapsto> f')) (tv_shared v)"
    "dom (k_tasks k2) = dom (k_tasks ?k1)" by blast
  from k2(2) obtain x2 where x2: "kernel_inv L A k2" "k_execs k2 e = Some x2"
    "run_items A x2 = ts @ wakes (tv_effects v)" by (auto simp: runs_to_def)
  have "t \<in> dom (k_tasks k2)" using k2(3) by simp
  then obtain h2 where h2: "k_tasks k2 t = Some h2" by auto
  from update_timer_queue_ok [OF x2(1) h2 x2(2)] obtain tq where
    tq: "BaseExecutor_update_timer_queue L e t k2 =
      Ret (if th_expires_at h2 = None then k2 else set_exec e (x2\<lparr>be_timer_queue := tq\<rparr>) k2)"
    "kernel_inv L A (set_exec e (x2\<lparr>be_timer_queue := tq\<rparr>) k2)" by blast
  let ?k3 = "if th_expires_at h2 = None then k2 else set_exec e (x2\<lparr>be_timer_queue := tq\<rparr>) k2"
  have run: "BaseExecutor_run_task L poll e t ?k = Ret ?k3" using same 1(1) k2(1) tq(1) by simp
  have "runs_to L A e home ?k3 (ts @ wakes (tv_effects v)) (futs(t \<mapsto> f')) (tv_shared v)"
    using k2(2) tq(2) x2 by (auto simp: runs_to_def run_items_def)
  moreover have "pop_and_run L poll e k t = Ret ?k3" using x(5) q(1) run by (simp add: pop_and_run_def with_exec_def)
  moreover have "BaseExecutor_advance_runnable_tasks (Suc fuel) L poll e k =
      BaseExecutor_advance_runnable_tasks fuel L poll e ?k3" for fuel
    using x(5) q(1) run by simp
  ultimately show ?thesis by blast
qed

end

text \<open>Successive tasks, each from the state the one before left.\<close>

definition round_of ::
  "('q, 'r, 't, 'v, 'a) kernel_libs \<Rightarrow> ('f, 's) task_poll \<Rightarrow> nat \<Rightarrow> nat list \<Rightarrow>
     ('q, 't, 'v, 'a, 'f, 's) kernel \<Rightarrow> ('q, 't, 'v, 'a, 'f, 's) kernel \<Rightarrow> bool" where
  "round_of L poll e ts k k' \<longleftrightarrow> run_in_order L poll e ts k = Ret k' \<and>
     (\<forall>fuel. BaseExecutor_advance_runnable_tasks (length ts + fuel) L poll e k =
        BaseExecutor_advance_runnable_tasks fuel L poll e k')"

lemma each_out_append: "each_out f (xs @ ys) c = bind_out (each_out f xs c) (each_out f ys)"
proof (induction xs arbitrary: c)
  case (Cons x xs)
  then show ?case by (cases "f c x") simp_all
qed simp

lemma round_of_nil: "round_of L poll e [] k k"
  by (simp add: round_of_def run_in_order_def)

lemma round_of_append:
  assumes "round_of L poll e ts k k1" "round_of L poll e us k1 k2"
  shows "round_of L poll e (ts @ us) k k2"
  using assms by (simp add: round_of_def run_in_order_def each_out_append add.assoc)

end
