(* ===== verification/Kernel_Api.thy ===== *)
theory Kernel_Api
  imports Kernel
begin

text \<open>
  What tasks and \<open>main\<close> call: the functions of \<open>Kernel\<close> (\<open>src/src/cpu/cpu0.rs\<close>) over the executor list, the wrappers
  \<open>ThreadExecutor\<close> and \<open>InterruptExecutor\<close> around the base executor, and the typed references \<open>ExecutorHandle\<close> and
  \<open>TaskRef\<close>.  The kernel's own definitions know an executor by its priority and a task by the address of its header;
  here the handles are the structs of the code.  \<open>api_calls_boot\<close> shows that a program of such
  calls, which passes on the handles it was given, does what the boot steps of the model do.  Messages printed on the
  way are left out.
\<close>

section \<open>Handles\<close>

record executor_handle =
  eh_prio :: "8 word"

record software_interrupt_node =
  sin_prio :: "8 word"

record task_ref =
  tr_header :: nat

definition ExecutorHandle_from_prio :: "8 word \<Rightarrow> executor_handle" where
  "ExecutorHandle_from_prio prio = \<lparr>eh_prio = prio\<rparr>"

definition ExecutorHandle_get_prio :: "executor_handle \<Rightarrow> 8 word" where
  "ExecutorHandle_get_prio self = eh_prio self"

text \<open>The executor a handle stands for.\<close>

definition executor_of :: "executor_handle \<Rightarrow> nat" where
  "executor_of handle = unat (ExecutorHandle_get_prio handle)"

text \<open>\<open>NonNull::new_unchecked\<close> of a null pointer is undefined.\<close>

definition TaskRef_from_ptr :: "nat \<Rightarrow> task_ref outcome" where
  "TaskRef_from_ptr p = (if p = 0 then Panic UndefinedBehaviour else Ret \<lparr>tr_header = p\<rparr>)"

definition TaskRef_as_static_mut_header ::
  "task_ref \<Rightarrow> ('f task_header \<Rightarrow> 'u outcome) \<Rightarrow> ('q, 't, 'v, 'a, 'f, 's) kernel \<Rightarrow> 'u outcome" where
  "TaskRef_as_static_mut_header self f k = with_header (tr_header self) f k"

text \<open>A mutable reference to a header exists only if the header does.\<close>

definition TaskRef_from_header :: "nat \<Rightarrow> ('q, 't, 'v, 'a, 'f, 's) kernel \<Rightarrow> task_ref outcome" where
  "TaskRef_from_header t k = with_header t (\<lambda>_. TaskRef_from_ptr t) k"

section \<open>The wrappers of the base executor\<close>

definition ThreadExecutor_new ::
  "('q, 'r, 't, 'v, 'a) kernel_libs \<Rightarrow> alarm_handle option \<Rightarrow> ('q, 't) base_executor" where
  "ThreadExecutor_new L alarm_handle = BaseExecutor_new L ThreadExecutorPender alarm_handle"

definition ThreadExecutor_register_alarm ::
  "nat \<Rightarrow> alarm_handle \<Rightarrow> ('q, 't, 'v, 'a, 'f, 's) kernel \<Rightarrow> ('q, 't, 'v, 'a, 'f, 's) kernel outcome" where
  "ThreadExecutor_register_alarm e handle k = BaseExecutor_register_alarm e handle k"

definition ThreadExecutor_spawn ::
  "('q, 'r, 't, 'v, 'a) kernel_libs \<Rightarrow> layout \<Rightarrow> nat \<Rightarrow> 'f \<Rightarrow> string \<Rightarrow> ('q, 't, 'v, 'a, 'f, 's) kernel \<Rightarrow>
     ('q, 't, 'v, 'a, 'f, 's) kernel outcome" where
  "ThreadExecutor_spawn L lay e f name k = BaseExecutor_spawn L lay e f name k"

definition ThreadExecutor_enqueue_and_pend ::
  "('q, 'r, 't, 'v, 'a) kernel_libs \<Rightarrow> nat \<Rightarrow> nat \<Rightarrow> ('q, 't, 'v, 'a, 'f, 's) kernel \<Rightarrow>
     (unit option \<times> ('q, 't, 'v, 'a, 'f, 's) kernel) outcome" where
  "ThreadExecutor_enqueue_and_pend L e task k = BaseExecutor_enqueue_and_pend L e task k"

definition ThreadExecutor_enqueue_no_pend ::
  "('q, 'r, 't, 'v, 'a) kernel_libs \<Rightarrow> nat \<Rightarrow> nat \<Rightarrow> ('q, 't, 'v, 'a, 'f, 's) kernel \<Rightarrow>
     (unit option \<times> ('q, 't, 'v, 'a, 'f, 's) kernel) outcome" where
  "ThreadExecutor_enqueue_no_pend L e task k = BaseExecutor_enqueue_no_pend L e task k"

definition InterruptExecutor_spawn ::
  "('q, 'r, 't, 'v, 'a) kernel_libs \<Rightarrow> layout \<Rightarrow> nat \<Rightarrow> 'f \<Rightarrow> string \<Rightarrow> ('q, 't, 'v, 'a, 'f, 's) kernel \<Rightarrow>
     ('q, 't, 'v, 'a, 'f, 's) kernel outcome" where
  "InterruptExecutor_spawn L lay e f name k = BaseExecutor_spawn L lay e f name k"

definition InterruptExecutor_enqueue_and_pend ::
  "('q, 'r, 't, 'v, 'a) kernel_libs \<Rightarrow> nat \<Rightarrow> nat \<Rightarrow> ('q, 't, 'v, 'a, 'f, 's) kernel \<Rightarrow>
     (unit option \<times> ('q, 't, 'v, 'a, 'f, 's) kernel) outcome" where
  "InterruptExecutor_enqueue_and_pend L e task k = BaseExecutor_enqueue_and_pend L e task k"

definition InterruptExecutor_enqueue_no_pend ::
  "('q, 'r, 't, 'v, 'a) kernel_libs \<Rightarrow> nat \<Rightarrow> nat \<Rightarrow> ('q, 't, 'v, 'a, 'f, 's) kernel \<Rightarrow>
     (unit option \<times> ('q, 't, 'v, 'a, 'f, 's) kernel) outcome" where
  "InterruptExecutor_enqueue_no_pend L e task k = BaseExecutor_enqueue_no_pend L e task k"

section \<open>The kernel's interface\<close>

definition Kernel_yields :: yielder where
  "Kernel_yields = Yielder_new"

text \<open>The core register \<open>CORE_ID\<close> is an argument.\<close>

definition Cpu_is_current_core :: "32 word \<Rightarrow> 8 word \<Rightarrow> bool" where
  "Cpu_is_current_core cpu_core_id CPU_NR \<longleftrightarrow> cpu_core_id = ucast CPU_NR"

definition Kernel_modify_alarm_queue ::
  "(('v, 'a) alarm_queue \<Rightarrow> ('u \<times> ('v, 'a) alarm_queue) outcome) \<Rightarrow> ('q, 't, 'v, 'a, 'f, 's) kernel \<Rightarrow>
     ('u \<times> ('q, 't, 'v, 'a, 'f, 's) kernel) outcome" where
  "Kernel_modify_alarm_queue f k = bind_out (f (k_alarm_queue k)) (\<lambda>(r, q). Ret (r, k\<lparr>k_alarm_queue := q\<rparr>))"

text \<open>\<open>ExecutorList::new\<close>: the thread executor and an empty map.\<close>

definition ExecutorList_new ::
  "('q, 'r, 't, 'v, 'a) kernel_libs \<Rightarrow> nat \<Rightarrow> ('q, 't) base_executor option" where
  "ExecutorList_new L = [0 \<mapsto> ThreadExecutor_new L None]"

text \<open>A reference to an executor that exists is its number.\<close>

definition ExecutorList_get ::
  "executor_handle \<Rightarrow> ('q, 't, 'v, 'a, 'f, 's) kernel \<Rightarrow> nat outcome" where
  "ExecutorList_get handle k =
     bind_out (unwrap_option (irq_execs k (executor_of handle))) (\<lambda>_. Ret (executor_of handle))"

definition Kernel_get_executor ::
  "executor_handle \<Rightarrow> ('q, 't, 'v, 'a, 'f, 's) kernel \<Rightarrow> nat outcome" where
  "Kernel_get_executor handle k = ExecutorList_get handle k"

definition Kernel_thread_executor_ref ::
  "('q, 'r, 't, 'v, 'a) kernel_libs \<Rightarrow> ('q, 't, 'v, 'a, 'f, 's) kernel \<Rightarrow>
     (nat \<times> ('q, 't, 'v, 'a, 'f, 's) kernel) outcome" where
  "Kernel_thread_executor_ref L k = bind_out (ExecutorList_thread_executor L k) (\<lambda>k. Ret (0, k))"

definition Kernel_spawn_executor ::
  "('q, 'r, 't, 'v, 'a) kernel_libs \<Rightarrow> layout \<Rightarrow> executor_handle \<Rightarrow> 'f \<Rightarrow> string \<Rightarrow>
     ('q, 't, 'v, 'a, 'f, 's) kernel \<Rightarrow> ('q, 't, 'v, 'a, 'f, 's) kernel outcome" where
  "Kernel_spawn_executor L lay handle fut name k = ExecutorList_spawn L lay (executor_of handle) fut name k"

definition Kernel_start_interrupt_executor ::
  "('q, 'r, 't, 'v, 'a) kernel_libs \<Rightarrow> executor_handle \<Rightarrow> ('q, 't, 'v, 'a, 'f, 's) kernel \<Rightarrow>
     ('q, 't, 'v, 'a, 'f, 's) kernel outcome" where
  "Kernel_start_interrupt_executor L handle k = ExecutorList_start_interrupt_executor L (executor_of handle) k"

definition Kernel_allocate ::
  "('q, 'r, 't, 'v, 'a) kernel_libs \<Rightarrow> ('q, 't) lmap_insert \<Rightarrow> software_interrupt_node \<Rightarrow>
     ('q, 't, 'v, 'a, 'f, 's) kernel \<Rightarrow> (executor_handle \<times> ('q, 't, 'v, 'a, 'f, 's) kernel) outcome" where
  "Kernel_allocate L ins node k =
     bind_out (Kernel_allocate_interrupt_executor L ins (unat (sin_prio node)) k) (\<lambda>(_, k).
       Ret (ExecutorHandle_from_prio (sin_prio node), k))"

section \<open>What the interface amounts to\<close>

lemma thread_executor_refs:
  "Kernel_spawn L lay fut name k = bind_out (Kernel_thread_executor_ref L k) (\<lambda>(e, k). ThreadExecutor_spawn L lay e fut name k)"
  "Kernel_start_thread_executor L k =
     bind_out (Kernel_thread_executor_ref L k) (\<lambda>(e, k). BaseExecutor_register_alarm_callback L e k)"
  by (cases "ExecutorList_thread_executor L k";
      simp add: Kernel_spawn_def Kernel_start_thread_executor_def Kernel_thread_executor_ref_def ThreadExecutor_spawn_def)+

lemma alarm_queue_calls:
  "Kernel_allocate_alarm L k = Kernel_modify_alarm_queue (AlarmQueue_try_allocate_handle (lib_callbacks L)) k"
  "Ret (Kernel_set_alarm L handle d k) =
     Kernel_modify_alarm_queue (\<lambda>q. Ret (AlarmQueue_set_alarm (lib_alarms L) q handle d)) k"
  by (simp_all add: Kernel_allocate_alarm_def Kernel_set_alarm_def Kernel_modify_alarm_queue_def split: prod.split)

lemma statics_list: "k_execs (Kernel_statics L q b s) = ExecutorList_new L"
  by (simp add: Kernel_statics_def ExecutorList_new_def ThreadExecutor_new_def)

text \<open>A handler calls the executor that its handle stands for.\<close>

lemma handler_executor:
  "interrupt_executor_handler fuel L poll prio k =
     bind_fuel (Some (Kernel_get_executor (ExecutorHandle_from_prio (word_of_nat prio)) k)) (\<lambda>e.
       InterruptExecutor_on_interrupt fuel L poll e k)" if "prio < 256"
proof -
  have "executor_of (ExecutorHandle_from_prio (word_of_nat prio)) = prio"
    using that by (simp add: executor_of_def ExecutorHandle_get_prio_def ExecutorHandle_from_prio_def
        unsigned_of_nat take_bit_nat_eq_self)
  then show ?thesis
    by (cases "irq_execs k prio")
      (simp_all add: interrupt_executor_handler_def Kernel_get_executor_def ExecutorList_get_def)
qed

section \<open>Programs of calls\<close>

text \<open>
  A program keeps the handles it was given in a list and names one by its position, as the local variables of
  \<open>src/src/test_cases.rs\<close> do.
\<close>

datatype 'f api_call =
    ApiAllocate software_interrupt_node
  | ApiSpawnExecutor nat 'f string
  | ApiSpawn 'f string
  | ApiStart nat
  | ApiStartThread

fun api_exec ::
  "('q, 'r, 't, 'v, 'a) kernel_libs \<Rightarrow> ('q, 't) lmap_insert \<Rightarrow> layout \<Rightarrow>
     executor_handle list \<times> ('q, 't, 'v, 'a, 'f, 's) kernel \<Rightarrow> 'f api_call \<Rightarrow>
     (executor_handle list \<times> ('q, 't, 'v, 'a, 'f, 's) kernel) outcome" where
  "api_exec L ins lay (hs, k) (ApiAllocate node) =
     bind_out (Kernel_allocate L ins node k) (\<lambda>(h, k). Ret (hs @ [h], k))"
| "api_exec L ins lay (hs, k) (ApiSpawnExecutor i f name) =
     bind_out (Kernel_spawn_executor L lay (hs ! i) f name k) (\<lambda>k. Ret (hs, k))"
| "api_exec L ins lay (hs, k) (ApiSpawn f name) =
     bind_out (Kernel_spawn L lay f name k) (\<lambda>k. Ret (hs, k))"
| "api_exec L ins lay (hs, k) (ApiStart i) =
     bind_out (Kernel_start_interrupt_executor L (hs ! i) k) (\<lambda>k. Ret (hs, k))"
| "api_exec L ins lay (hs, k) ApiStartThread =
     bind_out (Kernel_start_thread_executor L k) (\<lambda>k. Ret (hs, k))"

text \<open>The boot steps of a program, and that it uses only handles it has been given.\<close>

fun api_boot :: "8 word list \<Rightarrow> 'f api_call list \<Rightarrow> 'f boot_op list" where
  "api_boot ps [] = []"
| "api_boot ps (ApiAllocate node # cs) = BootAllocate (unat (sin_prio node)) # api_boot (ps @ [sin_prio node]) cs"
| "api_boot ps (ApiSpawnExecutor i f name # cs) = BootSpawn (unat (ps ! i)) f name # api_boot ps cs"
| "api_boot ps (ApiSpawn f name # cs) = BootSpawn 0 f name # api_boot ps cs"
| "api_boot ps (ApiStart i # cs) = BootStart (unat (ps ! i)) # api_boot ps cs"
| "api_boot ps (ApiStartThread # cs) = BootStartThread # api_boot ps cs"

fun api_scoped :: "nat \<Rightarrow> 'f api_call list \<Rightarrow> bool" where
  "api_scoped n [] \<longleftrightarrow> True"
| "api_scoped n (ApiAllocate node # cs) \<longleftrightarrow> api_scoped (Suc n) cs"
| "api_scoped n (ApiSpawnExecutor i f name # cs) \<longleftrightarrow> i < n \<and> api_scoped n cs"
| "api_scoped n (ApiStart i # cs) \<longleftrightarrow> i < n \<and> api_scoped n cs"
| "api_scoped n (_ # cs) \<longleftrightarrow> api_scoped n cs"

lemma allocate_nonzero:
  "Kernel_allocate_interrupt_executor L ins 0 k = Panic ExplicitPanic"
  by (simp add: Kernel_allocate_interrupt_executor_def ExecutorList_allocate_def)

lemma api_calls_boot:
  fixes k :: "('q, 't, 'v, 'a, 'f, 's) kernel"
  assumes "api_scoped (length hs) cs" "\<forall>h \<in> set hs. eh_prio h \<noteq> 0"
  shows "bind_out (each_out (api_exec L ins lay) cs (hs, k)) (\<lambda>(_, k). Ret k) =
    boot_all L ins lay (api_boot (map eh_prio hs) cs) k"
  using assms
proof (induction cs arbitrary: hs k)
  case (Cons c cs)
  have nth: "executor_of (hs ! i) = unat (map eh_prio hs ! i)" "unat (map eh_prio hs ! i) \<noteq> 0" if "i < length hs" for i
    using that Cons.prems(2) nth_mem [OF that]
    by (auto simp: executor_of_def ExecutorHandle_get_prio_def unsigned_eq_0_iff)
  have next_call: "bind_out (each_out (api_exec L ins lay) cs (hs, k1)) (\<lambda>(_, k). Ret k) =
      boot_all L ins lay (api_boot (map eh_prio hs) cs) k1" if "api_scoped (length hs) cs"
    for k1 :: "('q, 't, 'v, 'a, 'f, 's) kernel"
    using Cons.IH [OF that] Cons.prems(2) by simp
  show ?case
  proof (cases c)
    case (ApiAllocate node)
    show ?thesis
    proof (cases "sin_prio node = 0")
      case True
      with ApiAllocate show ?thesis by (simp add: Kernel_allocate_def allocate_nonzero)
    next
      case False
      let ?h = "ExecutorHandle_from_prio (sin_prio node)"
      have "eh_prio ?h = sin_prio node" by (simp add: ExecutorHandle_from_prio_def)
      with Cons.prems False have
        "bind_out (each_out (api_exec L ins lay) cs (hs @ [?h], k1)) (\<lambda>(_, k). Ret k) =
          boot_all L ins lay (api_boot (map eh_prio hs @ [sin_prio node]) cs) k1"
        for k1 :: "('q, 't, 'v, 'a, 'f, 's) kernel" using Cons.IH [of "hs @ [?h]"] by (simp add: ApiAllocate)
      then show ?thesis
        by (cases "Kernel_allocate_interrupt_executor L ins (unat (sin_prio node)) k")
          (auto simp: ApiAllocate Kernel_allocate_def)
    qed
  next
    case (ApiSpawnExecutor i f name)
    with Cons.prems have i: "i < length hs" "api_scoped (length hs) cs" by simp_all
    with nth [OF i(1)] next_call [OF i(2)] show ?thesis
      by (cases "ExecutorList_spawn L lay (executor_of (hs ! i)) f name k")
        (simp_all add: ApiSpawnExecutor Kernel_spawn_executor_def)
  next
    case (ApiSpawn f name)
    with next_call Cons.prems show ?thesis by (cases "Kernel_spawn L lay f name k") simp_all
  next
    case (ApiStart i)
    with Cons.prems have i: "i < length hs" "api_scoped (length hs) cs" by simp_all
    with nth [OF i(1)] next_call [OF i(2)] show ?thesis
      by (cases "ExecutorList_start_interrupt_executor L (executor_of (hs ! i)) k")
        (simp_all add: ApiStart Kernel_start_interrupt_executor_def)
  next
    case ApiStartThread
    with next_call Cons.prems show ?thesis by (cases "Kernel_start_thread_executor L k") simp_all
  qed
qed simp

end
