(* ===== verification/Test_Cases.thy ===== *)
theory Test_Cases
  imports Exact_Runs Kernel_Api Pipe
begin

text \<open>
  A program of \<open>src/src/test_cases.rs\<close> run on the models of its parts: \<open>inter_task_communication_thread\<close> spawns a task
  that writes to a pipe and one that reads from it, and starts the thread executor.  A task is its future: the point
  where it waits, with what it keeps there.  What the program does to the pins and the terminal is a log.
  The set-up of the pins is left out.
\<close>

section \<open>The program\<close>

datatype test_event = PinToggle nat | PrintLine string

record test_state =
  ts_pipe :: pipe
  ts_log :: "test_event list"

datatype test_fut =
    SenderStart               \<comment> \<open>before the first poll\<close>
  | SenderWrites "byte list"  \<comment> \<open>in \<open>PIPE.write_all\<close>, with the rest of the slice\<close>
  | WaiterStart
  | WaiterReads "byte list"   \<comment> \<open>in \<open>PIPE.read\<close>, with \<open>buf\<close>\<close>

text \<open>\<open>static PIPE: Pipe<_, 1>\<close> and the pins.\<close>

definition PIPE_N :: nat where "PIPE_N = 1"

definition test_init :: test_state where
  "test_init = \<lparr>ts_pipe = Pipe_new PIPE_N, ts_log = []\<rparr>"

definition log_event :: "test_event \<Rightarrow> test_state \<Rightarrow> test_state" where
  "log_event x s = s\<lparr>ts_log := ts_log s @ [x]\<rparr>"

text \<open>
  The loops of the tasks, up to a wait.  A loop that never waits does not return from its poll, so the loops
  have fuel.  The result is what the task keeps, the state and the wakers it woke.
\<close>

fun sender_loop ::
  "nat \<Rightarrow> waker \<Rightarrow> byte list \<Rightarrow> test_state \<Rightarrow> (byte list \<times> test_state \<times> waker list) outcome option" where
  "sender_loop 0 cx buf s = None"
| "sender_loop (Suc fuel) cx buf s =
     bind_fuel (write_all_poll (Suc (length buf)) PIPE_N (ts_pipe s) cx buf) (\<lambda>(r, rest, p, ws).
       let s = s\<lparr>ts_pipe := p\<rparr>
       in case r of
            Pending \<Rightarrow> Some (Ret (rest, s, ws))
          | Ready _ \<Rightarrow>
              bind_fuel (sender_loop fuel cx [97] (log_event (PinToggle 1) s)) (\<lambda>(rest, s, ws').
                Some (Ret (rest, s, ws @ ws'))))"

fun waiter_loop ::
  "nat \<Rightarrow> waker \<Rightarrow> byte list \<Rightarrow> test_state \<Rightarrow> (byte list \<times> test_state \<times> waker list) outcome option" where
  "waiter_loop 0 cx buf s = None"
| "waiter_loop (Suc fuel) cx buf s =
     bind_fuel (Some (ReadFuture_poll PIPE_N (ts_pipe s) cx buf)) (\<lambda>(r, buf, p, ws).
       let s = s\<lparr>ts_pipe := p\<rparr>
       in case r of
            Pending \<Rightarrow> Some (Ret (buf, s, ws))
          | Ready _ \<Rightarrow>
              bind_fuel (waiter_loop fuel cx buf
                  (log_event (PinToggle 2) (log_event (PrintLine ''Waiter Task: wait for signal'') s)))
                (\<lambda>(buf, s, ws'). Some (Ret (buf, s, ws @ ws'))))"

definition test_fuel :: nat where
  "test_fuel = Suc (Suc (Suc 0))"

definition sender_resume ::
  "waker \<Rightarrow> byte list \<Rightarrow> test_state \<Rightarrow> (test_fut \<times> test_state \<times> waker list) outcome option" where
  "sender_resume cx buf s =
     bind_fuel (sender_loop test_fuel cx buf s) (\<lambda>(buf, s, ws). Some (Ret (SenderWrites buf, s, ws)))"

definition waiter_resume ::
  "waker \<Rightarrow> byte list \<Rightarrow> test_state \<Rightarrow> (test_fut \<times> test_state \<times> waker list) outcome option" where
  "waiter_resume cx buf s =
     bind_fuel (waiter_loop test_fuel cx buf s) (\<lambda>(buf, s, ws). Some (Ret (WaiterReads buf, s, ws)))"

fun test_resume :: "test_fut \<Rightarrow> waker \<Rightarrow> test_state \<Rightarrow> (test_fut \<times> test_state \<times> waker list) outcome option" where
  "test_resume SenderStart cx s = sender_resume cx [97] (log_event (PinToggle 1) s)"
| "test_resume (SenderWrites buf) cx s = sender_resume cx buf s"
| "test_resume WaiterStart cx s = waiter_resume cx [0] (log_event (PinToggle 2) s)"
| "test_resume (WaiterReads buf) cx s = waiter_resume cx buf s"

text \<open>
  A poll as the executor calls it.  A poll that panics or does not return, which the tasks of this program never do, is
  given as one that is ready, which the executor answers with a panic.
\<close>

definition test_poll :: "(test_fut, test_state) task_poll" where
  "test_poll f cx v =
     (case test_resume f cx (tv_shared v) of
        Some (Ret (f', s, ws)) \<Rightarrow>
          (Pending, f', v\<lparr>tv_shared := s, tv_effects := tv_effects v @ map EffWake ws\<rparr>)
      | _ \<Rightarrow> (Ready (), f, v))"

definition inter_task_communication_thread :: "test_fut api_call list" where
  "inter_task_communication_thread =
     [ApiSpawn SenderStart ''Sender Task'', ApiSpawn WaiterStart ''Waiter Task'', ApiStartThread]"

section \<open>Its polls\<close>

definition pipe_empty :: "nat \<Rightarrow> byte list \<Rightarrow> pipe" where
  "pipe_empty w b = \<lparr>pipe_buf = b, pipe_inner = \<lparr>ps_buffer = RingBuffer_new,
     ps_read_waker = \<lparr>wr_waker = Some (RawWaker w VTABLE)\<rparr>, ps_write_waker = WakerRegistration_new\<rparr>\<rparr>"

definition pipe_full :: "nat \<Rightarrow> pipe" where
  "pipe_full t = \<lparr>pipe_buf = [97], pipe_inner = \<lparr>ps_buffer = \<lparr>rb_start = 0, rb_end = 0, rb_full = True\<rparr>,
     ps_read_waker = WakerRegistration_new, ps_write_waker = \<lparr>wr_waker = Some (RawWaker t VTABLE)\<rparr>\<rparr>\<rparr>"


text \<open>The state of the pipe and the log.\<close>

abbreviation at_state :: "pipe \<Rightarrow> test_event list \<Rightarrow> test_state" where
  "at_state p l \<equiv> \<lparr>ts_pipe = p, ts_log = l\<rparr>"

lemmas pipe_eval =
  Pipe_try_read_with_context_def Pipe_try_write_with_context_def WriteFuture_poll_def ReadFuture_poll_def
  WakerRegistration_wake_if_def WakerRegistration_register_def
  WakerRegistration_wake_def WakerRegistration_new_def RingBuffer_pop_buf_def RingBuffer_push_buf_def
  RingBuffer_pop_def RingBuffer_push_def RingBuffer_new_def ring_buffer_defs Buffer_get_def slice_of_def write_at_def
  usize_max_def PIPE_N_def

lemma read_empty_new:
  "ReadFuture_poll PIPE_N (Pipe_new PIPE_N) (RawWaker w VTABLE) buf = Ret (Pending, buf, pipe_empty w [0], [])"
  by (simp add: pipe_eval Pipe_new_def pipe_empty_def)

lemma read_empty:
  assumes "length b = 1"
  shows "ReadFuture_poll PIPE_N \<lparr>pipe_buf = b, pipe_inner = \<lparr>ps_buffer = RingBuffer_new,
      ps_read_waker = WakerRegistration_new, ps_write_waker = WakerRegistration_new\<rparr>\<rparr> (RawWaker w VTABLE) buf =
    Ret (Pending, buf, pipe_empty w b, [])"
  using assms by (simp add: pipe_eval pipe_empty_def)

lemma read_full:
  assumes "length buf = 1"
  shows "ReadFuture_poll PIPE_N (pipe_full t) cx buf =
    Ret (Ready 1, [97], \<lparr>pipe_buf = [97], pipe_inner = \<lparr>ps_buffer = RingBuffer_new,
      ps_read_waker = WakerRegistration_new, ps_write_waker = WakerRegistration_new\<rparr>\<rparr>, [RawWaker t VTABLE])"
  using assms by (simp add: pipe_eval pipe_full_def)

lemma write_empty:
  assumes "length b = 1"
  shows "WriteFuture_poll PIPE_N (pipe_empty w b) cx [97] =
    Ret (Ready 1, \<lparr>pipe_buf = [97], pipe_inner = \<lparr>ps_buffer = \<lparr>rb_start = 0, rb_end = 0, rb_full = True\<rparr>,
      ps_read_waker = WakerRegistration_new, ps_write_waker = WakerRegistration_new\<rparr>\<rparr>, [RawWaker w VTABLE])"
  using assms by (auto simp: length_Suc_conv pipe_eval pipe_empty_def)

lemma write_full:
  "WriteFuture_poll PIPE_N \<lparr>pipe_buf = [97], pipe_inner = \<lparr>ps_buffer = \<lparr>rb_start = 0, rb_end = 0, rb_full = True\<rparr>,
      ps_read_waker = WakerRegistration_new, ps_write_waker = WakerRegistration_new\<rparr>\<rparr> (RawWaker t VTABLE) buf =
    Ret (Pending, pipe_full t, [])"
  by (simp add: pipe_eval pipe_full_def)

lemmas poll_eval = test_poll_def sender_resume_def waiter_resume_def test_fuel_def log_event_def

lemma waiter_starts:
  assumes "tv_shared v = at_state (Pipe_new PIPE_N) l"
  shows "test_poll WaiterStart (RawWaker w VTABLE) v =
    (Pending, WaiterReads [0], v\<lparr>tv_shared := at_state (pipe_empty w [0]) (l @ [PinToggle 2])\<rparr>)"
  using assms by (simp add: poll_eval read_empty_new)

lemma sender_writes:
  assumes "tv_shared v = at_state (pipe_empty w b) l" "length b = 1" "tv_effects v = []"
  shows "test_poll SenderStart (RawWaker t VTABLE) v =
      (Pending, SenderWrites [97], v\<lparr>tv_shared := at_state (pipe_full t) (l @ [PinToggle 1, PinToggle 1]),
         tv_effects := [EffWake (RawWaker w VTABLE)]\<rparr>)"
    "test_poll (SenderWrites [97]) (RawWaker t VTABLE) v =
      (Pending, SenderWrites [97], v\<lparr>tv_shared := at_state (pipe_full t) (l @ [PinToggle 1]),
         tv_effects := [EffWake (RawWaker w VTABLE)]\<rparr>)"
  using assms by (simp_all add: poll_eval write_empty write_full)

lemma waiter_reads:
  assumes "tv_shared v = at_state (pipe_full t) l" "length buf = 1" "tv_effects v = []"
  shows "test_poll (WaiterReads buf) (RawWaker w VTABLE) v =
    (Pending, WaiterReads [97], v\<lparr>tv_shared := at_state (pipe_empty w [97])
         (l @ [PrintLine ''Waiter Task: wait for signal'', PinToggle 2]),
       tv_effects := [EffWake (RawWaker t VTABLE)]\<rparr>)"
  using assms by (simp add: poll_eval read_full read_empty)

section \<open>Its run\<close>

text \<open>The two states between which the tasks go back and forth.\<close>

definition both_home :: "nat \<Rightarrow> nat \<Rightarrow> nat \<Rightarrow> nat option" where
  "both_home w t = [w \<mapsto> 0, t \<mapsto> 0]"

definition ping_state ::
  "('q, 'r, 't, 'v, 'a) kernel_libs \<Rightarrow> ('q, 'r, 't, 'v, 'a) kernel_abs \<Rightarrow> nat \<Rightarrow> nat \<Rightarrow> test_event list \<Rightarrow>
     ('q, 't, 'v, 'a, test_fut, test_state) kernel \<Rightarrow> bool" where
  "ping_state L A w t l k \<longleftrightarrow> (\<exists>buf. length buf = 1 \<and>
     runs_to L A 0 (both_home w t) k [w] [w \<mapsto> WaiterReads buf, t \<mapsto> SenderWrites [97]] (at_state (pipe_full t) l))"

definition pong_state ::
  "('q, 'r, 't, 'v, 'a) kernel_libs \<Rightarrow> ('q, 'r, 't, 'v, 'a) kernel_abs \<Rightarrow> nat \<Rightarrow> nat \<Rightarrow> test_event list \<Rightarrow>
     ('q, 't, 'v, 'a, test_fut, test_state) kernel \<Rightarrow> bool" where
  "pong_state L A w t l k \<longleftrightarrow> (\<exists>b. length b = 1 \<and>
     runs_to L A 0 (both_home w t) k [t] [w \<mapsto> WaiterReads [97], t \<mapsto> SenderWrites [97]] (at_state (pipe_empty w b) l))"

context kernel_laws
begin

lemma ping_step:
  fixes k :: "('q, 't, 'v, 'a, test_fut, test_state) kernel"
  assumes "ping_state L A w t l k" "w \<noteq> t"
  shows "\<exists>k'. pop_and_run L test_poll 0 k w = Ret k' \<and>
    (\<forall>fuel. BaseExecutor_advance_runnable_tasks (Suc fuel) L test_poll 0 k =
       BaseExecutor_advance_runnable_tasks fuel L test_poll 0 k') \<and>
    pong_state L A w t (l @ [PrintLine ''Waiter Task: wait for signal'', PinToggle 2]) k'"
proof -
  from assms(1) obtain buf where buf: "length buf = 1" and
    k: "runs_to L A 0 (both_home w t) k [w] [w \<mapsto> WaiterReads buf, t \<mapsto> SenderWrites [97]] (at_state (pipe_full t) l)"
    by (auto simp: ping_state_def)
  let ?v = "\<lparr>tv_now = Kernel_now k, tv_effects = [], tv_shared = at_state (pipe_full t) l\<rparr>"
  have "test_poll (WaiterReads buf) (RawWaker w VTABLE) ?v =
      (Pending, WaiterReads [97], ?v\<lparr>tv_shared := at_state (pipe_empty w [97])
         (l @ [PrintLine ''Waiter Task: wait for signal'', PinToggle 2]),
       tv_effects := [EffWake (RawWaker t VTABLE)]\<rparr>)" using buf by (intro waiter_reads) simp_all
  with pop_exact [OF k, of "WaiterReads buf" test_poll "WaiterReads [97]"] assms(2) show ?thesis
    by (auto simp: both_home_def MAX_TASKS_def pong_state_def fun_upd_twist intro!: exI [of _ "[97]"])
qed

lemma pong_step:
  fixes k :: "('q, 't, 'v, 'a, test_fut, test_state) kernel"
  assumes "pong_state L A w t l k" "w \<noteq> t"
  shows "\<exists>k'. pop_and_run L test_poll 0 k t = Ret k' \<and>
    (\<forall>fuel. BaseExecutor_advance_runnable_tasks (Suc fuel) L test_poll 0 k =
       BaseExecutor_advance_runnable_tasks fuel L test_poll 0 k') \<and>
    ping_state L A w t (l @ [PinToggle 1]) k'"
proof -
  from assms(1) obtain b where b: "length b = 1" and
    k: "runs_to L A 0 (both_home w t) k [t] [w \<mapsto> WaiterReads [97], t \<mapsto> SenderWrites [97]] (at_state (pipe_empty w b) l)"
    by (auto simp: pong_state_def)
  let ?v = "\<lparr>tv_now = Kernel_now k, tv_effects = [], tv_shared = at_state (pipe_empty w b) l\<rparr>"
  have "test_poll (SenderWrites [97]) (RawWaker t VTABLE) ?v =
      (Pending, SenderWrites [97], ?v\<lparr>tv_shared := at_state (pipe_full t) (l @ [PinToggle 1]),
         tv_effects := [EffWake (RawWaker w VTABLE)]\<rparr>)" using b by (intro sender_writes(2)) simp_all
  with pop_exact [OF k, of "SenderWrites [97]" test_poll "SenderWrites [97]"] assms(2) show ?thesis
    by (auto simp: both_home_def MAX_TASKS_def ping_state_def intro!: exI [of _ "[97]"])
qed

text \<open>They never stop.\<close>

lemma ping_pong_endless:
  fixes k :: "('q, 't, 'v, 'a, test_fut, test_state) kernel"
  assumes "ping_state L A w t l k \<or> pong_state L A w t l k" "w \<noteq> t"
  shows "BaseExecutor_advance_runnable_tasks fuel L test_poll 0 k = None"
  using assms(1)
proof (induction fuel arbitrary: k l)
  case (Suc fuel)
  then show ?case using ping_step [OF _ assms(2)] pong_step [OF _ assms(2)] by metis
qed simp

end

section \<open>From boot\<close>

lemma thread_keeps:
  assumes "ExecutorList_thread_executor L k = Ret k'" "k_execs k 0 = Some x"
  shows "\<exists>h. k_execs k' = (k_execs k)(0 \<mapsto> x\<lparr>be_alarm_handle := h\<rparr>) \<and> k_shared k' = k_shared k \<and>
    k_tasks k' = k_tasks k \<and> k_local_event k' = k_local_event k"
proof (cases "k_thread_initialised k")
  case True
  then show ?thesis using assms by (intro exI [of _ "be_alarm_handle x"]) (auto simp: ExecutorList_thread_executor_def)
next
  case False
  then show ?thesis using assms
    by (auto simp: ExecutorList_thread_executor_def Kernel_allocate_alarm_def BaseExecutor_register_alarm_def with_exec_def)
      (rule exI, rule refl)
qed

lemma spawn_keeps:
  assumes "BaseExecutor_spawn L lay e f name k = Ret k'" "k_execs k e = Some x"
  shows "\<exists>q. k_execs k' = (k_execs k)(e \<mapsto> x\<lparr>be_run_queue := q\<rparr>) \<and> k_shared k' = k_shared k"
  using assms by (auto simp: BaseExecutor_spawn_def TaskHeader_new_def with_exec_def split: prod.splits result.splits)
    (rule exI, rule refl)

lemma callback_keeps:
  assumes "BaseExecutor_register_alarm_callback L e k = Ret k'"
  shows "\<exists>q. k' = k\<lparr>k_alarm_queue := q\<rparr>"
proof -
  have "\<exists>q. k = k\<lparr>k_alarm_queue := q\<rparr>" by (intro exI [of _ "k_alarm_queue k"]) simp
  then show ?thesis using assms
    by (auto simp: BaseExecutor_register_alarm_callback_def with_exec_def Kernel_set_alarm_callback_def
        AlarmQueue_register_callback_def Let_def split: option.splits if_splits)
qed

text \<open>The thread executor while the program boots: no timers, and its event is set.\<close>

definition thread_boot ::
  "('q, 'r, 't, 'v, 'a) kernel_libs \<Rightarrow> ('q, 'r, 't, 'v, 'a) kernel_abs \<Rightarrow> (nat \<Rightarrow> nat option) \<Rightarrow>
     ('q, 't, 'v, 'a, 'f, 's) kernel \<Rightarrow> nat list \<Rightarrow> (nat \<Rightarrow> 'f option) \<Rightarrow> 's \<Rightarrow> bool" where
  "thread_boot L A home k ts futs s \<longleftrightarrow> boot_inv L A k \<and> k_local_event k \<and> home_of k = home \<and> fut_of k = futs \<and>
     k_shared k = s \<and> (\<exists>x. k_execs k 0 = Some x \<and> run_items A x = ts \<and> timer_items A x = {#})"

lemma run_timer_items_simps [simp]:
  "run_items A (x\<lparr>be_alarm_handle := h\<rparr>) = run_items A x" "timer_items A (x\<lparr>be_alarm_handle := h\<rparr>) = timer_items A x"
  "timer_items A (x\<lparr>be_run_queue := q\<rparr>) = timer_items A x"
  by (simp_all add: run_items_def timer_items_def)

context kernel_laws
begin

lemma thread_boot_init:
  assumes "mem + MEMORY_SIZE \<le> usize_max"
  shows "thread_boot L A Map.empty (Kernel_init L mem (Kernel_statics L q b s) :: ('q, 't, 'v, 'a, 'f, 's) kernel) [] Map.empty s"
proof -
  note d = init_done [OF assms, of q b s]
  show ?thesis using boot_doneD(1) [OF d] new_exec_empty
    by (auto simp: thread_boot_def Kernel_init_def Kernel_statics_def home_of_def fut_of_def)
qed

lemma thread_boot_ref:
  fixes k :: "('q, 't, 'v, 'a, 'f, 's) kernel"
  assumes k: "thread_boot L A home k ts futs s" and ret: "ExecutorList_thread_executor L k = Ret k'"
  shows "thread_boot L A home k' ts futs s \<and> k_tasks k' = k_tasks k"
proof -
  from k obtain x where x: "boot_inv L A k" "k_local_event k" "home_of k = home" "fut_of k = futs" "k_shared k = s"
    "k_execs k 0 = Some x" "run_items A x = ts" "timer_items A x = {#}" by (auto simp: thread_boot_def)
  have "boot_inv L A k'" using x(1) ret by (rule thread_executor_ok) (use x(1) in auto)
  with thread_keeps [OF ret x(6)] x show ?thesis by (auto simp: thread_boot_def home_of_def fut_of_def)
qed

lemma thread_boot_spawn:
  fixes k :: "('q, 't, 'v, 'a, 'f, 's) kernel"
  assumes k: "thread_boot L A home k ts futs s" and lay: "0 < fut_align lay" "0 < hdr_align lay" "0 < hdr_size lay"
    and ret: "Kernel_spawn L lay f name k = Ret k'"
  shows "\<exists>t. t \<notin> dom home \<and> thread_boot L A (home(t \<mapsto> 0)) k' (t # ts) (futs(t \<mapsto> f)) s \<and>
    map_option th_name (k_tasks k' t) = Some name \<and> (\<forall>u. u \<noteq> t \<longrightarrow> k_tasks k' u = k_tasks k u)"
proof -
  from ret obtain k1 where k1: "ExecutorList_thread_executor L k = Ret k1" "BaseExecutor_spawn L lay 0 f name k1 = Ret k'"
    by (auto simp: Kernel_spawn_def)
  from thread_boot_ref [OF k k1(1)] obtain x where x: "boot_inv L A k1" "k_local_event k1" "home_of k1 = home"
    "fut_of k1 = futs" "k_shared k1 = s" "k_execs k1 0 = Some x" "run_items A x = ts" "timer_items A x = {#}"
    "k_tasks k1 = k_tasks k" by (auto simp: thread_boot_def)
  from spawn_ok [OF x(1,6) lay k1(2)] obtain t x' where t: "t \<notin> dom (k_tasks k1)" "boot_inv L A k'"
    "k_execs k' = (k_execs k1)(0 \<mapsto> x')" "run_items A x' = t # run_items A x" "k_local_event k' = k_local_event k1"
    "k_tasks k' = (k_tasks k1)(t \<mapsto> \<lparr>th_name = name, th_fut_ref = f, th_executor = 0, th_expires_at = None\<rparr>)"
    by blast
  from spawn_keeps [OF k1(2) x(6)] t(3) have q: "timer_items A x' = timer_items A x" "k_shared k' = k_shared k1"
    by (auto dest!: fun_cong [of _ _ 0])
  have "home_of k' = home(t \<mapsto> 0)" "fut_of k' = futs(t \<mapsto> f)" "t \<notin> dom home"
    using t(1,6) x(3,4) by (auto simp: home_of_def fut_of_def)
  with t q x show ?thesis by (intro exI [of _ t]) (auto simp: thread_boot_def)
qed

lemma thread_boot_start:
  fixes k :: "('q, 't, 'v, 'a, 'f, 's) kernel"
  assumes k: "thread_boot L A home k ts futs s" and ret: "Kernel_start_thread_executor L k = Ret k'"
  shows "runs_to L A 0 home k' ts futs s \<and> k_local_event k' \<and> k_tasks k' = k_tasks k \<and>
    (\<exists>x. k_execs k' 0 = Some x \<and> timer_items A x = {#})"
proof -
  from ret obtain k1 where k1: "ExecutorList_thread_executor L k = Ret k1"
    "BaseExecutor_register_alarm_callback L 0 k1 = Ret k'" by (auto simp: Kernel_start_thread_executor_def)
  from thread_boot_ref [OF k k1(1)] obtain x where x: "kernel_inv L A k1" "k_local_event k1" "home_of k1 = home"
    "fut_of k1 = futs" "k_shared k1 = s" "k_execs k1 0 = Some x" "run_items A x = ts" "timer_items A x = {#}"
    "k_tasks k1 = k_tasks k" by (auto simp: thread_boot_def boot_inv_def)
  have "kernel_inv L A k'"
  proof (cases "be_alarm_handle x")
    case None
    then have "k' = k1" using k1(2) x(6) by (simp add: BaseExecutor_register_alarm_callback_def with_exec_def)
    with x(1) show ?thesis by simp
  next
    case (Some h)
    with callback_ok [OF x(1,6) _ k1(2)] show ?thesis by blast
  qed
  with callback_keeps [OF k1(2)] x show ?thesis by (auto simp: runs_to_def home_of_def fut_of_def)
qed

text \<open>With no timers, checking the timer queue changes nothing that counts here.\<close>

lemma check_no_timers:
  fixes k :: "('q, 't, 'v, 'a, 'f, 's) kernel"
  assumes k: "runs_to L A e home k ts futs s" and x: "k_execs k e = Some x" "timer_items A x = {#}" and fuel: "N_TIMERS < fuel"
  shows "\<exists>k'. BaseExecutor_check_timer_queue fuel L e k = Some (Ret k') \<and> runs_to L A e home k' ts futs s \<and>
    k_tasks k' = k_tasks k"
proof -
  from k x have ki: "kernel_inv L A k" "run_items A x = ts" by (auto simp: runs_to_def)
  have "length (run_items A x) \<le> MAX_TASKS" using run_items_le [OF ki(1) x(1)] .
  from ki(1) x(1) fuel show ?thesis
  proof (cases rule: check_timer_queue_cases)
    case (fits items x')
    then have "items = []" using x(2) by simp
    with fits ki k show ?thesis by (auto simp: runs_to_def)
  next
    case overflow
    with x(2) \<open>length (run_items A x) \<le> MAX_TASKS\<close> show ?thesis by simp
  qed
qed

end

section \<open>The whole run\<close>

abbreviation test_period :: "test_event list" where
  "test_period \<equiv> [PrintLine ''Waiter Task: wait for signal'', PinToggle 2, PinToggle 1]"

context kernel_laws
begin

lemma ping_rounds:
  fixes k :: "('q, 't, 'v, 'a, test_fut, test_state) kernel"
  assumes "ping_state L A w t l k" "w \<noteq> t"
  shows "\<exists>k'. round_of L test_poll 0 (concat (replicate n [w, t])) k k' \<and>
    ping_state L A w t (l @ concat (replicate n test_period)) k'"
  using assms(1)
proof (induction n arbitrary: k l)
  case (Suc n)
  from ping_step [OF Suc.prems assms(2)] obtain k1 where
    k1: "round_of L test_poll 0 [w] k k1"
    "pong_state L A w t (l @ [PrintLine ''Waiter Task: wait for signal'', PinToggle 2]) k1"
    by (auto simp: round_of_def run_in_order_def)
  from pong_step [OF k1(2) assms(2)] obtain k2 where
    k2: "round_of L test_poll 0 [t] k1 k2" "ping_state L A w t (l @ test_period) k2"
    by (auto simp: round_of_def run_in_order_def)
  from Suc.IH [OF k2(2)] obtain k' where k': "round_of L test_poll 0 (concat (replicate n [w, t])) k2 k'"
    "ping_state L A w t ((l @ test_period) @ concat (replicate n test_period)) k'" by blast
  have "round_of L test_poll 0 ([w] @ [t] @ concat (replicate n [w, t])) k k'"
    using k1(1) k2(1) k'(1) by (blast intro: round_of_append)
  with k'(2) show ?case by (intro exI [of _ k']) simp
qed (auto intro: round_of_nil)

lemma first_round:
  fixes k :: "('q, 't, 'v, 'a, test_fut, test_state) kernel"
  assumes k: "runs_to L A 0 (both_home w t) k [w, t] [w \<mapsto> WaiterStart, t \<mapsto> SenderStart] test_init" and "w \<noteq> t"
  shows "\<exists>k1 k'. round_of L test_poll 0 [w] k k1 \<and> round_of L test_poll 0 [t] k1 k' \<and>
    ping_state L A w t [PinToggle 2, PinToggle 1, PinToggle 1] k'"
proof -
  let ?v = "\<lparr>tv_now = Kernel_now k, tv_effects = [], tv_shared = test_init\<rparr>"
  have "test_poll WaiterStart (RawWaker w VTABLE) ?v =
      (Pending, WaiterReads [0], ?v\<lparr>tv_shared := at_state (pipe_empty w [0]) ([] @ [PinToggle 2])\<rparr>)"
    by (rule waiter_starts) (simp add: test_init_def)
  with pop_exact [OF k, of WaiterStart test_poll "WaiterReads [0]"] assms(2) obtain k1 where
    k1: "round_of L test_poll 0 [w] k k1"
    "runs_to L A 0 (both_home w t) k1 [t] [w \<mapsto> WaiterReads [0], t \<mapsto> SenderStart] (at_state (pipe_empty w [0]) [PinToggle 2])"
    by (auto simp: round_of_def run_in_order_def both_home_def MAX_TASKS_def fun_upd_twist)
  let ?v = "\<lparr>tv_now = Kernel_now k1, tv_effects = [], tv_shared = at_state (pipe_empty w [0]) [PinToggle 2]\<rparr>"
  have "test_poll SenderStart (RawWaker t VTABLE) ?v =
      (Pending, SenderWrites [97], ?v\<lparr>tv_shared := at_state (pipe_full t) ([PinToggle 2] @ [PinToggle 1, PinToggle 1]),
         tv_effects := [EffWake (RawWaker w VTABLE)]\<rparr>)" by (rule sender_writes(1)) (simp, simp, simp)
  with pop_exact [OF k1(2), of SenderStart test_poll "SenderWrites [97]"] assms(2) obtain k2 where
    k2: "round_of L test_poll 0 [t] k1 k2"
    "runs_to L A 0 (both_home w t) k2 [w] [w \<mapsto> WaiterReads [0], t \<mapsto> SenderWrites [97]]
       (at_state (pipe_full t) [PinToggle 2, PinToggle 1, PinToggle 1])"
    by (auto simp: round_of_def run_in_order_def both_home_def MAX_TASKS_def fun_upd_twist)
  have "ping_state L A w t [PinToggle 2, PinToggle 1, PinToggle 1] k2"
    unfolding ping_state_def by (intro exI [of _ "[0 :: byte]"] conjI k2(2)) simp
  with k1(1) k2(1) show ?thesis by blast
qed

lemma booted_program:
  fixes k :: "('q, 't, 'v, 'a, test_fut, test_state) kernel"
  assumes lay: "0 < fut_align lay" "0 < hdr_align lay" "0 < hdr_size lay" and mem: "mem + MEMORY_SIZE \<le> usize_max"
    and ret: "each_out (api_exec L ins lay) inter_task_communication_thread
      ([], Kernel_init L mem (Kernel_statics L q b test_init)) = Ret (hs, k)"
  shows "\<exists>w t x. w \<noteq> t \<and> k_local_event k \<and> k_execs k 0 = Some x \<and> timer_items A x = {#} \<and>
    runs_to L A 0 (both_home w t) k [w, t] [w \<mapsto> WaiterStart, t \<mapsto> SenderStart] test_init \<and>
    map_option th_name (k_tasks k w) = Some ''Waiter Task'' \<and> map_option th_name (k_tasks k t) = Some ''Sender Task''"
proof -
  let ?k0 = "Kernel_init L mem (Kernel_statics L q b test_init) :: ('q, 't, 'v, 'a, test_fut, test_state) kernel"
  from ret obtain k1 k2 where steps: "Kernel_spawn L lay SenderStart ''Sender Task'' ?k0 = Ret k1"
    "Kernel_spawn L lay WaiterStart ''Waiter Task'' k1 = Ret k2" "Kernel_start_thread_executor L k2 = Ret k"
    by (auto simp: inter_task_communication_thread_def)
  from thread_boot_spawn [OF thread_boot_init [OF mem] lay steps(1)] obtain t where
    t: "thread_boot L A [t \<mapsto> 0] k1 [t] [t \<mapsto> SenderStart] test_init"
    "map_option th_name (k_tasks k1 t) = Some ''Sender Task''" by blast
  from thread_boot_spawn [OF t(1) lay steps(2)] obtain w where
    w: "w \<noteq> t" "thread_boot L A [t \<mapsto> 0, w \<mapsto> 0] k2 [w, t] [t \<mapsto> SenderStart, w \<mapsto> WaiterStart] test_init"
    "map_option th_name (k_tasks k2 w) = Some ''Waiter Task''" "k_tasks k2 t = k_tasks k1 t" by auto
  note s = thread_boot_start [OF w(2) steps(3)]
  with w t(2) show ?thesis
    by (intro exI [of _ w] exI [of _ t]) (auto simp: both_home_def fun_upd_twist)
qed

lemma program_runs:
  fixes k :: "('q, 't, 'v, 'a, test_fut, test_state) kernel"
  assumes lay: "0 < fut_align lay" "0 < hdr_align lay" "0 < hdr_size lay" and mem: "mem + MEMORY_SIZE \<le> usize_max"
    and ret: "each_out (api_exec L ins lay) inter_task_communication_thread
      ([], Kernel_init L mem (Kernel_statics L q b test_init)) = Ret (hs, k)" and fuel: "N_TIMERS < fuel"
  shows "\<exists>w t k1. BaseExecutor_check_timer_queue fuel L 0 (snd (Kernel_event_fetch_and_clear_local k)) = Some (Ret k1) \<and>
    map (\<lambda>u. map_option th_name (k_tasks k1 u)) [w, t] = [Some ''Waiter Task'', Some ''Sender Task''] \<and>
    (\<forall>n. \<exists>k'. run_in_order L test_poll 0 ([w, t] @ concat (replicate n [w, t])) k1 = Ret k' \<and>
       (\<forall>f. BaseExecutor_advance_runnable_tasks (2 + 2 * n + f) L test_poll 0 k1 =
          BaseExecutor_advance_runnable_tasks f L test_poll 0 k') \<and>
       ts_log (k_shared k') = [PinToggle 2, PinToggle 1, PinToggle 1] @ concat (replicate n test_period)) \<and>
    (\<forall>f. BaseExecutor_advance_runnable_tasks f L test_poll 0 k1 = None) \<and>
    ThreadExecutor_start_iteration fuel L test_poll k = None"
proof -
  from booted_program [OF lay mem ret] obtain w t x where wt: "w \<noteq> t" "k_local_event k" "k_execs k 0 = Some x"
    "timer_items A x = {#}"
    "runs_to L A 0 (both_home w t) k [w, t] [w \<mapsto> WaiterStart, t \<mapsto> SenderStart] test_init"
    "map_option th_name (k_tasks k w) = Some ''Waiter Task''" "map_option th_name (k_tasks k t) = Some ''Sender Task''"
    by blast
  let ?k0 = "k\<lparr>k_local_event := False\<rparr>"
  have ev: "Kernel_event_fetch_and_clear_local k = (True, ?k0)"
    using wt(2) by (simp add: Kernel_event_fetch_and_clear_local_def)
  have "kernel_inv L A ?k0" by (rule kernel_inv_frame [of L A k]) (use wt(5) in \<open>simp_all add: runs_to_def\<close>)
  then have "runs_to L A 0 (both_home w t) ?k0 [w, t] [w \<mapsto> WaiterStart, t \<mapsto> SenderStart] test_init"
    using wt(5) by (simp add: runs_to_def home_of_def fut_of_def)
  from check_no_timers [OF this _ wt(4) fuel] wt(3) obtain k1 where
    k1: "BaseExecutor_check_timer_queue fuel L 0 ?k0 = Some (Ret k1)" "k_tasks k1 = k_tasks k"
    "runs_to L A 0 (both_home w t) k1 [w, t] [w \<mapsto> WaiterStart, t \<mapsto> SenderStart] test_init" by auto
  from first_round [OF k1(3) wt(1)] obtain ka k2 where
    k2: "round_of L test_poll 0 [w] k1 ka" "round_of L test_poll 0 [t] ka k2"
    "ping_state L A w t [PinToggle 2, PinToggle 1, PinToggle 1] k2" by blast
  have len: "length ([w, t] @ concat (replicate n [w, t])) = 2 + 2 * n" for n by (induction n) auto
  have rounds: "\<exists>k'. run_in_order L test_poll 0 ([w, t] @ concat (replicate n [w, t])) k1 = Ret k' \<and>
      (\<forall>f. BaseExecutor_advance_runnable_tasks (2 + 2 * n + f) L test_poll 0 k1 =
         BaseExecutor_advance_runnable_tasks f L test_poll 0 k') \<and>
      ts_log (k_shared k') = [PinToggle 2, PinToggle 1, PinToggle 1] @ concat (replicate n test_period)" for n
  proof -
    from ping_rounds [OF k2(3) wt(1), of n] obtain k' where
      k': "round_of L test_poll 0 (concat (replicate n [w, t])) k2 k'"
      "ping_state L A w t ([PinToggle 2, PinToggle 1, PinToggle 1] @ concat (replicate n test_period)) k'" by blast
    have "round_of L test_poll 0 (([w] @ [t]) @ concat (replicate n [w, t])) k1 k'"
      by (rule round_of_append [OF round_of_append [OF k2(1,2)] k'(1)])
    then have "round_of L test_poll 0 ([w, t] @ concat (replicate n [w, t])) k1 k'" by simp
    moreover have "ts_log (k_shared k') = [PinToggle 2, PinToggle 1, PinToggle 1] @ concat (replicate n test_period)"
      using k'(2) by (auto simp: ping_state_def runs_to_def)
    ultimately show ?thesis unfolding round_of_def len by blast
  qed
  have endless: "BaseExecutor_advance_runnable_tasks f L test_poll 0 k1 = None" for f
  proof (cases f)
    case (Suc f')
    note none = ping_pong_endless [OF disjI1 [OF k2(3)] wt(1)]
    have "BaseExecutor_advance_runnable_tasks f' L test_poll 0 ka = None"
      using k2(2) none by (cases f') (simp_all add: round_of_def del: BaseExecutor_advance_runnable_tasks.simps(2))
    then show ?thesis
      using k2(1) Suc by (simp add: round_of_def del: BaseExecutor_advance_runnable_tasks.simps(2))
  qed simp
  then have "ThreadExecutor_start_iteration fuel L test_poll k = None"
    by (simp add: ThreadExecutor_start_iteration_def ev BaseExecutor_exec_once_def k1(1))
  with ev k1(1,2) wt(6,7) rounds endless show ?thesis
    by (intro exI [of _ w] exI [of _ t] exI [of _ k1]) (simp del: BaseExecutor_advance_runnable_tasks.simps(2))
qed

end

text \<open>
  C17. The demonstration program \<open>inter_task_communication_thread\<close>, booted on any containers that satisfy their
  laws: the thread executor runs the reader first, because the last task spawned is at the front; the reader waits, the
  writer writes a byte, wakes it and waits for room; and from then on the two tasks take turns for ever, with one line
  printed and one toggle of each pin for every byte.  The first iteration of the
  executor never ends, so no timer of the thread executor is served while the program runs.
\<close>

theorem inter_task_communication:
  fixes L :: "('q, 'r, 't, 'v, 'a) kernel_libs" and k :: "('q, 't, 'v, 'a, test_fut, test_state) kernel"
  assumes laws: "kernel_laws L A"
    and lay: "0 < fut_align lay" "0 < hdr_align lay" "0 < hdr_size lay" and mem: "mem + MEMORY_SIZE \<le> usize_max"
    and ret: "each_out (api_exec L ins lay) inter_task_communication_thread
      ([], Kernel_init L mem (Kernel_statics L q b test_init)) = Ret (hs, k)"
  shows "(\<exists>w t k1. BaseExecutor_check_timer_queue (Suc N_TIMERS) L 0 (snd (Kernel_event_fetch_and_clear_local k)) =
        Some (Ret k1) \<and>
      map (\<lambda>u. map_option th_name (k_tasks k1 u)) [w, t] = [Some ''Waiter Task'', Some ''Sender Task''] \<and>
      (\<forall>n. \<exists>k'. run_in_order L test_poll 0 ([w, t] @ concat (replicate n [w, t])) k1 = Ret k' \<and>
         (\<forall>fuel. BaseExecutor_advance_runnable_tasks (2 + 2 * n + fuel) L test_poll 0 k1 =
            BaseExecutor_advance_runnable_tasks fuel L test_poll 0 k') \<and>
         ts_log (k_shared k') = [PinToggle 2, PinToggle 1, PinToggle 1] @
           concat (replicate n [PrintLine ''Waiter Task: wait for signal'', PinToggle 2, PinToggle 1]))) \<and>
    (\<forall>fuel. N_TIMERS < fuel \<longrightarrow> ThreadExecutor_start_iteration fuel L test_poll k = None)"
proof -
  note run = kernel_laws.program_runs [OF laws lay mem ret]
  from run have "\<forall>fuel. N_TIMERS < fuel \<longrightarrow> ThreadExecutor_start_iteration fuel L test_poll k = None" by blast
  moreover obtain w t k1 where r:
    "BaseExecutor_check_timer_queue (Suc N_TIMERS) L 0 (snd (Kernel_event_fetch_and_clear_local k)) = Some (Ret k1)"
    "map (\<lambda>u. map_option th_name (k_tasks k1 u)) [w, t] = [Some ''Waiter Task'', Some ''Sender Task'']"
    "\<forall>n. \<exists>k'. run_in_order L test_poll 0 ([w, t] @ concat (replicate n [w, t])) k1 = Ret k' \<and>
       (\<forall>f. BaseExecutor_advance_runnable_tasks (2 + 2 * n + f) L test_poll 0 k1 =
          BaseExecutor_advance_runnable_tasks f L test_poll 0 k') \<and>
       ts_log (k_shared k') = [PinToggle 2, PinToggle 1, PinToggle 1] @ concat (replicate n test_period)"
    using run [OF lessI] by (elim exE conjE)
  ultimately show ?thesis by (intro conjI exI [of _ w] exI [of _ t] exI [of _ k1])
qed

theorem inter_task_communication_witness:
  "\<exists>(k :: (nat list, timer_queue_item list, nat option list, alarm_item list, test_fut, test_state) kernel) hs k1 w t k2.
     each_out (api_exec list_libs (bounded_insert N_EXECUTORS) demo_layout) inter_task_communication_thread
       ([], Kernel_init list_libs 4096 (Kernel_statics list_libs undefined undefined test_init)) = Ret (hs, k) \<and>
     run_in_order list_libs test_poll 0 [w, t, w, t] k1 = Ret k2 \<and>
     ts_log (k_shared k2) = [PinToggle 2, PinToggle 1, PinToggle 1,
       PrintLine ''Waiter Task: wait for signal'', PinToggle 2, PinToggle 1] \<and>
     ThreadExecutor_start_iteration 65 list_libs test_poll k = None"
proof -
  let ?k0 = "Kernel_init list_libs 4096 (Kernel_statics list_libs undefined undefined test_init)
    :: (nat list, timer_queue_item list, nat option list, alarm_item list, test_fut, test_state) kernel"
  let ?ins = "bounded_insert N_EXECUTORS"
  have "\<exists>hs k. each_out (api_exec list_libs ?ins demo_layout) inter_task_communication_thread ([], ?k0) = Ret (hs, k)"
    by (simp add: boot_eval inter_task_communication_thread_def del: bind_out_eq_Ret)
  then obtain hs k where k: "each_out (api_exec list_libs ?ins demo_layout) inter_task_communication_thread ([], ?k0) = Ret (hs, k)"
    by blast
  have "0 < fut_align demo_layout" "0 < hdr_align demo_layout" "0 < hdr_size demo_layout" "4096 + MEMORY_SIZE \<le> usize_max"
    by (simp_all add: demo_layout_def MEMORY_SIZE_def usize_max_def)
  note run = inter_task_communication [OF list_kernel_laws this k]
  then have "ThreadExecutor_start_iteration 65 list_libs test_poll k = None" by (simp add: N_TIMERS_def)
  moreover from run obtain w t k1 where
    "\<forall>n. \<exists>k'. run_in_order list_libs test_poll 0 ([w, t] @ concat (replicate n [w, t])) k1 = Ret k' \<and>
         (\<forall>fuel. BaseExecutor_advance_runnable_tasks (2 + 2 * n + fuel) list_libs test_poll 0 k1 =
            BaseExecutor_advance_runnable_tasks fuel list_libs test_poll 0 k') \<and>
         ts_log (k_shared k') = [PinToggle 2, PinToggle 1, PinToggle 1] @
           concat (replicate n [PrintLine ''Waiter Task: wait for signal'', PinToggle 2, PinToggle 1])"
    by (elim exE conjE)
  from spec [OF this, of 1] obtain k2 where "run_in_order list_libs test_poll 0 [w, t, w, t] k1 = Ret k2"
    "ts_log (k_shared k2) = [PinToggle 2, PinToggle 1, PinToggle 1,
       PrintLine ''Waiter Task: wait for signal'', PinToggle 2, PinToggle 1]" by auto
  ultimately show ?thesis using k by blast
qed

end
