(* ===== verification/Fmt.thy ===== *)
theory Fmt
  imports Shared_Cell
begin

text \<open>
  The macros of \<open>src/src/sync/fmt.rs\<close> and the output of \<open>src/src/utils/mod.rs\<close>.  Each macro expands, according to the
  features of the build, to a macro of \<open>core\<close>, \<open>defmt\<close> or \<open>log\<close> with the same arguments.  An argument is an
  expression over a state, which can panic.  The macros of \<open>core\<close> are modelled; those of \<open>defmt\<close> and \<open>log\<close> are
  parameters.  \<open>Cargo.toml\<close> declares no features, so the build has neither, and the lemmas show that
  there the macros are what the models of the other components say: \<open>assert!\<close> is \<open>rust_assert\<close>, \<open>unwrap!\<close> is
  \<open>unwrap\<close>, and \<open>trace!\<close> has no effect beside that of its arguments.
\<close>

section \<open>Features and expansion\<close>

record features =
  feat_defmt :: bool
  feat_log :: bool

definition fmt_compiles :: "features \<Rightarrow> bool" where
  "fmt_compiles F \<longleftrightarrow> \<not> (feat_defmt F \<and> feat_log F)"

definition build_features :: features where
  "build_features = \<lparr>feat_defmt = False, feat_log = False\<rparr>"

type_synonym ('st, 'u) expr = "'st \<Rightarrow> ('u \<times> 'st) outcome"

text \<open>The invocations, with the arguments of their messages last.\<close>

datatype ('st, 'v) checked_macro =
    Assert "('st, bool) expr" "('st, 'v) expr list"
  | AssertEq "('st, 'v) expr" "('st, 'v) expr" "('st, 'v) expr list"
  | AssertNe "('st, 'v) expr" "('st, 'v) expr" "('st, 'v) expr list"
  | DebugAssert "('st, bool) expr" "('st, 'v) expr list"
  | DebugAssertEq "('st, 'v) expr" "('st, 'v) expr" "('st, 'v) expr list"
  | DebugAssertNe "('st, 'v) expr" "('st, 'v) expr" "('st, 'v) expr list"
  | Todo "('st, 'v) expr list"
  | Unreachable "('st, 'v) expr list"
  | PanicMacro "('st, 'v) expr list"

datatype log_level = Trace | Debug | Info | Warn | Error

datatype ('st, 'v) fmt_call =
    CoreMacro "('st, 'v) checked_macro"
  | DefmtMacro "('st, 'v) checked_macro"
  | LogCrate log_level string "('st, 'v) expr list"
  | DefmtLog log_level string "('st, 'v) expr list"
  | LetRefs "('st, 'v) expr list"   \<comment> \<open>\<open>let _ = (&x, ...)\<close>\<close>

definition expand_checked :: "features \<Rightarrow> ('st, 'v) checked_macro \<Rightarrow> ('st, 'v) fmt_call list" where
  "expand_checked F m =
     (if \<not> feat_defmt F then [CoreMacro m] else []) @ (if feat_defmt F then [DefmtMacro m] else [])"

definition expand_log :: "features \<Rightarrow> log_level \<Rightarrow> string \<Rightarrow> ('st, 'v) expr list \<Rightarrow> ('st, 'v) fmt_call list" where
  "expand_log F level s xs =
     (if feat_log F then [LogCrate level s xs] else []) @
     (if feat_defmt F then [DefmtLog level s xs] else []) @
     (if \<not> (feat_log F \<or> feat_defmt F) then [LetRefs xs] else [])"

section \<open>What the expansions do\<close>

fun eval_all :: "('st, 'v) expr list \<Rightarrow> ('st, 'v list) expr" where
  "eval_all [] st = Ret ([], st)"
| "eval_all (x # xs) st =
     bind_out (x st) (\<lambda>(v, st). bind_out (eval_all xs st) (\<lambda>(vs, st). Ret (v # vs, st)))"

text \<open>A failed check formats its message, then panics.\<close>

definition panic_with :: "panic \<Rightarrow> ('st, 'v) expr list \<Rightarrow> 'st \<Rightarrow> 'st outcome" where
  "panic_with p msg st = bind_out (eval_all msg st) (\<lambda>_. Panic p)"

definition core_assert :: "('st, bool) expr \<Rightarrow> ('st, 'v) expr list \<Rightarrow> 'st \<Rightarrow> 'st outcome" where
  "core_assert c msg st = bind_out (c st) (\<lambda>(b, st). if b then Ret st else panic_with AssertFailed msg st)"

definition core_compare ::
  "bool \<Rightarrow> ('st, 'v) expr \<Rightarrow> ('st, 'v) expr \<Rightarrow> ('st, 'v) expr list \<Rightarrow> 'st \<Rightarrow> 'st outcome" where
  "core_compare eq a b msg st = bind_out (a st) (\<lambda>(x, st). bind_out (b st) (\<lambda>(y, st).
     if (x = y) = eq then Ret st else panic_with AssertFailed msg st))"

fun core_macro :: "bool \<Rightarrow> ('st, 'v) checked_macro \<Rightarrow> 'st \<Rightarrow> 'st outcome" where
  "core_macro dbg (Assert c msg) st = core_assert c msg st"
| "core_macro dbg (AssertEq a b msg) st = core_compare True a b msg st"
| "core_macro dbg (AssertNe a b msg) st = core_compare False a b msg st"
| "core_macro dbg (DebugAssert c msg) st = (if dbg then core_assert c msg st else Ret st)"
| "core_macro dbg (DebugAssertEq a b msg) st = (if dbg then core_compare True a b msg st else Ret st)"
| "core_macro dbg (DebugAssertNe a b msg) st = (if dbg then core_compare False a b msg st else Ret st)"
| "core_macro dbg (Todo msg) st = panic_with ExplicitPanic msg st"
| "core_macro dbg (Unreachable msg) st = panic_with ExplicitPanic msg st"
| "core_macro dbg (PanicMacro msg) st = panic_with ExplicitPanic msg st"

text \<open>The other crates, and whether the build has debug assertions.\<close>

record ('st, 'v) backends =
  bk_debug :: bool
  bk_defmt :: "('st, 'v) checked_macro \<Rightarrow> 'st \<Rightarrow> 'st outcome"
  bk_defmt_log :: "log_level \<Rightarrow> string \<Rightarrow> ('st, 'v) expr list \<Rightarrow> 'st \<Rightarrow> 'st outcome"
  bk_log :: "log_level \<Rightarrow> string \<Rightarrow> ('st, 'v) expr list \<Rightarrow> 'st \<Rightarrow> 'st outcome"

fun run_call :: "('st, 'v) backends \<Rightarrow> ('st, 'v) fmt_call \<Rightarrow> 'st \<Rightarrow> 'st outcome" where
  "run_call B (CoreMacro m) st = core_macro (bk_debug B) m st"
| "run_call B (DefmtMacro m) st = bk_defmt B m st"
| "run_call B (LogCrate level s xs) st = bk_log B level s xs st"
| "run_call B (DefmtLog level s xs) st = bk_defmt_log B level s xs st"
| "run_call B (LetRefs xs) st = bind_out (eval_all xs st) (\<lambda>(_, st). Ret st)"

fun run_calls :: "('st, 'v) backends \<Rightarrow> ('st, 'v) fmt_call list \<Rightarrow> 'st \<Rightarrow> 'st outcome" where
  "run_calls B [] st = Ret st"
| "run_calls B (c # cs) st = bind_out (run_call B c st) (run_calls B cs)"

section \<open>\<open>unwrap!\<close>\<close>

datatype none_error = NoneError

fun Option_into_result :: "'a option \<Rightarrow> ('a, none_error) result" where
  "Option_into_result (Some x) = Ok x"
| "Option_into_result None = Err NoneError"

definition Result_into_result :: "('a, 'e) result \<Rightarrow> ('a, 'e) result" where
  "Result_into_result r = r"

text \<open>
  The value, or the message of the panic.  The argument's text, the message of the caller and the \<open>Debug\<close> output of
  the error are arguments.
\<close>

fun unwrap_arg :: "string \<Rightarrow> ('e \<Rightarrow> string) \<Rightarrow> ('a, 'e) result \<Rightarrow> 'a + string" where
  "unwrap_arg arg dbg (Ok t) = Inl t"
| "unwrap_arg arg dbg (Err e) = Inr (''unwrap of `'' @ arg @ ''` failed: '' @ dbg e)"

fun unwrap_arg_msg :: "string \<Rightarrow> string \<Rightarrow> ('e \<Rightarrow> string) \<Rightarrow> ('a, 'e) result \<Rightarrow> 'a + string" where
  "unwrap_arg_msg arg msg dbg (Ok t) = Inl t"
| "unwrap_arg_msg arg msg dbg (Err e) = Inr (''unwrap of `'' @ arg @ ''` failed: '' @ msg @ '': '' @ dbg e)"

fun unwrap_outcome :: "'a + string \<Rightarrow> 'a outcome" where
  "unwrap_outcome (Inl t) = Ret t"
| "unwrap_outcome (Inr _) = Panic UnwrapFailed"

section \<open>\<open>Bytes\<close>\<close>

text \<open>
  \<open>{:#02x?}\<close> of a slice: the elements on lines of their own, each with the prefix \<open>0x\<close> and padded with zeros to a
  width of 2, which counts the prefix.
\<close>

fun lower_hex :: "nat \<Rightarrow> string" where
  "lower_hex n = (if n < 16 then [''0123456789abcdef'' ! n]
     else lower_hex (n div 16) @ [''0123456789abcdef'' ! (n mod 16)])"

declare lower_hex.simps [simp del]

definition hex_padded :: "nat \<Rightarrow> 8 word \<Rightarrow> string" where
  "hex_padded width b = (let ds = lower_hex (unat b)
     in ''0x'' @ replicate (width - (2 + length ds)) (CHR ''0'') @ ds)"

definition Bytes_fmt :: "8 word list \<Rightarrow> string" where
  "Bytes_fmt bs =
     (if bs = [] then ''[]''
      else ''['' @ [CHR 10] @ concat (map (\<lambda>b. ''    '' @ hex_padded 2 b @ '','' @ [CHR 10]) bs) @ '']'')"

section \<open>Output\<close>

text \<open>The driver's \<open>print\<close> is a parameter.  \<open>write!\<close> hands the pieces of the formatted text to \<open>write_str\<close>, up to the first error.\<close>

definition UartOut_write_str :: "('u \<Rightarrow> string \<Rightarrow> 'u) \<Rightarrow> string \<Rightarrow> 'u \<Rightarrow> (unit, unit) result \<times> 'u" where
  "UartOut_write_str uart s u = (Ok (), uart u s)"

fun write_pieces :: "('u \<Rightarrow> string \<Rightarrow> 'u) \<Rightarrow> string list \<Rightarrow> 'u \<Rightarrow> (unit, unit) result \<times> 'u" where
  "write_pieces uart [] u = (Ok (), u)"
| "write_pieces uart (s # ss) u =
     (case UartOut_write_str uart s u of
        (Ok _, u) \<Rightarrow> write_pieces uart ss u
      | (Err e, u) \<Rightarrow> (Err e, u))"

definition print_macro :: "('u \<Rightarrow> string \<Rightarrow> 'u) \<Rightarrow> string list \<Rightarrow> 'u \<Rightarrow> 'u" where
  "print_macro uart pieces u = snd (write_pieces uart pieces u)"

text \<open>What \<open>abort\<close> has done when it enters its endless loop.\<close>

definition abort_output :: "('u \<Rightarrow> string \<Rightarrow> 'u) \<Rightarrow> 'u \<Rightarrow> 'u" where
  "abort_output uart u = uart u ''aborted''"

section \<open>What is shown\<close>

text \<open>Every build that compiles turns an invocation into exactly one call.\<close>

lemma expansion_is_one_call:
  assumes "fmt_compiles F"
  shows "length (expand_checked F m) = 1" "length (expand_log F level s xs) = 1"
  using assms by (auto simp: fmt_compiles_def expand_checked_def expand_log_def)

text \<open>The build of the repository: checks of conditions without effects, and messages that are evaluated and dropped.\<close>

lemma build_assert:
  "run_calls B (expand_checked build_features (Assert (\<lambda>st. Ret (b, st)) [])) st =
     bind_out (rust_assert b) (\<lambda>_. Ret st)"
  by (simp add: expand_checked_def build_features_def core_assert_def rust_assert_def panic_with_def)

lemma build_log:
  "run_calls B (expand_log build_features level s xs) st = bind_out (eval_all xs st) (\<lambda>(_, st). Ret st)"
  by (cases "eval_all xs st") (auto simp: expand_log_def build_features_def)

lemma eval_all_pure:
  assumes "list_all (\<lambda>x. \<exists>v. x st = Ret (v, st)) xs"
  shows "\<exists>vs. eval_all xs st = Ret (vs, st)"
  using assms by (induction xs) auto

lemma build_trace_silent:
  assumes "list_all (\<lambda>x. \<exists>v. x st = Ret (v, st)) xs"
  shows "run_calls B (expand_log build_features level s xs) st = Ret st"
  using eval_all_pure [OF assms] by (auto simp: build_log)

lemma unwrap_macro:
  "unwrap_outcome (unwrap_arg arg dbg (Result_into_result r)) = unwrap_result r"
  "unwrap_outcome (unwrap_arg_msg arg msg dbg (Result_into_result r)) = unwrap_result r"
  by (cases r; simp add: Result_into_result_def)+

lemma unwrap_macro_option:
  "unwrap_outcome (unwrap_arg arg dbg (Option_into_result x)) = unwrap_option x"
  "unwrap_outcome (unwrap_arg_msg arg msg dbg (Option_into_result x)) = unwrap_option x"
  by (cases x; simp)+

text \<open>A lock of a channel's cell with the macro, as the source writes it.\<close>

lemma lock_unwraps:
  "lock_ref_cell f = BlockingMutex_lock (\<lambda>rc (m, c).
     let (borrow, rc) = RefCell_try_borrow_mut rc
     in case unwrap_outcome (unwrap_arg ''rc.try_borrow_mut()'' dbg (Result_into_result borrow)) of
          Panic e \<Rightarrow> (Panic e, m\<lparr>bm_data := rc\<rparr>, c)
        | Ret s \<Rightarrow> (let (u, s, ws) = f s in (Ret (u, ws), m\<lparr>bm_data := RefMut_drop s rc\<rparr>, c)))"
  by (intro ext) (simp add: lock_ref_cell_def unwrap_macro(1))

text \<open>The width of \<open>{:#02x?}\<close> never pads, because the prefix fills it.\<close>

lemma lower_hex_nonempty: "0 < length (lower_hex n)"
  by (subst lower_hex.simps) simp

lemma bytes_never_padded: "hex_padded 2 b = ''0x'' @ lower_hex (unat b)"
  by (simp add: hex_padded_def)

lemma print_all: "print_macro uart pieces u = foldl uart u pieces"
proof -
  have "write_pieces uart pieces u = (Ok (), foldl uart u pieces)"
    by (induction pieces arbitrary: u) (simp_all add: UartOut_write_str_def)
  then show ?thesis by (simp add: print_macro_def)
qed

text \<open>The text determines the bytes.\<close>

lemma hex_digit_inj: "m < 16 \<Longrightarrow> n < 16 \<Longrightarrow> ''0123456789abcdef'' ! m = ''0123456789abcdef'' ! n \<Longrightarrow> m = n"
  using nth_eq_iff_index_eq [of "''0123456789abcdef''" m n] by simp

lemma lower_hex_inj: "lower_hex m = lower_hex n \<Longrightarrow> m = n"
proof (induction m arbitrary: n rule: lower_hex.induct)
  case (1 m)
  note eq = 1(2) [unfolded lower_hex.simps [of m] lower_hex.simps [of n]]
  show ?case
  proof (cases "m < 16 \<or> n < 16")
    case True
    then have "m < 16 \<and> n < 16" using eq lower_hex_nonempty [of "m div 16"] lower_hex_nonempty [of "n div 16"]
      by (auto split: if_splits)
    with eq hex_digit_inj show ?thesis by simp
  next
    case False
    with eq have "lower_hex (m div 16) = lower_hex (n div 16)" "m mod 16 = n mod 16"
      using hex_digit_inj [of "m mod 16" "n mod 16"] by simp_all
    with 1(1) False have "m div 16 = n div 16" by simp
    with \<open>m mod 16 = n mod 16\<close> show ?thesis by (metis div_mult_mod_eq)
  qed
qed

lemma hex_digit_no_comma: "n < 16 \<Longrightarrow> ''0123456789abcdef'' ! n \<noteq> CHR '',''"
  using nth_mem [of n "''0123456789abcdef''"] by auto

lemma lower_hex_no_comma: "CHR '','' \<notin> set (lower_hex n)"
  by (induction n rule: lower_hex.induct) (subst lower_hex.simps, auto simp: hex_digit_no_comma [symmetric])

lemma Bytes_fmt_inj:
  assumes "Bytes_fmt as = Bytes_fmt bs"
  shows "as = bs"
proof -
  define line where "line b = ''    '' @ hex_padded 2 b @ '','' @ [CHR 10]" for b
  have line: "line b = ''    0x'' @ lower_hex (unat b) @ '','' @ [CHR 10]" for b
    by (simp add: line_def bytes_never_padded)
  have split: "as = bs" if "concat (map line as) @ '']'' = concat (map line bs) @ '']''" for as bs
    using that
  proof (induction as arbitrary: bs)
    case Nil
    then show ?case by (cases bs) (simp_all add: line)
  next
    case (Cons a as)
    then obtain b bs' where bs: "bs = b # bs'" by (cases bs) (auto simp: line)
    let ?rest = "\<lambda>xs. CHR 10 # concat (map line xs) @ '']''"
    have eq: "lower_hex (unat a) @ CHR '','' # ?rest as = lower_hex (unat b) @ CHR '','' # ?rest bs'"
      using Cons.prems by (simp add: bs line [of a] line [of b])
    have pre: "takeWhile (\<lambda>c. c \<noteq> CHR '','') (lower_hex (unat x) @ CHR '','' # ys) = lower_hex (unat x)"
      for x :: "8 word" and ys using lower_hex_no_comma [of "unat x"] by (subst takeWhile_append2) auto
    have "lower_hex (unat a) = lower_hex (unat b)"
      using arg_cong [OF eq, of "takeWhile (\<lambda>c. c \<noteq> CHR '','')"] pre by simp
    then have "unat a = unat b" by (rule lower_hex_inj)
    then have "a = b" by (rule unsigned_word_eqI)
    moreover have "as = bs'" using Cons.IH eq \<open>lower_hex (unat a) = lower_hex (unat b)\<close> by simp
    ultimately show ?case by (simp add: bs)
  qed
  have fmt: "Bytes_fmt xs = (if xs = [] then ''[]'' else ''['' @ [CHR 10] @ concat (map line xs) @ '']'')" for xs
    unfolding Bytes_fmt_def line_def by (rule refl)
  show ?thesis using assms split by (auto simp: fmt split: if_splits)
qed

end
