(* ===== verification/Mutex_Handles.thy ===== *)
theory Mutex_Handles
  imports Async_Mutex Shared_Cell
begin

text \<open>
  The asynchronous mutex of \<open>src/src/sync/mutex.rs\<close> as its users see it.  The struct has the state in a cell behind the
  blocking mutex and, beside it, the data, a range of the memory.  A guard refers to a mutex; a guard that has been
  mapped holds a reference to the state and a pointer to a part of the data.  \<open>guards_exclusive\<close> says what this
  is for: whatever the users do with any number of mutexes, no two guards reach the same
  memory, and no memory outside the data of the mutexes changes.
\<close>

section \<open>The struct\<close>

record mutex_lock_state =
  ml_locked :: bool
  ml_waker :: waker_registration

type_synonym mem_range = "nat \<times> nat"   \<comment> \<open>the first address and the length\<close>

record mutex_struct =
  mx_state :: "mutex_lock_state ref_cell blocking_mutex"
  mx_inner :: mem_range

definition MutexStruct_new :: "mem_range \<Rightarrow> mutex_struct" where
  "MutexStruct_new value = \<lparr>mx_state = BlockingMutex_new (RefCell_new
     \<lparr>ml_locked = False, ml_waker = WakerRegistration_new\<rparr>), mx_inner = value\<rparr>"

text \<open>The memory: the mutexes by their numbers, the cells that hold data, and the core.\<close>

record 'c mutex_mem =
  mm_mutexes :: "nat \<Rightarrow> mutex_struct"
  mm_cells :: "nat \<Rightarrow> 'c"
  mm_irq :: cpu_irq

definition range_set :: "mem_range \<Rightarrow> nat set" where
  "range_set r = {fst r ..< fst r + snd r}"

definition read_range :: "mem_range \<Rightarrow> (nat \<Rightarrow> 'c) \<Rightarrow> 'c list" where
  "read_range r cells = map cells [fst r ..< fst r + snd r]"

definition write_range :: "mem_range \<Rightarrow> 'c list \<Rightarrow> (nat \<Rightarrow> 'c) \<Rightarrow> nat \<Rightarrow> 'c" where
  "write_range r xs cells a = (if fst r \<le> a \<and> a < fst r + length xs then xs ! (a - fst r) else cells a)"

text \<open>\<open>state.lock(|s| { let mut s = s.borrow_mut(); .. })\<close>, as the locking operations have it.\<close>

definition lock_borrowing ::
  "('s \<Rightarrow> 'u \<times> 's \<times> waker list) \<Rightarrow> 's ref_cell blocking_mutex \<times> cpu_irq \<Rightarrow>
     ('u \<times> waker list) outcome \<times> 's ref_cell blocking_mutex \<times> cpu_irq" where
  "lock_borrowing f mc = BlockingMutex_lock
     (\<lambda>rc (m, c).
        case RefCell_borrow_mut rc of
          Panic e \<Rightarrow> (Panic e, m, c)
        | Ret (s, rc) \<Rightarrow>
            (let (u, s, ws) = f s in (Ret (u, ws), m\<lparr>bm_data := RefMut_drop s rc\<rparr>, c))) mc"

definition on_mutex_state ::
  "nat \<Rightarrow> (mutex_lock_state ref_cell blocking_mutex \<times> cpu_irq \<Rightarrow>
     'r \<times> mutex_lock_state ref_cell blocking_mutex \<times> cpu_irq) \<Rightarrow> 'c mutex_mem \<Rightarrow> 'r \<times> 'c mutex_mem" where
  "on_mutex_state i f M =
     (let (r, st, cpu) = f (mx_state (mm_mutexes M i), mm_irq M)
      in (r, M\<lparr>mm_mutexes := (mm_mutexes M)(i := (mm_mutexes M i)\<lparr>mx_state := st\<rparr>), mm_irq := cpu\<rparr>))"

section \<open>Guards\<close>

datatype guard_ref =
    GuardRef nat               \<comment> \<open>\<open>MutexGuard { mutex }\<close>\<close>
  | MappedRef nat mem_range    \<comment> \<open>\<open>MappedMutexGuard { state, value }\<close>, with the mutex that holds the state\<close>

fun guard_mutex :: "guard_ref \<Rightarrow> nat" where
  "guard_mutex (GuardRef i) = i"
| "guard_mutex (MappedRef i r) = i"

fun guard_range :: "'c mutex_mem \<Rightarrow> guard_ref \<Rightarrow> mem_range" where
  "guard_range M (GuardRef i) = mx_inner (mm_mutexes M i)"
| "guard_range M (MappedRef i r) = r"

definition lock_body :: "waker \<Rightarrow> mutex_lock_state \<Rightarrow> bool \<times> mutex_lock_state \<times> waker list" where
  "lock_body cx s =
     (if ml_locked s then
        let (w, ws) = WakerRegistration_register (ml_waker s) cx in (False, s\<lparr>ml_waker := w\<rparr>, ws)
      else (True, s\<lparr>ml_locked := True\<rparr>, []))"

definition MutexRef_lock_poll ::
  "nat \<Rightarrow> waker \<Rightarrow> 'c mutex_mem \<Rightarrow> (guard_ref poll \<times> waker list) outcome \<times> 'c mutex_mem" where
  "MutexRef_lock_poll self cx M =
     (case on_mutex_state self (lock_borrowing (lock_body cx)) M of
        (Panic e, M) \<Rightarrow> (Panic e, M)
      | (Ret (ready, ws), M) \<Rightarrow> (Ret (if ready then Ready (GuardRef self) else Pending, ws), M))"

definition try_lock_body ::
  "mutex_lock_state \<Rightarrow> (unit, try_lock_error) result \<times> mutex_lock_state \<times> waker list" where
  "try_lock_body s = (if ml_locked s then (Err TryLockError, s, []) else (Ok (), s\<lparr>ml_locked := True\<rparr>, []))"

definition MutexRef_try_lock ::
  "nat \<Rightarrow> 'c mutex_mem \<Rightarrow> (guard_ref, try_lock_error) result outcome \<times> 'c mutex_mem" where
  "MutexRef_try_lock self M =
     (case on_mutex_state self (lock_borrowing try_lock_body) M of
        (Panic e, M) \<Rightarrow> (Panic e, M)
      | (Ret (Err e, _), M) \<Rightarrow> (Ret (Err e), M)
      | (Ret (Ok _, _), M) \<Rightarrow> (Ret (Ok (GuardRef self)), M))"

text \<open>\<open>MutexGuard::drop\<close> and \<open>MappedMutexGuard::drop\<close>, each on the state its guard refers to.\<close>

definition unlock_body :: "mutex_lock_state \<Rightarrow> unit \<times> mutex_lock_state \<times> waker list" where
  "unlock_body s =
     (let s = s\<lparr>ml_locked := False\<rparr>; (w, ws) = WakerRegistration_wake (ml_waker s)
      in ((), s\<lparr>ml_waker := w\<rparr>, ws))"

fun GuardRef_drop :: "guard_ref \<Rightarrow> 'c mutex_mem \<Rightarrow> (unit \<times> waker list) outcome \<times> 'c mutex_mem" where
  "GuardRef_drop (GuardRef i) M = on_mutex_state i (lock_ref_cell unlock_body) M"
| "GuardRef_drop (MappedRef i r) M = on_mutex_state i (lock_ref_cell unlock_body) M"

text \<open>
  \<open>map\<close> runs its closure on the data of the guard.  The closure may change the data and returns a reference to a part
  of it, the offset and the length here.  The old guard is forgotten, not dropped.
\<close>

type_synonym 'c projection = "'c list \<Rightarrow> 'c list \<times> nat \<times> nat"

definition map_range :: "'c projection \<Rightarrow> mem_range \<Rightarrow> 'c mutex_mem \<Rightarrow> mem_range \<times> 'c mutex_mem" where
  "map_range fun r M =
     (let (xs, off, len) = fun (read_range r (mm_cells M))
      in ((fst r + off, len), M\<lparr>mm_cells := write_range r xs (mm_cells M)\<rparr>))"

definition MutexGuard_map_in :: "'c projection \<Rightarrow> nat \<Rightarrow> 'c mutex_mem \<Rightarrow> guard_ref \<times> 'c mutex_mem" where
  "MutexGuard_map_in fun i M =
     (let (value, M) = map_range fun (mx_inner (mm_mutexes M i)) M in (MappedRef i value, M))"

definition MappedMutexGuard_map_in ::
  "'c projection \<Rightarrow> nat \<Rightarrow> mem_range \<Rightarrow> 'c mutex_mem \<Rightarrow> guard_ref \<times> 'c mutex_mem" where
  "MappedMutexGuard_map_in fun i r M = (let (value, M) = map_range fun r M in (MappedRef i value, M))"

fun GuardRef_map :: "'c projection \<Rightarrow> guard_ref \<Rightarrow> 'c mutex_mem \<Rightarrow> guard_ref \<times> 'c mutex_mem" where
  "GuardRef_map fun (GuardRef i) M = MutexGuard_map_in fun i M"
| "GuardRef_map fun (MappedRef i r) M = MappedMutexGuard_map_in fun i r M"

definition GuardRef_deref :: "guard_ref \<Rightarrow> 'c mutex_mem \<Rightarrow> 'c list" where
  "GuardRef_deref g M = read_range (guard_range M g) (mm_cells M)"

definition GuardRef_deref_mut :: "('c list \<Rightarrow> 'c list) \<Rightarrow> guard_ref \<Rightarrow> 'c mutex_mem \<Rightarrow> 'c mutex_mem" where
  "GuardRef_deref_mut upd g M =
     M\<lparr>mm_cells := write_range (guard_range M g) (upd (GuardRef_deref g M)) (mm_cells M)\<rparr>"

text \<open>\<open>get_mut\<close> needs a mutable reference to the mutex, so its callers have no guard.\<close>

definition MutexRef_get_mut :: "('c list \<Rightarrow> 'c list) \<Rightarrow> nat \<Rightarrow> 'c mutex_mem \<Rightarrow> 'c mutex_mem" where
  "MutexRef_get_mut upd self M =
     (let r = mx_inner (mm_mutexes M self)
      in M\<lparr>mm_cells := write_range r (upd (read_range r (mm_cells M))) (mm_cells M)\<rparr>)"

section \<open>Users\<close>

text \<open>
  The users keep their guards in numbered places, one each.  \<open>mu_sleepers\<close> holds, for each mutex, the tasks whose last poll
  of \<open>lock\<close> was pending and that have not been woken since.
\<close>

record 'c mutex_users =
  mu_mem :: "'c mutex_mem"
  mu_guards :: "nat \<Rightarrow> guard_ref option"
  mu_sleepers :: "nat \<Rightarrow> waker set"

datatype 'c mutex_call =
    MxLock nat nat waker
  | MxTryLock nat nat
  | MxMap nat "'c projection"
  | MxWrite nat "'c list \<Rightarrow> 'c list"
  | MxDrop nat
  | MxGetMut nat "'c list \<Rightarrow> 'c list"

text \<open>A call that the type system rules out (a place that is taken, a guard that is gone, \<open>get_mut\<close> beside a guard) does nothing.\<close>

fun mutex_call_exec :: "'c mutex_call \<Rightarrow> 'c mutex_users \<Rightarrow> 'c mutex_users outcome" where
  "mutex_call_exec (MxLock k i cx) u =
     (if mu_guards u k \<noteq> None then Ret u
      else case MutexRef_lock_poll i cx (mu_mem u) of
        (Panic e, _) \<Rightarrow> Panic e
      | (Ret (Ready g, ws), M) \<Rightarrow>
          Ret (u\<lparr>mu_mem := M, mu_guards := (mu_guards u)(k \<mapsto> g),
            mu_sleepers := (mu_sleepers u)(i := mu_sleepers u i - set ws)\<rparr>)
      | (Ret (Pending, ws), M) \<Rightarrow>
          Ret (u\<lparr>mu_mem := M, mu_sleepers := (mu_sleepers u)(i := insert cx (mu_sleepers u i - set ws))\<rparr>))"
| "mutex_call_exec (MxTryLock k i) u =
     (if mu_guards u k \<noteq> None then Ret u
      else case MutexRef_try_lock i (mu_mem u) of
        (Panic e, _) \<Rightarrow> Panic e
      | (Ret (Ok g), M) \<Rightarrow> Ret (u\<lparr>mu_mem := M, mu_guards := (mu_guards u)(k \<mapsto> g)\<rparr>)
      | (Ret (Err _), M) \<Rightarrow> Ret (u\<lparr>mu_mem := M\<rparr>))"
| "mutex_call_exec (MxMap k fun) u =
     (case mu_guards u k of
        None \<Rightarrow> Ret u
      | Some g \<Rightarrow> let (g, M) = GuardRef_map fun g (mu_mem u)
          in Ret (u\<lparr>mu_mem := M, mu_guards := (mu_guards u)(k \<mapsto> g)\<rparr>))"
| "mutex_call_exec (MxWrite k upd) u =
     (case mu_guards u k of
        None \<Rightarrow> Ret u
      | Some g \<Rightarrow> Ret (u\<lparr>mu_mem := GuardRef_deref_mut upd g (mu_mem u)\<rparr>))"
| "mutex_call_exec (MxDrop k) u =
     (case mu_guards u k of
        None \<Rightarrow> Ret u
      | Some g \<Rightarrow>
          (case GuardRef_drop g (mu_mem u) of
             (Panic e, _) \<Rightarrow> Panic e
           | (Ret (_, ws), M) \<Rightarrow> Ret (u\<lparr>mu_mem := M, mu_guards := (mu_guards u)(k := None),
               mu_sleepers := (mu_sleepers u)(guard_mutex g := mu_sleepers u (guard_mutex g) - set ws)\<rparr>)))"
| "mutex_call_exec (MxGetMut i upd) u =
     (if \<exists>k g. mu_guards u k = Some g \<and> guard_mutex g = i then Ret u
      else Ret (u\<lparr>mu_mem := MutexRef_get_mut upd i (mu_mem u)\<rparr>))"

fun mutex_calls :: "'c mutex_call list \<Rightarrow> 'c mutex_users \<Rightarrow> 'c mutex_users outcome" where
  "mutex_calls [] u = Ret u"
| "mutex_calls (x # xs) u = bind_out (mutex_call_exec x u) (mutex_calls xs)"

text \<open>Mutexes that have just been made, inside \<open>d\<close> critical sections.\<close>

definition mutex_users_new :: "nat \<Rightarrow> (nat \<Rightarrow> mem_range) \<Rightarrow> (nat \<Rightarrow> 'c) \<Rightarrow> 'c mutex_users" where
  "mutex_users_new d data cells = \<lparr>mu_mem = \<lparr>mm_mutexes = (\<lambda>i. MutexStruct_new (data i)), mm_cells = cells,
     mm_irq = in_sections d\<rparr>, mu_guards = (\<lambda>_. None), mu_sleepers = (\<lambda>_. {})\<rparr>"

text \<open>What the types of the closures guarantee: they keep the size of the data, and the part is inside it.\<close>

definition projection_ok :: "'c projection \<Rightarrow> bool" where
  "projection_ok fun \<longleftrightarrow> (\<forall>xs. length (fst (fun xs)) = length xs \<and>
     fst (snd (fun xs)) + snd (snd (fun xs)) \<le> length xs)"

fun mutex_call_ok :: "'c mutex_call \<Rightarrow> bool" where
  "mutex_call_ok (MxMap k fun) \<longleftrightarrow> projection_ok fun"
| "mutex_call_ok (MxWrite k upd) \<longleftrightarrow> (\<forall>xs. length (upd xs) = length xs)"
| "mutex_call_ok (MxGetMut i upd) \<longleftrightarrow> (\<forall>xs. length (upd xs) = length xs)"
| "mutex_call_ok _ \<longleftrightarrow> True"

section \<open>What the operations do\<close>

lemma lock_borrowing_cell_of:
  assumes "d < 2 ^ 32 - 1" "f s = (u, s', ws)"
  shows "lock_borrowing f (cell_of s, in_sections d) = (Ret (u, ws), cell_of s', in_sections d)"
  using assms(2)
  by (simp add: lock_borrowing_def BlockingMutex_lock_def CriticalSectionRawMutex_lock_def
      critical_section_with_def in_sections_def acquire_eq release_eq [OF assms(1)] cell_of_def
      BlockingMutex_new_def RefCell_new_def RefCell_borrow_mut_def RefCell_try_borrow_mut_def RefMut_drop_def)

text \<open>Mutexes in the states \<open>lk\<close> that nobody borrows, inside \<open>d\<close> critical sections.\<close>

definition mutex_mem_of ::
  "nat \<Rightarrow> (nat \<Rightarrow> mem_range) \<Rightarrow> (nat \<Rightarrow> mutex_lock_state) \<Rightarrow> (nat \<Rightarrow> 'c) \<Rightarrow> 'c mutex_mem" where
  "mutex_mem_of d data lk cells = \<lparr>mm_mutexes = (\<lambda>i. \<lparr>mx_state = cell_of (lk i), mx_inner = data i\<rparr>),
     mm_cells = cells, mm_irq = in_sections d\<rparr>"

lemma mutex_mem_of_simps [simp]:
  "mm_cells (mutex_mem_of d data lk cells) = cells" "mm_irq (mutex_mem_of d data lk cells) = in_sections d"
  "mm_mutexes (mutex_mem_of d data lk cells) i = \<lparr>mx_state = cell_of (lk i), mx_inner = data i\<rparr>"
  "(mutex_mem_of d data lk cells)\<lparr>mm_cells := cells'\<rparr> = mutex_mem_of d data lk cells'"
  by (simp_all add: mutex_mem_of_def)

lemma on_mutex_state_of:
  assumes "f (cell_of (lk i), in_sections d) = (r, cell_of s', in_sections d)"
  shows "on_mutex_state i f (mutex_mem_of d data lk cells) = (r, mutex_mem_of d data (lk(i := s')) cells)"
  using assms by (auto simp: on_mutex_state_def mutex_mem_of_def)

lemma lock_poll_of:
  assumes d: "d < 2 ^ 32 - 1"
  obtains (ready) "\<not> ml_locked (lk i)" "MutexRef_lock_poll i cx (mutex_mem_of d data lk cells) =
      (Ret (Ready (GuardRef i), []), mutex_mem_of d data (lk(i := (lk i)\<lparr>ml_locked := True\<rparr>)) cells)"
    | (pending) w ws where "ml_locked (lk i)" "WakerRegistration_register (ml_waker (lk i)) cx = (w, ws)"
      "MutexRef_lock_poll i cx (mutex_mem_of d data lk cells) =
        (Ret (Pending, ws), mutex_mem_of d data (lk(i := (lk i)\<lparr>ml_waker := w\<rparr>)) cells)"
proof (cases "ml_locked (lk i)")
  case True
  obtain w ws where w: "WakerRegistration_register (ml_waker (lk i)) cx = (w, ws)" by fastforce
  then have "lock_body cx (lk i) = (False, (lk i)\<lparr>ml_waker := w\<rparr>, ws)" using True by (simp add: lock_body_def)
  note st = on_mutex_state_of [where f = "lock_borrowing (lock_body cx)" and lk = lk and i = i,
      OF lock_borrowing_cell_of [where f = "lock_body cx", OF d this]]
  show ?thesis by (intro pending [OF True w]) (simp add: MutexRef_lock_poll_def st)
next
  case False
  then have "lock_body cx (lk i) = (True, (lk i)\<lparr>ml_locked := True\<rparr>, [])" by (simp add: lock_body_def)
  note st = on_mutex_state_of [where f = "lock_borrowing (lock_body cx)" and lk = lk and i = i,
      OF lock_borrowing_cell_of [where f = "lock_body cx", OF d this]]
  show ?thesis by (intro ready [OF False]) (simp add: MutexRef_lock_poll_def st)
qed

lemma try_lock_of:
  assumes d: "d < 2 ^ 32 - 1"
  obtains (ready) "\<not> ml_locked (lk i)" "MutexRef_try_lock i (mutex_mem_of d data lk cells) =
      (Ret (Ok (GuardRef i)), mutex_mem_of d data (lk(i := (lk i)\<lparr>ml_locked := True\<rparr>)) cells)"
    | (locked) "MutexRef_try_lock i (mutex_mem_of d data lk cells) =
        (Ret (Err TryLockError), mutex_mem_of d data lk cells)"
proof (cases "ml_locked (lk i)")
  case True
  then have "try_lock_body (lk i) = (Err TryLockError, lk i, [])" by (simp add: try_lock_body_def)
  note st = on_mutex_state_of [where f = "lock_borrowing try_lock_body" and lk = lk and i = i,
      OF lock_borrowing_cell_of [where f = try_lock_body, OF d this]]
  show ?thesis by (intro locked) (simp add: MutexRef_try_lock_def st)
next
  case False
  then have "try_lock_body (lk i) = (Ok (), (lk i)\<lparr>ml_locked := True\<rparr>, [])" by (simp add: try_lock_body_def)
  note st = on_mutex_state_of [where f = "lock_borrowing try_lock_body" and lk = lk and i = i,
      OF lock_borrowing_cell_of [where f = try_lock_body, OF d this]]
  show ?thesis by (intro ready [OF False]) (simp add: MutexRef_try_lock_def st)
qed

lemma drop_of:
  assumes d: "d < 2 ^ 32 - 1" and w: "WakerRegistration_wake (ml_waker (lk (guard_mutex g))) = (w, ws)"
  shows "GuardRef_drop g (mutex_mem_of d data lk cells) =
    (Ret ((), ws), mutex_mem_of d data (lk(guard_mutex g := \<lparr>ml_locked = False, ml_waker = w\<rparr>)) cells)"
proof -
  have "unlock_body (lk i) = ((), \<lparr>ml_locked = False, ml_waker = w\<rparr>, ws)" if "i = guard_mutex g" for i
    using w that by (simp add: unlock_body_def)
  from on_mutex_state_of [where f = "lock_ref_cell unlock_body" and lk = lk and i = "guard_mutex g",
      OF lock_cell_of [where f = unlock_body, OF d this [OF refl]]] show ?thesis
    by (cases g) simp_all
qed

text \<open>A guard reaches a part of the data of its mutex.\<close>

definition range_within :: "mem_range \<Rightarrow> mem_range \<Rightarrow> bool" where
  "range_within r q \<longleftrightarrow> fst q \<le> fst r \<and> fst r + snd r \<le> fst q + snd q"

lemma range_within_set: "range_within r q \<Longrightarrow> range_set r \<subseteq> range_set q"
  by (auto simp: range_within_def range_set_def)

fun guard_within :: "(nat \<Rightarrow> mem_range) \<Rightarrow> guard_ref \<Rightarrow> bool" where
  "guard_within data (GuardRef i) \<longleftrightarrow> True"
| "guard_within data (MappedRef i r) \<longleftrightarrow> range_within r (data i)"

lemma guard_range_within:
  "guard_within data g \<Longrightarrow> range_within (guard_range (mutex_mem_of d data lk cells) g) (data (guard_mutex g))"
  by (cases g) (simp_all add: range_within_def)

lemma read_range_length [simp]: "length (read_range r cells) = snd r"
  by (simp add: read_range_def)

lemma write_range_outside:
  "length xs = snd r \<Longrightarrow> a \<notin> range_set r \<Longrightarrow> write_range r xs cells a = cells a"
  by (auto simp: write_range_def range_set_def)

lemma map_of:
  assumes "projection_ok fun" "guard_within data g"
  shows "\<exists>g' cells'. GuardRef_map fun g (mutex_mem_of d data lk cells) = (g', mutex_mem_of d data lk cells') \<and>
    guard_mutex g' = guard_mutex g \<and> guard_within data g' \<and>
    (\<forall>a. a \<notin> range_set (data (guard_mutex g)) \<longrightarrow> cells' a = cells a)"
proof -
  let ?M = "mutex_mem_of d data lk cells"
  let ?r = "guard_range ?M g"
  obtain xs off len where f: "fun (read_range ?r cells) = (xs, off, len)" by (metis surj_pair)
  have ok: "length xs = snd ?r" "off + len \<le> snd ?r"
    using assms(1) f unfolding projection_ok_def by (metis fst_conv snd_conv read_range_length)+
  note within = guard_range_within [OF assms(2), of d lk cells]
  let ?g = "MappedRef (guard_mutex g) (fst ?r + off, len)"
  have "GuardRef_map fun g ?M = (?g, mutex_mem_of d data lk (write_range ?r xs cells))"
    using f by (cases g) (simp_all add: MutexGuard_map_in_def MappedMutexGuard_map_in_def map_range_def)
  moreover have "guard_within data ?g" using within ok by (simp add: range_within_def)
  moreover have "write_range ?r xs cells a = cells a" if "a \<notin> range_set (data (guard_mutex g))" for a
    using that range_within_set [OF within] by (intro write_range_outside [OF ok(1)]) blast
  ultimately show ?thesis by (intro exI [of _ ?g] exI [of _ "write_range ?r xs cells"]) simp
qed

section \<open>Invariant\<close>

definition guards_ok :: "(nat \<Rightarrow> mem_range) \<Rightarrow> (nat \<Rightarrow> mutex_lock_state) \<Rightarrow> (nat \<Rightarrow> guard_ref option) \<Rightarrow> bool" where
  "guards_ok data lk G \<longleftrightarrow>
     (\<forall>i. ml_locked (lk i) \<longleftrightarrow> (\<exists>k g. G k = Some g \<and> guard_mutex g = i)) \<and>
     (\<forall>k l g h. G k = Some g \<longrightarrow> G l = Some h \<longrightarrow> guard_mutex g = guard_mutex h \<longrightarrow> k = l) \<and>
     (\<forall>k g. G k = Some g \<longrightarrow> guard_within data g)"

definition sleepers_ok :: "(nat \<Rightarrow> mutex_lock_state) \<Rightarrow> (nat \<Rightarrow> waker set) \<Rightarrow> bool" where
  "sleepers_ok lk S \<longleftrightarrow> (\<forall>i. S i \<subseteq> wr_registered (ml_waker (lk i)) \<and> (S i \<noteq> {} \<longrightarrow> ml_locked (lk i)))"

definition mutex_users_inv ::
  "nat \<Rightarrow> (nat \<Rightarrow> mem_range) \<Rightarrow> (nat \<Rightarrow> 'c) \<Rightarrow> 'c mutex_users \<Rightarrow> bool" where
  "mutex_users_inv d data cells0 u \<longleftrightarrow> (\<exists>lk cells. mu_mem u = mutex_mem_of d data lk cells \<and>
     guards_ok data lk (mu_guards u) \<and> sleepers_ok lk (mu_sleepers u) \<and>
     (\<forall>a. (\<forall>i. a \<notin> range_set (data i)) \<longrightarrow> cells a = cells0 a))"

lemma mutex_users_invI:
  assumes "mu_mem u = mutex_mem_of d data lk cells" "guards_ok data lk (mu_guards u)"
    "sleepers_ok lk (mu_sleepers u)" "\<And>a. (\<And>i. a \<notin> range_set (data i)) \<Longrightarrow> cells a = cells0 a"
  shows "mutex_users_inv d data cells0 u"
  using assms unfolding mutex_users_inv_def by blast

lemma guards_ok_take:
  assumes "guards_ok data lk G" "\<not> ml_locked (lk i)" "G k = None" "ml_locked s"
  shows "guards_ok data (lk(i := s)) (G(k \<mapsto> GuardRef i))"
proof -
  note G = assms(1) [unfolded guards_ok_def]
  have "ml_locked ((lk(i := s)) j) \<longleftrightarrow> (\<exists>l g. (G(k \<mapsto> GuardRef i)) l = Some g \<and> guard_mutex g = j)" for j
  proof (cases "j = i")
    case True
    with assms(4) show ?thesis by (auto intro: exI [of _ k])
  next
    case False
    then have "(\<exists>l g. (G(k \<mapsto> GuardRef i)) l = Some g \<and> guard_mutex g = j) \<longleftrightarrow>
        (\<exists>l g. G l = Some g \<and> guard_mutex g = j)"
      using assms(3) by (metis fun_upd_apply guard_mutex.simps(1) option.distinct(1) option.inject)
    with G False show ?thesis by simp
  qed
  moreover have "\<forall>l g. G l = Some g \<longrightarrow> guard_mutex g \<noteq> i" using G assms(2) by blast
  ultimately show ?thesis using G unfolding guards_ok_def by (auto split: if_splits)
qed

lemma guards_ok_drop:
  assumes "guards_ok data lk G" "G k = Some g" "\<not> ml_locked s"
  shows "guards_ok data (lk(guard_mutex g := s)) (G(k := None))"
  using assms unfolding guards_ok_def by (auto split: if_splits) (metis option.inject)+

lemma guards_ok_same:
  assumes "guards_ok data lk G" "ml_locked s = ml_locked (lk i)"
  shows "guards_ok data (lk(i := s)) G"
  using assms unfolding guards_ok_def by auto

lemma guards_ok_replace:
  assumes "guards_ok data lk G" "G k = Some g" "guard_mutex g' = guard_mutex g" "guard_within data g'"
  shows "guards_ok data lk (G(k \<mapsto> g'))"
  using assms unfolding guards_ok_def by (auto split: if_splits) (metis option.inject)+

lemma sleepers_ok_wait:
  assumes "sleepers_ok lk S" "ml_locked (lk i)" "WakerRegistration_register (ml_waker (lk i)) cx = (w, ws)"
  shows "sleepers_ok (lk(i := (lk i)\<lparr>ml_waker := w\<rparr>)) (S(i := insert cx (S i - set ws)))"
  using assms wr.sleepers_register [OF TrueI _ arg_cong [OF assms(3), of Ret], of "S i"]
  by (auto simp: sleepers_ok_def)

lemma sleepers_ok_drop:
  assumes "sleepers_ok lk S" "WakerRegistration_wake (ml_waker (lk i)) = (w, ws)"
  shows "sleepers_ok (lk(i := \<lparr>ml_locked = False, ml_waker = w\<rparr>)) (S(i := S i - set ws))"
proof -
  have "S i - set ws = {}"
    using assms(1) by (intro wr.sleepers_wake [OF TrueI _ assms(2)]) (simp add: sleepers_ok_def)
  with assms(1) show ?thesis by (auto simp: sleepers_ok_def)
qed

lemma sleepers_ok_take: "sleepers_ok lk S \<Longrightarrow> sleepers_ok (lk(i := (lk i)\<lparr>ml_locked := True\<rparr>)) S"
  by (auto simp: sleepers_ok_def)

lemma mutex_call_ok_step:
  assumes d: "d < 2 ^ 32 - 1" and inv: "mutex_users_inv d data cells0 u" and ok: "mutex_call_ok x"
  shows "\<exists>u'. mutex_call_exec x u = Ret u' \<and> mutex_users_inv d data cells0 u'"
proof -
  from inv obtain lk cells where u: "mu_mem u = mutex_mem_of d data lk cells" "guards_ok data lk (mu_guards u)"
    "sleepers_ok lk (mu_sleepers u)" "\<And>a. (\<And>i. a \<notin> range_set (data i)) \<Longrightarrow> cells a = cells0 a"
    unfolding mutex_users_inv_def by blast
  have wrote: "mutex_users_inv d data cells0 (u\<lparr>mu_mem := mutex_mem_of d data lk (write_range r xs cells)\<rparr>)"
    if "length xs = snd r" "range_within r (data i)" for r i xs
  proof (rule mutex_users_invI)
    fix a
    assume "\<And>i. a \<notin> range_set (data i)"
    then show "write_range r xs cells a = cells0 a"
      using u(4) range_within_set [OF that(2)] write_range_outside [OF that(1), of a cells] by fastforce
  qed (use u(2,3) in auto)
  have within: "range_within (guard_range (mutex_mem_of d data lk cells) g) (data (guard_mutex g))"
    if "mu_guards u k = Some g" for k g
    using u(2) that by (intro guard_range_within) (auto simp: guards_ok_def)
  show ?thesis
  proof (cases x)
    case (MxLock k i cx)
    show ?thesis
    proof (cases "mu_guards u k = None")
      case True
      from d show ?thesis
      proof (cases rule: lock_poll_of [of d lk i cx data cells])
        case ready
        let ?u = "u\<lparr>mu_mem := mutex_mem_of d data (lk(i := (lk i)\<lparr>ml_locked := True\<rparr>)) cells,
          mu_guards := (mu_guards u)(k \<mapsto> GuardRef i)\<rparr>"
        have "mutex_users_inv d data cells0 ?u"
          using u(4) guards_ok_take [OF u(2) ready(1) True] sleepers_ok_take [OF u(3)]
          by (intro mutex_users_invI [of _ _ _ "lk(i := (lk i)\<lparr>ml_locked := True\<rparr>)" cells]) auto
        then show ?thesis using MxLock True ready(2) u(1) by simp
      next
        case (pending w ws)
        let ?u = "u\<lparr>mu_mem := mutex_mem_of d data (lk(i := (lk i)\<lparr>ml_waker := w\<rparr>)) cells,
          mu_sleepers := (mu_sleepers u)(i := insert cx (mu_sleepers u i - set ws))\<rparr>"
        have "mutex_users_inv d data cells0 ?u"
          using u(4) guards_ok_same [OF u(2)] sleepers_ok_wait [OF u(3) pending(1,2)]
          by (intro mutex_users_invI [of _ _ _ "lk(i := (lk i)\<lparr>ml_waker := w\<rparr>)" cells]) auto
        then show ?thesis using MxLock True pending(3) u(1) by simp
      qed
    qed (use MxLock inv in auto)
  next
    case (MxTryLock k i)
    show ?thesis
    proof (cases "mu_guards u k = None")
      case True
      from d show ?thesis
      proof (cases rule: try_lock_of [of d lk i data cells])
        case ready
        let ?u = "u\<lparr>mu_mem := mutex_mem_of d data (lk(i := (lk i)\<lparr>ml_locked := True\<rparr>)) cells,
          mu_guards := (mu_guards u)(k \<mapsto> GuardRef i)\<rparr>"
        have "mutex_users_inv d data cells0 ?u"
          using u(4) guards_ok_take [OF u(2) ready(1) True] sleepers_ok_take [OF u(3)]
          by (intro mutex_users_invI [of _ _ _ "lk(i := (lk i)\<lparr>ml_locked := True\<rparr>)" cells]) auto
        then show ?thesis using MxTryLock True ready(2) u(1) by simp
      next
        case locked
        have "mutex_users_inv d data cells0 (u\<lparr>mu_mem := mutex_mem_of d data lk cells\<rparr>)"
          using u(2-4) by (intro mutex_users_invI [of _ _ _ lk cells]) auto
        then show ?thesis using MxTryLock True locked u(1) by simp
      qed
    qed (use MxTryLock inv in auto)
  next
    case (MxMap k proj)
    show ?thesis
    proof (cases "mu_guards u k")
      case (Some g)
      have "guard_within data g" using u(2) Some by (auto simp: guards_ok_def)
      from map_of [OF _ this, of proj d lk cells] ok MxMap obtain g' cells' where
        m: "GuardRef_map proj g (mutex_mem_of d data lk cells) = (g', mutex_mem_of d data lk cells')"
        "guard_mutex g' = guard_mutex g" "guard_within data g'"
        "\<forall>a. a \<notin> range_set (data (guard_mutex g)) \<longrightarrow> cells' a = cells a" by auto
      have "mutex_users_inv d data cells0 (u\<lparr>mu_mem := mutex_mem_of d data lk cells',
          mu_guards := (mu_guards u)(k \<mapsto> g')\<rparr>)"
        using u(3,4) m(4) guards_ok_replace [OF u(2) Some m(2,3)]
        by (intro mutex_users_invI [of _ _ _ lk cells']) auto
      then show ?thesis using MxMap Some m(1) u(1) by simp
    qed (use MxMap inv in auto)
  next
    case (MxWrite k upd)
    show ?thesis
    proof (cases "mu_guards u k")
      case (Some g)
      with wrote [OF _ within [OF Some]] ok MxWrite u(1) show ?thesis
        by (simp add: GuardRef_deref_mut_def GuardRef_deref_def)
    qed (use MxWrite inv in auto)
  next
    case (MxDrop k)
    show ?thesis
    proof (cases "mu_guards u k")
      case (Some g)
      obtain w ws where w: "WakerRegistration_wake (ml_waker (lk (guard_mutex g))) = (w, ws)" by fastforce
      let ?lk = "lk(guard_mutex g := \<lparr>ml_locked = False, ml_waker = w\<rparr>)"
      have "mutex_users_inv d data cells0 (u\<lparr>mu_mem := mutex_mem_of d data ?lk cells, mu_guards := (mu_guards u)(k := None),
          mu_sleepers := (mu_sleepers u)(guard_mutex g := mu_sleepers u (guard_mutex g) - set ws)\<rparr>)"
        using u(4) guards_ok_drop [OF u(2) Some, of "\<lparr>ml_locked = False, ml_waker = w\<rparr>"] sleepers_ok_drop [OF u(3) w]
        by (intro mutex_users_invI [of _ _ _ ?lk cells]) auto
      then show ?thesis using MxDrop Some u(1) by (simp add: drop_of [where lk = lk, OF d w])
    qed (use MxDrop inv in auto)
  next
    case (MxGetMut i upd)
    have "mutex_users_inv d data cells0 (u\<lparr>mu_mem := MutexRef_get_mut upd i (mu_mem u)\<rparr>)"
      using wrote [of "upd (read_range (data i) cells)" "data i" i] ok MxGetMut u(1)
      by (simp add: MutexRef_get_mut_def range_within_def Let_def)
    then show ?thesis using MxGetMut inv by simp
  qed
qed

lemma mutex_calls_ok:
  assumes d: "d < 2 ^ 32 - 1" and "mutex_users_inv d data cells0 u" "list_all mutex_call_ok xs"
  shows "\<exists>u'. mutex_calls xs u = Ret u' \<and> mutex_users_inv d data cells0 u'"
  using assms(2,3)
proof (induction xs arbitrary: u)
  case (Cons x xs)
  from mutex_call_ok_step [OF d Cons.prems(1), of x] Cons.prems(2) obtain u1 where
    "mutex_call_exec x u = Ret u1" "mutex_users_inv d data cells0 u1" by auto
  with Cons.IH [of u1] Cons.prems(2) show ?case by simp
qed simp

lemma mutex_users_new_inv: "mutex_users_inv d data cells (mutex_users_new d data cells)"
  by (rule mutex_users_invI [of _ _ _ "\<lambda>_. \<lparr>ml_locked = False, ml_waker = WakerRegistration_new\<rparr>" cells])
    (simp_all add: mutex_users_new_def mutex_mem_of_def MutexStruct_new_def cell_of_def guards_ok_def sleepers_ok_def)

section \<open>Exclusion\<close>

definition mutex_locked :: "'c mutex_mem \<Rightarrow> nat \<Rightarrow> bool" where
  "mutex_locked M i \<longleftrightarrow> ml_locked (rc_value (bm_data (mx_state (mm_mutexes M i))))"

definition mutex_registered :: "'c mutex_mem \<Rightarrow> nat \<Rightarrow> waker set" where
  "mutex_registered M i = wr_registered (ml_waker (rc_value (bm_data (mx_state (mm_mutexes M i)))))"

lemma mutex_locked_of [simp]:
  "mutex_locked (mutex_mem_of d data lk cells) i \<longleftrightarrow> ml_locked (lk i)"
  "mutex_registered (mutex_mem_of d data lk cells) i = wr_registered (ml_waker (lk i))"
  by (simp_all add: mutex_locked_def mutex_registered_def cell_of_def BlockingMutex_new_def RefCell_new_def)

text \<open>
  C12. The asynchronous mutex with its guards: for mutexes whose data do not overlap and any sequence of locking, trying
  to lock, mapping guards to parts of the data, reading and writing through them and dropping them, inside any number of critical
  sections below the limit of the nesting counter, every call returns and no cell is found borrowed.  Afterwards two
  guards never belong to one mutex and never reach the same memory; every guard reaches data of its own mutex
  only; a mutex is locked exactly when it has a guard; a task that sleeps in \<open>lock\<close> is registered with a
  locked mutex; and memory outside the data of the mutexes is as it was.
\<close>

theorem guards_exclusive:
  assumes "d < 2 ^ 32 - 1" and disjoint: "\<And>i j. i \<noteq> j \<Longrightarrow> range_set (data i) \<inter> range_set (data j) = {}"
    and "list_all mutex_call_ok xs"
  shows "\<exists>u. mutex_calls xs (mutex_users_new d data cells) = Ret u \<and> mm_irq (mu_mem u) = in_sections d \<and>
    (\<forall>k l g h. k \<noteq> l \<longrightarrow> mu_guards u k = Some g \<longrightarrow> mu_guards u l = Some h \<longrightarrow> guard_mutex g \<noteq> guard_mutex h \<and>
       range_set (guard_range (mu_mem u) g) \<inter> range_set (guard_range (mu_mem u) h) = {}) \<and>
    (\<forall>k g. mu_guards u k = Some g \<longrightarrow> range_set (guard_range (mu_mem u) g) \<subseteq> range_set (data (guard_mutex g))) \<and>
    (\<forall>i. mutex_locked (mu_mem u) i \<longleftrightarrow> (\<exists>k g. mu_guards u k = Some g \<and> guard_mutex g = i)) \<and>
    (\<forall>i. mu_sleepers u i \<subseteq> mutex_registered (mu_mem u) i \<and> (mu_sleepers u i \<noteq> {} \<longrightarrow> mutex_locked (mu_mem u) i)) \<and>
    (\<forall>a. (\<forall>i. a \<notin> range_set (data i)) \<longrightarrow> mm_cells (mu_mem u) a = cells a)"
proof -
  from mutex_calls_ok [OF assms(1) mutex_users_new_inv assms(3)] obtain u where
    u: "mutex_calls xs (mutex_users_new d data cells) = Ret u" "mutex_users_inv d data cells u" by blast
  then obtain lk cells' where i: "mu_mem u = mutex_mem_of d data lk cells'" "guards_ok data lk (mu_guards u)"
    "sleepers_ok lk (mu_sleepers u)" "\<forall>a. (\<forall>i. a \<notin> range_set (data i)) \<longrightarrow> cells' a = cells a"
    unfolding mutex_users_inv_def by blast
  note G = i(2) [unfolded guards_ok_def]
  have within: "range_set (guard_range (mu_mem u) g) \<subseteq> range_set (data (guard_mutex g))" if "mu_guards u k = Some g" for k g
    unfolding i(1) using G that by (intro range_within_set guard_range_within) blast
  have apart: "guard_mutex g \<noteq> guard_mutex h \<and>
      range_set (guard_range (mu_mem u) g) \<inter> range_set (guard_range (mu_mem u) h) = {}"
    if "k \<noteq> l" "mu_guards u k = Some g" "mu_guards u l = Some h" for k l g h
  proof -
    have "guard_mutex g \<noteq> guard_mutex h" using G that by blast
    with disjoint [OF this] within [OF that(2)] within [OF that(3)] show ?thesis by blast
  qed
  have "mm_irq (mu_mem u) = in_sections d" by (simp add: i(1))
  moreover have "\<forall>i. mutex_locked (mu_mem u) i \<longleftrightarrow> (\<exists>k g. mu_guards u k = Some g \<and> guard_mutex g = i)"
    using G by (simp add: i(1))
  moreover have "\<forall>i. mu_sleepers u i \<subseteq> mutex_registered (mu_mem u) i \<and>
      (mu_sleepers u i \<noteq> {} \<longrightarrow> mutex_locked (mu_mem u) i)" using i(3) by (simp add: i(1) sleepers_ok_def)
  moreover have "\<forall>a. (\<forall>i. a \<notin> range_set (data i)) \<longrightarrow> mm_cells (mu_mem u) a = cells a" using i(4) by (simp add: i(1))
  ultimately show ?thesis using u(1) within apart by blast
qed

text \<open>A mutex of a pair at addresses 10 and 11 with a guard mapped to its second half, and a task that waits for it.\<close>

definition second_half :: "nat projection" where
  "second_half xs = (xs, length xs div 2, length xs - length xs div 2)"

definition example_mutex_calls :: "nat mutex_call list" where
  "example_mutex_calls = [MxLock 0 1 (RawWaker 5 VTABLE), MxMap 0 second_half, MxWrite 0 (map (\<lambda>x. x + 7)),
     MxLock 2 1 (RawWaker 6 VTABLE)]"

lemmas mutex_eval = MutexRef_lock_poll_def on_mutex_state_def lock_borrowing_def lock_body_def BlockingMutex_lock_def
  CriticalSectionRawMutex_lock_def critical_section_with_def Section_acquire_def Section_release_def in_sections_def
  MutexStruct_new_def BlockingMutex_new_def RefCell_new_def RefCell_borrow_mut_def RefCell_try_borrow_mut_def
  RefMut_drop_def MutexGuard_map_in_def map_range_def GuardRef_deref_mut_def GuardRef_deref_def read_range_def
  write_range_def second_half_def waker_registration_defs

theorem guards_exclusive_witness:
  "\<exists>u. mutex_calls example_mutex_calls (mutex_users_new 0 (\<lambda>i. (10 * i, 2)) (\<lambda>a. a)) = Ret u \<and>
     mu_guards u 0 = Some (MappedRef 1 (11, 1)) \<and> mm_cells (mu_mem u) 11 = 18 \<and> mm_cells (mu_mem u) 5 = 5 \<and>
     mutex_locked (mu_mem u) 1 \<and> RawWaker 6 VTABLE \<in> mutex_registered (mu_mem u) 1"
proof -
  let ?run = "mutex_calls example_mutex_calls (mutex_users_new 0 (\<lambda>i. (10 * i, 2)) (\<lambda>a. a))"
  have ok: "list_all mutex_call_ok example_mutex_calls"
    by (simp add: example_mutex_calls_def second_half_def projection_ok_def)
  have apart: "range_set (10 * i, 2) \<inter> range_set (10 * j, 2) = {}" if "i \<noteq> j" for i j
    using that by (auto simp: range_set_def)
  from guards_exclusive [where d = 0 and data = "\<lambda>i. (10 * i, 2)" and cells = "\<lambda>a. a", OF _ apart ok]
  obtain u where u: "?run = Ret u" "mm_irq (mu_mem u) = in_sections 0"
    "\<forall>k g. mu_guards u k = Some g \<longrightarrow> range_set (guard_range (mu_mem u) g) \<subseteq> range_set (10 * guard_mutex g, 2)"
    "\<forall>i. mutex_locked (mu_mem u) i \<longleftrightarrow> (\<exists>k g. mu_guards u k = Some g \<and> guard_mutex g = i)"
    "\<forall>i. mu_sleepers u i \<subseteq> mutex_registered (mu_mem u) i"
    "\<forall>a. (\<forall>i. a \<notin> range_set (10 * i, 2)) \<longrightarrow> mm_cells (mu_mem u) a = a" by auto
  have "bind_out ?run (\<lambda>u. Ret (mu_guards u 0, mm_cells (mu_mem u) 11, mu_sleepers u 1)) =
      Ret (Some (MappedRef 1 (11, 1)), 18, {RawWaker 6 VTABLE})"
    by (simp add: example_mutex_calls_def mutex_users_new_def mutex_eval del: bind_out_eq_Ret)
  then have v: "mu_guards u 0 = Some (MappedRef 1 (11, 1))" "mm_cells (mu_mem u) 11 = 18"
    "mu_sleepers u 1 = {RawWaker 6 VTABLE}" by (simp_all add: u(1))
  have "5 \<notin> range_set (10 * i, 2)" for i by (simp add: range_set_def) presburger
  with u(6) have "mm_cells (mu_mem u) 5 = 5" by blast
  moreover have "mutex_locked (mu_mem u) 1" using u(4) v(1) by (metis guard_mutex.simps(2))
  moreover have "RawWaker 6 VTABLE \<in> mutex_registered (mu_mem u) 1" using u(5) v(3) by auto
  ultimately show ?thesis using u(1) v by blast
qed

end
